(* ===== verification/Prelude.thy ===== *)
theory Prelude
  imports Main "HOL-Library.Word"
begin

unbundle bit_operations_syntax

text \<open>
  Shared vocabulary of the development: the fixed-width types of the C++ code
  (\<open>uint8_t\<close>, \<open>uint32_t\<close>, \<open>uint64_t\<close>), byte strings and their
  little-endian value, bounded digit lists, and the generic facts on lists and words
  that the component theories use.  Nothing here models a function of the program;
  the components are in the theories that import this one.
\<close>

named_theorems limb_simps \<open>lengths and values of limb and byte lists\<close>
named_theorems codec_simps \<open>what a reader returns on the output of its writer\<close>
named_theorems invar_intros \<open>preservation of invariants by operations\<close>

type_synonym u8 = "8 word"
type_synonym u16 = "16 word"
type_synonym u32 = "32 word"
type_synonym u64 = "64 word"
type_synonym bytes = "u8 list"

section \<open>Fixed-width words as naturals\<close>

lemma unat_u8_less [simp]: "unat (b :: u8) < 256"
  by (rule less_le_trans [OF unsigned_less]) simp

lemma unat_u16_less [simp]: "unat (b :: u16) < 65536"
  by (rule less_le_trans [OF unsigned_less]) simp

lemma unat_u32_less [simp]: "unat (b :: u32) < 4294967296"
  by (rule less_le_trans [OF unsigned_less]) simp

lemma unat_u64_less [simp]: "unat (b :: u64) < 18446744073709551616"
  by (rule less_le_trans [OF unsigned_less]) simp

lemma unat_u8_of_nat [simp]: "unat (of_nat n :: u8) = n mod 256"
  by (simp add: unat_of_nat)

lemma unat_u32_of_nat [simp]: "unat (of_nat n :: u32) = n mod 4294967296"
  by (simp add: unat_of_nat)

lemma unat_u64_of_nat [simp]: "unat (of_nat n :: u64) = n mod 18446744073709551616"
  by (simp add: unat_of_nat)

lemma unat_u16_of_nat [simp]: "unat (of_nat n :: u16) = n mod 65536"
  by (simp add: unat_of_nat)

lemma unat_ucast_u32_u64 [simp]: "unat (ucast (a :: u32) :: u64) = unat a"
  by (simp add: unsigned_ucast_eq take_bit_eq_mod mod_less less_trans [OF unat_u32_less])

lemma unat_ucast_u64_u32 [simp]: "unat (ucast (a :: u64) :: u32) = unat a mod 4294967296"
  by (simp add: unsigned_ucast_eq take_bit_eq_mod)

lemma unat_ucast_u64_u16 [simp]: "unat (ucast (a :: u64) :: u16) = unat a mod 65536"
  by (simp add: unsigned_ucast_eq take_bit_eq_mod)

lemma unat_ucast_u64_u8 [simp]: "unat (ucast (a :: u64) :: u8) = unat a mod 256"
  by (simp add: unsigned_ucast_eq take_bit_eq_mod)

lemma unat_ucast_u32_u8 [simp]: "unat (ucast (a :: u32) :: u8) = unat a mod 256"
  by (simp add: unsigned_ucast_eq take_bit_eq_mod)

lemma unat_ucast_u8_u32 [simp]: "unat (ucast (a :: u8) :: u32) = unat a"
  by (simp add: unsigned_ucast_eq take_bit_eq_mod mod_less less_trans [OF unat_u8_less])

lemma unat_ucast_u8_u64 [simp]: "unat (ucast (a :: u8) :: u64) = unat a"
  by (simp add: unsigned_ucast_eq take_bit_eq_mod mod_less less_trans [OF unat_u8_less])

lemma unat_ucast_u16_u64 [simp]: "unat (ucast (a :: u16) :: u64) = unat a"
  by (simp add: unsigned_ucast_eq take_bit_eq_mod mod_less less_trans [OF unat_u16_less])

lemma unat_drop_bit_u64: "unat (drop_bit n (a :: u64)) = unat a div 2 ^ n"
  by (simp only: unat_drop_bit_eq drop_bit_eq_div [of n "unat a"])

lemma unat_add_exact:
  fixes a b :: "'a :: len word"
  assumes "unat a + unat b < 2 ^ LENGTH('a)"
  shows "unat (a + b) = unat a + unat b"
  using assms by (simp add: unat_word_ariths)

lemma unat_mult_exact:
  fixes a b :: "'a :: len word"
  assumes "unat a * unat b < 2 ^ LENGTH('a)"
  shows "unat (a * b) = unat a * unat b"
  using assms by (simp add: unat_word_ariths)

section \<open>Little-endian byte strings\<close>

primrec le_val :: "bytes \<Rightarrow> nat" where
  "le_val [] = 0"
| "le_val (b # bs) = unat b + 256 * le_val bs"

primrec le_bytes :: "nat \<Rightarrow> nat \<Rightarrow> bytes" where
  "le_bytes 0 x = []"
| "le_bytes (Suc n) x = of_nat (x mod 256) # le_bytes n (x div 256)"

lemma length_le_bytes [simp, limb_simps]: "length (le_bytes n x) = n"
  by (induction n arbitrary: x) auto

lemma le_val_bound: "le_val bs < 256 ^ length bs"
proof (induction bs)
  case Nil
  show ?case by simp
next
  case (Cons b bs)
  have "unat b + 256 * le_val bs \<le> 255 + 256 * (256 ^ length bs - 1)"
    using unat_u8_less [of b] Cons.IH by linarith
  also have "\<dots> < 256 ^ length (b # bs)"
    by (simp add: diff_mult_distrib2)
  finally show ?case by simp
qed

lemma le_val_le_bytes [limb_simps]: "le_val (le_bytes n x) = x mod 256 ^ n"
proof (induction n arbitrary: x)
  case 0
  show ?case by simp
next
  case (Suc n)
  have "x mod 256 ^ Suc n = x mod 256 + 256 * (x div 256 mod 256 ^ n)"
    by (simp add: mod_mult2_eq)
  then show ?case by (simp add: Suc.IH)
qed

lemma le_bytes_le_val [limb_simps]: "le_bytes (length bs) (le_val bs) = bs"
proof (induction bs)
  case Nil
  show ?case by simp
next
  case (Cons b bs)
  have "(unat b + 256 * le_val bs) mod 256 = unat b"
    "(unat b + 256 * le_val bs) div 256 = le_val bs"
    using unat_u8_less [of b] by simp_all
  then show ?case by (simp add: Cons.IH)
qed

lemma le_val_append: "le_val (xs @ ys) = le_val xs + 256 ^ length xs * le_val ys"
  by (induction xs) (simp_all add: algebra_simps)

lemma le_bytes_inject:
  assumes "x < 256 ^ n" "y < 256 ^ n" "le_bytes n x = le_bytes n y"
  shows "x = y"
  using assms by (metis le_val_le_bytes mod_less)

section \<open>Lists\<close>

lemma list_update_append_length [simp]:
  "(xs @ y # ys)[length xs := z] = xs @ z # ys"
  by (simp add: list_update_append)

lemma butlast_append_last:
  "xs \<noteq> [] \<Longrightarrow> butlast xs @ [last xs] = xs"
  by simp

lemma nth_last_minus:
  "n < length xs \<Longrightarrow> rev xs ! n = xs ! (length xs - Suc n)"
  by (simp add: rev_nth)

end
