(* ===== verification/BigUint.thy ===== *)
theory BigUint
  imports Prelude
begin

unbundle bit_operations_syntax

text \<open>
  The fixed-width big integers of \<open>src/uint256.h\<close> and \<open>src/uint256.cpp\<close>
  (\<open>base_uint<BITS>\<close>, with \<open>uint160\<close>, \<open>uint256\<close> and \<open>uint512\<close>).  The array
  \<open>uint32_t pn[WIDTH]\<close> is a list of 32-bit words, least significant first, whose length is
  \<open>WIDTH\<close>; every loop of the code over the limbs is a recursion over that list or over the
  loop index.  \<open>pn_val\<close> is the number an array denotes; the lemmas say what each operator
  does to that number: the ring operations work modulo 2 to the \<open>BITS\<close>, division is exact, the
  shifts are the shifts of naturals cut to \<open>BITS\<close> bits, and the compact form of difficulty
  targets denotes what its comment says, overflow flag included.
\<close>

type_synonym limbs = "u32 list"

section \<open>Construction and bitwise operators\<close>

definition uint160_WIDTH :: nat where [simp]: "uint160_WIDTH = 5"
definition uint256_WIDTH :: nat where [simp]: "uint256_WIDTH = 8"
definition uint512_WIDTH :: nat where [simp]: "uint512_WIDTH = 16"

definition bu_zero :: "nat \<Rightarrow> limbs" where
  "bu_zero W = replicate W 0"

primrec IsNull :: "limbs \<Rightarrow> bool" where
  "IsNull [] = True"
| "IsNull (x # xs) = (if x \<noteq> 0 then False else IsNull xs)"

definition of_u64 :: "nat \<Rightarrow> u64 \<Rightarrow> limbs" where
  "of_u64 W b = ucast b # ucast (drop_bit 32 b) # replicate (W - 2) 0"

definition bu_not :: "limbs \<Rightarrow> limbs" where
  "bu_not a = map (\<lambda>x. NOT x) a"

definition bu_xor :: "limbs \<Rightarrow> limbs \<Rightarrow> limbs" where
  "bu_xor a b = map2 (\<lambda>x y. x XOR y) a b"

definition bu_and :: "limbs \<Rightarrow> limbs \<Rightarrow> limbs" where
  "bu_and a b = map2 (\<lambda>x y. x AND y) a b"

definition bu_or :: "limbs \<Rightarrow> limbs \<Rightarrow> limbs" where
  "bu_or a b = map2 (\<lambda>x y. x OR y) a b"

definition bu_xor64 :: "limbs \<Rightarrow> u64 \<Rightarrow> limbs" where
  "bu_xor64 a b = a[0 := a ! 0 XOR ucast b, 1 := a ! 1 XOR ucast (drop_bit 32 b)]"

definition bu_or64 :: "limbs \<Rightarrow> u64 \<Rightarrow> limbs" where
  "bu_or64 a b = a[0 := a ! 0 OR ucast b, 1 := a ! 1 OR ucast (drop_bit 32 b)]"

section \<open>Addition, negation and subtraction\<close>

text \<open>The prefix increment and decrement stop at the first limb that does not wrap.\<close>

primrec bu_inc :: "limbs \<Rightarrow> limbs" where
  "bu_inc [] = []"
| "bu_inc (x # xs) = (if x + 1 = 0 then (x + 1) # bu_inc xs else (x + 1) # xs)"

primrec bu_dec :: "limbs \<Rightarrow> limbs" where
  "bu_dec [] = []"
| "bu_dec (x # xs) = (if x - 1 = - 1 then (x - 1) # bu_dec xs else (x - 1) # xs)"

definition bu_neg :: "limbs \<Rightarrow> limbs" where
  "bu_neg a = bu_inc (map (\<lambda>x. NOT x) a)"

fun add_loop :: "u64 \<Rightarrow> limbs \<Rightarrow> limbs \<Rightarrow> limbs" where
  "add_loop carry (x # xs) (y # ys) =
     (let n = carry + ucast x + ucast y
      in ucast (n AND 0xffffffff) # add_loop (drop_bit 32 n) xs ys)"
| "add_loop carry _ _ = []"

definition bu_add :: "limbs \<Rightarrow> limbs \<Rightarrow> limbs" where
  "bu_add a b = add_loop 0 a b"

definition bu_sub :: "limbs \<Rightarrow> limbs \<Rightarrow> limbs" where
  "bu_sub a b = bu_add a (bu_neg b)"

definition bu_add64 :: "limbs \<Rightarrow> u64 \<Rightarrow> limbs" where
  "bu_add64 a b64 = bu_add a (of_u64 (length a) b64)"

definition bu_sub64 :: "limbs \<Rightarrow> u64 \<Rightarrow> limbs" where
  "bu_sub64 a b64 = bu_add a (bu_neg (of_u64 (length a) b64))"

section \<open>Multiplication\<close>

primrec mul32_loop :: "u32 \<Rightarrow> u64 \<Rightarrow> limbs \<Rightarrow> limbs" where
  "mul32_loop b32 carry [] = []"
| "mul32_loop b32 carry (x # xs) =
     (let n = carry + ucast b32 * ucast x
      in ucast (n AND 0xffffffff) # mul32_loop b32 (drop_bit 32 n) xs)"

definition bu_mul32 :: "limbs \<Rightarrow> u32 \<Rightarrow> limbs" where
  "bu_mul32 a b32 = mul32_loop b32 0 a"

text \<open>One run of the inner loop of \<open>operator*=\<close>: \<open>ps\<close> is \<open>pn[j..]\<close>, \<open>aj\<close> is \<open>a.pn[j]\<close>.\<close>

fun mul_row :: "u64 \<Rightarrow> u32 \<Rightarrow> limbs \<Rightarrow> limbs \<Rightarrow> limbs" where
  "mul_row carry aj (p # ps) (b # bs) =
     (let n = carry + ucast p + ucast aj * ucast b
      in ucast (n AND 0xffffffff) # mul_row (drop_bit 32 n) aj ps bs)"
| "mul_row carry aj ps _ = ps"

definition mul_step :: "limbs \<Rightarrow> limbs \<Rightarrow> limbs \<Rightarrow> nat \<Rightarrow> limbs" where
  "mul_step a b pn j = take j pn @ mul_row 0 (a ! j) (drop j pn) b"

definition bu_mul :: "limbs \<Rightarrow> limbs \<Rightarrow> limbs" where
  "bu_mul a b = foldl (mul_step a b) (bu_zero (length a)) [0..<length a]"

section \<open>Shifts\<close>

text \<open>The loop over the limbs of \<open>operator<<=\<close> and \<open>operator>>=\<close>, at index \<open>i\<close>: the writes
  outside the array are guarded as in the code.\<close>

definition shl_step :: "limbs \<Rightarrow> nat \<Rightarrow> nat \<Rightarrow> limbs \<Rightarrow> nat \<Rightarrow> limbs" where
  "shl_step a k s pn i =
     (let pn = (if i + k + 1 < length a \<and> s \<noteq> 0
                then pn[i + k + 1 := pn ! (i + k + 1) OR drop_bit (32 - s) (a ! i)] else pn)
      in if i + k < length a then pn[i + k := pn ! (i + k) OR push_bit s (a ! i)] else pn)"

definition bu_shl :: "limbs \<Rightarrow> nat \<Rightarrow> limbs" where
  "bu_shl a shift =
     foldl (shl_step a (shift div 32) (shift mod 32)) (bu_zero (length a)) [0..<length a]"

definition shr_step :: "limbs \<Rightarrow> nat \<Rightarrow> nat \<Rightarrow> limbs \<Rightarrow> nat \<Rightarrow> limbs" where
  "shr_step a k s pn i =
     (let pn = (if int i - int k - 1 \<ge> 0 \<and> s \<noteq> 0
                then pn[i - k - 1 := pn ! (i - k - 1) OR push_bit (32 - s) (a ! i)] else pn)
      in if int i - int k \<ge> 0 then pn[i - k := pn ! (i - k) OR drop_bit s (a ! i)] else pn)"

definition bu_shr :: "limbs \<Rightarrow> nat \<Rightarrow> limbs" where
  "bu_shr a shift =
     foldl (shr_step a (shift div 32) (shift mod 32)) (bu_zero (length a)) [0..<length a]"

section \<open>Comparison, bit length and division\<close>

primrec cmp_from :: "nat \<Rightarrow> limbs \<Rightarrow> limbs \<Rightarrow> int" where
  "cmp_from 0 a b = 0"
| "cmp_from (Suc i) a b =
     (if a ! i < b ! i then - 1 else if a ! i > b ! i then 1 else cmp_from i a b)"

definition CompareTo :: "limbs \<Rightarrow> limbs \<Rightarrow> int" where
  "CompareTo a b = cmp_from (length a) a b"

definition EqualTo :: "limbs \<Rightarrow> u64 \<Rightarrow> bool" where
  "EqualTo a b =
     (if \<not> list_all (\<lambda>x. x = 0) (drop 2 a) then False
      else if ucast (a ! 1) \<noteq> drop_bit 32 b then False
      else if ucast (a ! 0) \<noteq> b AND 0xffffffff then False
      else True)"

text \<open>The inner loop of \<open>bits\<close> over one limb, from bit \<open>bits\<close> down to bit 1.\<close>

primrec top_bit :: "nat \<Rightarrow> u32 \<Rightarrow> nat" where
  "top_bit 0 x = 0"
| "top_bit (Suc n) x = (if x AND push_bit (Suc n) 1 \<noteq> 0 then Suc n else top_bit n x)"

primrec bits_from :: "nat \<Rightarrow> limbs \<Rightarrow> nat" where
  "bits_from 0 a = 0"
| "bits_from (Suc pos) a =
     (if a ! pos \<noteq> 0 then 32 * pos + top_bit 31 (a ! pos) + 1 else bits_from pos a)"

definition bits :: "limbs \<Rightarrow> nat" where
  "bits a = bits_from (length a) a"

datatype uint_error = Division_by_zero | Wrong_size

record div_state =
  ds_num :: limbs
  ds_div :: limbs
  ds_quot :: limbs

definition div_step :: "nat \<Rightarrow> div_state \<Rightarrow> div_state" where
  "div_step shift st =
     (let st = (if CompareTo (ds_num st) (ds_div st) \<ge> 0
                then st\<lparr> ds_num := bu_sub (ds_num st) (ds_div st),
                        ds_quot := (ds_quot st)[shift div 32 :=
                          ds_quot st ! (shift div 32) OR push_bit (shift mod 32) 1] \<rparr>
                else st)
      in st\<lparr> ds_div := bu_shr (ds_div st) 1 \<rparr>)"

primrec div_loop :: "nat \<Rightarrow> div_state \<Rightarrow> div_state" where
  "div_loop 0 st = div_step 0 st"
| "div_loop (Suc shift) st = div_loop shift (div_step (Suc shift) st)"

definition bu_div :: "limbs \<Rightarrow> limbs \<Rightarrow> uint_error + limbs" where
  "bu_div a b =
     (let num_bits = bits a; div_bits = bits b in
      if div_bits = 0 then Inl Division_by_zero
      else if div_bits > num_bits then Inr (bu_zero (length a))
      else let shift = num_bits - div_bits in
        Inr (ds_quot (div_loop shift
          \<lparr> ds_num = a, ds_div = bu_shl b shift, ds_quot = bu_zero (length a) \<rparr>)))"

section \<open>Bytes, hexadecimal text and low words\<close>

text \<open>\<open>pn\<close> as the code reads it through \<open>unsigned char*\<close>: the hosts the node is built for are
  little-endian.\<close>

definition pn_bytes :: "limbs \<Rightarrow> bytes" where
  "pn_bytes a = concat (map (\<lambda>x. le_bytes 4 (unat x)) a)"

fun limbs_of_bytes :: "bytes \<Rightarrow> limbs" where
  "limbs_of_bytes (b0 # b1 # b2 # b3 # bs) =
     of_nat (le_val [b0, b1, b2, b3]) # limbs_of_bytes bs"
| "limbs_of_bytes _ = []"

definition of_vch :: "nat \<Rightarrow> bytes \<Rightarrow> uint_error + limbs" where
  "of_vch W vch = (if length vch \<noteq> 4 * W then Inl Wrong_size else Inr (limbs_of_bytes vch))"

definition HexDigit :: "char \<Rightarrow> int" where
  "HexDigit c = (let n = of_char c :: nat in
     if 48 \<le> n \<and> n \<le> 57 then int n - 48
     else if 65 \<le> n \<and> n \<le> 70 then int n - 55
     else if 97 \<le> n \<and> n \<le> 102 then int n - 87
     else - 1)"

definition hex_lower :: "nat \<Rightarrow> char" where
  "hex_lower n = ''0123456789abcdef'' ! n"

definition sprintf_02x :: "u8 \<Rightarrow> string" where
  "sprintf_02x b = [hex_lower (unat b div 16), hex_lower (unat b mod 16)]"

definition GetHex :: "limbs \<Rightarrow> string" where
  "GetHex a = concat (map sprintf_02x (rev (pn_bytes a)))"

definition ToStringReverseEndian :: "limbs \<Rightarrow> string" where
  "ToStringReverseEndian a = concat (map sprintf_02x (pn_bytes a))"

definition isspace :: "char \<Rightarrow> bool" where
  "isspace c \<longleftrightarrow> (let n = of_char c :: nat in n = 32 \<or> (9 \<le> n \<and> n \<le> 13))"

definition skip_0x :: "string \<Rightarrow> string" where
  "skip_0x psz = (case psz of
     c # d # r \<Rightarrow> if c = CHR ''0'' \<and> (d = CHR ''x'' \<or> d = CHR ''X'') then r else psz
   | _ \<Rightarrow> psz)"

text \<open>The digits are written from the last to the first, two per byte, at most \<open>n\<close> bytes.\<close>

fun fill_hex :: "nat \<Rightarrow> int list \<Rightarrow> bytes" where
  "fill_hex 0 ds = []"
| "fill_hex (Suc n) [] = replicate (Suc n) 0"
| "fill_hex (Suc n) [d] = of_int d # replicate n 0"
| "fill_hex (Suc n) (d # e # ds) = (of_int d OR push_bit 4 (of_int e)) # fill_hex n ds"

definition SetHex :: "nat \<Rightarrow> string \<Rightarrow> limbs" where
  "SetHex W str =
     (let psz = skip_0x (dropWhile isspace str);
          digits = takeWhile (\<lambda>c. HexDigit c \<noteq> - 1) psz
      in limbs_of_bytes (fill_hex (4 * W) (rev (map HexDigit digits))))"

definition Get64 :: "limbs \<Rightarrow> nat \<Rightarrow> u64" where
  "Get64 a n = ucast (a ! (2 * n)) OR push_bit 32 (ucast (a ! (2 * n + 1)))"

definition Get32 :: "limbs \<Rightarrow> nat \<Rightarrow> u32" where
  "Get32 a n = a ! (2 * n)"

definition GetLow64 :: "limbs \<Rightarrow> u64" where
  "GetLow64 a = ucast (a ! 0) OR push_bit 32 (ucast (a ! 1))"

definition trim256 :: "limbs \<Rightarrow> limbs" where
  "trim256 a = map (\<lambda>i. a ! i) [0..<uint256_WIDTH]"

section \<open>The compact form of difficulty targets\<close>

record compact_result =
  cr_value :: limbs
  cr_negative :: bool
  cr_overflow :: bool

definition SetCompact :: "u32 \<Rightarrow> compact_result" where
  "SetCompact nCompact =
     (let nSize = unat (drop_bit 24 nCompact);
          nWord0 = nCompact AND 0x007fffff;
          nWord = (if nSize \<le> 3 then drop_bit (8 * (3 - nSize)) nWord0 else nWord0);
          v = (if nSize \<le> 3 then of_u64 uint256_WIDTH (ucast nWord)
               else bu_shl (of_u64 uint256_WIDTH (ucast nWord)) (8 * (nSize - 3)))
      in \<lparr> cr_value = v,
           cr_negative = (nWord \<noteq> 0 \<and> nCompact AND 0x00800000 \<noteq> 0),
           cr_overflow = (nWord \<noteq> 0 \<and> (nSize > 34 \<or> (nWord > 0xff \<and> nSize > 33)
                                            \<or> (nWord > 0xffff \<and> nSize > 32))) \<rparr>)"

text \<open>\<open>None\<close> is a failed \<open>assert\<close>.\<close>

definition GetCompact :: "limbs \<Rightarrow> bool \<Rightarrow> u32 option" where
  "GetCompact a fNegative =
     (let nSize = (bits a + 7) div 8;
          nCompact = (if nSize \<le> 3 then ucast (push_bit (8 * (3 - nSize)) (GetLow64 a))
                      else ucast (GetLow64 (bu_shr a (8 * (nSize - 3))))) :: u32;
          (nCompact, nSize) = (if nCompact AND 0x00800000 \<noteq> 0
                               then (drop_bit 8 nCompact, nSize + 1) else (nCompact, nSize))
      in if nCompact AND NOT 0x007fffff \<noteq> 0 then None
         else if \<not> nSize < 256 then None
         else let nCompact = nCompact OR push_bit 24 (of_nat nSize)
              in Some (nCompact OR
                (if fNegative \<and> nCompact AND 0x007fffff \<noteq> 0 then 0x00800000 else 0)))"

section \<open>The salted hash of a 256-bit value\<close>

definition rot32 :: "nat \<Rightarrow> u32 \<Rightarrow> u32" where
  "rot32 k x = push_bit k x OR drop_bit (32 - k) x"

definition HashMix :: "u32 \<times> u32 \<times> u32 \<Rightarrow> u32 \<times> u32 \<times> u32" where
  "HashMix = (\<lambda>(a, b, c).
     let a = a - c; a = a XOR rot32 4 c; c = c + b;
         b = b - a; b = b XOR rot32 6 a; a = a + c;
         c = c - b; c = c XOR rot32 8 b; b = b + a;
         a = a - c; a = a XOR rot32 16 c; c = c + b;
         b = b - a; b = b XOR rot32 19 a; a = a + c;
         c = c - b; c = c XOR rot32 4 b; b = b + a
     in (a, b, c))"

definition HashFinal :: "u32 \<times> u32 \<times> u32 \<Rightarrow> u32 \<times> u32 \<times> u32" where
  "HashFinal = (\<lambda>(a, b, c).
     let c = c XOR b; c = c - rot32 14 b;
         a = a XOR c; a = a - rot32 11 c;
         b = b XOR a; b = b - rot32 25 a;
         c = c XOR b; c = c - rot32 16 b;
         a = a XOR c; a = a - rot32 4 c;
         b = b XOR a; b = b - rot32 14 a;
         c = c XOR b; c = c - rot32 24 b
     in (a, b, c))"

definition GetHash :: "limbs \<Rightarrow> limbs \<Rightarrow> u64" where
  "GetHash pn salt =
     (let x = (\<lambda>i. pn ! i XOR salt ! i);
          i0 = 0xdeadbeef + push_bit 2 (of_nat uint256_WIDTH);
          (a, b, c) = HashMix (i0 + x 0, i0 + x 1, i0 + x 2);
          (a, b, c) = HashMix (a + x 3, b + x 4, c + x 5);
          (a, b, c) = HashFinal (a + x 6, b + x 7, c)
      in push_bit 32 (ucast b) OR ucast c)"

section \<open>The number an array of limbs denotes\<close>

primrec pn_val :: "limbs \<Rightarrow> nat" where
  "pn_val [] = 0"
| "pn_val (x # xs) = unat x + 4294967296 * pn_val xs"

lemma limb_mod:
  assumes "(lo :: nat) < B"
  shows "lo + B * (t mod M) = (lo + B * t) mod (B * M)"
proof -
  have "(lo + B * t) mod (B * M) = (lo + B * t) mod B + B * ((lo + B * t) div B mod M)"
    by (simp add: mod_mult2_eq)
  also have "\<dots> = lo + B * (t mod M)" using assms by simp
  finally show ?thesis by simp
qed

lemma exp32_Suc: "2 ^ (32 * Suc n) = (4294967296 :: nat) * 2 ^ (32 * n)"
  by (simp add: power_add)

lemma pn_val_bound: "pn_val xs < 2 ^ (32 * length xs)"
proof (induction xs)
  case Nil
  show ?case by simp
next
  case (Cons x xs)
  have "unat x + 4294967296 * pn_val xs \<le> 4294967295 + 4294967296 * (2 ^ (32 * length xs) - 1)"
    using unat_u32_less [of x] Cons.IH by linarith
  also have "\<dots> < 4294967296 * 2 ^ (32 * length xs)" by (simp add: diff_mult_distrib2)
  finally show ?case by (simp only: pn_val.simps list.size add_Suc_right add_0_right exp32_Suc)
qed

lemma pn_val_inject:
  assumes "length xs = length ys" "pn_val xs = pn_val ys"
  shows "xs = ys"
  using assms
proof (induction xs ys rule: list_induct2)
  case Nil
  show ?case by simp
next
  case (Cons x xs y ys)
  have "(unat x + 4294967296 * pn_val xs) mod 4294967296
      = (unat y + 4294967296 * pn_val ys) mod 4294967296"
    using Cons.prems by simp
  then have "unat x = unat y" by simp
  then show ?case using Cons by (simp add: word_unat_eq_iff)
qed

lemma pn_val_append: "pn_val (xs @ ys) = pn_val xs + 2 ^ (32 * length xs) * pn_val ys"
  by (induction xs) (simp_all add: algebra_simps power_add)

lemma pn_val_zero [simp, limb_simps]: "pn_val (bu_zero W) = 0" "pn_val (replicate W 0) = 0"
  by (induction W) (simp_all add: bu_zero_def)

lemma length_zero [simp, limb_simps]: "length (bu_zero W) = W"
  by (simp add: bu_zero_def)

lemma IsNull_iff [simp]: "IsNull xs \<longleftrightarrow> pn_val xs = 0"
  by (induction xs) (simp_all add: unat_eq_0)

lemma length_of_u64 [simp, limb_simps]: "W \<ge> 2 \<Longrightarrow> length (of_u64 W b) = W"
  by (simp add: of_u64_def)

lemma pn_val_of_u64 [simp, limb_simps]: "pn_val (of_u64 W b) = unat b"
proof -
  have "unat b div 4294967296 < 4294967296"
    using unat_u64_less [of b] by (simp only: less_mult_imp_div_less)
  then show ?thesis by (simp add: of_u64_def unat_drop_bit_u64)
qed

text \<open>A carry chain splits a 64-bit intermediate into its two halves.\<close>

lemma unat_low_half [simp, limb_simps]:
  "unat (n AND 0xffffffff :: u64) = unat n mod 4294967296"
proof -
  have "n AND 0xffffffff = take_bit 32 n" by (simp add: take_bit_eq_mask mask_eq_exp_minus_1)
  then show ?thesis by (simp only: unsigned_take_bit_eq) (simp add: take_bit_eq_mod)
qed

lemma unat_high_half [simp, limb_simps]:
  "unat (drop_bit 32 (n :: u64)) = unat n div 4294967296"
  by (simp add: unat_drop_bit_u64)

lemma carry_chain:
  assumes rest: "rest = (unat n div 4294967296 + t) mod 2 ^ (32 * l)"
    and tot: "tot = unat (n :: u64) + 4294967296 * t"
  shows "unat n mod 4294967296 + 4294967296 * rest = tot mod 2 ^ (32 * Suc l)"
proof -
  have "tot = unat n mod 4294967296 + 4294967296 * (unat n div 4294967296 + t)"
    using tot by (simp add: algebra_simps)
  then show ?thesis
    unfolding exp32_Suc rest by (metis limb_mod mod_less_divisor zero_less_numeral)
qed

section \<open>Ring operations\<close>

lemma length_add_loop [simp, limb_simps]:
  "length xs = length ys \<Longrightarrow> length (add_loop c xs ys) = length xs"
  by (induction c xs ys rule: add_loop.induct) (simp_all add: Let_def)

lemma unat_add2_exact:
  fixes x y :: u32
  assumes "unat (c :: u64) < 4294967296"
  shows "unat (c + ucast x + ucast y) = unat c + unat x + unat y"
proof -
  have "unat c + unat x < 18446744073709551616" using assms unat_u32_less [of x] by linarith
  then have 1: "unat (c + ucast x) = unat c + unat x" by (subst unat_add_exact) simp_all
  have "unat c + unat x + unat y < 18446744073709551616"
    using assms unat_u32_less [of x] unat_u32_less [of y] by linarith
  then show ?thesis using 1 by (subst unat_add_exact) simp_all
qed

lemma pn_val_add_loop:
  assumes "length xs = length ys" "unat c < 4294967296"
  shows "pn_val (add_loop c xs ys) = (unat c + pn_val xs + pn_val ys) mod 2 ^ (32 * length xs)"
  using assms
proof (induction c xs ys rule: add_loop.induct)
  case (1 carry x xs y ys)
  define n where "n = carry + ucast x + ucast y"
  have n: "unat n = unat carry + unat x + unat y"
    unfolding n_def by (rule unat_add2_exact) (rule "1.prems"(2))
  have "unat (drop_bit 32 n) < 4294967296"
    unfolding unat_high_half n using "1.prems"(2) unat_u32_less [of x] unat_u32_less [of y]
    by linarith
  then have "pn_val (add_loop (drop_bit 32 n) xs ys)
      = (unat n div 4294967296 + (pn_val xs + pn_val ys)) mod 2 ^ (32 * length xs)"
    using "1.IH" [OF n_def] "1.prems"(1) by (simp add: add.assoc)
  from carry_chain [OF this, of "unat carry + pn_val (x # xs) + pn_val (y # ys)"]
  show ?case by (simp add: Let_def n_def [symmetric] n del: mult_Suc_right)
qed simp_all

lemma length_add [simp, limb_simps]: "length a = length b \<Longrightarrow> length (bu_add a b) = length a"
  by (simp add: bu_add_def)

lemma pn_val_add [limb_simps]:
  assumes "length a = length b"
  shows "pn_val (bu_add a b) = (pn_val a + pn_val b) mod 2 ^ (32 * length a)"
  using pn_val_add_loop [of a b 0] assms by (simp add: bu_add_def)

lemma length_inc [simp, limb_simps]: "length (bu_inc a) = length a"
  by (induction a) simp_all

lemma unat_minus_one_u32: "unat (- 1 :: u32) = 4294967295"
  by (simp add: unsigned_minus_1_eq_mask mask_eq_exp_minus_1)

lemma unat_not_u32: "unat (NOT x :: u32) = 4294967295 - unat x"
proof -
  have "NOT x = - 1 - x" by (simp add: not_eq_complement)
  then show ?thesis using unat_sub [of x "- 1"] by (simp add: unat_minus_one_u32)
qed

lemma unat_plus_one_u32: "x + 1 \<noteq> 0 \<Longrightarrow> unat (x + 1 :: u32) = unat x + 1"
  by (simp add: unatSuc add.commute)

lemma pn_val_inc [limb_simps]: "pn_val (bu_inc a) = (pn_val a + 1) mod 2 ^ (32 * length a)"
proof (induction a)
  case Nil
  show ?case by simp
next
  case (Cons x xs)
  show ?case
  proof (cases "x + 1 = 0")
    case True
    then have "x = - 1" by (simp add: eq_neg_iff_add_eq_0)
    then have x: "unat x + 1 = 4294967296" by (simp add: unat_minus_one_u32)
    have "pn_val (bu_inc (x # xs)) = 0 + 4294967296 * ((pn_val xs + 1) mod 2 ^ (32 * length xs))"
      using True Cons.IH by simp
    also have "\<dots> = (0 + 4294967296 * (pn_val xs + 1)) mod (4294967296 * 2 ^ (32 * length xs))"
      by (rule limb_mod) simp
    also have "0 + 4294967296 * (pn_val xs + 1) = pn_val (x # xs) + 1" using x by simp
    finally show ?thesis by (simp only: list.size add_Suc_right add_0_right exp32_Suc)
  next
    case False
    have "pn_val (bu_inc (x # xs)) = pn_val (x # xs) + 1"
      using False by (simp add: unat_plus_one_u32)
    moreover from this have "\<dots> < 2 ^ (32 * length (x # xs))"
      using pn_val_bound [of "bu_inc (x # xs)"] by (simp only: length_inc)
    ultimately show ?thesis by simp
  qed
qed

lemma pn_val_not: "pn_val (map (\<lambda>x. NOT x) a) + pn_val a + 1 = 2 ^ (32 * length a)"
proof (induction a)
  case Nil
  show ?case by simp
next
  case (Cons x xs)
  have "unat (NOT x) + unat x = 4294967295" using unat_u32_less [of x] by (simp only: unat_not_u32)
  then show ?case
    using Cons by (simp only: list.map pn_val.simps list.size add_Suc_right add_0_right exp32_Suc)
qed

lemma length_neg [simp, limb_simps]: "length (bu_neg a) = length a"
  by (simp add: bu_neg_def)

lemma pn_val_neg [limb_simps]:
  "pn_val (bu_neg a) = (2 ^ (32 * length a) - pn_val a) mod 2 ^ (32 * length a)"
proof -
  have "pn_val (map (\<lambda>x. NOT x) a) + 1 = 2 ^ (32 * length a) - pn_val a"
    using pn_val_not [of a] by linarith
  then show ?thesis by (simp only: bu_neg_def pn_val_inc length_map)
qed

lemma length_sub [simp, limb_simps]: "length a = length b \<Longrightarrow> length (bu_sub a b) = length a"
  by (simp add: bu_sub_def)

lemma pn_val_sub:
  assumes "length a = length b"
  shows "int (pn_val (bu_sub a b)) = (int (pn_val a) - int (pn_val b)) mod 2 ^ (32 * length a)"
proof -
  have "pn_val (bu_sub a b) = (pn_val a + (2 ^ (32 * length a) - pn_val b)) mod 2 ^ (32 * length a)"
    using assms by (simp add: bu_sub_def pn_val_add pn_val_neg mod_add_right_eq)
  also have "int \<dots>
      = (int (pn_val a) + (2 ^ (32 * length a) - int (pn_val b))) mod 2 ^ (32 * length a)"
    using pn_val_bound [of b] assms by (simp add: zmod_int of_nat_diff add_diff_eq)
  also have "\<dots> = (int (pn_val a) - int (pn_val b) + 2 ^ (32 * length a)) mod 2 ^ (32 * length a)"
    by (simp add: algebra_simps)
  finally show ?thesis by simp
qed

lemma pn_val_sub_exact [limb_simps]:
  assumes "length a = length b" "pn_val b \<le> pn_val a"
  shows "pn_val (bu_sub a b) = pn_val a - pn_val b"
proof -
  have "pn_val a < 2 ^ (32 * length a)" by (rule pn_val_bound)
  then have "int (pn_val a) < 2 ^ (32 * length a)" by (metis of_nat_less_iff of_nat_numeral of_nat_power)
  then have "(int (pn_val a) - int (pn_val b)) mod 2 ^ (32 * length a) = int (pn_val a) - int (pn_val b)"
    using assms(2) by (intro mod_pos_pos_trivial) linarith+
  then have "int (pn_val (bu_sub a b)) = int (pn_val a) - int (pn_val b)"
    using assms(1) by (simp only: pn_val_sub)
  then show ?thesis using assms(2) by linarith
qed

section \<open>Products\<close>

lemma unat_muladd_exact:
  fixes x p b :: u32
  assumes "unat (c :: u64) < 4294967296"
  shows "unat (c + ucast p + ucast b * ucast x) = unat c + unat p + unat b * unat x"
proof -
  have "unat b * unat x \<le> 4294967295 * 4294967295"
    using unat_u32_less [of b] unat_u32_less [of x] by (intro mult_le_mono) linarith+
  moreover from this have "unat (ucast b * ucast x :: u64) = unat b * unat x"
    by (subst unat_mult_exact) simp_all
  moreover have "unat (c + ucast p) = unat c + unat p"
    using assms unat_u32_less [of p] by (subst unat_add_exact) (simp_all del: unat_u32_less)
  ultimately show ?thesis
    using assms unat_u32_less [of p] by (subst unat_add_exact) (simp_all del: unat_u32_less)
qed

lemma carry_muladd:
  fixes x p b :: u32
  assumes "unat (c :: u64) < 4294967296"
  shows "unat (drop_bit 32 (c + ucast p + ucast b * ucast x)) < 4294967296"
proof -
  have "unat (c + ucast p + ucast b * ucast x) < 4294967296 * 4294967296"
    using unat_u64_less [of "c + ucast p + ucast b * ucast x"] by linarith
  then show ?thesis by (simp only: unat_high_half less_mult_imp_div_less)
qed

lemma length_mul32_loop [simp, limb_simps]: "length (mul32_loop b c xs) = length xs"
  by (induction xs arbitrary: c) (simp_all add: Let_def)

lemma pn_val_mul32_loop:
  assumes "unat c < 4294967296"
  shows "pn_val (mul32_loop b c xs) = (unat c + unat b * pn_val xs) mod 2 ^ (32 * length xs)"
  using assms
proof (induction xs arbitrary: c)
  case Nil
  show ?case by simp
next
  case (Cons x xs)
  define n where "n = c + ucast b * ucast x"
  have n: "unat n = unat c + unat b * unat x"
    using unat_muladd_exact [of c 0 b x] Cons.prems by (simp add: n_def)
  have "unat (drop_bit 32 n) < 4294967296"
    using carry_muladd [of c 0 b x] Cons.prems by (simp add: n_def)
  then have "pn_val (mul32_loop b (drop_bit 32 n) xs)
      = (unat n div 4294967296 + unat b * pn_val xs) mod 2 ^ (32 * length xs)"
    using Cons.IH by simp
  from carry_chain [OF this, of "unat c + unat b * pn_val (x # xs)"]
  show ?case by (simp add: Let_def n_def [symmetric] n algebra_simps del: mult_Suc_right)
qed

lemma pn_val_mul32 [limb_simps]:
  "pn_val (bu_mul32 a b) = (pn_val a * unat b) mod 2 ^ (32 * length a)"
  using pn_val_mul32_loop [of 0 b a] by (simp add: bu_mul32_def mult.commute)

lemma length_mul32 [simp, limb_simps]: "length (bu_mul32 a b) = length a"
  by (simp add: bu_mul32_def)

lemma length_mul_row [simp, limb_simps]: "length (mul_row c aj ps bs) = length ps"
  by (induction c aj ps bs rule: mul_row.induct) (simp_all add: Let_def)

lemma pn_val_mul_row:
  assumes "length ps \<le> length bs" "unat c < 4294967296"
  shows "pn_val (mul_row c aj ps bs)
    = (unat c + pn_val ps + unat aj * pn_val bs) mod 2 ^ (32 * length ps)"
  using assms
proof (induction c aj ps bs rule: mul_row.induct)
  case (1 c aj p ps b bs)
  define n where "n = c + ucast p + ucast aj * ucast b"
  have n: "unat n = unat c + unat p + unat aj * unat b"
    using unat_muladd_exact "1.prems"(2) by (simp only: n_def)
  have "unat (drop_bit 32 n) < 4294967296"
    using carry_muladd "1.prems"(2) by (simp only: n_def)
  then have "pn_val (mul_row (drop_bit 32 n) aj ps bs)
      = (unat n div 4294967296 + (pn_val ps + unat aj * pn_val bs)) mod 2 ^ (32 * length ps)"
    using "1.IH" [OF n_def] "1.prems"(1) by (simp add: add.assoc)
  moreover have "unat c + pn_val (p # ps) + unat aj * pn_val (b # bs)
      = unat n + 4294967296 * (pn_val ps + unat aj * pn_val bs)"
    by (simp add: n algebra_simps)
  ultimately have "unat n mod 4294967296 + 4294967296 * pn_val (mul_row (drop_bit 32 n) aj ps bs)
      = (unat c + pn_val (p # ps) + unat aj * pn_val (b # bs)) mod 2 ^ (32 * Suc (length ps))"
    by (rule carry_chain)
  then show ?case by (simp add: Let_def n_def [symmetric] del: mult_Suc_right)
qed simp_all

lemma length_mul_step [simp, limb_simps]: "length (mul_step a b pn j) = length pn"
  by (simp add: mul_step_def)

lemma pn_val_mul_step:
  assumes "j < length pn" "length pn \<le> length b"
  shows "pn_val (mul_step a b pn j)
    = (pn_val pn + 2 ^ (32 * j) * (unat (a ! j) * pn_val b)) mod 2 ^ (32 * length pn)"
proof -
  have len: "32 * length pn = 32 * j + 32 * (length pn - j)" using assms by simp
  have pn: "pn_val pn = pn_val (take j pn) + 2 ^ (32 * j) * pn_val (drop j pn)"
    using assms pn_val_append [of "take j pn" "drop j pn"] by simp
  have "pn_val (take j pn) < 2 ^ (32 * j)"
    using pn_val_bound [of "take j pn"] assms by simp
  from limb_mod [OF this, of "pn_val (drop j pn) + unat (a ! j) * pn_val b"
      "2 ^ (32 * (length pn - j))"]
  have "pn_val (take j pn) + 2 ^ (32 * j) *
      ((pn_val (drop j pn) + unat (a ! j) * pn_val b) mod 2 ^ (32 * (length pn - j)))
    = (pn_val pn + 2 ^ (32 * j) * (unat (a ! j) * pn_val b)) mod 2 ^ (32 * length pn)"
    by (simp only: pn len power_add add_mult_distrib2 add.assoc)
  then show ?thesis
    using assms by (simp add: mul_step_def pn_val_append pn_val_mul_row)
qed

lemma mul_loop:
  assumes "m \<le> length a" "length a = length b"
  shows "length (foldl (mul_step a b) (bu_zero (length a)) [0..<m]) = length a \<and>
    pn_val (foldl (mul_step a b) (bu_zero (length a)) [0..<m])
      = (pn_val (take m a) * pn_val b) mod 2 ^ (32 * length a)"
  using assms(1)
proof (induction m)
  case 0
  show ?case by simp
next
  case (Suc m)
  have "pn_val (take (Suc m) a) = pn_val (take m a) + 2 ^ (32 * m) * unat (a ! m)"
    using Suc.prems by (simp add: take_Suc_conv_app_nth pn_val_append)
  then have "pn_val (take (Suc m) a) * pn_val b
      = pn_val (take m a) * pn_val b + 2 ^ (32 * m) * (unat (a ! m) * pn_val b)"
    by (simp only: add_mult_distrib mult.assoc)
  then show ?case
    using Suc assms(2) by (simp add: pn_val_mul_step mod_add_left_eq)
qed

lemma length_mul [simp, limb_simps]: "length a = length b \<Longrightarrow> length (bu_mul a b) = length a"
  using mul_loop [of "length a" a b] by (simp add: bu_mul_def)

lemma pn_val_mul [limb_simps]:
  assumes "length a = length b"
  shows "pn_val (bu_mul a b) = (pn_val a * pn_val b) mod 2 ^ (32 * length a)"
  using mul_loop [of "length a" a b] assms by (simp add: bu_mul_def)

section \<open>Bits, shifts and bitwise operators\<close>

lemma bit_pn_val:
  "bit (pn_val xs) n \<longleftrightarrow> n < 32 * length xs \<and> bit (xs ! (n div 32)) (n mod 32)"
proof (induction xs arbitrary: n)
  case Nil
  show ?case by simp
next
  case (Cons x xs)
  have disj: "unat x + 4294967296 * pn_val xs = push_bit 32 (pn_val xs) OR unat x"
  proof -
    have "take_bit 32 (unat x) = unat x" by (simp add: take_bit_eq_mod)
    then have "push_bit 32 (pn_val xs) AND unat x = 0"
      by (metis (no_types, lifting) bit_0_eq bit_and_iff bit_eq_iff bit_push_bit_iff_nat bit_take_bit_iff bot_apply bot_bool_def linorder_not_le)
    then have "push_bit 32 (pn_val xs) + unat x = push_bit 32 (pn_val xs) OR unat x"
      by (simp add: disjunctive_add_eq_or)
    then show ?thesis by (simp add: push_bit_eq_mult)
  qed
  show ?case
  proof (cases "n < 32")
    case True
    then show ?thesis by (simp add: disj bit_or_iff bit_push_bit_iff_nat bit_unsigned_iff)
  next
    case False
    then obtain m where "n = m + 32" by (metis add.commute le_Suc_ex linorder_not_le)
    moreover have "\<not> bit (unat x) (m + 32)"
      using bit_imp_le_length [of x "m + 32"] by (auto simp: bit_unsigned_iff)
    moreover have "(m + 32) div 32 = Suc (m div 32)" by simp
    ultimately show ?thesis
      by (simp add: disj bit_or_iff bit_push_bit_iff_nat Cons.IH)
  qed
qed

lemma limbs_bit_eqI:
  assumes "length xs = W" "\<And>n. n < 32 * W \<Longrightarrow> bit (xs ! (n div 32)) (n mod 32) \<longleftrightarrow> bit v n"
    "\<And>n. n \<ge> 32 * W \<Longrightarrow> \<not> bit v n"
  shows "pn_val xs = v"
proof (rule bit_eqI)
  fix n
  show "bit (pn_val xs) n \<longleftrightarrow> bit v n"
    using assms by (cases "n < 32 * W") (auto simp: bit_pn_val)
qed

lemma pn_val_and [limb_simps]:
  "length a = length b \<Longrightarrow> pn_val (bu_and a b) = pn_val a AND pn_val b"
  by (intro bit_eqI) (auto simp: bu_and_def bit_pn_val bit_and_iff)

lemma pn_val_or [limb_simps]:
  "length a = length b \<Longrightarrow> pn_val (bu_or a b) = pn_val a OR pn_val b"
  by (intro bit_eqI) (auto simp: bu_or_def bit_pn_val bit_or_iff)

lemma pn_val_xor [limb_simps]:
  "length a = length b \<Longrightarrow> pn_val (bu_xor a b) = pn_val a XOR pn_val b"
  by (intro bit_eqI) (auto simp: bu_xor_def bit_pn_val bit_xor_iff)

lemma length_shl_step [simp]: "length (shl_step a k s pn i) = length pn"
  by (simp add: shl_step_def Let_def)

lemma length_shr_step [simp]: "length (shr_step a k s pn i) = length pn"
  by (simp add: shr_step_def Let_def)

text \<open>What the shift loops have written in limb \<open>j\<close> after the first \<open>m\<close> iterations.\<close>

definition shl_limb :: "limbs \<Rightarrow> nat \<Rightarrow> nat \<Rightarrow> nat \<Rightarrow> nat \<Rightarrow> u32" where
  "shl_limb a k s m j =
     (if k \<le> j \<and> j - k < m then push_bit s (a ! (j - k)) else 0) OR
     (if k + 1 \<le> j \<and> j - k - 1 < m \<and> s \<noteq> 0 then drop_bit (32 - s) (a ! (j - k - 1)) else 0)"

definition shr_limb :: "limbs \<Rightarrow> nat \<Rightarrow> nat \<Rightarrow> nat \<Rightarrow> nat \<Rightarrow> u32" where
  "shr_limb a k s m j =
     (if j + k < m then drop_bit s (a ! (j + k)) else 0) OR
     (if j + k + 1 < m \<and> s \<noteq> 0 then push_bit (32 - s) (a ! (j + k + 1)) else 0)"

lemma shl_step_nth:
  assumes "length pn = length a" "j < length a"
  shows "shl_step a k s pn i ! j = pn ! j
    OR (if j = i + k then push_bit s (a ! i) else 0)
    OR (if j = i + k + 1 \<and> s \<noteq> 0 then drop_bit (32 - s) (a ! i) else 0)"
  using assms by (auto simp: shl_step_def Let_def nth_list_update or.assoc)

lemma shl_limb_Suc:
  "shl_limb a k s (Suc m) j = shl_limb a k s m j
    OR (if j = m + k then push_bit s (a ! m) else 0)
    OR (if j = m + k + 1 \<and> s \<noteq> 0 then drop_bit (32 - s) (a ! m) else 0)"
proof -
  consider "j = m + k" | "j = m + k + 1" | "j \<noteq> m + k" "j \<noteq> m + k + 1" by blast
  then show ?thesis
  proof cases
    case 3
    then have "k \<le> j \<and> j - k < Suc m \<longleftrightarrow> k \<le> j \<and> j - k < m"
      "k + 1 \<le> j \<and> j - k - 1 < Suc m \<longleftrightarrow> k + 1 \<le> j \<and> j - k - 1 < m" by auto
    then have "shl_limb a k s (Suc m) j = shl_limb a k s m j"
      unfolding shl_limb_def conj_assoc [symmetric] by (simp only:)
    with 3 show ?thesis by simp
  qed (simp_all add: shl_limb_def or.commute)
qed

lemma shl_loop:
  assumes "m \<le> length a"
  shows "length (foldl (shl_step a k s) (bu_zero (length a)) [0..<m]) = length a \<and>
    (\<forall>j < length a. foldl (shl_step a k s) (bu_zero (length a)) [0..<m] ! j = shl_limb a k s m j)"
  using assms
proof (induction m)
  case 0
  show ?case by (auto simp: shl_limb_def bu_zero_def)
next
  case (Suc m)
  then show ?case by (simp add: shl_step_nth shl_limb_Suc)
qed

lemma shr_step_nth:
  assumes "length pn = length a" "j < length a" "i < length a"
  shows "shr_step a k s pn i ! j = pn ! j
    OR (if i = j + k then drop_bit s (a ! i) else 0)
    OR (if i = j + k + 1 \<and> s \<noteq> 0 then push_bit (32 - s) (a ! i) else 0)"
proof -
  consider "i = j + k" | "i = j + k + 1" | "i \<noteq> j + k" "i \<noteq> j + k + 1" by blast
  then show ?thesis
    using assms by cases (auto simp: shr_step_def Let_def nth_list_update)
qed

lemma shr_limb_Suc:
  "shr_limb a k s (Suc m) j = shr_limb a k s m j
    OR (if m = j + k then drop_bit s (a ! m) else 0)
    OR (if m = j + k + 1 \<and> s \<noteq> 0 then push_bit (32 - s) (a ! m) else 0)"
proof -
  consider "m = j + k" | "m = j + k + 1" | "m \<noteq> j + k" "m \<noteq> j + k + 1" by blast
  then show ?thesis
    by cases (simp_all add: shr_limb_def less_Suc_eq or.commute)
qed

lemma shr_loop:
  assumes "m \<le> length a"
  shows "length (foldl (shr_step a k s) (bu_zero (length a)) [0..<m]) = length a \<and>
    (\<forall>j < length a. foldl (shr_step a k s) (bu_zero (length a)) [0..<m] ! j = shr_limb a k s m j)"
  using assms
proof (induction m)
  case 0
  show ?case by (auto simp: shr_limb_def bu_zero_def)
next
  case (Suc m)
  then show ?case by (simp add: shr_step_nth shr_limb_Suc)
qed

lemma div_mod_eqI:
  assumes "(p :: nat) = 32 * d + r" "r < 32"
  shows "p div 32 = d" "p mod 32 = r"
  using assms by simp_all

lemma bit_shl_limb:
  assumes "p < 32 * length a" "s < 32"
  shows "bit (shl_limb a k s (length a) (p div 32)) (p mod 32)
    \<longleftrightarrow> 32 * k + s \<le> p \<and> bit (pn_val a) (p - (32 * k + s))"
proof -
  define j q where "j = p div 32" and "q = p mod 32"
  have p: "p = 32 * j + q" "q < 32" "j < length a" using assms by (auto simp: j_def q_def)
  show ?thesis
  proof (cases "s \<le> q")
    case True
    have d: "\<not> bit (drop_bit (32 - s) x :: u32) q" for x
      using True bit_imp_le_length [of x "32 - s + q"] assms(2) by (auto simp: bit_drop_bit_eq)
    show ?thesis
    proof (cases "k \<le> j")
      case kj: True
      have "p - (32 * k + s) = 32 * (j - k) + (q - s)" using kj p(1) True by linarith
      moreover have "q - s < 32" using p(2) by simp
      ultimately have "(p - (32 * k + s)) div 32 = j - k" "(p - (32 * k + s)) mod 32 = q - s"
        by (rule div_mod_eqI)+
      moreover have "32 * k + s \<le> p" "j - k < length a" "p - (32 * k + s) < 32 * length a"
        using p kj True assms(1) by linarith+
      ultimately show ?thesis
        unfolding j_def [symmetric] q_def [symmetric] shl_limb_def bit_or_iff bit_pn_val
        using kj p True d by (simp add: bit_push_bit_iff)
    next
      case False
      then have "\<not> 32 * k + s \<le> p" using p True by linarith
      then show ?thesis
        using False unfolding j_def [symmetric] q_def [symmetric] shl_limb_def by simp
    qed
  next
    case False
    have u: "\<not> bit (push_bit s x :: u32) q" for x
      using False by (simp add: bit_push_bit_iff)
    show ?thesis
    proof (cases "k + 1 \<le> j")
      case kj: True
      have "p - (32 * k + s) = 32 * (j - k - 1) + (32 - s + q)"
        using kj p(1) False assms(2) by linarith
      moreover have "32 - s + q < 32" using False assms(2) by simp
      ultimately have "(p - (32 * k + s)) div 32 = j - k - 1"
        "(p - (32 * k + s)) mod 32 = 32 - s + q" by (rule div_mod_eqI)+
      moreover have "32 * k + s \<le> p" "j - k - 1 < length a" "p - (32 * k + s) < 32 * length a"
        using p kj False assms by linarith+
      moreover have "s \<noteq> 0" using False by simp
      ultimately show ?thesis
        unfolding j_def [symmetric] q_def [symmetric] shl_limb_def bit_or_iff bit_pn_val
        using kj u by (simp add: bit_drop_bit_eq)
    next
      case kj: False
      then have "\<not> 32 * k + s \<le> p" using p False by linarith
      then show ?thesis
        using kj u unfolding j_def [symmetric] q_def [symmetric] shl_limb_def by simp
    qed
  qed
qed

lemma length_shl [simp, limb_simps]: "length (bu_shl a n) = length a"
  using shl_loop [of "length a" a] by (simp add: bu_shl_def)

lemma pn_val_shl [limb_simps]:
  "pn_val (bu_shl a n) = take_bit (32 * length a) (push_bit n (pn_val a))"
proof (rule limbs_bit_eqI)
  fix p assume p: "p < 32 * length a"
  then have "bu_shl a n ! (p div 32) = shl_limb a (n div 32) (n mod 32) (length a) (p div 32)"
    using shl_loop [of "length a" a] by (simp add: bu_shl_def less_mult_imp_div_less mult.commute)
  then show "bit (bu_shl a n ! (p div 32)) (p mod 32)
      \<longleftrightarrow> bit (take_bit (32 * length a) (push_bit n (pn_val a))) p"
    using p by (simp add: bit_shl_limb bit_take_bit_iff bit_push_bit_iff_nat)
qed (simp_all add: bit_take_bit_iff)

lemma bit_shr_limb:
  assumes "p < 32 * length a" "s < 32"
  shows "bit (shr_limb a k s (length a) (p div 32)) (p mod 32) \<longleftrightarrow> bit (pn_val a) (32 * k + s + p)"
proof -
  define j q where "j = p div 32" and "q = p mod 32"
  have p: "p = 32 * j + q" "q < 32" "j < length a" using assms by (auto simp: j_def q_def)
  show ?thesis
  proof (cases "s + q < 32")
    case True
    have "\<not> 32 - s \<le> q" using True by linarith
    then have "\<not> bit (push_bit (32 - s) x :: u32) q" for x
      by (simp only: bit_push_bit_iff not_False_eq_True simp_thms)
    moreover have "(32 * k + s + p) div 32 = j + k" "(32 * k + s + p) mod 32 = s + q"
      using div_mod_eqI [of "32 * k + s + p" "j + k" "s + q"] p True by auto
    moreover have "32 * k + s + p < 32 * length a \<longleftrightarrow> j + k < length a" using p True by auto
    ultimately show ?thesis
      by (auto simp: shr_limb_def bit_or_iff bit_drop_bit_eq bit_pn_val j_def [symmetric]
          q_def [symmetric])
  next
    case False
    have "\<not> bit (drop_bit s x :: u32) q" for x
      using False bit_imp_le_length [of x "s + q"] by (auto simp: bit_drop_bit_eq)
    moreover have "(32 * k + s + p) div 32 = j + k + 1" "(32 * k + s + p) mod 32 = s + q - 32"
      using div_mod_eqI [of "32 * k + s + p" "j + k + 1" "s + q - 32"] p False assms(2) by auto
    moreover have "32 * k + s + p < 32 * length a \<longleftrightarrow> j + k + 1 < length a"
      using p False assms(2) by auto
    moreover have "q - (32 - s) = s + q - 32" using assms(2) by simp
    ultimately show ?thesis
      using False assms p
      by (auto simp: shr_limb_def bit_or_iff bit_push_bit_iff bit_pn_val j_def [symmetric]
          q_def [symmetric])
  qed
qed

lemma length_shr [simp, limb_simps]: "length (bu_shr a n) = length a"
  using shr_loop [of "length a" a] by (simp add: bu_shr_def)

lemma pn_val_shr [limb_simps]: "pn_val (bu_shr a n) = drop_bit n (pn_val a)"
proof (rule limbs_bit_eqI)
  fix p assume p: "p < 32 * length a"
  then have "bu_shr a n ! (p div 32) = shr_limb a (n div 32) (n mod 32) (length a) (p div 32)"
    using shr_loop [of "length a" a] by (simp add: bu_shr_def less_mult_imp_div_less mult.commute)
  then show "bit (bu_shr a n ! (p div 32)) (p mod 32) \<longleftrightarrow> bit (drop_bit n (pn_val a)) p"
    using p by (simp add: bit_shr_limb bit_drop_bit_eq)
qed (simp_all add: bit_drop_bit_eq bit_pn_val)

section \<open>Comparison and bit length\<close>

lemma pn_val_take_Suc:
  "n < length a \<Longrightarrow> pn_val (take (Suc n) a) = pn_val (take n a) + 2 ^ (32 * n) * unat (a ! n)"
  by (simp add: take_Suc_conv_app_nth pn_val_append)

lemma pn_val_take_bound: "n \<le> length a \<Longrightarrow> pn_val (take n a) < 2 ^ (32 * n)"
  using pn_val_bound [of "take n a"] by (simp add: min_absorb2)

lemma high_limb_less:
  assumes "(x :: nat) < B" "h < h'"
  shows "x + B * h < y + B * h'"
proof -
  have "x + B * h < B * (h + 1)" using assms(1) by simp
  also have "\<dots> \<le> B * h'" using assms(2) by (intro mult_le_mono2) simp
  finally show ?thesis by simp
qed

lemma cmp_from_spec:
  assumes "n \<le> length a" "n \<le> length b"
  shows "cmp_from n a b = (if pn_val (take n a) < pn_val (take n b) then - 1
    else if pn_val (take n a) > pn_val (take n b) then 1 else 0)"
  using assms
proof (induction n)
  case 0
  show ?case by simp
next
  case (Suc n)
  have bound: "pn_val (take n a) < 2 ^ (32 * n)" "pn_val (take n b) < 2 ^ (32 * n)"
    using Suc.prems by (simp_all add: pn_val_take_bound)
  consider "a ! n < b ! n" | "a ! n > b ! n" | "a ! n = b ! n" by (metis linorder_less_linear)
  then show ?case
  proof cases
    case 1
    then have "pn_val (take (Suc n) a) < pn_val (take (Suc n) b)"
      using Suc.prems bound by (simp add: pn_val_take_Suc high_limb_less word_less_nat_alt)
    then show ?thesis using 1 by simp
  next
    case 2
    then have "pn_val (take (Suc n) b) < pn_val (take (Suc n) a)"
      using Suc.prems bound by (simp add: pn_val_take_Suc high_limb_less word_less_nat_alt)
    then show ?thesis using 2 by auto
  next
    case 3
    then show ?thesis using Suc by (simp add: pn_val_take_Suc)
  qed
qed

lemma CompareTo_spec [limb_simps]:
  assumes "length a = length b"
  shows "CompareTo a b = (if pn_val a < pn_val b then - 1 else if pn_val a > pn_val b then 1 else 0)"
  using cmp_from_spec [of "length a" a b] assms by (simp add: CompareTo_def)

lemma CompareTo_ge [simp]:
  "length a = length b \<Longrightarrow> CompareTo a b \<ge> 0 \<longleftrightarrow> pn_val b \<le> pn_val a"
  by (simp add: CompareTo_spec)

lemma list_all_zero:
  "list_all (\<lambda>x. x = 0) xs \<longleftrightarrow> pn_val xs = 0"
  "list_all (\<lambda>x. unat x = 0) xs \<longleftrightarrow> pn_val xs = 0"
  by (induction xs) (simp_all add: unat_eq_0)

lemma EqualTo_spec [limb_simps]:
  assumes "length a \<ge> 2"
  shows "EqualTo a b \<longleftrightarrow> pn_val a = unat b"
proof -
  obtain x y zs where a: "a = x # y # zs" using assms by (metis Suc_le_length_iff numeral_2_eq_2)
  have split: "unat b = unat b mod 4294967296 + 4294967296 * (unat b div 4294967296)" by simp
  have hi: "unat b div 4294967296 < 4294967296"
    using unat_u64_less [of b] by (simp only: less_mult_imp_div_less)
  have "EqualTo a b \<longleftrightarrow> pn_val zs = 0 \<and> unat y = unat b div 4294967296
      \<and> unat x = unat b mod 4294967296"
    by (simp add: EqualTo_def a list_all_zero word_unat_eq_iff)
  also have "\<dots> \<longleftrightarrow> pn_val a = unat b"
  proof
    assume v: "pn_val a = unat b"
    then have "unat x + 4294967296 * (unat y + 4294967296 * pn_val zs) = unat b" by (simp add: a)
    then have "unat b mod 4294967296 = unat x"
      and d: "unat b div 4294967296 = unat y + 4294967296 * pn_val zs"
      using unat_u32_less [of x] by (metis mod_less mod_mult_self2, metis add.commute div_less div_mult_self4 add.right_neutral zero_neq_numeral)
    moreover have "pn_val zs = 0" using hi d by linarith
    ultimately show "pn_val zs = 0 \<and> unat y = unat b div 4294967296
      \<and> unat x = unat b mod 4294967296" by simp
  qed (use a split in simp)
  finally show ?thesis .
qed

lemma half_step:
  assumes "(v :: nat) < 2 ^ Suc n"
  shows "bit v n \<longleftrightarrow> 2 ^ n \<le> v"
proof -
  have "v div 2 ^ n < 2" using assms by (simp add: less_mult_imp_div_less)
  then have "v div 2 ^ n = 0 \<or> v div 2 ^ n = 1" by linarith
  moreover have "v div 2 ^ n = 0 \<longleftrightarrow> v < 2 ^ n" by (simp add: div_eq_0_iff)
  ultimately show ?thesis by (auto simp: bit_iff_odd)
qed

lemma top_bit_spec:
  assumes "n < 32" "x \<noteq> 0" "unat x < 2 ^ Suc n"
  shows "2 ^ top_bit n x \<le> unat x \<and> unat x < 2 ^ Suc (top_bit n x)"
  using assms
proof (induction n)
  case 0
  then show ?case by (simp add: unat_gt_0 Suc_leI)
next
  case (Suc n)
  have "x AND push_bit (Suc n) 1 \<noteq> 0 \<longleftrightarrow> bit (unat x) (Suc n)"
    by (simp only: bit_iff_and_push_bit_not_eq_0 [symmetric] bit_unsigned_iff possible_bit_nat
        simp_thms)
  then have "x AND push_bit (Suc n) 1 \<noteq> 0 \<longleftrightarrow> 2 ^ Suc n \<le> unat x"
    by (simp only: half_step [OF Suc.prems(3)])
  then show ?case using Suc by (auto simp del: power_Suc simp: not_le)
qed

lemma bits_from_spec:
  assumes "n \<le> length a"
  shows "(if pn_val (take n a) = 0 then bits_from n a = 0
    else 0 < bits_from n a \<and> 2 ^ (bits_from n a - 1) \<le> pn_val (take n a)
      \<and> pn_val (take n a) < 2 ^ bits_from n a)"
  using assms
proof (induction n)
  case 0
  show ?case by simp
next
  case (Suc n)
  show ?case
  proof (cases "a ! n = 0")
    case True
    then show ?thesis using Suc by (auto simp: pn_val_take_Suc split: if_splits)
  next
    case False
    let ?t = "top_bit 31 (a ! n)" and ?lo = "pn_val (take n a)" and ?h = "unat (a ! n)"
    have t: "2 ^ ?t \<le> ?h" "?h < 2 ^ Suc ?t"
      using top_bit_spec [of 31 "a ! n"] False by simp_all
    have lo: "?lo < 2 ^ (32 * n)" using Suc.prems by (simp add: pn_val_take_bound)
    have "2 ^ (32 * n) * 2 ^ ?t \<le> ?lo + 2 ^ (32 * n) * ?h"
      using t(1) by (intro trans_le_add2) simp
    moreover have "?lo + 2 ^ (32 * n) * ?h < 0 + 2 ^ (32 * n) * 2 ^ Suc ?t"
      using lo t(2) by (rule high_limb_less)
    ultimately show ?thesis
      using Suc.prems False by (simp add: pn_val_take_Suc power_add unat_eq_0)
  qed
qed

lemma bits_zero: "pn_val a = 0 \<Longrightarrow> bits a = 0"
  using bits_from_spec [of "length a" a] by (simp add: bits_def)

lemma bits_bounds:
  assumes "pn_val a \<noteq> 0"
  shows "0 < bits a" "2 ^ (bits a - 1) \<le> pn_val a" "pn_val a < 2 ^ bits a"
  using bits_from_spec [of "length a" a] assms by (simp_all add: bits_def)

lemma bits_le_iff: "bits a \<le> n \<longleftrightarrow> pn_val a < 2 ^ n"
proof (cases "pn_val a = 0")
  case False
  show ?thesis
  proof
    assume "bits a \<le> n"
    then have "2 ^ bits a \<le> (2 :: nat) ^ n" by (rule power_increasing) simp
    then show "pn_val a < 2 ^ n" using bits_bounds(3) [OF False] by linarith
  next
    assume "pn_val a < 2 ^ n"
    then have "(2 :: nat) ^ (bits a - 1) < 2 ^ n" using bits_bounds(2) [OF False] by linarith
    then have "bits a - 1 < n" by simp
    then show "bits a \<le> n" by simp
  qed
qed (simp add: bits_zero)

lemma bits_le_width: "bits a \<le> 32 * length a"
  by (simp add: bits_le_iff pn_val_bound)

section \<open>Division\<close>

lemma pn_val_set_bit:
  assumes "s < 32 * length q" "2 ^ Suc s dvd pn_val q"
  shows "pn_val (q[s div 32 := q ! (s div 32) OR push_bit (s mod 32) 1]) = pn_val q + 2 ^ s"
proof -
  have "push_bit s 1 = (2 :: nat) ^ s" by (simp add: push_bit_eq_mult)
  have zero: "\<not> bit (pn_val q) s"
    using assms(2) by (auto simp: bit_iff_odd elim!: dvdE)
  have "pn_val (q[s div 32 := q ! (s div 32) OR push_bit (s mod 32) 1]) = pn_val q OR 2 ^ s"
  proof (rule bit_eqI)
    fix n
    have "n = s \<longleftrightarrow> n div 32 = s div 32 \<and> n mod 32 = s mod 32" by (metis div_mult_mod_eq)
    then show "bit (pn_val (q[s div 32 := q ! (s div 32) OR push_bit (s mod 32) 1])) n
        \<longleftrightarrow> bit (pn_val q OR 2 ^ s) n"
      using assms(1)
      by (auto simp: bit_pn_val bit_or_iff nth_list_update bit_exp_iff bit_push_bit_iff
          bit_1_iff less_mult_imp_div_less mult.commute)
  qed
  also have "\<dots> = pn_val q + 2 ^ s"
  proof (rule disjunctive_add_eq_or [symmetric], rule bit_eqI)
    fix n
    show "bit (pn_val q AND 2 ^ s) n \<longleftrightarrow> bit 0 n"
      using zero by (auto simp: bit_and_iff bit_exp_iff)
  qed
  finally show ?thesis .
qed

text \<open>The loop invariant of \<open>operator/=\<close>, before the iteration with the given \<open>shift\<close>.\<close>

definition div_inv :: "nat \<Rightarrow> nat \<Rightarrow> nat \<Rightarrow> nat \<Rightarrow> div_state \<Rightarrow> bool" where
  "div_inv W A B s st \<longleftrightarrow>
     length (ds_num st) = W \<and> length (ds_div st) = W \<and> length (ds_quot st) = W \<and>
     pn_val (ds_div st) = B * 2 ^ s \<and> pn_val (ds_num st) < B * 2 ^ Suc s \<and>
     pn_val (ds_num st) + pn_val (ds_quot st) * B = A \<and> 2 ^ Suc s dvd pn_val (ds_quot st)"

lemma div_step_spec:
  assumes inv: "div_inv W A B s st" and s: "s < 32 * W"
  shows "length (ds_num (div_step s st)) = W" "length (ds_quot (div_step s st)) = W"
    "length (ds_div (div_step s st)) = W"
    "pn_val (ds_div (div_step s st)) = B * 2 ^ s div 2"
    "pn_val (ds_num (div_step s st)) < B * 2 ^ s"
    "pn_val (ds_num (div_step s st)) + pn_val (ds_quot (div_step s st)) * B = A"
    "2 ^ s dvd pn_val (ds_quot (div_step s st))"
proof -
  note i = inv [unfolded div_inv_def]
  have q: "pn_val ((ds_quot st)[s div 32 := ds_quot st ! (s div 32) OR push_bit (s mod 32) 1])
      = pn_val (ds_quot st) + 2 ^ s"
    using i s by (intro pn_val_set_bit) simp_all
  have d: "2 ^ s dvd pn_val (ds_quot st)"
    using i by (metis dvd_mult_right power_Suc)
  show "length (ds_num (div_step s st)) = W" "length (ds_quot (div_step s st)) = W"
    "length (ds_div (div_step s st)) = W" "pn_val (ds_div (div_step s st)) = B * 2 ^ s div 2"
    using i by (simp_all add: div_step_def Let_def pn_val_shr drop_bit_Suc)
  show "pn_val (ds_num (div_step s st)) < B * 2 ^ s"
    using i by (auto simp: div_step_def Let_def pn_val_sub_exact)
  show "pn_val (ds_num (div_step s st)) + pn_val (ds_quot (div_step s st)) * B = A"
    using i q by (auto simp: div_step_def Let_def pn_val_sub_exact algebra_simps)
  show "2 ^ s dvd pn_val (ds_quot (div_step s st))"
    using i q d by (simp add: div_step_def Let_def)
qed

lemma div_loop_spec:
  assumes "div_inv W A B s st" "s < 32 * W"
  shows "length (ds_quot (div_loop s st)) = W \<and> length (ds_num (div_loop s st)) = W \<and>
    pn_val (ds_num (div_loop s st)) < B \<and>
    pn_val (ds_num (div_loop s st)) + pn_val (ds_quot (div_loop s st)) * B = A"
  using assms
proof (induction s arbitrary: st)
  case 0
  then show ?case using div_step_spec [of W A B 0 st] by simp
next
  case (Suc s)
  have "div_inv W A B s (div_step (Suc s) st)"
    using div_step_spec [OF Suc.prems] by (simp add: div_inv_def)
  then show ?case using Suc by simp
qed

lemma bu_div_spec:
  assumes "length a = length b"
  shows "bu_div a b = Inl Division_by_zero \<longleftrightarrow> pn_val b = 0"
    and "pn_val b \<noteq> 0 \<Longrightarrow>
      \<exists>q. bu_div a b = Inr q \<and> length q = length a \<and> pn_val q = pn_val a div pn_val b"
proof -
  have pos: "bits b \<noteq> 0" if "pn_val b \<noteq> 0" using bits_bounds [OF that] by simp
  have "bits b = 0 \<longleftrightarrow> pn_val b = 0" using bits_le_iff [of b 0] by simp
  then show "bu_div a b = Inl Division_by_zero \<longleftrightarrow> pn_val b = 0"
    by (simp add: bu_div_def Let_def)
  assume b: "pn_val b \<noteq> 0"
  show "\<exists>q. bu_div a b = Inr q \<and> length q = length a \<and> pn_val q = pn_val a div pn_val b"
  proof (cases "bits b > bits a")
    case True
    then have "bits a \<le> bits b - 1" by linarith
    then have "pn_val a < 2 ^ (bits b - 1)" by (simp only: bits_le_iff)
    then have "pn_val a < pn_val b" using bits_bounds(2) [OF b] by linarith
    then show ?thesis using True b pos by (simp add: bu_div_def Let_def)
  next
    case False
    define s where "s = bits a - bits b"
    define st where "st = \<lparr> ds_num = a, ds_div = bu_shl b s, ds_quot = bu_zero (length a) \<rparr>"
    have split: "bits a = bits b + s" "bits a = Suc s + (bits b - 1)"
      using False pos b by (simp_all add: s_def)
    have "pn_val b * 2 ^ s < 2 ^ bits b * 2 ^ s" using bits_bounds(3) [OF b] by simp
    also have "\<dots> \<le> 2 ^ (32 * length a)"
      unfolding power_add [symmetric] using split(1) bits_le_width [of a]
      by (intro power_increasing) simp_all
    finally have "pn_val (bu_shl b s) = pn_val b * 2 ^ s"
      using assms by (simp add: pn_val_shl push_bit_eq_mult take_bit_eq_mod)
    moreover have "pn_val a < pn_val b * 2 ^ Suc s"
    proof -
      have "pn_val a < 2 ^ bits a" using bits_le_iff by blast
      also have "\<dots> = 2 ^ (bits b - 1) * 2 ^ Suc s"
        using split(2) by (metis add.commute power_add)
      also have "\<dots> \<le> pn_val b * 2 ^ Suc s" using bits_bounds(2) [OF b] by (rule mult_le_mono1)
      finally show ?thesis .
    qed
    ultimately have "div_inv (length a) (pn_val a) (pn_val b) s st"
      using assms by (simp add: div_inv_def st_def)
    moreover have "s < 32 * length a"
      using split(1) bits_le_width [of a] pos b by simp
    ultimately have loop: "length (ds_quot (div_loop s st)) = length a"
      "pn_val (ds_num (div_loop s st)) < pn_val b"
      "pn_val (ds_num (div_loop s st)) + pn_val (ds_quot (div_loop s st)) * pn_val b = pn_val a"
      using div_loop_spec by blast+
    have "pn_val a div pn_val b = pn_val (ds_quot (div_loop s st))"
      using loop(2) unfolding loop(3) [symmetric] by simp
    then show ?thesis
      using False pos b loop(1) by (simp add: bu_div_def Let_def s_def st_def)
  qed
qed

section \<open>Byte and hexadecimal round trips\<close>

lemma length_pn_bytes [simp, limb_simps]: "length (pn_bytes a) = 4 * length a"
  by (induction a) (simp_all add: pn_bytes_def)

lemma le_bytes_4: "le_bytes 4 x = [of_nat (x mod 256), of_nat (x div 256 mod 256),
    of_nat (x div 65536 mod 256), of_nat (x div 16777216 mod 256)]"
proof -
  have 4: "4 = Suc (Suc (Suc (Suc 0)))" by simp
  show ?thesis unfolding 4 le_bytes.simps by (simp add: div_mult2_eq [symmetric])
qed

lemma limbs_of_pn_bytes [simp, limb_simps]: "limbs_of_bytes (pn_bytes a) = a"
proof (induction a)
  case Nil
  show ?case by (simp add: pn_bytes_def)
next
  case (Cons x xs)
  have "of_nat (le_val (le_bytes 4 (unat x))) = x"
    using unat_u32_less [of x] by (simp add: le_val_le_bytes del: unat_u32_less)
  then show ?case using Cons by (simp add: pn_bytes_def le_bytes_4 del: le_val.simps)
qed

lemma length_limbs_of_bytes: "length (limbs_of_bytes bs) = length bs div 4"
  by (induction bs rule: limbs_of_bytes.induct) simp_all

lemma le_val_pn_bytes: "le_val (pn_bytes a) = pn_val a"
proof (induction a)
  case (Cons x xs)
  have "pn_bytes (x # xs) = le_bytes 4 (unat x) @ pn_bytes xs" by (simp add: pn_bytes_def)
  then show ?case
    using Cons unat_u32_less [of x] by (simp add: le_val_append le_val_le_bytes del: unat_u32_less)
qed (simp add: pn_bytes_def)

lemma pn_bytes_limbs: "4 dvd length bs \<Longrightarrow> pn_bytes (limbs_of_bytes bs) = bs"
proof (induction bs rule: limbs_of_bytes.induct)
  case (1 b0 b1 b2 b3 bs)
  have v: "le_val [b0, b1, b2, b3] < 4294967296" using le_val_bound [of "[b0, b1, b2, b3]"] by simp
  have "le_bytes 4 (le_val [b0, b1, b2, b3]) = [b0, b1, b2, b3]"
  proof -
    have "length [b0, b1, b2, b3] = 4" by simp
    then show ?thesis using le_bytes_le_val [of "[b0, b1, b2, b3]"] by (simp only:)
  qed
  then have "le_bytes 4 (unat (of_nat (le_val [b0, b1, b2, b3]) :: u32)) = [b0, b1, b2, b3]"
    using v by (simp only: unat_u32_of_nat mod_less)
  moreover have "pn_bytes (limbs_of_bytes (b0 # b1 # b2 # b3 # bs))
      = le_bytes 4 (unat (of_nat (le_val [b0, b1, b2, b3]) :: u32)) @ pn_bytes (limbs_of_bytes bs)"
    by (simp only: pn_bytes_def limbs_of_bytes.simps list.map concat.simps)
  moreover have "4 dvd length bs" using "1.prems" by (simp add: dvd_def) presburger
  ultimately show ?case using "1.IH" by (simp only: append.simps)
qed (simp_all add: pn_bytes_def dvd_def, presburger+)

lemma HexDigit_hex_lower: "n < 16 \<Longrightarrow> HexDigit (hex_lower n) = int n"
proof -
  assume "n < 16"
  then have "n \<in> {0..<16}" by simp
  moreover have "\<forall>n \<in> set [0..<16]. HexDigit (hex_lower n) = int n"
    by (simp add: upt_rec HexDigit_def hex_lower_def)
  ultimately show ?thesis by simp
qed

lemma hex_nibbles:
  "(of_int (int (unat b mod 16)) OR push_bit 4 (of_int (int (unat b div 16)))) = (b :: u8)"
proof -
  have "unat b mod 16 < 256" by (rule less_trans [OF mod_less_divisor]) simp_all
  then have "of_nat (unat b mod 16) = take_bit 4 b"
    by (simp only: word_unat_eq_iff unat_u8_of_nat mod_less unsigned_take_bit_eq)
      (simp add: take_bit_eq_mod)
  moreover have "unat b div 16 < 256"
    using unat_u8_less [of b] div_le_dividend [of "unat b" 16] by linarith
  then have "of_nat (unat b div 16) = drop_bit 4 b"
    by (simp only: word_unat_eq_iff unat_u8_of_nat mod_less unat_drop_bit_eq)
      (simp add: drop_bit_eq_div)
  moreover have "take_bit 4 b OR push_bit 4 (drop_bit 4 b) = b"
  proof (rule bit_word_eqI)
    fix n assume "n < LENGTH(8)"
    then show "bit (take_bit 4 b OR push_bit 4 (drop_bit 4 b)) n \<longleftrightarrow> bit b n"
      by (cases "n < 4") (auto simp: bit_or_iff bit_push_bit_iff bit_take_bit_iff bit_drop_bit_eq)
  qed
  ultimately show ?thesis by (simp only: of_int_of_nat_eq)
qed

lemma fill_hex_bytes:
  "fill_hex (length bs) (concat (map (\<lambda>b. [int (unat b mod 16), int (unat b div 16)]) bs)) = bs"
  by (induction bs) (simp_all only: list.map concat.simps list.size append.simps fill_hex.simps
      add_0_right add_Suc_right hex_nibbles replicate.simps)

lemma hex_lower_props:
  assumes "n < 16"
  shows "\<not> isspace (hex_lower n)" "hex_lower n \<noteq> CHR ''x''" "hex_lower n \<noteq> CHR ''X''"
proof -
  have "n \<in> set [0..<16]" using assms by simp
  moreover have "\<forall>n \<in> set [0..<16]. \<not> isspace (hex_lower n)
      \<and> hex_lower n \<noteq> CHR ''x'' \<and> hex_lower n \<noteq> CHR ''X''"
    by (simp add: upt_rec isspace_def hex_lower_def)
  ultimately show "\<not> isspace (hex_lower n)" "hex_lower n \<noteq> CHR ''x''" "hex_lower n \<noteq> CHR ''X''"
    by blast+
qed

lemma nibble_bounds: "unat (b :: u8) div 16 < 16" "unat b mod 16 < 16"
proof -
  show "unat b div 16 < 16" using unat_u8_less [of b] by linarith
qed simp

lemma map_HexDigit_bytes:
  "map HexDigit (concat (map sprintf_02x bs))
    = concat (map (\<lambda>b. [int (unat b div 16), int (unat b mod 16)]) bs)"
  by (induction bs) (simp_all add: sprintf_02x_def HexDigit_hex_lower nibble_bounds)

lemma rev_concat_pairs: "rev (concat (map (\<lambda>b. [f b, g b]) (rev bs))) = concat (map (\<lambda>b. [g b, f b]) bs)"
  by (induction bs) simp_all

lemma hex_text_chars:
  "c \<in> set (concat (map sprintf_02x bs)) \<Longrightarrow> \<exists>n < 16. c = hex_lower n"
proof (induction bs)
  case (Cons b bs)
  then have "c = hex_lower (unat b div 16) \<or> c = hex_lower (unat b mod 16)
      \<or> c \<in> set (concat (map sprintf_02x bs))"
    by (simp add: sprintf_02x_def)
  then show ?case using Cons.IH nibble_bounds [of b] by metis
qed simp

lemma skip_prefix_hex:
  assumes "\<And>c. c \<in> set s \<Longrightarrow> \<exists>n < 16. c = hex_lower n"
  shows "skip_0x (dropWhile isspace s) = s" "takeWhile (\<lambda>c. HexDigit c \<noteq> - 1) s = s"
proof -
  have props: "\<not> isspace c \<and> c \<noteq> CHR ''x'' \<and> c \<noteq> CHR ''X'' \<and> HexDigit c \<noteq> - 1"
    if "c \<in> set s" for c
    using assms [OF that] hex_lower_props HexDigit_hex_lower by fastforce
  then have "dropWhile isspace s = s" by (cases s) simp_all
  moreover have "skip_0x s = s"
    using props by (auto simp: skip_0x_def split: list.split)
  ultimately show "skip_0x (dropWhile isspace s) = s" by simp
  show "takeWhile (\<lambda>c. HexDigit c \<noteq> - 1) s = s"
    using props by (simp add: takeWhile_eq_all_conv)
qed

lemma SetHex_hex_text:
  assumes "length bs = 4 * W"
  shows "SetHex W (concat (map sprintf_02x (rev bs))) = limbs_of_bytes bs"
proof -
  define s where "s = concat (map sprintf_02x (rev bs))"
  have c: "\<And>c. c \<in> set s \<Longrightarrow> \<exists>n < 16. c = hex_lower n"
    unfolding s_def by (rule hex_text_chars)
  have "rev (map HexDigit s) = concat (map (\<lambda>b. [int (unat b mod 16), int (unat b div 16)]) bs)"
    unfolding s_def map_HexDigit_bytes by (rule rev_concat_pairs)
  then have "SetHex W s = limbs_of_bytes (fill_hex (length bs)
      (concat (map (\<lambda>b. [int (unat b mod 16), int (unat b div 16)]) bs)))"
    by (simp only: SetHex_def Let_def skip_prefix_hex(1) [OF c] skip_prefix_hex(2) [OF c] assms)
  then show ?thesis by (simp only: fill_hex_bytes s_def)
qed

lemma SetHex_GetHex: "SetHex (length a) (GetHex a) = a"
  unfolding GetHex_def by (simp add: SetHex_hex_text)

lemma length_fill_hex: "length (fill_hex n ds) = n"
  by (induction n ds rule: fill_hex.induct) simp_all

lemma length_SetHex [simp, limb_simps]: "length (SetHex W str) = W"
  by (simp add: SetHex_def Let_def length_limbs_of_bytes length_fill_hex)

section \<open>The compact form\<close>

lemma unat_GetLow64 [limb_simps]:
  assumes "length a \<ge> 2"
  shows "unat (GetLow64 a) = pn_val a mod 2 ^ 64"
proof -
  obtain x y zs where a: "a = x # y # zs" using assms by (metis Suc_le_length_iff numeral_2_eq_2)
  have disj: "(ucast x :: u64) AND push_bit 32 (ucast y) = 0"
    by (rule bit_word_eqI) (auto simp: bit_and_iff bit_push_bit_iff bit_unsigned_iff dest: bit_imp_le_length)
  then have "GetLow64 a = ucast x + push_bit 32 (ucast y)"
    by (simp add: GetLow64_def a disjunctive_add_eq_or)
  moreover have "unat (push_bit 32 (ucast y) :: u64) = 4294967296 * unat y"
    using unat_u32_less [of y] by (simp add: push_bit_eq_mult unat_mult_exact mult.commute)
  ultimately have "unat (GetLow64 a) = unat x + 4294967296 * unat y"
    using unat_u32_less [of x] unat_u32_less [of y] unat_add_exact [of "ucast x" "push_bit 32 (ucast y) :: u64"]
    by (simp del: unat_u32_less)
  moreover have "pn_val a = unat x + 4294967296 * unat y + 2 ^ 64 * pn_val zs" by (simp add: a)
  moreover have "unat x + 4294967296 * unat y < 2 ^ 64"
    using unat_u32_less [of x] unat_u32_less [of y] by (simp del: unat_u32_less)
  ultimately show ?thesis by simp
qed

lemma u32_fields:
  fixes c :: u32
  shows "unat (drop_bit 24 c) = unat c div 16777216"
    and "unat (c AND 0x007fffff) = unat c mod 8388608"
    and "unat (drop_bit n c) = unat c div 2 ^ n"
    and "c AND 0x00800000 \<noteq> 0 \<longleftrightarrow> unat c div 8388608 mod 2 = 1"
proof -
  show "unat (drop_bit n c) = unat c div 2 ^ n" for n
    by (simp only: unat_drop_bit_eq drop_bit_eq_div [of n "unat c"])
  from this [of 24] show "unat (drop_bit 24 c) = unat c div 16777216" by simp
  have "c AND 0x007fffff = take_bit 23 c" by (simp add: take_bit_eq_mask mask_eq_exp_minus_1)
  then show "unat (c AND 0x007fffff) = unat c mod 8388608"
    by (simp only: unsigned_take_bit_eq) (simp add: take_bit_eq_mod)
  have "c AND 0x00800000 \<noteq> 0 \<longleftrightarrow> bit c 23"
    by (simp add: bit_iff_and_push_bit_not_eq_0 push_bit_eq_mult)
  also have "\<dots> \<longleftrightarrow> bit (unat c) 23" by (simp add: bit_unsigned_iff)
  also have "\<dots> \<longleftrightarrow> unat c div 8388608 mod 2 = 1" by (simp add: bit_iff_odd odd_iff_mod_2_eq_one)
  finally show "c AND 0x00800000 \<noteq> 0 \<longleftrightarrow> unat c div 8388608 mod 2 = 1" .
qed

text \<open>The fields of a compact number, as naturals.\<close>

abbreviation c_exp :: "u32 \<Rightarrow> nat" where "c_exp c \<equiv> unat c div 16777216"
abbreviation c_man :: "u32 \<Rightarrow> nat" where "c_man c \<equiv> unat c mod 8388608"

definition compact_value :: "u32 \<Rightarrow> nat" where
  "compact_value c = (if c_exp c \<le> 3 then c_man c div 256 ^ (3 - c_exp c)
                      else c_man c * 256 ^ (c_exp c - 3))"

lemma pow256: "(256 :: nat) ^ n = 2 ^ (8 * n)"
  by (simp add: power_mult)

lemma pn_val_SetCompact:
  "length (cr_value (SetCompact c)) = 8 \<and> pn_val (cr_value (SetCompact c)) = compact_value c mod 2 ^ 256"
proof (cases "c_exp c \<le> 3")
  case True
  have "c_man c div 256 ^ (3 - c_exp c) < 2 ^ 256"
    by (rule le_less_trans [OF div_le_dividend]) (rule less_trans [OF mod_less_divisor], simp_all)
  then show ?thesis
    using True by (simp add: SetCompact_def Let_def u32_fields compact_value_def pow256 del: drop_bit_and)
next
  case False
  then show ?thesis
    by (simp add: SetCompact_def Let_def u32_fields compact_value_def pow256 pn_val_shl
        push_bit_eq_mult take_bit_eq_mod)
qed

lemma overflow_iff:
  fixes m e :: nat
  assumes m: "m < 8388608" and e: "e > 3"
  shows "m \<noteq> 0 \<and> (e > 34 \<or> (m > 255 \<and> e > 33) \<or> (m > 65535 \<and> e > 32))
    \<longleftrightarrow> m * 256 ^ (e - 3) \<ge> 2 ^ 256"
proof -
  have less: "m * 256 ^ (e - 3) < 2 ^ 256" if "m < 2 ^ k" "k + 8 * (e - 3) \<le> 256" for k
  proof -
    have "m * 256 ^ (e - 3) < 2 ^ k * 2 ^ (8 * (e - 3))" using that(1) by (simp add: pow256)
    also have "\<dots> \<le> 2 ^ 256" unfolding power_add [symmetric] using that(2) by (intro power_increasing) simp_all
    finally show ?thesis .
  qed
  have geq: "m * 256 ^ (e - 3) \<ge> 2 ^ 256" if "2 ^ k \<le> m" "256 \<le> k + 8 * (e - 3)" for k
  proof -
    have "(2 :: nat) ^ 256 \<le> 2 ^ k * 2 ^ (8 * (e - 3))"
      unfolding power_add [symmetric] using that(2) by (intro power_increasing) simp_all
    also have "\<dots> \<le> m * 256 ^ (e - 3)" using that(1) by (simp add: pow256)
    finally show ?thesis .
  qed
  consider "m = 0" | "e > 34" "m \<noteq> 0" | "e = 34" "m \<noteq> 0" | "e = 33" "m \<noteq> 0" | "e \<le> 32" "m \<noteq> 0"
    by linarith
  then show ?thesis
  proof cases
    case 2
    then show ?thesis using geq [of 0] by simp
  next
    case 3
    then show ?thesis using geq [of 8] less [of 8] by fastforce
  next
    case 4
    then show ?thesis using geq [of 16] less [of 16] by fastforce
  next
    case 5
    then show ?thesis using less [of 23] m by fastforce
  qed simp
qed

lemma cr_overflow_SetCompact: "cr_overflow (SetCompact c) \<longleftrightarrow> compact_value c \<ge> 2 ^ 256"
proof (cases "c_exp c \<le> 3")
  case True
  have "c_man c div 256 ^ (3 - c_exp c) < 2 ^ 256"
    by (rule le_less_trans [OF div_le_dividend]) (rule less_trans [OF mod_less_divisor], simp_all)
  then show ?thesis
    using True by (simp add: SetCompact_def Let_def u32_fields compact_value_def not_le)
next
  case False
  have "c AND 0x007fffff \<noteq> 0 \<longleftrightarrow> c_man c \<noteq> 0"
    by (simp add: u32_fields word_unat_eq_iff)
  moreover have "c AND 0x007fffff > 0xff \<longleftrightarrow> c_man c > 255" "c AND 0x007fffff > 0xffff \<longleftrightarrow> c_man c > 65535"
    by (simp_all add: word_less_nat_alt u32_fields)
  ultimately show ?thesis
    using False overflow_iff [of "c_man c" "c_exp c"]
    by (simp add: SetCompact_def Let_def u32_fields(1) compact_value_def)
qed

text \<open>\<open>GetCompact\<close> works on the mantissa \<open>m0\<close>, the top three bytes of the number.\<close>

definition top3 :: "nat \<Rightarrow> nat \<Rightarrow> nat" where
  "top3 n v = (if n \<le> 3 then v * 256 ^ (3 - n) else v div 256 ^ (n - 3))"

lemma top3_bound:
  assumes "v < 256 ^ n"
  shows "top3 n v < 16777216"
proof (cases "n \<le> 3")
  case True
  have "v * 256 ^ (3 - n) < 256 ^ n * 256 ^ (3 - n)" using assms by simp
  also have "\<dots> = 256 ^ 3" unfolding power_add [symmetric] using True by simp
  finally show ?thesis using True by (simp add: top3_def)
next
  case False
  then have "v < 256 ^ 3 * 256 ^ (n - 3)" unfolding power_add [symmetric] using assms by simp
  then show ?thesis using False by (simp add: top3_def less_mult_imp_div_less)
qed

lemma u32_compact_pack:
  assumes "m < 8388608" "e < 256"
  shows "unat ((of_nat m :: u32) OR push_bit 24 (of_nat e)) = m + 16777216 * e"
proof -
  have m: "of_nat m = take_bit 23 (of_nat m :: u32)"
    using assms(1)
    by (simp only: word_unat_eq_iff unsigned_take_bit_eq unat_u32_of_nat) (simp add: take_bit_eq_mod)
  have "(of_nat m :: u32) AND push_bit 24 (of_nat e) = 0"
    by (subst m, rule bit_word_eqI) (auto simp: bit_and_iff bit_push_bit_iff bit_take_bit_iff)
  then have or_add: "(of_nat m :: u32) OR push_bit 24 (of_nat e) = of_nat m + push_bit 24 (of_nat e)"
    by (simp only: disjunctive_add_eq_or)
  have "push_bit 24 (of_nat e :: u32) = of_nat (16777216 * e)"
    by (simp add: push_bit_eq_mult mult.commute)
  then have "(of_nat m :: u32) OR push_bit 24 (of_nat e) = of_nat (m + 16777216 * e)"
    using or_add by (metis of_nat_add)
  moreover have "m + 16777216 * e < 4294967296" using assms by linarith
  ultimately show ?thesis by (simp only: unat_u32_of_nat mod_less)
qed

lemma GetCompact_mantissa:
  assumes len: "length a = 8" and n: "n = (bits a + 7) div 8"
  shows "(if n \<le> 3 then ucast (push_bit (8 * (3 - n)) (GetLow64 a))
          else ucast (GetLow64 (bu_shr a (8 * (n - 3))))) = (of_nat (top3 n (pn_val a)) :: u32)"
proof -
  have "bits a \<le> 8 * n" using n by linarith
  then have v: "pn_val a < 256 ^ n" unfolding pow256 by (simp only: bits_le_iff)
  show ?thesis
  proof (cases "n \<le> 3")
    case True
    have "(256 :: nat) ^ n \<le> 256 ^ 3" using True by (intro power_increasing) simp_all
    then have low: "unat (GetLow64 a) = pn_val a" using v len by (simp add: unat_GetLow64)
    have "unat (push_bit (8 * (3 - n)) (GetLow64 a)) = take_bit 64 (top3 n (pn_val a))"
      unfolding unsigned_push_bit_eq low unfolding top3_def pow256 push_bit_eq_mult
      using True by simp
    then have "unat (push_bit (8 * (3 - n)) (GetLow64 a)) = top3 n (pn_val a)"
      using top3_bound [OF v] by (simp add: take_bit_eq_mod)
    then show ?thesis
      using True top3_bound [OF v] by (simp add: word_unat_eq_iff)
  next
    case False
    have "unat (GetLow64 (bu_shr a (8 * (n - 3)))) = top3 n (pn_val a)"
      using top3_bound [OF v] False len
      by (simp add: unat_GetLow64 pn_val_shr top3_def pow256 drop_bit_eq_div)
    then show ?thesis
      using False top3_bound [OF v] by (simp add: word_unat_eq_iff)
  qed
qed

lemma GetCompact_spec:
  assumes len: "length a = 8" and n: "n = (bits a + 7) div 8"
    and m: "m0 = top3 n (pn_val a)"
  shows "\<exists>c. GetCompact a False = Some c \<and>
    unat c = (if m0 < 8388608 then m0 + 16777216 * n else m0 div 256 + 16777216 * (n + 1))"
proof -
  have "bits a \<le> 8 * n" using n by linarith
  then have "pn_val a < 256 ^ n" unfolding pow256 by (simp only: bits_le_iff)
  from top3_bound [OF this] have m0: "m0 < 16777216" by (simp add: m)
  have n33: "n \<le> 32" using n bits_le_width [of a] len by linarith
  have sign: "(of_nat m0 :: u32) AND 0x00800000 \<noteq> 0 \<longleftrightarrow> \<not> m0 < 8388608"
    using m0 by (simp add: u32_fields) linarith
  have mask: "(x :: u32) AND NOT 0x007fffff = 0" if "unat x < 8388608" for x
  proof -
    have "x = take_bit 23 x"
      using that by (simp only: word_unat_eq_iff unsigned_take_bit_eq) (simp add: take_bit_eq_mod)
    then have "x = x AND 0x007fffff" by (simp add: take_bit_eq_mask mask_eq_exp_minus_1)
    then show ?thesis by (metis and.assoc and_zero_eq bit.conj_cancel_right)
  qed
  have drop: "drop_bit 8 (of_nat m0 :: u32) = of_nat (m0 div 256)"
    using m0 by (simp add: word_unat_eq_iff u32_fields)
  show ?thesis
  proof (cases "m0 < 8388608")
    case True
    then show ?thesis
      using n33 sign mask [of "of_nat m0"] u32_compact_pack [of m0 n]
      unfolding GetCompact_def n [symmetric] Let_def GetCompact_mantissa [OF len n] m [symmetric]
      by simp
  next
    case False
    then show ?thesis
      using n33 sign m0 mask [of "of_nat (m0 div 256)"] u32_compact_pack [of "m0 div 256" "n + 1"]
      unfolding GetCompact_def n [symmetric] Let_def GetCompact_mantissa [OF len n] m [symmetric]
      by (simp add: drop)
  qed
qed

section \<open>Properties of the big integers\<close>

lemma compact_fields:
  assumes "(m :: nat) < 8388608"
  shows "(m + 16777216 * e) mod 8388608 = m" "(m + 16777216 * e) div 16777216 = e"
    "(m + 16777216 * e) div 8388608 mod 2 = 0"
proof -
  have eq: "m + 16777216 * e = m + 8388608 * (2 * e)" by simp
  show "(m + 16777216 * e) mod 8388608 = m" unfolding eq using assms by (simp only: mod_mult_self2 mod_less)
  have "(m + 8388608 * (2 * e)) div 8388608 = 2 * e" using assms by simp
  then show "(m + 16777216 * e) div 8388608 mod 2 = 0" unfolding eq by simp
  show "(m + 16777216 * e) div 16777216 = e" using assms by simp
qed

lemma top3_sign:
  assumes "v < 256 ^ n"
  shows "top3 n v < 8388608 \<longleftrightarrow> v < 2 ^ (8 * n - 1)"
proof -
  consider "n = 0" | "0 < n" "n \<le> 3" | "n > 3" by linarith
  then show ?thesis
  proof cases
    case 1
    then show ?thesis using assms by (simp add: top3_def)
  next
    case 2
    then have "8 * n - 1 + 8 * (3 - n) = 23" by linarith
    then have "8388608 = (2 :: nat) ^ (8 * n - 1) * 2 ^ (8 * (3 - n))"
      unfolding power_add [symmetric] by simp
    then have "v * 2 ^ (8 * (3 - n)) < 8388608 \<longleftrightarrow> v < 2 ^ (8 * n - 1)"
      by (metis mult_less_cancel2 zero_less_numeral zero_less_power)
    then show ?thesis using 2 by (simp add: top3_def pow256)
  next
    case 3
    then have "(2 :: nat) ^ (8 * n - 1) = 2 ^ (23 + 8 * (n - 3))" by simp
    then have "(2 :: nat) ^ (8 * n - 1) = 8388608 * 2 ^ (8 * (n - 3))"
      unfolding power_add by simp
    then show ?thesis using 3 by (simp add: top3_def pow256 div_less_iff_less_mult)
  qed
qed

lemma top3_restore:
  shows "n \<le> 3 \<Longrightarrow> top3 n v div 256 ^ (3 - n) = v"
    and "n \<le> 2 \<Longrightarrow> top3 n v div 256 div 256 ^ (3 - (n + 1)) = v"
    and "n > 2 \<Longrightarrow> top3 n v div 256 * 256 ^ (n + 1 - 3) = v div 256 ^ (n + 1 - 3) * 256 ^ (n + 1 - 3)"
proof -
  show "n \<le> 3 \<Longrightarrow> top3 n v div 256 ^ (3 - n) = v" by (simp add: top3_def)
  show "n \<le> 2 \<Longrightarrow> top3 n v div 256 div 256 ^ (3 - (n + 1)) = v"
  proof -
    assume "n \<le> 2"
    then have "3 - n = Suc (3 - (n + 1))" by simp
    then have "top3 n v = v * 256 ^ (3 - (n + 1)) * 256" using \<open>n \<le> 2\<close> by (simp add: top3_def)
    then show ?thesis by simp
  qed
  show "n > 2 \<Longrightarrow> top3 n v div 256 * 256 ^ (n + 1 - 3) = v div 256 ^ (n + 1 - 3) * 256 ^ (n + 1 - 3)"
  proof -
    assume n: "n > 2"
    then have "n + 1 - 3 = Suc (n - 3)" by simp
    moreover have "top3 n v = v div 256 ^ (n - 3)" using n by (auto simp: top3_def le_Suc_eq)
    moreover have "v div 256 ^ (n - 3) div 256 = v div 256 ^ Suc (n - 3)"
      by (metis div_mult2_eq mult.commute power_Suc)
    ultimately show ?thesis by (simp only:)
  qed
qed

lemma compact_of_GetCompact:
  assumes len: "length a = 8" and c: "GetCompact a False = Some c"
  shows "compact_value c = pn_val a div 256 ^ ((bits a + 8) div 8 - 3)
      * 256 ^ ((bits a + 8) div 8 - 3)"
    and "unat c div 8388608 mod 2 = 0"
proof -
  define n v where "n = (bits a + 7) div 8" and "v = pn_val a"
  have "bits a \<le> 8 * n" unfolding n_def by linarith
  then have v: "v < 256 ^ n" unfolding pow256 v_def by (simp only: bits_le_iff)
  have m0: "top3 n v < 16777216" by (rule top3_bound [OF v])
  have sign: "top3 n v < 8388608 \<longleftrightarrow> bits a \<le> 8 * n - 1"
    using top3_sign [OF v] by (simp only: bits_le_iff v_def)
  have c': "unat c = (if top3 n v < 8388608 then top3 n v + 16777216 * n
      else top3 n v div 256 + 16777216 * (n + 1))"
    using GetCompact_spec [OF len n_def refl] c by (auto simp: v_def)
  have "compact_value c = v div 256 ^ ((bits a + 8) div 8 - 3) * 256 ^ ((bits a + 8) div 8 - 3)
      \<and> unat c div 8388608 mod 2 = 0"
  proof (cases "top3 n v < 8388608")
    case True
    then have "bits a \<le> 8 * n - 1" by (simp only: sign)
    then have e: "(bits a + 8) div 8 - 3 = n - 3" unfolding n_def by linarith
    have fields: "c_man c = top3 n v" "c_exp c = n" "unat c div 8388608 mod 2 = 0"
      unfolding c' using True by (simp_all only: if_True simp_thms compact_fields)
    then show ?thesis
      unfolding compact_value_def fields e using top3_restore(1) [of n v] by (simp add: top3_def)
  next
    case False
    then have "\<not> bits a \<le> 8 * n - 1" using sign by blast
    then have e: "(bits a + 8) div 8 - 3 = n + 1 - 3" unfolding n_def by linarith
    have less: "top3 n v div 256 < 8388608" using m0 by linarith
    have fields: "c_man c = top3 n v div 256" "c_exp c = n + 1" "unat c div 8388608 mod 2 = 0"
      unfolding c' using False less by (simp_all only: if_False simp_thms compact_fields)
    show ?thesis
    proof (cases "n \<le> 2")
      case True
      then have "n + 1 \<le> 3" "n + 1 - 3 = 0" by simp_all
      then show ?thesis unfolding compact_value_def fields e using top3_restore(2) [OF True, of v] by simp
    next
      case False
      then have "\<not> n + 1 \<le> 3" "n > 2" by simp_all
      then show ?thesis unfolding compact_value_def fields e using top3_restore(3) [of n v] fields(3) by simp
    qed
  qed
  then show "compact_value c = pn_val a div 256 ^ ((bits a + 8) div 8 - 3)
      * 256 ^ ((bits a + 8) div 8 - 3)" "unat c div 8388608 mod 2 = 0" by (simp_all only: v_def)
qed

text \<open>The operators \<open>+\<close>, \<open>-\<close>, unary \<open>-\<close>, \<open>*\<close> and \<open>* uint32_t\<close> on two values of the same
  width compute addition, subtraction, negation and product modulo 2 to the width in bits,
  for every width.\<close>

theorem bu_ring_ops:
  assumes "length a = length b"
  shows "pn_val (bu_add a b) = (pn_val a + pn_val b) mod 2 ^ (32 * length a)
    \<and> int (pn_val (bu_sub a b)) = (int (pn_val a) - int (pn_val b)) mod 2 ^ (32 * length a)
    \<and> pn_val (bu_neg a) = (2 ^ (32 * length a) - pn_val a) mod 2 ^ (32 * length a)
    \<and> pn_val (bu_mul a b) = (pn_val a * pn_val b) mod 2 ^ (32 * length a)
    \<and> pn_val (bu_mul32 a w) = (pn_val a * unat w) mod 2 ^ (32 * length a)"
  using assms by (simp add: pn_val_add pn_val_sub pn_val_neg pn_val_mul pn_val_mul32)

theorem bu_ring_ops_witness:
  "pn_val (bu_mul [0xffffffff, 0xffffffff] [2, 0]) = 18446744073709551614"
  using bu_ring_ops [of "[0xffffffff, 0xffffffff]" "[2, 0]" 0] by simp

text \<open>C21: \<open>operator/=\<close> throws exactly on a zero divisor; otherwise its shift-and-subtract loop
  returns the quotient of the two numbers, at the same width.\<close>

theorem bu_div_correct:
  assumes "length a = length b"
  shows "if pn_val b = 0 then bu_div a b = Inl Division_by_zero
    else \<exists>q. bu_div a b = Inr q \<and> length q = length a \<and> pn_val q = pn_val a div pn_val b"
  using bu_div_spec [OF assms] by simp

theorem bu_div_correct_witness:
  "\<exists>q. bu_div [7, 5] [0, 2] = Inr q \<and> length q = Suc 1 \<and> pn_val q = 2"
  using bu_div_correct [of "[7, 5]" "[0, 2]"] by simp

text \<open>\<open>operator<<=\<close> and \<open>operator>>=\<close> multiply and divide by the power of two, for every shift
  distance (also one beyond the width), the left shift keeping the low bits; \<open>bits()\<close> is the
  position of the highest bit plus one.\<close>

theorem bu_shift_correct:
  "length (bu_shl a n) = length a \<and> pn_val (bu_shl a n) = (pn_val a * 2 ^ n) mod 2 ^ (32 * length a)
    \<and> length (bu_shr a n) = length a \<and> pn_val (bu_shr a n) = pn_val a div 2 ^ n
    \<and> (\<forall>k. bits a \<le> k \<longleftrightarrow> pn_val a < 2 ^ k)"
  by (simp add: pn_val_shl pn_val_shr push_bit_eq_mult take_bit_eq_mod drop_bit_eq_div bits_le_iff)

text \<open>C22: \<open>uint256::SetCompact\<close> stores the number its comment defines (mantissa times 256 to the
  exponent minus 3) cut to 256 bits, and sets \<open>pfOverflow\<close> exactly when that number does not fit in
  256 bits.\<close>

theorem SetCompact_denotes:
  "pn_val (cr_value (SetCompact c)) = compact_value c mod 2 ^ 256
    \<and> (cr_overflow (SetCompact c) \<longleftrightarrow> 2 ^ 256 \<le> compact_value c)"
  using pn_val_SetCompact cr_overflow_SetCompact by blast

text \<open>\<open>GetCompact\<close> never fails its assertions, and \<open>SetCompact\<close> of its result is the number
  rounded down to its leading two or three bytes, non-negative and without overflow.\<close>

theorem GetCompact_SetCompact:
  assumes "length a = 8"
  shows "\<exists>c. GetCompact a False = Some c
    \<and> pn_val (cr_value (SetCompact c))
        = pn_val a div 256 ^ ((bits a + 8) div 8 - 3) * 256 ^ ((bits a + 8) div 8 - 3)
    \<and> \<not> cr_negative (SetCompact c) \<and> \<not> cr_overflow (SetCompact c)"
proof -
  obtain c where c: "GetCompact a False = Some c" using GetCompact_spec [OF assms refl refl] by blast
  note v = compact_of_GetCompact [OF assms c]
  have "pn_val a < 2 ^ 256" using pn_val_bound [of a] assms by simp
  then have "compact_value c < 2 ^ 256" unfolding v(1) by (rule le_less_trans [OF div_times_less_eq_dividend])
  moreover have "c AND 0x00800000 = 0" using v(2) u32_fields(4) [of c] by auto
  then have "\<not> cr_negative (SetCompact c)" by (simp add: SetCompact_def Let_def)
  ultimately show ?thesis
    using c v(1) by (auto simp: pn_val_SetCompact cr_overflow_SetCompact)
qed

theorem GetCompact_SetCompact_witness:
  "\<exists>c. GetCompact (of_u64 8 0x12345678) False = Some c \<and>
    \<not> cr_negative (SetCompact c) \<and> \<not> cr_overflow (SetCompact c)"
  using GetCompact_SetCompact [of "of_u64 8 0x12345678"] by auto

text \<open>\<open>SetHex\<close> reads back the number that \<open>GetHex\<close> prints, at every width; reading and writing the
  raw bytes are inverse to each other too.\<close>

lemma SetHex_GetHex_id:
  "SetHex (length a) (GetHex a) = a \<and> of_vch (length a) (pn_bytes a) = Inr a"
  by (simp add: SetHex_GetHex of_vch_def)

end
