(* ===== verification/Serialization.thy ===== *)
theory Serialization
  imports BigUint
begin

unbundle bit_operations_syntax

text \<open>
  The wire and disk encoding of \<open>src/serialize.h\<close> with the fixed-width readers of
  \<open>src/crypto/common.h\<close> and the in-memory stream of \<open>src/streams.h\<close>.  A writer is a
  function to byte strings, a reader takes the unread bytes and returns the value with the bytes
  left, or the exception it throws.  The contract every type of the node relies on, that a reader
  returns what its writer wrote and leaves the rest of the stream alone, is the locale
  \<open>codec\<close>; it is interpreted on the integers, compact sizes, variable-length integers,
  strings, vectors, pairs and maps of the code, and extended with \<open>GetSerializeSize\<close>.
\<close>

section \<open>Readers\<close>

datatype ser_error = End_of_data | Non_canonical | Size_too_large | String_limit | Bad_data

type_synonym 'a reader = "bytes \<Rightarrow> ser_error + ('a \<times> bytes)"

definition rbind :: "'a reader \<Rightarrow> ('a \<Rightarrow> 'b reader) \<Rightarrow> 'b reader" where
  "rbind m f s = (case m s of Inl e \<Rightarrow> Inl e | Inr (x, r) \<Rightarrow> f x r)"

definition rreturn :: "'a \<Rightarrow> 'a reader" where
  "rreturn x s = Inr (x, s)"

definition rthrow :: "ser_error \<Rightarrow> 'a reader" where
  "rthrow e s = Inl e"

text \<open>\<open>s.read(pch, n)\<close>.\<close>

definition read_bytes :: "nat \<Rightarrow> bytes reader" where
  "read_bytes n s = (if n \<le> length s then Inr (take n s, drop n s) else Inl End_of_data)"

lemma rbind_simps [codec_simps]:
  "m s = Inr (x, r) \<Longrightarrow> rbind m f s = f x r"
  "m s = Inl e \<Longrightarrow> rbind m f s = Inl e"
  by (simp_all add: rbind_def)

lemma rreturn_simp [simp, codec_simps]: "rreturn x s = Inr (x, s)"
  by (simp add: rreturn_def)

lemma rthrow_simp [simp, codec_simps]: "rthrow e s = Inl e"
  by (simp add: rthrow_def)

lemma read_bytes_append [simp, codec_simps]:
  "length xs = n \<Longrightarrow> read_bytes n (xs @ r) = Inr (xs, r)"
  by (simp add: read_bytes_def)

lemma read_bytes_Inr: "read_bytes n s = Inr (x, r) \<longleftrightarrow> s = x @ r \<and> length x = n"
  by (auto simp: read_bytes_def)

lemma read_bytes_0 [simp, codec_simps]: "read_bytes 0 s = Inr ([], s)"
  by (simp add: read_bytes_def)

lemma rbind_Inr:
  "rbind m f s = Inr (y, r') \<longleftrightarrow> (\<exists>x r. m s = Inr (x, r) \<and> f x r = Inr (y, r'))"
  by (auto simp: rbind_def split: sum.splits)

section \<open>Fixed-width integers and booleans\<close>

definition ser_u8 :: "u8 \<Rightarrow> bytes" where "ser_u8 x = [x]"
definition ser_u16 :: "u16 \<Rightarrow> bytes" where "ser_u16 x = le_bytes 2 (unat x)"
definition ser_u32 :: "u32 \<Rightarrow> bytes" where "ser_u32 x = le_bytes 4 (unat x)"
definition ser_u64 :: "u64 \<Rightarrow> bytes" where "ser_u64 x = le_bytes 8 (unat x)"

definition unser_u8 :: "u8 reader" where
  "unser_u8 = rbind (read_bytes 1) (\<lambda>b. rreturn (of_nat (le_val b)))"
definition unser_u16 :: "u16 reader" where
  "unser_u16 = rbind (read_bytes 2) (\<lambda>b. rreturn (of_nat (le_val b)))"
definition unser_u32 :: "u32 reader" where
  "unser_u32 = rbind (read_bytes 4) (\<lambda>b. rreturn (of_nat (le_val b)))"
definition unser_u64 :: "u64 reader" where
  "unser_u64 = rbind (read_bytes 8) (\<lambda>b. rreturn (of_nat (le_val b)))"

definition ser_bool :: "bool \<Rightarrow> bytes" where
  "ser_bool a = [if a then 1 else 0]"

definition unser_bool :: "bool reader" where
  "unser_bool = rbind (read_bytes 1) (\<lambda>b. rreturn (hd b \<noteq> 0))"

text \<open>\<open>base_uint::Serialize\<close> and \<open>Unserialize\<close> move the raw limbs.\<close>

definition ser_uint :: "limbs \<Rightarrow> bytes" where
  "ser_uint a = pn_bytes a"

definition unser_uint :: "nat \<Rightarrow> limbs reader" where
  "unser_uint W = rbind (read_bytes (4 * W)) (\<lambda>b. rreturn (limbs_of_bytes b))"

text \<open>The unaligned accessors of \<open>crypto/common.h\<close>, on the bytes at \<open>ptr\<close>.\<close>

definition ReadLE32 :: "bytes \<Rightarrow> u32" where
  "ReadLE32 p = push_bit 24 (ucast (p ! 3)) OR push_bit 16 (ucast (p ! 2))
     OR push_bit 8 (ucast (p ! 1)) OR ucast (p ! 0)"

definition ReadLE64 :: "bytes \<Rightarrow> u64" where
  "ReadLE64 p = push_bit 56 (ucast (p ! 7)) OR push_bit 48 (ucast (p ! 6))
     OR push_bit 40 (ucast (p ! 5)) OR push_bit 32 (ucast (p ! 4))
     OR push_bit 24 (ucast (p ! 3)) OR push_bit 16 (ucast (p ! 2))
     OR push_bit 8 (ucast (p ! 1)) OR ucast (p ! 0)"

definition WriteLE32 :: "u32 \<Rightarrow> bytes" where
  "WriteLE32 x = [ucast x, ucast (drop_bit 8 x), ucast (drop_bit 16 x), ucast (drop_bit 24 x)]"

definition WriteLE64 :: "u64 \<Rightarrow> bytes" where
  "WriteLE64 x = [ucast x, ucast (drop_bit 8 x), ucast (drop_bit 16 x), ucast (drop_bit 24 x),
     ucast (drop_bit 32 x), ucast (drop_bit 40 x), ucast (drop_bit 48 x), ucast (drop_bit 56 x)]"

definition ReadBE32 :: "bytes \<Rightarrow> u32" where
  "ReadBE32 p = push_bit 24 (ucast (p ! 0)) OR push_bit 16 (ucast (p ! 1))
     OR push_bit 8 (ucast (p ! 2)) OR ucast (p ! 3)"

definition ReadBE64 :: "bytes \<Rightarrow> u64" where
  "ReadBE64 p = push_bit 56 (ucast (p ! 0)) OR push_bit 48 (ucast (p ! 1))
     OR push_bit 40 (ucast (p ! 2)) OR push_bit 32 (ucast (p ! 3))
     OR push_bit 24 (ucast (p ! 4)) OR push_bit 16 (ucast (p ! 5))
     OR push_bit 8 (ucast (p ! 6)) OR ucast (p ! 7)"

definition WriteBE32 :: "u32 \<Rightarrow> bytes" where
  "WriteBE32 x = [ucast (drop_bit 24 x), ucast (drop_bit 16 x), ucast (drop_bit 8 x), ucast x]"

definition WriteBE64 :: "u64 \<Rightarrow> bytes" where
  "WriteBE64 x = [ucast (drop_bit 56 x), ucast (drop_bit 48 x), ucast (drop_bit 40 x),
     ucast (drop_bit 32 x), ucast (drop_bit 24 x), ucast (drop_bit 16 x), ucast (drop_bit 8 x),
     ucast x]"

section \<open>Compact sizes\<close>

definition MAX_SIZE :: u64 where "MAX_SIZE = 0x02000000"

definition GetSizeOfCompactSize :: "u64 \<Rightarrow> nat" where
  "GetSizeOfCompactSize nSize =
     (if nSize < 253 then 1 else if nSize \<le> 0xffff then 1 + 2
      else if nSize \<le> 0xffffffff then 1 + 4 else 1 + 8)"

definition WriteCompactSize :: "u64 \<Rightarrow> bytes" where
  "WriteCompactSize nSize =
     (if nSize < 253 then ser_u8 (ucast nSize)
      else if nSize \<le> 0xffff then ser_u8 253 @ ser_u16 (ucast nSize)
      else if nSize \<le> 0xffffffff then ser_u8 254 @ ser_u32 (ucast nSize)
      else ser_u8 255 @ ser_u64 nSize)"

definition ReadCompactSize :: "u64 reader" where
  "ReadCompactSize = rbind unser_u8 (\<lambda>chSize. rbind
     (if chSize < 253 then rreturn (ucast chSize)
      else if chSize = 253 then rbind unser_u16 (\<lambda>xSize.
        if (ucast xSize :: u64) < 253 then rthrow Non_canonical else rreturn (ucast xSize))
      else if chSize = 254 then rbind unser_u32 (\<lambda>xSize.
        if (ucast xSize :: u64) < 0x10000 then rthrow Non_canonical else rreturn (ucast xSize))
      else rbind unser_u64 (\<lambda>xSize.
        if xSize < 0x100000000 then rthrow Non_canonical else rreturn xSize))
     (\<lambda>nSizeRet. if nSizeRet > MAX_SIZE then rthrow Size_too_large else rreturn nSizeRet))"

section \<open>Variable-length integers\<close>

text \<open>The loops of \<open>GetSizeOfVarInt\<close>, \<open>WriteVarInt\<close> and \<open>ReadVarInt\<close>, for every
  unsigned type.  \<open>WriteVarInt\<close> fills \<open>tmp\<close> from the last byte to the first and then
  writes it backwards; \<open>cont\<close> says that \<open>len\<close> is not zero.\<close>

lemma varint_decreases: "\<not> n \<le> (0x7f :: 'a :: len word) \<Longrightarrow> unat (drop_bit 7 n - 1) < unat n"
proof -
  assume n: "\<not> n \<le> (0x7f :: 'a word)"
  have val: "unat (0x7f :: 'a word) = 127 mod 2 ^ LENGTH('a)"
    by (simp only: unsigned_numeral take_bit_eq_mod of_nat_id)
  have "LENGTH('a) > 7"
  proof (rule ccontr)
    assume "\<not> LENGTH('a) > 7"
    then have "LENGTH('a) = 1 \<or> LENGTH('a) = 2 \<or> LENGTH('a) = 3 \<or> LENGTH('a) = 4
        \<or> LENGTH('a) = 5 \<or> LENGTH('a) = 6 \<or> LENGTH('a) = 7"
      using len_gt_0 [where 'a = 'a] by linarith
    then have "127 mod 2 ^ LENGTH('a) = (2 :: nat) ^ LENGTH('a) - 1" by auto
    moreover have "unat n < 2 ^ LENGTH('a)" by (rule unsigned_less)
    ultimately have "unat n \<le> unat (0x7f :: 'a word)" unfolding val by linarith
    then show False using n by (simp add: word_le_nat_alt)
  qed
  then have "(2 :: nat) ^ 7 < 2 ^ LENGTH('a)" by (intro power_strict_increasing) simp_all
  then have "unat n > 127" using n val by (simp add: word_le_nat_alt)
  moreover have d: "unat (drop_bit 7 n) = unat n div 128"
    by (simp add: unat_drop_bit_eq drop_bit_eq_div [of 7 "unat n"])
  ultimately have "drop_bit 7 n \<noteq> 0" by (auto simp: word_unat_eq_iff)
  then show ?thesis using d \<open>unat n > 127\<close> by (simp add: unat_minus_one)
qed

function GetSizeOfVarInt :: "'a :: len word \<Rightarrow> nat" where
  "GetSizeOfVarInt n = (if n \<le> 0x7f then 1 else GetSizeOfVarInt (drop_bit 7 n - 1) + 1)"
  by auto
termination
  by (relation "measure unat") (auto simp: varint_decreases)

function varint_tmp :: "'a :: len word \<Rightarrow> bool \<Rightarrow> bytes" where
  "varint_tmp n cont =
     (if n \<le> 0x7f then [] else varint_tmp (drop_bit 7 n - 1) True)
       @ [ucast (n AND 0x7f) OR (if cont then 0x80 else 0x00)]"
  by auto
termination
  by (relation "measure (\<lambda>(n, _). unat n)") (auto simp: varint_decreases)

declare GetSizeOfVarInt.simps [simp del] varint_tmp.simps [simp del]

definition WriteVarInt :: "'a :: len word \<Rightarrow> bytes" where
  "WriteVarInt n = varint_tmp n False"

fun ReadVarInt_loop :: "'a :: len word \<Rightarrow> 'a word reader" where
  "ReadVarInt_loop n [] = Inl End_of_data"
| "ReadVarInt_loop n (chData # s) =
     (let n = push_bit 7 n OR ucast (chData AND 0x7f) in
      if chData AND 0x80 \<noteq> 0 then ReadVarInt_loop (n + 1) s else Inr (n, s))"

definition ReadVarInt :: "'a :: len word reader" where
  "ReadVarInt = ReadVarInt_loop 0"

section \<open>Strings and vectors\<close>

definition ser_string :: "bytes \<Rightarrow> bytes" where
  "ser_string str = WriteCompactSize (of_nat (length str)) @ (if str \<noteq> [] then str else [])"

definition unser_string :: "bytes reader" where
  "unser_string = rbind ReadCompactSize (\<lambda>nSize.
     if nSize \<noteq> 0 then read_bytes (unat nSize) else rreturn [])"

definition unser_limited_string :: "u64 \<Rightarrow> bytes reader" where
  "unser_limited_string Limit = rbind ReadCompactSize (\<lambda>size.
     if size > Limit then rthrow String_limit
     else if size \<noteq> 0 then read_bytes (unat size) else rreturn [])"

text \<open>Vectors of \<open>unsigned char\<close> are read in blocks of at most 5000000 bytes.\<close>

function read_blocks :: "nat \<Rightarrow> nat \<Rightarrow> bytes \<Rightarrow> bytes reader" where
  "read_blocks i nSize v =
     (if i < nSize then
        let blk = min (nSize - i) (1 + 4999999)
        in rbind (read_bytes blk) (\<lambda>b. read_blocks (i + blk) nSize (v @ b))
      else rreturn v)"
  by auto
termination
  by (relation "measure (\<lambda>(i, nSize, v). nSize - i)") auto

declare read_blocks.simps [simp del]

definition ser_blob :: "bytes \<Rightarrow> bytes" where
  "ser_blob v = WriteCompactSize (of_nat (length v)) @ (if v \<noteq> [] then v else [])"

definition unser_blob :: "bytes reader" where
  "unser_blob = rbind ReadCompactSize (\<lambda>nSize. read_blocks 0 (unat nSize) [])"

text \<open>Other vectors are resized in steps of \<open>Suc c\<close> elements, where \<open>Suc c\<close> is
  \<open>5000000 / sizeof(T)\<close>, which is positive for every element type of the code.\<close>

primrec read_elems :: "'a reader \<Rightarrow> nat \<Rightarrow> 'a list \<Rightarrow> 'a list reader" where
  "read_elems un 0 v = rreturn v"
| "read_elems un (Suc n) v = rbind un (\<lambda>x. read_elems un n (v @ [x]))"

function read_mids :: "'a reader \<Rightarrow> nat \<Rightarrow> nat \<Rightarrow> nat \<Rightarrow> 'a list \<Rightarrow> 'a list reader" where
  "read_mids un c nMid nSize v =
     (if nMid < nSize then
        let nMid' = nMid + Suc c;
            nMid' = (if nMid' > nSize then nSize else nMid')
        in rbind (read_elems un (nMid' - length v) v) (read_mids un c nMid' nSize)
      else rreturn v)"
  by auto
termination
  by (relation "measure (\<lambda>(un, c, nMid, nSize, v). nSize - nMid)") auto

declare read_mids.simps [simp del]

definition ser_vec :: "('a \<Rightarrow> bytes) \<Rightarrow> 'a list \<Rightarrow> bytes" where
  "ser_vec ser v = WriteCompactSize (of_nat (length v)) @ concat (map ser v)"

definition unser_vec :: "nat \<Rightarrow> 'a reader \<Rightarrow> 'a list reader" where
  "unser_vec c un = rbind ReadCompactSize (\<lambda>nSize. read_mids un c 0 (unat nSize) [])"

text \<open>Pairs, maps and sets.  A \<open>std::map\<close> is the list of its entries in key order;
  \<open>insert\<close> leaves an entry with an equal key alone.\<close>

definition ser_pair :: "('a \<Rightarrow> bytes) \<Rightarrow> ('b \<Rightarrow> bytes) \<Rightarrow> 'a \<times> 'b \<Rightarrow> bytes" where
  "ser_pair sa sb item = sa (fst item) @ sb (snd item)"

definition unser_pair :: "'a reader \<Rightarrow> 'b reader \<Rightarrow> ('a \<times> 'b) reader" where
  "unser_pair ua ub = rbind ua (\<lambda>x. rbind ub (\<lambda>y. rreturn (x, y)))"

fun map_insert :: "('k :: linorder \<times> 'v) list \<Rightarrow> 'k \<times> 'v \<Rightarrow> ('k \<times> 'v) list" where
  "map_insert [] item = [item]"
| "map_insert (e # m) item =
     (if fst item < fst e then item # e # m
      else if fst item = fst e then e # m else e # map_insert m item)"

primrec read_map :: "('k :: linorder \<times> 'v) reader \<Rightarrow> nat \<Rightarrow> ('k \<times> 'v) list \<Rightarrow> ('k \<times> 'v) list reader"
where
  "read_map un 0 m = rreturn m"
| "read_map un (Suc n) m = rbind un (\<lambda>item. read_map un n (map_insert m item))"

definition ser_map :: "('k :: linorder \<times> 'v \<Rightarrow> bytes) \<Rightarrow> ('k \<times> 'v) list \<Rightarrow> bytes" where
  "ser_map ser m = WriteCompactSize (of_nat (length m)) @ concat (map ser m)"

definition unser_map :: "('k :: linorder \<times> 'v) reader \<Rightarrow> ('k \<times> 'v) list reader" where
  "unser_map un = rbind ReadCompactSize (\<lambda>nSize. read_map un (unat nSize) [])"

fun set_insert :: "('k :: linorder) list \<Rightarrow> 'k \<Rightarrow> 'k list" where
  "set_insert [] key = [key]"
| "set_insert (e # m) key =
     (if key < e then key # e # m else if key = e then e # m else e # set_insert m key)"

primrec read_set :: "('k :: linorder) reader \<Rightarrow> nat \<Rightarrow> 'k list \<Rightarrow> 'k list reader" where
  "read_set un 0 m = rreturn m"
| "read_set un (Suc n) m = rbind un (\<lambda>key. read_set un n (set_insert m key))"

definition unser_set :: "('k :: linorder) reader \<Rightarrow> 'k list reader" where
  "unser_set un = rbind ReadCompactSize (\<lambda>nSize. read_set un (unat nSize) [])"

section \<open>The codec contract\<close>

locale codec =
  fixes ser :: "'a \<Rightarrow> bytes"
    and unser :: "'a reader"
    and ok :: "'a \<Rightarrow> bool"
  assumes roundtrip: "ok x \<Longrightarrow> unser (ser x @ r) = Inr (x, r)"
begin

text \<open>No encoding is a proper prefix of another, so concatenated fields can be told apart.\<close>

lemma prefix_free:
  assumes "ok x" "ok y" "ser x @ r = ser y @ r'"
  shows "x = y \<and> r = r'"
  using roundtrip [OF assms(1), of r] roundtrip [OF assms(2), of r']
  unfolding assms(3) by simp

lemma ser_inject: "ok x \<Longrightarrow> ok y \<Longrightarrow> ser x = ser y \<Longrightarrow> x = y"
  using prefix_free [of x y "[]" "[]"] by blast

lemma read_written: "ok x \<Longrightarrow> rbind unser f (ser x @ r) = f x r"
  by (simp add: rbind_def roundtrip)

lemma elems_roundtrip:
  "\<forall>x \<in> set xs. ok x \<Longrightarrow>
    read_elems unser (length xs) v (concat (map ser xs) @ r) = Inr (v @ xs, r)"
proof (induction xs arbitrary: v)
  case (Cons x xs)
  then show ?case by (simp add: read_written)
qed simp

lemma read_elems_add:
  "read_elems unser (m + n) v s = rbind (read_elems unser m v) (read_elems unser n) s"
proof (induction m arbitrary: v s)
  case (Suc m)
  then show ?case by (simp add: rbind_def split: sum.splits)
qed (simp add: rbind_def)

lemma length_read_elems:
  "read_elems unser n v s = Inr (w, r) \<Longrightarrow> length w = length v + n"
proof (induction n arbitrary: v s)
  case (Suc n)
  then obtain x r' where "read_elems unser n (v @ [x]) r' = Inr (w, r)"
    by (auto simp: rbind_Inr)
  from Suc.IH [OF this] show ?case by simp
qed simp

text \<open>Reading in steps is reading all elements in one go.\<close>

lemma read_mids_eq:
  "length v = nMid \<Longrightarrow> nMid \<le> nSize \<Longrightarrow>
    read_mids unser c nMid nSize v s = read_elems unser (nSize - nMid) v s"
proof (induction "nSize - nMid" arbitrary: nMid v s rule: less_induct)
  case less
  show ?case
  proof (cases "nMid < nSize")
    case True
    define k where "k = min (Suc c) (nSize - nMid)"
    have k: "(if nMid + Suc c > nSize then nSize else nMid + Suc c) = nMid + k" "0 < k"
      "nMid + k \<le> nSize" "nSize - nMid = k + (nSize - (nMid + k))"
      using True by (auto simp: k_def)
    have step: "read_mids unser c nMid nSize v s
        = rbind (read_elems unser k v) (read_mids unser c (nMid + k) nSize) s"
      unfolding read_mids.simps [of unser c nMid] Let_def k(1) using True less.prems(1) by simp
    show ?thesis
    proof (cases "read_elems unser k v s")
      case (Inl e)
      then show ?thesis unfolding step k(4) read_elems_add by (simp add: rbind_def)
    next
      case (Inr a)
      obtain w r where a: "a = (w, r)" by (cases a)
      have "length w = nMid + k" using length_read_elems [of k v s w r] Inr a less.prems by simp
      then have "read_mids unser c (nMid + k) nSize w r
          = read_elems unser (nSize - (nMid + k)) w r"
        using less.hyps [of "nMid + k" w r] k(2) k(3) True by simp
      then show ?thesis unfolding step k(4) read_elems_add using Inr a by (simp add: rbind_def)
    qed
  next
    case False
    then show ?thesis using less.prems by (simp add: read_mids.simps)
  qed
qed

end

text \<open>A codec with the size that \<open>GetSerializeSize\<close> reports.\<close>

locale sized_codec = codec ser unser ok
  for ser :: "'a \<Rightarrow> bytes" and unser :: "'a reader" and ok :: "'a \<Rightarrow> bool" +
  fixes size_of :: "'a \<Rightarrow> nat"
  assumes size_law: "ok x \<Longrightarrow> length (ser x) = size_of x"
begin

lemma size_concat:
  "\<forall>x \<in> set xs. ok x \<Longrightarrow> length (concat (map ser xs)) = sum_list (map size_of xs)"
  by (induction xs) (simp_all add: size_law)

end

section \<open>The basic types keep the contract\<close>

lemma ser_int_iff:
  "unser_u8 s = Inr (a, r) \<longleftrightarrow> s = ser_u8 a @ r"
  "unser_u16 s = Inr (b, r) \<longleftrightarrow> s = ser_u16 b @ r"
  "unser_u32 s = Inr (c, r) \<longleftrightarrow> s = ser_u32 c @ r"
  "unser_u64 s = Inr (d, r) \<longleftrightarrow> s = ser_u64 d @ r"
proof -
  have le: "of_nat (le_val xs) = (w :: 'a :: len word) \<longleftrightarrow> xs = le_bytes n (unat w)"
    if "length xs = n" "LENGTH('a) = 8 * n" for xs n and w :: "'a :: len word"
  proof -
    have p: "(2 :: nat) ^ LENGTH('a) = 256 ^ n" using that(2) by (simp add: power_mult)
    have "le_val xs < 256 ^ n" using le_val_bound [of xs] that by simp
    then have "unat (of_nat (le_val xs) :: 'a word) = le_val xs"
      by (simp add: unat_of_nat p)
    moreover have "unat w < 256 ^ n" using unsigned_less [of w, where 'a = nat] p by metis
    ultimately show ?thesis
      using that(1) by (metis le_bytes_le_val le_val_le_bytes mod_less word_unat_eq_iff)
  qed
  have l1: "length (ser_u8 a) = 1" "length (ser_u16 b) = 2" "length (ser_u32 c) = 4"
    "length (ser_u64 d) = 8" by (simp_all add: ser_u8_def ser_u16_def ser_u32_def ser_u64_def)
  show "unser_u8 s = Inr (a, r) \<longleftrightarrow> s = ser_u8 a @ r"
    by (cases s) (auto simp: unser_u8_def ser_u8_def rbind_def read_bytes_def)
  show "unser_u16 s = Inr (b, r) \<longleftrightarrow> s = ser_u16 b @ r"
    using le [of _ 2 b] l1(2) by (auto simp: unser_u16_def rbind_Inr read_bytes_Inr ser_u16_def)
  show "unser_u32 s = Inr (c, r) \<longleftrightarrow> s = ser_u32 c @ r"
    using le [of _ 4 c] l1(3) by (auto simp: unser_u32_def rbind_Inr read_bytes_Inr ser_u32_def)
  show "unser_u64 s = Inr (d, r) \<longleftrightarrow> s = ser_u64 d @ r"
    using le [of _ 8 d] l1(4) by (auto simp: unser_u64_def rbind_Inr read_bytes_Inr ser_u64_def)
qed

lemma ser_int_length [simp]:
  "length (ser_u8 a) = 1" "length (ser_u16 b) = 2" "length (ser_u32 c) = 4" "length (ser_u64 d) = 8"
  by (simp_all add: ser_u8_def ser_u16_def ser_u32_def ser_u64_def)

lemma unser_int_append [simp, codec_simps]:
  "unser_u8 (ser_u8 a @ r) = Inr (a, r)" "unser_u16 (ser_u16 b @ r) = Inr (b, r)"
  "unser_u32 (ser_u32 c @ r) = Inr (c, r)" "unser_u64 (ser_u64 d @ r) = Inr (d, r)"
  by (simp_all only: ser_int_iff)

interpretation u8: sized_codec ser_u8 unser_u8 "\<lambda>_. True" "\<lambda>_. 1" by unfold_locales simp_all
interpretation u16: sized_codec ser_u16 unser_u16 "\<lambda>_. True" "\<lambda>_. 2" by unfold_locales simp_all
interpretation u32: sized_codec ser_u32 unser_u32 "\<lambda>_. True" "\<lambda>_. 4" by unfold_locales simp_all
interpretation u64: sized_codec ser_u64 unser_u64 "\<lambda>_. True" "\<lambda>_. 8" by unfold_locales simp_all

interpretation bool: sized_codec ser_bool unser_bool "\<lambda>_. True" "\<lambda>_. 1"
  by unfold_locales (simp_all add: ser_bool_def unser_bool_def rbind_def read_bytes_def)

lemma unser_uint_append: "length a = W \<Longrightarrow> unser_uint W (ser_uint a @ r) = Inr (a, r)"
  by (simp add: unser_uint_def ser_uint_def rbind_def)

interpretation uint256: sized_codec ser_uint "unser_uint 8" "\<lambda>a. length a = 8" "\<lambda>_. 32"
  by unfold_locales (simp_all only: unser_uint_append, simp add: ser_uint_def)

interpretation uint160: sized_codec ser_uint "unser_uint 5" "\<lambda>a. length a = 5" "\<lambda>_. 20"
  by unfold_locales (simp_all only: unser_uint_append, simp add: ser_uint_def)

section \<open>Compact sizes are canonical\<close>

lemma u64_nat_cmp:
  fixes n :: u64
  shows "n < 253 \<longleftrightarrow> unat n < 253" "n \<le> 0xffff \<longleftrightarrow> unat n < 65536"
    "n \<le> 0xffffffff \<longleftrightarrow> unat n < 4294967296" "n < 0x10000 \<longleftrightarrow> unat n < 65536"
    "n < 0x100000000 \<longleftrightarrow> unat n < 4294967296" "MAX_SIZE < n \<longleftrightarrow> 33554432 < unat n"
  by (simp_all add: word_less_nat_alt word_le_nat_alt MAX_SIZE_def less_Suc_eq_le [symmetric])

lemma ucast_back:
  "unat (n :: u64) < 256 \<Longrightarrow> ucast (ucast n :: u8) = n"
  "unat n < 65536 \<Longrightarrow> ucast (ucast n :: u16) = n"
  "unat n < 4294967296 \<Longrightarrow> ucast (ucast n :: u32) = n"
  "ucast (ucast (x8 :: u8) :: u64) = x8"
  "ucast (ucast (x16 :: u16) :: u64) = x16"
  "ucast (ucast (x32 :: u32) :: u64) = x32"
  unfolding word_unat_eq_iff
  by (simp_all only: unat_ucast_u64_u8 unat_ucast_u64_u16 unat_ucast_u64_u32 unat_ucast_u8_u64
      unat_ucast_u16_u64 unat_ucast_u32_u64 mod_less unat_u8_less unat_u16_less unat_u32_less)

lemma CompactSize_roundtrip:
  assumes "n \<le> MAX_SIZE"
  shows "ReadCompactSize (WriteCompactSize n @ r) = Inr (n, r)"
proof -
  have n: "unat n \<le> 33554432" using assms by (simp add: word_le_nat_alt MAX_SIZE_def)
  have max: "\<not> MAX_SIZE < n" using assms by simp
  have below: "unat n < 4294967296" using n by simp
  consider "unat n < 253" | "253 \<le> unat n" "unat n < 65536" | "65536 \<le> unat n" by linarith
  then show ?thesis
  proof cases
    case 1
    then have "(ucast n :: u8) < 253" by (simp add: word_less_nat_alt unsigned_ucast_eq take_bit_eq_mod)
    moreover have "ucast (ucast n :: u8) = n" using 1 by (intro ucast_back) simp
    ultimately show ?thesis
      using 1 max by (simp add: WriteCompactSize_def ReadCompactSize_def u64_nat_cmp(1) rbind_def)
  next
    case 2
    then have "ucast (ucast n :: u16) = n" by (intro ucast_back)
    moreover from this have "\<not> (ucast (ucast n :: u16) :: u64) < 253"
      using 2(1) by (simp add: u64_nat_cmp(1))
    ultimately show ?thesis
      using 2 max by (simp add: WriteCompactSize_def ReadCompactSize_def u64_nat_cmp(1-3) rbind_def)
  next
    case 3
    then have "ucast (ucast n :: u32) = n" using below by (intro ucast_back)
    then show ?thesis
      using 3 max below
      by (simp add: WriteCompactSize_def ReadCompactSize_def u64_nat_cmp(1-4) rbind_def)
  qed
qed

lemma CompactSize_canonical:
  assumes "ReadCompactSize s = Inr (n, r)"
  shows "s = WriteCompactSize n @ r \<and> n \<le> MAX_SIZE"
proof -
  obtain ch s1 where ch: "s = ser_u8 ch @ s1"
    and rest: "ReadCompactSize (ser_u8 ch @ s1) = Inr (n, r)"
    using assms by (auto simp: ReadCompactSize_def rbind_Inr ser_int_iff)
  have max: "n \<le> MAX_SIZE"
    using rest by (auto simp: ReadCompactSize_def rbind_Inr not_less split: if_splits)
  consider "ch < 253" | "ch = 253" | "ch = 254" | "\<not> ch < 253" "ch \<noteq> 253" "ch \<noteq> 254" by blast
  then show ?thesis
  proof cases
    case 1
    then have "unat ch < 253" by (simp add: word_less_nat_alt)
    then show ?thesis
      using rest 1 ch max
      by (auto simp: ReadCompactSize_def rbind_Inr WriteCompactSize_def u64_nat_cmp(1) ucast_back
          split: if_splits)
  next
    case 2
    then obtain x where x: "s1 = ser_u16 x @ r" "n = ucast x" "\<not> (ucast x :: u64) < 253"
      using rest by (auto simp: ReadCompactSize_def rbind_Inr ser_int_iff split: if_splits)
    then show ?thesis
      using 2 ch max by (simp add: WriteCompactSize_def u64_nat_cmp(1-3) ucast_back)
  next
    case 3
    then obtain x where x: "s1 = ser_u32 x @ r" "n = ucast x" "\<not> (ucast x :: u64) < 0x10000"
      using rest by (auto simp: ReadCompactSize_def rbind_Inr ser_int_iff split: if_splits)
    then show ?thesis
      using 3 ch max by (simp add: WriteCompactSize_def u64_nat_cmp(1-4) ucast_back)
  next
    case 4
    then obtain x where x: "s1 = ser_u64 x @ r" "n = x" "\<not> x < 0x100000000"
      using rest by (auto simp: ReadCompactSize_def rbind_Inr ser_int_iff split: if_splits)
    have "ch = 255"
    proof -
      have "unat ch \<noteq> 253" "unat ch \<noteq> 254" "\<not> unat ch < 253"
        using 4 by (simp_all add: word_unat_eq_iff word_less_nat_alt)
      then have "unat ch = 255" using unat_u8_less [of ch] by linarith
      then show ?thesis by (simp add: word_unat_eq_iff)
    qed
    then show ?thesis
      using x ch max by (simp add: WriteCompactSize_def u64_nat_cmp(1-5))
  qed
qed

lemma length_WriteCompactSize [simp]: "length (WriteCompactSize n) = GetSizeOfCompactSize n"
  by (simp add: WriteCompactSize_def GetSizeOfCompactSize_def)

interpretation csize: sized_codec WriteCompactSize ReadCompactSize "\<lambda>n. n \<le> MAX_SIZE"
    GetSizeOfCompactSize
  by unfold_locales (simp_all add: CompactSize_roundtrip)

text \<open>The size field of a container of \<open>n\<close> elements.\<close>

lemma read_count:
  "n \<le> 33554432 \<Longrightarrow> rbind ReadCompactSize f (WriteCompactSize (of_nat n) @ s) = f (of_nat n) s"
  "n \<le> 33554432 \<Longrightarrow> unat (of_nat n :: u64) = n"
  by (simp_all add: csize.read_written word_le_nat_alt MAX_SIZE_def)

section \<open>Variable-length integers read back\<close>

lemma and_7f: "n AND 0x7f = take_bit 7 (n :: 'a :: len word)"
  by (simp add: take_bit_eq_mask mask_eq_exp_minus_1)

lemma bit_80: "bit (0x80 :: 'a :: len word) k \<longleftrightarrow> k = 7 \<and> 7 < LENGTH('a)"
proof -
  have eq: "(0x80 :: 'a word) = push_bit 7 1" by (simp add: push_bit_eq_mult)
  show ?thesis unfolding eq bit_push_bit_iff bit_1_iff by (auto simp: bit_simps)
qed

lemma bit_128_int: "bit (128 :: int) k \<longleftrightarrow> k = 7"
proof -
  have "bit ((2 :: int) ^ 7) k \<longleftrightarrow> k = 7" unfolding bit_exp_iff by auto
  then show ?thesis by simp
qed

lemma varint_byte:
  fixes n :: "'a :: len word"
  assumes "LENGTH('a) \<ge> 8"
  shows "ucast ((ucast (n AND 0x7f) OR 0x80 :: u8) AND 0x7f) = n AND 0x7f"
    and "ucast ((ucast (n AND 0x7f) OR 0 :: u8) AND 0x7f) = n AND 0x7f"
    and "(ucast (n AND 0x7f) OR 0x80 :: u8) AND 0x80 \<noteq> 0"
    and "(ucast (n AND 0x7f) OR 0 :: u8) AND 0x80 = 0"
    and "push_bit 7 (drop_bit 7 n) OR (n AND 0x7f) = n"
proof -
  have low: "(x OR 0x80 :: u8) AND 0x7f = x AND 0x7f" for x
    unfolding and_7f by (intro bit_word_eqI) (auto simp: bit_or_iff bit_take_bit_iff bit_80)
  show "ucast ((ucast (n AND 0x7f) OR 0x80 :: u8) AND 0x7f) = n AND 0x7f"
    unfolding low unfolding and_7f using assms
    by (intro bit_word_eqI) (auto simp: bit_simps bit_unsigned_iff)
  show "ucast ((ucast (n AND 0x7f) OR 0 :: u8) AND 0x7f) = n AND 0x7f"
    unfolding and_7f using assms
    by (intro bit_word_eqI) (auto simp: bit_simps bit_unsigned_iff)
  have "bit ((ucast (n AND 0x7f) OR 0x80 :: u8) AND 0x80) 7"
    by (simp add: bit_simps bit_80)
  then show "(ucast (n AND 0x7f) OR 0x80 :: u8) AND 0x80 \<noteq> 0" by auto
  show "(ucast (n AND 0x7f) OR 0 :: u8) AND 0x80 = 0"
    unfolding and_7f
    by (intro bit_word_eqI) (auto simp: bit_and_iff bit_or_iff bit_take_bit_iff bit_unsigned_iff bit_80 bit_128_int)
  show "push_bit 7 (drop_bit 7 n) OR (n AND 0x7f) = n"
    unfolding and_7f
  proof (rule bit_word_eqI)
    fix k assume "k < LENGTH('a)"
    then show "bit (push_bit 7 (drop_bit 7 n) OR take_bit 7 n) k \<longleftrightarrow> bit n k"
      by (cases "k < 7") (auto simp: bit_simps)
  qed
qed

lemma varint_small:
  fixes n :: "'a :: len word"
  assumes "LENGTH('a) \<ge> 8" "n \<le> 0x7f"
  shows "n AND 0x7f = n"
proof -
  have "(2 :: nat) ^ 8 \<le> 2 ^ LENGTH('a)" using assms(1) by (intro power_increasing) simp_all
  then have "unat (0x7f :: 'a word) = 127"
    by (simp only: unsigned_numeral take_bit_eq_mod of_nat_id) simp
  then have "unat n < 128" using assms(2) by (simp add: word_le_nat_alt)
  then have "take_bit 7 (unat n) = unat n" by (simp add: take_bit_eq_mod)
  then have "take_bit 7 n = n"
    by (simp only: word_unat_eq_iff unsigned_take_bit_eq)
  then show ?thesis by (simp add: and_7f)
qed

lemma ReadVarInt_digits:
  fixes n :: "'a :: len word"
  assumes len: "LENGTH('a) \<ge> 8"
  shows "ReadVarInt_loop 0 (varint_tmp n True @ rest) = ReadVarInt_loop (n + 1) rest"
proof (induction n "True" arbitrary: rest rule: varint_tmp.induct)
  case (1 n)
  note byte = varint_byte [OF len, of n]
  show ?case
  proof (cases "n \<le> 0x7f")
    case True
    then have "varint_tmp n True = [ucast (n AND 0x7f) OR 0x80]" by (simp add: varint_tmp.simps)
    then show ?thesis using byte(1,3) varint_small [OF len True] by (simp add: Let_def)
  next
    case False
    then have v: "varint_tmp n True
        = varint_tmp (drop_bit 7 n - 1) True @ [ucast (n AND 0x7f) OR 0x80]"
      by (subst varint_tmp.simps) simp
    have "ReadVarInt_loop 0 (varint_tmp n True @ rest)
        = ReadVarInt_loop (drop_bit 7 n) ((ucast (n AND 0x7f) OR 0x80) # rest)"
      using "1.hyps" [OF False, of "(ucast (n AND 0x7f) OR 0x80) # rest"] unfolding v by simp
    then show ?thesis using byte(1,3,5) by (simp add: Let_def)
  qed
qed

lemma VarInt_roundtrip:
  fixes n :: "'a :: len word"
  assumes len: "LENGTH('a) \<ge> 8"
  shows "ReadVarInt (WriteVarInt n @ r) = Inr (n, r)"
proof (cases "n \<le> 0x7f")
  case True
  then show ?thesis
    using varint_byte(2,4) [OF len, of n] varint_small [OF len True]
    by (simp add: WriteVarInt_def ReadVarInt_def varint_tmp.simps Let_def)
next
  case False
  have "ReadVarInt (WriteVarInt n @ r)
      = ReadVarInt_loop (drop_bit 7 n) ((ucast (n AND 0x7f) OR 0) # r)"
    using False ReadVarInt_digits [OF len, of "drop_bit 7 n - 1" "(ucast (n AND 0x7f) OR 0) # r"]
    by (simp add: WriteVarInt_def ReadVarInt_def varint_tmp.simps [of n])
  then show ?thesis using varint_byte(2,4,5) [OF len, of n] by (simp add: Let_def)
qed

lemma length_varint_tmp: "length (varint_tmp n c) = GetSizeOfVarInt n"
proof (induction n c rule: varint_tmp.induct)
  case (1 n c)
  then show ?case by (cases "n \<le> 0x7f") (simp_all add: varint_tmp.simps [of n] GetSizeOfVarInt.simps [of n])
qed

interpretation varint32: sized_codec "WriteVarInt :: u32 \<Rightarrow> bytes" ReadVarInt "\<lambda>_. True" GetSizeOfVarInt
  by unfold_locales (simp_all add: VarInt_roundtrip, simp add: WriteVarInt_def length_varint_tmp)

interpretation varint64: sized_codec "WriteVarInt :: u64 \<Rightarrow> bytes" ReadVarInt "\<lambda>_. True" GetSizeOfVarInt
  by unfold_locales (simp_all add: VarInt_roundtrip, simp add: WriteVarInt_def length_varint_tmp)

text \<open>The buffer \<open>tmp\<close> of \<open>WriteVarInt\<close> never overflows.\<close>

lemma varint_tmp_fits:
  fixes n :: "'a :: len word"
  assumes "unat n < 2 ^ (7 * k)" "k \<ge> 1"
  shows "GetSizeOfVarInt n \<le> k"
  using assms
proof (induction k arbitrary: n)
  case (Suc k)
  show ?case
  proof (cases "n \<le> 0x7f")
    case True
    then show ?thesis by (simp add: GetSizeOfVarInt.simps)
  next
    case False
    have d: "unat (drop_bit 7 n) = unat n div 128"
      by (simp add: unat_drop_bit_eq drop_bit_eq_div [of 7 "unat n"])
    have "unat n < 128 * 2 ^ (7 * k)" using Suc.prems(1) by (simp add: power_add)
    then have lt: "unat (drop_bit 7 n) < 2 ^ (7 * k)" unfolding d by (simp add: less_mult_imp_div_less mult.commute)
    have nz: "drop_bit 7 n \<noteq> 0"
      using varint_decreases [OF False] by (auto simp: word_less_nat_alt [symmetric] not_less [symmetric])
    then have "unat (drop_bit 7 n - 1) < 2 ^ (7 * k)" using lt by (simp add: unat_minus_one)
    moreover have "k \<ge> 1"
    proof (rule ccontr)
      assume "\<not> k \<ge> 1"
      then have "k = 0" by simp
      then show False using lt nz by (simp add: word_unat_eq_iff)
    qed
    ultimately have "GetSizeOfVarInt (drop_bit 7 n - 1) \<le> k" by (rule Suc.IH)
    then show ?thesis using False by (simp add: GetSizeOfVarInt.simps [of n])
  qed
qed simp

section \<open>Strings, vectors, pairs, maps and sets keep the contract\<close>

lemma read_blocks_eq:
  "i \<le> nSize \<Longrightarrow>
    read_blocks i nSize v s = rbind (read_bytes (nSize - i)) (\<lambda>b. rreturn (v @ b)) s"
proof (induction i nSize v arbitrary: s rule: read_blocks.induct)
  case (1 i nSize v)
  show ?case
  proof (cases "i < nSize")
    case True
    define blk where "blk = min (nSize - i) (1 + 4999999)"
    have blk: "blk \<le> nSize - i" "i + blk \<le> nSize" using True by (auto simp: blk_def)
    have IH: "read_blocks (i + blk) nSize (v @ b) r
        = rbind (read_bytes (nSize - (i + blk))) (\<lambda>b'. rreturn ((v @ b) @ b')) r" for b r
      using "1.IH" [OF True blk_def] blk(2) .
    have step: "read_blocks i nSize v s
        = rbind (read_bytes blk) (\<lambda>b. read_blocks (i + blk) nSize (v @ b)) s"
      using True by (simp add: read_blocks.simps [of i] Let_def blk_def)
    show ?thesis
    proof (cases "nSize - i \<le> length s")
      case True
      then have "take blk s @ take (nSize - (i + blk)) (drop blk s) = take (nSize - i) s"
        using blk by (metis diff_diff_left le_add_diff_inverse take_add)
      then show ?thesis
        unfolding step using True blk
        by (simp add: rbind_def read_bytes_def IH diff_le_mono)
    next
      case False
      then have "\<not> blk \<le> length s \<or> \<not> nSize - (i + blk) \<le> length s - blk"
        using blk by linarith
      with False show ?thesis
        unfolding step using blk by (auto simp: rbind_def read_bytes_def IH)
    qed
  next
    case False
    then show ?thesis using "1.prems" by (simp add: read_blocks.simps rbind_def read_bytes_def)
  qed
qed

lemma blob_roundtrip:
  "length v \<le> 33554432 \<Longrightarrow> unser_blob (ser_blob v @ r) = Inr (v, r)"
  by (simp add: unser_blob_def ser_blob_def read_count read_blocks_eq) (simp add: rbind_def)

lemma count_zero: "n \<le> 33554432 \<Longrightarrow> (of_nat n :: u64) = 0 \<longleftrightarrow> n = 0"
  by (simp add: word_unat_eq_iff)

lemma string_roundtrip:
  assumes "length v \<le> 33554432"
  shows "unser_string (ser_string v @ r) = Inr (v, r)"
  using assms by (simp add: unser_string_def ser_string_def read_count count_zero)

lemma limited_string_roundtrip:
  assumes "length v \<le> 33554432" "length v \<le> unat Limit"
  shows "unser_limited_string Limit (ser_string v @ r) = Inr (v, r)"
proof -
  have "\<not> Limit < of_nat (length v)"
    using assms by (simp add: word_less_nat_alt)
  then show ?thesis
    using assms(1) by (simp add: unser_limited_string_def ser_string_def read_count count_zero)
qed

interpretation blob: sized_codec ser_blob unser_blob "\<lambda>v. length v \<le> 33554432"
    "\<lambda>v. GetSizeOfCompactSize (of_nat (length v)) + length v"
  by unfold_locales (simp_all add: blob_roundtrip, simp add: ser_blob_def)

interpretation string: sized_codec ser_string unser_string "\<lambda>v. length v \<le> 33554432"
    "\<lambda>v. GetSizeOfCompactSize (of_nat (length v)) + length v"
  by unfold_locales (simp_all add: string_roundtrip, simp add: ser_string_def)

interpretation subver: codec ser_string "unser_limited_string 256" "\<lambda>v. length v \<le> 256"
  by unfold_locales (simp add: limited_string_roundtrip)

text \<open>Vectors of any element type with a codec.\<close>

locale vec_codec = elem: sized_codec ser unser ok size_of
  for ser :: "'a \<Rightarrow> bytes" and unser :: "'a reader" and ok :: "'a \<Rightarrow> bool"
    and size_of :: "'a \<Rightarrow> nat" +
  fixes chunk :: nat

sublocale vec_codec \<subseteq> vec: sized_codec "ser_vec ser" "unser_vec chunk unser"
    "\<lambda>v. (\<forall>x \<in> set v. ok x) \<and> length v \<le> 33554432"
    "\<lambda>v. GetSizeOfCompactSize (of_nat (length v)) + sum_list (map size_of v)"
proof unfold_locales
  fix v r
  assume v: "(\<forall>x \<in> set v. ok x) \<and> length v \<le> 33554432"
  have "read_mids unser chunk 0 (length v) [] (concat (map ser v) @ r)
      = read_elems unser (length v) [] (concat (map ser v) @ r)"
    using elem.read_mids_eq [of "[]" 0 "length v"] by simp
  then show "unser_vec chunk unser (ser_vec ser v @ r) = Inr (v, r)"
    using v by (simp add: unser_vec_def ser_vec_def read_count elem.elems_roundtrip)
  show "length (ser_vec ser v) = GetSizeOfCompactSize (of_nat (length v)) + sum_list (map size_of v)"
    using v elem.size_concat [of v] by (simp add: ser_vec_def)
qed

locale pair_codec = fst: sized_codec sa ua oka sza + snd: sized_codec sb ub okb szb
  for sa :: "'a \<Rightarrow> bytes" and ua oka sza and sb :: "'b \<Rightarrow> bytes" and ub okb szb

sublocale pair_codec \<subseteq> pair: sized_codec "ser_pair sa sb" "unser_pair ua ub"
    "\<lambda>p. oka (fst p) \<and> okb (snd p)" "\<lambda>p. sza (fst p) + szb (snd p)"
  by unfold_locales
    (auto simp: ser_pair_def unser_pair_def fst.read_written snd.read_written fst.size_law snd.size_law)

text \<open>Maps and sets are written in key order.\<close>

lemma map_insert_last:
  "\<forall>e \<in> set m. fst e < fst item \<Longrightarrow> map_insert m item = m @ [item]"
  by (induction m) auto

lemma set_insert_last: "\<forall>e \<in> set m. e < key \<Longrightarrow> set_insert m key = m @ [key]"
  by (induction m) auto

locale map_codec = item: sized_codec ser unser ok size_of
  for ser :: "'k :: linorder \<times> 'v \<Rightarrow> bytes" and unser ok size_of
begin

lemma read_map_append:
  "\<forall>e \<in> set xs. ok e \<Longrightarrow> sorted_wrt (<) (map fst (m @ xs)) \<Longrightarrow>
    read_map unser (length xs) m (concat (map ser xs) @ r) = Inr (m @ xs, r)"
proof (induction xs arbitrary: m)
  case (Cons x xs)
  have "map_insert m x = m @ [x]"
    using Cons.prems(2) by (intro map_insert_last) (auto simp: sorted_wrt_append)
  then show ?case using Cons by (simp add: item.read_written)
qed simp

end

sublocale map_codec \<subseteq> map: sized_codec "ser_map ser" "unser_map unser"
    "\<lambda>m. (\<forall>e \<in> set m. ok e) \<and> sorted_wrt (<) (map fst m) \<and> length m \<le> 33554432"
    "\<lambda>m. GetSizeOfCompactSize (of_nat (length m)) + sum_list (map size_of m)"
  by unfold_locales
    (auto simp: unser_map_def ser_map_def read_count read_map_append item.size_concat)

locale set_codec = key: sized_codec ser unser ok size_of
  for ser :: "'k :: linorder \<Rightarrow> bytes" and unser ok size_of
begin

lemma read_set_append:
  "\<forall>e \<in> set xs. ok e \<Longrightarrow> sorted_wrt (<) (m @ xs) \<Longrightarrow>
    read_set unser (length xs) m (concat (map ser xs) @ r) = Inr (m @ xs, r)"
proof (induction xs arbitrary: m)
  case (Cons x xs)
  have "set_insert m x = m @ [x]"
    using Cons.prems(2) by (intro set_insert_last) (auto simp: sorted_wrt_append)
  then show ?case using Cons by (simp add: key.read_written)
qed simp

end

sublocale set_codec \<subseteq> set: sized_codec "ser_vec ser" "unser_set unser"
    "\<lambda>m. (\<forall>e \<in> set m. ok e) \<and> sorted_wrt (<) m \<and> length m \<le> 33554432"
    "\<lambda>m. GetSizeOfCompactSize (of_nat (length m)) + sum_list (map size_of m)"
  by unfold_locales
    (auto simp: unser_set_def ser_vec_def read_count read_set_append key.size_concat)

interpretation hashes: vec_codec ser_uint "unser_uint 8" "\<lambda>a. length a = 8" "\<lambda>_. 32" 156249
  by unfold_locales

interpretation blobs: vec_codec ser_blob unser_blob "\<lambda>v. length v \<le> 33554432"
    "\<lambda>v. GetSizeOfCompactSize (of_nat (length v)) + length v" 208332
  by unfold_locales

interpretation u32_u64: pair_codec ser_u32 unser_u32 "\<lambda>_. True" "\<lambda>_. 4"
    ser_u64 unser_u64 "\<lambda>_. True" "\<lambda>_. 8"
  by unfold_locales

interpretation u32_u64_map: map_codec "ser_pair ser_u32 ser_u64" "unser_pair unser_u32 unser_u64"
    "\<lambda>_. True \<and> True" "\<lambda>_. 4 + 8"
  by unfold_locales (simp_all add: u32_u64.pair.roundtrip u32_u64.pair.size_law)

interpretation u32_set: set_codec ser_u32 unser_u32 "\<lambda>_. True" "\<lambda>_. 4"
  by unfold_locales

section \<open>Byte-order accessors\<close>

lemma WriteLE_ser: "WriteLE32 x = ser_u32 x" "WriteLE64 y = ser_u64 y"
proof -
  show "WriteLE32 x = ser_u32 x"
    by (simp add: WriteLE32_def ser_u32_def le_bytes_4 word_unat_eq_iff u32_fields(3))
  have 8: "8 = Suc (Suc (Suc (Suc 4)))" by simp
  have "le_bytes 8 n = [of_nat (n mod 256), of_nat (n div 256 mod 256),
      of_nat (n div 65536 mod 256), of_nat (n div 16777216 mod 256)] @ le_bytes 4 (n div 4294967296)" for n
    unfolding 8 le_bytes.simps by (simp add: le_bytes_4 div_mult2_eq [symmetric])
  then show "WriteLE64 y = ser_u64 y"
    by (simp add: WriteLE64_def ser_u64_def le_bytes_4 word_unat_eq_iff unat_drop_bit_u64 div_mult2_eq [symmetric])
qed

lemma Write_BE_rev: "WriteBE32 x = rev (WriteLE32 x)" "WriteBE64 y = rev (WriteLE64 y)"
  by (simp_all add: WriteBE32_def WriteLE32_def WriteBE64_def WriteLE64_def)

lemma Read_BE_rev:
  "length p = 4 \<Longrightarrow> ReadBE32 p = ReadLE32 (rev p)" "length q = 8 \<Longrightarrow> ReadBE64 q = ReadLE64 (rev q)"
  by (simp_all add: ReadBE32_def ReadLE32_def ReadBE64_def ReadLE64_def rev_nth)

lemma le_val_LE32: "length p = 4 \<Longrightarrow> WriteLE32 (of_nat (le_val p)) = p"
proof -
  assume p: "length p = 4"
  then have "le_val p < 4294967296" using le_val_bound [of p] by simp
  then have "WriteLE32 (of_nat (le_val p)) = le_bytes 4 (le_val p)"
    by (simp add: WriteLE_ser ser_u32_def)
  then show ?thesis using le_bytes_le_val [of p] p by simp
qed

lemma le_val_LE64: "length p = 8 \<Longrightarrow> WriteLE64 (of_nat (le_val p)) = p"
proof -
  assume p: "length p = 8"
  then have "le_val p < 18446744073709551616" using le_val_bound [of p] by simp
  then have "WriteLE64 (of_nat (le_val p)) = le_bytes 8 (le_val p)"
    by (simp add: WriteLE_ser ser_u64_def)
  then show ?thesis using le_bytes_le_val [of p] p by simp
qed

lemma Read_Write_LE32: "ReadLE32 (WriteLE32 x) = x"
proof (rule bit_word_eqI)
  fix k assume k: "k < LENGTH(32)"
  consider "k < 8" | "8 \<le> k" "k < 16" | "16 \<le> k" "k < 24" | "24 \<le> k" by linarith
  then show "bit (ReadLE32 (WriteLE32 x)) k \<longleftrightarrow> bit x k"
    using k by cases
      (auto simp: ReadLE32_def WriteLE32_def bit_or_iff bit_push_bit_iff bit_unsigned_iff bit_drop_bit_eq)
qed

lemma bit_byte_at:
  "bit (push_bit a (ucast (ucast (drop_bit a x) :: u8)) :: u64) k
    \<longleftrightarrow> a \<le> k \<and> k < a + 8 \<and> k < 64 \<and> bit x k" for x :: u64
  by (cases "a \<le> k") (auto simp: bit_push_bit_iff bit_unsigned_iff bit_drop_bit_eq)

lemma Read_Write_LE64: "ReadLE64 (WriteLE64 x) = x"
proof (rule bit_word_eqI)
  fix k assume k: "k < LENGTH(64)"
  have 0: "bit (ucast (ucast x :: u8) :: u64) k \<longleftrightarrow> k < 8 \<and> bit x k"
    using bit_byte_at [of 0 x k] k by simp
  have "bit (ReadLE64 (WriteLE64 x)) k \<longleftrightarrow> bit x k \<and>
      (56 \<le> k \<and> k < 56 + 8 \<or> 48 \<le> k \<and> k < 48 + 8 \<or> 40 \<le> k \<and> k < 40 + 8 \<or> 32 \<le> k \<and> k < 32 + 8
      \<or> 24 \<le> k \<and> k < 24 + 8 \<or> 16 \<le> k \<and> k < 16 + 8 \<or> 8 \<le> k \<and> k < 8 + 8 \<or> k < 8)"
    using k by (simp add: ReadLE64_def WriteLE64_def bit_or_iff bit_byte_at 0) blast
  also have "\<dots> \<longleftrightarrow> bit x k" using k by auto
  finally show "bit (ReadLE64 (WriteLE64 x)) k \<longleftrightarrow> bit x k" .
qed

lemma Read_Write_BE: "ReadBE32 (WriteBE32 x) = x" "ReadBE64 (WriteBE64 y) = y"
  using Read_Write_LE32 [of x] Read_Write_LE64 [of y]
  by (simp_all add: Read_BE_rev Write_BE_rev WriteLE32_def WriteLE64_def)

section \<open>The in-memory stream\<close>

record CDataStream =
  ds_vch :: bytes
  ds_pos :: nat

definition ds_init :: "bytes \<Rightarrow> CDataStream" where
  "ds_init v = \<lparr> ds_vch = v, ds_pos = 0 \<rparr>"

definition ds_str :: "CDataStream \<Rightarrow> bytes" where
  "ds_str d = drop (ds_pos d) (ds_vch d)"

definition ds_size :: "CDataStream \<Rightarrow> nat" where
  "ds_size d = length (ds_vch d) - ds_pos d"

definition ds_empty :: "CDataStream \<Rightarrow> bool" where
  "ds_empty d \<longleftrightarrow> length (ds_vch d) = ds_pos d"

definition ds_clear :: "CDataStream \<Rightarrow> CDataStream" where
  "ds_clear d = d\<lparr> ds_vch := [], ds_pos := 0 \<rparr>"

text \<open>\<open>nReadPosNext\<close> is an \<open>unsigned int\<close>, so the sum with a \<open>size_t\<close> is cut to 32 bits.\<close>

definition ds_read :: "nat \<Rightarrow> CDataStream \<Rightarrow> ser_error + (bytes \<times> CDataStream)" where
  "ds_read nSize d =
     (let nReadPosNext = (ds_pos d + nSize) mod 2 ^ 32;
          out = take nSize (drop (ds_pos d) (ds_vch d))
      in if nReadPosNext \<ge> length (ds_vch d) then
           if nReadPosNext > length (ds_vch d) then Inl End_of_data
           else Inr (out, d\<lparr> ds_vch := [], ds_pos := 0 \<rparr>)
         else Inr (out, d\<lparr> ds_pos := nReadPosNext \<rparr>))"

definition ds_ignore :: "nat \<Rightarrow> CDataStream \<Rightarrow> ser_error + CDataStream" where
  "ds_ignore nSize d =
     (let nReadPosNext = (ds_pos d + nSize) mod 2 ^ 32
      in if nReadPosNext \<ge> length (ds_vch d) then
           if nReadPosNext > length (ds_vch d) then Inl End_of_data
           else Inr (d\<lparr> ds_vch := [], ds_pos := 0 \<rparr>)
         else Inr (d\<lparr> ds_pos := nReadPosNext \<rparr>))"

definition ds_write :: "bytes \<Rightarrow> CDataStream \<Rightarrow> CDataStream" where
  "ds_write b d = d\<lparr> ds_vch := ds_vch d @ b \<rparr>"

definition ds_append :: "CDataStream \<Rightarrow> CDataStream \<Rightarrow> CDataStream" where
  "ds_append d b = d\<lparr> ds_vch := ds_vch d @ ds_str b \<rparr>"

definition ds_compact :: "CDataStream \<Rightarrow> CDataStream" where
  "ds_compact d = d\<lparr> ds_vch := drop (ds_pos d) (ds_vch d), ds_pos := 0 \<rparr>"

definition ds_rewind :: "nat \<Rightarrow> CDataStream \<Rightarrow> bool \<times> CDataStream" where
  "ds_rewind n d = (if n > ds_pos d then (False, d) else (True, d\<lparr> ds_pos := ds_pos d - n \<rparr>))"

definition ds_get_and_clear :: "bytes \<Rightarrow> CDataStream \<Rightarrow> bytes \<times> CDataStream" where
  "ds_get_and_clear data d = (data @ ds_str d, ds_clear d)"

text \<open>The position stays inside the buffer, and a 32-bit position is enough for it.\<close>

definition ds_inv :: "CDataStream \<Rightarrow> bool" where
  "ds_inv d \<longleftrightarrow> ds_pos d \<le> length (ds_vch d) \<and> length (ds_vch d) < 2 ^ 32"

lemma ds_inv_ops [invar_intros]:
  "length v < 2 ^ 32 \<Longrightarrow> ds_inv (ds_init v)"
  "ds_inv d \<Longrightarrow> ds_inv (ds_clear d)"
  "ds_inv d \<Longrightarrow> length (ds_vch d) + length b < 2 ^ 32 \<Longrightarrow> ds_inv (ds_write b d)"
  "ds_inv d \<Longrightarrow> ds_inv (ds_compact d)"
  "ds_inv d \<Longrightarrow> ds_inv (snd (ds_rewind n d))"
  by (auto simp: ds_inv_def ds_init_def ds_clear_def ds_write_def ds_compact_def ds_rewind_def)

lemma ds_str_ops [codec_simps]:
  "ds_str (ds_init v) = v" "ds_str (ds_clear d) = []" "ds_str (ds_compact d) = ds_str d"
  "ds_inv d \<Longrightarrow> ds_str (ds_write b d) = ds_str d @ b"
  "ds_inv d \<Longrightarrow> ds_str (ds_append d e) = ds_str d @ ds_str e"
  by (simp_all add: ds_str_def ds_init_def ds_clear_def ds_compact_def ds_write_def ds_append_def
      ds_inv_def)

section \<open>Properties of the encoding\<close>

text \<open>C23: \<open>ReadCompactSize\<close> accepts exactly the canonical encodings of sizes up to \<open>MAX_SIZE\<close>:
  it returns a value and a rest precisely when the stream is what \<open>WriteCompactSize\<close> writes for
  that value followed by that rest.\<close>

theorem ReadCompactSize_canonical:
  "ReadCompactSize s = Inr (n, r) \<longleftrightarrow> n \<le> MAX_SIZE \<and> s = WriteCompactSize n @ r"
  using CompactSize_roundtrip CompactSize_canonical by blast

text \<open>\<open>ReadVarInt\<close> returns every 64-bit value that \<open>WriteVarInt\<close> wrote and leaves the rest;
  the encoding has the length \<open>GetSizeOfVarInt\<close> reports, and it fits the 10-byte buffer \<open>tmp\<close>.\<close>

theorem VarInt_reads_back:
  fixes n :: u64
  shows "ReadVarInt (WriteVarInt n @ r) = Inr (n, r)
    \<and> length (WriteVarInt n) = GetSizeOfVarInt n
    \<and> length (WriteVarInt n) \<le> (8 * 8 + 6) div 7"
proof -
  have "unat n < 2 ^ (7 * 10)" using unat_u64_less [of n] by (simp del: unat_u64_less)
  then have "GetSizeOfVarInt n \<le> 10" by (rule varint_tmp_fits) simp
  then show ?thesis using varint64.roundtrip [of n r] varint64.size_law [of n] by simp
qed

text \<open>Vectors read back: a vector of byte vectors (read in steps of resized blocks, each element
  in blocks of at most 5000000 bytes) and a vector of \<open>uint256\<close> come back unchanged with the rest of
  the stream untouched, and their encoded length is \<open>GetSerializeSize\<close>.\<close>

lemma vectors_read_back:
  assumes "\<forall>b \<in> set bs. length b \<le> 33554432" "length bs \<le> 33554432"
    and "\<forall>h \<in> set hs. length h = 8" "length hs \<le> 33554432"
  shows "unser_vec 208332 unser_blob (ser_vec ser_blob bs @ r) = Inr (bs, r)
    \<and> unser_vec 156249 (unser_uint 8) (ser_vec ser_uint hs @ r) = Inr (hs, r)
    \<and> length (ser_vec ser_uint hs) = GetSizeOfCompactSize (of_nat (length hs)) + 32 * length hs"
  using assms blobs.vec.roundtrip [of bs r] hashes.vec.roundtrip [of hs r]
    hashes.vec.size_law [of hs] by (simp_all add: sum_list_triv)

lemma vectors_read_back_witness:
  "unser_vec 208332 unser_blob (ser_vec ser_blob [[1, 2], [], [3]] @ [9]) = Inr ([[1, 2], [], [3]], [9])"
  using vectors_read_back [of "[[1, 2], [], [3]]" "[]" "[9]"] by simp



end
