(* ===== verification/Script.thy ===== *)
theory Script
  imports Serialization
begin

unbundle bit_operations_syntax

text \<open>
  Scripts: \<open>src/script/script.h\<close> and \<open>src/script/script.cpp\<close>.  A script is its
  byte string; an iterator \<open>pc\<close> into it is the suffix of bytes not yet read.  The theory has the
  opcode table, \<open>CScriptNum\<close> with its minimal-encoding rule, the push encoding of
  \<open>operator<<\<close>, the instruction decoder \<open>GetOp2\<close> and the loops over it
  (\<open>FindAndDelete\<close>, \<open>Find\<close>, signature-operation counting, push-only and template tests).
  The lemmas show that the decoder always advances, that it reads back what the push encoding
  writes, and what each test accepts.
\<close>

section \<open>Opcodes\<close>

definition OP_0 :: u8 where [simp]: "OP_0 = 0x00"
definition OP_FALSE :: u8 where [simp]: "OP_FALSE = OP_0"
definition OP_PUSHDATA1 :: u8 where [simp]: "OP_PUSHDATA1 = 0x4c"
definition OP_PUSHDATA2 :: u8 where [simp]: "OP_PUSHDATA2 = 0x4d"
definition OP_PUSHDATA4 :: u8 where [simp]: "OP_PUSHDATA4 = 0x4e"
definition OP_1NEGATE :: u8 where [simp]: "OP_1NEGATE = 0x4f"
definition OP_RESERVED :: u8 where [simp]: "OP_RESERVED = 0x50"
definition OP_1 :: u8 where [simp]: "OP_1 = 0x51"
definition OP_TRUE :: u8 where [simp]: "OP_TRUE = OP_1"
definition OP_2 :: u8 where [simp]: "OP_2 = 0x52"
definition OP_3 :: u8 where [simp]: "OP_3 = 0x53"
definition OP_4 :: u8 where [simp]: "OP_4 = 0x54"
definition OP_5 :: u8 where [simp]: "OP_5 = 0x55"
definition OP_6 :: u8 where [simp]: "OP_6 = 0x56"
definition OP_7 :: u8 where [simp]: "OP_7 = 0x57"
definition OP_8 :: u8 where [simp]: "OP_8 = 0x58"
definition OP_9 :: u8 where [simp]: "OP_9 = 0x59"
definition OP_10 :: u8 where [simp]: "OP_10 = 0x5a"
definition OP_11 :: u8 where [simp]: "OP_11 = 0x5b"
definition OP_12 :: u8 where [simp]: "OP_12 = 0x5c"
definition OP_13 :: u8 where [simp]: "OP_13 = 0x5d"
definition OP_14 :: u8 where [simp]: "OP_14 = 0x5e"
definition OP_15 :: u8 where [simp]: "OP_15 = 0x5f"
definition OP_16 :: u8 where [simp]: "OP_16 = 0x60"
definition OP_NOP :: u8 where [simp]: "OP_NOP = 0x61"
definition OP_VER :: u8 where [simp]: "OP_VER = 0x62"
definition OP_IF :: u8 where [simp]: "OP_IF = 0x63"
definition OP_NOTIF :: u8 where [simp]: "OP_NOTIF = 0x64"
definition OP_VERIF :: u8 where [simp]: "OP_VERIF = 0x65"
definition OP_VERNOTIF :: u8 where [simp]: "OP_VERNOTIF = 0x66"
definition OP_ELSE :: u8 where [simp]: "OP_ELSE = 0x67"
definition OP_ENDIF :: u8 where [simp]: "OP_ENDIF = 0x68"
definition OP_VERIFY :: u8 where [simp]: "OP_VERIFY = 0x69"
definition OP_RETURN :: u8 where [simp]: "OP_RETURN = 0x6a"
definition OP_TOALTSTACK :: u8 where [simp]: "OP_TOALTSTACK = 0x6b"
definition OP_FROMALTSTACK :: u8 where [simp]: "OP_FROMALTSTACK = 0x6c"
definition OP_2DROP :: u8 where [simp]: "OP_2DROP = 0x6d"
definition OP_2DUP :: u8 where [simp]: "OP_2DUP = 0x6e"
definition OP_3DUP :: u8 where [simp]: "OP_3DUP = 0x6f"
definition OP_2OVER :: u8 where [simp]: "OP_2OVER = 0x70"
definition OP_2ROT :: u8 where [simp]: "OP_2ROT = 0x71"
definition OP_2SWAP :: u8 where [simp]: "OP_2SWAP = 0x72"
definition OP_IFDUP :: u8 where [simp]: "OP_IFDUP = 0x73"
definition OP_DEPTH :: u8 where [simp]: "OP_DEPTH = 0x74"
definition OP_DROP :: u8 where [simp]: "OP_DROP = 0x75"
definition OP_DUP :: u8 where [simp]: "OP_DUP = 0x76"
definition OP_NIP :: u8 where [simp]: "OP_NIP = 0x77"
definition OP_OVER :: u8 where [simp]: "OP_OVER = 0x78"
definition OP_PICK :: u8 where [simp]: "OP_PICK = 0x79"
definition OP_ROLL :: u8 where [simp]: "OP_ROLL = 0x7a"
definition OP_ROT :: u8 where [simp]: "OP_ROT = 0x7b"
definition OP_SWAP :: u8 where [simp]: "OP_SWAP = 0x7c"
definition OP_TUCK :: u8 where [simp]: "OP_TUCK = 0x7d"
definition OP_CAT :: u8 where [simp]: "OP_CAT = 0x7e"
definition OP_SUBSTR :: u8 where [simp]: "OP_SUBSTR = 0x7f"
definition OP_LEFT :: u8 where [simp]: "OP_LEFT = 0x80"
definition OP_RIGHT :: u8 where [simp]: "OP_RIGHT = 0x81"
definition OP_SIZE :: u8 where [simp]: "OP_SIZE = 0x82"
definition OP_INVERT :: u8 where [simp]: "OP_INVERT = 0x83"
definition OP_AND :: u8 where [simp]: "OP_AND = 0x84"
definition OP_OR :: u8 where [simp]: "OP_OR = 0x85"
definition OP_XOR :: u8 where [simp]: "OP_XOR = 0x86"
definition OP_EQUAL :: u8 where [simp]: "OP_EQUAL = 0x87"
definition OP_EQUALVERIFY :: u8 where [simp]: "OP_EQUALVERIFY = 0x88"
definition OP_RESERVED1 :: u8 where [simp]: "OP_RESERVED1 = 0x89"
definition OP_RESERVED2 :: u8 where [simp]: "OP_RESERVED2 = 0x8a"
definition OP_1ADD :: u8 where [simp]: "OP_1ADD = 0x8b"
definition OP_1SUB :: u8 where [simp]: "OP_1SUB = 0x8c"
definition OP_2MUL :: u8 where [simp]: "OP_2MUL = 0x8d"
definition OP_2DIV :: u8 where [simp]: "OP_2DIV = 0x8e"
definition OP_NEGATE :: u8 where [simp]: "OP_NEGATE = 0x8f"
definition OP_ABS :: u8 where [simp]: "OP_ABS = 0x90"
definition OP_NOT :: u8 where [simp]: "OP_NOT = 0x91"
definition OP_0NOTEQUAL :: u8 where [simp]: "OP_0NOTEQUAL = 0x92"
definition OP_ADD :: u8 where [simp]: "OP_ADD = 0x93"
definition OP_SUB :: u8 where [simp]: "OP_SUB = 0x94"
definition OP_MUL :: u8 where [simp]: "OP_MUL = 0x95"
definition OP_DIV :: u8 where [simp]: "OP_DIV = 0x96"
definition OP_MOD :: u8 where [simp]: "OP_MOD = 0x97"
definition OP_LSHIFT :: u8 where [simp]: "OP_LSHIFT = 0x98"
definition OP_RSHIFT :: u8 where [simp]: "OP_RSHIFT = 0x99"
definition OP_BOOLAND :: u8 where [simp]: "OP_BOOLAND = 0x9a"
definition OP_BOOLOR :: u8 where [simp]: "OP_BOOLOR = 0x9b"
definition OP_NUMEQUAL :: u8 where [simp]: "OP_NUMEQUAL = 0x9c"
definition OP_NUMEQUALVERIFY :: u8 where [simp]: "OP_NUMEQUALVERIFY = 0x9d"
definition OP_NUMNOTEQUAL :: u8 where [simp]: "OP_NUMNOTEQUAL = 0x9e"
definition OP_LESSTHAN :: u8 where [simp]: "OP_LESSTHAN = 0x9f"
definition OP_GREATERTHAN :: u8 where [simp]: "OP_GREATERTHAN = 0xa0"
definition OP_LESSTHANOREQUAL :: u8 where [simp]: "OP_LESSTHANOREQUAL = 0xa1"
definition OP_GREATERTHANOREQUAL :: u8 where [simp]: "OP_GREATERTHANOREQUAL = 0xa2"
definition OP_MIN :: u8 where [simp]: "OP_MIN = 0xa3"
definition OP_MAX :: u8 where [simp]: "OP_MAX = 0xa4"
definition OP_WITHIN :: u8 where [simp]: "OP_WITHIN = 0xa5"
definition OP_RIPEMD160 :: u8 where [simp]: "OP_RIPEMD160 = 0xa6"
definition OP_SHA1 :: u8 where [simp]: "OP_SHA1 = 0xa7"
definition OP_SHA256 :: u8 where [simp]: "OP_SHA256 = 0xa8"
definition OP_HASH160 :: u8 where [simp]: "OP_HASH160 = 0xa9"
definition OP_HASH256 :: u8 where [simp]: "OP_HASH256 = 0xaa"
definition OP_CODESEPARATOR :: u8 where [simp]: "OP_CODESEPARATOR = 0xab"
definition OP_CHECKSIG :: u8 where [simp]: "OP_CHECKSIG = 0xac"
definition OP_CHECKSIGVERIFY :: u8 where [simp]: "OP_CHECKSIGVERIFY = 0xad"
definition OP_CHECKMULTISIG :: u8 where [simp]: "OP_CHECKMULTISIG = 0xae"
definition OP_CHECKMULTISIGVERIFY :: u8 where [simp]: "OP_CHECKMULTISIGVERIFY = 0xaf"
definition OP_NOP1 :: u8 where [simp]: "OP_NOP1 = 0xb0"
definition OP_NOP2 :: u8 where [simp]: "OP_NOP2 = 0xb1"
definition OP_CHECKLOCKTIMEVERIFY :: u8 where [simp]: "OP_CHECKLOCKTIMEVERIFY = OP_NOP2"
definition OP_NOP3 :: u8 where [simp]: "OP_NOP3 = 0xb2"
definition OP_NOP4 :: u8 where [simp]: "OP_NOP4 = 0xb3"
definition OP_NOP5 :: u8 where [simp]: "OP_NOP5 = 0xb4"
definition OP_NOP6 :: u8 where [simp]: "OP_NOP6 = 0xb5"
definition OP_NOP7 :: u8 where [simp]: "OP_NOP7 = 0xb6"
definition OP_NOP8 :: u8 where [simp]: "OP_NOP8 = 0xb7"
definition OP_NOP9 :: u8 where [simp]: "OP_NOP9 = 0xb8"
definition OP_NOP10 :: u8 where [simp]: "OP_NOP10 = 0xb9"
definition OP_ZEROCOINMINT :: u8 where [simp]: "OP_ZEROCOINMINT = 0xc1"
definition OP_ZEROCOINSPEND :: u8 where [simp]: "OP_ZEROCOINSPEND = 0xc2"
definition OP_ZEROCOINPUBLICSPEND :: u8 where [simp]: "OP_ZEROCOINPUBLICSPEND = 0xc3"
definition OP_SMALLINTEGER :: u8 where [simp]: "OP_SMALLINTEGER = 0xfa"
definition OP_PUBKEYS :: u8 where [simp]: "OP_PUBKEYS = 0xfb"
definition OP_PUBKEYHASH :: u8 where [simp]: "OP_PUBKEYHASH = 0xfd"
definition OP_PUBKEY :: u8 where [simp]: "OP_PUBKEY = 0xfe"
definition OP_INVALIDOPCODE :: u8 where [simp]: "OP_INVALIDOPCODE = 0xff"

definition MAX_SCRIPT_ELEMENT_SIZE :: nat where [simp]: "MAX_SCRIPT_ELEMENT_SIZE = 520"
definition LOCKTIME_THRESHOLD :: nat where [simp]: "LOCKTIME_THRESHOLD = 500000000"

definition GetOpName :: "u8 \<Rightarrow> string" where
  "GetOpName opcode =
     (if opcode = OP_0 then ''0'' else
     (if opcode = OP_PUSHDATA1 then ''OP_PUSHDATA1'' else
     (if opcode = OP_PUSHDATA2 then ''OP_PUSHDATA2'' else
     (if opcode = OP_PUSHDATA4 then ''OP_PUSHDATA4'' else
     (if opcode = OP_1NEGATE then ''-1'' else
     (if opcode = OP_RESERVED then ''OP_RESERVED'' else
     (if opcode = OP_1 then ''1'' else
     (if opcode = OP_2 then ''2'' else
     (if opcode = OP_3 then ''3'' else
     (if opcode = OP_4 then ''4'' else
     (if opcode = OP_5 then ''5'' else
     (if opcode = OP_6 then ''6'' else
     (if opcode = OP_7 then ''7'' else
     (if opcode = OP_8 then ''8'' else
     (if opcode = OP_9 then ''9'' else
     (if opcode = OP_10 then ''10'' else
     (if opcode = OP_11 then ''11'' else
     (if opcode = OP_12 then ''12'' else
     (if opcode = OP_13 then ''13'' else
     (if opcode = OP_14 then ''14'' else
     (if opcode = OP_15 then ''15'' else
     (if opcode = OP_16 then ''16'' else
     (if opcode = OP_NOP then ''OP_NOP'' else
     (if opcode = OP_VER then ''OP_VER'' else
     (if opcode = OP_IF then ''OP_IF'' else
     (if opcode = OP_NOTIF then ''OP_NOTIF'' else
     (if opcode = OP_VERIF then ''OP_VERIF'' else
     (if opcode = OP_VERNOTIF then ''OP_VERNOTIF'' else
     (if opcode = OP_ELSE then ''OP_ELSE'' else
     (if opcode = OP_ENDIF then ''OP_ENDIF'' else
     (if opcode = OP_VERIFY then ''OP_VERIFY'' else
     (if opcode = OP_RETURN then ''OP_RETURN'' else
     (if opcode = OP_TOALTSTACK then ''OP_TOALTSTACK'' else
     (if opcode = OP_FROMALTSTACK then ''OP_FROMALTSTACK'' else
     (if opcode = OP_2DROP then ''OP_2DROP'' else
     (if opcode = OP_2DUP then ''OP_2DUP'' else
     (if opcode = OP_3DUP then ''OP_3DUP'' else
     (if opcode = OP_2OVER then ''OP_2OVER'' else
     (if opcode = OP_2ROT then ''OP_2ROT'' else
     (if opcode = OP_2SWAP then ''OP_2SWAP'' else
     (if opcode = OP_IFDUP then ''OP_IFDUP'' else
     (if opcode = OP_DEPTH then ''OP_DEPTH'' else
     (if opcode = OP_DROP then ''OP_DROP'' else
     (if opcode = OP_DUP then ''OP_DUP'' else
     (if opcode = OP_NIP then ''OP_NIP'' else
     (if opcode = OP_OVER then ''OP_OVER'' else
     (if opcode = OP_PICK then ''OP_PICK'' else
     (if opcode = OP_ROLL then ''OP_ROLL'' else
     (if opcode = OP_ROT then ''OP_ROT'' else
     (if opcode = OP_SWAP then ''OP_SWAP'' else
     (if opcode = OP_TUCK then ''OP_TUCK'' else
     (if opcode = OP_CAT then ''OP_CAT'' else
     (if opcode = OP_SUBSTR then ''OP_SUBSTR'' else
     (if opcode = OP_LEFT then ''OP_LEFT'' else
     (if opcode = OP_RIGHT then ''OP_RIGHT'' else
     (if opcode = OP_SIZE then ''OP_SIZE'' else
     (if opcode = OP_INVERT then ''OP_INVERT'' else
     (if opcode = OP_AND then ''OP_AND'' else
     (if opcode = OP_OR then ''OP_OR'' else
     (if opcode = OP_XOR then ''OP_XOR'' else
     (if opcode = OP_EQUAL then ''OP_EQUAL'' else
     (if opcode = OP_EQUALVERIFY then ''OP_EQUALVERIFY'' else
     (if opcode = OP_RESERVED1 then ''OP_RESERVED1'' else
     (if opcode = OP_RESERVED2 then ''OP_RESERVED2'' else
     (if opcode = OP_1ADD then ''OP_1ADD'' else
     (if opcode = OP_1SUB then ''OP_1SUB'' else
     (if opcode = OP_2MUL then ''OP_2MUL'' else
     (if opcode = OP_2DIV then ''OP_2DIV'' else
     (if opcode = OP_NEGATE then ''OP_NEGATE'' else
     (if opcode = OP_ABS then ''OP_ABS'' else
     (if opcode = OP_NOT then ''OP_NOT'' else
     (if opcode = OP_0NOTEQUAL then ''OP_0NOTEQUAL'' else
     (if opcode = OP_ADD then ''OP_ADD'' else
     (if opcode = OP_SUB then ''OP_SUB'' else
     (if opcode = OP_MUL then ''OP_MUL'' else
     (if opcode = OP_DIV then ''OP_DIV'' else
     (if opcode = OP_MOD then ''OP_MOD'' else
     (if opcode = OP_LSHIFT then ''OP_LSHIFT'' else
     (if opcode = OP_RSHIFT then ''OP_RSHIFT'' else
     (if opcode = OP_BOOLAND then ''OP_BOOLAND'' else
     (if opcode = OP_BOOLOR then ''OP_BOOLOR'' else
     (if opcode = OP_NUMEQUAL then ''OP_NUMEQUAL'' else
     (if opcode = OP_NUMEQUALVERIFY then ''OP_NUMEQUALVERIFY'' else
     (if opcode = OP_NUMNOTEQUAL then ''OP_NUMNOTEQUAL'' else
     (if opcode = OP_LESSTHAN then ''OP_LESSTHAN'' else
     (if opcode = OP_GREATERTHAN then ''OP_GREATERTHAN'' else
     (if opcode = OP_LESSTHANOREQUAL then ''OP_LESSTHANOREQUAL'' else
     (if opcode = OP_GREATERTHANOREQUAL then ''OP_GREATERTHANOREQUAL'' else
     (if opcode = OP_MIN then ''OP_MIN'' else
     (if opcode = OP_MAX then ''OP_MAX'' else
     (if opcode = OP_WITHIN then ''OP_WITHIN'' else
     (if opcode = OP_RIPEMD160 then ''OP_RIPEMD160'' else
     (if opcode = OP_SHA1 then ''OP_SHA1'' else
     (if opcode = OP_SHA256 then ''OP_SHA256'' else
     (if opcode = OP_HASH160 then ''OP_HASH160'' else
     (if opcode = OP_HASH256 then ''OP_HASH256'' else
     (if opcode = OP_CODESEPARATOR then ''OP_CODESEPARATOR'' else
     (if opcode = OP_CHECKSIG then ''OP_CHECKSIG'' else
     (if opcode = OP_CHECKSIGVERIFY then ''OP_CHECKSIGVERIFY'' else
     (if opcode = OP_CHECKMULTISIG then ''OP_CHECKMULTISIG'' else
     (if opcode = OP_CHECKMULTISIGVERIFY then ''OP_CHECKMULTISIGVERIFY'' else
     (if opcode = OP_NOP1 then ''OP_NOP1'' else
     (if opcode = OP_NOP2 then ''OP_NOP2'' else
     (if opcode = OP_NOP3 then ''OP_NOP3'' else
     (if opcode = OP_NOP4 then ''OP_NOP4'' else
     (if opcode = OP_NOP5 then ''OP_NOP5'' else
     (if opcode = OP_NOP6 then ''OP_NOP6'' else
     (if opcode = OP_NOP7 then ''OP_NOP7'' else
     (if opcode = OP_NOP8 then ''OP_NOP8'' else
     (if opcode = OP_NOP9 then ''OP_NOP9'' else
     (if opcode = OP_NOP10 then ''OP_NOP10'' else
     (if opcode = OP_ZEROCOINMINT then ''OP_ZEROCOINMINT'' else
     (if opcode = OP_ZEROCOINSPEND then ''OP_ZEROCOINSPEND'' else
     (if opcode = OP_ZEROCOINPUBLICSPEND then ''OP_ZEROCOINPUBLICSPEND'' else
     (if opcode = OP_INVALIDOPCODE then ''OP_INVALIDOPCODE'' else
      ''OP_UNKNOWN'')))))))))))))))))))))))))))))))))))))))))))))))))))))))))))))))))))))))))))))))))))))))))))))))))))))))))))))))))))"

section \<open>Script numbers\<close>

datatype scriptnum_error = Scriptnum_overflow | Scriptnum_nonminimal

text \<open>\<open>m_value\<close> is an \<open>int64_t\<close>; the values below stay in its range because operands have at
  most five bytes.\<close>

definition set_vch :: "bytes \<Rightarrow> int" where
  "set_vch vch =
     (if vch = [] then 0
      else let result = foldl (\<lambda>r i. r OR push_bit (8 * i) (int (unat (vch ! i)))) 0 [0..<length vch]
      in if last vch AND 0x80 \<noteq> 0
         then - (result AND NOT (push_bit (8 * (length vch - 1)) 0x80))
         else result)"

definition CScriptNum :: "bytes \<Rightarrow> bool \<Rightarrow> nat \<Rightarrow> scriptnum_error + int" where
  "CScriptNum vch fRequireMinimal nMaxNumSize =
     (if length vch > nMaxNumSize then Inl Scriptnum_overflow
      else if fRequireMinimal \<and> length vch > 0 \<and> last vch AND 0x7f = 0
              \<and> (length vch \<le> 1 \<or> vch ! (length vch - 2) AND 0x80 = 0)
           then Inl Scriptnum_nonminimal
      else Inr (set_vch vch))"

definition nDefaultMaxNumSize :: nat where [simp]: "nDefaultMaxNumSize = 4"

definition getint :: "int \<Rightarrow> int" where
  "getint v = (if v > 2147483647 then 2147483647 else if v < - 2147483648 then - 2147483648 else v)"

function abs_bytes :: "nat \<Rightarrow> bytes" where
  "abs_bytes absvalue =
     (if absvalue = 0 then [] else of_nat (take_bit 8 absvalue) # abs_bytes (drop_bit 8 absvalue))"
  by auto
termination
  by (relation "measure id") (auto simp: drop_bit_eq_div)

declare abs_bytes.simps [simp del]

definition num_serialize :: "int \<Rightarrow> bytes" where
  "num_serialize value =
     (if value = 0 then []
      else let neg = value < 0;
               result = abs_bytes (nat (if neg then - value else value))
           in if last result AND 0x80 \<noteq> 0 then result @ [if neg then 0x80 else 0]
              else if neg then butlast result @ [last result OR 0x80]
              else result)"

section \<open>Building scripts\<close>

definition push_bytes :: "bytes \<Rightarrow> bytes \<Rightarrow> bytes" where
  "push_bytes script b =
     (if length b < unat OP_PUSHDATA1 then script @ [of_nat (length b)]
      else if length b \<le> 0xff then script @ [OP_PUSHDATA1, of_nat (length b)]
      else if length b \<le> 0xffff then script @ [OP_PUSHDATA2] @ ser_u16 (of_nat (length b))
      else script @ [OP_PUSHDATA4] @ ser_u32 (of_nat (length b))) @ b"

definition push_opcode :: "bytes \<Rightarrow> u8 \<Rightarrow> bytes" where
  "push_opcode script opcode = script @ [opcode]"

definition push_int64 :: "bytes \<Rightarrow> int \<Rightarrow> bytes" where
  "push_int64 script n =
     (if n = - 1 \<or> (n \<ge> 1 \<and> n \<le> 16) then script @ [of_int (n + (0x51 - 1))]
      else if n = 0 then script @ [OP_0]
      else push_bytes script (num_serialize n))"

section \<open>Reading instructions\<close>

record getop =
  go_ok :: bool
  go_opcode :: u8
  go_data :: bytes
  go_pc :: bytes

text \<open>The size of an immediate operand and the iterator after it; \<open>None\<close> when the size itself is
  cut off.\<close>

definition push_size :: "u8 \<Rightarrow> bytes \<Rightarrow> (nat \<times> bytes) option" where
  "push_size opcode pc =
     (if opcode < OP_PUSHDATA1 then Some (unat opcode, pc)
      else if opcode = OP_PUSHDATA1 then
        if length pc < 1 then None else Some (unat (hd pc), tl pc)
      else if opcode = OP_PUSHDATA2 then
        if length pc < 2 then None else Some (le_val (take 2 pc), drop 2 pc)
      else if opcode = OP_PUSHDATA4 then
        if length pc < 4 then None else Some (le_val (take 4 pc), drop 4 pc)
      else Some (0, pc))"

definition GetOp2 :: "bytes \<Rightarrow> getop" where
  "GetOp2 pc =
     (case pc of
        [] \<Rightarrow> \<lparr> go_ok = False, go_opcode = OP_INVALIDOPCODE, go_data = [], go_pc = pc \<rparr>
      | opcode # pc1 \<Rightarrow>
          if opcode \<le> OP_PUSHDATA4 then
            (case push_size opcode pc1 of
               None \<Rightarrow> \<lparr> go_ok = False, go_opcode = OP_INVALIDOPCODE, go_data = [], go_pc = pc1 \<rparr>
             | Some (nSize, pc2) \<Rightarrow>
                 if length pc2 < nSize
                 then \<lparr> go_ok = False, go_opcode = OP_INVALIDOPCODE, go_data = [], go_pc = pc2 \<rparr>
                 else \<lparr> go_ok = True, go_opcode = opcode, go_data = take nSize pc2,
                        go_pc = drop nSize pc2 \<rparr>)
          else \<lparr> go_ok = True, go_opcode = opcode, go_data = [], go_pc = pc1 \<rparr>)"

lemma push_size_shrinks: "push_size opcode pc = Some (n, pc') \<Longrightarrow> length pc' \<le> length pc"
  by (auto simp: push_size_def split: if_splits)

lemma GetOp2_shrinks [simp]: "pc \<noteq> [] \<Longrightarrow> length (go_pc (GetOp2 pc)) < length pc"
  by (cases pc) (auto simp: GetOp2_def less_Suc_eq_le dest: push_size_shrinks split: option.split)

lemma GetOp2_ok_nonempty: "go_ok (GetOp2 pc) \<Longrightarrow> pc \<noteq> []"
  by (auto simp: GetOp2_def)

definition DecodeOP_N :: "u8 \<Rightarrow> int option" where
  "DecodeOP_N opcode =
     (if opcode = OP_0 then Some 0
      else if OP_1 \<le> opcode \<and> opcode \<le> OP_16 then Some (uint opcode - (0x51 - 1))
      else None)"

definition EncodeOP_N :: "int \<Rightarrow> u8 option" where
  "EncodeOP_N n =
     (if \<not> (n \<ge> 0 \<and> n \<le> 16) then None
      else if n = 0 then Some OP_0 else Some (of_int (0x51 + n - 1)))"

section \<open>Loops over the instructions of a script\<close>

text \<open>The inner loop of \<open>FindAndDelete\<close>: erase copies of \<open>b\<close> at the iterator.\<close>

function strip_matches :: "bytes \<Rightarrow> bytes \<Rightarrow> nat \<Rightarrow> bytes \<times> nat" where
  "strip_matches b pc nFound =
     (if b \<noteq> [] \<and> length pc \<ge> length b \<and> take (length b) pc = b
      then strip_matches b (drop (length b) pc) (nFound + 1) else (pc, nFound))"
  by auto
termination
proof (relation "measure (\<lambda>(b, pc, n). length pc)", goal_cases)
  case (2 b pc nFound)
  then have "length b > 0" "length b \<le> length pc" by auto
  then have "length pc - length b < length pc" by linarith
  then show ?case by simp
qed simp

declare strip_matches.simps [simp del]

lemma strip_matches_length: "length (fst (strip_matches b pc n)) \<le> length pc"
  by (induction b pc n rule: strip_matches.induct) (subst strip_matches.simps, auto)

lemma find_step_shrinks:
  assumes "(pc', n') = strip_matches b pc n" "go_ok (GetOp2 pc')"
  shows "length (go_pc (GetOp2 pc')) < length pc"
proof -
  have "length pc' \<le> length pc" using strip_matches_length [of b pc n] assms(1) by (metis fst_conv)
  then show ?thesis using GetOp2_shrinks [OF GetOp2_ok_nonempty [OF assms(2)]] by linarith
qed

text \<open>\<open>head\<close> is the part of the script before the iterator.\<close>

function find_delete :: "bytes \<Rightarrow> bytes \<Rightarrow> bytes \<Rightarrow> nat \<Rightarrow> bytes \<times> nat" where
  "find_delete b head pc nFound =
     (case strip_matches b pc nFound of (pc, nFound) \<Rightarrow>
        let g = GetOp2 pc in
        if go_ok g then find_delete b (head @ take (length pc - length (go_pc g)) pc) (go_pc g) nFound
        else (head @ pc, nFound))"
  by auto
termination
  by (relation "measure (\<lambda>(b, head, pc, n). length pc)") (simp_all add: find_step_shrinks)

declare find_delete.simps [simp del]

definition FindAndDelete :: "bytes \<Rightarrow> bytes \<Rightarrow> bytes \<times> nat" where
  "FindAndDelete script b = (if b = [] then (script, 0) else find_delete b [] script 0)"

function find_loop :: "u8 \<Rightarrow> bytes \<Rightarrow> nat \<Rightarrow> nat" where
  "find_loop op pc nFound =
     (if pc \<noteq> [] \<and> go_ok (GetOp2 pc)
      then find_loop op (go_pc (GetOp2 pc)) (if go_opcode (GetOp2 pc) = op then nFound + 1 else nFound)
      else nFound)"
  by auto
termination
  by (relation "measure (\<lambda>(op, pc, n). length pc)") auto

declare find_loop.simps [simp del]

definition Find :: "bytes \<Rightarrow> u8 \<Rightarrow> nat" where
  "Find script op = find_loop op script 0"

function sigops_loop :: "bool \<Rightarrow> bytes \<Rightarrow> u8 \<Rightarrow> nat \<Rightarrow> nat" where
  "sigops_loop fAccurate pc lastOpcode n =
     (if pc \<noteq> [] then
        let g = GetOp2 pc; opcode = go_opcode g in
        if \<not> go_ok g then n
        else sigops_loop fAccurate (go_pc g) opcode
          (if opcode = OP_CHECKSIG \<or> opcode = OP_CHECKSIGVERIFY then n + 1
           else if opcode = OP_CHECKMULTISIG \<or> opcode = OP_CHECKMULTISIGVERIFY then
             if fAccurate \<and> lastOpcode \<ge> OP_1 \<and> lastOpcode \<le> OP_16
             then n + nat (the (DecodeOP_N lastOpcode)) else n + 20
           else n)
      else n)"
  by auto
termination
  by (relation "measure (\<lambda>(f, pc, l, n). length pc)") auto

declare sigops_loop.simps [simp del]

definition GetSigOpCount :: "bytes \<Rightarrow> bool \<Rightarrow> nat" where
  "GetSigOpCount script fAccurate = sigops_loop fAccurate script OP_INVALIDOPCODE 0"

definition IsPayToScriptHash :: "bytes \<Rightarrow> bool" where
  "IsPayToScriptHash s \<longleftrightarrow>
     length s = 23 \<and> s ! 0 = OP_HASH160 \<and> s ! 1 = 0x14 \<and> s ! 22 = OP_EQUAL"

text \<open>The last item pushed by a \<open>scriptSig\<close>; \<open>None\<close> is an early \<open>return 0\<close>.\<close>

function last_push :: "bytes \<Rightarrow> bytes \<Rightarrow> bytes option" where
  "last_push pc data =
     (if pc \<noteq> [] then
        let g = GetOp2 pc in
        if \<not> go_ok g then None
        else if go_opcode g > OP_16 then None
        else last_push (go_pc g) (go_data g)
      else Some data)"
  by auto
termination
  by (relation "measure (\<lambda>(pc, d). length pc)") auto

declare last_push.simps [simp del]

definition GetSigOpCount_P2SH :: "bytes \<Rightarrow> bytes \<Rightarrow> nat" where
  "GetSigOpCount_P2SH script scriptSig =
     (if \<not> IsPayToScriptHash script then GetSigOpCount script True
      else case last_push scriptSig [] of None \<Rightarrow> 0 | Some data \<Rightarrow> GetSigOpCount data True)"

text \<open>\<open>IsNormalPaymentScript\<close> ignores what \<open>GetOp\<close> returns.\<close>

function normal_payment_loop :: "bytes \<Rightarrow> nat \<Rightarrow> bool" where
  "normal_payment_loop pc i =
     (if pc \<noteq> [] then
        let opcode = go_opcode (GetOp2 pc) in
        if i = 0 \<and> opcode \<noteq> OP_DUP then False
        else if i = 1 \<and> opcode \<noteq> OP_HASH160 then False
        else if i = 3 \<and> opcode \<noteq> OP_EQUALVERIFY then False
        else if i = 4 \<and> opcode \<noteq> OP_CHECKSIG then False
        else if i = 5 then False
        else normal_payment_loop (go_pc (GetOp2 pc)) (i + 1)
      else True)"
  by auto
termination
  by (relation "measure (\<lambda>(pc, i). length pc)") auto

declare normal_payment_loop.simps [simp del]

definition IsNormalPaymentScript :: "bytes \<Rightarrow> bool" where
  "IsNormalPaymentScript s = (if length s \<noteq> 25 then False else normal_payment_loop s 0)"

definition StartsWithOpcode :: "bytes \<Rightarrow> u8 \<Rightarrow> bool" where
  "StartsWithOpcode s opcode \<longleftrightarrow> s \<noteq> [] \<and> s ! 0 = opcode"

definition IsZerocoinMint :: "bytes \<Rightarrow> bool" where
  "IsZerocoinMint s = StartsWithOpcode s OP_ZEROCOINMINT"

definition IsZerocoinSpend :: "bytes \<Rightarrow> bool" where
  "IsZerocoinSpend s = StartsWithOpcode s OP_ZEROCOINSPEND"

definition IsZerocoinPublicSpend :: "bytes \<Rightarrow> bool" where
  "IsZerocoinPublicSpend s = StartsWithOpcode s OP_ZEROCOINPUBLICSPEND"

function IsPushOnly :: "bytes \<Rightarrow> bool" where
  "IsPushOnly pc =
     (if pc \<noteq> [] then
        if \<not> go_ok (GetOp2 pc) then False
        else if go_opcode (GetOp2 pc) > OP_16 then False
        else IsPushOnly (go_pc (GetOp2 pc))
      else True)"
  by auto
termination
  by (relation "measure length") auto

declare IsPushOnly.simps [simp del]

definition IsUnspendable :: "bytes \<Rightarrow> bool" where
  "IsUnspendable s \<longleftrightarrow> length s > 0 \<and> hd s = OP_RETURN"

section \<open>Script numbers are canonical\<close>

lemma u8_sign:
  fixes b :: u8
  shows "b AND 0x80 \<noteq> 0 \<longleftrightarrow> 128 \<le> unat b" "b AND 0x80 = 0 \<longleftrightarrow> unat b < 128"
    "unat (b AND 0x7f) = unat b mod 128" "b AND 0x7f = 0 \<longleftrightarrow> unat b mod 128 = 0"
proof -
  have "b AND 0x80 \<noteq> 0 \<longleftrightarrow> bit b 7"
    by (simp add: bit_iff_and_push_bit_not_eq_0 push_bit_eq_mult)
  also have "\<dots> \<longleftrightarrow> bit (unat b) 7" by (simp add: bit_unsigned_iff)
  also have "\<dots> \<longleftrightarrow> 2 ^ 7 \<le> unat b"
    by (rule half_step) (use unat_u8_less [of b] in \<open>simp del: unat_u8_less\<close>)
  finally show 1: "b AND 0x80 \<noteq> 0 \<longleftrightarrow> 128 \<le> unat b" by simp
  then show "b AND 0x80 = 0 \<longleftrightarrow> unat b < 128" by auto
  show 2: "unat (b AND 0x7f) = unat b mod 128"
    unfolding and_7f by (simp only: unsigned_take_bit_eq) (simp add: take_bit_eq_mod)
  show "b AND 0x7f = 0 \<longleftrightarrow> unat b mod 128 = 0"
    by (simp only: word_unat_eq_iff 2 unsigned_0)
qed

lemma foldl_or_le_val:
  "m \<le> length v \<Longrightarrow>
    foldl (\<lambda>r i. r OR push_bit (8 * i) (int (unat (v ! i)))) 0 [0..<m] = int (le_val (take m v))"
proof (induction m)
  case (Suc m)
  let ?lo = "int (le_val (take m v))" and ?hi = "int (unat (v ! m))"
  have "le_val (take m v) < 2 ^ (8 * m)"
    using le_val_bound [of "take m v"] Suc.prems by (simp add: power_mult)
  then have "?lo < 2 ^ (8 * m)" by (metis of_nat_less_iff of_nat_numeral of_nat_power)
  then have "take_bit (8 * m) ?lo = ?lo" by (simp add: take_bit_eq_mod)
  then have "\<not> bit ?lo k" if "8 * m \<le> k" for k
    using that by (metis bit_take_bit_iff linorder_not_less)
  then have "?lo AND push_bit (8 * m) ?hi = 0"
    by (intro bit_eqI) (auto simp: bit_and_iff bit_push_bit_iff_int)
  then have or_add: "?lo OR push_bit (8 * m) ?hi = ?lo + push_bit (8 * m) ?hi"
    by (simp only: disjunctive_add_eq_or)
  have "(2 :: int) ^ (8 * m) = 256 ^ m" by (simp add: power_mult)
  then have shift: "push_bit (8 * m) ?hi = 256 ^ m * ?hi"
    by (simp only: push_bit_eq_mult mult.commute)
  have "?lo + 256 ^ m * ?hi = int (le_val (take (Suc m) v))"
    using Suc.prems by (simp add: take_Suc_conv_app_nth le_val_append)
  then have "?lo OR push_bit (8 * m) ?hi = int (le_val (take (Suc m) v))"
    unfolding or_add unfolding shift .
  then show ?case using Suc by simp
qed simp

lemma set_vch_snoc:
  "set_vch (w @ [b]) = (if 128 \<le> unat b
     then - (int (le_val w) + 256 ^ length w * (int (unat b) - 128))
     else int (le_val w) + 256 ^ length w * int (unat b))"
proof -
  let ?v = "w @ [b]"
  have val: "foldl (\<lambda>r i. r OR push_bit (8 * i) (int (unat (?v ! i)))) 0 [0..<length ?v]
      = int (le_val w) + 256 ^ length w * int (unat b)"
    using foldl_or_le_val [of "length ?v" ?v] by (simp add: le_val_append)
  define R where "R = int (le_val w) + 256 ^ length w * int (unat b)"
  have s: "set_vch ?v = (if 128 \<le> unat b then - (R AND NOT (push_bit (8 * length w) 128)) else R)"
    unfolding set_vch_def Let_def val R_def by (simp add: u8_sign)
  show ?thesis
  proof (cases "128 \<le> unat b")
    case True
    let ?k = "8 * length w + 7"
    have p: "push_bit (8 * length w) 128 = push_bit ?k (1 :: int)"
      by (simp add: push_bit_eq_mult power_add)
    have k: "(2 :: int) ^ ?k = 256 ^ length w * 128" by (simp add: power_add power_mult)
    have "bit R ?k"
    proof -
      have "int (le_val w) < 256 ^ length w"
        using le_val_bound [of w] by (metis of_nat_less_iff of_nat_numeral of_nat_power)
      then have "R div 256 ^ length w = int (unat b)"
        unfolding R_def by (simp add: div_pos_pos_trivial)
      then have "R div 2 ^ ?k = int (unat b) div 128"
        unfolding k by (simp add: zdiv_zmult2_eq)
      also have "\<dots> = 1" using True unat_u8_less [of b] by linarith
      finally show ?thesis by (simp add: bit_iff_odd)
    qed
    then have "R AND NOT (push_bit ?k 1) = R - 2 ^ ?k"
      by (simp only: unset_bit_eq_and_not [symmetric] unset_bit_eq) simp
    then show ?thesis
      unfolding s p using True k by (simp add: R_def algebra_simps)
  next
    case False
    then show ?thesis unfolding s by (simp add: R_def)
  qed
qed

lemma set_vch_Nil [simp]: "set_vch [] = 0"
  by (simp add: set_vch_def)

lemma abs_bytes_0 [simp]: "abs_bytes 0 = []"
  by (simp add: abs_bytes.simps)

lemma abs_bytes_pos:
  "n > 0 \<Longrightarrow> abs_bytes n = of_nat (n mod 256) # abs_bytes (n div 256)"
  by (simp add: abs_bytes.simps [of n] take_bit_eq_mod drop_bit_eq_div)

lemma le_val_abs_bytes [simp]: "le_val (abs_bytes n) = n"
proof (induction n rule: less_induct)
  case (less n)
  then show ?case by (cases "n = 0") (simp_all add: abs_bytes_pos)
qed

lemma abs_bytes_Nil_iff [simp]: "abs_bytes n = [] \<longleftrightarrow> n = 0"
  by (cases "n = 0") (simp_all add: abs_bytes_pos)

lemma last_abs_bytes: "n > 0 \<Longrightarrow> unat (last (abs_bytes n)) \<noteq> 0"
proof (induction n rule: less_induct)
  case (less n)
  show ?case
  proof (cases "n < 256")
    case True
    then show ?thesis using less.prems by (simp add: abs_bytes_pos)
  next
    case False
    then have "n div 256 > 0" "n div 256 < n" by (simp_all add: div_greater_zero_iff)
    then show ?thesis using less.IH [of "n div 256"] less.prems by (simp add: abs_bytes_pos)
  qed
qed

lemma abs_bytes_le_val: "unat b \<noteq> 0 \<Longrightarrow> abs_bytes (le_val (w @ [b])) = w @ [b]"
proof (induction w)
  case Nil
  then show ?case by (simp add: abs_bytes_pos)
next
  case (Cons x w)
  have "le_val (w @ [b]) > 0"
    using Cons.prems by (simp add: le_val_append)
  then have "le_val ((x # w) @ [b]) > 0" by simp
  moreover have "(unat x + 256 * le_val (w @ [b])) mod 256 = unat x"
    "(unat x + 256 * le_val (w @ [b])) div 256 = le_val (w @ [b])"
    using unat_u8_less [of x] by (simp_all del: unat_u8_less)
  ultimately show ?case using Cons by (simp add: abs_bytes_pos)
qed

lemma abs_bytes_snoc:
  assumes "n > 0"
  obtains w b where "abs_bytes n = w @ [b]" "n = le_val w + 256 ^ length w * unat b" "unat b \<noteq> 0"
proof -
  have ne: "abs_bytes n \<noteq> []" using assms by simp
  define w b where "w = butlast (abs_bytes n)" and "b = last (abs_bytes n)"
  have eq: "abs_bytes n = w @ [b]" using ne by (simp add: w_def b_def)
  then have "n = le_val (w @ [b])" by (metis le_val_abs_bytes)
  then show ?thesis
    using that [OF eq] last_abs_bytes [OF assms] by (simp add: le_val_append b_def)
qed

text \<open>\<open>num_serialize\<close> by the last byte of the absolute value.\<close>

lemma num_serialize_cases:
  assumes "n \<noteq> 0" "abs_bytes (nat \<bar>n\<bar>) = w @ [b]"
  shows "num_serialize n = (if 128 \<le> unat b then w @ [b, if n < 0 then 0x80 else 0]
    else if n < 0 then w @ [b OR 0x80] else w @ [b])"
proof -
  have eq: "(if n < 0 then - n else n) = \<bar>n\<bar>" by simp
  show ?thesis
    using assms(1) unfolding num_serialize_def Let_def eq assms(2) by (simp add: u8_sign(1))
qed

lemma unat_or_80: "unat (b :: u8) < 128 \<Longrightarrow> unat (b OR 0x80) = unat b + 128"
proof -
  assume b: "unat b < 128"
  then have "b AND 0x80 = 0" by (simp add: u8_sign)
  then have "b OR 0x80 = b + 0x80" by (simp only: disjunctive_add_eq_or)
  then show ?thesis using b by (simp add: unat_add_exact)
qed

lemma set_vch_serialize [codec_simps]: "set_vch (num_serialize n) = n"
proof (cases "n = 0")
  case False
  then obtain w b where b: "abs_bytes (nat \<bar>n\<bar>) = w @ [b]"
    "nat \<bar>n\<bar> = le_val w + 256 ^ length w * unat b" "unat b \<noteq> 0"
    using abs_bytes_snoc [of "nat \<bar>n\<bar>"] by auto
  have "int (nat \<bar>n\<bar>) = int (le_val w) + 256 ^ length w * int (unat b)"
    unfolding b(2) by simp
  then have a: "\<bar>n\<bar> = int (le_val w) + 256 ^ length w * int (unat b)" by simp
  show ?thesis
  proof (cases "128 \<le> unat b")
    case True
    have "num_serialize n = (w @ [b]) @ [if n < 0 then 0x80 else 0]"
      using num_serialize_cases [OF False b(1)] True by simp
    then show ?thesis
      using a by (simp only: set_vch_snoc) (simp add: le_val_append split: if_splits)
  next
    case b7: False
    show ?thesis
    proof (cases "n < 0")
      case True
      then have "num_serialize n = w @ [b OR 0x80]"
        using num_serialize_cases [OF False b(1)] b7 by simp
      then show ?thesis
        using a True b7 by (simp add: set_vch_snoc unat_or_80)
    next
      case n: False
      then have "num_serialize n = w @ [b]"
        using num_serialize_cases [OF False b(1)] b7 by simp
      then show ?thesis using a n b7 by (simp add: set_vch_snoc)
    qed
  qed
qed (simp add: num_serialize_def)

lemma u8_mod128: "128 \<le> unat (b :: u8) \<Longrightarrow> unat b mod 128 = unat b - 128"
  using unat_u8_less [of b] by (simp add: le_mod_geq del: unat_u8_less)

lemma num_serialize_minimal:
  "num_serialize n = [] \<or> last (num_serialize n) AND 0x7f \<noteq> 0
    \<or> (length (num_serialize n) \<ge> 2 \<and>
       num_serialize n ! (length (num_serialize n) - 2) AND 0x80 \<noteq> 0)"
proof (cases "n = 0")
  case False
  then have "nat \<bar>n\<bar> > 0" by simp
  then obtain w b where b: "abs_bytes (nat \<bar>n\<bar>) = w @ [b]" "unat b \<noteq> 0"
    by (rule abs_bytes_snoc)
  have "(w @ [b, x]) ! length w = b" for x by (simp add: nth_append)
  then show ?thesis
    using num_serialize_cases [OF False b(1)] b(2) by (auto simp: u8_sign unat_or_80)
qed (simp add: num_serialize_def)

lemma minimal_is_serialized:
  assumes min: "vch = [] \<or> last vch AND 0x7f \<noteq> 0
    \<or> (length vch \<ge> 2 \<and> vch ! (length vch - 2) AND 0x80 \<noteq> 0)"
  shows "num_serialize (set_vch vch) = vch"
proof (cases vch rule: rev_cases)
  case Nil
  then show ?thesis by (simp add: num_serialize_def)
next
  case (snoc w b)
  define n where "n = set_vch vch"
  show ?thesis
  proof (cases "unat b mod 128 = 0")
    case False
    define m :: u8 where "m = of_nat (unat b mod 128)"
    have m: "unat m = unat b mod 128" using mod_less_divisor [of 128 "unat b"] by (simp add: m_def)
    have b: "b = (if 128 \<le> unat b then m OR 0x80 else m)"
    proof (cases "128 \<le> unat b")
      case True
      then have "unat b mod 128 = unat b - 128" by (rule u8_mod128)
      then have "unat (m OR 0x80) = unat b" using True unat_or_80 [of m] m by simp
      then show ?thesis using True by (simp add: word_unat_eq_iff)
    next
      case False
      then show ?thesis using m by (simp add: word_unat_eq_iff)
    qed
    have pos: "int (le_val w) + 256 ^ length w * int (unat m) > 0"
      using False m by (simp add: add_nonneg_pos)
    have bm: "int (unat b) - 128 = int (unat m)" if "128 \<le> unat b"
      using that m u8_mod128 [OF that] by linarith
    have n: "n = (if 128 \<le> unat b then - (int (le_val w) + 256 ^ length w * int (unat m))
        else int (le_val w) + 256 ^ length w * int (unat m))"
      using bm m by (simp add: n_def snoc set_vch_snoc)
    have "nat \<bar>n\<bar> = le_val (w @ [m])" using n pos by (auto simp: le_val_append nat_add_distrib nat_mult_distrib nat_power_eq)
    then have "abs_bytes (nat \<bar>n\<bar>) = w @ [m]" using abs_bytes_le_val [of m w] False m by simp
    moreover have "n \<noteq> 0" "n < 0 \<longleftrightarrow> 128 \<le> unat b" using n pos by auto
    moreover have "unat m < 128" using m by simp
    ultimately have ser: "num_serialize n = (if 128 \<le> unat b then w @ [m OR 0x80] else w @ [m])"
      using num_serialize_cases [of n w m] by simp
    have "num_serialize n = w @ [b]"
      by (subst b, subst ser) (simp split: if_split)
    then show ?thesis by (simp add: n_def snoc)
  next
    case True
    then have b0: "unat b = 0 \<or> unat b = 128" using unat_u8_less [of b] by presburger
    then have b: "b = (if 128 \<le> unat b then 0x80 else 0)" by (auto simp: word_unat_eq_iff)
    have "last vch AND 0x7f = 0" using True by (simp add: snoc u8_sign)
    then have w: "length w \<ge> 1" "(w @ [b]) ! (length w - 1) AND 0x80 \<noteq> 0"
      using min by (auto simp: snoc)
    then obtain w' c where w': "w = w' @ [c]" by (cases w rule: rev_cases) auto
    then have c: "128 \<le> unat c" using w(2) by (simp add: nth_append u8_sign)
    then have "unat c \<noteq> 0" by simp
    then have le: "abs_bytes (le_val w) = w' @ [c]" unfolding w' by (rule abs_bytes_le_val)
    have pos: "le_val w > 0" using c by (simp add: w' le_val_append)
    have "n = (if 128 \<le> unat b then - int (le_val w) else int (le_val w))"
    proof -
      have "b = 0 \<or> b = 0x80" using b0 by (auto simp: word_unat_eq_iff)
      then show ?thesis by (auto simp: n_def snoc set_vch_snoc)
    qed
    then have "nat \<bar>n\<bar> = le_val w" "n \<noteq> 0" "n < 0 \<longleftrightarrow> 128 \<le> unat b" using pos by auto
    then have "num_serialize n = (w' @ [c]) @ [b]"
      using num_serialize_cases [of n w' c] le c b by simp
    then show ?thesis by (simp add: n_def snoc w')
  qed
qed

text \<open>C25: A script number is accepted with the minimal-encoding rule exactly when its bytes are what
  \<open>CScriptNum::serialize\<close> writes for the value it yields, within the size limit: the encoding
  accepted for a number is unique.\<close>

theorem CScriptNum_minimal_iff:
  "CScriptNum vch True nMax = Inr n \<longleftrightarrow> length vch \<le> nMax \<and> vch = num_serialize n"
proof
  assume "CScriptNum vch True nMax = Inr n"
  then have "length vch \<le> nMax" "n = set_vch vch"
    "vch = [] \<or> last vch AND 0x7f \<noteq> 0 \<or> (length vch \<ge> 2 \<and> vch ! (length vch - 2) AND 0x80 \<noteq> 0)"
    by (auto simp: CScriptNum_def split: if_splits)
  then show "length vch \<le> nMax \<and> vch = num_serialize n" using minimal_is_serialized by simp
next
  assume "length vch \<le> nMax \<and> vch = num_serialize n"
  then show "CScriptNum vch True nMax = Inr n"
    using num_serialize_minimal [of n] by (auto simp: CScriptNum_def set_vch_serialize)
qed

section \<open>Decoding what was pushed\<close>

lemma push_size_append:
  "push_size opcode pc = Some (n, pc') \<Longrightarrow> push_size opcode (pc @ r) = Some (n, pc' @ r)"
  by (auto simp: push_size_def hd_append2 tl_append2 split: if_splits)

lemma GetOp2_append [codec_simps]:
  assumes "go_ok (GetOp2 pc)"
  shows "GetOp2 (pc @ r) = (GetOp2 pc)\<lparr> go_pc := go_pc (GetOp2 pc) @ r \<rparr>"
proof (cases pc)
  case (Cons opcode pc1)
  show ?thesis
  proof (cases "opcode \<le> OP_PUSHDATA4")
    case True
    then obtain n pc2 where p: "push_size opcode pc1 = Some (n, pc2)" "\<not> length pc2 < n"
      using assms by (auto simp: GetOp2_def Cons split: option.splits if_splits)
    then show ?thesis
      using True push_size_append [OF p(1), of r] by (simp add: GetOp2_def Cons)
  next
    case False
    then show ?thesis by (simp add: GetOp2_def Cons)
  qed
qed (use assms in \<open>simp add: GetOp2_def\<close>)

lemma push_bytes_append: "push_bytes s b = s @ push_bytes [] b"
  by (simp add: push_bytes_def)

lemma GetOp2_push:
  assumes "length b < 4294967296"
  shows "\<exists>opcode \<le> OP_PUSHDATA4. GetOp2 (push_bytes [] b @ r)
    = \<lparr> go_ok = True, go_opcode = opcode, go_data = b, go_pc = r \<rparr>"
proof -
  consider "length b < 76" | "76 \<le> length b" "length b \<le> 255" | "256 \<le> length b" "length b \<le> 65535"
    | "65536 \<le> length b" by linarith
  then show ?thesis
  proof cases
    case 1
    then have "(of_nat (length b) :: u8) < 0x4c" by (simp add: word_less_nat_alt)
    then have "(of_nat (length b) :: u8) \<le> OP_PUSHDATA4" by (simp add: order_le_less_trans less_imp_le word_less_nat_alt word_le_nat_alt)
    then show ?thesis
      using 1 \<open>of_nat (length b) < 0x4c\<close> by (auto simp: push_bytes_def GetOp2_def push_size_def)
  next
    case 2
    then show ?thesis
      by (intro exI [of _ OP_PUSHDATA1]) (simp add: push_bytes_def GetOp2_def push_size_def)
  next
    case 3
    then have v: "le_val (ser_u16 (of_nat (length b))) = length b"
      by (simp add: ser_u16_def le_val_le_bytes)
    then show ?thesis
      using 3 by (intro exI [of _ OP_PUSHDATA2]) (simp add: push_bytes_def GetOp2_def push_size_def)
  next
    case 4
    then have v: "le_val (ser_u32 (of_nat (length b))) = length b"
      using assms by (simp add: ser_u32_def le_val_le_bytes)
    then show ?thesis
      using 4 by (intro exI [of _ OP_PUSHDATA4]) (simp add: push_bytes_def GetOp2_def push_size_def)
  qed
qed

lemma IsPushOnly_append:
  "IsPushOnly s \<Longrightarrow> IsPushOnly (s @ t) \<longleftrightarrow> IsPushOnly t"
proof (induction s rule: IsPushOnly.induct)
  case (1 pc)
  show ?case
  proof (cases "pc = []")
    case False
    then have g: "go_ok (GetOp2 pc)" "\<not> go_opcode (GetOp2 pc) > OP_16" "IsPushOnly (go_pc (GetOp2 pc))"
      using "1.prems" by (auto simp: IsPushOnly.simps [of pc] split: if_splits)
    have "IsPushOnly (pc @ t) \<longleftrightarrow> IsPushOnly (go_pc (GetOp2 pc) @ t)"
      using False g by (simp add: IsPushOnly.simps [of "pc @ t"] GetOp2_append)
    then show ?thesis using "1.IH" False g by simp
  qed simp
qed

lemma last_push_append:
  "IsPushOnly s \<Longrightarrow> \<exists>d'. last_push (s @ t) d = last_push t d'"
proof (induction s arbitrary: d rule: IsPushOnly.induct)
  case (1 pc)
  show ?case
  proof (cases "pc = []")
    case False
    then have g: "go_ok (GetOp2 pc)" "\<not> go_opcode (GetOp2 pc) > OP_16" "IsPushOnly (go_pc (GetOp2 pc))"
      using "1.prems" by (auto simp: IsPushOnly.simps [of pc] split: if_splits)
    have "last_push (pc @ t) d = last_push (go_pc (GetOp2 pc) @ t) (go_data (GetOp2 pc))"
      using False g by (simp add: last_push.simps [of "pc @ t"] GetOp2_append Let_def)
    then show ?thesis using "1.IH" False g by metis
  qed auto
qed

lemma pushdata_not_greater: "x \<le> (0x4e :: u8) \<Longrightarrow> \<not> 0x60 < x"
  by (simp add: word_less_nat_alt word_le_nat_alt)

lemma IsPushOnly_push:
  assumes "length b < 4294967296"
  shows "IsPushOnly (push_bytes [] b)"
proof -
  obtain opc where o: "opc \<le> OP_PUSHDATA4"
    "GetOp2 (push_bytes [] b) = \<lparr> go_ok = True, go_opcode = opc, go_data = b, go_pc = [] \<rparr>"
    using GetOp2_push [OF assms, of "[]"] by auto
  then show ?thesis
    by (simp add: IsPushOnly.simps pushdata_not_greater)
qed

lemma last_push_single:
  assumes "length b < 4294967296"
  shows "last_push (push_bytes [] b) d = Some b"
proof -
  obtain opc where o: "opc \<le> OP_PUSHDATA4"
    "GetOp2 (push_bytes [] b) = \<lparr> go_ok = True, go_opcode = opc, go_data = b, go_pc = [] \<rparr>"
    using GetOp2_push [OF assms, of "[]"] by auto
  then have "push_bytes [] b \<noteq> []" by (auto simp: GetOp2_def)
  then show ?thesis
    using o by (simp add: last_push.simps [of "push_bytes [] b"] last_push.simps [of "[]"]
        pushdata_not_greater)
qed

text \<open>\<open>GetOp\<close> reads back what \<open>operator<<\<close> pushed, for every byte string that fits the
  4-byte size, whatever follows: the instruction is a push, its data is the string and the iterator
  stands on what follows.\<close>

theorem GetOp_reads_push:
  assumes "length b < 4294967296"
  shows "\<exists>opcode \<le> OP_PUSHDATA4. GetOp2 (drop (length s) (push_bytes s b @ r))
    = \<lparr> go_ok = True, go_opcode = opcode, go_data = b, go_pc = r \<rparr>"
  using GetOp2_push [OF assms, of r] push_bytes_append [of s b] by simp

theorem GetOp_reads_push_witness:
  "\<exists>opcode \<le> OP_PUSHDATA4. GetOp2 (drop (length [OP_DUP]) (push_bytes [OP_DUP] [1, 2, 3] @ [OP_EQUAL]))
    = \<lparr> go_ok = True, go_opcode = opcode, go_data = [1, 2, 3], go_pc = [OP_EQUAL] \<rparr>"
  by (rule GetOp_reads_push) simp

text \<open>For a pay-to-script-hash output, a \<open>scriptSig\<close> made of pushes that ends with a push of
  the redeem script is push-only, and the signature operations counted are those of the redeem
  script counted accurately.\<close>

theorem P2SH_sigops_of_redeem_script:
  assumes "IsPayToScriptHash spk" "IsPushOnly s" "length redeem < 4294967296"
  shows "IsPushOnly (push_bytes s redeem)
    \<and> GetSigOpCount_P2SH spk (push_bytes s redeem) = GetSigOpCount redeem True"
proof -
  have "IsPushOnly (s @ push_bytes [] redeem)"
    using IsPushOnly_append assms(2) IsPushOnly_push [OF assms(3)] by blast
  moreover have "last_push (s @ push_bytes [] redeem) [] = Some redeem"
    using last_push_append [OF assms(2)] last_push_single [OF assms(3)] by metis
  ultimately show ?thesis
    using assms(1) by (subst (1 2) push_bytes_append) (simp add: GetSigOpCount_P2SH_def)
qed

lemma IsPushOnly_Nil: "IsPushOnly []"
  by (simp add: IsPushOnly.simps)

theorem P2SH_sigops_of_redeem_script_witness:
  "GetSigOpCount_P2SH ([OP_HASH160, 0x14] @ replicate 20 0 @ [OP_EQUAL])
     (push_bytes [] [OP_2, OP_CHECKMULTISIG])
   = GetSigOpCount [OP_2, OP_CHECKMULTISIG] True"
proof -
  have "IsPayToScriptHash ([OP_HASH160, 0x14] @ replicate 20 0 @ [OP_EQUAL])"
    by (simp add: IsPayToScriptHash_def nth_append)
  from P2SH_sigops_of_redeem_script [OF this IsPushOnly_Nil, of "[OP_2, OP_CHECKMULTISIG]"]
  show ?thesis by simp
qed

section \<open>Erasing and templates\<close>

lemma strip_matches_spec:
  "b \<noteq> [] \<Longrightarrow> strip_matches b pc n = (pc', n') \<Longrightarrow>
    n \<le> n' \<and> length pc = length pc' + (n' - n) * length b
      \<and> (n' = n \<longrightarrow> pc' = pc) \<and> take (length b) pc' \<noteq> b"
proof (induction b pc n rule: strip_matches.induct)
  case (1 b pc n)
  show ?case
  proof (cases "length pc \<ge> length b \<and> take (length b) pc = b")
    case True
    then have s: "strip_matches b (drop (length b) pc) (n + 1) = (pc', n')"
      using "1.prems" by (simp add: strip_matches.simps [of b pc])
    have IH: "n + 1 \<le> n'" "length (drop (length b) pc) = length pc' + (n' - (n + 1)) * length b"
      "take (length b) pc' \<noteq> b"
      using "1.IH" [OF _ "1.prems"(1) s] True "1.prems"(1) by simp_all
    obtain k where k: "n' = n + 1 + k" using IH(1) le_Suc_ex by blast
    have "length pc - length b = length pc' + k * length b" using IH(2) k by simp
    then have "length pc = length pc' + (k + 1) * length b"
      using True unfolding add_mult_distrib by linarith
    then show ?thesis using IH(3) k by simp
  next
    case False
    then have "pc' = pc" "n' = n"
      using "1.prems" by (auto simp: strip_matches.simps [of b pc] split: if_splits)
    moreover have "take (length b) pc \<noteq> b" using False by (metis length_take linorder_le_cases min.absorb2 order_refl take_all_iff)
    ultimately show ?thesis by simp
  qed
qed

lemma GetOp2_suffix: "\<exists>p. pc = p @ go_pc (GetOp2 pc)"
proof -
  have ps: "\<exists>p. pc = p @ pc'" if "push_size opc pc = Some (n, pc')" for opc pc n and pc' :: bytes
    using that unfolding push_size_def
    by (auto split: if_splits) (metis append_Cons append_Nil append_take_drop_id list.collapse)+
  show ?thesis
  proof (cases pc)
    case (Cons opc pc1)
    show ?thesis
    proof (cases "push_size opc pc1")
      case None
      then show ?thesis by (simp add: GetOp2_def Cons)
    next
      case (Some a)
      obtain n pc2 where a: "a = (n, pc2)" by (cases a)
      then obtain p where p: "pc1 = p @ pc2" using ps Some by blast
      have "pc2 = take n pc2 @ drop n pc2" by simp
      then have "opc # pc1 = (opc # p @ take n pc2) @ drop n pc2" unfolding p by simp
      then have "\<exists>q. opc # pc1 = q @ drop n pc2" by blast
      then show ?thesis using Some a p by (auto simp: GetOp2_def Cons)
    qed
  qed (simp add: GetOp2_def)
qed

lemma find_delete_spec:
  "b \<noteq> [] \<Longrightarrow> find_delete b head pc n = (out, n') \<Longrightarrow>
    n \<le> n' \<and> length head + length pc = length out + (n' - n) * length b
      \<and> (n' = n \<longrightarrow> out = head @ pc)"
proof (induction b head pc n rule: find_delete.induct)
  case (1 b head pc n)
  obtain pc1 n1 where s: "strip_matches b pc n = (pc1, n1)" by (cases "strip_matches b pc n")
  note sp = strip_matches_spec [OF "1.prems"(1) s]
  define g where "g = GetOp2 pc1"
  show ?case
  proof (cases "go_ok g")
    case True
    obtain p where p: "pc1 = p @ go_pc g" using GetOp2_suffix [of pc1] by (auto simp: g_def)
    define h where "h = head @ take (length pc1 - length (go_pc g)) pc1"
    have h: "h = head @ p" using arg_cong [OF p, of length] unfolding h_def by (subst (2) p) simp
    have "find_delete b h (go_pc g) n1 = (out, n')"
      using "1.prems"(2) True by (simp add: find_delete.simps [of b head pc] s Let_def g_def h_def)
    from "1.IH" [OF s [symmetric] g_def True "1.prems"(1) this [unfolded h_def]]
    have IH: "n1 \<le> n'" "length h + length (go_pc g) = length out + (n' - n1) * length b"
      "n' = n1 \<longrightarrow> out = h @ go_pc g" by (simp_all add: h_def)
    obtain k1 where k1: "n1 = n + k1" using sp le_Suc_ex by blast
    obtain k2 where k2: "n' = n1 + k2" using IH(1) le_Suc_ex by blast
    have "length head + length pc1 = length out + k2 * length b"
      using IH(2) arg_cong [OF p, of length] by (simp add: h k2)
    then have "length head + length pc = length out + (n' - n) * length b"
      using sp by (simp add: k1 k2 algebra_simps)
    moreover have "n' = n \<longrightarrow> out = head @ pc"
      using IH(3) sp p by (auto simp: h k1 k2)
    ultimately show ?thesis using k1 k2 by simp
  next
    case False
    then have "out = head @ pc1" "n' = n1"
      using "1.prems"(2) by (simp_all add: find_delete.simps [of b head pc] s Let_def g_def)
    then show ?thesis using sp by simp
  qed
qed

text \<open>\<open>FindAndDelete\<close> returns the number of copies it erased: the script loses exactly that
  many times the length of the pattern, and it is unchanged precisely when the count is zero.\<close>

theorem FindAndDelete_counts:
  "length s = length (fst (FindAndDelete s b)) + snd (FindAndDelete s b) * length b
    \<and> (snd (FindAndDelete s b) = 0 \<longleftrightarrow> fst (FindAndDelete s b) = s)"
proof (cases "b = []")
  case False
  obtain out n where f: "find_delete b [] s 0 = (out, n)" by (cases "find_delete b [] s 0")
  from find_delete_spec [OF False f] show ?thesis
    using False f by (auto simp: FindAndDelete_def)
qed (simp add: FindAndDelete_def)

lemma normal_payment_step:
  "pc \<noteq> [] \<Longrightarrow> normal_payment_loop pc i \<longleftrightarrow>
    (i = 0 \<longrightarrow> go_opcode (GetOp2 pc) = OP_DUP) \<and> (i = 1 \<longrightarrow> go_opcode (GetOp2 pc) = OP_HASH160)
    \<and> (i = 3 \<longrightarrow> go_opcode (GetOp2 pc) = OP_EQUALVERIFY)
    \<and> (i = 4 \<longrightarrow> go_opcode (GetOp2 pc) = OP_CHECKSIG) \<and> i \<noteq> 5
    \<and> normal_payment_loop (go_pc (GetOp2 pc)) (i + 1)"
  by (auto simp: normal_payment_loop.simps [of pc] Let_def)

text \<open>\<open>IsNormalPaymentScript\<close> does not check that the whole pay-to-pubkey-hash template is
  there: the loop ends when the script does, so a 25-byte script \<open>DUP HASH160\<close> followed by one push
  of 22 bytes, with no \<open>EQUALVERIFY CHECKSIG\<close>, is accepted, whatever the bytes are, just like the
  real template.\<close>

theorem IsNormalPaymentScript_accepts_truncated:
  "(length h = 22 \<longrightarrow> IsNormalPaymentScript ([OP_DUP, OP_HASH160, 0x16] @ h))
    \<and> (length k = 20 \<longrightarrow>
        IsNormalPaymentScript ([OP_DUP, OP_HASH160, 0x14] @ k @ [OP_EQUALVERIFY, OP_CHECKSIG]))"
  by (simp add: IsNormalPaymentScript_def normal_payment_step GetOp2_def push_size_def
      normal_payment_loop.simps [of "[]"])

theorem IsNormalPaymentScript_accepts_truncated_witness:
  "IsNormalPaymentScript ([OP_DUP, OP_HASH160, 0x16] @ replicate 22 0xff)"
  using IsNormalPaymentScript_accepts_truncated [of "replicate 22 0xff" "[]"] by simp

end
