(* ===== verification/Hash.thy ===== *)
theory Hash
  imports Serialization
begin

unbundle bit_operations_syntax

text \<open>
  The hash functions of \<open>src/crypto\<close> (\<open>sha256.cpp\<close>, \<open>sha512.cpp\<close>, \<open>sha1.cpp\<close>,
  \<open>ripemd160.cpp\<close>, \<open>hmac_sha256.cpp\<close>, \<open>hmac_sha512.cpp\<close>) and of \<open>src/hash.h\<close> and
  \<open>src/hash.cpp\<close>.  The unrolled rounds of a \<open>Transform\<close> are one round function applied in a
  loop: the variables \<open>a, b, ...\<close> are the cells of a list and round \<open>i\<close> names them rotated by
  \<open>i\<close> places, exactly as the argument lists of the code rotate; the message words
  \<open>w0..w15\<close> are a list updated in place.  The streaming part (\<open>Write\<close>, \<open>Finalize\<close>), the same
  in every class, is written once over the block function and instantiated for each class; the
  locale \<open>block_hasher\<close> proves that a hasher stands for the bytes written to it, however they
  were cut into calls.
\<close>

section \<open>The streaming hasher\<close>

record 'w hasher =
  h_s :: "'w list"
  h_buf :: bytes
  h_bytes :: u64

text \<open>\<open>B\<close> is the block length in bytes.  The buffer of a new object is uninitialised memory; it
  is never read before it is written.\<close>

definition h_new :: "nat \<Rightarrow> 'w list \<Rightarrow> 'w hasher" where
  "h_new B init = \<lparr> h_s = init, h_buf = replicate B 0, h_bytes = 0 \<rparr>"

definition h_reset :: "'w list \<Rightarrow> 'w hasher \<Rightarrow> 'w hasher" where
  "h_reset init h = h\<lparr> h_bytes := 0, h_s := init \<rparr>"

text \<open>The \<open>while\<close> loop over full chunks of the source, and the rest of \<open>data\<close>.\<close>

function write_chunks :: "nat \<Rightarrow> ('w list \<Rightarrow> bytes \<Rightarrow> 'w list) \<Rightarrow> 'w hasher \<Rightarrow> bytes \<Rightarrow> 'w hasher \<times> bytes"
where
  "write_chunks B tr h data =
     (if 0 < B \<and> length data \<ge> B
      then write_chunks B tr (h\<lparr> h_s := tr (h_s h) (take B data), h_bytes := h_bytes h + of_nat B \<rparr>)
             (drop B data)
      else (h, data))"
  by auto
termination
  by (relation "measure (\<lambda>(B, tr, h, data). length data)") auto

declare write_chunks.simps [simp del]

definition h_write :: "nat \<Rightarrow> ('w list \<Rightarrow> bytes \<Rightarrow> 'w list) \<Rightarrow> 'w hasher \<Rightarrow> bytes \<Rightarrow> 'w hasher" where
  "h_write B tr h data =
     (let bufsize = unat (h_bytes h) mod B;
          (h, data, bufsize) =
            (if bufsize \<noteq> 0 \<and> bufsize + length data \<ge> B then
               let buf = take bufsize (h_buf h) @ take (B - bufsize) data
               in (h\<lparr> h_buf := buf, h_bytes := h_bytes h + of_nat (B - bufsize),
                      h_s := tr (h_s h) buf \<rparr>, drop (B - bufsize) data, 0)
             else (h, data, bufsize));
          (h, data) = write_chunks B tr h data
      in if length data > 0
         then h\<lparr> h_buf := take bufsize (h_buf h) @ data @ drop (bufsize + length data) (h_buf h),
                 h_bytes := h_bytes h + of_nat (length data) \<rparr>
         else h)"

text \<open>\<open>L\<close> is the number of bytes of the size field that \<open>sz\<close> makes from \<open>bytes << 3\<close>:
  with \<open>B = 64\<close>, \<open>L = 8\<close> the padding has \<open>1 + ((119 - bytes % 64) % 64)\<close> bytes.\<close>

definition h_finalize ::
  "nat \<Rightarrow> nat \<Rightarrow> (u64 \<Rightarrow> bytes) \<Rightarrow> ('w list \<Rightarrow> bytes \<Rightarrow> 'w list) \<Rightarrow> ('w list \<Rightarrow> bytes) \<Rightarrow> 'w hasher \<Rightarrow> 'w hasher \<times> bytes"
where
  "h_finalize B L sz tr out h =
     (let sizedesc = sz (push_bit 3 (h_bytes h));
          npad = 1 + ((2 * B - 1 - L - unat (h_bytes h) mod B) mod B);
          h = h_write B tr h (take npad (0x80 # replicate (B - 1) 0));
          h = h_write B tr h sizedesc
      in (h, out (h_s h)))"

section \<open>What a hasher stands for\<close>

text \<open>The chaining value after the full blocks of \<open>m\<close>, the bytes after them, and the message
  padded to full blocks: the Merkle-Damgard construction that the classes implement.\<close>

function absorb :: "nat \<Rightarrow> ('w list \<Rightarrow> bytes \<Rightarrow> 'w list) \<Rightarrow> 'w list \<Rightarrow> bytes \<Rightarrow> 'w list" where
  "absorb B tr s m =
     (if 0 < B \<and> length m \<ge> B then absorb B tr (tr s (take B m)) (drop B m) else s)"
  by auto
termination
  by (relation "measure (\<lambda>(B, tr, s, m). length m)") auto

declare absorb.simps [simp del]

definition rest_of :: "nat \<Rightarrow> bytes \<Rightarrow> bytes" where
  "rest_of B m = drop (B * (length m div B)) m"

definition md_pad :: "nat \<Rightarrow> nat \<Rightarrow> (u64 \<Rightarrow> bytes) \<Rightarrow> bytes \<Rightarrow> bytes" where
  "md_pad B L sz m = m @ 0x80 # replicate ((2 * B - 1 - L - length m mod B) mod B) 0
     @ sz (push_bit 3 (of_nat (length m)))"

lemma absorb_short: "length m < B \<Longrightarrow> absorb B tr s m = s"
  by (subst absorb.simps) simp

lemma absorb_append:
  assumes "0 < B" and "B dvd length m"
  shows "absorb B tr s (m @ d) = absorb B tr (absorb B tr s m) d"
  using assms(2)
proof (induction "length m" arbitrary: m s rule: less_induct)
  case less
  show ?case
  proof (cases "m = []")
    case True
    then show ?thesis using assms(1) by (simp add: absorb_short)
  next
    case False
    then have B: "B \<le> length m" using less.prems by (auto dest: dvd_imp_le)
    have "B dvd length (drop B m)" using less.prems B by (simp add: dvd_diff_nat)
    then have "absorb B tr (tr s (take B m)) (drop B m @ d)
        = absorb B tr (absorb B tr (tr s (take B m)) (drop B m)) d"
      using assms(1) B by (intro less.hyps) auto
    then show ?thesis
      using B assms(1) absorb.simps [of B tr s "m @ d"] absorb.simps [of B tr s m] by simp
  qed
qed

lemma write_chunks_absorb:
  assumes "0 < B"
  shows "write_chunks B tr h data =
     (h\<lparr> h_s := absorb B tr (h_s h) data,
         h_bytes := h_bytes h + of_nat (B * (length data div B)) \<rparr>, rest_of B data)"
proof (induction "length data" arbitrary: data h rule: less_induct)
  case less
  show ?case
  proof (cases "B \<le> length data")
    case True
    have d: "length data div B = Suc ((length data - B) div B)"
      using True assms by (simp add: le_div_geq)
    show ?thesis
      using less.hyps [of "drop B data" "h\<lparr> h_s := tr (h_s h) (take B data), h_bytes := h_bytes h + of_nat B \<rparr>"]
        True assms write_chunks.simps [of B tr h data] absorb.simps [of B tr "h_s h" data]
      by (simp add: rest_of_def d ac_simps)
  next
    case False
    then show ?thesis
      using write_chunks.simps [of B tr h data] by (simp add: absorb_short rest_of_def)
  qed
qed

lemma length_rest_of [simp]: "length (rest_of B m) = length m mod B"
  by (simp add: rest_of_def minus_mult_div_eq_mod)

lemma rest_of_append_aligned: "B dvd length m \<Longrightarrow> 0 < B \<Longrightarrow> rest_of B (m @ d) = rest_of B d"
  by (auto simp: rest_of_def add_mult_distrib2 elim!: dvdE)

lemma take_rest_of: "take (B * (length m div B)) m @ rest_of B m = m"
  by (simp add: rest_of_def)

lemma dvd_full_blocks: "B dvd length (take (B * (length m div B)) m)"
  by (simp add: min_absorb2)

lemma rest_of_Nil [simp]: "B dvd length m \<Longrightarrow> rest_of B m = []"
  by (simp add: rest_of_def)

lemma rest_of_short [simp]: "length m < B \<Longrightarrow> rest_of B m = m"
  by (simp add: rest_of_def)

text \<open>The contract of the hash classes: the block length divides \<open>2 ^ 64\<close> (so that the counter
  may wrap without harm) and the size field has its length.  The clients of a hasher only use the
  relation \<open>rep h m\<close>: \<open>h\<close> has been written the bytes \<open>m\<close>.\<close>

locale block_hasher =
  fixes B L :: nat and sz :: "u64 \<Rightarrow> bytes"
    and tr :: "'w list \<Rightarrow> bytes \<Rightarrow> 'w list" and out :: "'w list \<Rightarrow> bytes" and init :: "'w list"
  assumes B_dvd: "B dvd 2 ^ 64"
    and L_less: "L < B"
    and length_sz: "length (sz n) = L"
begin

lemma B_pos: "0 < B"
  using L_less by simp

definition rep :: "'w hasher \<Rightarrow> bytes \<Rightarrow> bool" where
  "rep h m \<longleftrightarrow> h_bytes h = of_nat (length m) \<and> h_s h = absorb B tr init m \<and>
     length (h_buf h) = B \<and> take (length m mod B) (h_buf h) = rest_of B m"

lemma rep_new: "rep (h_new B init) []"
  using B_pos by (simp add: rep_def h_new_def absorb_short)

lemma rep_reset: "length (h_buf h) = B \<Longrightarrow> rep (h_reset init h) []"
  using B_pos by (simp add: rep_def h_reset_def absorb_short)

lemma rep_bufsize: "rep h m \<Longrightarrow> unat (h_bytes h) mod B = length m mod B"
  using B_dvd by (simp add: rep_def unat_of_nat mod_mod_cancel)

lemma absorb_rest:
  "absorb B tr s (m @ d) = absorb B tr (absorb B tr s m) (rest_of B m @ d)"
proof -
  let ?f = "take (B * (length m div B)) m"
  have f: "B dvd length ?f" by (rule dvd_full_blocks)
  have "absorb B tr s (m @ d) = absorb B tr s (?f @ (rest_of B m @ d))"
    by (metis append.assoc take_rest_of)
  moreover have "absorb B tr s m = absorb B tr s ?f"
    by (metis absorb_append absorb_short B_pos f length_rest_of mod_less_divisor take_rest_of)
  ultimately show ?thesis using absorb_append [OF B_pos f] by simp
qed

lemma rest_append: "rest_of B (m @ d) = rest_of B (rest_of B m @ d)"
proof -
  let ?f = "take (B * (length m div B)) m"
  have f: "B dvd length ?f" by (rule dvd_full_blocks)
  show ?thesis
    by (metis append.assoc take_rest_of rest_of_append_aligned [OF f B_pos])
qed

lemma rep_aligned:
  assumes r: "rep h m" and a: "B dvd length m"
    and c: "write_chunks B tr h d = (h', d')"
  shows "rep (if length d' > 0
              then h'\<lparr> h_buf := take 0 (h_buf h') @ d' @ drop (0 + length d') (h_buf h'),
                      h_bytes := h_bytes h' + of_nat (length d') \<rparr> else h') (m @ d)"
proof -
  have d': "d' = rest_of B d" and h': "h' = h\<lparr> h_s := absorb B tr (h_s h) d,
      h_bytes := h_bytes h + of_nat (B * (length d div B)) \<rparr>"
    using c by (simp_all add: write_chunks_absorb [OF B_pos])
  have n: "of_nat (length m) + of_nat (B * (length d div B)) + of_nat (length d mod B)
      = (of_nat (length m + length d) :: u64)"
    by (metis (no_types) add.assoc div_mult_mod_eq mult.commute of_nat_add)
  have l: "(length m + length d) mod B = length d mod B" using a by (auto elim!: dvdE)
  have s: "absorb B tr init (m @ d) = absorb B tr (h_s h) d"
    using r absorb_append [OF B_pos a] by (simp add: rep_def)
  have lt: "length d mod B \<le> B" using B_pos by (simp add: less_imp_le)
  show ?thesis
    using r n lt unfolding rep_def d' h'
    by (auto simp: s l rest_of_append_aligned [OF a B_pos] add.assoc)
qed

lemma rep_write: 
  assumes r: "rep h m"
  shows "rep (h_write B tr h d) (m @ d)"
proof -
  let ?b = "length m mod B"
  have buf: "take ?b (h_buf h) = rest_of B m" and lb: "length (h_buf h) = B" 
    and hb: "h_bytes h = of_nat (length m)" and s: "h_s h = absorb B tr init m" using r by (simp_all add: rep_def)
  have b: "?b < B" using B_pos by simp
  consider (flush) "?b \<noteq> 0" "?b + length d \<ge> B" | (short) "?b \<noteq> 0" "?b + length d < B" | (zero) "?b = 0"
    by linarith
  then show ?thesis
  proof cases
    case flush
    let ?n = "B - ?b" let ?h = "h\<lparr> h_buf := rest_of B m @ take ?n d, h_bytes := h_bytes h + of_nat ?n,
        h_s := tr (h_s h) (rest_of B m @ take ?n d) \<rparr>"
    have l: "length (rest_of B m @ take ?n d) = B" using flush b by simp
    have a: "B dvd length (m @ take ?n d)"
    proof -
      have "length (take ?n d) = ?n" using flush by simp
      then have "length (m @ take ?n d) = length m - ?b + B"
        using b mod_less_eq_dividend [of "length m" B] unfolding length_append by linarith
      then show ?thesis by (simp add: minus_mod_eq_mult_div)
    qed
    have "rep ?h (m @ take ?n d)"
    proof -
      have "absorb B tr init (m @ take ?n d) = tr (h_s h) (rest_of B m @ take ?n d)"
        using l b B_pos absorb.simps [of B tr "h_s h" "rest_of B m @ take ?n d"]
        by (subst absorb_rest) (simp add: s absorb_short)
      then show ?thesis using a l flush hb by (auto simp: rep_def)
    qed
    moreover obtain h' d' where c: "write_chunks B tr ?h (drop ?n d) = (h', d')" by fastforce
    ultimately have "rep (if length d' > 0
              then h'\<lparr> h_buf := take 0 (h_buf h') @ d' @ drop (0 + length d') (h_buf h'),
                      h_bytes := h_bytes h' + of_nat (length d') \<rparr> else h') (m @ d)"
      using rep_aligned [OF _ a c] by simp
    then show ?thesis
      using flush c by (simp add: h_write_def rep_bufsize [OF r] buf Let_def)
  next
    case short
    have "write_chunks B tr h d = (h, d)" using short by (subst write_chunks.simps) simp
    then have "h_write B tr h d = (if length d > 0
        then h\<lparr> h_buf := take ?b (h_buf h) @ d @ drop (?b + length d) (h_buf h),
                h_bytes := h_bytes h + of_nat (length d) \<rparr> else h)"
      using short by (simp add: h_write_def rep_bufsize [OF r] Let_def)
    moreover have "(length m + length d) mod B = ?b + length d"
      using short by (metis mod_add_left_eq mod_less)
    moreover have "absorb B tr init (m @ d) = absorb B tr init m"
      using short by (subst absorb_rest) (simp add: absorb_short)
    moreover have "rest_of B (m @ d) = rest_of B m @ d" using short by (subst rest_append) simp
    ultimately show ?thesis using short r buf lb b by (auto simp: rep_def)
  next
    case zero
    obtain h' d' where c: "write_chunks B tr h d = (h', d')" by fastforce
    have "B dvd length m" using zero by (simp add: dvd_eq_mod_eq_0)
    from rep_aligned [OF r this c] show ?thesis
      using c by (simp add: h_write_def rep_bufsize [OF r] zero Let_def)
  qed
qed

lemma rep_writes: "rep h m \<Longrightarrow> rep (foldl (h_write B tr) h ds) (m @ concat ds)"
proof (induction ds arbitrary: h m)
  case (Cons d ds)
  show ?case using Cons.IH [OF rep_write [OF Cons.prems]] by simp
qed simp

lemma rep_finalize:
  assumes r: "rep h m"
  shows "snd (h_finalize B L sz tr out h) = out (absorb B tr init (md_pad B L sz m))"
    and "length (h_buf (fst (h_finalize B L sz tr out h))) = B"
proof -
  let ?k = "(2 * B - 1 - L - length m mod B) mod B"
  have k: "take (1 + ?k) (0x80 # replicate (B - 1) 0) = (0x80 # replicate ?k 0 :: bytes)"
    using B_pos by (simp add: min_def) (metis Suc_pred less_Suc_eq_le mod_less_divisor)
  have "rep (h_write B tr (h_write B tr h (0x80 # replicate ?k 0)) (sz (push_bit 3 (h_bytes h))))
      ((m @ (0x80 # replicate ?k 0)) @ sz (push_bit 3 (h_bytes h)))"
    by (intro rep_write r)
  then show "snd (h_finalize B L sz tr out h) = out (absorb B tr init (md_pad B L sz m))"
    and "length (h_buf (fst (h_finalize B L sz tr out h))) = B"
    using r unfolding h_finalize_def Let_def rep_bufsize [OF r] k
    by (simp_all add: rep_def md_pad_def)
qed

lemma pad_full_blocks: "B dvd length (md_pad B L sz m)"
proof -
  let ?r = "length m mod B"
  have r: "?r < B" using B_pos by simp
  have "(length m + (1 + (2 * B - 1 - L - ?r) mod B + L)) mod B = (?r + (1 + (2 * B - 1 - L - ?r) + L)) mod B"
    by (metis (no_types, lifting) mod_add_cong mod_add_left_eq mod_add_right_eq mod_mod_trivial)
  also have "?r + (1 + (2 * B - 1 - L - ?r) + L) = 2 * B" using r L_less by linarith
  finally show ?thesis by (simp add: md_pad_def length_sz mod_eq_0_iff_dvd ac_simps)
qed

lemma digest_writes:
  "snd (h_finalize B L sz tr out (foldl (h_write B tr) (h_new B init) ds)) =
     out (absorb B tr init (md_pad B L sz (concat ds)))"
  using rep_finalize(1) [OF rep_writes [OF rep_new]] by simp

end

section \<open>SHA-256\<close>

definition sha256_Ch :: "u32 \<Rightarrow> u32 \<Rightarrow> u32 \<Rightarrow> u32" where
  "sha256_Ch x y z = z XOR (x AND (y XOR z))"
definition sha256_Maj :: "u32 \<Rightarrow> u32 \<Rightarrow> u32 \<Rightarrow> u32" where
  "sha256_Maj x y z = (x AND y) OR (z AND (x OR y))"
definition sha256_Sigma0 :: "u32 \<Rightarrow> u32" where
  "sha256_Sigma0 x = (drop_bit 2 x OR push_bit 30 x) XOR (drop_bit 13 x OR push_bit 19 x)
     XOR (drop_bit 22 x OR push_bit 10 x)"
definition sha256_Sigma1 :: "u32 \<Rightarrow> u32" where
  "sha256_Sigma1 x = (drop_bit 6 x OR push_bit 26 x) XOR (drop_bit 11 x OR push_bit 21 x)
     XOR (drop_bit 25 x OR push_bit 7 x)"
definition sha256_sigma0 :: "u32 \<Rightarrow> u32" where
  "sha256_sigma0 x = (drop_bit 7 x OR push_bit 25 x) XOR (drop_bit 18 x OR push_bit 14 x)
     XOR drop_bit 3 x"
definition sha256_sigma1 :: "u32 \<Rightarrow> u32" where
  "sha256_sigma1 x = (drop_bit 17 x OR push_bit 15 x) XOR (drop_bit 19 x OR push_bit 13 x)
     XOR drop_bit 10 x"

text \<open>The round constants, eight to a row.\<close>

definition sha256_K :: "u32 list" where
  "sha256_K = concat [
     [0x428a2f98, 0x71374491, 0xb5c0fbcf, 0xe9b5dba5,
      0x3956c25b, 0x59f111f1, 0x923f82a4, 0xab1c5ed5],
     [0xd807aa98, 0x12835b01, 0x243185be, 0x550c7dc3,
      0x72be5d74, 0x80deb1fe, 0x9bdc06a7, 0xc19bf174],
     [0xe49b69c1, 0xefbe4786, 0x0fc19dc6, 0x240ca1cc,
      0x2de92c6f, 0x4a7484aa, 0x5cb0a9dc, 0x76f988da],
     [0x983e5152, 0xa831c66d, 0xb00327c8, 0xbf597fc7,
      0xc6e00bf3, 0xd5a79147, 0x06ca6351, 0x14292967],
     [0x27b70a85, 0x2e1b2138, 0x4d2c6dfc, 0x53380d13,
      0x650a7354, 0x766a0abb, 0x81c2c92e, 0x92722c85],
     [0xa2bfe8a1, 0xa81a664b, 0xc24b8b70, 0xc76c51a3,
      0xd192e819, 0xd6990624, 0xf40e3585, 0x106aa070],
     [0x19a4c116, 0x1e376c08, 0x2748774c, 0x34b0bcb5,
      0x391c0cb3, 0x4ed8aa4a, 0x5b9cca4f, 0x682e6ff3],
     [0x748f82ee, 0x78a5636f, 0x84c87814, 0x8cc70208,
      0x90befffa, 0xa4506ceb, 0xbef9a3f7, 0xc67178f2]]"

definition sha256_Initialize :: "u32 list" where
  "sha256_Initialize = [
     0x6a09e667, 0xbb67ae85, 0x3c6ef372, 0xa54ff53a, 0x510e527f, 0x9b05688c, 0x1f83d9ab,
     0x5be0cd19]"

text \<open>\<open>v ! cell8 i p\<close> is the variable passed as the \<open>p\<close>-th argument of round \<open>i\<close>.\<close>

definition cell8 :: "nat \<Rightarrow> nat \<Rightarrow> nat" where
  "cell8 i p = (p + 8 - i mod 8) mod 8"

definition sha256_Round :: "u32 list \<Rightarrow> nat \<Rightarrow> u32 \<Rightarrow> u32 \<Rightarrow> u32 list" where
  "sha256_Round v i k w =
     (let a = v ! cell8 i 0; b = v ! cell8 i 1; c = v ! cell8 i 2; d = v ! cell8 i 3;
          e = v ! cell8 i 4; f = v ! cell8 i 5; g = v ! cell8 i 6; h = v ! cell8 i 7;
          t1 = h + sha256_Sigma1 e + sha256_Ch e f g + k + w;
          t2 = sha256_Sigma0 a + sha256_Maj a b c
      in v[cell8 i 3 := d + t1, cell8 i 7 := t1 + t2])"

text \<open>The message word of round \<open>i\<close>, stored in \<open>w(i mod 16)\<close>.\<close>

definition sha256_word :: "bytes \<Rightarrow> u32 list \<Rightarrow> nat \<Rightarrow> u32" where
  "sha256_word chunk w i =
     (if i < 16 then ReadBE32 (drop (4 * i) chunk)
      else w ! (i mod 16) + (sha256_sigma1 (w ! ((i + 14) mod 16)) + w ! ((i + 9) mod 16)
             + sha256_sigma0 (w ! ((i + 1) mod 16))))"

definition sha256_step :: "bytes \<Rightarrow> u32 list \<times> u32 list \<Rightarrow> nat \<Rightarrow> u32 list \<times> u32 list" where
  "sha256_step chunk st i =
     (let (v, w) = st; x = sha256_word chunk w i
      in (sha256_Round v i (sha256_K ! i) x, w[i mod 16 := x]))"

definition sha256_Transform :: "u32 list \<Rightarrow> bytes \<Rightarrow> u32 list" where
  "sha256_Transform s chunk =
     map2 (+) s (fst (foldl (sha256_step chunk) (s, replicate 16 0) [0..<64]))"

definition BE32s :: "u32 list \<Rightarrow> bytes" where
  "BE32s s = concat (map WriteBE32 s)"

definition CSHA256 :: "u32 hasher" where
  "CSHA256 = h_new 64 sha256_Initialize"
definition CSHA256_Write :: "u32 hasher \<Rightarrow> bytes \<Rightarrow> u32 hasher" where
  "CSHA256_Write = h_write 64 sha256_Transform"
definition CSHA256_Finalize :: "u32 hasher \<Rightarrow> u32 hasher \<times> bytes" where
  "CSHA256_Finalize = h_finalize 64 8 WriteBE64 sha256_Transform BE32s"
definition CSHA256_Reset :: "u32 hasher \<Rightarrow> u32 hasher" where
  "CSHA256_Reset = h_reset sha256_Initialize"

section \<open>SHA-512\<close>

definition sha512_Ch :: "u64 \<Rightarrow> u64 \<Rightarrow> u64 \<Rightarrow> u64" where
  "sha512_Ch x y z = z XOR (x AND (y XOR z))"
definition sha512_Maj :: "u64 \<Rightarrow> u64 \<Rightarrow> u64 \<Rightarrow> u64" where
  "sha512_Maj x y z = (x AND y) OR (z AND (x OR y))"
definition sha512_Sigma0 :: "u64 \<Rightarrow> u64" where
  "sha512_Sigma0 x = (drop_bit 28 x OR push_bit 36 x) XOR (drop_bit 34 x OR push_bit 30 x)
     XOR (drop_bit 39 x OR push_bit 25 x)"
definition sha512_Sigma1 :: "u64 \<Rightarrow> u64" where
  "sha512_Sigma1 x = (drop_bit 14 x OR push_bit 50 x) XOR (drop_bit 18 x OR push_bit 46 x)
     XOR (drop_bit 41 x OR push_bit 23 x)"
definition sha512_sigma0 :: "u64 \<Rightarrow> u64" where
  "sha512_sigma0 x = (drop_bit 1 x OR push_bit 63 x) XOR (drop_bit 8 x OR push_bit 56 x)
     XOR drop_bit 7 x"
definition sha512_sigma1 :: "u64 \<Rightarrow> u64" where
  "sha512_sigma1 x = (drop_bit 19 x OR push_bit 45 x) XOR (drop_bit 61 x OR push_bit 3 x)
     XOR drop_bit 6 x"

definition sha512_K :: "u64 list" where
  "sha512_K = concat [
     [0x428a2f98d728ae22, 0x7137449123ef65cd, 0xb5c0fbcfec4d3b2f, 0xe9b5dba58189dbbc,
      0x3956c25bf348b538, 0x59f111f1b605d019, 0x923f82a4af194f9b, 0xab1c5ed5da6d8118],
     [0xd807aa98a3030242, 0x12835b0145706fbe, 0x243185be4ee4b28c, 0x550c7dc3d5ffb4e2,
      0x72be5d74f27b896f, 0x80deb1fe3b1696b1, 0x9bdc06a725c71235, 0xc19bf174cf692694],
     [0xe49b69c19ef14ad2, 0xefbe4786384f25e3, 0x0fc19dc68b8cd5b5, 0x240ca1cc77ac9c65,
      0x2de92c6f592b0275, 0x4a7484aa6ea6e483, 0x5cb0a9dcbd41fbd4, 0x76f988da831153b5],
     [0x983e5152ee66dfab, 0xa831c66d2db43210, 0xb00327c898fb213f, 0xbf597fc7beef0ee4,
      0xc6e00bf33da88fc2, 0xd5a79147930aa725, 0x06ca6351e003826f, 0x142929670a0e6e70],
     [0x27b70a8546d22ffc, 0x2e1b21385c26c926, 0x4d2c6dfc5ac42aed, 0x53380d139d95b3df,
      0x650a73548baf63de, 0x766a0abb3c77b2a8, 0x81c2c92e47edaee6, 0x92722c851482353b],
     [0xa2bfe8a14cf10364, 0xa81a664bbc423001, 0xc24b8b70d0f89791, 0xc76c51a30654be30,
      0xd192e819d6ef5218, 0xd69906245565a910, 0xf40e35855771202a, 0x106aa07032bbd1b8],
     [0x19a4c116b8d2d0c8, 0x1e376c085141ab53, 0x2748774cdf8eeb99, 0x34b0bcb5e19b48a8,
      0x391c0cb3c5c95a63, 0x4ed8aa4ae3418acb, 0x5b9cca4f7763e373, 0x682e6ff3d6b2b8a3],
     [0x748f82ee5defb2fc, 0x78a5636f43172f60, 0x84c87814a1f0ab72, 0x8cc702081a6439ec,
      0x90befffa23631e28, 0xa4506cebde82bde9, 0xbef9a3f7b2c67915, 0xc67178f2e372532b],
     [0xca273eceea26619c, 0xd186b8c721c0c207, 0xeada7dd6cde0eb1e, 0xf57d4f7fee6ed178,
      0x06f067aa72176fba, 0x0a637dc5a2c898a6, 0x113f9804bef90dae, 0x1b710b35131c471b],
     [0x28db77f523047d84, 0x32caab7b40c72493, 0x3c9ebe0a15c9bebc, 0x431d67c49c100d4c,
      0x4cc5d4becb3e42b6, 0x597f299cfc657e2a, 0x5fcb6fab3ad6faec, 0x6c44198c4a475817]]"

definition sha512_Initialize :: "u64 list" where
  "sha512_Initialize = [
     0x6a09e667f3bcc908, 0xbb67ae8584caa73b, 0x3c6ef372fe94f82b, 0xa54ff53a5f1d36f1,
     0x510e527fade682d1, 0x9b05688c2b3e6c1f, 0x1f83d9abfb41bd6b, 0x5be0cd19137e2179]"

definition sha512_Round :: "u64 list \<Rightarrow> nat \<Rightarrow> u64 \<Rightarrow> u64 \<Rightarrow> u64 list" where
  "sha512_Round v i k w =
     (let a = v ! cell8 i 0; b = v ! cell8 i 1; c = v ! cell8 i 2; d = v ! cell8 i 3;
          e = v ! cell8 i 4; f = v ! cell8 i 5; g = v ! cell8 i 6; h = v ! cell8 i 7;
          t1 = h + sha512_Sigma1 e + sha512_Ch e f g + k + w;
          t2 = sha512_Sigma0 a + sha512_Maj a b c
      in v[cell8 i 3 := d + t1, cell8 i 7 := t1 + t2])"

definition sha512_word :: "bytes \<Rightarrow> u64 list \<Rightarrow> nat \<Rightarrow> u64" where
  "sha512_word chunk w i =
     (if i < 16 then ReadBE64 (drop (8 * i) chunk)
      else w ! (i mod 16) + (sha512_sigma1 (w ! ((i + 14) mod 16)) + w ! ((i + 9) mod 16)
             + sha512_sigma0 (w ! ((i + 1) mod 16))))"

definition sha512_step :: "bytes \<Rightarrow> u64 list \<times> u64 list \<Rightarrow> nat \<Rightarrow> u64 list \<times> u64 list" where
  "sha512_step chunk st i =
     (let (v, w) = st; x = sha512_word chunk w i
      in (sha512_Round v i (sha512_K ! i) x, w[i mod 16 := x]))"

definition sha512_Transform :: "u64 list \<Rightarrow> bytes \<Rightarrow> u64 list" where
  "sha512_Transform s chunk =
     map2 (+) s (fst (foldl (sha512_step chunk) (s, replicate 16 0) [0..<80]))"

definition BE64s :: "u64 list \<Rightarrow> bytes" where
  "BE64s s = concat (map WriteBE64 s)"

definition sha512_sizedesc :: "u64 \<Rightarrow> bytes" where
  "sha512_sizedesc n = replicate 8 0 @ WriteBE64 n"

definition CSHA512 :: "u64 hasher" where
  "CSHA512 = h_new 128 sha512_Initialize"
definition CSHA512_Write :: "u64 hasher \<Rightarrow> bytes \<Rightarrow> u64 hasher" where
  "CSHA512_Write = h_write 128 sha512_Transform"
definition CSHA512_Finalize :: "u64 hasher \<Rightarrow> u64 hasher \<times> bytes" where
  "CSHA512_Finalize = h_finalize 128 16 sha512_sizedesc sha512_Transform BE64s"
definition CSHA512_Reset :: "u64 hasher \<Rightarrow> u64 hasher" where
  "CSHA512_Reset = h_reset sha512_Initialize"

section \<open>SHA-1\<close>

definition cell5 :: "nat \<Rightarrow> nat \<Rightarrow> nat" where
  "cell5 i p = (p + 5 - i mod 5) mod 5"

definition sha1_f1 :: "u32 \<Rightarrow> u32 \<Rightarrow> u32 \<Rightarrow> u32" where "sha1_f1 b c d = d XOR (b AND (c XOR d))"
definition sha1_f2 :: "u32 \<Rightarrow> u32 \<Rightarrow> u32 \<Rightarrow> u32" where "sha1_f2 b c d = b XOR c XOR d"
definition sha1_f3 :: "u32 \<Rightarrow> u32 \<Rightarrow> u32 \<Rightarrow> u32" where "sha1_f3 b c d = (b AND c) OR (d AND (b OR c))"
definition sha1_left :: "u32 \<Rightarrow> u32" where "sha1_left x = push_bit 1 x OR drop_bit 31 x"

definition sha1_Initialize :: "u32 list" where
  "sha1_Initialize = [0x67452301, 0xEFCDAB89, 0x98BADCFE, 0x10325476, 0xC3D2E1F0]"

text \<open>The function and the constant of each group of twenty rounds.\<close>

definition sha1_f :: "nat \<Rightarrow> u32 \<Rightarrow> u32 \<Rightarrow> u32 \<Rightarrow> u32" where
  "sha1_f i = (if i < 20 then sha1_f1 else if i < 40 then sha1_f2 else if i < 60 then sha1_f3
               else sha1_f2)"
definition sha1_k :: "nat \<Rightarrow> u32" where
  "sha1_k i = (if i < 20 then 0x5A827999 else if i < 40 then 0x6ED9EBA1 else if i < 60 then 0x8F1BBCDC
               else 0xCA62C1D6)"

definition sha1_Round :: "u32 list \<Rightarrow> nat \<Rightarrow> u32 \<Rightarrow> u32 list" where
  "sha1_Round v i w =
     (let a = v ! cell5 i 0; b = v ! cell5 i 1; c = v ! cell5 i 2; d = v ! cell5 i 3;
          e = v ! cell5 i 4
      in v[cell5 i 4 := e + ((push_bit 5 a OR drop_bit 27 a) + sha1_f i b c d + sha1_k i + w),
           cell5 i 1 := push_bit 30 b OR drop_bit 2 b])"

definition sha1_word :: "bytes \<Rightarrow> u32 list \<Rightarrow> nat \<Rightarrow> u32" where
  "sha1_word chunk w i =
     (if i < 16 then ReadBE32 (drop (4 * i) chunk)
      else sha1_left (w ! (i mod 16) XOR w ! ((i + 13) mod 16) XOR w ! ((i + 8) mod 16)
             XOR w ! ((i + 2) mod 16)))"

definition sha1_step :: "bytes \<Rightarrow> u32 list \<times> u32 list \<Rightarrow> nat \<Rightarrow> u32 list \<times> u32 list" where
  "sha1_step chunk st i =
     (let (v, w) = st; x = sha1_word chunk w i in (sha1_Round v i x, w[i mod 16 := x]))"

definition sha1_Transform :: "u32 list \<Rightarrow> bytes \<Rightarrow> u32 list" where
  "sha1_Transform s chunk =
     map2 (+) s (fst (foldl (sha1_step chunk) (s, replicate 16 0) [0..<80]))"

definition CSHA1 :: "u32 hasher" where
  "CSHA1 = h_new 64 sha1_Initialize"
definition CSHA1_Write :: "u32 hasher \<Rightarrow> bytes \<Rightarrow> u32 hasher" where
  "CSHA1_Write = h_write 64 sha1_Transform"
definition CSHA1_Finalize :: "u32 hasher \<Rightarrow> u32 hasher \<times> bytes" where
  "CSHA1_Finalize = h_finalize 64 8 WriteBE64 sha1_Transform BE32s"
definition CSHA1_Reset :: "u32 hasher \<Rightarrow> u32 hasher" where
  "CSHA1_Reset = h_reset sha1_Initialize"

section \<open>RIPEMD-160\<close>

definition rmd_f1 :: "u32 \<Rightarrow> u32 \<Rightarrow> u32 \<Rightarrow> u32" where "rmd_f1 x y z = x XOR y XOR z"
definition rmd_f2 :: "u32 \<Rightarrow> u32 \<Rightarrow> u32 \<Rightarrow> u32" where "rmd_f2 x y z = (x AND y) OR (NOT x AND z)"
definition rmd_f3 :: "u32 \<Rightarrow> u32 \<Rightarrow> u32 \<Rightarrow> u32" where "rmd_f3 x y z = (x OR NOT y) XOR z"
definition rmd_f4 :: "u32 \<Rightarrow> u32 \<Rightarrow> u32 \<Rightarrow> u32" where "rmd_f4 x y z = (x AND z) OR (y AND NOT z)"
definition rmd_f5 :: "u32 \<Rightarrow> u32 \<Rightarrow> u32 \<Rightarrow> u32" where "rmd_f5 x y z = x XOR (y OR NOT z)"

definition rmd_Initialize :: "u32 list" where
  "rmd_Initialize = [0x67452301, 0xEFCDAB89, 0x98BADCFE, 0x10325476, 0xC3D2E1F0]"

definition rmd_rol :: "u32 \<Rightarrow> nat \<Rightarrow> u32" where
  "rmd_rol x i = push_bit i x OR drop_bit (32 - i) x"

text \<open>One of \<open>R11..R52\<close>: \<open>f\<close> and \<open>k\<close> as the group has them, message word \<open>x\<close>, rotation
  \<open>r\<close>.\<close>

definition rmd_Round :: "(u32 \<Rightarrow> u32 \<Rightarrow> u32 \<Rightarrow> u32) \<Rightarrow> u32 \<Rightarrow> u32 list \<Rightarrow> nat \<Rightarrow> u32 \<Rightarrow> nat \<Rightarrow> u32 list" where
  "rmd_Round f k v i x r =
     (let a = v ! cell5 i 0; b = v ! cell5 i 1; c = v ! cell5 i 2; d = v ! cell5 i 3;
          e = v ! cell5 i 4
      in v[cell5 i 0 := rmd_rol (a + f b c d + x + k) r + e, cell5 i 2 := rmd_rol c 10])"

definition rmd_R1 :: "nat \<Rightarrow> u32 list \<Rightarrow> nat \<Rightarrow> u32 \<Rightarrow> nat \<Rightarrow> u32 list" where
  "rmd_R1 g = (if g = 0 then rmd_Round rmd_f1 0 else if g = 1 then rmd_Round rmd_f2 0x5A827999
     else if g = 2 then rmd_Round rmd_f3 0x6ED9EBA1 else if g = 3 then rmd_Round rmd_f4 0x8F1BBCDC
     else rmd_Round rmd_f5 0xA953FD4E)"

definition rmd_R2 :: "nat \<Rightarrow> u32 list \<Rightarrow> nat \<Rightarrow> u32 \<Rightarrow> nat \<Rightarrow> u32 list" where
  "rmd_R2 g = (if g = 0 then rmd_Round rmd_f5 0x50A28BE6 else if g = 1 then rmd_Round rmd_f4 0x5C4DD124
     else if g = 2 then rmd_Round rmd_f3 0x6D703EF3 else if g = 3 then rmd_Round rmd_f2 0x7A6D76E9
     else rmd_Round rmd_f1 0)"

text \<open>The message word and the rotation of every call, in the order of the calls.\<close>

definition rmd_w1 :: "nat list" where
  "rmd_w1 = [
     0, 1, 2, 3, 4, 5, 6, 7, 8, 9, 10, 11, 12, 13, 14, 15, 7, 4, 13, 1, 10, 6, 15, 3, 12, 0, 9,
     5, 2, 14, 11, 8, 3, 10, 14, 4, 9, 15, 8, 1, 2, 7, 0, 6, 13, 11, 5, 12, 1, 9, 11, 10, 0, 8,
     12, 4, 13, 3, 7, 15, 14, 5, 6, 2, 4, 0, 5, 9, 7, 12, 2, 10, 14, 1, 3, 8, 11, 6, 15, 13]"
definition rmd_r1 :: "nat list" where
  "rmd_r1 = [
     11, 14, 15, 12, 5, 8, 7, 9, 11, 13, 14, 15, 6, 7, 9, 8, 7, 6, 8, 13, 11, 9, 7, 15, 7, 12,
     15, 9, 11, 7, 13, 12, 11, 13, 6, 7, 14, 9, 13, 15, 14, 8, 13, 6, 5, 12, 7, 5, 11, 12, 14,
     15, 14, 15, 9, 8, 9, 14, 5, 6, 8, 6, 5, 12, 9, 15, 5, 11, 6, 8, 13, 12, 5, 12, 13, 14, 11,
     8, 5, 6]"
definition rmd_w2 :: "nat list" where
  "rmd_w2 = [
     5, 14, 7, 0, 9, 2, 11, 4, 13, 6, 15, 8, 1, 10, 3, 12, 6, 11, 3, 7, 0, 13, 5, 10, 14, 15,
     8, 12, 4, 9, 1, 2, 15, 5, 1, 3, 7, 14, 6, 9, 11, 8, 12, 2, 10, 0, 4, 13, 8, 6, 4, 1, 3,
     11, 15, 0, 5, 12, 2, 13, 9, 7, 10, 14, 12, 15, 10, 4, 1, 5, 8, 7, 6, 2, 13, 14, 0, 3, 9, 11]"
definition rmd_r2 :: "nat list" where
  "rmd_r2 = [
     8, 9, 9, 11, 13, 15, 15, 5, 7, 7, 8, 11, 14, 14, 12, 6, 9, 13, 15, 7, 12, 8, 9, 11, 7, 7,
     12, 7, 6, 15, 13, 11, 9, 7, 15, 11, 8, 6, 6, 14, 12, 13, 5, 14, 13, 13, 7, 5, 15, 5, 8,
     11, 14, 14, 6, 14, 6, 9, 12, 9, 12, 5, 15, 8, 8, 5, 12, 9, 12, 5, 14, 6, 8, 13, 6, 5, 15,
     13, 11, 11]"

definition rmd_step :: "bytes \<Rightarrow> u32 list \<times> u32 list \<Rightarrow> nat \<Rightarrow> u32 list \<times> u32 list" where
  "rmd_step chunk st i =
     (let (v1, v2) = st; w = (\<lambda>j. ReadLE32 (drop (4 * j) chunk))
      in (rmd_R1 (i div 16) v1 i (w (rmd_w1 ! i)) (rmd_r1 ! i),
          rmd_R2 (i div 16) v2 i (w (rmd_w2 ! i)) (rmd_r2 ! i)))"

definition rmd_Transform :: "u32 list \<Rightarrow> bytes \<Rightarrow> u32 list" where
  "rmd_Transform s chunk =
     (let (v1, v2) = foldl (rmd_step chunk) (s, s) [0..<80]
      in [s ! 1 + v1 ! 2 + v2 ! 3, s ! 2 + v1 ! 3 + v2 ! 4, s ! 3 + v1 ! 4 + v2 ! 0,
          s ! 4 + v1 ! 0 + v2 ! 1, s ! 0 + v1 ! 1 + v2 ! 2])"

definition LE32s :: "u32 list \<Rightarrow> bytes" where
  "LE32s s = concat (map WriteLE32 s)"

definition CRIPEMD160 :: "u32 hasher" where
  "CRIPEMD160 = h_new 64 rmd_Initialize"
definition CRIPEMD160_Write :: "u32 hasher \<Rightarrow> bytes \<Rightarrow> u32 hasher" where
  "CRIPEMD160_Write = h_write 64 rmd_Transform"
definition CRIPEMD160_Finalize :: "u32 hasher \<Rightarrow> u32 hasher \<times> bytes" where
  "CRIPEMD160_Finalize = h_finalize 64 8 WriteLE64 rmd_Transform LE32s"
definition CRIPEMD160_Reset :: "u32 hasher \<Rightarrow> u32 hasher" where
  "CRIPEMD160_Reset = h_reset rmd_Initialize"

section \<open>Double hashes, MurmurHash3 and HMAC\<close>

definition CHash256_Finalize :: "u32 hasher \<Rightarrow> u32 hasher \<times> bytes" where
  "CHash256_Finalize sha =
     (let (sha, buf) = CSHA256_Finalize sha
      in CSHA256_Finalize (CSHA256_Write (CSHA256_Reset sha) buf))"

definition CHash512_Finalize :: "u64 hasher \<Rightarrow> u64 hasher \<times> bytes" where
  "CHash512_Finalize sha =
     (let (sha, buf) = CSHA512_Finalize sha
      in CSHA512_Finalize (CSHA512_Write (CSHA512_Reset sha) buf))"

definition CHash160_Finalize :: "u32 hasher \<Rightarrow> u32 hasher \<times> bytes" where
  "CHash160_Finalize sha =
     (let (sha, buf) = CSHA256_Finalize sha
      in (sha, snd (CRIPEMD160_Finalize (CRIPEMD160_Write CRIPEMD160 buf))))"

text \<open>\<open>Hash\<close> of one range and of the concatenation of two, as the 32 bytes written into the result.\<close>

definition Hash_bytes :: "bytes \<Rightarrow> bytes" where
  "Hash_bytes p = snd (CHash256_Finalize (CSHA256_Write CSHA256 p))"

definition Hash2_bytes :: "bytes \<Rightarrow> bytes \<Rightarrow> bytes" where
  "Hash2_bytes p q = snd (CHash256_Finalize (CSHA256_Write (CSHA256_Write CSHA256 p) q))"

text \<open>The overloads for three to six ranges, as a list of ranges.\<close>

definition HashN_bytes :: "bytes list \<Rightarrow> bytes" where
  "HashN_bytes ps = snd (CHash256_Finalize (foldl CSHA256_Write CSHA256 ps))"

definition Hash160_bytes :: "bytes \<Rightarrow> bytes" where
  "Hash160_bytes p = snd (CHash160_Finalize (CSHA256_Write CSHA256 p))"

definition Hash512_bytes :: "bytes \<Rightarrow> bytes" where
  "Hash512_bytes p = snd (CHash512_Finalize (CSHA512_Write CSHA512 p))"

definition Hash512_2_bytes :: "bytes \<Rightarrow> bytes \<Rightarrow> bytes" where
  "Hash512_2_bytes p q = snd (CHash512_Finalize (CSHA512_Write (CSHA512_Write CSHA512 p) q))"

text \<open>\<open>CHashWriter\<close>: every \<open>write\<close> of a serialization goes to the hasher.\<close>

definition HashWriter :: "bytes list \<Rightarrow> limbs" where
  "HashWriter pieces = limbs_of_bytes (snd (CHash256_Finalize (foldl CSHA256_Write CSHA256 pieces)))"

definition ROTL32 :: "u32 \<Rightarrow> nat \<Rightarrow> u32" where
  "ROTL32 x r = push_bit r x OR drop_bit (32 - r) x"

definition murmur_mix :: "u32 \<Rightarrow> u32" where
  "murmur_mix k1 = ROTL32 (k1 * 0xcc9e2d51) 15 * 0x1b873593"

fun murmur_body :: "u32 \<Rightarrow> u32 list \<Rightarrow> u32" where
  "murmur_body h1 [] = h1"
| "murmur_body h1 (k1 # blocks) =
     murmur_body (ROTL32 (h1 XOR murmur_mix k1) 13 * 5 + 0xe6546b64) blocks"

definition murmur_tail :: "u32 \<Rightarrow> bytes \<Rightarrow> u32" where
  "murmur_tail h1 tail =
     (if tail = [] then h1
      else let k1 = (if length tail = 3 then push_bit 16 (ucast (tail ! 2)) else 0);
               k1 = (if length tail \<ge> 2 then k1 XOR push_bit 8 (ucast (tail ! 1)) else k1);
               k1 = k1 XOR ucast (tail ! 0)
           in h1 XOR murmur_mix k1)"

definition murmur_final :: "u32 \<Rightarrow> nat \<Rightarrow> u32" where
  "murmur_final h1 n =
     (let h1 = h1 XOR of_nat n;
          h1 = h1 XOR drop_bit 16 h1; h1 = h1 * 0x85ebca6b;
          h1 = h1 XOR drop_bit 13 h1; h1 = h1 * 0xc2b2ae35
      in h1 XOR drop_bit 16 h1)"

definition MurmurHash3 :: "u32 \<Rightarrow> bytes \<Rightarrow> u32" where
  "MurmurHash3 nHashSeed v =
     (let nblocks = length v div 4;
          h1 = (if length v > 0
                then murmur_tail (murmur_body nHashSeed (limbs_of_bytes (take (4 * nblocks) v)))
                       (drop (4 * nblocks) v)
                else nHashSeed)
      in murmur_final h1 (length v))"

record 'w hmac =
  hm_outer :: "'w hasher"
  hm_inner :: "'w hasher"

definition CHMAC_SHA256 :: "bytes \<Rightarrow> u32 hmac" where
  "CHMAC_SHA256 key =
     (let rkey = (if length key \<le> 64 then key @ replicate (64 - length key) 0
                  else snd (CSHA256_Finalize (CSHA256_Write CSHA256 key)) @ replicate 32 0);
          rkey = map (\<lambda>b. b XOR 0x5c) rkey;
          outer = CSHA256_Write CSHA256 rkey;
          rkey = map (\<lambda>b. b XOR (0x5c XOR 0x36)) rkey;
          inner = CSHA256_Write CSHA256 rkey
      in \<lparr> hm_outer = outer, hm_inner = inner \<rparr>)"

definition CHMAC_SHA256_Write :: "u32 hmac \<Rightarrow> bytes \<Rightarrow> u32 hmac" where
  "CHMAC_SHA256_Write m data = m\<lparr> hm_inner := CSHA256_Write (hm_inner m) data \<rparr>"

definition CHMAC_SHA256_Finalize :: "u32 hmac \<Rightarrow> bytes" where
  "CHMAC_SHA256_Finalize m =
     (let temp = snd (CSHA256_Finalize (hm_inner m))
      in snd (CSHA256_Finalize (CSHA256_Write (hm_outer m) temp)))"

definition CHMAC_SHA512 :: "bytes \<Rightarrow> u64 hmac" where
  "CHMAC_SHA512 key =
     (let rkey = (if length key \<le> 128 then key @ replicate (128 - length key) 0
                  else snd (CSHA512_Finalize (CSHA512_Write CSHA512 key)) @ replicate 64 0);
          rkey = map (\<lambda>b. b XOR 0x5c) rkey;
          outer = CSHA512_Write CSHA512 rkey;
          rkey = map (\<lambda>b. b XOR (0x5c XOR 0x36)) rkey;
          inner = CSHA512_Write CSHA512 rkey
      in \<lparr> hm_outer = outer, hm_inner = inner \<rparr>)"

definition CHMAC_SHA512_Write :: "u64 hmac \<Rightarrow> bytes \<Rightarrow> u64 hmac" where
  "CHMAC_SHA512_Write m data = m\<lparr> hm_inner := CSHA512_Write (hm_inner m) data \<rparr>"

definition CHMAC_SHA512_Finalize :: "u64 hmac \<Rightarrow> bytes" where
  "CHMAC_SHA512_Finalize m =
     (let temp = snd (CSHA512_Finalize (hm_inner m))
      in snd (CSHA512_Finalize (CSHA512_Write (hm_outer m) temp)))"

definition BIP32Hash :: "bytes \<Rightarrow> u32 \<Rightarrow> u8 \<Rightarrow> bytes \<Rightarrow> bytes" where
  "BIP32Hash chainCode nChild header data =
     (let num = [ucast (drop_bit 24 nChild AND 0xff), ucast (drop_bit 16 nChild AND 0xff),
                 ucast (drop_bit 8 nChild AND 0xff), ucast (nChild AND 0xff)]
      in CHMAC_SHA512_Finalize (CHMAC_SHA512_Write (CHMAC_SHA512_Write
           (CHMAC_SHA512_Write (CHMAC_SHA512 chainCode) [header]) data) num))"

section \<open>The unrolled compression functions against the standard\<close>

text \<open>FIPS 180-4 for the SHA-2 functions, over the word size and the six mixing functions: the
  message schedule as the recurrence on all its words, the round as a shift of the eight working
  variables.  The contract \<open>sha2_rounds\<close> is the shape of the code: eight cells that never move,
  renamed from round to round, and sixteen message words overwritten in place.\<close>

function sha2_W :: "('a::len word \<Rightarrow> 'a word) \<Rightarrow> ('a word \<Rightarrow> 'a word) \<Rightarrow> (nat \<Rightarrow> 'a word) \<Rightarrow> nat \<Rightarrow> 'a word"
where
  "sha2_W s0 s1 M t =
     (if t < 16 then M t
      else s1 (sha2_W s0 s1 M (t - 2)) + sha2_W s0 s1 M (t - 7) + s0 (sha2_W s0 s1 M (t - 15))
           + sha2_W s0 s1 M (t - 16))"
  by auto
termination
  by (relation "measure (\<lambda>(s0, s1, M, t). t)") auto

declare sha2_W.simps [simp del]

definition sha2_regs ::
  "('a::len word \<Rightarrow> 'a word) \<Rightarrow> ('a word \<Rightarrow> 'a word) \<Rightarrow> ('a word \<Rightarrow> 'a word \<Rightarrow> 'a word \<Rightarrow> 'a word)
   \<Rightarrow> ('a word \<Rightarrow> 'a word \<Rightarrow> 'a word \<Rightarrow> 'a word) \<Rightarrow> 'a word \<Rightarrow> 'a word list \<Rightarrow> 'a word list"
where
  "sha2_regs S0 S1 Ch Maj kw v =
     (case v of [a, b, c, d, e, f, g, h] \<Rightarrow>
        let T1 = h + S1 e + Ch e f g + kw; T2 = S0 a + Maj a b c
        in [T1 + T2, a, b, c, d + T1, e, f, g]
      | _ \<Rightarrow> v)"

definition sha2_compress ::
  "('a::len word \<Rightarrow> 'a word) \<Rightarrow> ('a word \<Rightarrow> 'a word) \<Rightarrow> ('a word \<Rightarrow> 'a word \<Rightarrow> 'a word \<Rightarrow> 'a word)
   \<Rightarrow> ('a word \<Rightarrow> 'a word \<Rightarrow> 'a word \<Rightarrow> 'a word) \<Rightarrow> 'a word list \<Rightarrow> (nat \<Rightarrow> 'a word) \<Rightarrow> 'a word list \<Rightarrow> 'a word list"
where
  "sha2_compress S0 S1 Ch Maj K W s =
     map2 (+) s (foldl (\<lambda>v t. sha2_regs S0 S1 Ch Maj (K ! t + W t) v) s [0..<length K])"

lemma cell8_mod: "cell8 i = cell8 (i mod 8)"
  by (simp add: cell8_def fun_eq_iff)

lemma cell8_table:
  "\<forall>r\<in>set [0..<8]. \<forall>p\<in>set [0..<8]. \<forall>q\<in>set [0..<8].
     (cell8 r p = cell8 r q) = (p = q) \<and>
     (cell8 (Suc r) p = cell8 r (if p = 0 then 7 else p - 1))"
  by code_simp

lemma cell8_table':
  "p < 8 \<Longrightarrow> q < 8 \<Longrightarrow> (cell8 i p = cell8 i q) = (p = q) \<and>
     cell8 (Suc i) p = cell8 i (if p = 0 then 7 else p - 1)"
proof -
  assume "p < 8" "q < 8"
  then have "p \<in> set [0..<8]" "q \<in> set [0..<8]" "i mod 8 \<in> set [0..<8]" by simp_all
  with cell8_table have "(cell8 (i mod 8) p = cell8 (i mod 8) q) = (p = q) \<and>
     cell8 (Suc (i mod 8)) p = cell8 (i mod 8) (if p = 0 then 7 else p - 1)" by blast
  then show ?thesis by (metis cell8_mod mod_Suc_eq)
qed

lemma cell8_Suc: "p < 8 \<Longrightarrow> cell8 (Suc i) p = cell8 i (if p = 0 then 7 else p - 1)"
  using cell8_table' [of p p i] by blast

lemma cell8_less: "cell8 i p < 8"
  by (simp add: cell8_def)

lemma cell8_inj: "p < 8 \<Longrightarrow> q < 8 \<Longrightarrow> cell8 i p = cell8 i q \<longleftrightarrow> p = q"
  using cell8_table' by blast

definition regs_at :: "nat \<Rightarrow> 'a list \<Rightarrow> 'a list" where
  "regs_at i v = map (\<lambda>p. v ! cell8 i p) [0, 1, 2, 3, 4, 5, 6, 7]"

lemma regs_at_0: "length v = 8 \<Longrightarrow> i mod 8 = 0 \<Longrightarrow> regs_at i v = v"
proof -
  assume v: "length v = 8" and i: "i mod 8 = 0"
  have "[0, 1, 2, 3, 4, 5, 6, 7] = [0..<8::nat]" by (simp add: upt_rec)
  then have "regs_at i v = map (\<lambda>p. v ! cell8 i p) [0..<8]" by (simp add: regs_at_def)
  moreover have "\<dots> = map ((!) v) [0..<8]"
    using i by (intro map_cong) (auto simp: cell8_def)
  ultimately show ?thesis using v map_nth [of v] by simp
qed

lemma mod16_back:
  assumes "16 \<le> i" and "d \<le> 16"
  shows "(i - d) mod 16 = (i + (16 - d)) mod (16::nat)"
proof -
  have "i + (16 - d) = (i - d) + 16" using assms by simp
  then show ?thesis by simp
qed

locale sha2_rounds =
  fixes s0 s1 S0 S1 :: "'a::len word \<Rightarrow> 'a word" and Ch Maj :: "'a word \<Rightarrow> 'a word \<Rightarrow> 'a word \<Rightarrow> 'a word"
    and K :: "'a word list" and M :: "bytes \<Rightarrow> nat \<Rightarrow> 'a word"
    and step :: "bytes \<Rightarrow> 'a word list \<times> 'a word list \<Rightarrow> nat \<Rightarrow> 'a word list \<times> 'a word list"
  assumes step_word: "snd (step chunk (v, w) i) = w[i mod 16 :=
      (if i < 16 then M chunk i
       else w ! (i mod 16) + (s1 (w ! ((i + 14) mod 16)) + w ! ((i + 9) mod 16) + s0 (w ! ((i + 1) mod 16))))]"
    and step_regs: "fst (step chunk (v, w) i) =
      (let a = v ! cell8 i 0; b = v ! cell8 i 1; c = v ! cell8 i 2; d = v ! cell8 i 3;
          e = v ! cell8 i 4; f = v ! cell8 i 5; g = v ! cell8 i 6; h = v ! cell8 i 7;
          x = (if i < 16 then M chunk i
               else w ! (i mod 16) + (s1 (w ! ((i + 14) mod 16)) + w ! ((i + 9) mod 16) + s0 (w ! ((i + 1) mod 16))));
          t1 = h + S1 e + Ch e f g + K ! i + x;
          t2 = S0 a + Maj a b c
      in v[cell8 i 3 := d + t1, cell8 i 7 := t1 + t2])"
    and length_K: "length K mod 8 = 0"
begin

abbreviation W :: "bytes \<Rightarrow> nat \<Rightarrow> 'a word" where
  "W chunk \<equiv> sha2_W s0 s1 (M chunk)"

definition sched :: "bytes \<Rightarrow> nat \<Rightarrow> 'a word list \<Rightarrow> bool" where
  "sched chunk i w \<longleftrightarrow> length w = 16 \<and> (\<forall>j < i. i \<le> j + 16 \<longrightarrow> w ! (j mod 16) = W chunk j)"

lemma sched_next:
  assumes "sched chunk i w"
  shows "(if i < 16 then M chunk i
      else w ! (i mod 16) + (s1 (w ! ((i + 14) mod 16)) + w ! ((i + 9) mod 16) + s0 (w ! ((i + 1) mod 16))))
    = W chunk i"
proof (cases "i < 16")
  case False
  have W: "w ! ((i - d) mod 16) = W chunk (i - d)" if "0 < d" "d \<le> 16" for d
    using assms False that unfolding sched_def by auto
  have V: "w ! ((i + (16 - d)) mod 16) = W chunk (i - d)" if "0 < d" "d \<le> 16" for d
    using W [OF that] mod16_back [of i d] that False by simp
  have "w ! (i mod 16) = W chunk (i - 16)" "w ! ((i + 14) mod 16) = W chunk (i - 2)"
    "w ! ((i + 9) mod 16) = W chunk (i - 7)" "w ! ((i + 1) mod 16) = W chunk (i - 15)"
    using V [of 16] V [of 2] V [of 7] V [of 15] by simp_all
  with False show ?thesis using sha2_W.simps [of s0 s1 "M chunk" i] by (simp add: ac_simps)
qed (simp add: sha2_W.simps)

lemma sched_step: "sched chunk i w \<Longrightarrow> sched chunk (Suc i) (snd (step chunk (v, w) i))"
proof -
  assume s: "sched chunk i w"
  have ne: "j mod 16 \<noteq> i mod 16" if "j < i" "Suc i \<le> j + 16" for j
  proof
    assume "j mod 16 = i mod 16"
    then have "16 dvd i - j" using that by (metis less_imp_le mod_eq_dvd_iff_nat)
    then show False using that by (auto dest!: dvd_imp_le)
  qed
  then show ?thesis
    using s unfolding step_word sched_next [OF s] by (auto simp: sched_def less_Suc_eq nth_list_update ne ne [symmetric])
qed

lemma regs_step:
  assumes "sched chunk i w" and "length v = 8"
  shows "regs_at (Suc i) (fst (step chunk (v, w) i))
      = sha2_regs S0 S1 Ch Maj (K ! i + W chunk i) (regs_at i v)"
  using cell8_less [of i] assms(2)
  unfolding step_regs sched_next [OF assms(1)] regs_at_def sha2_regs_def Let_def
  by (simp add: cell8_Suc cell8_inj ac_simps)

lemma rounds:
  "length s = 8 \<Longrightarrow> (let (v, w) = foldl (step chunk) (s, replicate 16 0) [0..<n]
     in length v = 8 \<and> sched chunk n w \<and>
        regs_at n v = foldl (\<lambda>v t. sha2_regs S0 S1 Ch Maj (K ! t + W chunk t) v) s [0..<n])"
proof (induction n)
  case 0
  then show ?case by (simp add: sched_def regs_at_0)
next
  case (Suc n)
  obtain v w where f: "foldl (step chunk) (s, replicate 16 0) [0..<n] = (v, w)" by fastforce
  obtain v' w' where g: "step chunk (v, w) n = (v', w')" by fastforce
  have v: "length v = 8" "sched chunk n w"
    "regs_at n v = foldl (\<lambda>v t. sha2_regs S0 S1 Ch Maj (K ! t + W chunk t) v) s [0..<n]"
    using Suc f by auto
  have "length v' = 8" using v(1) g step_regs [of chunk v w n] by (auto simp: Let_def)
  then show ?case using f g sched_step [OF v(2), of v] regs_step [OF v(2,1)] v(3) by simp
qed

lemma compress_eq:
  assumes "length s = 8"
  shows "map2 (+) s (fst (foldl (step chunk) (s, replicate 16 0) [0..<length K])) =
     sha2_compress S0 S1 Ch Maj K (W chunk) s"
  using rounds [OF assms, of chunk "length K"] length_K
  by (auto simp: sha2_compress_def regs_at_0 split: prod.splits)

end

interpretation r256: sha2_rounds sha256_sigma0 sha256_sigma1 sha256_Sigma0 sha256_Sigma1 sha256_Ch
    sha256_Maj sha256_K "\<lambda>chunk i. ReadBE32 (drop (4 * i) chunk)" sha256_step
  by unfold_locales
    (simp_all add: sha256_step_def sha256_word_def sha256_Round_def sha256_K_def Let_def)

interpretation r512: sha2_rounds sha512_sigma0 sha512_sigma1 sha512_Sigma0 sha512_Sigma1 sha512_Ch
    sha512_Maj sha512_K "\<lambda>chunk i. ReadBE64 (drop (8 * i) chunk)" sha512_step
  by unfold_locales
    (simp_all add: sha512_step_def sha512_word_def sha512_Round_def sha512_K_def Let_def)

section \<open>The classes as instances of the contract\<close>

lemma length_BE32 [simp]: "length (WriteBE32 x) = 4" and length_BE64 [simp]: "length (WriteBE64 y) = 8"
  and length_LE64 [simp]: "length (WriteLE64 y) = 8" and length_LE32 [simp]: "length (WriteLE32 x) = 4"
  by (simp_all add: WriteBE32_def WriteBE64_def WriteLE64_def WriteLE32_def)

interpretation h256: block_hasher 64 8 WriteBE64 sha256_Transform BE32s sha256_Initialize
  by unfold_locales simp_all

interpretation h512: block_hasher 128 16 sha512_sizedesc sha512_Transform BE64s sha512_Initialize
  by unfold_locales (simp_all add: sha512_sizedesc_def)

interpretation h1: block_hasher 64 8 WriteBE64 sha1_Transform BE32s sha1_Initialize
  by unfold_locales simp_all

interpretation hrmd: block_hasher 64 8 WriteLE64 rmd_Transform LE32s rmd_Initialize
  by unfold_locales simp_all

text \<open>The standard's SHA-256 and SHA-512, by the shifting-register compression functions.\<close>

definition fips_sha256 :: "bytes \<Rightarrow> bytes" where
  "fips_sha256 m = BE32s (absorb 64
     (\<lambda>s chunk. sha2_compress sha256_Sigma0 sha256_Sigma1 sha256_Ch sha256_Maj sha256_K
        (sha2_W sha256_sigma0 sha256_sigma1 (\<lambda>i. ReadBE32 (drop (4 * i) chunk))) s)
     sha256_Initialize (md_pad 64 8 WriteBE64 m))"

definition fips_sha512 :: "bytes \<Rightarrow> bytes" where
  "fips_sha512 m = BE64s (absorb 128
     (\<lambda>s chunk. sha2_compress sha512_Sigma0 sha512_Sigma1 sha512_Ch sha512_Maj sha512_K
        (sha2_W sha512_sigma0 sha512_sigma1 (\<lambda>i. ReadBE64 (drop (8 * i) chunk))) s)
     sha512_Initialize (md_pad 128 16 sha512_sizedesc m))"

definition md_ripemd160 :: "bytes \<Rightarrow> bytes" where
  "md_ripemd160 m = LE32s (absorb 64 rmd_Transform rmd_Initialize (md_pad 64 8 WriteLE64 m))"

lemma absorb_cong:
  assumes "\<And>s chunk. length s = n \<Longrightarrow> tr s chunk = tr' s chunk"
    and "\<And>s chunk. length s = n \<Longrightarrow> length (tr s chunk) = n"
  shows "length s = n \<Longrightarrow> absorb B tr s m = absorb B tr' s m \<and> length (absorb B tr s m) = n"
proof (induction "length m" arbitrary: m s rule: less_induct)
  case less
  show ?case
  proof (cases "0 < B \<and> B \<le> length m")
    case True
    then have "length (drop B m) < length m" by auto
    then show ?thesis
      using True less.hyps [of "drop B m" "tr s (take B m)"] less.prems assms
      by (simp add: absorb.simps [of B _ s m]) metis
  next
    case False
    then show ?thesis using less.prems by (simp only: absorb.simps [of B _ s m]) simp
  qed
qed

lemma sha256_Transform_fips:
  assumes "length s = 8"
  shows "sha256_Transform s chunk =
    sha2_compress sha256_Sigma0 sha256_Sigma1 sha256_Ch sha256_Maj sha256_K
      (sha2_W sha256_sigma0 sha256_sigma1 (\<lambda>i. ReadBE32 (drop (4 * i) chunk))) s"
proof -
  have "length sha256_K = 64" by (simp add: sha256_K_def)
  then show ?thesis unfolding sha256_Transform_def using r256.compress_eq [OF assms, of chunk] by simp
qed

lemma sha512_Transform_fips:
  assumes "length s = 8"
  shows "sha512_Transform s chunk =
    sha2_compress sha512_Sigma0 sha512_Sigma1 sha512_Ch sha512_Maj sha512_K
      (sha2_W sha512_sigma0 sha512_sigma1 (\<lambda>i. ReadBE64 (drop (8 * i) chunk))) s"
proof -
  have "length sha512_K = 80" by (simp add: sha512_K_def)
  then show ?thesis unfolding sha512_Transform_def using r512.compress_eq [OF assms, of chunk] by simp
qed

lemma length_rounds256: "length s = 8 \<Longrightarrow> length (sha256_Transform s chunk) = 8"
  using r256.rounds [of s chunk 64] by (auto simp: sha256_Transform_def split: prod.splits)

lemma length_rounds512: "length s = 8 \<Longrightarrow> length (sha512_Transform s chunk) = 8"
  using r512.rounds [of s chunk 80] by (auto simp: sha512_Transform_def split: prod.splits)

lemma absorb256_fips:
  "absorb 64 sha256_Transform sha256_Initialize m = absorb 64
     (\<lambda>s chunk. sha2_compress sha256_Sigma0 sha256_Sigma1 sha256_Ch sha256_Maj sha256_K
        (sha2_W sha256_sigma0 sha256_sigma1 (\<lambda>i. ReadBE32 (drop (4 * i) chunk))) s)
     sha256_Initialize m \<and> length (absorb 64 sha256_Transform sha256_Initialize m) = 8"
  by (rule absorb_cong [OF sha256_Transform_fips length_rounds256]) (simp_all add: sha256_Initialize_def)

lemma absorb512_fips:
  "absorb 128 sha512_Transform sha512_Initialize m = absorb 128
     (\<lambda>s chunk. sha2_compress sha512_Sigma0 sha512_Sigma1 sha512_Ch sha512_Maj sha512_K
        (sha2_W sha512_sigma0 sha512_sigma1 (\<lambda>i. ReadBE64 (drop (8 * i) chunk))) s)
     sha512_Initialize m \<and> length (absorb 128 sha512_Transform sha512_Initialize m) = 8"
  by (rule absorb_cong [OF sha512_Transform_fips length_rounds512]) (simp_all add: sha512_Initialize_def)

lemma absorb256: "BE32s (absorb 64 sha256_Transform sha256_Initialize (md_pad 64 8 WriteBE64 m)) = fips_sha256 m"
  unfolding fips_sha256_def by (simp only: absorb256_fips)

lemma absorb512: "BE64s (absorb 128 sha512_Transform sha512_Initialize (md_pad 128 16 sha512_sizedesc m)) = fips_sha512 m"
  unfolding fips_sha512_def by (simp only: absorb512_fips)

text \<open>What the clients of the classes use: writes accumulate and \<open>Finalize\<close> gives the digest.\<close>

lemma rep256:
  "h256.rep CSHA256 []"
  "h256.rep h m \<Longrightarrow> h256.rep (CSHA256_Write h d) (m @ d)"
  "h256.rep h m \<Longrightarrow> snd (CSHA256_Finalize h) = fips_sha256 m"
  "h256.rep h m \<Longrightarrow> h256.rep (CSHA256_Reset (fst (CSHA256_Finalize h))) []"
  using h256.rep_new h256.rep_write [of h m d] h256.rep_finalize [of h m] h256.rep_reset
  by (simp_all add: CSHA256_def CSHA256_Write_def CSHA256_Finalize_def CSHA256_Reset_def absorb256)

lemma rep512:
  "h512.rep CSHA512 []"
  "h512.rep h m \<Longrightarrow> h512.rep (CSHA512_Write h d) (m @ d)"
  "h512.rep h m \<Longrightarrow> snd (CSHA512_Finalize h) = fips_sha512 m"
  "h512.rep h m \<Longrightarrow> h512.rep (CSHA512_Reset (fst (CSHA512_Finalize h))) []"
  using h512.rep_new h512.rep_write [of h m d] h512.rep_finalize [of h m] h512.rep_reset
  by (simp_all add: CSHA512_def CSHA512_Write_def CSHA512_Finalize_def CSHA512_Reset_def absorb512)

lemma rep_rmd:
  "hrmd.rep CRIPEMD160 []"
  "hrmd.rep h m \<Longrightarrow> hrmd.rep (CRIPEMD160_Write h d) (m @ d)"
  "hrmd.rep h m \<Longrightarrow> snd (CRIPEMD160_Finalize h) = md_ripemd160 m"
  using hrmd.rep_new hrmd.rep_write [of h m d] hrmd.rep_finalize [of h m]
  by (simp_all add: CRIPEMD160_def CRIPEMD160_Write_def CRIPEMD160_Finalize_def md_ripemd160_def)


lemma rep256_writes: "h256.rep h m \<Longrightarrow> h256.rep (foldl CSHA256_Write h ds) (m @ concat ds)"
  using h256.rep_writes [of h m ds] by (simp add: CSHA256_Write_def)

lemma rep512_writes: "h512.rep h m \<Longrightarrow> h512.rep (foldl CSHA512_Write h ds) (m @ concat ds)"
  using h512.rep_writes [of h m ds] by (simp add: CSHA512_Write_def)

lemma CHash256_rep: "h256.rep h m \<Longrightarrow> snd (CHash256_Finalize h) = fips_sha256 (fips_sha256 m)"
  using rep256(2) [OF rep256(4)] rep256(3)
  by (simp add: CHash256_Finalize_def Let_def split_beta)

lemma CHash512_rep: "h512.rep h m \<Longrightarrow> snd (CHash512_Finalize h) = fips_sha512 (fips_sha512 m)"
  using rep512(2) [OF rep512(4)] rep512(3)
  by (simp add: CHash512_Finalize_def Let_def split_beta)

lemma CHash160_rep: "h256.rep h m \<Longrightarrow> snd (CHash160_Finalize h) = md_ripemd160 (fips_sha256 m)"
  using rep_rmd(2) [OF rep_rmd(1)] rep_rmd(3) rep256(3)
  by (simp add: CHash160_Finalize_def Let_def split_beta)

lemma rep256_one: "h256.rep (CSHA256_Write CSHA256 d) d"
  and rep512_one: "h512.rep (CSHA512_Write CSHA512 d) d"
  using rep256(2) [OF rep256(1), of d] rep512(2) [OF rep512(1), of d] by simp_all

text \<open>the hashes of \<open>hash.h\<close> are the double SHA-256, the double SHA-512 and RIPEMD-160 of
  SHA-256; the overloads of \<open>Hash\<close> for two to six ranges and the hash writer, which hash piece
  by piece, all give the hash of the concatenated bytes.\<close>

lemma hash_overloads_concatenate:
  "Hash_bytes p = fips_sha256 (fips_sha256 p) \<and>
   Hash2_bytes p q = Hash_bytes (p @ q) \<and>
   HashN_bytes ps = Hash_bytes (concat ps) \<and>
   HashWriter ps = limbs_of_bytes (Hash_bytes (concat ps)) \<and>
   Hash160_bytes p = md_ripemd160 (fips_sha256 p) \<and>
   Hash512_bytes p = fips_sha512 (fips_sha512 p) \<and>
   Hash512_2_bytes p q = Hash512_bytes (p @ q)"
  using rep256_writes [OF rep256(1), of "[p, q]"] rep256_writes [OF rep256(1), of ps]
    rep512(2) [OF rep512_one, of p q]
  by (simp add: Hash_bytes_def Hash2_bytes_def HashN_bytes_def HashWriter_def Hash160_bytes_def
      Hash512_bytes_def Hash512_2_bytes_def CHash512_rep CHash256_rep CHash160_rep [OF rep256_one] CHash512_rep [OF rep512_one]
      CHash256_rep [OF rep256_one])

text \<open>HMAC as RFC 2104 has it, over a hash function and its block length.\<close>

definition rfc_hmac :: "(bytes \<Rightarrow> bytes) \<Rightarrow> nat \<Rightarrow> bytes \<Rightarrow> bytes \<Rightarrow> bytes" where
  "rfc_hmac H B key m =
     (let k = (if length key \<le> B then key else H key);
          k = k @ replicate (B - length k) 0
      in H (map (\<lambda>b. b XOR 0x5c) k @ H (map (\<lambda>b. b XOR 0x36) k @ m)))"

lemma length_BE32s: "length (BE32s s) = 4 * length s" and length_BE64s: "length (BE64s t) = 8 * length t"
  by (simp_all add: BE32s_def BE64s_def length_concat sum_list_triv comp_def)

lemma length_fips [simp]: "length (fips_sha256 m) = 32" "length (fips_sha512 m) = 64"
  unfolding absorb256 [symmetric] absorb512 [symmetric]
  by (simp_all add: length_BE32s length_BE64s absorb256_fips [THEN conjunct2] absorb512_fips [THEN conjunct2])

lemma opad_to_ipad: "(\<lambda>b. b XOR 0x6a) \<circ> (\<lambda>b. b XOR 0x5c) = (\<lambda>b. b XOR (0x36 :: u8))"
  by (simp add: fun_eq_iff xor.assoc)

lemma ucast_and_ff: "ucast (x AND 0xff) = (ucast x :: u8)" for x :: u32
  by (rule bit_eqI) (auto simp: bit_ucast_iff bit_and_iff bit_numeral_word_iff less_Suc_eq numeral_eq_Suc)

text \<open>the HMAC classes compute the HMAC of RFC 2104 over the concatenation of the bytes
  written: the key is hashed when it is longer than a block, padded with zeros, and the inner key
  that the code derives from the outer key in place (by \<open>^= 0x5c ^ 0x36\<close>) is the key xor \<open>0x36\<close>.
  \<open>BIP32Hash\<close> is the HMAC-SHA512 of the header byte, the data and the child number in
  big-endian order.\<close>

theorem hmac_is_rfc2104:
  "CHMAC_SHA256_Finalize (foldl CHMAC_SHA256_Write (CHMAC_SHA256 key) ps) =
     rfc_hmac fips_sha256 64 key (concat ps) \<and>
   CHMAC_SHA512_Finalize (foldl CHMAC_SHA512_Write (CHMAC_SHA512 key) ps) =
     rfc_hmac fips_sha512 128 key (concat ps) \<and>
   BIP32Hash chainCode nChild header data =
     rfc_hmac fips_sha512 128 chainCode (header # data @ WriteBE32 nChild)"
proof (intro conjI)
  have i: "hm_inner (foldl CHMAC_SHA256_Write c ds) = foldl CSHA256_Write (hm_inner c) ds \<and>
      hm_outer (foldl CHMAC_SHA256_Write c ds) = hm_outer c" for c ds
    by (induction ds arbitrary: c) (simp_all add: CHMAC_SHA256_Write_def)
  show "CHMAC_SHA256_Finalize (foldl CHMAC_SHA256_Write (CHMAC_SHA256 key) ps) =
     rfc_hmac fips_sha256 64 key (concat ps)"
    by (simp add: CHMAC_SHA256_Finalize_def i CHMAC_SHA256_def Let_def rep256(3) [OF rep256_writes [OF rep256_one]]
        rep256(3) [OF rep256(2) [OF rep256_one]] rep256(3) [OF rep256_one] rfc_hmac_def opad_to_ipad)
next
  have i: "hm_inner (foldl CHMAC_SHA512_Write c ds) = foldl CSHA512_Write (hm_inner c) ds \<and>
      hm_outer (foldl CHMAC_SHA512_Write c ds) = hm_outer c" for c ds
    by (induction ds arbitrary: c) (simp_all add: CHMAC_SHA512_Write_def)
  have h: "CHMAC_SHA512_Finalize (foldl CHMAC_SHA512_Write (CHMAC_SHA512 key) ps) =
     rfc_hmac fips_sha512 128 key (concat ps)" for key ps
    by (simp add: CHMAC_SHA512_Finalize_def i CHMAC_SHA512_def Let_def rep512(3) [OF rep512_writes [OF rep512_one]]
        rep512(3) [OF rep512(2) [OF rep512_one]] rep512(3) [OF rep512_one] rfc_hmac_def opad_to_ipad)
  show "CHMAC_SHA512_Finalize (foldl CHMAC_SHA512_Write (CHMAC_SHA512 key) ps) =
     rfc_hmac fips_sha512 128 key (concat ps)" by (rule h)
  show "BIP32Hash chainCode nChild header data =
     rfc_hmac fips_sha512 128 chainCode (header # data @ WriteBE32 nChild)"
    using h [of chainCode "[[header], data, WriteBE32 nChild]"]
    by (simp add: BIP32Hash_def Let_def ucast_and_ff WriteBE32_def)
qed

end
