(* ===== verification/Interpreter.thy ===== *)
theory Interpreter
  imports Script Hash "HOL-Library.Sublist"
begin

unbundle bit_operations_syntax

text \<open>
  The script interpreter: \<open>src/script/interpreter.cpp\<close>, \<open>src/script/interpreter.h\<close> and
  \<open>src/script/script_error.h\<close>.  A stack is a list with its top first, so
  \<open>stacktop(-k)\<close> is \<open>s ! (k - 1)\<close>; an iterator into the script is the suffix of bytes from it
  to the end.  Each group of opcodes is a function on the stack that returns an error or the new
  stack; \<open>eval_instr\<close> is the body of the loop of \<open>EvalScript\<close>, \<open>eval_loop\<close> the loop.  An
  exception (only \<open>CScriptNum\<close> throws) is the error that the \<open>catch\<close> of \<open>EvalScript\<close>
  makes of it.  The signature checker is a record of the two virtual functions of
  \<open>BaseSignatureChecker\<close>; \<open>CPubKey::CheckLowS\<close>, which asks the vendored secp256k1, is a
  field of the environment.
\<close>

section \<open>Errors, flags and the environment\<close>

datatype ScriptError =
    SCRIPT_ERR_OK | SCRIPT_ERR_UNKNOWN_ERROR | SCRIPT_ERR_EVAL_FALSE | SCRIPT_ERR_OP_RETURN
  | SCRIPT_ERR_SCRIPT_SIZE | SCRIPT_ERR_PUSH_SIZE | SCRIPT_ERR_OP_COUNT | SCRIPT_ERR_STACK_SIZE
  | SCRIPT_ERR_SIG_COUNT | SCRIPT_ERR_PUBKEY_COUNT
  | SCRIPT_ERR_VERIFY | SCRIPT_ERR_EQUALVERIFY | SCRIPT_ERR_CHECKMULTISIGVERIFY
  | SCRIPT_ERR_CHECKSIGVERIFY | SCRIPT_ERR_NUMEQUALVERIFY
  | SCRIPT_ERR_BAD_OPCODE | SCRIPT_ERR_DISABLED_OPCODE | SCRIPT_ERR_INVALID_STACK_OPERATION
  | SCRIPT_ERR_INVALID_ALTSTACK_OPERATION | SCRIPT_ERR_UNBALANCED_CONDITIONAL
  | SCRIPT_ERR_NEGATIVE_LOCKTIME | SCRIPT_ERR_UNSATISFIED_LOCKTIME
  | SCRIPT_ERR_SIG_HASHTYPE | SCRIPT_ERR_SIG_DER | SCRIPT_ERR_MINIMALDATA
  | SCRIPT_ERR_SIG_PUSHONLY | SCRIPT_ERR_SIG_HIGH_S | SCRIPT_ERR_SIG_NULLDUMMY
  | SCRIPT_ERR_PUBKEYTYPE | SCRIPT_ERR_DISCOURAGE_UPGRADABLE_NOPS | SCRIPT_ERR_ERROR_COUNT

definition ScriptErrorString :: "ScriptError \<Rightarrow> string" where
  "ScriptErrorString serror =
     (case serror of
        SCRIPT_ERR_OK \<Rightarrow> ''No error''
      | SCRIPT_ERR_EVAL_FALSE \<Rightarrow> ''Script evaluated without error but finished with a false/empty top stack element''
      | SCRIPT_ERR_VERIFY \<Rightarrow> ''Script failed an OP_VERIFY operation''
      | SCRIPT_ERR_EQUALVERIFY \<Rightarrow> ''Script failed an OP_EQUALVERIFY operation''
      | SCRIPT_ERR_CHECKMULTISIGVERIFY \<Rightarrow> ''Script failed an OP_CHECKMULTISIGVERIFY operation''
      | SCRIPT_ERR_CHECKSIGVERIFY \<Rightarrow> ''Script failed an OP_CHECKSIGVERIFY operation''
      | SCRIPT_ERR_NUMEQUALVERIFY \<Rightarrow> ''Script failed an OP_NUMEQUALVERIFY operation''
      | SCRIPT_ERR_SCRIPT_SIZE \<Rightarrow> ''Script is too big''
      | SCRIPT_ERR_PUSH_SIZE \<Rightarrow> ''Push value size limit exceeded''
      | SCRIPT_ERR_OP_COUNT \<Rightarrow> ''Operation limit exceeded''
      | SCRIPT_ERR_STACK_SIZE \<Rightarrow> ''Stack size limit exceeded''
      | SCRIPT_ERR_SIG_COUNT \<Rightarrow> ''Signature count negative or greater than pubkey count''
      | SCRIPT_ERR_PUBKEY_COUNT \<Rightarrow> ''Pubkey count negative or limit exceeded''
      | SCRIPT_ERR_BAD_OPCODE \<Rightarrow> ''Opcode missing or not understood''
      | SCRIPT_ERR_DISABLED_OPCODE \<Rightarrow> ''Attempted to use a disabled opcode''
      | SCRIPT_ERR_INVALID_STACK_OPERATION \<Rightarrow> ''Operation not valid with the current stack size''
      | SCRIPT_ERR_INVALID_ALTSTACK_OPERATION \<Rightarrow> ''Operation not valid with the current altstack size''
      | SCRIPT_ERR_OP_RETURN \<Rightarrow> ''OP_RETURN was encountered''
      | SCRIPT_ERR_UNBALANCED_CONDITIONAL \<Rightarrow> ''Invalid OP_IF construction''
      | SCRIPT_ERR_NEGATIVE_LOCKTIME \<Rightarrow> ''Negative locktime''
      | SCRIPT_ERR_UNSATISFIED_LOCKTIME \<Rightarrow> ''Locktime requirement not satisfied''
      | SCRIPT_ERR_SIG_HASHTYPE \<Rightarrow> ''Signature hash type missing or not understood''
      | SCRIPT_ERR_SIG_DER \<Rightarrow> ''Non-canonical DER signature''
      | SCRIPT_ERR_MINIMALDATA \<Rightarrow> ''Data push larger than necessary''
      | SCRIPT_ERR_SIG_PUSHONLY \<Rightarrow> ''Only non-push operators allowed in signatures''
      | SCRIPT_ERR_SIG_HIGH_S \<Rightarrow> ''Non-canonical signature: S value is unnecessarily high''
      | SCRIPT_ERR_SIG_NULLDUMMY \<Rightarrow> ''Dummy CHECKMULTISIG argument must be zero''
      | SCRIPT_ERR_DISCOURAGE_UPGRADABLE_NOPS \<Rightarrow> ''NOPx reserved for soft-fork upgrades''
      | SCRIPT_ERR_PUBKEYTYPE \<Rightarrow> ''Public key is neither compressed or uncompressed''
      | _ \<Rightarrow> ''unknown error'')"

definition SIGHASH_ALL :: nat where "SIGHASH_ALL = 1"
definition SIGHASH_NONE :: nat where "SIGHASH_NONE = 2"
definition SIGHASH_SINGLE :: nat where "SIGHASH_SINGLE = 3"
definition SIGHASH_ANYONECANPAY :: nat where "SIGHASH_ANYONECANPAY = 0x80"

definition SCRIPT_VERIFY_NONE :: u32 where "SCRIPT_VERIFY_NONE = 0"
definition SCRIPT_VERIFY_P2SH :: u32 where "SCRIPT_VERIFY_P2SH = 1"
definition SCRIPT_VERIFY_STRICTENC :: u32 where "SCRIPT_VERIFY_STRICTENC = 2"
definition SCRIPT_VERIFY_DERSIG :: u32 where "SCRIPT_VERIFY_DERSIG = 4"
definition SCRIPT_VERIFY_LOW_S :: u32 where "SCRIPT_VERIFY_LOW_S = 8"
definition SCRIPT_VERIFY_NULLDUMMY :: u32 where "SCRIPT_VERIFY_NULLDUMMY = 16"
definition SCRIPT_VERIFY_SIGPUSHONLY :: u32 where "SCRIPT_VERIFY_SIGPUSHONLY = 32"
definition SCRIPT_VERIFY_MINIMALDATA :: u32 where "SCRIPT_VERIFY_MINIMALDATA = 64"
definition SCRIPT_VERIFY_DISCOURAGE_UPGRADABLE_NOPS :: u32 where
  "SCRIPT_VERIFY_DISCOURAGE_UPGRADABLE_NOPS = 128"
definition SCRIPT_VERIFY_CLEANSTACK :: u32 where "SCRIPT_VERIFY_CLEANSTACK = 256"
definition SCRIPT_VERIFY_CHECKLOCKTIMEVERIFY :: u32 where "SCRIPT_VERIFY_CHECKLOCKTIMEVERIFY = 512"

text \<open>\<open>CheckSig(vchSig, vchPubKey, scriptCode)\<close> and \<open>CheckLockTime(nLockTime)\<close>.\<close>

record sig_checker =
  CheckSig :: "bytes \<Rightarrow> bytes \<Rightarrow> bytes \<Rightarrow> bool"
  CheckLockTime :: "int \<Rightarrow> bool"

definition BaseSignatureChecker :: sig_checker where
  "BaseSignatureChecker = \<lparr> CheckSig = (\<lambda>sig key code. False), CheckLockTime = (\<lambda>n. False) \<rparr>"

record script_env =
  se_flags :: u32
  se_checker :: sig_checker
  se_lowS :: "bytes \<Rightarrow> bool"

definition flag :: "script_env \<Rightarrow> u32 \<Rightarrow> bool" where
  "flag env f \<longleftrightarrow> se_flags env AND f \<noteq> 0"

definition fRequireMinimal :: "script_env \<Rightarrow> bool" where
  "fRequireMinimal env = flag env SCRIPT_VERIFY_MINIMALDATA"

section \<open>Encodings\<close>

fun CastToBool :: "bytes \<Rightarrow> bool" where
  "CastToBool [] = False"
| "CastToBool (b # vch) = (if b \<noteq> 0 then \<not> (vch = [] \<and> b = 0x80) else CastToBool vch)"

definition IsCompressedOrUncompressedPubKey :: "bytes \<Rightarrow> bool" where
  "IsCompressedOrUncompressedPubKey vchPubKey =
     (if length vchPubKey < 33 then False
      else if vchPubKey ! 0 = 0x04 then length vchPubKey = 65
      else if vchPubKey ! 0 = 0x02 \<or> vchPubKey ! 0 = 0x03 then length vchPubKey = 33
      else False)"

definition IsValidSignatureEncoding :: "bytes \<Rightarrow> bool" where
  "IsValidSignatureEncoding sig =
     (if length sig < 9 then False
      else if length sig > 73 then False
      else if sig ! 0 \<noteq> 0x30 then False
      else if unat (sig ! 1) \<noteq> length sig - 3 then False
      else let lenR = unat (sig ! 3) in
        if 5 + lenR \<ge> length sig then False
        else let lenS = unat (sig ! (5 + lenR)) in
          if lenR + lenS + 7 \<noteq> length sig then False
          else if sig ! 2 \<noteq> 0x02 then False
          else if lenR = 0 then False
          else if sig ! 4 AND 0x80 \<noteq> 0 then False
          else if lenR > 1 \<and> sig ! 4 = 0 \<and> \<not> sig ! 5 AND 0x80 \<noteq> 0 then False
          else if sig ! (lenR + 4) \<noteq> 0x02 then False
          else if lenS = 0 then False
          else if sig ! (lenR + 6) AND 0x80 \<noteq> 0 then False
          else if lenS > 1 \<and> sig ! (lenR + 6) = 0 \<and> \<not> sig ! (lenR + 7) AND 0x80 \<noteq> 0 then False
          else True)"

text \<open>The results below are the error that \<open>set_error\<close> stores, or \<open>()\<close> for true.\<close>

definition IsLowDERSignature :: "script_env \<Rightarrow> bytes \<Rightarrow> ScriptError + unit" where
  "IsLowDERSignature env vchSig =
     (if \<not> IsValidSignatureEncoding vchSig then Inl SCRIPT_ERR_SIG_DER
      else if \<not> se_lowS env (butlast vchSig) then Inl SCRIPT_ERR_SIG_HIGH_S
      else Inr ())"

definition IsDefinedHashtypeSignature :: "bytes \<Rightarrow> bool" where
  "IsDefinedHashtypeSignature vchSig =
     (if length vchSig = 0 then False
      else let nHashType = last vchSig AND NOT 0x80 in
        \<not> (unat nHashType < SIGHASH_ALL \<or> unat nHashType > SIGHASH_SINGLE))"

definition CheckSignatureEncoding :: "script_env \<Rightarrow> bytes \<Rightarrow> ScriptError + unit" where
  "CheckSignatureEncoding env vchSig =
     (if length vchSig = 0 then Inr ()
      else if flag env (SCRIPT_VERIFY_DERSIG OR SCRIPT_VERIFY_LOW_S OR SCRIPT_VERIFY_STRICTENC)
              \<and> \<not> IsValidSignatureEncoding vchSig then Inl SCRIPT_ERR_SIG_DER
      else if flag env SCRIPT_VERIFY_LOW_S \<and> IsLowDERSignature env vchSig \<noteq> Inr ()
           then IsLowDERSignature env vchSig
      else if flag env SCRIPT_VERIFY_STRICTENC \<and> \<not> IsDefinedHashtypeSignature vchSig
           then Inl SCRIPT_ERR_SIG_HASHTYPE
      else Inr ())"

definition CheckPubKeyEncoding :: "script_env \<Rightarrow> bytes \<Rightarrow> ScriptError + unit" where
  "CheckPubKeyEncoding env vchPubKey =
     (if flag env SCRIPT_VERIFY_STRICTENC \<and> \<not> IsCompressedOrUncompressedPubKey vchPubKey
      then Inl SCRIPT_ERR_PUBKEYTYPE else Inr ())"

text \<open>The conjunction \<open>!CheckSignatureEncoding(...) || !CheckPubKeyEncoding(...)\<close> of the callers.\<close>

definition check_encodings :: "script_env \<Rightarrow> bytes \<Rightarrow> bytes \<Rightarrow> ScriptError + unit" where
  "check_encodings env vchSig vchPubKey =
     (case CheckSignatureEncoding env vchSig of Inl e \<Rightarrow> Inl e
      | Inr _ \<Rightarrow> CheckPubKeyEncoding env vchPubKey)"

definition CheckMinimalPush :: "bytes \<Rightarrow> u8 \<Rightarrow> bool" where
  "CheckMinimalPush data opcode =
     (if length data = 0 then opcode = OP_0
      else if length data = 1 \<and> data ! 0 \<ge> 1 \<and> data ! 0 \<le> 16 then opcode = OP_1 + (data ! 0 - 1)
      else if length data = 1 \<and> data ! 0 = 0x81 then opcode = OP_1NEGATE
      else if length data \<le> 75 then unat opcode = length data
      else if length data \<le> 255 then opcode = OP_PUSHDATA1
      else if length data \<le> 65535 then opcode = OP_PUSHDATA2
      else True)"

section \<open>The opcodes on the stack\<close>

type_synonym stack = "bytes list"

definition vchFalse :: bytes where "vchFalse = []"
definition vchTrue :: bytes where "vchTrue = [1]"

definition from_bool :: "bool \<Rightarrow> bytes" where
  "from_bool b = (if b then vchTrue else vchFalse)"

text \<open>\<open>CScriptNum(vch, fRequireMinimal, size)\<close>; its exception ends in \<open>SCRIPT_ERR_UNKNOWN_ERROR\<close>.\<close>

definition script_num :: "script_env \<Rightarrow> bytes \<Rightarrow> nat \<Rightarrow> ScriptError + int" where
  "script_num env vch nMax =
     (case CScriptNum vch (fRequireMinimal env) nMax of
        Inl _ \<Rightarrow> Inl SCRIPT_ERR_UNKNOWN_ERROR | Inr n \<Rightarrow> Inr n)"

definition op_push_number :: "u8 \<Rightarrow> stack \<Rightarrow> stack" where
  "op_push_number opcode s = num_serialize (uint opcode - (uint OP_1 - 1)) # s"

definition op_checklocktime :: "script_env \<Rightarrow> stack \<Rightarrow> ScriptError + stack" where
  "op_checklocktime env s =
     (if \<not> flag env SCRIPT_VERIFY_CHECKLOCKTIMEVERIFY then
        if flag env SCRIPT_VERIFY_DISCOURAGE_UPGRADABLE_NOPS
        then Inl SCRIPT_ERR_DISCOURAGE_UPGRADABLE_NOPS else Inr s
      else case s of
        [] \<Rightarrow> Inl SCRIPT_ERR_INVALID_STACK_OPERATION
      | arg # _ \<Rightarrow>
          (case script_num env arg 5 of
             Inl e \<Rightarrow> Inl e
           | Inr nLockTime \<Rightarrow>
               if nLockTime < 0 then Inl SCRIPT_ERR_NEGATIVE_LOCKTIME
               else if \<not> CheckLockTime (se_checker env) nLockTime
                    then Inl SCRIPT_ERR_UNSATISFIED_LOCKTIME
               else Inr s))"

definition op_upgradable_nop :: "script_env \<Rightarrow> stack \<Rightarrow> ScriptError + stack" where
  "op_upgradable_nop env s =
     (if flag env SCRIPT_VERIFY_DISCOURAGE_UPGRADABLE_NOPS
      then Inl SCRIPT_ERR_DISCOURAGE_UPGRADABLE_NOPS else Inr s)"

fun op_verify :: "stack \<Rightarrow> ScriptError + stack" where
  "op_verify (v # s) = (if CastToBool v then Inr s else Inl SCRIPT_ERR_VERIFY)"
| "op_verify [] = Inl SCRIPT_ERR_INVALID_STACK_OPERATION"

text \<open>The stack opcodes without operands of their own.  The comments of the source read the stack
  from the bottom; the patterns here read it from the top.\<close>

fun op_2drop :: "stack \<Rightarrow> ScriptError + stack" where
  "op_2drop (x2 # x1 # s) = Inr s"
| "op_2drop _ = Inl SCRIPT_ERR_INVALID_STACK_OPERATION"

fun op_2dup :: "stack \<Rightarrow> ScriptError + stack" where
  "op_2dup (x2 # x1 # s) = Inr (x2 # x1 # x2 # x1 # s)"
| "op_2dup _ = Inl SCRIPT_ERR_INVALID_STACK_OPERATION"

fun op_3dup :: "stack \<Rightarrow> ScriptError + stack" where
  "op_3dup (x3 # x2 # x1 # s) = Inr (x3 # x2 # x1 # x3 # x2 # x1 # s)"
| "op_3dup _ = Inl SCRIPT_ERR_INVALID_STACK_OPERATION"

fun op_2over :: "stack \<Rightarrow> ScriptError + stack" where
  "op_2over (x4 # x3 # x2 # x1 # s) = Inr (x2 # x1 # x4 # x3 # x2 # x1 # s)"
| "op_2over _ = Inl SCRIPT_ERR_INVALID_STACK_OPERATION"

fun op_2rot :: "stack \<Rightarrow> ScriptError + stack" where
  "op_2rot (x6 # x5 # x4 # x3 # x2 # x1 # s) = Inr (x2 # x1 # x6 # x5 # x4 # x3 # s)"
| "op_2rot _ = Inl SCRIPT_ERR_INVALID_STACK_OPERATION"

fun op_2swap :: "stack \<Rightarrow> ScriptError + stack" where
  "op_2swap (x4 # x3 # x2 # x1 # s) = Inr (x2 # x1 # x4 # x3 # s)"
| "op_2swap _ = Inl SCRIPT_ERR_INVALID_STACK_OPERATION"

fun op_ifdup :: "stack \<Rightarrow> ScriptError + stack" where
  "op_ifdup (x # s) = Inr (if CastToBool x then x # x # s else x # s)"
| "op_ifdup [] = Inl SCRIPT_ERR_INVALID_STACK_OPERATION"

definition op_depth :: "stack \<Rightarrow> ScriptError + stack" where
  "op_depth s = Inr (num_serialize (int (length s)) # s)"

fun op_drop :: "stack \<Rightarrow> ScriptError + stack" where
  "op_drop (x # s) = Inr s"
| "op_drop [] = Inl SCRIPT_ERR_INVALID_STACK_OPERATION"

fun op_dup :: "stack \<Rightarrow> ScriptError + stack" where
  "op_dup (x # s) = Inr (x # x # s)"
| "op_dup [] = Inl SCRIPT_ERR_INVALID_STACK_OPERATION"

fun op_nip :: "stack \<Rightarrow> ScriptError + stack" where
  "op_nip (x2 # x1 # s) = Inr (x2 # s)"
| "op_nip _ = Inl SCRIPT_ERR_INVALID_STACK_OPERATION"

fun op_over :: "stack \<Rightarrow> ScriptError + stack" where
  "op_over (x2 # x1 # s) = Inr (x1 # x2 # x1 # s)"
| "op_over _ = Inl SCRIPT_ERR_INVALID_STACK_OPERATION"

definition op_pick_roll :: "script_env \<Rightarrow> u8 \<Rightarrow> stack \<Rightarrow> ScriptError + stack" where
  "op_pick_roll env opcode s =
     (case s of
        arg # x # s' \<Rightarrow>
          (case script_num env arg nDefaultMaxNumSize of
             Inl e \<Rightarrow> Inl e
           | Inr bn \<Rightarrow>
               let n = getint bn; s = x # s' in
               if n < 0 \<or> n \<ge> int (length s) then Inl SCRIPT_ERR_INVALID_STACK_OPERATION
               else let vch = s ! nat n in
                 Inr (vch # (if opcode = OP_ROLL then take (nat n) s @ drop (nat n + 1) s else s)))
      | _ \<Rightarrow> Inl SCRIPT_ERR_INVALID_STACK_OPERATION)"

fun op_rot :: "stack \<Rightarrow> ScriptError + stack" where
  "op_rot (x3 # x2 # x1 # s) = Inr (x1 # x3 # x2 # s)"
| "op_rot _ = Inl SCRIPT_ERR_INVALID_STACK_OPERATION"

fun op_swap :: "stack \<Rightarrow> ScriptError + stack" where
  "op_swap (x2 # x1 # s) = Inr (x1 # x2 # s)"
| "op_swap _ = Inl SCRIPT_ERR_INVALID_STACK_OPERATION"

fun op_tuck :: "stack \<Rightarrow> ScriptError + stack" where
  "op_tuck (x2 # x1 # s) = Inr (x2 # x1 # x2 # s)"
| "op_tuck _ = Inl SCRIPT_ERR_INVALID_STACK_OPERATION"

fun op_size :: "stack \<Rightarrow> ScriptError + stack" where
  "op_size (x # s) = Inr (num_serialize (int (length x)) # x # s)"
| "op_size [] = Inl SCRIPT_ERR_INVALID_STACK_OPERATION"

fun op_equal :: "u8 \<Rightarrow> stack \<Rightarrow> ScriptError + stack" where
  "op_equal opcode (x2 # x1 # s) =
     (let fEqual = (x1 = x2) in
      if opcode = OP_EQUALVERIFY then
        if fEqual then Inr s else Inl SCRIPT_ERR_EQUALVERIFY
      else Inr (from_bool fEqual # s))"
| "op_equal opcode _ = Inl SCRIPT_ERR_INVALID_STACK_OPERATION"

section \<open>Numeric opcodes\<close>

definition bn_of_bool :: "bool \<Rightarrow> int" where
  "bn_of_bool b = (if b then 1 else 0)"

definition unary_num :: "u8 \<Rightarrow> int \<Rightarrow> int" where
  "unary_num opcode bn =
     (if opcode = OP_1ADD then bn + 1
      else if opcode = OP_1SUB then bn - 1
      else if opcode = OP_NEGATE then - bn
      else if opcode = OP_ABS then (if bn < 0 then - bn else bn)
      else if opcode = OP_NOT then bn_of_bool (bn = 0)
      else bn_of_bool (bn \<noteq> 0))"

definition op_unary :: "script_env \<Rightarrow> u8 \<Rightarrow> stack \<Rightarrow> ScriptError + stack" where
  "op_unary env opcode s =
     (case s of
        [] \<Rightarrow> Inl SCRIPT_ERR_INVALID_STACK_OPERATION
      | x # s \<Rightarrow>
          (case script_num env x nDefaultMaxNumSize of
             Inl e \<Rightarrow> Inl e
           | Inr bn \<Rightarrow> Inr (num_serialize (unary_num opcode bn) # s)))"

definition binary_num :: "u8 \<Rightarrow> int \<Rightarrow> int \<Rightarrow> int" where
  "binary_num opcode bn1 bn2 =
     (if opcode = OP_ADD then bn1 + bn2
      else if opcode = OP_SUB then bn1 - bn2
      else if opcode = OP_BOOLAND then bn_of_bool (bn1 \<noteq> 0 \<and> bn2 \<noteq> 0)
      else if opcode = OP_BOOLOR then bn_of_bool (bn1 \<noteq> 0 \<or> bn2 \<noteq> 0)
      else if opcode = OP_NUMEQUAL then bn_of_bool (bn1 = bn2)
      else if opcode = OP_NUMEQUALVERIFY then bn_of_bool (bn1 = bn2)
      else if opcode = OP_NUMNOTEQUAL then bn_of_bool (bn1 \<noteq> bn2)
      else if opcode = OP_LESSTHAN then bn_of_bool (bn1 < bn2)
      else if opcode = OP_GREATERTHAN then bn_of_bool (bn1 > bn2)
      else if opcode = OP_LESSTHANOREQUAL then bn_of_bool (bn1 \<le> bn2)
      else if opcode = OP_GREATERTHANOREQUAL then bn_of_bool (bn1 \<ge> bn2)
      else if opcode = OP_MIN then (if bn1 < bn2 then bn1 else bn2)
      else (if bn1 > bn2 then bn1 else bn2))"

definition op_binary :: "script_env \<Rightarrow> u8 \<Rightarrow> stack \<Rightarrow> ScriptError + stack" where
  "op_binary env opcode s =
     (case s of
        x2 # x1 # s \<Rightarrow>
          (case script_num env x1 nDefaultMaxNumSize of
             Inl e \<Rightarrow> Inl e
           | Inr bn1 \<Rightarrow>
               (case script_num env x2 nDefaultMaxNumSize of
                  Inl e \<Rightarrow> Inl e
                | Inr bn2 \<Rightarrow>
                    let r = num_serialize (binary_num opcode bn1 bn2) in
                    if opcode = OP_NUMEQUALVERIFY then
                      if CastToBool r then Inr s else Inl SCRIPT_ERR_NUMEQUALVERIFY
                    else Inr (r # s)))
      | _ \<Rightarrow> Inl SCRIPT_ERR_INVALID_STACK_OPERATION)"

definition op_within :: "script_env \<Rightarrow> stack \<Rightarrow> ScriptError + stack" where
  "op_within env s =
     (case s of
        x3 # x2 # x1 # s \<Rightarrow>
          (case script_num env x1 nDefaultMaxNumSize of
             Inl e \<Rightarrow> Inl e
           | Inr bn1 \<Rightarrow>
               (case script_num env x2 nDefaultMaxNumSize of
                  Inl e \<Rightarrow> Inl e
                | Inr bn2 \<Rightarrow>
                    (case script_num env x3 nDefaultMaxNumSize of
                       Inl e \<Rightarrow> Inl e
                     | Inr bn3 \<Rightarrow> Inr (from_bool (bn2 \<le> bn1 \<and> bn1 < bn3) # s))))
      | _ \<Rightarrow> Inl SCRIPT_ERR_INVALID_STACK_OPERATION)"

section \<open>Cryptographic opcodes\<close>

definition crypto_hash :: "u8 \<Rightarrow> bytes \<Rightarrow> bytes" where
  "crypto_hash opcode vch =
     (if opcode = OP_RIPEMD160 then snd (CRIPEMD160_Finalize (CRIPEMD160_Write CRIPEMD160 vch))
      else if opcode = OP_SHA1 then snd (CSHA1_Finalize (CSHA1_Write CSHA1 vch))
      else if opcode = OP_SHA256 then snd (CSHA256_Finalize (CSHA256_Write CSHA256 vch))
      else if opcode = OP_HASH160 then Hash160_bytes vch
      else Hash_bytes vch)"

definition op_hash :: "u8 \<Rightarrow> stack \<Rightarrow> ScriptError + stack" where
  "op_hash opcode s =
     (case s of
        [] \<Rightarrow> Inl SCRIPT_ERR_INVALID_STACK_OPERATION
      | vch # s \<Rightarrow> Inr (crypto_hash opcode vch # s))"

text \<open>\<open>code\<close> is the script from the last \<open>OP_CODESEPARATOR\<close> to its end.\<close>

definition op_checksig :: "script_env \<Rightarrow> u8 \<Rightarrow> bytes \<Rightarrow> stack \<Rightarrow> ScriptError + stack" where
  "op_checksig env opcode code s =
     (case s of
        vchPubKey # vchSig # s \<Rightarrow>
          let scriptCode = fst (FindAndDelete code (push_bytes [] vchSig)) in
          (case check_encodings env vchSig vchPubKey of
             Inl e \<Rightarrow> Inl e
           | Inr _ \<Rightarrow>
               let fSuccess = CheckSig (se_checker env) vchSig vchPubKey scriptCode in
               if opcode = OP_CHECKSIGVERIFY then
                 if fSuccess then Inr s else Inl SCRIPT_ERR_CHECKSIGVERIFY
               else Inr (from_bool fSuccess # s))
      | _ \<Rightarrow> Inl SCRIPT_ERR_INVALID_STACK_OPERATION)"

text \<open>The loop over signatures and keys: \<open>sigs\<close> are \<open>stacktop(-isig)\<close> and the signatures below it
  that are left, \<open>keys\<close> likewise from \<open>stacktop(-ikey)\<close>.  The caller has at most as many
  signatures as keys, and so has every round, so keys do not run out first.\<close>

fun multisig_loop :: "script_env \<Rightarrow> bytes \<Rightarrow> bytes list \<Rightarrow> bytes list \<Rightarrow> ScriptError + bool" where
  "multisig_loop env code [] keys = Inr True"
| "multisig_loop env code (vchSig # sigs) [] = Inr False"
| "multisig_loop env code (vchSig # sigs) (vchPubKey # keys) =
     (case check_encodings env vchSig vchPubKey of
        Inl e \<Rightarrow> Inl e
      | Inr _ \<Rightarrow>
          let fOk = CheckSig (se_checker env) vchSig vchPubKey code;
              sigs' = (if fOk then sigs else vchSig # sigs) in
          if length sigs' > length keys then Inr False
          else multisig_loop env code sigs' keys)"

text \<open>The result has the new \<open>nOpCount\<close>, which grows by the number of keys.\<close>

definition op_checkmultisig ::
  "script_env \<Rightarrow> u8 \<Rightarrow> bytes \<Rightarrow> nat \<Rightarrow> stack \<Rightarrow> ScriptError + (nat \<times> stack)" where
  "op_checkmultisig env opcode code nOpCount s =
     (if length s < 1 then Inl SCRIPT_ERR_INVALID_STACK_OPERATION
      else case script_num env (s ! 0) nDefaultMaxNumSize of
        Inl e \<Rightarrow> Inl e
      | Inr bn \<Rightarrow>
        let nKeys = getint bn in
        if nKeys < 0 \<or> nKeys > 20 then Inl SCRIPT_ERR_PUBKEY_COUNT
        else let nKeysCount = nat nKeys; nOpCount = nOpCount + nKeysCount in
        if nOpCount > 201 then Inl SCRIPT_ERR_OP_COUNT
        else let i = 2 + nKeysCount in
        if length s < i then Inl SCRIPT_ERR_INVALID_STACK_OPERATION
        else case script_num env (s ! (i - 1)) nDefaultMaxNumSize of
          Inl e \<Rightarrow> Inl e
        | Inr bn \<Rightarrow>
          let nSigs = getint bn in
          if nSigs < 0 \<or> nSigs > int nKeysCount then Inl SCRIPT_ERR_SIG_COUNT
          else let nSigsCount = nat nSigs; isig = i + 1; i = isig + nSigsCount in
          if length s < i then Inl SCRIPT_ERR_INVALID_STACK_OPERATION
          else let sigs = take nSigsCount (drop (isig - 1) s);
                   keys = take nKeysCount (drop 1 s);
                   scriptCode = foldl (\<lambda>c vchSig. fst (FindAndDelete c (push_bytes [] vchSig))) code sigs
          in case multisig_loop env scriptCode sigs keys of
            Inl e \<Rightarrow> Inl e
          | Inr fSuccess \<Rightarrow>
            (case drop (i - 1) s of
               [] \<Rightarrow> Inl SCRIPT_ERR_INVALID_STACK_OPERATION
             | dummy # s \<Rightarrow>
                 if flag env SCRIPT_VERIFY_NULLDUMMY \<and> length dummy \<noteq> 0
                 then Inl SCRIPT_ERR_SIG_NULLDUMMY
                 else if opcode = OP_CHECKMULTISIGVERIFY then
                   if fSuccess then Inr (nOpCount, s) else Inl SCRIPT_ERR_CHECKMULTISIGVERIFY
                 else Inr (nOpCount, from_bool fSuccess # s)))"


section \<open>The loop of EvalScript\<close>

text \<open>\<open>vfExec\<close> has its back first; \<open>est_code\<close> is the suffix at \<open>pbegincodehash\<close>.\<close>

record est =
  est_stack :: stack
  est_alt :: stack
  vfExec :: "bool list"
  nOpCount :: nat
  est_code :: bytes

definition is_disabled :: "u8 \<Rightarrow> bool" where
  "is_disabled opcode \<longleftrightarrow> opcode \<in> set [OP_CAT, OP_SUBSTR, OP_LEFT, OP_RIGHT, OP_INVERT, OP_AND,
     OP_OR, OP_XOR, OP_2MUL, OP_2DIV, OP_MUL, OP_DIV, OP_MOD, OP_LSHIFT, OP_RSHIFT]"

definition on_stack :: "est \<Rightarrow> ScriptError + stack \<Rightarrow> ScriptError + est" where
  "on_stack st r = (case r of Inl e \<Rightarrow> Inl e | Inr s \<Rightarrow> Inr (st\<lparr> est_stack := s \<rparr>))"

definition op_if :: "bool \<Rightarrow> u8 \<Rightarrow> est \<Rightarrow> ScriptError + est" where
  "op_if fExec opcode st =
     (if fExec then
        (case est_stack st of
           [] \<Rightarrow> Inl SCRIPT_ERR_UNBALANCED_CONDITIONAL
         | vch # s \<Rightarrow>
             let fValue = CastToBool vch;
                 fValue = (if opcode = OP_NOTIF then \<not> fValue else fValue)
             in Inr (st\<lparr> est_stack := s, vfExec := fValue # vfExec st \<rparr>))
      else Inr (st\<lparr> vfExec := False # vfExec st \<rparr>))"

definition op_else :: "est \<Rightarrow> ScriptError + est" where
  "op_else st =
     (case vfExec st of
        [] \<Rightarrow> Inl SCRIPT_ERR_UNBALANCED_CONDITIONAL
      | b # bs \<Rightarrow> Inr (st\<lparr> vfExec := (\<not> b) # bs \<rparr>))"

definition op_endif :: "est \<Rightarrow> ScriptError + est" where
  "op_endif st =
     (case vfExec st of
        [] \<Rightarrow> Inl SCRIPT_ERR_UNBALANCED_CONDITIONAL
      | b # bs \<Rightarrow> Inr (st\<lparr> vfExec := bs \<rparr>))"

definition op_toaltstack :: "est \<Rightarrow> ScriptError + est" where
  "op_toaltstack st =
     (case est_stack st of
        [] \<Rightarrow> Inl SCRIPT_ERR_INVALID_STACK_OPERATION
      | x # s \<Rightarrow> Inr (st\<lparr> est_stack := s, est_alt := x # est_alt st \<rparr>))"

definition op_fromaltstack :: "est \<Rightarrow> ScriptError + est" where
  "op_fromaltstack st =
     (case est_alt st of
        [] \<Rightarrow> Inl SCRIPT_ERR_INVALID_ALTSTACK_OPERATION
      | x # a \<Rightarrow> Inr (st\<lparr> est_stack := x # est_stack st, est_alt := a \<rparr>))"

text \<open>The opcodes that only use the main stack, in the order of the \<open>switch\<close>; \<open>None\<close> for the
  others.\<close>

definition stack_op :: "script_env \<Rightarrow> u8 \<Rightarrow> bytes \<Rightarrow> stack \<Rightarrow> (ScriptError + stack) option" where
  "stack_op env opcode code s =
     (if opcode = OP_1NEGATE \<or> (OP_1 \<le> opcode \<and> opcode \<le> OP_16)
        then Some (Inr (op_push_number opcode s))
      else if opcode = OP_NOP then Some (Inr s)
      else if opcode = OP_CHECKLOCKTIMEVERIFY then Some (op_checklocktime env s)
      else if opcode = OP_NOP1 \<or> (OP_NOP3 \<le> opcode \<and> opcode \<le> OP_NOP10)
        then Some (op_upgradable_nop env s)
      else if opcode = OP_VERIFY then Some (op_verify s)
      else if opcode = OP_RETURN then Some (Inl SCRIPT_ERR_OP_RETURN)
      else if opcode = OP_2DROP then Some (op_2drop s)
      else if opcode = OP_2DUP then Some (op_2dup s)
      else if opcode = OP_3DUP then Some (op_3dup s)
      else if opcode = OP_2OVER then Some (op_2over s)
      else if opcode = OP_2ROT then Some (op_2rot s)
      else if opcode = OP_2SWAP then Some (op_2swap s)
      else if opcode = OP_IFDUP then Some (op_ifdup s)
      else if opcode = OP_DEPTH then Some (op_depth s)
      else if opcode = OP_DROP then Some (op_drop s)
      else if opcode = OP_DUP then Some (op_dup s)
      else if opcode = OP_NIP then Some (op_nip s)
      else if opcode = OP_OVER then Some (op_over s)
      else if opcode = OP_PICK \<or> opcode = OP_ROLL then Some (op_pick_roll env opcode s)
      else if opcode = OP_ROT then Some (op_rot s)
      else if opcode = OP_SWAP then Some (op_swap s)
      else if opcode = OP_TUCK then Some (op_tuck s)
      else if opcode = OP_SIZE then Some (op_size s)
      else if opcode = OP_EQUAL \<or> opcode = OP_EQUALVERIFY then Some (op_equal opcode s)
      else if opcode \<in> set [OP_1ADD, OP_1SUB, OP_NEGATE, OP_ABS, OP_NOT, OP_0NOTEQUAL]
        then Some (op_unary env opcode s)
      else if opcode \<in> set [OP_ADD, OP_SUB, OP_BOOLAND, OP_BOOLOR, OP_NUMEQUAL, OP_NUMEQUALVERIFY,
            OP_NUMNOTEQUAL, OP_LESSTHAN, OP_GREATERTHAN, OP_LESSTHANOREQUAL, OP_GREATERTHANOREQUAL,
            OP_MIN, OP_MAX]
        then Some (op_binary env opcode s)
      else if opcode = OP_WITHIN then Some (op_within env s)
      else if opcode \<in> set [OP_RIPEMD160, OP_SHA1, OP_SHA256, OP_HASH160, OP_HASH256]
        then Some (op_hash opcode s)
      else if opcode = OP_CHECKSIG \<or> opcode = OP_CHECKSIGVERIFY
        then Some (op_checksig env opcode code s)
      else None)"

text \<open>The \<open>switch\<close>; \<open>pc\<close> is the iterator after the instruction.\<close>

definition exec_op :: "script_env \<Rightarrow> bool \<Rightarrow> u8 \<Rightarrow> bytes \<Rightarrow> est \<Rightarrow> ScriptError + est" where
  "exec_op env fExec opcode pc st =
     (if opcode = OP_IF \<or> opcode = OP_NOTIF then op_if fExec opcode st
      else if opcode = OP_ELSE then op_else st
      else if opcode = OP_ENDIF then op_endif st
      else if opcode = OP_TOALTSTACK then op_toaltstack st
      else if opcode = OP_FROMALTSTACK then op_fromaltstack st
      else if opcode = OP_CODESEPARATOR then Inr (st\<lparr> est_code := pc \<rparr>)
      else if opcode = OP_CHECKMULTISIG \<or> opcode = OP_CHECKMULTISIGVERIFY then
        (case op_checkmultisig env opcode (est_code st) (nOpCount st) (est_stack st) of
           Inl e \<Rightarrow> Inl e
         | Inr (n, s) \<Rightarrow> Inr (st\<lparr> nOpCount := n, est_stack := s \<rparr>))
      else case stack_op env opcode (est_code st) (est_stack st) of
             Some r \<Rightarrow> on_stack st r
           | None \<Rightarrow> Inl SCRIPT_ERR_BAD_OPCODE)"

text \<open>The body of the loop, for the instruction \<open>g\<close> that \<open>GetOp\<close> read: the operation counter,
  the push or the \<open>switch\<close>, and the tests around them.\<close>

definition count_op :: "u8 \<Rightarrow> est \<Rightarrow> est" where
  "count_op opcode st = (if opcode > OP_16 then st\<lparr> nOpCount := nOpCount st + 1 \<rparr> else st)"

definition run_instr :: "script_env \<Rightarrow> getop \<Rightarrow> est \<Rightarrow> ScriptError + est" where
  "run_instr env g st =
     (let fExec = (False \<notin> set (vfExec st)); opcode = go_opcode g in
      if fExec \<and> opcode \<le> OP_PUSHDATA4 then
        if fRequireMinimal env \<and> \<not> CheckMinimalPush (go_data g) opcode
        then Inl SCRIPT_ERR_MINIMALDATA
        else Inr (st\<lparr> est_stack := go_data g # est_stack st \<rparr>)
      else if fExec \<or> (OP_IF \<le> opcode \<and> opcode \<le> OP_ENDIF)
           then exec_op env fExec opcode (go_pc g) st
      else Inr st)"

definition eval_instr :: "script_env \<Rightarrow> getop \<Rightarrow> est \<Rightarrow> ScriptError + est" where
  "eval_instr env g st =
     (if \<not> go_ok g then Inl SCRIPT_ERR_BAD_OPCODE
      else if length (go_data g) > MAX_SCRIPT_ELEMENT_SIZE then Inl SCRIPT_ERR_PUSH_SIZE
      else if nOpCount (count_op (go_opcode g) st) > 201 \<and> go_opcode g > OP_16
           then Inl SCRIPT_ERR_OP_COUNT
      else if is_disabled (go_opcode g) then Inl SCRIPT_ERR_DISABLED_OPCODE
      else case run_instr env g (count_op (go_opcode g) st) of
             Inl e \<Rightarrow> Inl e
           | Inr st' \<Rightarrow> if length (est_stack st') + length (est_alt st') > 1000
                      then Inl SCRIPT_ERR_STACK_SIZE else Inr st')"

function eval_loop :: "script_env \<Rightarrow> bytes \<Rightarrow> est \<Rightarrow> ScriptError + est" where
  "eval_loop env pc st =
     (if pc \<noteq> [] then
        (case eval_instr env (GetOp2 pc) st of
           Inl e \<Rightarrow> Inl e
         | Inr st \<Rightarrow> eval_loop env (go_pc (GetOp2 pc)) st)
      else Inr st)"
  by auto
termination
  by (relation "measure (\<lambda>(env, pc, st). length pc)") auto

declare eval_loop.simps [simp del]

definition est_init :: "bytes \<Rightarrow> stack \<Rightarrow> est" where
  "est_init script s =
     \<lparr> est_stack = s, est_alt = [], vfExec = [], nOpCount = 0, est_code = script \<rparr>"

text \<open>The stack is a reference argument of \<open>EvalScript\<close>; its value after success is returned.\<close>

definition EvalScript :: "script_env \<Rightarrow> bytes \<Rightarrow> stack \<Rightarrow> ScriptError + stack" where
  "EvalScript env script s =
     (if length script > 10000 then Inl SCRIPT_ERR_SCRIPT_SIZE
      else case eval_loop env script (est_init script s) of
        Inl e \<Rightarrow> Inl e
      | Inr st \<Rightarrow> if vfExec st \<noteq> [] then Inl SCRIPT_ERR_UNBALANCED_CONDITIONAL
                 else Inr (est_stack st))"

section \<open>VerifyScript\<close>

text \<open>\<open>None\<close> is the failure of the \<open>assert\<close>.\<close>

definition VerifyScript :: "script_env \<Rightarrow> bytes \<Rightarrow> bytes \<Rightarrow> (ScriptError + unit) option" where
  "VerifyScript env scriptSig scriptPubKey =
     (if flag env SCRIPT_VERIFY_SIGPUSHONLY \<and> \<not> IsPushOnly scriptSig
      then Some (Inl SCRIPT_ERR_SIG_PUSHONLY)
      else case EvalScript env scriptSig [] of
        Inl e \<Rightarrow> Some (Inl e)
      | Inr s1 \<Rightarrow>
        let stackCopy = (if flag env SCRIPT_VERIFY_P2SH then s1 else []) in
        case EvalScript env scriptPubKey s1 of
          Inl e \<Rightarrow> Some (Inl e)
        | Inr [] \<Rightarrow> Some (Inl SCRIPT_ERR_EVAL_FALSE)
        | Inr (top1 # _) \<Rightarrow>
          if \<not> CastToBool top1 then Some (Inl SCRIPT_ERR_EVAL_FALSE)
          else if flag env SCRIPT_VERIFY_P2SH \<and> IsPayToScriptHash scriptPubKey then
            if \<not> IsPushOnly scriptSig then Some (Inl SCRIPT_ERR_SIG_PUSHONLY)
            else (case stackCopy of
                [] \<Rightarrow> None
              | pubKey2 # stackCopy \<Rightarrow>
                 (case EvalScript env pubKey2 stackCopy of
                    Inl e \<Rightarrow> Some (Inl e)
                  | Inr [] \<Rightarrow> Some (Inl SCRIPT_ERR_EVAL_FALSE)
                  | Inr (top2 # _) \<Rightarrow>
                      if \<not> CastToBool top2 then Some (Inl SCRIPT_ERR_EVAL_FALSE) else Some (Inr ())))
          else Some (Inr ()))"

section \<open>The interpreter as a transition system\<close>

inductive script_step :: "script_env \<Rightarrow> bytes \<times> est \<Rightarrow> bytes \<times> est \<Rightarrow> bool" for env where
  instr: "pc \<noteq> [] \<Longrightarrow> eval_instr env (GetOp2 pc) st = Inr st'
    \<Longrightarrow> script_step env (pc, st) (go_pc (GetOp2 pc), st')"

inductive_cases script_stepE: "script_step env (pc, st) c"
inductive_simps script_step_simps: "script_step env (pc, st) (pc', st')"

lemma eval_loop_Nil [simp]: "eval_loop env [] st = Inr st"
  by (simp add: eval_loop.simps)

lemma eval_loop_Cons:
  "pc \<noteq> [] \<Longrightarrow> eval_loop env pc st =
    (case eval_instr env (GetOp2 pc) st of Inl e \<Rightarrow> Inl e
     | Inr st' \<Rightarrow> eval_loop env (go_pc (GetOp2 pc)) st')"
  by (simp add: eval_loop.simps [of env pc])

lemma eval_loop_steps:
  "eval_loop env pc st = Inr st' \<longleftrightarrow> (script_step env)\<^sup>*\<^sup>* (pc, st) ([], st')"
proof
  show "eval_loop env pc st = Inr st' \<Longrightarrow> (script_step env)\<^sup>*\<^sup>* (pc, st) ([], st')"
  proof (induction env pc st rule: eval_loop.induct)
    case (1 env pc st)
    show ?case
    proof (cases "pc = []")
      case False
      then obtain st1 where s: "eval_instr env (GetOp2 pc) st = Inr st1"
        and e: "eval_loop env (go_pc (GetOp2 pc)) st1 = Inr st'"
        using "1.prems" by (auto simp: eval_loop_Cons split: sum.splits)
      have "(script_step env)\<^sup>*\<^sup>* (go_pc (GetOp2 pc), st1) ([], st')"
        by (rule "1.IH" [OF False s e])
      then show ?thesis
        using script_step.instr [OF False s] by (rule converse_rtranclp_into_rtranclp [rotated])
    qed (use "1.prems" in simp)
  qed
next
  assume "(script_step env)\<^sup>*\<^sup>* (pc, st) ([], st')"
  then show "eval_loop env pc st = Inr st'"
    by (induction "(pc, st)" arbitrary: pc st rule: converse_rtranclp_induct)
      (auto elim!: script_stepE simp: eval_loop_Cons)
qed

section \<open>Resource bounds\<close>

definition small :: "stack \<Rightarrow> bool" where
  "small s \<longleftrightarrow> (\<forall>x\<in>set s. length x \<le> 520)"

lemma small_simps [simp]:
  "small []" "small (x # s) \<longleftrightarrow> length x \<le> 520 \<and> small s" "small (s @ t) \<longleftrightarrow> small s \<and> small t"
  by (auto simp: small_def)

lemma small_drop: "small s \<Longrightarrow> small (drop n s)" and small_take: "small s \<Longrightarrow> small (take n s)"
  by (auto simp: small_def dest: in_set_dropD in_set_takeD)

lemma small_nth: "small s \<Longrightarrow> n < length s \<Longrightarrow> length (s ! n) \<le> 520"
  by (simp add: small_def)

definition est_bounded :: "est \<Rightarrow> bool" where
  "est_bounded st \<longleftrightarrow> length (est_stack st) + length (est_alt st) \<le> 1000 \<and>
     small (est_stack st) \<and> small (est_alt st) \<and> nOpCount st \<le> 201"

lemma length_abs_bytes: "n < 256 ^ k \<Longrightarrow> length (abs_bytes n) \<le> k"
proof (induction k arbitrary: n)
  case (Suc k)
  show ?case
  proof (cases "n = 0")
    case False
    have "n div 256 < 256 ^ k" using Suc.prems by (simp add: less_mult_imp_div_less)
    then show ?thesis using False Suc.IH by (simp add: abs_bytes_pos)
  qed simp
qed simp

lemma length_num_serialize:
  assumes "\<bar>n\<bar> < 256 ^ k"
  shows "length (num_serialize n) \<le> Suc k"
proof (cases "n = 0")
  case False
  then have "nat \<bar>n\<bar> > 0" by simp
  then obtain w b where wb: "abs_bytes (nat \<bar>n\<bar>) = w @ [b]" by (rule abs_bytes_snoc)
  have "nat \<bar>n\<bar> < 256 ^ k" using assms by (simp add: nat_less_iff)
  then have "length (w @ [b]) \<le> k" using length_abs_bytes [of "nat \<bar>n\<bar>" k] wb by simp
  then show ?thesis using num_serialize_cases [OF False wb] by auto
qed (simp add: num_serialize_def)

lemma num_serialize_small: "\<bar>n\<bar> < 256 ^ 9 \<Longrightarrow> length (num_serialize n) \<le> 520"
  using length_num_serialize [of n 9] by simp

lemma set_vch_bound: "\<bar>set_vch v\<bar> < 256 ^ length v"
proof (cases v rule: rev_cases)
  case (snoc w b)
  define P L where "P = (256 :: int) ^ length w" and "L = int (le_val w)"
  have "int (le_val w) < int (256 ^ length w)" using le_val_bound [of w] by (simp only: of_nat_less_iff)
  then have L: "0 \<le> L" "L < P" and P: "0 < P" unfolding P_def L_def by simp_all
  have key: "0 \<le> L + P * k \<and> L + P * k < P * 256" if "0 \<le> k" "k \<le> 255" for k
  proof -
    have "P * k \<le> P * 255" "0 \<le> P * k" using that P by simp_all
    then show ?thesis using L by linarith
  qed
  have b: "int (unat b) \<le> 255" "0 \<le> int (unat b)" using unat_u8_less [of b] by linarith+
  have "\<bar>set_vch v\<bar> < P * 256"
  proof (cases "128 \<le> unat b")
    case True
    then have "0 \<le> int (unat b) - 128" "int (unat b) - 128 \<le> 255" using b by linarith+
    from key [OF this] True show ?thesis by (simp add: snoc set_vch_snoc P_def L_def)
  next
    case False
    from key [OF b(2,1)] False show ?thesis by (simp add: snoc set_vch_snoc P_def L_def)
  qed
  then show ?thesis by (simp add: snoc P_def mult.commute)
qed simp

lemma script_num_bound: "script_num env v k = Inr n \<Longrightarrow> \<bar>n\<bar> < 256 ^ k"
proof -
  assume "script_num env v k = Inr n"
  then have "n = set_vch v" "length v \<le> k"
    by (auto simp: script_num_def CScriptNum_def split: if_splits)
  moreover have "(256 :: int) ^ length v \<le> 256 ^ k" using calculation(2) by (simp add: power_increasing)
  ultimately show ?thesis using set_vch_bound [of v] by linarith
qed

lemma script_num_bound4: "script_num env v 4 = Inr n \<Longrightarrow> \<bar>n\<bar> < 256 ^ 4"
  by (rule script_num_bound)

lemma absorb_length:
  assumes "\<And>s c. length s = n \<Longrightarrow> length (tr s c) = n"
  shows "length s = n \<Longrightarrow> length (absorb B tr s m) = n"
  using absorb_cong [of n tr tr, OF refl assms] by blast

lemma sha1_Transform_length: "length s = 5 \<Longrightarrow> length (sha1_Transform s c) = 5"
proof -
  assume s: "length s = 5"
  have "length (fst (foldl (sha1_step c) (v, w) rs)) = length v" for v w rs
    by (induction rs arbitrary: v w)
      (simp_all add: sha1_step_def sha1_Round_def Let_def)
  then show ?thesis using s by (simp add: sha1_Transform_def)
qed

lemma rmd_Transform_length: "length (rmd_Transform s c) = 5"
  by (simp add: rmd_Transform_def split_beta)

lemma length_md_ripemd160: "length (md_ripemd160 m) = 20"
proof -
  have "length (absorb 64 rmd_Transform rmd_Initialize m) = 5" for m
    by (rule absorb_length [OF rmd_Transform_length]) (simp_all add: rmd_Initialize_def)
  then show ?thesis by (simp add: md_ripemd160_def LE32s_def length_concat sum_list_triv comp_def)
qed

lemma length_sha1: "length (snd (CSHA1_Finalize (CSHA1_Write CSHA1 v))) = 20"
proof -
  have "length (absorb 64 sha1_Transform sha1_Initialize m) = 5" for m
    by (rule absorb_length [OF sha1_Transform_length]) (simp_all add: sha1_Initialize_def)
  then show ?thesis
    using h1.digest_writes [of "[v]"] by (simp add: CSHA1_def CSHA1_Write_def CSHA1_Finalize_def length_BE32s)
qed

lemma length_Hash160 [simp]: "length (Hash160_bytes v) = 20"
  by (simp add: Hash160_bytes_def CHash160_rep [OF rep256_one] length_md_ripemd160)

lemma length_Hash_bytes [simp]: "length (Hash_bytes v) = 32"
  by (simp add: Hash_bytes_def CHash256_rep [OF rep256_one])

lemma crypto_hash_length: "length (crypto_hash opcode v) \<le> 32"
  using length_sha1 [of v] rep256(3) [OF rep256_one, of v]
    rep_rmd(3) [OF rep_rmd(2) [OF rep_rmd(1)], of v] length_md_ripemd160 [of v]
  by (auto simp: crypto_hash_def)

text \<open>No opcode on the main stack makes an element longer than 520 bytes or grows the stack past
  the limit that the loop checks.\<close>

lemma small_simple_ops:
  "op_verify s = Inr s' \<Longrightarrow> small s \<Longrightarrow> small s'"
  "op_2drop s = Inr s' \<Longrightarrow> small s \<Longrightarrow> small s'"
  "op_2dup s = Inr s' \<Longrightarrow> small s \<Longrightarrow> small s'"
  "op_3dup s = Inr s' \<Longrightarrow> small s \<Longrightarrow> small s'"
  "op_2over s = Inr s' \<Longrightarrow> small s \<Longrightarrow> small s'"
  "op_2rot s = Inr s' \<Longrightarrow> small s \<Longrightarrow> small s'"
  "op_2swap s = Inr s' \<Longrightarrow> small s \<Longrightarrow> small s'"
  "op_ifdup s = Inr s' \<Longrightarrow> small s \<Longrightarrow> small s'"
  "op_drop s = Inr s' \<Longrightarrow> small s \<Longrightarrow> small s'"
  "op_dup s = Inr s' \<Longrightarrow> small s \<Longrightarrow> small s'"
  "op_nip s = Inr s' \<Longrightarrow> small s \<Longrightarrow> small s'"
  "op_over s = Inr s' \<Longrightarrow> small s \<Longrightarrow> small s'"
  "op_rot s = Inr s' \<Longrightarrow> small s \<Longrightarrow> small s'"
  "op_swap s = Inr s' \<Longrightarrow> small s \<Longrightarrow> small s'"
  "op_tuck s = Inr s' \<Longrightarrow> small s \<Longrightarrow> small s'"
  by (auto elim!: op_verify.elims op_2drop.elims op_2dup.elims op_3dup.elims op_2over.elims op_2rot.elims
      op_2swap.elims op_ifdup.elims op_drop.elims op_dup.elims op_nip.elims op_over.elims op_rot.elims
      op_swap.elims op_tuck.elims split: if_splits)

lemma small_from_bool [simp]: "length (from_bool b) \<le> 520"
  by (simp add: from_bool_def vchTrue_def vchFalse_def)

lemma length_crypto_hash [simp]: "length (crypto_hash opcode v) \<le> 520"
  using crypto_hash_length [of opcode v] by simp

lemma abs_if_le: "\<bar>a\<bar> \<le> k \<Longrightarrow> \<bar>b\<bar> \<le> k \<Longrightarrow> \<bar>if c then a else b\<bar> \<le> (k :: int)"
  by simp

lemma unary_num_abs: "\<bar>unary_num opcode a\<bar> \<le> \<bar>a\<bar> + 1"
  unfolding unary_num_def bn_of_bool_def by (intro abs_if_le) simp_all

lemma binary_num_abs: "\<bar>binary_num opcode a b\<bar> \<le> \<bar>a\<bar> + \<bar>b\<bar> + 1"
  unfolding binary_num_def bn_of_bool_def by (intro abs_if_le) simp_all

lemma num_results_small:
  "script_num env v 4 = Inr a \<Longrightarrow> length (num_serialize (unary_num opcode a)) \<le> 520"
  "script_num env v 4 = Inr a \<Longrightarrow> script_num env w 4 = Inr b \<Longrightarrow>
     length (num_serialize (binary_num opcode a b)) \<le> 520"
proof -
  have e: "(256 :: int) ^ 4 = 4294967296" "(256 :: int) ^ 9 = 4722366482869645213696" by simp_all
  assume a: "script_num env v 4 = Inr a"
  show "length (num_serialize (unary_num opcode a)) \<le> 520"
    using unary_num_abs [of opcode a] script_num_bound4 [OF a]
    by (intro num_serialize_small) (unfold e, linarith)
  assume b: "script_num env w 4 = Inr b"
  show "length (num_serialize (binary_num opcode a b)) \<le> 520"
    using binary_num_abs [of opcode a b] script_num_bound4 [OF a] script_num_bound4 [OF b]
    by (intro num_serialize_small) (unfold e, linarith)
qed

lemma small_num_ops:
  "op_unary env opcode s = Inr s' \<Longrightarrow> small s \<Longrightarrow> small s'"
  "op_binary env opcode s = Inr s' \<Longrightarrow> small s \<Longrightarrow> small s'"
  "op_within env s = Inr s' \<Longrightarrow> small s \<Longrightarrow> small s'"
  by (auto simp: op_unary_def op_binary_def op_within_def Let_def num_results_small split: list.splits sum.splits if_splits)

lemma small_pick_roll:
  "op_pick_roll env opcode s = Inr s' \<Longrightarrow> small s \<Longrightarrow> small s'"
  by (auto simp: op_pick_roll_def Let_def nth_Cons small_nth small_take small_drop
      split: list.splits sum.splits if_splits nat.splits)

lemma small_size_depth:
  "op_size s = Inr s' \<Longrightarrow> small s \<Longrightarrow> small s'"
  "op_depth s = Inr s' \<Longrightarrow> small s \<Longrightarrow> length s \<le> 1000 \<Longrightarrow> small s'"
  by (auto elim!: op_size.elims simp: op_depth_def num_serialize_small)

lemma small_other_ops:
  "op_checklocktime env s = Inr s' \<Longrightarrow> small s \<Longrightarrow> small s'"
  "op_upgradable_nop env s = Inr s' \<Longrightarrow> small s \<Longrightarrow> small s'"
  "op_hash opcode s = Inr s' \<Longrightarrow> small s \<Longrightarrow> small s'"
  "op_checksig env opcode code s = Inr s' \<Longrightarrow> small s \<Longrightarrow> small s'"
  "op_equal opcode s = Inr s' \<Longrightarrow> small s \<Longrightarrow> small s'"
  by (auto simp: op_checklocktime_def op_upgradable_nop_def op_hash_def op_checksig_def Let_def
      elim!: op_equal.elims split: list.splits sum.splits if_splits)

lemma op_push_number_small: "small s \<Longrightarrow> small (op_push_number opcode s)"
proof -
  have "\<bar>u - 80\<bar> < 256 ^ 9" if "0 \<le> u" "u < 256" for u :: int using that by simp
  then have "\<bar>uint opcode - 80\<bar> < 256 ^ 9" using uint_lt2p [of opcode] by simp
  then show "small s \<Longrightarrow> small (op_push_number opcode s)"
    using num_serialize_small [of "uint opcode - 80"] by (simp add: op_push_number_def)
qed

lemmas small_ops = small_simple_ops small_num_ops small_pick_roll small_size_depth(1) small_other_ops

text \<open>Every branch of the \<open>switch\<close> keeps a property of the stack when each opcode does.\<close>

definition branch_keeps :: "(stack \<Rightarrow> bool) \<Rightarrow> (ScriptError + stack) option \<Rightarrow> bool" where
  "branch_keeps P r \<longleftrightarrow> (\<forall>s'. r = Some (Inr s') \<longrightarrow> P s')"

lemma branch_keeps_intros:
  "branch_keeps P a \<Longrightarrow> branch_keeps P b \<Longrightarrow> branch_keeps P (if c then a else b)"
  "(\<And>s'. r = Inr s' \<Longrightarrow> P s') \<Longrightarrow> branch_keeps P (Some r)"
  "branch_keeps P None"
  by (auto simp: branch_keeps_def)

lemma stack_op_small:
  assumes "small s" "length s \<le> 1000"
  shows "branch_keeps small (stack_op env opcode code s)"
  unfolding stack_op_def
  by (intro branch_keeps_intros; (elim small_ops small_size_depth(2); intro assms)?)
    (use assms in \<open>auto simp: op_push_number_small\<close>)

lemma small_Cons_drop: "drop n s = x # s' \<Longrightarrow> small s \<Longrightarrow> small s'"
  by (metis small_drop small_simps(2))

lemma op_checkmultisig_small:
  assumes "op_checkmultisig env opcode code n s = Inr (n', s')" "small s"
  shows "small s' \<and> n' \<le> 201"
  using assms
  by (auto simp: op_checkmultisig_def Let_def split: sum.splits if_splits list.splits
      dest: small_Cons_drop)

lemma exec_op_small:
  assumes "exec_op env fExec opcode pc st = Inr st'" "small (est_stack st)" "small (est_alt st)"
    "length (est_stack st) \<le> 1000" "nOpCount st \<le> 201"
  shows "small (est_stack st') \<and> small (est_alt st') \<and> nOpCount st' \<le> 201"
proof -
  consider (cond) "opcode = OP_IF \<or> opcode = OP_NOTIF \<or> opcode = OP_ELSE \<or> opcode = OP_ENDIF
      \<or> opcode = OP_TOALTSTACK \<or> opcode = OP_FROMALTSTACK \<or> opcode = OP_CODESEPARATOR"
    | (multi) n s where "op_checkmultisig env opcode (est_code st) (nOpCount st) (est_stack st) = Inr (n, s)"
        "st' = st\<lparr> nOpCount := n, est_stack := s \<rparr>"
    | (op) s where "stack_op env opcode (est_code st) (est_stack st) = Some (Inr s)"
        "st' = st\<lparr> est_stack := s \<rparr>"
    using assms(1) unfolding exec_op_def on_stack_def
    by (auto simp del: OP_IF_def OP_NOTIF_def OP_ELSE_def OP_ENDIF_def OP_TOALTSTACK_def
        OP_FROMALTSTACK_def OP_CODESEPARATOR_def split: if_splits sum.splits option.splits)
  then show ?thesis
  proof cases
    case cond
    then show ?thesis using assms
      by (auto simp: exec_op_def op_if_def op_else_def op_endif_def op_toaltstack_def
          op_fromaltstack_def Let_def split: list.splits if_splits)
  next
    case multi
    then show ?thesis using op_checkmultisig_small [OF multi(1) assms(2)] assms(3) by simp
  next
    case op
    then show ?thesis
      using stack_op_small [OF assms(2,4), of env opcode "est_code st"] assms(3,5)
      by (simp add: branch_keeps_def)
  qed
qed

lemma run_instr_small:
  assumes "run_instr env g st = Inr st'" "small (est_stack st)" "small (est_alt st)"
    "length (est_stack st) \<le> 1000" "nOpCount st \<le> 201" "length (go_data g) \<le> 520"
  shows "small (est_stack st') \<and> small (est_alt st') \<and> nOpCount st' \<le> 201"
  using assms exec_op_small [OF _ assms(2-5)]
  by (auto simp: run_instr_def Let_def split: if_splits)

lemma eval_instr_bounded:
  assumes "eval_instr env g st = Inr st'" "est_bounded st"
  shows "est_bounded st'"
proof -
  let ?st = "count_op (go_opcode g) st"
  have "run_instr env g ?st = Inr st'" "length (go_data g) \<le> 520"
    "length (est_stack st') + length (est_alt st') \<le> 1000" "nOpCount ?st \<le> 201"
    using assms by (auto simp: eval_instr_def est_bounded_def count_op_def not_less split: if_splits sum.splits)
  moreover have "est_stack ?st = est_stack st" "est_alt ?st = est_alt st" by (simp_all add: count_op_def)
  ultimately show ?thesis
    using run_instr_small [of env g ?st st'] assms(2) by (simp add: est_bounded_def)
qed

lemma script_steps_bounded:
  "(script_step env)\<^sup>*\<^sup>* (pc, st) (pc', st') \<Longrightarrow> est_bounded st \<Longrightarrow> est_bounded st'"
  by (induction "(pc, st)" arbitrary: pc st rule: converse_rtranclp_induct)
    (auto elim!: script_stepE dest: eval_instr_bounded)

lemma est_bounded_init: "small s \<Longrightarrow> length s \<le> 1000 \<Longrightarrow> est_bounded (est_init script s)"
  by (simp add: est_bounded_def est_init_def)

lemma EvalScript_steps:
  "EvalScript env script s = Inr s' \<longleftrightarrow> length script \<le> 10000 \<and>
     (\<exists>st. (script_step env)\<^sup>*\<^sup>* (script, est_init script s) ([], st) \<and> vfExec st = [] \<and> s' = est_stack st)"
  by (auto simp: EvalScript_def eval_loop_steps [symmetric] split: sum.splits)

lemma EvalScript_bounded:
  assumes "EvalScript env script s = Inr s'" "small s" "length s \<le> 1000"
  shows "small s' \<and> length s' \<le> 1000"
proof -
  obtain st where st: "(script_step env)\<^sup>*\<^sup>* (script, est_init script s) ([], st)" "s' = est_stack st"
    using assms(1) by (auto simp: EvalScript_steps)
  have "est_bounded st" by (rule script_steps_bounded [OF st(1) est_bounded_init [OF assms(2,3)]])
  then show ?thesis by (simp add: est_bounded_def st(2))
qed

text \<open>C11: Resource bounds of the interpreter.  In every state that \<open>EvalScript\<close> reaches, after
  any number of instructions, the two stacks together hold at most 1000 elements, no element has
  more than 520 bytes and at most 201 operations were counted; \<open>EvalScript\<close> succeeds exactly when
  the run of the script ends with all conditionals closed, and hands on a stack in the same
  bounds.\<close>

theorem EvalScript_within_limits:
  assumes "small s" "length s \<le> 1000"
  shows "((script_step env)\<^sup>*\<^sup>* (script, est_init script s) (pc, st) \<longrightarrow>
      length (est_stack st) + length (est_alt st) \<le> 1000 \<and>
      (\<forall>x \<in> set (est_stack st) \<union> set (est_alt st). length x \<le> 520) \<and> nOpCount st \<le> 201) \<and>
    (EvalScript env script s = Inr s' \<longleftrightarrow> length script \<le> 10000 \<and>
      (\<exists>st. (script_step env)\<^sup>*\<^sup>* (script, est_init script s) ([], st) \<and> vfExec st = [] \<and> s' = est_stack st)) \<and>
    (EvalScript env script s = Inr s' \<longrightarrow> length s' \<le> 1000)"
  using script_steps_bounded [OF _ est_bounded_init [OF assms, of script]]
    EvalScript_bounded [OF _ assms]
  by (auto simp: EvalScript_steps est_bounded_def small_def)

theorem EvalScript_within_limits_witness:
  "EvalScript \<lparr> se_flags = 0, se_checker = BaseSignatureChecker, se_lowS = (\<lambda>_. True) \<rparr>
     [OP_2] [[7]] = Inr [[2], [7]] \<and> length [[2], [7 :: u8]] \<le> 1000"
proof -
  let ?env = "\<lparr> se_flags = 0, se_checker = BaseSignatureChecker, se_lowS = (\<lambda>_. True) \<rparr>"
  have e: "EvalScript ?env [OP_2] [[7]] = Inr [[2], [7]]" by code_simp
  have "small [[7]]" "length [[7 :: u8]] \<le> 1000" by simp_all
  from EvalScript_within_limits [OF this, of ?env "[OP_2]" _ _ "[[2], [7]]"] e show ?thesis by simp
qed


section \<open>Running pushes\<close>

lemma eval_instr_push:
  assumes "go_ok g" "go_opcode g \<le> OP_PUSHDATA4" "length (go_data g) \<le> 520"
    "fRequireMinimal env \<longrightarrow> CheckMinimalPush (go_data g) (go_opcode g)" "vfExec st = []"
    "length (est_stack st) + length (est_alt st) < 1000"
  shows "eval_instr env g st = Inr (st\<lparr> est_stack := go_data g # est_stack st \<rparr>)"
proof -
  have "\<not> go_opcode g > OP_16" using pushdata_not_greater assms(2) by simp
  moreover have "\<not> is_disabled (go_opcode g)"
    using assms(2) by (auto simp: is_disabled_def)
  ultimately show ?thesis
    using assms by (simp add: eval_instr_def count_op_def run_instr_def)
qed

text \<open>Pushes of 2 to 75 bytes are minimal.\<close>

lemma GetOp2_short_push:
  assumes "length b < 76"
  shows "GetOp2 (push_bytes [] b @ r) =
    \<lparr> go_ok = True, go_opcode = of_nat (length b), go_data = b, go_pc = r \<rparr>"
proof -
  have "(of_nat (length b) :: u8) < 0x4c" using assms by (simp add: word_less_nat_alt)
  moreover have "(of_nat (length b) :: u8) \<le> 0x4e" using assms by (simp add: word_le_nat_alt)
  ultimately show ?thesis using assms by (simp add: push_bytes_def GetOp2_def push_size_def)
qed

lemma short_push_minimal: "2 \<le> length b \<Longrightarrow> length b < 76 \<Longrightarrow> CheckMinimalPush b (of_nat (length b))"
  by (auto simp: CheckMinimalPush_def)

lemma push_bytes_ne [simp]: "push_bytes s b \<noteq> []"
  by (simp add: push_bytes_def)

lemma eval_loop_short_push:
  assumes "2 \<le> length b" "length b < 76" "vfExec st = []"
    "length (est_stack st) + length (est_alt st) < 1000"
  shows "eval_loop env (push_bytes [] b @ r) st = eval_loop env r (st\<lparr> est_stack := b # est_stack st \<rparr>)"
proof -
  have "(of_nat (length b) :: u8) \<le> OP_PUSHDATA4" using assms(2) by (simp add: word_le_nat_alt)
  then have "eval_instr env (GetOp2 (push_bytes [] b @ r)) st = Inr (st\<lparr> est_stack := b # est_stack st \<rparr>)"
    using assms short_push_minimal [of b] by (subst eval_instr_push) (simp_all add: GetOp2_short_push)
  then show ?thesis using assms(2) by (simp add: eval_loop_Cons GetOp2_short_push)
qed

lemmas eval_loop_last_push = eval_loop_short_push [where r = "[]", unfolded append_Nil2 eval_loop_Nil]

text \<open>An instruction that is not a push, with every conditional open branch taken.\<close>

lemma GetOp2_op: "opcode > OP_PUSHDATA4 \<Longrightarrow>
    GetOp2 (opcode # r) = \<lparr> go_ok = True, go_opcode = opcode, go_data = [], go_pc = r \<rparr>"
  by (simp add: GetOp2_def not_le)

lemma eval_loop_op:
  assumes "opcode > OP_16" "vfExec st = []" "nOpCount st < 201" "\<not> is_disabled opcode"
  shows "eval_loop env (opcode # r) st =
    (case exec_op env True opcode r (st\<lparr> nOpCount := nOpCount st + 1 \<rparr>) of Inl e \<Rightarrow> Inl e
     | Inr st' \<Rightarrow> if length (est_stack st') + length (est_alt st') > 1000 then Inl SCRIPT_ERR_STACK_SIZE
                else eval_loop env r st')"
proof -
  have o: "opcode > OP_PUSHDATA4" using assms(1) by (simp add: word_less_nat_alt)
  have "eval_instr env (GetOp2 (opcode # r)) st =
      (case exec_op env True opcode r (st\<lparr> nOpCount := nOpCount st + 1 \<rparr>) of Inl e \<Rightarrow> Inl e
       | Inr st' \<Rightarrow> if length (est_stack st') + length (est_alt st') > 1000
                  then Inl SCRIPT_ERR_STACK_SIZE else Inr st')"
    using o assms unfolding GetOp2_op [OF o]
    by (simp add: eval_instr_def count_op_def run_instr_def not_le [symmetric])
  then show ?thesis
    by (subst eval_loop_Cons, simp) (simp add: GetOp2_op [OF o] del: eval_loop_Nil split: sum.split)
qed

definition p2pkh :: "bytes \<Rightarrow> bytes" where
  "p2pkh h = [OP_DUP, OP_HASH160] @ push_bytes [] h @ [OP_EQUALVERIFY, OP_CHECKSIG]"

lemma EvalScript_two_pushes:
  assumes "2 \<le> length a" "length a < 76" "2 \<le> length b" "length b < 76"
  shows "EvalScript env (push_bytes (push_bytes [] a) b) [] = Inr [b, a]"
proof -
  have l: "length (push_bytes [] a @ push_bytes [] b @ []) \<le> 10000"
    using assms by (simp add: push_bytes_def)
  have "eval_loop env (push_bytes [] a @ push_bytes [] b) (est_init script []) =
     Inr ((est_init script [])\<lparr> est_stack := [b, a] \<rparr>)" for script
    using assms
    by (subst eval_loop_short_push; simp add: est_init_def)
      (subst eval_loop_last_push; simp)
  then show ?thesis
    using l by (subst push_bytes_append) (simp add: EvalScript_def est_init_def)
qed

lemma IsPushOnly_two_pushes:
  assumes "length a < 76" "length b < 76"
  shows "IsPushOnly (push_bytes (push_bytes [] a) b)"
  using IsPushOnly_push [of a] IsPushOnly_push [of b] IsPushOnly_append [of "push_bytes [] a"] assms
  by (subst push_bytes_append) simp

lemma EvalScript_p2pkh:
  assumes "length h = 20"
  shows "EvalScript env (p2pkh h) [key, sig] =
     (if Hash160_bytes key \<noteq> h then Inl SCRIPT_ERR_EQUALVERIFY
      else case check_encodings env sig key of
             Inl e \<Rightarrow> Inl e
           | Inr _ \<Rightarrow> Inr [from_bool (CheckSig (se_checker env) sig key
                            (fst (FindAndDelete (p2pkh h) (push_bytes [] sig))))])"
proof -
  let ?spk = "p2pkh h"
  have l: "length ?spk \<le> 10000" using assms by (simp add: p2pkh_def push_bytes_def)
  let ?st = "\<lambda>s n. \<lparr> est_stack = s, est_alt = [], vfExec = [], nOpCount = n, est_code = ?spk \<rparr>"
  note ops = is_disabled_def exec_op_def stack_op_def on_stack_def
  have dup: "eval_loop env (OP_DUP # r) (?st [key, sig] 0) = eval_loop env r (?st [key, key, sig] (Suc 0))" for r
    by (subst eval_loop_op) (simp_all add: ops)
  have hash: "eval_loop env (OP_HASH160 # r) (?st [key, key, sig] (Suc 0))
      = eval_loop env r (?st [Hash160_bytes key, key, sig] (Suc (Suc 0)))" for r
    by (subst eval_loop_op) (simp_all add: ops op_hash_def crypto_hash_def)
  have push: "eval_loop env (push_bytes [] h @ r) (?st [x, key, sig] (Suc (Suc 0)))
      = eval_loop env r (?st [h, x, key, sig] (Suc (Suc 0)))" for r x
    using assms by (subst eval_loop_short_push) simp_all
  have eqv: "eval_loop env (OP_EQUALVERIFY # r) (?st [h, x, key, sig] (Suc (Suc 0))) =
      (if x = h then eval_loop env r (?st [key, sig] (Suc (Suc (Suc 0)))) else Inl SCRIPT_ERR_EQUALVERIFY)" for r x
    by (subst eval_loop_op) (simp_all add: ops)
  have sg: "eval_loop env [OP_CHECKSIG] (?st [key, sig] (Suc (Suc (Suc 0)))) =
      (case check_encodings env sig key of Inl e \<Rightarrow> Inl e
       | Inr _ \<Rightarrow> Inr (?st [from_bool (CheckSig (se_checker env) sig key
                         (fst (FindAndDelete ?spk (push_bytes [] sig))))] (Suc (Suc (Suc (Suc 0))))))"
    by (subst eval_loop_op) (simp_all add: ops op_checksig_def split: sum.split)
  have "eval_loop env ?spk (?st [key, sig] 0) = eval_loop env
      (OP_DUP # OP_HASH160 # push_bytes [] h @ OP_EQUALVERIFY # [OP_CHECKSIG]) (?st [key, sig] 0)"
    by (subst (1) p2pkh_def) simp
  then show ?thesis
    using l unfolding dup hash push eqv sg
    by (auto simp: EvalScript_def est_init_def split: sum.split)
qed


lemma p2pkh_not_p2sh: "length h = 20 \<Longrightarrow> \<not> IsPayToScriptHash (p2pkh h)"
  by (simp add: IsPayToScriptHash_def p2pkh_def push_bytes_def)

text \<open>C27: Pay-to-public-key-hash.  Under any flags, spending \<open>DUP HASH160 h EQUALVERIFY
  CHECKSIG\<close> with pushes of a signature and a key succeeds exactly when the key hashes to \<open>h\<close>, the
  encodings are the ones the flags ask for and the checker accepts the signature for the key over
  the output script without the signature; otherwise the error is the first of these that fails.\<close>

theorem VerifyScript_p2pkh:
  assumes "2 \<le> length sig" "length sig \<le> 75" "2 \<le> length key" "length key \<le> 75" "length h = 20"
  shows "VerifyScript env (push_bytes (push_bytes [] sig) key) (p2pkh h) = Some
     (if Hash160_bytes key \<noteq> h then Inl SCRIPT_ERR_EQUALVERIFY
      else case check_encodings env sig key of
             Inl e \<Rightarrow> Inl e
           | Inr _ \<Rightarrow> if CheckSig (se_checker env) sig key
                            (fst (FindAndDelete (p2pkh h) (push_bytes [] sig)))
                      then Inr () else Inl SCRIPT_ERR_EVAL_FALSE)"
  using assms
  by (auto simp: VerifyScript_def EvalScript_two_pushes IsPushOnly_two_pushes EvalScript_p2pkh
      p2pkh_not_p2sh from_bool_def vchTrue_def vchFalse_def split: sum.split)

theorem VerifyScript_p2pkh_witness:
  "VerifyScript \<lparr> se_flags = 0, se_checker = BaseSignatureChecker, se_lowS = (\<lambda>_. True) \<rparr>
     (push_bytes (push_bytes [] [1, 2]) [3, 4]) (p2pkh (Hash160_bytes [3, 4])) =
   Some (Inl SCRIPT_ERR_EVAL_FALSE)"
proof -
  let ?env = "\<lparr> se_flags = 0, se_checker = BaseSignatureChecker, se_lowS = (\<lambda>_. True) \<rparr>"
  have h: "length (Hash160_bytes [3, 4]) = 20" by (rule length_Hash160)
  have "check_encodings ?env [1, 2] [3, 4] = Inr ()"
    by (simp add: check_encodings_def CheckSignatureEncoding_def CheckPubKeyEncoding_def flag_def)
  then show ?thesis
    using VerifyScript_p2pkh [of "[1, 2]" "[3, 4]" "Hash160_bytes [3, 4]" ?env] h
    by (simp add: BaseSignatureChecker_def)
qed


section \<open>Multiple signatures\<close>

text \<open>The greedy walk of the loop finds a matching whenever there is one that respects the order.\<close>

lemma list_emb_drop_key: "\<not> P x y \<Longrightarrow> list_emb P (x # xs) (y # ys) \<longleftrightarrow> list_emb P (x # xs) ys"
  by (auto elim: list_emb.cases)

lemma list_emb_use_key: "P x y \<Longrightarrow> list_emb P (x # xs) (y # ys) \<longleftrightarrow> list_emb P xs ys"
proof
  assume "P x y" and "list_emb P (x # xs) (y # ys)"
  then show "list_emb P xs ys"
    by (auto elim!: list_emb.cases [of P "x # xs" "y # ys"] dest: list_emb_ConsD)
qed (rule list_emb_Cons2)

lemma multisig_loop_matching:
  assumes "\<forall>sg\<in>set sigs. \<forall>k\<in>set keys. check_encodings env sg k = Inr ()" "length sigs \<le> length keys"
  shows "multisig_loop env code sigs keys =
    Inr (list_emb (\<lambda>sg k. CheckSig (se_checker env) sg k code) sigs keys)"
  using assms
proof (induction env code sigs keys rule: multisig_loop.induct)
  case (3 env code sg sigs key keys)
  let ?P = "\<lambda>sg k. CheckSig (se_checker env) sg k code"
  have c: "check_encodings env sg key = Inr ()" using "3.prems" by simp
  show ?case
  proof (cases "?P sg key")
    case True
    have "multisig_loop env code sigs keys = Inr (list_emb ?P sigs keys)"
      using "3.IH" [OF c refl refl] "3.prems" True by auto
    then show ?thesis using c True "3.prems" by (simp add: list_emb_use_key)
  next
    case False
    then have e: "list_emb ?P (sg # sigs) (key # keys) = list_emb ?P (sg # sigs) keys"
      by (rule list_emb_drop_key)
    show ?thesis
    proof (cases "length (sg # sigs) > length keys")
      case True
      then have "\<not> list_emb ?P (sg # sigs) keys" using list_emb_length by fastforce
      then show ?thesis using c False True e by simp
    next
      case False': False
      then have "multisig_loop env code (sg # sigs) keys = Inr (list_emb ?P (sg # sigs) keys)"
        using "3.IH" [OF c refl refl] "3.prems" False by (auto simp: not_less)
      then show ?thesis using c False False' e by simp
    qed
  qed
qed simp_all

lemma CScriptNum_serialized: "length (num_serialize n) \<le> k \<Longrightarrow> CScriptNum (num_serialize n) m k = Inr n"
  using num_serialize_minimal [of n] by (auto simp: CScriptNum_def set_vch_serialize)

lemma script_num_small:
  assumes "n \<le> 20"
  shows "script_num env (num_serialize (int n)) 4 = Inr (int n) \<and> getint (int n) = int n"
proof -
  have "length (num_serialize (int n)) \<le> Suc 1" by (rule length_num_serialize) (use assms in simp)
  then have l: "length (num_serialize (int n)) \<le> 4" by simp
  have "CScriptNum (num_serialize (int n)) m 4 = Inr (int n)" for m
    using CScriptNum_serialized [of "int n" 4 m] l by simp
  then show ?thesis using assms by (simp add: script_num_def getint_def)
qed

text \<open>C12: \<open>m\<close>-of-\<open>n\<close> signatures.  With a stack as \<open>OP_CHECKMULTISIG\<close> expects it, an empty dummy
  element and acceptable encodings, the result is true exactly when the signatures can be matched
  with keys in their order, each signature valid for its key over the script without the
  signatures: the loop, which never goes back, misses no matching.  The operation count grows by
  the number of keys.\<close>

theorem checkmultisig_is_ordered_matching:
  assumes "length keys \<le> 20" "length sigs \<le> length keys" "n + length keys \<le> 201"
    "\<forall>sg\<in>set sigs. \<forall>k\<in>set keys. check_encodings env sg k = Inr ()"
  shows "op_checkmultisig env OP_CHECKMULTISIG code n
      (num_serialize (int (length keys)) # keys @ num_serialize (int (length sigs)) # sigs @ [] # s) =
    Inr (n + length keys, from_bool (list_emb (\<lambda>sg k. CheckSig (se_checker env) sg k
      (foldl (\<lambda>c sg. fst (FindAndDelete c (push_bytes [] sg))) code sigs)) sigs keys) # s)"
proof -
  have "length sigs \<le> 20" using assms(1,2) by simp
  with script_num_small [OF assms(1)] script_num_small [OF this] show ?thesis
    using assms multisig_loop_matching [OF assms(4,2)]
    by (simp add: op_checkmultisig_def Let_def nth_append)
qed

theorem checkmultisig_is_ordered_matching_witness:
  "op_checkmultisig \<lparr> se_flags = 0, se_checker = \<lparr> CheckSig = (\<lambda>sg k c. sg = k), CheckLockTime = (\<lambda>_. True) \<rparr>,
      se_lowS = (\<lambda>_. True) \<rparr> OP_CHECKMULTISIG [] 0
      (num_serialize 3 # [[1], [2], [3]] @ num_serialize 2 # [[1], [3]] @ [] # []) =
    Inr (3, [[1]])"
proof -
  let ?env = "\<lparr> se_flags = 0, se_checker = \<lparr> CheckSig = (\<lambda>sg k c. sg = k), CheckLockTime = (\<lambda>_. True) \<rparr>,
      se_lowS = (\<lambda>_. True) \<rparr>"
  have "check_encodings ?env sg k = Inr ()" for sg k
    by (simp add: check_encodings_def CheckSignatureEncoding_def CheckPubKeyEncoding_def flag_def)
  then show ?thesis
    using checkmultisig_is_ordered_matching [of "[[1], [2], [3]]" "[[1], [3]]" 0 ?env "[]" "[]"]
    by (simp add: from_bool_def vchTrue_def)
qed


section \<open>Pay to script hash\<close>

lemma p2sh_shape:
  assumes "IsPayToScriptHash spk"
  shows "\<exists>h. length h = 20 \<and> spk = OP_HASH160 # push_bytes [] h @ [OP_EQUAL]"
proof -
  have l: "length spk = 23" and n: "spk ! 0 = OP_HASH160" "spk ! 1 = 0x14" "spk ! 22 = OP_EQUAL"
    using assms by (simp_all add: IsPayToScriptHash_def)
  define h where "h = take 20 (drop 2 spk)"
  have h: "length h = 20" using l by (simp add: h_def)
  have "spk = take 2 spk @ take 20 (drop 2 spk) @ drop 20 (drop 2 spk)"
    by (simp only: append_take_drop_id)
  then have "spk = take 2 spk @ h @ drop 22 spk" by (simp add: h_def)
  moreover have "take 2 spk = [OP_HASH160, 0x14]"
    using l n by (intro nth_equalityI) (auto simp: less_2_cases_iff)
  moreover have "drop 22 spk = [OP_EQUAL]" using l n by (intro nth_equalityI) auto
  ultimately show ?thesis using h by (intro exI [of _ h]) (simp add: push_bytes_def)
qed

lemma EvalScript_p2sh:
  assumes "length h = 20" "length s \<le> 999"
  shows "EvalScript env (OP_HASH160 # push_bytes [] h @ [OP_EQUAL]) s =
    (case s of [] \<Rightarrow> Inl SCRIPT_ERR_INVALID_STACK_OPERATION
     | x # s' \<Rightarrow> Inr (from_bool (Hash160_bytes x = h) # s'))"
proof -
  let ?spk = "OP_HASH160 # push_bytes [] h @ [OP_EQUAL]"
  have l: "length ?spk \<le> 10000" using assms by (simp add: push_bytes_def)
  note ops = is_disabled_def exec_op_def stack_op_def on_stack_def op_hash_def crypto_hash_def
  show ?thesis
  proof (cases s)
    case Nil
    have "eval_loop env ?spk (est_init ?spk []) = Inl SCRIPT_ERR_INVALID_STACK_OPERATION"
      by (subst eval_loop_op) (simp_all add: ops est_init_def)
    then show ?thesis using l Nil by (simp add: EvalScript_def)
  next
    case (Cons x s')
    let ?st = "\<lambda>s n. \<lparr> est_stack = s, est_alt = [], vfExec = [], nOpCount = n, est_code = ?spk \<rparr>"
    have "eval_loop env ?spk (?st (x # s') 0) =
        eval_loop env (push_bytes [] h @ [OP_EQUAL]) (?st (Hash160_bytes x # s') (Suc 0))"
      using assms Cons by (subst eval_loop_op) (simp_all add: ops)
    moreover have "\<dots> = eval_loop env [OP_EQUAL] (?st (h # Hash160_bytes x # s') (Suc 0))"
      using assms Cons by (subst eval_loop_short_push) simp_all
    moreover have "\<dots> = Inr (?st (from_bool (Hash160_bytes x = h) # s') (Suc (Suc 0)))"
      using assms Cons by (subst eval_loop_op) (simp_all add: ops)
    ultimately show ?thesis using l Cons by (simp add: EvalScript_def est_init_def)
  qed
qed

text \<open>Without a bound on the stack: the empty stack always fails.\<close>

lemma EvalScript_p2sh_empty:
  "IsPayToScriptHash spk \<Longrightarrow> EvalScript env spk [] = Inl SCRIPT_ERR_INVALID_STACK_OPERATION"
  using p2sh_shape [of spk] EvalScript_p2sh [of _ "[]"] by force

text \<open>C10: Pay-to-script-hash.  The \<open>assert\<close> of \<open>VerifyScript\<close> never fails: \<open>VerifyScript\<close>
  always returns.  With the P2SH flag set, spending a script-hash output succeeds exactly when the
  \<open>scriptSig\<close> is push-only, leaves a redeem script on the top of a stack of at most 999
  elements that hashes to the hash in the output, and the redeem script evaluates to true on the
  rest of that stack.\<close>

theorem VerifyScript_p2sh:
  "VerifyScript env scriptSig spk \<noteq> None \<and>
   (flag env SCRIPT_VERIFY_P2SH \<and> IsPayToScriptHash spk \<and>
      (\<forall>s. EvalScript env scriptSig [] = Inr s \<longrightarrow> length s \<le> 999) \<longrightarrow>
     (VerifyScript env scriptSig spk = Some (Inr ()) \<longleftrightarrow>
       IsPushOnly scriptSig \<and>
       (\<exists>redeem rest t s. EvalScript env scriptSig [] = Inr (redeem # rest) \<and>
          spk = OP_HASH160 # push_bytes [] (Hash160_bytes redeem) @ [OP_EQUAL] \<and>
          EvalScript env redeem rest = Inr (t # s) \<and> CastToBool t)))"
proof (intro conjI impI)
  show "VerifyScript env scriptSig spk \<noteq> None"
    by (auto simp: VerifyScript_def Let_def EvalScript_p2sh_empty split: sum.splits list.splits)
next
  assume a: "flag env SCRIPT_VERIFY_P2SH \<and> IsPayToScriptHash spk \<and>
      (\<forall>s. EvalScript env scriptSig [] = Inr s \<longrightarrow> length s \<le> 999)"
  then obtain h where h: "length h = 20" "spk = OP_HASH160 # push_bytes [] h @ [OP_EQUAL]"
    using p2sh_shape by blast
  have inj: "push_bytes [] h = push_bytes [] (Hash160_bytes x) \<longleftrightarrow> h = Hash160_bytes x" for x
    using h(1) by (simp add: push_bytes_def)
  show "VerifyScript env scriptSig spk = Some (Inr ()) \<longleftrightarrow>
       IsPushOnly scriptSig \<and>
       (\<exists>redeem rest t s. EvalScript env scriptSig [] = Inr (redeem # rest) \<and>
          spk = OP_HASH160 # push_bytes [] (Hash160_bytes redeem) @ [OP_EQUAL] \<and>
          EvalScript env redeem rest = Inr (t # s) \<and> CastToBool t)"
  proof (cases "EvalScript env scriptSig []")
    case (Inl e)
    then show ?thesis by (simp add: VerifyScript_def)
  next
    case (Inr s)
    then have s: "length s \<le> 999" using a by blast
    have b: "CastToBool (from_bool c) \<longleftrightarrow> c" for c by (simp add: from_bool_def vchTrue_def vchFalse_def)
    show ?thesis
      using a Inr EvalScript_p2sh [OF h(1) s, of env] unfolding h(2)
      by (auto simp: VerifyScript_def Let_def inj b split: sum.splits list.splits if_splits)
  qed
qed

theorem VerifyScript_p2sh_witness:
  "VerifyScript \<lparr> se_flags = 1, se_checker = BaseSignatureChecker, se_lowS = (\<lambda>_. True) \<rparr>
     (push_bytes [] [OP_1, OP_NOP])
     (OP_HASH160 # push_bytes [] (Hash160_bytes [OP_1, OP_NOP]) @ [OP_EQUAL]) = Some (Inr ())"
proof -
  let ?env = "\<lparr> se_flags = 1, se_checker = BaseSignatureChecker, se_lowS = (\<lambda>_. True) \<rparr>"
  let ?spk = "OP_HASH160 # push_bytes [] (Hash160_bytes [OP_1, OP_NOP]) @ [OP_EQUAL]"
  have "flag ?env SCRIPT_VERIFY_P2SH" by (simp add: flag_def SCRIPT_VERIFY_P2SH_def)
  moreover have "IsPayToScriptHash ?spk"
    using length_Hash160 [of "[OP_1, OP_NOP]"] by (simp add: IsPayToScriptHash_def push_bytes_def nth_append)
  moreover have "IsPushOnly (push_bytes [] [OP_1, OP_NOP])" by (rule IsPushOnly_push) simp
  moreover have "EvalScript ?env (push_bytes [] [OP_1, OP_NOP]) [] = Inr [[OP_1, OP_NOP]]" by code_simp
  moreover have "EvalScript ?env [OP_1, OP_NOP] [] = Inr [[1]]" by code_simp
  ultimately show ?thesis
    using VerifyScript_p2sh [of ?env "push_bytes [] [OP_1, OP_NOP]" ?spk] by simp
qed


section \<open>Signature encodings\<close>

text \<open>A positive integer in the shortest big-endian form, and a signature as BIP 66 describes it.\<close>

definition der_integer :: "bytes \<Rightarrow> bool" where
  "der_integer R \<longleftrightarrow> R \<noteq> [] \<and> unat (hd R) < 128 \<and> (length R > 1 \<and> hd R = 0 \<longrightarrow> 128 \<le> unat (R ! 1))"

definition der_signature :: "bytes \<Rightarrow> bytes \<Rightarrow> u8 \<Rightarrow> bytes" where
  "der_signature R S hashtype =
     [0x30, of_nat (4 + length R + length S), 0x02, of_nat (length R)] @ R
     @ [0x02, of_nat (length S)] @ S @ [hashtype]"

lemma IsValidSignatureEncoding_der:
  assumes "der_integer R" "der_integer S" "length R + length S \<le> 66"
  shows "IsValidSignatureEncoding (der_signature R S ht)"
proof -
  obtain r R' where R: "R = r # R'" using assms(1) by (cases R) (auto simp: der_integer_def)
  obtain s S' where S: "S = s # S'" using assms(2) by (cases S) (auto simp: der_integer_def)
  let ?sig = "der_signature R S ht"
  have len: "length ?sig = length R + length S + 7" by (simp add: der_signature_def)
  have ix: "?sig ! 0 = 0x30" "?sig ! 1 = of_nat (4 + length R + length S)" "?sig ! 2 = 0x02"
    "?sig ! 3 = of_nat (length R)" "?sig ! 4 = r" "length R > 1 \<Longrightarrow> ?sig ! 5 = R ! 1"
    "?sig ! (length R + 4) = 0x02" "?sig ! (5 + length R) = of_nat (length S)"
    "?sig ! (length R + 6) = s" "length S > 1 \<Longrightarrow> ?sig ! (length R + 7) = S ! 1"
    by (auto simp: der_signature_def R S nth_append nth_Cons' Suc_diff_le)
  have u: "unat (of_nat (4 + length R + length S) :: u8) = 4 + length R + length S"
    "unat (of_nat (length R) :: u8) = length R" "unat (of_nat (length S) :: u8) = length S"
    unfolding unat_u8_of_nat using assms(3) by simp_all
  show ?thesis
    unfolding IsValidSignatureEncoding_def Let_def len ix(1-5,7-9) u
    using assms ix(6,10) by (auto simp: R S der_integer_def u8_sign ix(9) [unfolded R, simplified])
qed

lemma take_nths4: "4 \<le> length xs \<Longrightarrow> take 4 xs = [xs ! 0, xs ! 1, xs ! 2, xs ! 3]"
  and take_nths2: "2 \<le> length xs \<Longrightarrow> take 2 xs = [xs ! 0, xs ! 1]"
  by (cases xs; cases "tl xs"; cases "tl (tl xs)"; cases "tl (tl (tl xs))"; auto simp: numeral_eq_Suc)+

lemma der_signature_of_valid:
  assumes "IsValidSignatureEncoding sig"
  defines "n \<equiv> unat (sig ! 3)" and "m \<equiv> unat (sig ! (5 + unat (sig ! 3)))"
  shows "sig = der_signature (take n (drop 4 sig)) (take m (drop (6 + n) sig)) (last sig)
    \<and> der_integer (take n (drop 4 sig)) \<and> der_integer (take m (drop (6 + n) sig)) \<and> n + m \<le> 66"
proof -
  let ?R = "take n (drop 4 sig)" and ?S = "take m (drop (6 + n) sig)"
  have v: "length sig \<le> 73" "sig ! 0 = 0x30" "unat (sig ! 1) = length sig - 3"
    "n + m + 7 = length sig" "sig ! 2 = 0x02" "n \<noteq> 0" "sig ! 4 AND 0x80 = 0"
    "n > 1 \<and> sig ! 4 = 0 \<longrightarrow> sig ! 5 AND 0x80 \<noteq> 0" "sig ! (n + 4) = 0x02" "m \<noteq> 0"
    "sig ! (n + 6) AND 0x80 = 0" "m > 1 \<and> sig ! (n + 6) = 0 \<longrightarrow> sig ! (n + 7) AND 0x80 \<noteq> 0"
    using assms(1) unfolding IsValidSignatureEncoding_def Let_def n_def [symmetric] m_def [symmetric]
    by (simp_all add: Let_def n_def m_def split: if_splits)
  have lR: "length ?R = n" and lS: "length ?S = m" using v(4) by simp_all
  have R: "der_integer ?R"
    using v(4,6,7,8) by (auto simp: der_integer_def hd_drop_conv_nth u8_sign)
  have S: "der_integer ?S"
    using v(4,10-12) by (auto simp: der_integer_def hd_drop_conv_nth u8_sign ac_simps)
  have "sig = take 4 sig @ ?R @ take 2 (drop (4 + n) sig) @ ?S @ drop (6 + n + m) sig"
  proof -
    have "sig = take 4 sig @ drop 4 sig" by simp
    also have "drop 4 sig = ?R @ drop (4 + n) sig" by (simp add: ac_simps flip: drop_drop)
    also have "drop (4 + n) sig = take 2 (drop (4 + n) sig) @ drop (6 + n) sig"
      using append_take_drop_id [of 2 "drop (4 + n) sig"] by simp
    also have "drop (6 + n) sig = ?S @ drop (6 + n + m) sig"
      using append_take_drop_id [of m "drop (6 + n) sig"] by (simp add: ac_simps)
    finally show ?thesis .
  qed
  moreover have "take 4 sig = [0x30, of_nat (4 + n + m), 0x02, of_nat n]"
  proof -
    have "length sig - 3 = 4 + n + m" using v(4) by simp
    then have "sig ! 1 = of_nat (4 + n + m)" using v(3) by (metis of_nat_unat ucast_id)
    then show ?thesis using v by (simp add: take_nths4 n_def)
  qed
  moreover have "take 2 (drop (4 + n) sig) = [0x02, of_nat m]"
    using v by (simp add: take_nths2 ac_simps) (simp add: m_def n_def ac_simps)
  moreover have "drop (6 + n + m) sig = [last sig]"
  proof -
    have k: "6 + n + m = length sig - 1" "sig \<noteq> []" using v(4) by auto
    show ?thesis unfolding k(1) using k(2) append_butlast_last_id [of sig]
      by (metis One_nat_def append_eq_conv_conj length_butlast)
  qed
  ultimately show ?thesis using R S lR lS v(1,4) by (simp add: der_signature_def)
qed

text \<open>C28: \<open>IsValidSignatureEncoding\<close> accepts exactly the strict DER signatures with a hash type
  byte: \<open>30 total 02 |R| R 02 |S| S hashtype\<close> with \<open>R\<close> and \<open>S\<close> positive integers in their
  shortest form, at most 73 bytes in all.\<close>

theorem IsValidSignatureEncoding_iff_der:
  "IsValidSignatureEncoding sig \<longleftrightarrow>
     (\<exists>R S ht. sig = der_signature R S ht \<and> der_integer R \<and> der_integer S \<and> length R + length S \<le> 66)"
proof
  assume v: "IsValidSignatureEncoding sig"
  note d = der_signature_of_valid [OF v]
  show "\<exists>R S ht. sig = der_signature R S ht \<and> der_integer R \<and> der_integer S \<and> length R + length S \<le> 66"
    using d by (intro exI conjI, blast, blast, blast) (auto intro: le_trans)
qed (auto intro: IsValidSignatureEncoding_der)

end
