(* ===== verification/Transaction.thy ===== *)
theory Transaction
  imports Script Hash Interpreter
begin

unbundle bit_operations_syntax

text \<open>
  Transactions: \<open>src/primitives/transaction.h\<close> and \<open>src/primitives/transaction.cpp\<close>, amounts
  and fee rates (\<open>src/amount.h\<close>, \<open>src/amount.cpp\<close>), and the signature hash and the transaction
  signature checker of \<open>src/script/interpreter.cpp\<close>.  A \<open>CAmount\<close> is a 64-bit word read with its
  sign.  A \<open>CTransaction\<close> carries its cached hash as a field, as in the code; a
  \<open>CMutableTransaction\<close> is the record without it.  The lemmas show the codec contract of inputs,
  outputs and transactions, what \<open>GetValueOut\<close> guards against, and that the signature hash is
  the hash of a modified copy of the transaction.
\<close>

section \<open>Amounts\<close>

type_synonym amount = u64

definition COIN :: amount where "COIN = 100000000"
definition CENT :: amount where "CENT = 1000000"

record CFeeRate =
  nSatoshisPerK :: amount

text \<open>\<open>nFeePaid * 1000 / nSize\<close>: \<open>nSize\<close> is a \<open>size_t\<close>, so the division is unsigned.\<close>

definition CFeeRate_of :: "amount \<Rightarrow> u64 \<Rightarrow> CFeeRate" where
  "CFeeRate_of nFeePaid nSize =
     \<lparr> nSatoshisPerK = (if nSize > 0 then nFeePaid * 1000 div nSize else 0) \<rparr>"

definition GetFee :: "CFeeRate \<Rightarrow> u64 \<Rightarrow> amount" where
  "GetFee r nSize =
     (let nFee = nSatoshisPerK r * nSize div 1000 in
      if nFee = 0 \<and> 0 <s nSatoshisPerK r then nSatoshisPerK r else nFee)"

definition GetFeePerK :: "CFeeRate \<Rightarrow> amount" where
  "GetFeePerK r = GetFee r 1000"

definition CFeeRate_less :: "CFeeRate \<Rightarrow> CFeeRate \<Rightarrow> bool" where
  "CFeeRate_less a b \<longleftrightarrow> nSatoshisPerK a <s nSatoshisPerK b"

section \<open>Outpoints, inputs and outputs\<close>

record COutPoint =
  op_hash :: limbs
  op_n :: u32

definition COutPoint_null :: COutPoint where
  "COutPoint_null = \<lparr> op_hash = bu_zero 8, op_n = - 1 \<rparr>"

definition COutPoint_IsNull :: "COutPoint \<Rightarrow> bool" where
  "COutPoint_IsNull o1 \<longleftrightarrow> IsNull (op_hash o1) \<and> op_n o1 = - 1"

text \<open>\<open>base_uint\<close>'s \<open>operator<\<close> is \<open>CompareTo(b) < 0\<close>.\<close>

definition COutPoint_less :: "COutPoint \<Rightarrow> COutPoint \<Rightarrow> bool" where
  "COutPoint_less a b \<longleftrightarrow> CompareTo (op_hash a) (op_hash b) < 0
     \<or> (op_hash a = op_hash b \<and> op_n a < op_n b)"

definition COutPoint_GetHash :: "COutPoint \<Rightarrow> limbs" where
  "COutPoint_GetHash o1 = limbs_of_bytes (Hash2_bytes (pn_bytes (op_hash o1)) (le_bytes 4 (unat (op_n o1))))"

record CTxIn =
  prevout :: COutPoint
  scriptSig :: bytes
  nSequence :: u32
  prevPubKey :: bytes

definition CTxIn_default :: CTxIn where
  "CTxIn_default = \<lparr> prevout = COutPoint_null, scriptSig = [], nSequence = - 1, prevPubKey = [] \<rparr>"

definition CTxIn_of :: "COutPoint \<Rightarrow> bytes \<Rightarrow> u32 \<Rightarrow> CTxIn" where
  "CTxIn_of prevoutIn scriptSigIn nSequenceIn =
     \<lparr> prevout = prevoutIn, scriptSig = scriptSigIn, nSequence = nSequenceIn, prevPubKey = [] \<rparr>"

definition IsFinal :: "CTxIn \<Rightarrow> bool" where
  "IsFinal txin \<longleftrightarrow> nSequence txin = - 1"

definition CTxIn_IsZerocoinSpend :: "CTxIn \<Rightarrow> bool" where
  "CTxIn_IsZerocoinSpend txin \<longleftrightarrow> EqualTo (op_hash (prevout txin)) 0 \<and> IsZerocoinSpend (scriptSig txin)"

definition CTxIn_IsZerocoinPublicSpend :: "CTxIn \<Rightarrow> bool" where
  "CTxIn_IsZerocoinPublicSpend txin \<longleftrightarrow> IsZerocoinPublicSpend (scriptSig txin)"

definition CTxIn_eq :: "CTxIn \<Rightarrow> CTxIn \<Rightarrow> bool" where
  "CTxIn_eq a b \<longleftrightarrow> prevout a = prevout b \<and> scriptSig a = scriptSig b \<and> nSequence a = nSequence b"

record CTxOut =
  nValue :: amount
  scriptPubKey :: bytes
  nRounds :: u32

definition CTxOut_null :: CTxOut where
  "CTxOut_null = \<lparr> nValue = - 1, scriptPubKey = [], nRounds = - 10 \<rparr>"

definition CTxOut_of :: "amount \<Rightarrow> bytes \<Rightarrow> CTxOut" where
  "CTxOut_of nValueIn scriptPubKeyIn =
     \<lparr> nValue = nValueIn, scriptPubKey = scriptPubKeyIn, nRounds = - 10 \<rparr>"

definition CTxOut_IsNull :: "CTxOut \<Rightarrow> bool" where
  "CTxOut_IsNull txo \<longleftrightarrow> nValue txo = - 1"

definition CTxOut_SetEmpty :: "CTxOut \<Rightarrow> CTxOut" where
  "CTxOut_SetEmpty txo = txo\<lparr> nValue := 0, scriptPubKey := [] \<rparr>"

definition CTxOut_IsEmpty :: "CTxOut \<Rightarrow> bool" where
  "CTxOut_IsEmpty txo \<longleftrightarrow> nValue txo = 0 \<and> scriptPubKey txo = []"

definition CTxOut_IsZerocoinMint :: "CTxOut \<Rightarrow> bool" where
  "CTxOut_IsZerocoinMint txo = IsZerocoinMint (scriptPubKey txo)"

definition CTxOut_GetZerocoinMinted :: "CTxOut \<Rightarrow> amount" where
  "CTxOut_GetZerocoinMinted txo = (if \<not> CTxOut_IsZerocoinMint txo then 0 else nValue txo)"

section \<open>Transactions\<close>

record CMutableTransaction =
  nVersion :: u32
  vin :: "CTxIn list"
  vout :: "CTxOut list"
  nLockTime :: u32

record CTransaction = CMutableTransaction +
  tx_hash :: limbs

definition CURRENT_VERSION :: u32 where "CURRENT_VERSION = 1"

definition CMutableTransaction_new :: CMutableTransaction where
  "CMutableTransaction_new = \<lparr> nVersion = CURRENT_VERSION, vin = [], vout = [], nLockTime = 0 \<rparr>"

definition CMutableTransaction_of :: "CTransaction \<Rightarrow> CMutableTransaction" where
  "CMutableTransaction_of tx = CMutableTransaction.truncate tx"

text \<open>Serialization.  \<open>FLATDATA\<close> of an outpoint is its 36 bytes of memory, the hash and then
  \<open>n\<close>.  The chunk sizes are \<open>5000000 / sizeof(CTxIn)\<close> and \<open>5000000 / sizeof(CTxOut)\<close>, with
  96 and 40 bytes on x86-64.\<close>

definition ser_outpoint :: "COutPoint \<Rightarrow> bytes" where
  "ser_outpoint o1 = ser_uint (op_hash o1) @ ser_u32 (op_n o1)"

definition unser_outpoint :: "COutPoint reader" where
  "unser_outpoint = rbind (unser_uint 8) (\<lambda>h. rbind unser_u32 (\<lambda>n.
     rreturn \<lparr> op_hash = h, op_n = n \<rparr>))"

definition ser_txin :: "CTxIn \<Rightarrow> bytes" where
  "ser_txin i = ser_outpoint (prevout i) @ ser_blob (scriptSig i) @ ser_u32 (nSequence i)"

definition unser_txin :: "CTxIn reader" where
  "unser_txin = rbind unser_outpoint (\<lambda>p. rbind unser_blob (\<lambda>s. rbind unser_u32 (\<lambda>n.
     rreturn (CTxIn_default\<lparr> prevout := p, scriptSig := s, nSequence := n \<rparr>))))"

definition ser_txout :: "CTxOut \<Rightarrow> bytes" where
  "ser_txout txo = ser_u64 (nValue txo) @ ser_blob (scriptPubKey txo)"

definition unser_txout :: "CTxOut reader" where
  "unser_txout = rbind unser_u64 (\<lambda>v. rbind unser_blob (\<lambda>s.
     rreturn (CTxOut_null\<lparr> nValue := v, scriptPubKey := s \<rparr>)))"

definition ser_tx :: "('a) CMutableTransaction_scheme \<Rightarrow> bytes" where
  "ser_tx tx = ser_u32 (nVersion tx) @ ser_vec ser_txin (vin tx) @ ser_vec ser_txout (vout tx)
     @ ser_u32 (nLockTime tx)"

definition unser_mutable_tx :: "CMutableTransaction reader" where
  "unser_mutable_tx = rbind unser_u32 (\<lambda>ver. rbind (unser_vec 52082 unser_txin) (\<lambda>is.
     rbind (unser_vec 124999 unser_txout) (\<lambda>os. rbind unser_u32 (\<lambda>lt.
       rreturn \<lparr> nVersion = ver, vin = is, vout = os, nLockTime = lt \<rparr>))))"

definition SerializeHash :: "bytes \<Rightarrow> limbs" where
  "SerializeHash s = HashWriter [s]"

definition CMutableTransaction_GetHash :: "CMutableTransaction \<Rightarrow> limbs" where
  "CMutableTransaction_GetHash tx = SerializeHash (ser_tx tx)"

definition UpdateHash :: "CTransaction \<Rightarrow> CTransaction" where
  "UpdateHash tx = tx\<lparr> tx_hash := SerializeHash (ser_tx tx) \<rparr>"

definition CTransaction_new :: CTransaction where
  "CTransaction_new = CMutableTransaction.extend CMutableTransaction_new \<lparr> tx_hash = bu_zero 8 \<rparr>"

definition CTransaction_of :: "CMutableTransaction \<Rightarrow> CTransaction" where
  "CTransaction_of tx = UpdateHash (CMutableTransaction.extend tx \<lparr> tx_hash = bu_zero 8 \<rparr>)"

definition unser_tx :: "CTransaction reader" where
  "unser_tx = rbind unser_mutable_tx (\<lambda>tx. rreturn (CTransaction_of tx))"

definition CTxOut_GetHash :: "CTxOut \<Rightarrow> limbs" where
  "CTxOut_GetHash txo = SerializeHash (ser_txout txo)"

definition IsDust :: "CTxOut \<Rightarrow> CFeeRate \<Rightarrow> bool" where
  "IsDust txo minRelayTxFee =
     (let nSize = of_nat (length (ser_txout txo)) + 148 in
      nValue txo <s 3 * GetFee minRelayTxFee nSize)"

definition tx_IsNull :: "CTransaction \<Rightarrow> bool" where
  "tx_IsNull tx \<longleftrightarrow> vin tx = [] \<and> vout tx = []"

definition HasZerocoinSpendInputs :: "CTransaction \<Rightarrow> bool" where
  "HasZerocoinSpendInputs tx \<longleftrightarrow>
     list_ex (\<lambda>i. CTxIn_IsZerocoinSpend i \<or> CTxIn_IsZerocoinPublicSpend i) (vin tx)"

definition HasZerocoinPublicSpendInputs :: "CTransaction \<Rightarrow> bool" where
  "HasZerocoinPublicSpendInputs tx \<longleftrightarrow> list_ex CTxIn_IsZerocoinPublicSpend (vin tx)"

definition HasZerocoinMintOutputs :: "CTransaction \<Rightarrow> bool" where
  "HasZerocoinMintOutputs tx \<longleftrightarrow> list_ex CTxOut_IsZerocoinMint (vout tx)"

definition ContainsZerocoins :: "CTransaction \<Rightarrow> bool" where
  "ContainsZerocoins tx \<longleftrightarrow>
     HasZerocoinSpendInputs tx \<or> HasZerocoinPublicSpendInputs tx \<or> HasZerocoinMintOutputs tx"

definition IsCoinBase :: "CTransaction \<Rightarrow> bool" where
  "IsCoinBase tx \<longleftrightarrow> length (vin tx) = 1 \<and> COutPoint_IsNull (prevout (vin tx ! 0)) \<and> \<not> ContainsZerocoins tx"

definition IsCoinStake :: "CTransaction \<Rightarrow> bool" where
  "IsCoinStake tx =
     (if vin tx = [] then False
      else let fAllowNull = CTxIn_IsZerocoinSpend (vin tx ! 0) in
        if COutPoint_IsNull (prevout (vin tx ! 0)) \<and> \<not> fAllowNull then False
        else length (vout tx) \<ge> 2 \<and> CTxOut_IsEmpty (vout tx ! 0))"

definition IsMasternodeReward :: "COutPoint \<Rightarrow> CTransaction \<Rightarrow> bool" where
  "IsMasternodeReward o1 tx =
     (if \<not> IsCoinStake tx then False
      else unat (op_n o1) = length (vout tx) - 1
           \<and> scriptPubKey (vout tx ! 1) \<noteq> scriptPubKey (vout tx ! unat (op_n o1)))"

datatype value_error = Value_negative | Value_wraps

text \<open>The sum wraps as the compiled addition does; the second test looks for the wrap.\<close>

fun value_out_loop :: "amount \<Rightarrow> CTxOut list \<Rightarrow> value_error + amount" where
  "value_out_loop nValueOut [] = Inr nValueOut"
| "value_out_loop nValueOut (txo # os) =
     (if nValue txo <s 0 then Inl Value_negative
      else if nValueOut + nValue txo <s nValueOut then Inl Value_wraps
      else value_out_loop (nValueOut + nValue txo) os)"

definition GetValueOut :: "CTransaction \<Rightarrow> value_error + amount" where
  "GetValueOut tx = value_out_loop 0 (vout tx)"

definition tx_GetZerocoinMinted :: "CTransaction \<Rightarrow> amount" where
  "tx_GetZerocoinMinted tx = foldl (\<lambda>n txo. n + CTxOut_GetZerocoinMinted txo) 0 (vout tx)"

definition GetZerocoinSpent :: "CTransaction \<Rightarrow> amount" where
  "GetZerocoinSpent tx = foldl (\<lambda>n i. if \<not> CTxIn_IsZerocoinSpend i then n
     else n + ucast (nSequence i) * COIN) 0 (vin tx)"

definition GetZerocoinMintCount :: "CTransaction \<Rightarrow> nat" where
  "GetZerocoinMintCount tx = length (filter CTxOut_IsZerocoinMint (vout tx))"

definition UsesUTXO :: "CTransaction \<Rightarrow> COutPoint \<Rightarrow> bool" where
  "UsesUTXO tx out1 \<longleftrightarrow> list_ex (\<lambda>i. prevout i = out1) (vin tx)"

definition GetOutPoints :: "CTransaction \<Rightarrow> COutPoint list" where
  "GetOutPoints tx = map (\<lambda>i. \<lparr> op_hash = tx_hash tx, op_n = of_nat i \<rparr>) [0..<length (vout tx)]"

definition GetTotalSize :: "CTransaction \<Rightarrow> u32" where
  "GetTotalSize tx = of_nat (length (ser_tx tx))"

definition CalculateModifiedSize :: "CTransaction \<Rightarrow> u32 \<Rightarrow> u32" where
  "CalculateModifiedSize tx nTxSize =
     foldl (\<lambda>n i. let offset = 41 + min 110 (of_nat (length (scriptSig i))) in
              if n > offset then n - offset else n)
       (if nTxSize = 0 then of_nat (length (ser_tx tx)) else nTxSize) (vin tx)"

section \<open>The codec contract of transactions\<close>

definition outpoint_ok :: "COutPoint \<Rightarrow> bool" where
  "outpoint_ok o1 \<longleftrightarrow> length (op_hash o1) = 8"

definition txin_ok :: "CTxIn \<Rightarrow> bool" where
  "txin_ok i \<longleftrightarrow> outpoint_ok (prevout i) \<and> length (scriptSig i) \<le> 33554432 \<and> prevPubKey i = []"

definition txout_ok :: "CTxOut \<Rightarrow> bool" where
  "txout_ok txo \<longleftrightarrow> length (scriptPubKey txo) \<le> 33554432 \<and> nRounds txo = - 10"

definition tx_parts_ok :: "('a) CMutableTransaction_scheme \<Rightarrow> bool" where
  "tx_parts_ok tx \<longleftrightarrow> (\<forall>i \<in> set (vin tx). txin_ok i) \<and> length (vin tx) \<le> 33554432 \<and>
     (\<forall>t \<in> set (vout tx). txout_ok t) \<and> length (vout tx) \<le> 33554432"

definition blob_size :: "bytes \<Rightarrow> nat" where
  "blob_size v = GetSizeOfCompactSize (of_nat (length v)) + length v"

definition vec_size :: "('a \<Rightarrow> nat) \<Rightarrow> 'a list \<Rightarrow> nat" where
  "vec_size f v = GetSizeOfCompactSize (of_nat (length v)) + sum_list (map f v)"

interpretation outpoint: sized_codec ser_outpoint unser_outpoint outpoint_ok "\<lambda>_. 36"
  by unfold_locales
    (simp_all add: ser_outpoint_def unser_outpoint_def outpoint_ok_def uint256.read_written
      u32.read_written uint256.size_law)

interpretation txin: sized_codec ser_txin unser_txin txin_ok "\<lambda>i. 40 + blob_size (scriptSig i)"
  by unfold_locales
    (simp_all add: ser_txin_def unser_txin_def txin_ok_def outpoint.read_written blob.read_written
      u32.read_written outpoint.size_law blob.size_law blob_size_def CTxIn_default_def)

interpretation txout: sized_codec ser_txout unser_txout txout_ok "\<lambda>t. 8 + blob_size (scriptPubKey t)"
  by unfold_locales
    (simp_all add: ser_txout_def unser_txout_def txout_ok_def blob.read_written u64.read_written
      blob.size_law blob_size_def CTxOut_null_def)

interpretation txins: vec_codec ser_txin unser_txin txin_ok "\<lambda>i. 40 + blob_size (scriptSig i)" 52082
  by unfold_locales

interpretation txouts: vec_codec ser_txout unser_txout txout_ok "\<lambda>t. 8 + blob_size (scriptPubKey t)" 124999
  by unfold_locales

definition tx_size :: "('a) CMutableTransaction_scheme \<Rightarrow> nat" where
  "tx_size tx = 8 + vec_size (\<lambda>i. 40 + blob_size (scriptSig i)) (vin tx)
     + vec_size (\<lambda>t. 8 + blob_size (scriptPubKey t)) (vout tx)"

interpretation mtx: sized_codec "ser_tx :: CMutableTransaction \<Rightarrow> bytes" unser_mutable_tx tx_parts_ok tx_size
  by unfold_locales
    (simp_all add: ser_tx_def unser_mutable_tx_def tx_parts_ok_def txins.vec.read_written
      txouts.vec.read_written u32.read_written txins.vec.size_law txouts.vec.size_law tx_size_def
      vec_size_def)

lemma ser_tx_truncate: "ser_tx (CMutableTransaction.truncate tx) = ser_tx (tx :: CTransaction)"
  by (simp add: ser_tx_def CMutableTransaction.defs)

lemma CTransaction_of_truncate:
  "tx_hash tx = SerializeHash (ser_tx tx) \<Longrightarrow> CTransaction_of (CMutableTransaction.truncate tx) = tx"
  by (cases tx) (simp add: CTransaction_of_def UpdateHash_def CMutableTransaction.defs ser_tx_def)

interpretation tx: codec "ser_tx :: CTransaction \<Rightarrow> bytes" unser_tx
    "\<lambda>tx. tx_parts_ok tx \<and> tx_hash tx = SerializeHash (ser_tx tx)"
proof unfold_locales
  fix tx :: CTransaction and r
  assume ok: "tx_parts_ok tx \<and> tx_hash tx = SerializeHash (ser_tx tx)"
  then have "tx_parts_ok (CMutableTransaction.truncate tx)"
    by (simp add: tx_parts_ok_def CMutableTransaction.defs)
  then have "unser_mutable_tx (ser_tx tx @ r) = Inr (CMutableTransaction.truncate tx, r)"
    using mtx.roundtrip [of "CMutableTransaction.truncate tx" r] by (simp add: ser_tx_truncate)
  then show "unser_tx (ser_tx tx @ r) = Inr (tx, r)"
    using ok by (simp add: unser_tx_def rbind_simps CTransaction_of_truncate)
qed

text \<open>C29: Transactions survive the wire.  Reading the serialization of a transaction whose cached
  hash is up to date gives the transaction back, cached hash included, and leaves what follows;
  two such transactions with the same bytes are equal; and the size computed from the lengths is
  the number of bytes written.\<close>

theorem transaction_roundtrip:
  assumes "tx_parts_ok tx" "tx_hash tx = SerializeHash (ser_tx tx)"
  shows "unser_tx (ser_tx tx @ r) = Inr (tx, r) \<and> length (ser_tx tx) = tx_size tx \<and>
    CTransaction_of (CMutableTransaction_of tx) = tx"
proof -
  have "tx_parts_ok (CMutableTransaction.truncate tx)"
    using assms(1) by (simp add: tx_parts_ok_def CMutableTransaction.defs)
  then have "length (ser_tx tx) = tx_size (CMutableTransaction.truncate tx)"
    using mtx.size_law [of "CMutableTransaction.truncate tx"] by (simp add: ser_tx_truncate)
  moreover have "\<dots> = tx_size tx" by (simp add: tx_size_def CMutableTransaction.defs)
  ultimately show ?thesis
    using tx.roundtrip [of tx r] assms
    by (simp add: CTransaction_of_truncate CMutableTransaction_of_def)
qed

theorem transaction_roundtrip_witness:
  "unser_tx (ser_tx (CTransaction_of CMutableTransaction_new) @ [1]) =
     Inr (CTransaction_of CMutableTransaction_new, [1])"
proof -
  let ?tx = "CTransaction_of CMutableTransaction_new"
  have "tx_parts_ok ?tx" "tx_hash ?tx = SerializeHash (ser_tx ?tx)"
    by (simp_all add: tx_parts_ok_def CTransaction_of_def UpdateHash_def CMutableTransaction_new_def
        CMutableTransaction.defs ser_tx_def)
  from transaction_roundtrip [OF this, of "[1]"] show ?thesis by blast
qed

section \<open>The value of the outputs\<close>

lemma u64_sint: "sint (x :: u64) = (if unat x < 9223372036854775808 then int (unat x)
    else int (unat x) - 18446744073709551616)"
proof -
  have lt: "unat x < 2 ^ Suc 63" using unsigned_less [of x, where 'a = nat] by simp
  have "bit (unat x) 63 \<longleftrightarrow> 2 ^ 63 \<le> unat x" by (rule half_step) (use lt in simp)
  moreover have "bit (uint x) 63 \<longleftrightarrow> bit (unat x) 63" by (simp add: bit_unsigned_iff)
  moreover have "sint x = take_bit (Suc 63) (uint x) - 2 ^ Suc 63 * of_bool (bit (uint x) 63)"
    by (simp add: sint_uint signed_take_bit_eq_take_bit_minus)
  moreover have "take_bit (Suc 63) (uint x) = int (unat x)"
    by (simp add: take_bit_int_eq_self unsigned_less [of x, where 'a = int, simplified])
  ultimately show ?thesis by auto
qed


lemma sint_add_nonneg:
  fixes a b :: u64
  assumes "0 \<le> sint a" "0 \<le> sint b"
  shows "sint (a + b) = (if sint a + sint b < 9223372036854775808 then sint a + sint b
    else sint a + sint b - 18446744073709551616)"
proof -
  have a: "unat a < 9223372036854775808" "sint a = int (unat a)"
    and b: "unat b < 9223372036854775808" "sint b = int (unat b)"
    using assms unat_u64_less [of a] unat_u64_less [of b] u64_sint [of a] u64_sint [of b]
    by (auto split: if_splits simp del: unat_u64_less)
  have "unat (a + b) = unat a + unat b" by (rule unat_add_exact) (use a b in simp)
  moreover have "(if x + y < 9223372036854775808 then int (x + y) else int (x + y) - 18446744073709551616)
      = (if int x + int y < 9223372036854775808 then int x + int y else int x + int y - 18446744073709551616)"
    for x y :: nat by auto
  ultimately show ?thesis using u64_sint [of "a + b"] unfolding a(2) b(2) by metis
qed

definition sum_values :: "CTxOut list \<Rightarrow> int" where
  "sum_values os = (\<Sum>t\<leftarrow>os. sint (nValue t))"

lemma value_out_loop_Inr:
  "0 \<le> sint n \<Longrightarrow> value_out_loop n os = Inr v \<longleftrightarrow>
    (\<forall>t \<in> set os. 0 \<le> sint (nValue t)) \<and> sint n + sum_values os < 2 ^ 63 \<and> sint v = sint n + sum_values os"
proof (induction n os rule: value_out_loop.induct)
  case (1 n)
  have "sint n < 2 ^ 63" using sint_lt [of n] by simp
  moreover have "n = v \<longleftrightarrow> sint v = sint n" by (metis signed_word_eqI)
  ultimately show ?case by (auto simp: sum_values_def)
next
  case (2 n txo os)
  let ?x = "nValue txo"
  show ?case
  proof (cases "0 \<le> sint ?x")
    case True
    have nonneg: "0 \<le> sum_values os" if "\<forall>t \<in> set os. 0 \<le> sint (nValue t)"
      unfolding sum_values_def using that by (intro sum_list_nonneg) auto
    show ?thesis
    proof (cases "sint n + sint ?x < 2 ^ 63")
      case fits: True
      then have s: "sint (n + ?x) = sint n + sint ?x" using sint_add_nonneg [OF "2.prems" True] by simp
      then have "value_out_loop n (txo # os) = value_out_loop (n + ?x) os"
        using True by (simp add: word_sless_alt)
      moreover have "0 \<le> sint (n + ?x)" using s True "2.prems" by simp
      ultimately show ?thesis
        using "2.IH" s True by (simp add: word_sless_alt sum_values_def add.assoc)
    next
      case False
      have "sint ?x < 2 ^ 63" using sint_lt [of ?x] by simp
      then have "sint (n + ?x) < sint n" using sint_add_nonneg [OF "2.prems" True] False by simp
      then have "value_out_loop n (txo # os) = Inl Value_wraps" using True by (simp add: word_sless_alt)
      then show ?thesis using False nonneg by (auto simp: sum_values_def)
    qed
  next
    case False
    then show ?thesis by (auto simp: word_sless_alt)
  qed
qed



section \<open>The signature hash\<close>

text \<open>\<open>CTransactionSignatureSerializer\<close>.  \<open>hashtype\<close> is the \<open>int\<close> of the code.\<close>

record sig_serializer =
  txTo :: CTransaction
  scriptCode :: bytes
  nIn :: nat
  fAnyoneCanPay :: bool
  fHashSingle :: bool
  fHashNone :: bool

definition sig_serializer_of :: "CTransaction \<Rightarrow> bytes \<Rightarrow> nat \<Rightarrow> u32 \<Rightarrow> sig_serializer" where
  "sig_serializer_of tx code n hashtype =
     \<lparr> txTo = tx, scriptCode = code, nIn = n,
       fAnyoneCanPay = (hashtype AND 0x80 \<noteq> 0),
       fHashSingle = (hashtype AND 0x1f = 3),
       fHashNone = (hashtype AND 0x1f = 2) \<rparr>"

text \<open>The first loop of \<open>SerializeScriptCode\<close> counts the separators.  The second writes the bytes
  between them: \<open>pend\<close> are the bytes since \<open>itBegin\<close>.  It stops where \<open>GetOp\<close> fails, with \<open>it\<close>
  where the failing \<open>GetOp\<close> left it.\<close>

function count_separators :: "bytes \<Rightarrow> nat" where
  "count_separators it =
     (if go_ok (GetOp2 it)
      then (if go_opcode (GetOp2 it) = OP_CODESEPARATOR then 1 else 0) + count_separators (go_pc (GetOp2 it))
      else 0)"
  by auto
termination
  by (relation "measure length") (auto simp: GetOp2_ok_nonempty)

declare count_separators.simps [simp del]

function write_code :: "bytes \<Rightarrow> bytes \<Rightarrow> bytes" where
  "write_code pend it =
     (let g = GetOp2 it; seen = take (length it - length (go_pc g)) it in
      if go_ok g then
        (if go_opcode g = OP_CODESEPARATOR then pend @ write_code [] (go_pc g)
         else write_code (pend @ seen) (go_pc g))
      else if pend @ it \<noteq> [] then pend @ seen else [])"
  by auto
termination
  by (relation "measure (\<lambda>(p, it). length it)") (auto simp: GetOp2_ok_nonempty)

declare write_code.simps [simp del]

definition SerializeScriptCode :: "bytes \<Rightarrow> bytes" where
  "SerializeScriptCode code =
     WriteCompactSize (of_nat (length code - count_separators code)) @ write_code [] code"

definition SerializeInput :: "sig_serializer \<Rightarrow> nat \<Rightarrow> bytes" where
  "SerializeInput S nInput =
     (let nInput = (if fAnyoneCanPay S then nIn S else nInput);
          i = vin (txTo S) ! nInput
      in ser_outpoint (prevout i)
         @ (if nInput \<noteq> nIn S then ser_blob [] else SerializeScriptCode (scriptCode S))
         @ (if nInput \<noteq> nIn S \<and> (fHashSingle S \<or> fHashNone S) then ser_u32 0
            else ser_u32 (nSequence i)))"

definition SerializeOutput :: "sig_serializer \<Rightarrow> nat \<Rightarrow> bytes" where
  "SerializeOutput S nOutput =
     (if fHashSingle S \<and> nOutput \<noteq> nIn S then ser_txout CTxOut_null
      else ser_txout (vout (txTo S) ! nOutput))"

definition sig_Serialize :: "sig_serializer \<Rightarrow> bytes" where
  "sig_Serialize S =
     (let tx = txTo S;
          nInputs = (if fAnyoneCanPay S then 1 else length (vin tx));
          nOutputs = (if fHashNone S then 0 else if fHashSingle S then nIn S + 1 else length (vout tx))
      in ser_u32 (nVersion tx)
         @ WriteCompactSize (of_nat nInputs) @ concat (map (SerializeInput S) [0..<nInputs])
         @ WriteCompactSize (of_nat nOutputs) @ concat (map (SerializeOutput S) [0..<nOutputs])
         @ ser_u32 (nLockTime tx))"

definition SignatureHash :: "bytes \<Rightarrow> CTransaction \<Rightarrow> nat \<Rightarrow> u32 \<Rightarrow> limbs" where
  "SignatureHash code tx n hashtype =
     (if n \<ge> length (vin tx) then of_u64 8 1
      else if hashtype AND 0x1f = 3 \<and> n \<ge> length (vout tx) then of_u64 8 1
      else HashWriter [sig_Serialize (sig_serializer_of tx code n hashtype), ser_u32 hashtype])"

text \<open>\<open>TransactionSignatureChecker\<close>.  \<open>CPubKey\<close> is the vendored elliptic-curve library behind
  \<open>pubkey.cpp\<close>: \<open>Verify pubkey sighash sig\<close> and \<open>IsValid pubkey\<close> are parameters.\<close>

record pubkey_ops =
  pk_IsValid :: "bytes \<Rightarrow> bool"
  pk_Verify :: "bytes \<Rightarrow> limbs \<Rightarrow> bytes \<Rightarrow> bool"

definition tx_CheckSig :: "pubkey_ops \<Rightarrow> CTransaction \<Rightarrow> nat \<Rightarrow> bytes \<Rightarrow> bytes \<Rightarrow> bytes \<Rightarrow> bool" where
  "tx_CheckSig pk tx n vchSigIn vchPubKey code =
     (if \<not> pk_IsValid pk vchPubKey then False
      else if vchSigIn = [] then False
      else let hashtype = ucast (last vchSigIn);
               vchSig = butlast vchSigIn;
               sighash = SignatureHash code tx n hashtype
           in pk_Verify pk vchPubKey sighash vchSig)"

definition tx_CheckLockTime :: "CTransaction \<Rightarrow> nat \<Rightarrow> int \<Rightarrow> bool" where
  "tx_CheckLockTime tx n lock =
     (let thr = int LOCKTIME_THRESHOLD; txlock = uint (nLockTime tx) in
      if \<not> ((txlock < thr \<and> lock < thr) \<or> (txlock \<ge> thr \<and> lock \<ge> thr)) then False
      else if lock > txlock then False
      else if IsFinal (vin tx ! n) then False
      else True)"

definition TransactionSignatureChecker :: "pubkey_ops \<Rightarrow> CTransaction \<Rightarrow> nat \<Rightarrow> sig_checker" where
  "TransactionSignatureChecker pk tx n =
     \<lparr> CheckSig = tx_CheckSig pk tx n, CheckLockTime = tx_CheckLockTime tx n \<rparr>"

section \<open>The signature hash as the hash of a modified copy\<close>

text \<open>A script that \<open>GetOp\<close> reads to its end.\<close>

function script_parses :: "bytes \<Rightarrow> bool" where
  "script_parses it =
     (if it = [] then True
      else if go_ok (GetOp2 it) then script_parses (go_pc (GetOp2 it)) else False)"
  by auto
termination
  by (relation "measure length") (auto intro: GetOp2_shrinks)

declare script_parses.simps [simp del]

lemma write_code_ok:
  "go_ok (GetOp2 it) \<Longrightarrow> write_code pend it =
    (if go_opcode (GetOp2 it) = OP_CODESEPARATOR then pend @ write_code [] (go_pc (GetOp2 it))
     else write_code (pend @ take (length it - length (go_pc (GetOp2 it))) it) (go_pc (GetOp2 it)))"
  by (subst write_code.simps) (simp add: Let_def)

lemma write_code_Nil: "write_code pend [] = pend"
  by (subst write_code.simps) (simp add: GetOp2_def Let_def)

lemma write_code_pend: "script_parses it \<Longrightarrow> write_code pend it = pend @ write_code [] it"
proof (induction it arbitrary: pend rule: script_parses.induct)
  case (1 it)
  show ?case
  proof (cases "it = []")
    case False
    then have ok: "go_ok (GetOp2 it)" "script_parses (go_pc (GetOp2 it))"
      using "1.prems" by (auto simp: script_parses.simps [of it] split: if_splits)
    note IH = "1.IH" [OF False ok]
    show ?thesis
      unfolding write_code_ok [OF ok(1), of pend] write_code_ok [OF ok(1), of "[]"]
      using IH [of "pend @ take (length it - length (go_pc (GetOp2 it))) it"]
        IH [of "[] @ take (length it - length (go_pc (GetOp2 it))) it"] by simp
  qed (simp add: write_code_Nil)
qed

lemma GetOp2_opcode: "go_ok (GetOp2 (c # r)) \<Longrightarrow> go_opcode (GetOp2 (c # r)) = c"
  by (auto simp: GetOp2_def split: option.splits if_splits)

lemma GetOp2_separator:
  "GetOp2 (0xab # r) = \<lparr> go_ok = True, go_opcode = 0xab, go_data = [], go_pc = r \<rparr>"
  by (simp add: GetOp2_def)

lemma strip_matches_single:
  "strip_matches [c] [] k = ([], k)" "strip_matches [c] (c # r) k = strip_matches [c] r (Suc k)"
  "d \<noteq> c \<Longrightarrow> strip_matches [c] (d # r) k = (d # r, k)"
  by (subst strip_matches.simps, simp)+

lemma find_delete_single:
  "find_delete [c] hd1 (c # r) k = find_delete [c] hd1 r (Suc k)"
  by (subst (1 2) find_delete.simps) (simp add: strip_matches_single(2))

lemma strip_separators:
  "script_parses it \<Longrightarrow>
    find_delete [0xab] hd1 it k = (hd1 @ write_code [] it, k + count_separators it) \<and>
    length (write_code [] it) + count_separators it = length it"
proof (induction it arbitrary: hd1 k rule: script_parses.induct)
  case (1 it)
  show ?case
  proof (cases it)
    case Nil
    have "find_delete [0xab] hd1 [] k = (hd1, k)"
      by (subst find_delete.simps) (simp add: strip_matches_single GetOp2_def)
    then show ?thesis using Nil by (simp add: write_code_Nil count_separators.simps [of "[]"] GetOp2_def)
  next
    case (Cons c r)
    then have ne: "it \<noteq> []" by simp
    then have ok: "go_ok (GetOp2 it)" "script_parses (go_pc (GetOp2 it))"
      using "1.prems" by (auto simp: script_parses.simps [of it] split: if_splits)
    note IH = "1.IH" [OF ne ok]
    show ?thesis
    proof (cases "c = 0xab")
      case True
      have g: "go_pc (GetOp2 it) = r" "go_opcode (GetOp2 it) = 0xab"
        by (simp_all add: Cons True GetOp2_separator)
      have "find_delete [0xab] hd1 it k = find_delete [0xab] hd1 r (Suc k)"
        by (simp only: Cons True find_delete_single)
      moreover have "write_code [] it = write_code [] r"
        by (simp add: write_code_ok [OF ok(1)] g del: Cons)
      moreover have "count_separators it = Suc (count_separators r)"
        using ok(1) g by (simp add: count_separators.simps [of it])
      moreover have "length it = Suc (length r)" by (simp add: Cons)
      ultimately show ?thesis using IH [of hd1 "Suc k"] by (simp add: g)
    next
      case False
      let ?seen = "take (length it - length (go_pc (GetOp2 it))) it"
      have op: "go_opcode (GetOp2 it) \<noteq> 0xab" using GetOp2_opcode ok(1) False Cons by simp
      obtain p where p: "it = p @ go_pc (GetOp2 it)" using GetOp2_suffix by blast
      have len: "length it - length (go_pc (GetOp2 it)) + length (go_pc (GetOp2 it)) = length it"
        using p by (metis diff_add_inverse2 length_append)
      have "find_delete [0xab] hd1 it k = find_delete [0xab] (hd1 @ ?seen) (go_pc (GetOp2 it)) k"
        using False ok(1)
        by (subst find_delete.simps) (simp add: Cons strip_matches_single(3) Let_def)
      moreover have "write_code [] it = ?seen @ write_code [] (go_pc (GetOp2 it))"
        using op by (simp add: write_code_ok [OF ok(1)] write_code_pend [OF ok(2), of ?seen])
      moreover have "count_separators it = count_separators (go_pc (GetOp2 it))"
        using ok(1) op by (simp add: count_separators.simps [of it])
      moreover have "length ?seen = length it - length (go_pc (GetOp2 it))" by simp
      ultimately show ?thesis
        using IH [of "hd1 @ ?seen" k] len
        by (metis Pair_inject append.assoc add.assoc length_append)
    qed
  qed
qed

lemma SerializeScriptCode_stripped:
  assumes "script_parses code"
  shows "SerializeScriptCode code = ser_blob (fst (FindAndDelete code [OP_CODESEPARATOR]))"
proof -
  have "find_delete [0xab] [] code 0 = (write_code [] code, count_separators code)"
    "length (write_code [] code) + count_separators code = length code"
    using strip_separators [OF assms, of "[]" 0] by simp_all
  moreover from this(2) have "length code - count_separators code = length (write_code [] code)" by linarith
  ultimately show ?thesis by (simp add: SerializeScriptCode_def ser_blob_def FindAndDelete_def)
qed

text \<open>The transaction that is hashed, in the words of the protocol: the script code in the input
  that is signed, empty scripts in the others, and the inputs, outputs and sequence numbers that
  the hash type does not cover left out, nulled or zeroed.\<close>

definition covered_input :: "bytes \<Rightarrow> nat \<Rightarrow> bool \<Rightarrow> nat \<Rightarrow> CTxIn \<Rightarrow> CTxIn" where
  "covered_input code n others_free j i =
     (if j = n then i\<lparr> scriptSig := code \<rparr>
      else i\<lparr> scriptSig := [], nSequence := (if others_free then 0 else nSequence i) \<rparr>)"

definition covered_tx :: "bytes \<Rightarrow> CTransaction \<Rightarrow> nat \<Rightarrow> u32 \<Rightarrow> CMutableTransaction" where
  "covered_tx code tx n hashtype =
     (let single = (hashtype AND 0x1f = 3); none = (hashtype AND 0x1f = 2);
          ins = map (\<lambda>j. covered_input code n (single \<or> none) j (vin tx ! j)) [0..<length (vin tx)]
      in \<lparr> nVersion = nVersion tx,
           vin = (if hashtype AND 0x80 \<noteq> 0 then [ins ! n] else ins),
           vout = (if none then [] else if single then replicate n CTxOut_null @ [vout tx ! n] else vout tx),
           nLockTime = nLockTime tx \<rparr>)"

lemma SerializeInput_covered:
  fixes hashtype :: u32 and n :: nat
  assumes "script_parses code" "j < length (vin tx)" "n < length (vin tx)"
  defines "S \<equiv> sig_serializer_of tx code n hashtype"
  shows "SerializeInput S j = ser_txin (covered_input (fst (FindAndDelete code [OP_CODESEPARATOR])) n
     (fHashSingle S \<or> fHashNone S) (if fAnyoneCanPay S then n else j) (vin tx ! (if fAnyoneCanPay S then n else j)))"
  using SerializeScriptCode_stripped [OF assms(1)]
  by (simp add: S_def sig_serializer_of_def SerializeInput_def covered_input_def ser_txin_def Let_def)

lemma sig_Serialize_covered:
  assumes "script_parses code" "n < length (vin tx)" "hashtype AND 0x1f = 3 \<longrightarrow> n < length (vout tx)"
  shows "sig_Serialize (sig_serializer_of tx code n hashtype) =
    ser_tx (covered_tx (fst (FindAndDelete code [OP_CODESEPARATOR])) tx n hashtype)"
proof -
  let ?S = "sig_serializer_of tx code n hashtype"
  let ?c = "covered_tx (fst (FindAndDelete code [OP_CODESEPARATOR])) tx n hashtype"
  let ?m = "if fAnyoneCanPay ?S then 1 else length (vin tx)"
  let ?k = "if fHashNone ?S then 0 else if fHashSingle ?S then n + 1 else length (vout tx)"
  have S: "txTo ?S = tx" "nIn ?S = n" "fAnyoneCanPay ?S \<longleftrightarrow> hashtype AND 0x80 \<noteq> 0"
    "fHashSingle ?S \<longleftrightarrow> hashtype AND 0x1f = 3" "fHashNone ?S \<longleftrightarrow> hashtype AND 0x1f = 2"
    by (simp_all add: sig_serializer_of_def)
  have "SerializeInput ?S j = ser_txin (vin ?c ! j)" if "j < ?m" for j
  proof -
    have "j < length (vin tx)" using that assms(2) by (auto split: if_splits)
    then show ?thesis
      using SerializeInput_covered [OF assms(1) _ assms(2), of j hashtype] that assms(2)
      by (auto simp: S covered_tx_def Let_def)
  qed
  moreover have lin: "length (vin ?c) = ?m" by (simp add: S covered_tx_def Let_def)
  ultimately have ins: "map (SerializeInput ?S) [0..<?m] = map ser_txin (vin ?c)"
    by (auto intro!: nth_equalityI)
  have "SerializeOutput ?S j = ser_txout (vout ?c ! j)" if "j < ?k" for j
    using that by (auto simp: SerializeOutput_def S covered_tx_def Let_def nth_append)
  moreover have lout: "length (vout ?c) = ?k" by (simp add: S covered_tx_def Let_def)
  ultimately have outs: "map (SerializeOutput ?S) [0..<?k] = map ser_txout (vout ?c)"
    by (auto intro!: nth_equalityI simp del: upt_Suc)
  have "nVersion ?c = nVersion tx" "nLockTime ?c = nLockTime tx"
    by (simp_all add: covered_tx_def Let_def)
  then show ?thesis
    unfolding sig_Serialize_def Let_def S(1,2) ser_tx_def ser_vec_def
    by (simp only: ins outs lin lout append.assoc)
qed

lemma HashWriter_Hash_bytes: "HashWriter ps = limbs_of_bytes (Hash_bytes (concat ps))"
  using CHash256_rep [OF rep256_writes [OF rep256(1)], of ps]
  by (simp add: HashWriter_def Hash_bytes_def CHash256_rep [OF rep256_one])

text \<open>C15: The signature hash.  The serializer that \<open>SignatureHash\<close> uses, which modifies the
  transaction while it writes it, hashes what one gets by copying the transaction, changing the
  copy as the hash type says and serializing it, followed by the hash type; the script code is
  what \<open>FindAndDelete\<close> of \<open>OP_CODESEPARATOR\<close> leaves of it.  Out of range the hash is 1.\<close>

theorem SignatureHash_of_covered_tx:
  "script_parses code \<longrightarrow> SignatureHash code tx n hashtype =
     (if n < length (vin tx) \<and> (hashtype AND 0x1f = 3 \<longrightarrow> n < length (vout tx))
      then limbs_of_bytes (Hash_bytes
        (ser_tx (covered_tx (fst (FindAndDelete code [OP_CODESEPARATOR])) tx n hashtype) @ ser_u32 hashtype))
      else of_u64 8 1)"
  using sig_Serialize_covered [of code n tx hashtype]
  by (simp add: SignatureHash_def HashWriter_Hash_bytes)

theorem SignatureHash_of_covered_tx_witness:
  "SignatureHash [OP_DUP, OP_CODESEPARATOR] (CTransaction_new\<lparr> vin := [CTxIn_default] \<rparr>) 0 1 =
     limbs_of_bytes (Hash_bytes
        (ser_tx (covered_tx (fst (FindAndDelete [OP_DUP, OP_CODESEPARATOR] [OP_CODESEPARATOR]))
            (CTransaction_new\<lparr> vin := [CTxIn_default] \<rparr>) 0 1) @ ser_u32 1))"
proof -
  have "script_parses [OP_DUP, OP_CODESEPARATOR]"
    by (simp add: script_parses.simps GetOp2_def)
  then show ?thesis
    using SignatureHash_of_covered_tx [of "[OP_DUP, OP_CODESEPARATOR]" "CTransaction_new\<lparr> vin := [CTxIn_default] \<rparr>" 0 1]
    by simp
qed

end
