(* ===== verification/Block.thy ===== *)
theory Block
  imports Transaction
begin

unbundle bit_operations_syntax

text \<open>
  Blocks and Merkle trees: \<open>src/primitives/block.h\<close>, \<open>src/primitives/block.cpp\<close>,
  \<open>src/merkleblock.h\<close>, \<open>src/merkleblock.cpp\<close>, and \<open>HashQuark\<close> of \<open>src/hash.h\<close>.  The Merkle
  tree of a block is the flat list \<open>vMerkleTree\<close> that the code appends to level after level; a
  partial Merkle tree is its record of bits and hashes, with 32-bit heights and positions.  The
  lemmas show that the flat list is the list of the tree's levels, that branches authenticate
  their transaction, that a tree without the mutation flag determines its transactions, and that
  a partial tree sent over the wire gives the matched transactions and the block's root back.
\<close>

section \<open>The Quark hash\<close>

text \<open>The six 512-bit hash functions of the vendored sph library are parameters.\<close>

record sph_functions =
  sph_blake512 :: "bytes \<Rightarrow> limbs"
  sph_bmw512 :: "bytes \<Rightarrow> limbs"
  sph_groestl512 :: "bytes \<Rightarrow> limbs"
  sph_jh512 :: "bytes \<Rightarrow> limbs"
  sph_keccak512 :: "bytes \<Rightarrow> limbs"
  sph_skein512 :: "bytes \<Rightarrow> limbs"

definition quark_mask :: "limbs \<Rightarrow> bool" where
  "quark_mask h \<longleftrightarrow> bu_and h (of_u64 16 8) \<noteq> of_u64 16 0"

definition HashQuark :: "sph_functions \<Rightarrow> bytes \<Rightarrow> limbs" where
  "HashQuark sph p =
     (let h0 = sph_blake512 sph p;
          h1 = sph_bmw512 sph (pn_bytes h0);
          h2 = (if quark_mask h1 then sph_groestl512 sph (pn_bytes h1) else sph_skein512 sph (pn_bytes h1));
          h3 = sph_groestl512 sph (pn_bytes h2);
          h4 = sph_jh512 sph (pn_bytes h3);
          h5 = (if quark_mask h4 then sph_blake512 sph (pn_bytes h4) else sph_bmw512 sph (pn_bytes h4));
          h6 = sph_keccak512 sph (pn_bytes h5);
          h7 = sph_skein512 sph (pn_bytes h6);
          h8 = (if quark_mask h7 then sph_keccak512 sph (pn_bytes h7) else sph_jh512 sph (pn_bytes h7))
      in trim256 h8)"

section \<open>Block headers and blocks\<close>

definition MAX_BLOCK_SIZE_CURRENT :: u32 where "MAX_BLOCK_SIZE_CURRENT = 2000000"
definition MAX_BLOCK_SIZE_LEGACY :: u32 where "MAX_BLOCK_SIZE_LEGACY = 1000000"

record CBlockHeader =
  bh_nVersion :: u32
  hashPrevBlock :: limbs
  hashMerkleRoot :: limbs
  nTime :: u32
  nBits :: u32
  nNonce :: u32
  nAccumulatorCheckpoint :: limbs

definition BLOCK_CURRENT_VERSION :: u32 where "BLOCK_CURRENT_VERSION = 6"

definition CBlockHeader_null :: CBlockHeader where
  "CBlockHeader_null = \<lparr> bh_nVersion = BLOCK_CURRENT_VERSION, hashPrevBlock = bu_zero 8,
     hashMerkleRoot = bu_zero 8, nTime = 0, nBits = 0, nNonce = 0, nAccumulatorCheckpoint = of_u64 8 0 \<rparr>"

definition header_IsNull :: "('a) CBlockHeader_scheme \<Rightarrow> bool" where
  "header_IsNull b \<longleftrightarrow> nBits b = 0"

definition GetBlockTime :: "('a) CBlockHeader_scheme \<Rightarrow> u64" where
  "GetBlockTime b = ucast (nTime b)"

text \<open>The fields of a header lie next to each other in memory, so that the bytes from
  \<open>nVersion\<close> to the end of \<open>nNonce\<close> are the serialization of those fields.\<close>

definition header_memory :: "('a) CBlockHeader_scheme \<Rightarrow> bytes" where
  "header_memory b = ser_u32 (bh_nVersion b) @ pn_bytes (hashPrevBlock b) @ pn_bytes (hashMerkleRoot b)
     @ ser_u32 (nTime b) @ ser_u32 (nBits b) @ ser_u32 (nNonce b)"

definition header_GetHash :: "sph_functions \<Rightarrow> ('a) CBlockHeader_scheme \<Rightarrow> limbs" where
  "header_GetHash sph b =
     (if bh_nVersion b <s 4 then HashQuark sph (header_memory b)
      else limbs_of_bytes (Hash_bytes (header_memory b @ pn_bytes (nAccumulatorCheckpoint b))))"

definition ser_header :: "('a) CBlockHeader_scheme \<Rightarrow> bytes" where
  "ser_header b = ser_u32 (bh_nVersion b) @ ser_uint (hashPrevBlock b) @ ser_uint (hashMerkleRoot b)
     @ ser_u32 (nTime b) @ ser_u32 (nBits b) @ ser_u32 (nNonce b)
     @ (if 3 <s bh_nVersion b then ser_uint (nAccumulatorCheckpoint b) else [])"

text \<open>Reading overwrites a header; the checkpoint of an old version keeps its value \<open>cp\<close>.\<close>

definition unser_header :: "limbs \<Rightarrow> CBlockHeader reader" where
  "unser_header cp = rbind unser_u32 (\<lambda>ver. rbind (unser_uint 8) (\<lambda>prev. rbind (unser_uint 8) (\<lambda>root.
     rbind unser_u32 (\<lambda>t. rbind unser_u32 (\<lambda>bits. rbind unser_u32 (\<lambda>nonce.
     rbind (if 3 <s ver then unser_uint 8 else rreturn cp) (\<lambda>acc.
       rreturn \<lparr> bh_nVersion = ver, hashPrevBlock = prev, hashMerkleRoot = root, nTime = t,
         nBits = bits, nNonce = nonce, nAccumulatorCheckpoint = acc \<rparr>)))))))"

record CBlock = CBlockHeader +
  vtx :: "CTransaction list"
  vchBlockSig :: bytes
  payee :: bytes
  vMerkleTree :: "limbs list"

definition block_body_null :: "CBlock \<Rightarrow> CBlock" where
  "block_body_null b = b\<lparr> vtx := [], vMerkleTree := [], payee := [], vchBlockSig := [] \<rparr>"

definition CBlock_of_header :: "CBlockHeader \<Rightarrow> CBlock" where
  "CBlock_of_header h = CBlockHeader.extend h
     \<lparr> vtx = [], vchBlockSig = [], payee = [], vMerkleTree = [] \<rparr>"

definition CBlock_null :: CBlock where
  "CBlock_null = CBlock_of_header CBlockHeader_null"

definition GetBlockHeader :: "CBlock \<Rightarrow> CBlockHeader" where
  "GetBlockHeader b = CBlockHeader.truncate b"

definition IsProofOfStake :: "CBlock \<Rightarrow> bool" where
  "IsProofOfStake b \<longleftrightarrow> length (vtx b) > 1 \<and> IsCoinStake (vtx b ! 1)"

definition IsProofOfWork :: "CBlock \<Rightarrow> bool" where
  "IsProofOfWork b \<longleftrightarrow> \<not> IsProofOfStake b"

definition IsZerocoinStake :: "CBlock \<Rightarrow> bool" where
  "IsZerocoinStake b \<longleftrightarrow> IsProofOfStake b \<and> HasZerocoinSpendInputs (vtx b ! 1)"

definition GetProofOfStake :: "CBlock \<Rightarrow> COutPoint \<times> u32" where
  "GetProofOfStake b =
     (if IsProofOfStake b then (prevout (vin (vtx b ! 1) ! 0), nTime b) else (COutPoint_null, 0))"

definition ser_block :: "CBlock \<Rightarrow> bytes" where
  "ser_block b = ser_header b @ ser_vec ser_tx (vtx b)
     @ (if length (vtx b) > 1 \<and> IsCoinStake (vtx b ! 1) then ser_blob (vchBlockSig b) else [])"

definition unser_block :: "CBlock \<Rightarrow> CBlock reader" where
  "unser_block old = rbind (unser_header (nAccumulatorCheckpoint old)) (\<lambda>h.
     rbind (unser_vec 52082 unser_tx) (\<lambda>txs.
     rbind (if length txs > 1 \<and> IsCoinStake (txs ! 1) then unser_blob else rreturn (vchBlockSig old)) (\<lambda>sig.
       rreturn (CBlockHeader.extend h
         \<lparr> vtx = txs, vchBlockSig = sig, payee = payee old, vMerkleTree = vMerkleTree old \<rparr>))))"

section \<open>The Merkle tree\<close>

definition merkle_hash :: "limbs \<Rightarrow> limbs \<Rightarrow> limbs" where
  "merkle_hash l r = limbs_of_bytes (Hash2_bytes (pn_bytes l) (pn_bytes r))"

text \<open>One round of the inner loop appends the parent of the nodes \<open>i\<close> and \<open>i2\<close> of the level
  that starts at \<open>j\<close>.\<close>

function merkle_level :: "nat \<Rightarrow> nat \<Rightarrow> nat \<Rightarrow> limbs list \<Rightarrow> bool \<Rightarrow> limbs list \<times> bool" where
  "merkle_level j nSize i tree mutated =
     (if i < nSize then
        let i2 = min (i + 1) (nSize - 1);
            mutated' = (mutated \<or> (i2 = i + 1 \<and> i2 + 1 = nSize \<and> tree ! (j + i) = tree ! (j + i2)))
        in merkle_level j nSize (i + 2) (tree @ [merkle_hash (tree ! (j + i)) (tree ! (j + i2))]) mutated'
      else (tree, mutated))"
  by auto
termination by (relation "measure (\<lambda>(j, nSize, i, tree, m). nSize - i)") auto

function merkle_loop :: "nat \<Rightarrow> nat \<Rightarrow> limbs list \<Rightarrow> bool \<Rightarrow> limbs list \<times> bool" where
  "merkle_loop j nSize tree mutated =
     (if nSize > 1 then
        let (tree', mutated') = merkle_level j nSize 0 tree mutated
        in merkle_loop (j + nSize) ((nSize + 1) div 2) tree' mutated'
      else (tree, mutated))"
  by auto
termination by (relation "measure (\<lambda>(j, nSize, tree, m). nSize)") auto

declare merkle_level.simps [simp del] merkle_loop.simps [simp del]

text \<open>The block with its tree rebuilt, the root and the flag.\<close>

definition BuildMerkleTree :: "CBlock \<Rightarrow> CBlock \<times> limbs \<times> bool" where
  "BuildMerkleTree b =
     (let (tree, mutated) = merkle_loop 0 (length (vtx b)) (map tx_hash (vtx b)) False
      in (b\<lparr> vMerkleTree := tree \<rparr>, (if tree = [] then bu_zero 8 else last tree), mutated))"

function branch_loop :: "limbs list \<Rightarrow> nat \<Rightarrow> nat \<Rightarrow> nat \<Rightarrow> limbs list" where
  "branch_loop tree j nSize nIndex =
     (if nSize > 1 then
        tree ! (j + min (nIndex XOR 1) (nSize - 1)) # branch_loop tree (j + nSize) ((nSize + 1) div 2) (drop_bit 1 nIndex)
      else [])"
  by auto
termination by (relation "measure (\<lambda>(tree, j, nSize, n). nSize)") auto

declare branch_loop.simps [simp del]

definition GetMerkleBranch :: "CBlock \<Rightarrow> nat \<Rightarrow> CBlock \<times> limbs list" where
  "GetMerkleBranch b nIndex =
     (let b' = (if vMerkleTree b = [] then fst (BuildMerkleTree b) else b)
      in (b', branch_loop (vMerkleTree b') 0 (length (vtx b')) nIndex))"

definition CheckMerkleBranch :: "limbs \<Rightarrow> limbs list \<Rightarrow> int \<Rightarrow> limbs" where
  "CheckMerkleBranch h vMerkleBranch nIndex =
     (if nIndex = - 1 then bu_zero 8
      else fst (foldl (\<lambda>(h, n) s. (if n AND 1 \<noteq> 0 then merkle_hash s h else merkle_hash h s, drop_bit 1 n))
        (h, nIndex) vMerkleBranch))"

section \<open>Block locators\<close>

type_synonym CBlockLocator = "limbs list"

definition ser_locator :: "bool \<Rightarrow> u32 \<Rightarrow> CBlockLocator \<Rightarrow> bytes" where
  "ser_locator gethash ver vHave = (if \<not> gethash then ser_u32 ver else []) @ ser_vec ser_uint vHave"

definition unser_locator :: "bool \<Rightarrow> CBlockLocator reader" where
  "unser_locator gethash = rbind (if \<not> gethash then unser_u32 else rreturn 0) (\<lambda>_. unser_vec 156249 (unser_uint 8))"


section \<open>Partial Merkle trees\<close>

record CPartialMerkleTree =
  nTransactions :: u32
  vBits :: "bool list"
  vHash :: "limbs list"
  fBad :: bool

definition CalcTreeWidth :: "u32 \<Rightarrow> nat \<Rightarrow> u32" where
  "CalcTreeWidth n height = drop_bit height (n + push_bit height 1 - 1)"

fun CalcHash :: "u32 \<Rightarrow> limbs list \<Rightarrow> nat \<Rightarrow> u32 \<Rightarrow> limbs" where
  "CalcHash n vTxid 0 pos = vTxid ! unat pos"
| "CalcHash n vTxid (Suc h) pos =
     (let left = CalcHash n vTxid h (pos * 2);
          right = (if pos * 2 + 1 < CalcTreeWidth n h then CalcHash n vTxid h (pos * 2 + 1) else left)
      in merkle_hash left right)"

text \<open>The walk appends to the bits and the hashes, which are its state.\<close>

definition parent_of_match :: "u32 \<Rightarrow> bool list \<Rightarrow> nat \<Rightarrow> u32 \<Rightarrow> bool" where
  "parent_of_match n vMatch h pos =
     list_ex (\<lambda>p. vMatch ! p) [unat (push_bit h pos)..<min (unat (push_bit h (pos + 1))) (unat n)]"

fun TraverseAndBuild :: "u32 \<Rightarrow> limbs list \<Rightarrow> bool list \<Rightarrow> nat \<Rightarrow> u32
    \<Rightarrow> bool list \<times> limbs list \<Rightarrow> bool list \<times> limbs list" where
  "TraverseAndBuild n vTxid vMatch 0 pos (bs, hs) =
     (bs @ [parent_of_match n vMatch 0 pos], hs @ [CalcHash n vTxid 0 pos])"
| "TraverseAndBuild n vTxid vMatch (Suc h) pos (bs, hs) =
     (let f = parent_of_match n vMatch (Suc h) pos in
      if \<not> f then (bs @ [f], hs @ [CalcHash n vTxid (Suc h) pos])
      else
        let s = TraverseAndBuild n vTxid vMatch h (pos * 2) (bs @ [f], hs) in
        if pos * 2 + 1 < CalcTreeWidth n h then TraverseAndBuild n vTxid vMatch h (pos * 2 + 1) s else s)"

record extract_state =
  es_bad :: bool
  nBitsUsed :: nat
  nHashUsed :: nat
  es_match :: "limbs list"

text \<open>\<open>height == 0 || !fParentOfMatch\<close>: the stored hash is used.\<close>

definition use_hash :: "CPartialMerkleTree \<Rightarrow> bool \<Rightarrow> extract_state \<Rightarrow> limbs \<times> extract_state" where
  "use_hash t matched s =
     (if nHashUsed s \<ge> length (vHash t) then (of_u64 8 0, s\<lparr> es_bad := True \<rparr>)
      else let h = vHash t ! nHashUsed s in
        (h, s\<lparr> nHashUsed := nHashUsed s + 1, es_match := es_match s @ (if matched then [h] else []) \<rparr>))"

fun TraverseAndExtract :: "CPartialMerkleTree \<Rightarrow> nat \<Rightarrow> u32 \<Rightarrow> extract_state \<Rightarrow> limbs \<times> extract_state" where
  "TraverseAndExtract t 0 pos s =
     (if nBitsUsed s \<ge> length (vBits t) then (of_u64 8 0, s\<lparr> es_bad := True \<rparr>)
      else use_hash t (vBits t ! nBitsUsed s) (s\<lparr> nBitsUsed := nBitsUsed s + 1 \<rparr>))"
| "TraverseAndExtract t (Suc h) pos s =
     (if nBitsUsed s \<ge> length (vBits t) then (of_u64 8 0, s\<lparr> es_bad := True \<rparr>)
      else
        let f = vBits t ! nBitsUsed s; s1 = s\<lparr> nBitsUsed := nBitsUsed s + 1 \<rparr> in
        if \<not> f then use_hash t False s1
        else
          let (left, s2) = TraverseAndExtract t h (pos * 2) s1;
              (right, s3) = (if pos * 2 + 1 < CalcTreeWidth (nTransactions t) h
                then TraverseAndExtract t h (pos * 2 + 1) s2 else (left, s2))
          in (merkle_hash left right, s3))"

text \<open>\<open>while (CalcTreeWidth(nHeight) > 1) nHeight++\<close>.  At height 32 the width is at most 1,
  as the shift empties the word.\<close>

function calc_height :: "u32 \<Rightarrow> nat \<Rightarrow> nat" where
  "calc_height n h = (if CalcTreeWidth n h > 1 then calc_height n (h + 1) else h)"
  by auto
termination
proof (relation "measure (\<lambda>(n, h). 32 - h)")
  fix n :: u32 and h
  assume wide: "CalcTreeWidth n h > 1"
  have "h < 32"
  proof (rule ccontr)
    assume "\<not> h < 32"
    then have "drop_bit h x = 0" for x :: u32 by (simp add: bit_eq_iff bit_drop_bit_eq impossible_bit)
    then show False using wide by (simp add: CalcTreeWidth_def)
  qed
  then show "((n, h + 1), n, h) \<in> measure (\<lambda>(n, h). 32 - h)" by simp
qed simp

declare calc_height.simps [simp del]

definition CPartialMerkleTree_of :: "limbs list \<Rightarrow> bool list \<Rightarrow> CPartialMerkleTree" where
  "CPartialMerkleTree_of vTxid vMatch =
     (let n = of_nat (length vTxid);
          (bs, hs) = TraverseAndBuild n vTxid vMatch (calc_height n 0) 0 ([], [])
      in \<lparr> nTransactions = n, vBits = bs, vHash = hs, fBad = False \<rparr>)"

definition CPartialMerkleTree_new :: CPartialMerkleTree where
  "CPartialMerkleTree_new = \<lparr> nTransactions = 0, vBits = [], vHash = [], fBad = True \<rparr>"

text \<open>The root or 0, the matches, and the tree with its flag.\<close>

definition ExtractMatches :: "CPartialMerkleTree \<Rightarrow> limbs \<times> limbs list \<times> CPartialMerkleTree" where
  "ExtractMatches t =
     (if nTransactions t = 0 then (of_u64 8 0, [], t)
      else if nTransactions t > MAX_BLOCK_SIZE_CURRENT div 60 then (of_u64 8 0, [], t)
      else if length (vHash t) > unat (nTransactions t) then (of_u64 8 0, [], t)
      else if length (vBits t) < length (vHash t) then (of_u64 8 0, [], t)
      else
        let (root, s) = TraverseAndExtract t (calc_height (nTransactions t) 0) 0
              \<lparr> es_bad = fBad t, nBitsUsed = 0, nHashUsed = 0, es_match = [] \<rparr>;
            t' = t\<lparr> fBad := es_bad s \<rparr>
        in if es_bad s then (of_u64 8 0, es_match s, t')
           else if (nBitsUsed s + 7) div 8 \<noteq> (length (vBits t) + 7) div 8 then (of_u64 8 0, es_match s, t')
           else if nHashUsed s \<noteq> length (vHash t) then (of_u64 8 0, es_match s, t')
           else (root, es_match s, t'))"

text \<open>The flag bits packed eight to a byte, the least significant bit first.\<close>

definition pack_bits :: "bool list \<Rightarrow> bytes" where
  "pack_bits bs = foldl (\<lambda>v p. v[p div 8 := v ! (p div 8) OR push_bit (p mod 8) (if bs ! p then 1 else 0)])
     (replicate ((length bs + 7) div 8) 0) [0..<length bs]"

definition unpack_bits :: "bytes \<Rightarrow> bool list" where
  "unpack_bits v = map (\<lambda>p. v ! (p div 8) AND push_bit (p mod 8) 1 \<noteq> 0) [0..<length v * 8]"

definition ser_pmt :: "CPartialMerkleTree \<Rightarrow> bytes" where
  "ser_pmt t = ser_u32 (nTransactions t) @ ser_vec ser_uint (vHash t) @ ser_blob (pack_bits (vBits t))"

definition unser_pmt :: "CPartialMerkleTree reader" where
  "unser_pmt = rbind unser_u32 (\<lambda>n. rbind (unser_vec 156249 (unser_uint 8)) (\<lambda>hs. rbind unser_blob (\<lambda>v.
     rreturn \<lparr> nTransactions = n, vBits = unpack_bits v, vHash = hs, fBad = False \<rparr>)))"

section \<open>The flat tree is the list of its levels\<close>

definition level_up :: "limbs list \<Rightarrow> limbs list" where
  "level_up hs = map (\<lambda>i. merkle_hash (hs ! (2 * i)) (hs ! min (2 * i + 1) (length hs - 1)))
     [0..<(length hs + 1) div 2]"

function merkle_levels :: "limbs list \<Rightarrow> limbs list list" where
  "merkle_levels hs = (if length hs > 1 then hs # merkle_levels (level_up hs) else [hs])"
  by auto
termination by (relation "measure length") (auto simp: level_up_def)

declare merkle_levels.simps [simp del]

lemma length_level_up [simp]: "length (level_up hs) = (length hs + 1) div 2"
  by (simp add: level_up_def)

lemma level_up_ne: "hs \<noteq> [] \<Longrightarrow> level_up hs \<noteq> []"
  by (cases hs) (simp_all add: level_up_def)

lemma level_up_nth:
  "i < (length hs + 1) div 2 \<Longrightarrow>
    level_up hs ! i = merkle_hash (hs ! (2 * i)) (hs ! min (2 * i + 1) (length hs - 1))"
  by (simp add: level_up_def)

text \<open>The flag: the last two nodes of a level are siblings and equal.\<close>

definition level_mutated :: "limbs list \<Rightarrow> bool" where
  "level_mutated hs \<longleftrightarrow> length hs > 1 \<and> even (length hs) \<and> hs ! (length hs - 2) = hs ! (length hs - 1)"

lemma merkle_level_eq:
  "even i \<Longrightarrow> j + length hs \<le> length tree \<Longrightarrow> (\<And>m. m < length hs \<Longrightarrow> tree ! (j + m) = hs ! m) \<Longrightarrow>
    merkle_level j (length hs) i tree mutated =
      (tree @ drop (i div 2) (level_up hs),
       mutated \<or> (i < length hs \<and> level_mutated hs))"
proof (induction j "length hs" i tree mutated rule: merkle_level.induct)
  case (1 j i tree mutated)
  show ?case
  proof (cases "i < length hs")
    case True
    let ?n = "length hs" and ?i2 = "min (i + 1) (length hs - 1)"
    obtain h where h: "i = 2 * h" using "1.prems"(1) by auto
    have hl: "h < (?n + 1) div 2" using True h by linarith
    have at: "tree ! (j + i) = hs ! i" "tree ! (j + ?i2) = hs ! ?i2"
      using "1.prems"(3) True by simp_all
    let ?t = "tree @ [merkle_hash (tree ! (j + i)) (tree ! (j + ?i2))]"
    let ?m = "mutated \<or> (?i2 = i + 1 \<and> ?i2 + 1 = ?n \<and> tree ! (j + i) = tree ! (j + ?i2))"
    have "merkle_level j ?n i tree mutated = merkle_level j ?n (i + 2) ?t ?m"
      using True by (subst merkle_level.simps) (simp add: Let_def)
    also have "\<dots> = (?t @ drop ((i + 2) div 2) (level_up hs), ?m \<or> (i + 2 < ?n \<and> level_mutated hs))"
    proof (rule "1.hyps" [OF True refl refl])
      show "even (i + 2)" using "1.prems"(1) by simp
      show "j + ?n \<le> length ?t" using "1.prems"(2) by simp
      show "?t ! (j + m) = hs ! m" if "m < ?n" for m
        using "1.prems"(2,3) that by (simp add: nth_append)
    qed
    also have "?t @ drop ((i + 2) div 2) (level_up hs) = tree @ drop (i div 2) (level_up hs)"
    proof -
      have "merkle_hash (tree ! (j + i)) (tree ! (j + ?i2)) = level_up hs ! h"
        unfolding at level_up_nth [OF hl] by (simp add: h)
      then show ?thesis using hl by (simp add: h Cons_nth_drop_Suc [symmetric])
    qed
    also have "(?m \<or> (i + 2 < ?n \<and> level_mutated hs)) = (mutated \<or> (i < ?n \<and> level_mutated hs))"
    proof (cases "i + 2 = ?n")
      case e: True
      then have n: "?n = 2 * (h + 1)" using h by simp
      then have "?i2 = i + 1" "?n - 2 = i" "?n - 1 = i + 1" "even ?n" "1 < ?n" using h by simp_all
      then show ?thesis using e at by (auto simp: level_mutated_def)
    next
      case e: False
      show ?thesis
      proof (cases "i + 1 = ?n")
        case True
        then have "?n = 2 * h + 1" using h by simp
        then have "odd ?n" by simp
        then show ?thesis using True by (auto simp: level_mutated_def)
      qed (use e True in auto)
    qed
    finally show ?thesis .
  next
    case False
    moreover obtain h where "i = 2 * h" using "1.prems"(1) by auto
    ultimately have "(length hs + 1) div 2 \<le> i div 2" by simp
    then show ?thesis using False by (subst merkle_level.simps) simp
  qed
qed

lemma merkle_loop_eq:
  "length tree = j + length hs \<Longrightarrow> drop j tree = hs \<Longrightarrow>
    merkle_loop j (length hs) tree mutated =
      (take j tree @ concat (merkle_levels hs), mutated \<or> list_ex level_mutated (merkle_levels hs))"
proof (induction hs arbitrary: j tree mutated rule: merkle_levels.induct)
  case (1 hs)
  show ?case
  proof (cases "length hs > 1")
    case True
    then have ne: "hs \<noteq> []" by auto
    have at: "tree ! (j + m) = hs ! m" if "m < length hs" for m
      using "1.prems" that by (metis le_add1 nth_drop)
    have "merkle_level j (length hs) 0 tree mutated = (tree @ level_up hs, mutated \<or> level_mutated hs)"
      using merkle_level_eq [of 0 j hs tree mutated] at "1.prems"(1) ne by simp
    moreover have "merkle_loop (j + length hs) (length (level_up hs)) (tree @ level_up hs) (mutated \<or> level_mutated hs)
        = (take (j + length hs) (tree @ level_up hs) @ concat (merkle_levels (level_up hs)),
           (mutated \<or> level_mutated hs) \<or> list_ex level_mutated (merkle_levels (level_up hs)))"
      by (rule "1.IH" [OF True]) (use "1.prems" in simp_all)
    moreover have "take (j + length hs) (tree @ level_up hs) = take j tree @ hs"
      using "1.prems" by (metis append_eq_conv_conj append_take_drop_id)
    ultimately show ?thesis
      using True by (subst merkle_loop.simps) (simp add: merkle_levels.simps [of hs])
  next
    case False
    then have "\<not> level_mutated hs" by (simp add: level_mutated_def)
    then show ?thesis
      using False "1.prems"
      by (subst merkle_loop.simps) (simp add: merkle_levels.simps [of hs] del: append_take_drop_id
          , metis append_take_drop_id)
  qed
qed

definition merkle_root :: "limbs list \<Rightarrow> limbs" where
  "merkle_root hs = (if hs = [] then bu_zero 8 else hd (last (merkle_levels hs)))"

lemma merkle_levels_Nil: "merkle_levels [] = [[]]"
  by (simp add: merkle_levels.simps)

lemma merkle_levels_single [simp]: "merkle_levels [y] = [[y]]"
  by (simp add: merkle_levels.simps)

lemma merkle_levels_ne [simp]: "merkle_levels hs \<noteq> []"
  by (subst merkle_levels.simps) simp

lemma last_merkle_levels: "hs \<noteq> [] \<Longrightarrow> length (last (merkle_levels hs)) = 1"
proof (induction hs rule: merkle_levels.induct)
  case (1 hs)
  show ?case
  proof (cases "length hs > 1")
    case True
    then have "level_up hs \<noteq> []" by (simp flip: length_greater_0_conv)
    then show ?thesis using "1.IH" [OF True] True by (simp add: merkle_levels.simps [of hs])
  next
    case False
    then have "length hs = 1" using "1.prems" by (cases hs) auto
    then show ?thesis by (simp add: merkle_levels.simps [of hs])
  qed
qed

lemma BuildMerkleTree_eq:
  "BuildMerkleTree b = (b\<lparr> vMerkleTree := concat (merkle_levels (map tx_hash (vtx b))) \<rparr>,
     merkle_root (map tx_hash (vtx b)), list_ex level_mutated (merkle_levels (map tx_hash (vtx b))))"
proof -
  let ?hs = "map tx_hash (vtx b)"
  have t: "merkle_loop 0 (length (vtx b)) ?hs False =
      (concat (merkle_levels ?hs), list_ex level_mutated (merkle_levels ?hs))"
    using merkle_loop_eq [of ?hs 0 ?hs False] by simp
  have "(if concat (merkle_levels ?hs) = [] then bu_zero 8 else last (concat (merkle_levels ?hs))) = merkle_root ?hs"
  proof (cases "vtx b = []")
    case True
    then show ?thesis by (simp add: merkle_root_def merkle_levels_Nil)
  next
    case False
    then have l: "length (last (merkle_levels ?hs)) = 1" by (intro last_merkle_levels) simp
    then obtain r where r: "last (merkle_levels ?hs) = [r]" by (auto simp: length_Suc_conv)
    then have "concat (merkle_levels ?hs) = concat (butlast (merkle_levels ?hs)) @ [r]"
      by (metis append_butlast_last_id concat.simps(1,2) concat_append merkle_levels_ne append_Nil2)
    then show ?thesis using False r by (simp add: merkle_root_def)
  qed
  then show ?thesis by (simp add: BuildMerkleTree_def t)
qed


section \<open>Branches\<close>

text \<open>The siblings of the node \<open>n\<close> on the way up.\<close>

function branch_of :: "limbs list \<Rightarrow> nat \<Rightarrow> limbs list" where
  "branch_of hs n = (if length hs > 1 then hs ! min (n XOR 1) (length hs - 1) # branch_of (level_up hs) (n div 2)
     else [])"
  by auto
termination by (relation "measure (\<lambda>(hs, n). length hs)") auto

declare branch_of.simps [simp del]

lemma branch_loop_eq:
  "drop j tree = concat (merkle_levels hs) \<Longrightarrow> branch_loop tree j (length hs) n = branch_of hs n"
proof (induction hs n arbitrary: j rule: branch_of.induct)
  case (1 hs n)
  show ?case
  proof (cases "length hs > 1")
    case True
    then have d: "drop j tree = hs @ concat (merkle_levels (level_up hs))"
      using "1.prems" by (simp add: merkle_levels.simps [of hs])
    have "j \<le> length tree" by (rule ccontr) (use d True in auto)
    moreover have "min (n XOR 1) (length hs - 1) < length hs" using True by simp
    ultimately have "tree ! (j + min (n XOR 1) (length hs - 1)) = hs ! min (n XOR 1) (length hs - 1)"
      using d by (metis nth_append nth_drop)
    moreover have "drop (j + length hs) tree = concat (merkle_levels (level_up hs))"
      using d by (metis add.commute append_eq_conv_conj drop_drop)
    ultimately show ?thesis
      using "1.IH" [OF True, of "j + length hs"] True
      by (simp add: branch_loop.simps [of tree j] branch_of.simps [of hs n] drop_bit_eq_div)
  next
    case False
    then show ?thesis by (simp add: branch_loop.simps [of tree j] branch_of.simps [of hs n])
  qed
qed

definition branch_step :: "limbs \<times> int \<Rightarrow> limbs \<Rightarrow> limbs \<times> int" where
  "branch_step = (\<lambda>(h, n) s. (if n AND 1 \<noteq> 0 then merkle_hash s h else merkle_hash h s, drop_bit 1 n))"

lemma branch_step_of_nat:
  "branch_step (h, int n) s = (if odd n then merkle_hash s h else merkle_hash h s, int (n div 2))"
proof -
  have "int n AND 1 = int n mod 2" by (simp add: and_one_eq)
  moreover have "int n mod 2 \<noteq> 0 \<longleftrightarrow> odd n" by presburger
  ultimately show ?thesis by (simp add: branch_step_def drop_bit_eq_div zdiv_int)
qed

lemma xor_1_nat: "(n :: nat) XOR Suc 0 = (if even n then n + 1 else n - 1)"
  by (simp add: xor_Suc_0_eq)

lemma sibling_hash:
  assumes "n < length hs" "length hs > 1"
  shows "(if odd n then merkle_hash (hs ! min (n XOR 1) (length hs - 1)) (hs ! n)
      else merkle_hash (hs ! n) (hs ! min (n XOR 1) (length hs - 1))) = level_up hs ! (n div 2)"
proof -
  have i: "n div 2 < (length hs + 1) div 2" using assms(1) by linarith
  show ?thesis
  proof (cases "odd n")
    case True
    then obtain k where "n = 2 * k + 1" by (rule oddE)
    moreover from this assms(1) have "min (2 * k) (length hs - 1) = 2 * k" "min (2 * k + 1) (length hs - 1) = 2 * k + 1"
      by linarith+
    ultimately show ?thesis using i by (simp add: level_up_nth xor_1_nat)
  next
    case False
    then obtain k where "n = 2 * k" by auto
    then show ?thesis using assms i by (simp add: level_up_nth xor_1_nat)
  qed
qed

lemma foldl_branch_of:
  "n < length hs \<Longrightarrow> fst (foldl branch_step (hs ! n, int n) (branch_of hs n)) = merkle_root hs"
proof (induction hs n rule: branch_of.induct)
  case (1 hs n)
  then have ne: "hs \<noteq> []" by auto
  show ?case
  proof (cases "length hs > 1")
    case True
    have lt: "n div 2 < length (level_up hs)" using "1.prems" by simp
    then have "level_up hs \<noteq> []" by (metis list.size(3) not_less_zero)
    then have "merkle_root hs = merkle_root (level_up hs)"
      using True ne by (simp add: merkle_root_def merkle_levels.simps [of hs])
    moreover have "branch_step (hs ! n, int n) (hs ! min (n XOR 1) (length hs - 1)) =
        (level_up hs ! (n div 2), int (n div 2))"
      using sibling_hash [OF "1.prems" True] unfolding branch_step_of_nat by simp
    ultimately show ?thesis
      using "1.IH" [OF True lt] True by (simp add: branch_of.simps [of hs n] del: One_nat_def)
  next
    case False
    then have "length hs = 1" "n = 0" using "1.prems" by auto
    moreover from this have "branch_of hs n = []" by (subst branch_of.simps) simp
    ultimately show ?thesis
      by (auto simp: merkle_root_def merkle_levels.simps [of hs] length_Suc_conv)
  qed
qed

text \<open>C30: A Merkle branch authenticates its transaction.  For every transaction of a block, folding the
  branch that \<open>GetMerkleBranch\<close> returns for its position with \<open>CheckMerkleBranch\<close> gives the root
  that \<open>BuildMerkleTree\<close> computes, whether or not the tree was built before.\<close>

theorem merkle_branch_authenticates:
  assumes "n < length (vtx b)" "vMerkleTree b = [] \<or> vMerkleTree b = vMerkleTree (fst (BuildMerkleTree b))"
  shows "CheckMerkleBranch (tx_hash (vtx b ! n)) (snd (GetMerkleBranch b n)) (int n) = fst (snd (BuildMerkleTree b))"
proof -
  let ?hs = "map tx_hash (vtx b)"
  have "snd (GetMerkleBranch b n) = branch_loop (concat (merkle_levels ?hs)) 0 (length (vtx b)) n"
    using assms(2) by (auto simp: GetMerkleBranch_def BuildMerkleTree_eq Let_def)
  also have "\<dots> = branch_of ?hs n" using branch_loop_eq [of 0 _ ?hs n] by simp
  finally show ?thesis
    using foldl_branch_of [of n ?hs] assms(1)
    by (simp add: CheckMerkleBranch_def BuildMerkleTree_eq branch_step_def)
qed

theorem merkle_branch_authenticates_witness:
  "CheckMerkleBranch (bu_zero 8)
     (snd (GetMerkleBranch (CBlock_null\<lparr> vtx := [CTransaction_new, CTransaction_new, CTransaction_new] \<rparr>) 2)) 2 =
   fst (snd (BuildMerkleTree (CBlock_null\<lparr> vtx := [CTransaction_new, CTransaction_new, CTransaction_new] \<rparr>)))"
  using merkle_branch_authenticates
    [of 2 "CBlock_null\<lparr> vtx := [CTransaction_new, CTransaction_new, CTransaction_new] \<rparr>"]
  by (simp add: CBlock_null_def CBlock_of_header_def CBlockHeader.defs CTransaction_new_def CMutableTransaction.defs)

section \<open>The mutation flag\<close>

text \<open>The pairs of nodes that a tree hashes together.\<close>

definition level_pairs :: "limbs list \<Rightarrow> (limbs \<times> limbs) list" where
  "level_pairs l = map (\<lambda>i. (l ! (2 * i), l ! min (2 * i + 1) (length l - 1))) [0..<(length l + 1) div 2]"

definition sibling_pairs :: "limbs list \<Rightarrow> (limbs \<times> limbs) list" where
  "sibling_pairs hs = concat (map level_pairs (filter (\<lambda>l. length l > 1) (merkle_levels hs)))"

lemma sibling_pairs_simp:
  "sibling_pairs hs = (if length hs > 1 then level_pairs hs @ sibling_pairs (level_up hs) else [])"
  by (auto simp: sibling_pairs_def merkle_levels.simps [of hs])

lemma level_pairs_nth:
  "i < (length l + 1) div 2 \<Longrightarrow> (l ! (2 * i), l ! min (2 * i + 1) (length l - 1)) \<in> set (level_pairs l)"
  by (auto simp: level_pairs_def)

text \<open>No two different pairs of two trees have the same hash.\<close>

definition no_collision :: "limbs list \<Rightarrow> limbs list \<Rightarrow> bool" where
  "no_collision hs hs' \<longleftrightarrow> (\<forall>p \<in> set (sibling_pairs hs). \<forall>q \<in> set (sibling_pairs hs').
     merkle_hash (fst p) (snd p) = merkle_hash (fst q) (snd q) \<longrightarrow> p = q)"

lemma level_up_unmutated_inject:
  assumes eq: "level_up hs = level_up hs'" and m: "\<not> level_mutated hs" "\<not> level_mutated hs'"
    and len: "length hs > 1" "length hs' > 1"
    and nc: "\<And>i. i < (length hs + 1) div 2 \<Longrightarrow>
      hs ! (2 * i) = hs' ! (2 * i) \<and> hs ! min (2 * i + 1) (length hs - 1) = hs' ! min (2 * i + 1) (length hs' - 1)"
  shows "hs = hs'"
proof -
  let ?n = "length hs" and ?n' = "length hs'"
  have half: "(?n + 1) div 2 = (?n' + 1) div 2" using arg_cong [OF eq, of length] by simp
  have same: "?n = ?n'"
  proof (rule ccontr)
    assume "?n \<noteq> ?n'"
    have two: "x = 2 * ((x + 1) div 2 - 1) + 1 \<or> x = 2 * ((x + 1) div 2 - 1) + 2" if "x > 1" for x :: nat
      using that by presburger
    define k where "k = (?n + 1) div 2 - 1"
    then consider "?n = 2 * k + 1" "?n' = 2 * k + 2" | "?n' = 2 * k + 1" "?n = 2 * k + 2"
      using two [OF len(1)] two [OF len(2)] \<open>?n \<noteq> ?n'\<close> unfolding half [symmetric] by metis
    then show False
    proof cases
      case 1
      then have "hs' ! (2 * k) = hs' ! (2 * k + 1)" using nc [of k] by auto
      then have "level_mutated hs'" using 1 by (simp add: level_mutated_def)
      then show False using m by simp
    next
      case 2
      then have "hs ! (2 * k) = hs ! (2 * k + 1)" using nc [of k] by auto
      then have "level_mutated hs" using 2 by (simp add: level_mutated_def)
      then show False using m by simp
    qed
  qed
  show ?thesis
  proof (rule nth_equalityI [OF same])
    fix i assume i: "i < ?n"
    have k: "i div 2 < (?n + 1) div 2" using i by linarith
    show "hs ! i = hs' ! i"
    proof (cases "even i")
      case True
      then show ?thesis using nc [OF k] by simp
    next
      case False
      then have "2 * (i div 2) + 1 = i" by simp
      moreover have "min i (?n - 1) = i" "min i (?n' - 1) = i" using i same by simp_all
      ultimately show ?thesis using nc [OF k] by simp
    qed
  qed
qed


lemma unmutated_inject:
  "length (merkle_levels hs) = length (merkle_levels hs') \<Longrightarrow> hs \<noteq> [] \<Longrightarrow> hs' \<noteq> [] \<Longrightarrow>
    merkle_root hs = merkle_root hs' \<Longrightarrow> \<not> list_ex level_mutated (merkle_levels hs) \<Longrightarrow>
    \<not> list_ex level_mutated (merkle_levels hs') \<Longrightarrow> no_collision hs hs' \<Longrightarrow> hs = hs'"
proof (induction hs arbitrary: hs' rule: merkle_levels.induct)
  case (1 hs)
  have ne: "level_up l \<noteq> []" if "length l > 1" for l
    using that by (intro level_up_ne) auto
  have one: "length (merkle_levels l) = 1 \<longleftrightarrow> \<not> length l > 1" for l
    by (subst merkle_levels.simps) auto
  show ?case
  proof (cases "length hs > 1")
    case True
    then have True': "length hs' > 1" using one [of hs] one [of hs'] "1.prems"(1) by simp
    have root: "merkle_root l = merkle_root (level_up l)" if "length l > 1" "l \<noteq> []" for l
      using that ne [of l] by (simp add: merkle_root_def merkle_levels.simps [of l])
    have "no_collision (level_up hs) (level_up hs')"
      using "1.prems"(7) True True' by (auto simp: no_collision_def sibling_pairs_simp [of hs] sibling_pairs_simp [of hs'])
    then have eq: "level_up hs = level_up hs'"
      using "1.prems" True True' ne root [OF True] root [OF True']
      by (intro "1.IH" [OF True]) (simp_all add: merkle_levels.simps [of hs] merkle_levels.simps [of hs'])
    show ?thesis
    proof (rule level_up_unmutated_inject [OF eq _ _ True True'])
      show "\<not> level_mutated hs" "\<not> level_mutated hs'"
        using "1.prems"(5,6) True True' by (simp_all add: merkle_levels.simps [of hs] merkle_levels.simps [of hs'])
      fix i assume i: "i < (length hs + 1) div 2"
      then have i': "i < (length hs' + 1) div 2" using arg_cong [OF eq, of length] by simp
      let ?p = "(hs ! (2 * i), hs ! min (2 * i + 1) (length hs - 1))"
        and ?q = "(hs' ! (2 * i), hs' ! min (2 * i + 1) (length hs' - 1))"
      have "?p \<in> set (sibling_pairs hs)" "?q \<in> set (sibling_pairs hs')"
        using level_pairs_nth [OF i] level_pairs_nth [OF i'] True True'
        by (auto simp: sibling_pairs_simp [of hs] sibling_pairs_simp [of hs'])
      moreover have "merkle_hash (fst ?p) (snd ?p) = merkle_hash (fst ?q) (snd ?q)"
        using arg_cong [OF eq, of "\<lambda>l. l ! i"] i i' by (simp add: level_up_nth)
      ultimately have "?p = ?q" using "1.prems"(7) unfolding no_collision_def by blast
      then show "hs ! (2 * i) = hs' ! (2 * i) \<and>
          hs ! min (2 * i + 1) (length hs - 1) = hs' ! min (2 * i + 1) (length hs' - 1)" by simp
    qed
  next
    case False
    then have "length hs = 1" "length hs' = 1"
      using one [of hs] one [of hs'] "1.prems"(1-3) by (auto simp: Suc_le_eq not_less le_Suc_eq)
    then show ?thesis
      using "1.prems"(4) by (auto simp: merkle_root_def length_Suc_conv)
  qed
qed


section \<open>Heights and widths\<close>

lemma less_ceil_iff: "0 < m \<Longrightarrow> k < (N + m - 1) div m \<longleftrightarrow> k * m < (N :: nat)"
proof -
  assume m: "0 < m"
  have "k < (N + m - 1) div m \<longleftrightarrow> Suc k \<le> (N + m - 1) div m" by auto
  also have "\<dots> \<longleftrightarrow> Suc k * m \<le> N + m - 1" by (rule less_eq_div_iff_mult_less_eq [OF m])
  also have "\<dots> \<longleftrightarrow> k * m < N" using m by auto
  finally show ?thesis .
qed

lemma nat_eq_by_less: "(\<And>k. k < a \<longleftrightarrow> k < b) \<Longrightarrow> a = (b :: nat)"
  by (meson linorder_neq_iff)

lemma ceil_halves: "((N + 2 ^ h - 1) div 2 ^ h + 1) div 2 = (N + 2 ^ Suc h - 1) div (2 ^ Suc h :: nat)"
proof (rule nat_eq_by_less)
  fix k
  have "k < ((N + 2 ^ h - 1) div 2 ^ h + 1) div 2 \<longleftrightarrow> 2 * k < (N + 2 ^ h - 1) div 2 ^ h" by linarith
  also have "\<dots> \<longleftrightarrow> k < (N + 2 ^ Suc h - 1) div 2 ^ Suc h"
    using less_ceil_iff [of "2 ^ h" "2 * k" N] less_ceil_iff [of "2 ^ Suc h" k N]
    by (simp only: zero_less_power zero_less_numeral power_Suc) (simp add: mult.assoc mult.left_commute)
  finally show "k < ((N + 2 ^ h - 1) div 2 ^ h + 1) div 2 \<longleftrightarrow> k < (N + 2 ^ Suc h - 1) div 2 ^ Suc h" .
qed

lemma two_power_30: "h \<le> 30 \<Longrightarrow> (2 :: nat) ^ h \<le> 1073741824"
  using power_increasing [of h 30 "2 :: nat"] by simp

lemma unat_CalcTreeWidth:
  assumes "N \<le> 1073741824" "h \<le> 30"
  shows "unat (CalcTreeWidth (of_nat N) h) = (N + 2 ^ h - 1) div 2 ^ h"
proof -
  have "(of_nat N + push_bit h 1 - 1 :: u32) = of_nat (N + 2 ^ h - 1)"
  proof -
    have "1 \<le> N + 2 ^ h" using one_le_power [of "2 :: nat" h] by linarith
    then have "(of_nat (N + 2 ^ h - 1) :: u32) = of_nat (N + 2 ^ h) - 1" by (subst of_nat_diff) simp_all
    then show ?thesis by (simp add: push_bit_eq_mult)
  qed
  moreover have "unat (drop_bit h x) = unat x div 2 ^ h" for x :: u32
    by (simp only: unat_drop_bit_eq drop_bit_eq_div [of h "unat x"])
  moreover have "(N + 2 ^ h - 1) mod 4294967296 = N + 2 ^ h - 1"
    using two_power_30 [OF assms(2)] assms(1) by (intro mod_less) linarith
  ultimately show ?thesis by (simp only: CalcTreeWidth_def unat_u32_of_nat)
qed

lemma right_child_iff:
  assumes "N \<le> 1073741824" "h \<le> 30" "p * 2 ^ Suc h < N"
  shows "(of_nat p * 2 + 1 < CalcTreeWidth (of_nat N) h) \<longleftrightarrow> (2 * p + 1) * 2 ^ h < N"
proof -
  have "(of_nat p * 2 + 1 :: u32) = of_nat (2 * p + 1)" by (simp add: mult.commute)
  moreover have "p * 1 \<le> p * 2 ^ Suc h" by (rule mult_le_mono2) simp
  then have "p < N" using assms(3) by linarith
  then have "2 * p + 1 < 4294967296" using assms(1) by simp
  ultimately have "(of_nat p * 2 + 1 < CalcTreeWidth (of_nat N) h) \<longleftrightarrow> 2 * p + 1 < (N + 2 ^ h - 1) div 2 ^ h"
    using unat_CalcTreeWidth [OF assms(1,2)] by (simp add: word_less_nat_alt del: unsigned_of_nat of_nat_add of_nat_mult of_nat_Suc)
  then show ?thesis using less_ceil_iff [of "2 ^ h" "2 * p + 1" N] by simp
qed

definition level_at :: "limbs list \<Rightarrow> nat \<Rightarrow> limbs list" where
  "level_at hs h = (level_up ^^ h) hs"

lemma level_at_simps: "level_at hs 0 = hs" "level_at hs (Suc h) = level_up (level_at hs h)"
  by (simp_all add: level_at_def)

lemma length_level_at: "length (level_at hs h) = (length hs + 2 ^ h - 1) div 2 ^ h"
proof (induction h)
  case (Suc h)
  then show ?case using ceil_halves [of "length hs" h] by (simp add: level_at_simps)
qed (simp add: level_at_simps)

lemma calc_height_levels:
  assumes "length hs \<le> 1073741824"
  shows "h \<le> 30 \<Longrightarrow> hs \<noteq> [] \<Longrightarrow>
    calc_height (of_nat (length hs)) h = h + (length (merkle_levels (level_at hs h)) - 1) \<and>
    calc_height (of_nat (length hs)) h \<le> 30 \<and>
    last (merkle_levels (level_at hs h)) = level_at hs (calc_height (of_nat (length hs)) h)"
proof (induction "30 - h" arbitrary: h)
  case 0
  then have h: "h = 30" by simp
  have "length (level_at hs 30) = 1" using assms 0 by (simp add: length_level_at div_nat_eqI Suc_le_eq)
  moreover have "\<not> CalcTreeWidth (of_nat (length hs)) 30 > 1"
    using unat_CalcTreeWidth [OF assms, of 30] calculation by (simp add: word_less_nat_alt length_level_at)
  ultimately show ?case
    by (simp add: h calc_height.simps [of _ 30] merkle_levels.simps [of "level_at hs 30"])
next
  case (Suc d)
  then have h: "h < 30" "d = 30 - Suc h" by simp_all
  have w: "CalcTreeWidth (of_nat (length hs)) h > 1 \<longleftrightarrow> length (level_at hs h) > 1"
    using unat_CalcTreeWidth [OF assms, of h] h by (simp add: word_less_nat_alt length_level_at)
  show ?case
  proof (cases "length (level_at hs h) > 1")
    case True
    moreover have "Suc (length (merkle_levels l) - 1) = length (merkle_levels l)" for l
      using merkle_levels_ne [of l] by (cases "merkle_levels l") auto
    ultimately show ?thesis
      using Suc.hyps(1) [OF h(2)] h Suc.prems w
      by (simp add: calc_height.simps [of _ h] merkle_levels.simps [of "level_at hs h"] level_at_simps Suc_diff_Suc
          flip: Suc_le_eq)
  next
    case False
    then show ?thesis
      using w h by (simp add: calc_height.simps [of _ h] merkle_levels.simps [of "level_at hs h"])
  qed
qed

lemma CalcHash_level:
  assumes "length hs \<le> 1073741824"
  shows "h \<le> 30 \<Longrightarrow> p * 2 ^ h < length hs \<Longrightarrow>
    CalcHash (of_nat (length hs)) hs h (of_nat p) = level_at hs h ! p"
proof (induction h arbitrary: p)
  case 0
  then show ?case using assms by (simp add: level_at_simps)
next
  case (Suc h)
  let ?n = "of_nat (length hs) :: u32"
  have h: "h \<le> 30" using Suc.prems(1) by simp
  have lt: "2 * p * 2 ^ h < length hs" using Suc.prems(2) by (simp add: mult.assoc mult.left_commute)
  have "(of_nat p * 2 :: u32) = of_nat (2 * p)" "(of_nat p * 2 + 1 :: u32) = of_nat (2 * p + 1)"
    by (simp_all add: mult.commute)
  then have sub: "CalcHash ?n hs h (of_nat p * 2) = level_at hs h ! (2 * p)"
    "(2 * p + 1) * 2 ^ h < length hs \<Longrightarrow> CalcHash ?n hs h (of_nat p * 2 + 1) = level_at hs h ! (2 * p + 1)"
    using Suc.IH [OF h lt] Suc.IH [OF h, of "2 * p + 1"] by (simp_all only:)
  have len: "k < length (level_at hs h) \<longleftrightarrow> k * 2 ^ h < length hs" for k
    using less_ceil_iff [of "2 ^ h" k "length hs"] by (simp add: length_level_at)
  have "p < length (level_at hs (Suc h))"
    using less_ceil_iff [of "2 ^ Suc h" p "length hs"] Suc.prems(2) by (simp add: length_level_at)
  then have p: "p < (length (level_at hs h) + 1) div 2" by (simp add: level_at_simps)
  show ?case
  proof (cases "(2 * p + 1) * 2 ^ h < length hs")
    case True
    then have "min (2 * p + 1) (length (level_at hs h) - 1) = 2 * p + 1" using len [of "2 * p + 1"] by simp
    then show ?thesis
      using sub True right_child_iff [OF assms h Suc.prems(2)] p
      by (simp add: level_at_simps level_up_nth Let_def)
  next
    case False
    then have "length (level_at hs h) = 2 * p + 1" using len [of "2 * p + 1"] len [of "2 * p"] lt by simp
    then show ?thesis
      using sub False right_child_iff [OF assms h Suc.prems(2)] p
      by (simp add: level_at_simps level_up_nth Let_def)
  qed
qed


section \<open>Packed bits\<close>

lemma bit_push_flag: "j < 8 \<Longrightarrow> bit (push_bit i (if c then 1 else 0) :: u8) j \<longleftrightarrow> c \<and> j = i"
  by (auto simp: bit_push_bit_iff bit_1_iff)

lemma pack_step:
  assumes "length bs \<le> 8 * m" "k \<le> length bs"
  defines "v \<equiv> foldl (\<lambda>v p. v[p div 8 := v ! (p div 8) OR push_bit (p mod 8) (if bs ! p then 1 else 0)])
    (replicate m (0 :: u8)) [0..<k]"
  shows "length v = m \<and> (\<forall>q < 8 * m. bit (v ! (q div 8)) (q mod 8) \<longleftrightarrow> q < k \<and> bs ! q)"
  using assms(2) unfolding v_def
proof (induction k)
  case 0
  show ?case by (auto simp: nth_replicate less_mult_imp_div_less mult.commute)
next
  case (Suc k)
  let ?v = "foldl (\<lambda>v p. v[p div 8 := v ! (p div 8) OR push_bit (p mod 8) (if bs ! p then 1 else 0)])
    (replicate m (0 :: u8)) [0..<k]"
  let ?w = "?v[k div 8 := ?v ! (k div 8) OR push_bit (k mod 8) (if bs ! k then 1 else 0)]"
  have IH: "length ?v = m" "\<And>q. q < 8 * m \<Longrightarrow> bit (?v ! (q div 8)) (q mod 8) \<longleftrightarrow> q < k \<and> bs ! q"
    using Suc by auto
  have "bit (?w ! (q div 8)) (q mod 8) \<longleftrightarrow> q < Suc k \<and> bs ! q" if q: "q < 8 * m" for q
  proof (cases "q div 8 = k div 8")
    case True
    have "q div 8 < length ?v" using q IH(1) by (simp add: less_mult_imp_div_less mult.commute)
    then have "?w ! (q div 8) = ?v ! (q div 8) OR push_bit (k mod 8) (if bs ! k then 1 else 0)"
      using True by simp
    moreover have "q mod 8 = k mod 8 \<longleftrightarrow> q = k" using True by (metis div_mult_mod_eq)
    ultimately show ?thesis using IH(2) [OF q] by (auto simp: bit_or_iff bit_push_flag less_Suc_eq)
  next
    case False
    then have "q \<noteq> k" by auto
    then show ?thesis using False IH(2) [OF q] by (auto simp: less_Suc_eq)
  qed
  then show ?case using IH(1) by simp
qed

lemma unpack_pack_bits: "\<exists>pad. pad < 8 \<and> unpack_bits (pack_bits bs) = bs @ replicate pad False \<and>
    length (pack_bits bs) = (length bs + 7) div 8"
proof (intro exI conjI)
  let ?m = "(length bs + 7) div 8"
  show "8 * ?m - length bs < 8" by linarith
  have m: "length bs \<le> 8 * ?m" by linarith
  have p: "length (pack_bits bs) = ?m"
    "\<And>q. q < 8 * ?m \<Longrightarrow> bit (pack_bits bs ! (q div 8)) (q mod 8) \<longleftrightarrow> q < length bs \<and> bs ! q"
    using pack_step [OF m order_refl] unfolding pack_bits_def by auto
  show "length (pack_bits bs) = ?m" by (rule p(1))
  show "unpack_bits (pack_bits bs) = bs @ replicate (8 * ?m - length bs) False"
    using m p by (intro nth_equalityI) (auto simp: unpack_bits_def and_exp_eq_0_iff_not_bit nth_append mult.commute)
qed

section \<open>Extracting what was built\<close>

lemma TraverseAndBuild_append:
  "TraverseAndBuild n vT vM h pos (bs, hs) =
    (bs @ fst (TraverseAndBuild n vT vM h pos ([], [])), hs @ snd (TraverseAndBuild n vT vM h pos ([], [])))"
proof (induction h arbitrary: pos bs hs)
  case (Suc h)
  let ?T = "\<lambda>p b. TraverseAndBuild n vT vM h p b"
  show ?case
  proof (cases "parent_of_match n vM (Suc h) pos")
    case True
    note IH = Suc.IH [of "pos * 2"] Suc.IH [of "pos * 2 + 1"]
    show ?thesis
      by (simp add: True Let_def IH(1) [of "bs @ [True]" hs] IH(1) [of "[True]"])
        (simp add: IH(2) [of "bs @ True # fst (?T (pos * 2) ([], []))"] IH(2) [of "True # fst (?T (pos * 2) ([], []))"])
  qed (simp add: Let_def)
qed simp

definition node_range :: "nat \<Rightarrow> nat \<Rightarrow> nat \<Rightarrow> nat list" where
  "node_range N h p = [p * 2 ^ h..<min (Suc p * 2 ^ h) N]"

lemma node_range_Suc:
  "p * 2 ^ Suc h < N \<Longrightarrow> node_range N (Suc h) p = node_range N h (2 * p) @
    (if (2 * p + 1) * 2 ^ h < N then node_range N h (2 * p + 1) else [])"
proof -
  assume lt: "p * 2 ^ Suc h < N"
  have a: "p * 2 ^ Suc h = 2 * p * 2 ^ h" "Suc p * 2 ^ Suc h = Suc (2 * p + 1) * 2 ^ h" by simp_all
  show ?thesis
  proof (cases "(2 * p + 1) * 2 ^ h < N")
    case True
    then have "min (Suc (2 * p) * 2 ^ h) N = (2 * p + 1) * 2 ^ h" by simp
    moreover have "(2 * p) * 2 ^ h \<le> (2 * p + 1) * 2 ^ h" "(2 * p + 1) * 2 ^ h \<le> min (Suc (2 * p + 1) * 2 ^ h) N"
      using True by simp_all
    ultimately show ?thesis
      using True unfolding node_range_def a by (simp only: if_True) (metis le_Suc_ex upt_add_eq_append)
  next
    case False
    then have "min (Suc (2 * p) * 2 ^ h) N = N" "min (Suc (2 * p + 1) * 2 ^ h) N = N" by simp_all
    then show ?thesis using False unfolding node_range_def a by (simp only: if_False append_Nil2)
  qed
qed

lemma parent_of_match_iff:
  assumes "N \<le> 1073741824" "h \<le> 30" "p * 2 ^ h < N"
  shows "parent_of_match (of_nat N) vM h (of_nat p) \<longleftrightarrow> list_ex (\<lambda>q. vM ! q) (node_range N h p)"
proof -
  have sh: "unat (push_bit h (of_nat q :: u32)) = q * 2 ^ h" if "q * 2 ^ h < 4294967296" for q
  proof -
    have "push_bit h (of_nat q :: u32) = of_nat (q * 2 ^ h)" by (simp add: push_bit_eq_mult)
    then show ?thesis using that by (simp only: unat_u32_of_nat mod_less)
  qed
  have "Suc p * 2 ^ h < 4294967296" using two_power_30 [OF assms(2)] assms(1,3) by simp
  then have "unat (push_bit h (of_nat p + 1 :: u32)) = Suc p * 2 ^ h" using sh [of "Suc p"] by (simp add: add.commute)
  moreover have "unat (push_bit h (of_nat p :: u32)) = p * 2 ^ h" using sh [of p] assms(1,3) by simp
  moreover have "unat (of_nat N :: u32) = N" using assms(1) by simp
  ultimately show ?thesis by (simp only: parent_of_match_def node_range_def)
qed


definition node_matches :: "limbs list \<Rightarrow> bool list \<Rightarrow> nat \<Rightarrow> nat \<Rightarrow> limbs list" where
  "node_matches vT vM h p = map ((!) vT) (filter ((!) vM) (node_range (length vT) h p))"

lemma drop_eq_Cons: "drop k xs = y # ys \<Longrightarrow> k < length xs \<and> xs ! k = y \<and> drop (Suc k) xs = ys"
  by (metis Cons_nth_drop_Suc drop_all list.distinct(1) list.inject not_le)

lemma drop_eq_append: "drop k xs = ys @ zs \<Longrightarrow> drop (k + length ys) xs = zs"
  by (metis add.commute append_eq_conv_conj drop_drop)

lemma use_hash_stored:
  "drop (nHashUsed s) (vHash t) = h # hr \<Longrightarrow> use_hash t m s =
    (h, s\<lparr> nHashUsed := nHashUsed s + 1, es_match := es_match s @ (if m then [h] else []) \<rparr>)"
  using drop_eq_Cons [of "nHashUsed s" "vHash t" h hr] by (simp add: use_hash_def)

lemma TraverseAndExtract_built:
  assumes N: "length vT \<le> 1073741824" and n: "nTransactions t = of_nat (length vT)"
  shows "h \<le> 30 \<Longrightarrow> p * 2 ^ h < length vT \<Longrightarrow>
    drop (nBitsUsed s) (vBits t) = fst (TraverseAndBuild (of_nat (length vT)) vT vM h (of_nat p) ([], [])) @ br \<Longrightarrow>
    drop (nHashUsed s) (vHash t) = snd (TraverseAndBuild (of_nat (length vT)) vT vM h (of_nat p) ([], [])) @ hr \<Longrightarrow>
    TraverseAndExtract t h (of_nat p) s = (CalcHash (of_nat (length vT)) vT h (of_nat p),
      s\<lparr> nBitsUsed := nBitsUsed s + length (fst (TraverseAndBuild (of_nat (length vT)) vT vM h (of_nat p) ([], []))),
         nHashUsed := nHashUsed s + length (snd (TraverseAndBuild (of_nat (length vT)) vT vM h (of_nat p) ([], []))),
         es_match := es_match s @ node_matches vT vM h p \<rparr>)"
proof (induction h arbitrary: p s br hr)
  case 0
  let ?n = "of_nat (length vT) :: u32"
  have r: "node_range (length vT) 0 p = [p]" using 0 by (simp add: node_range_def)
  have m: "parent_of_match ?n vM 0 (of_nat p) \<longleftrightarrow> vM ! p" using parent_of_match_iff [OF N, of 0 p vM] 0 r by simp
  have b: "drop (nBitsUsed s) (vBits t) = (vM ! p) # br" using 0(3) m by simp
  have hh: "drop (nHashUsed s) (vHash t) = CalcHash ?n vT 0 (of_nat p) # hr" using 0(4) by simp
  have "p < 4294967296" using 0 N by simp
  then have "unat (of_nat p :: u32) = p" by simp
  moreover have "nBitsUsed s < length (vBits t)" "vBits t ! nBitsUsed s = vM ! p"
    using drop_eq_Cons [OF b] by simp_all
  moreover have "use_hash t (vM ! p) (s\<lparr> nBitsUsed := nBitsUsed s + 1 \<rparr>) = (vT ! unat (of_nat p :: u32),
      s\<lparr> nBitsUsed := nBitsUsed s + 1, nHashUsed := nHashUsed s + 1,
         es_match := es_match s @ (if vM ! p then [vT ! unat (of_nat p :: u32)] else []) \<rparr>)"
    using use_hash_stored [of "s\<lparr> nBitsUsed := nBitsUsed s + 1 \<rparr>" t _ hr "vM ! p"] hh by simp
  ultimately show ?case by (simp add: node_matches_def r)
next
  case (Suc h)
  let ?n = "of_nat (length vT) :: u32" and ?B = "\<lambda>p. TraverseAndBuild (of_nat (length vT)) vT vM h p ([], [])"
  have h: "h \<le> 30" using Suc.prems(1) by simp
  define l r :: u32 where lr: "l = of_nat (2 * p)" "r = of_nat (2 * p + 1)"
  have two: "of_nat p * 2 = l" "l + 1 = r" by (simp_all add: lr mult.commute add.commute)
  note right = right_child_iff [OF N h Suc.prems(2), unfolded two]
  note pom = parent_of_match_iff [OF N Suc.prems(1,2), of vM]
  let ?f = "parent_of_match ?n vM (Suc h) (of_nat p)"
  show ?case
  proof (cases ?f)
    case False
    have b: "drop (nBitsUsed s) (vBits t) = False # br" using Suc.prems(3) False by (simp add: Let_def)
    have hh: "drop (nHashUsed s) (vHash t) = CalcHash ?n vT (Suc h) (of_nat p) # hr"
      using Suc.prems(4) False by (simp add: Let_def del: CalcHash.simps)
    have "nBitsUsed s < length (vBits t)" "\<not> vBits t ! nBitsUsed s" using drop_eq_Cons [OF b] by simp_all
    moreover have "node_matches vT vM (Suc h) p = []"
      using pom False by (auto simp: node_matches_def filter_empty_conv list_ex_iff)
    ultimately show ?thesis
      using use_hash_stored [of "s\<lparr> nBitsUsed := nBitsUsed s + 1 \<rparr>" t _ hr False] hh False
      by (simp add: Let_def del: CalcHash.simps)
  next
    case True
    let ?R = "(2 * p + 1) * 2 ^ h < length vT"
    let ?rest = "if ?R then fst (?B r) else []"
      and ?hrest = "if ?R then snd (?B r) else []"
    have built: "TraverseAndBuild ?n vT vM (Suc h) (of_nat p) ([], []) =
        (True # fst (?B l) @ ?rest, snd (?B l) @ ?hrest)"
      using True right
      by (auto simp: Let_def two TraverseAndBuild_append [of _ _ _ h _ "[True]"]
          TraverseAndBuild_append [of _ _ _ h _ "True # _"])
    let ?s1 = "s\<lparr> nBitsUsed := nBitsUsed s + 1 \<rparr>"
    have "drop (nBitsUsed s) (vBits t) = True # fst (?B l) @ ?rest @ br"
      using Suc.prems(3) unfolding built by simp
    from drop_eq_Cons [OF this] have b: "nBitsUsed s < length (vBits t)" "vBits t ! nBitsUsed s"
      "drop (nBitsUsed ?s1) (vBits t) = fst (?B l) @ ?rest @ br"
      by simp_all
    have hh: "drop (nHashUsed ?s1) (vHash t) = snd (?B l) @ ?hrest @ hr"
      using Suc.prems(4) unfolding built by simp
    have lt: "2 * p * 2 ^ h < length vT" using Suc.prems(2) by (simp add: mult.assoc mult.left_commute)
    note left = Suc.IH [OF h lt, folded lr, OF b(3) hh]
    let ?s2 = "snd (TraverseAndExtract t h l ?s1)"
    have match: "node_matches vT vM (Suc h) p = node_matches vT vM h (2 * p) @ (if ?R then node_matches vT vM h (2 * p + 1) else [])"
      using node_range_Suc [OF Suc.prems(2)] by (simp add: node_matches_def)
    show ?thesis
    proof (cases ?R)
      case R: True
      have "drop (nBitsUsed ?s2) (vBits t) = fst (?B r) @ br"
        "drop (nHashUsed ?s2) (vHash t) = snd (?B r) @ hr"
        using drop_eq_append [OF b(3)] drop_eq_append [OF hh] R left by simp_all
      from Suc.IH [OF h R, folded lr, OF this] left R right True b(1,2) built show ?thesis
        by (simp add: Let_def n two match del: TraverseAndBuild.simps)
    next
      case R: False
      then show ?thesis using left right True b(1,2) built
        by (simp add: Let_def n two match del: TraverseAndBuild.simps)
    qed
  qed
qed

lemma TraverseAndBuild_sizes:
  assumes N: "length vT \<le> 1073741824"
  shows "h \<le> 30 \<Longrightarrow> p * 2 ^ h < length vT \<Longrightarrow>
    length (snd (TraverseAndBuild (of_nat (length vT)) vT vM h (of_nat p) ([], []))) \<le> length (node_range (length vT) h p) \<and>
    length (snd (TraverseAndBuild (of_nat (length vT)) vT vM h (of_nat p) ([], [])))
      \<le> length (fst (TraverseAndBuild (of_nat (length vT)) vT vM h (of_nat p) ([], []))) \<and>
    length (fst (TraverseAndBuild (of_nat (length vT)) vT vM h (of_nat p) ([], [])))
      \<le> Suc h * length (node_range (length vT) h p)"
proof (induction h arbitrary: p)
  case 0
  then show ?case by (simp add: node_range_def)
next
  case (Suc h)
  define l r :: u32 where lr: "l = of_nat (2 * p)" "r = of_nat (2 * p + 1)"
  have two: "of_nat p * 2 = l" "l + 1 = r" by (simp_all add: lr mult.commute add.commute)
  have h: "h \<le> 30" using Suc.prems(1) by simp
  have lt: "2 * p * 2 ^ h < length vT" using Suc.prems(2) by (simp add: mult.assoc mult.left_commute)
  have "p * 2 ^ Suc h < min (Suc p * 2 ^ Suc h) (length vT)" using Suc.prems(2) by simp
  then have "1 \<le> length (node_range (length vT) (Suc h) p)"
    by (simp only: node_range_def length_upt)
  then show ?case
    using right_child_iff [OF N h Suc.prems(2), unfolded two] Suc.IH [OF h lt, folded lr]
      Suc.IH [OF h, of "2 * p + 1", folded lr]
      node_range_Suc [OF Suc.prems(2)]
    by (auto simp: Let_def two add_mult_distrib2 TraverseAndBuild_append [of _ _ _ h _ "[True]"]
        TraverseAndBuild_append [of _ _ _ h _ "True # _"])
qed


lemma Hash2_bytes_append: "Hash2_bytes p q = Hash_bytes (p @ q)"
  using CHash256_rep [OF rep256_writes [OF rep256(1)], of "[p, q]"]
  by (simp add: Hash2_bytes_def Hash_bytes_def CHash256_rep [OF rep256_one])

lemma length_merkle_hash [simp]: "length (merkle_hash l r) = 8"
  by (simp add: merkle_hash_def length_limbs_of_bytes Hash2_bytes_append length_Hash_bytes)

lemma length_CalcHash: "\<forall>x \<in> set vT. length x = 8 \<Longrightarrow> unat pos < length vT \<Longrightarrow> length (CalcHash n vT h pos) = 8"
  by (cases h) (simp_all add: Let_def)

lemma TraverseAndBuild_hashes:
  "\<forall>x \<in> set vT. length x = 8 \<Longrightarrow> length vT \<le> 1073741824 \<Longrightarrow> h \<le> 30 \<Longrightarrow> p * 2 ^ h < length vT \<Longrightarrow>
    \<forall>x \<in> set (snd (TraverseAndBuild (of_nat (length vT)) vT vM h (of_nat p) ([], []))). length x = 8"
proof (induction h arbitrary: p)
  case (Suc h)
  define l r :: u32 where lr: "l = of_nat (2 * p)" "r = of_nat (2 * p + 1)"
  have two: "of_nat p * 2 = l" "l + 1 = r" by (simp_all add: lr mult.commute add.commute)
  have h: "h \<le> 30" using Suc.prems by simp
  have lt: "2 * p * 2 ^ h < length vT" using Suc.prems by (simp add: mult.assoc mult.left_commute)
  show ?case
    using right_child_iff [OF Suc.prems(2) h Suc.prems(4), unfolded two] Suc.prems(1)
      Suc.IH [OF Suc.prems(1,2) h lt, folded lr] Suc.IH [OF Suc.prems(1,2) h, of "2 * p + 1", folded lr]
    by (auto simp: Let_def two TraverseAndBuild_append [of _ _ _ h _ "[True]"]
        TraverseAndBuild_append [of _ _ _ h _ "True # _"])
qed simp



lemma partial_root:
  fixes hs :: "limbs list" and vM :: "bool list"
  assumes "hs \<noteq> []" "length hs \<le> 1073741824" "\<forall>x \<in> set hs. length x = 8"
  defines "H \<equiv> calc_height (of_nat (length hs)) 0"
    and "B \<equiv> TraverseAndBuild (of_nat (length hs)) hs vM (calc_height (of_nat (length hs)) 0) 0 ([], [])"
  shows "length (snd B) \<le> length hs" "length (snd B) \<le> length (fst B)" "length (fst B) \<le> 31 * length hs"
    "\<forall>x \<in> set (snd B). length x = 8"
    "nTransactions t = of_nat (length hs) \<Longrightarrow> vBits t = fst B @ pad \<Longrightarrow> vHash t = snd B \<Longrightarrow>
      TraverseAndExtract t H 0 \<lparr> es_bad = bad, nBitsUsed = 0, nHashUsed = 0, es_match = [] \<rparr> = (merkle_root hs,
        \<lparr> es_bad = bad, nBitsUsed = length (fst B), nHashUsed = length (snd B),
          es_match = map ((!) hs) (filter ((!) vM) [0..<length hs]) \<rparr>)"
proof -
  have pos: "0 * 2 ^ H < length hs" using assms(1) by simp
  have lv: "H \<le> 30" "last (merkle_levels hs) = level_at hs H"
    using calc_height_levels [OF assms(2), of 0] assms(1) by (auto simp: H_def level_at_simps)
  then have one: "length (level_at hs H) = 1" using last_merkle_levels [OF assms(1)] by simp
  then have "length hs \<le> 2 ^ H"
    using less_ceil_iff [of "2 ^ H" 1 "length hs"] by (simp add: length_level_at)
  then have range: "node_range (length hs) H 0 = [0..<length hs]" by (simp add: node_range_def)
  have root: "level_at hs H ! 0 = merkle_root hs"
    using one lv(2) assms(1) by (cases "level_at hs H") (simp_all add: merkle_root_def)
  have B: "B = TraverseAndBuild (of_nat (length hs)) hs vM H (of_nat 0) ([], [])"
    by (simp add: B_def H_def)
  note sizes = TraverseAndBuild_sizes [OF assms(2) lv(1) pos, of vM, folded B, unfolded range]
  show "length (snd B) \<le> length hs" "length (snd B) \<le> length (fst B)" using sizes by simp_all
  have "length (fst B) \<le> Suc H * length hs" using sizes by simp
  also have "\<dots> \<le> 31 * length hs" using lv(1) by (intro mult_le_mono1) simp
  finally show "length (fst B) \<le> 31 * length hs" .
  show "\<forall>x \<in> set (snd B). length x = 8"
    using TraverseAndBuild_hashes [OF assms(3,2) lv(1) pos, of vM, folded B] .
  show "TraverseAndExtract t H 0 \<lparr> es_bad = bad, nBitsUsed = 0, nHashUsed = 0, es_match = [] \<rparr> = (merkle_root hs,
        \<lparr> es_bad = bad, nBitsUsed = length (fst B), nHashUsed = length (snd B),
          es_match = map ((!) hs) (filter ((!) vM) [0..<length hs]) \<rparr>)"
    if "nTransactions t = of_nat (length hs)" "vBits t = fst B @ pad" "vHash t = snd B"
    using TraverseAndExtract_built [OF assms(2) that(1) lv(1) pos, of
        "\<lparr> es_bad = bad, nBitsUsed = 0, nHashUsed = 0, es_match = [] \<rparr>" vM pad "[]", folded B]
      CalcHash_level [OF assms(2) lv(1) pos] that root
    by (simp add: node_matches_def range)
qed

lemma map_filter_zip:
  "length vs = length xs \<Longrightarrow> map fst (filter snd (zip xs vs)) = map ((!) xs) (filter ((!) vs) [0..<length xs])"
proof -
  assume len: "length vs = length xs"
  then have "zip xs vs = map (\<lambda>i. (xs ! i, vs ! i)) [0..<length xs]"
    by (intro nth_equalityI) simp_all
  then show ?thesis by (simp add: filter_map o_def)
qed

text \<open>Partial Merkle trees.  A block's partial tree, written, sent and read, gives back with
  \<open>ExtractMatches\<close> the Merkle root of the block and exactly the matched transactions in order,
  for every selection and every block within the size that \<open>ExtractMatches\<close> admits; no check
  of it fails.\<close>

theorem partial_tree_extracts:
  assumes "vtx b \<noteq> []" "length (vtx b) \<le> 33333" "\<forall>tx \<in> set (vtx b). length (tx_hash tx) = 8"
    "length vMatch = length (vtx b)"
  shows "\<exists>t. unser_pmt (ser_pmt (CPartialMerkleTree_of (map tx_hash (vtx b)) vMatch) @ r) = Inr (t, r) \<and>
    ExtractMatches t = (fst (snd (BuildMerkleTree b)), map fst (filter snd (zip (map tx_hash (vtx b)) vMatch)), t)"
proof -
  let ?hs = "map tx_hash (vtx b)"
  let ?n = "of_nat (length ?hs) :: u32"
  let ?B = "TraverseAndBuild ?n ?hs vMatch (calc_height ?n 0) 0 ([], [])"
  have hs: "?hs \<noteq> []" "length ?hs \<le> 1073741824" "\<forall>x \<in> set ?hs. length x = 8" using assms by simp_all
  define bs hv where B: "bs = fst ?B" "hv = snd ?B"
  note R = partial_root [OF hs, where vM = vMatch, folded B]
  obtain pad where pad: "pad < 8" "unpack_bits (pack_bits bs) = bs @ replicate pad False"
    "length (pack_bits bs) = (length bs + 7) div 8" using unpack_pack_bits by blast
  let ?t = "\<lparr> nTransactions = ?n, vBits = bs @ replicate pad False, vHash = hv, fBad = False \<rparr>"
  have t0: "CPartialMerkleTree_of ?hs vMatch = \<lparr> nTransactions = ?n, vBits = bs, vHash = hv, fBad = False \<rparr>"
    by (simp add: CPartialMerkleTree_of_def Let_def split_beta B)
  have "(length bs + 7) div 8 \<le> 33554432" using R(3) assms(2) by simp
  then have "length (pack_bits bs) \<le> 33554432" "length hv \<le> 33554432" using R(1) pad(3) assms(2) by simp_all
  then have "unser_pmt (ser_pmt (CPartialMerkleTree_of ?hs vMatch) @ r) = Inr (?t, r)"
    using R(4) by (simp add: t0 unser_pmt_def ser_pmt_def u32.read_written hashes.vec.read_written
        blob.read_written pad(2))
  moreover have "ExtractMatches ?t = (merkle_root ?hs, map fst (filter snd (zip ?hs vMatch)), ?t)"
  proof -
    have N: "unat ?n = length (vtx b)" using assms(2) by simp
    then have "?n \<noteq> 0" using assms(1) by (metis length_0_conv unat_0)
    moreover have "\<not> MAX_BLOCK_SIZE_CURRENT div 60 < ?n"
      using assms(2) N by (simp add: MAX_BLOCK_SIZE_CURRENT_def word_less_nat_alt)
    moreover have "(length bs + pad + 7) div 8 = (length bs + 7) div 8"
      using arg_cong [OF pad(2), of length] pad(3) by (simp add: unpack_bits_def)
    ultimately show ?thesis
      using R(1,2) R(5) [where t = ?t and pad = "replicate pad False" and bad = False] assms(2,4) N
      by (simp add: ExtractMatches_def Let_def map_filter_zip)
  qed
  ultimately show ?thesis by (auto simp: BuildMerkleTree_eq)
qed


theorem partial_tree_extracts_witness:
  "\<exists>t. unser_pmt (ser_pmt (CPartialMerkleTree_of [bu_zero 8, bu_zero 8, bu_zero 8] [False, True, True]) @ [7]) = Inr (t, [7]) \<and>
    fst (snd (ExtractMatches t)) = [bu_zero 8, bu_zero 8]"
  using partial_tree_extracts [of "CBlock_null\<lparr> vtx := [CTransaction_new, CTransaction_new, CTransaction_new] \<rparr>"
      "[False, True, True]" "[7]"]
  by (force simp: CTransaction_new_def CMutableTransaction.defs bu_zero_def)

section \<open>The codec contract of blocks\<close>

definition header_ok :: "limbs \<Rightarrow> CBlockHeader \<Rightarrow> bool" where
  "header_ok cp b \<longleftrightarrow> length (hashPrevBlock b) = 8 \<and> length (hashMerkleRoot b) = 8 \<and>
     (if 3 <s bh_nVersion b then length (nAccumulatorCheckpoint b) = 8 else nAccumulatorCheckpoint b = cp)"

definition block_ok :: "CBlock \<Rightarrow> CBlock \<Rightarrow> bool" where
  "block_ok old b \<longleftrightarrow> header_ok (nAccumulatorCheckpoint old) (CBlockHeader.truncate b) \<and>
     (\<forall>tx \<in> set (vtx b). tx_parts_ok tx \<and> tx_hash tx = SerializeHash (ser_tx tx)) \<and>
     length (vtx b) \<le> 33554432 \<and> length (vchBlockSig b) \<le> 33554432 \<and>
     (\<not> IsProofOfStake b \<longrightarrow> vchBlockSig b = vchBlockSig old) \<and>
     payee b = payee old \<and> vMerkleTree b = vMerkleTree old"

lemma header_roundtrip:
  "header_ok cp b \<Longrightarrow> unser_header cp (ser_header b @ r) = Inr (b, r)"
  by (cases b) (auto simp: header_ok_def unser_header_def ser_header_def u32.read_written uint256.read_written rbind_simps)

interpretation header: codec "ser_header :: CBlockHeader \<Rightarrow> bytes" "unser_header cp" "header_ok cp" for cp
  by unfold_locales (rule header_roundtrip)

lemma tx_size_law: "tx_parts_ok tx \<Longrightarrow> length (ser_tx (tx :: CTransaction)) = tx_size tx"
proof -
  assume "tx_parts_ok tx"
  then have "tx_parts_ok (CMutableTransaction.truncate tx)" by (simp add: tx_parts_ok_def CMutableTransaction.defs)
  then have "length (ser_tx (CMutableTransaction.truncate tx)) = tx_size (CMutableTransaction.truncate tx)"
    by (rule mtx.size_law)
  then show ?thesis by (simp add: ser_tx_truncate) (simp add: tx_size_def CMutableTransaction.defs)
qed

interpretation sized_tx: sized_codec "ser_tx :: CTransaction \<Rightarrow> bytes" unser_tx
    "\<lambda>tx. tx_parts_ok tx \<and> tx_hash tx = SerializeHash (ser_tx tx)" tx_size
  by unfold_locales (simp add: tx_size_law)

interpretation txs: vec_codec "ser_tx :: CTransaction \<Rightarrow> bytes" unser_tx
    "\<lambda>tx. tx_parts_ok tx \<and> tx_hash tx = SerializeHash (ser_tx tx)" tx_size 52082
  by unfold_locales

lemma ser_header_truncate: "ser_header (CBlockHeader.truncate b) = ser_header b"
  by (simp add: ser_header_def CBlockHeader.defs)

lemma extend_truncate_block:
  "CBlockHeader.extend (CBlockHeader.truncate b)
    \<lparr> vtx = vtx b, vchBlockSig = vchBlockSig b, payee = payee b, vMerkleTree = vMerkleTree b \<rparr> = b"
  by (cases b) (simp add: CBlockHeader.defs)

interpretation block: codec ser_block "unser_block old" "block_ok old" for old
proof unfold_locales
  fix b r
  assume ok: "block_ok old b"
  then have "unser_header (nAccumulatorCheckpoint old) (ser_header b @ q) = Inr (CBlockHeader.truncate b, q)" for q
    using header_roundtrip [of _ "CBlockHeader.truncate b" q] by (simp add: block_ok_def ser_header_truncate)
  moreover have "unser_vec 52082 unser_tx (ser_vec ser_tx (vtx b) @ q) = Inr (vtx b, q)" for q
    using ok by (intro txs.vec.roundtrip) (simp add: block_ok_def)
  moreover have "unser_blob (ser_blob (vchBlockSig b) @ q) = Inr (vchBlockSig b, q)" for q
    using ok by (intro blob.roundtrip) (simp add: block_ok_def)
  ultimately show "unser_block old (ser_block b @ r) = Inr (b, r)"
    using ok extend_truncate_block [of b]
    by (auto simp: unser_block_def ser_block_def rbind_simps block_ok_def IsProofOfStake_def)
qed

text \<open>A block read into a fresh one is the block that was written, with
  its signature exactly when it is a proof-of-stake block, and its header reads on its own; the
  checkpoint travels from version 4 on.\<close>

lemma block_roundtrip:
  assumes "block_ok CBlock_null b"
  shows "unser_block CBlock_null (ser_block b @ r) = Inr (b, r) \<and>
    unser_header (nAccumulatorCheckpoint b) (ser_header (GetBlockHeader b) @ r) = Inr (GetBlockHeader b, r)"
proof
  show "unser_block CBlock_null (ser_block b @ r) = Inr (b, r)" using assms by (rule block.roundtrip)
  have "header_ok (nAccumulatorCheckpoint b) (GetBlockHeader b)"
    using assms by (auto simp: block_ok_def header_ok_def GetBlockHeader_def CBlockHeader.defs split: if_splits)
  then show "unser_header (nAccumulatorCheckpoint b) (ser_header (GetBlockHeader b) @ r) = Inr (GetBlockHeader b, r)"
    by (rule header_roundtrip)
qed

end
