(* ===== verification/Params.thy ===== *)
theory Params
  imports Transaction
begin

unbundle bit_operations_syntax

text \<open>
  Chain parameters (\<open>src/chainparams.h\<close>, \<open>src/chainparams.cpp\<close>) and the zerocoin denominations
  (\<open>src/libzerocoin/Denominations.h\<close>, \<open>Denominations.cpp\<close>).  \<open>CChainParams\<close> is the record of the
  consensus numbers and switches that the modelled components read; the four networks are its
  values, each built from the one it inherits from as the constructors do.  Keys, seeds, address
  prefixes, the zerocoin modulus and the checkpoint tables are not modelled.
\<close>

section \<open>Chain parameters\<close>

datatype Network = MAIN | TESTNET | REGTEST | UNITTEST

record CChainParams =
  networkID :: Network
  bnProofOfWorkLimit :: limbs
  nSubsidyHalvingInterval :: int
  nMaxReorganizationDepth :: int
  nEnforceBlockUpgradeMajority :: int
  nRejectBlockOutdatedMajority :: int
  nToCheckBlockUpgradeMajority :: int
  nTargetSpacing :: int
  nLastPOWBlock :: int
  nMasternodeCountDrift :: int
  nMaturity :: int
  nStakeMinDepth :: int
  nFutureTimeDriftPoW :: int
  nFutureTimeDriftPoS :: int
  nTimeSlotLength :: int
  nModifierUpdateBlock :: int
  nMaxMoneyOut :: amount
  nZerocoinStartHeight :: int
  nZerocoinStartTime :: int
  nBlockEnforceSerialRange :: int
  nBlockEnforceInvalidUTXO :: int
  nBlockZerocoinV2 :: int
  nBlockStakeModifierlV2 :: int
  nBlockTimeProtocolV2 :: int
  fAllowMinDifficultyBlocks :: bool
  fRequireStandard :: bool
  fMineBlocksOnDemand :: bool
  fSkipProofOfWorkCheck :: bool
  nBudgetCycleBlocks :: int
  nStartMasternodePayments :: int
  nBudget_Fee_Confirmations :: int
  nProposalEstablishmentTime :: int

definition CMainParams :: CChainParams where
  "CMainParams = \<lparr> networkID = MAIN,
     bnProofOfWorkLimit = bu_shr (bu_not (of_u64 8 0)) 20,
     nSubsidyHalvingInterval = 210000,
     nMaxReorganizationDepth = 100,
     nEnforceBlockUpgradeMajority = 8100,
     nRejectBlockOutdatedMajority = 10260,
     nToCheckBlockUpgradeMajority = 10800,
     nTargetSpacing = 1 * 60,
     nLastPOWBlock = 321,
     nMasternodeCountDrift = 20,
     nMaturity = 100,
     nStakeMinDepth = 600,
     nFutureTimeDriftPoW = 7200,
     nFutureTimeDriftPoS = 180,
     nTimeSlotLength = 15,
     nModifierUpdateBlock = 2147483000,
     nMaxMoneyOut = 398360470 * COIN,
     nZerocoinStartHeight = 2147483000,
     nZerocoinStartTime = 2147483000,
     nBlockEnforceSerialRange = 2147483000,
     nBlockEnforceInvalidUTXO = 120555,
     nBlockZerocoinV2 = 2147483000,
     nBlockStakeModifierlV2 = 260720,
     nBlockTimeProtocolV2 = 640000,
     fAllowMinDifficultyBlocks = False,
     fRequireStandard = True,
     fMineBlocksOnDemand = False,
     fSkipProofOfWorkCheck = False,
     nBudgetCycleBlocks = 720,
     nStartMasternodePayments = 1553068993,
     nBudget_Fee_Confirmations = 6,
     nProposalEstablishmentTime = 60 * 60 * 24 \<rparr>"

definition CTestNetParams :: CChainParams where
  "CTestNetParams = CMainParams\<lparr> networkID := TESTNET,
     nEnforceBlockUpgradeMajority := 51,
     nRejectBlockOutdatedMajority := 75,
     nToCheckBlockUpgradeMajority := 100,
     nTargetSpacing := 1 * 60,
     nLastPOWBlock := 321,
     nMaturity := 15,
     nStakeMinDepth := 100,
     nMasternodeCountDrift := 4,
     nModifierUpdateBlock := 51197,
     nMaxMoneyOut := 43199500 * COIN,
     nZerocoinStartHeight := 900900900,
     nZerocoinStartTime := 2147483000,
     nBlockEnforceSerialRange := 1,
     fAllowMinDifficultyBlocks := True,
     fRequireStandard := True,
     fMineBlocksOnDemand := False,
     nBudgetCycleBlocks := 144,
     nStartMasternodePayments := 1553068993,
     nBudget_Fee_Confirmations := 3,
     nProposalEstablishmentTime := 60 * 5 \<rparr>"

definition CRegTestParams :: CChainParams where
  "CRegTestParams = CTestNetParams\<lparr> networkID := REGTEST,
     nSubsidyHalvingInterval := 150,
     nEnforceBlockUpgradeMajority := 750,
     nRejectBlockOutdatedMajority := 950,
     nToCheckBlockUpgradeMajority := 1000,
     nTargetSpacing := 1 * 60,
     bnProofOfWorkLimit := bu_shr (bu_not (of_u64 8 0)) 1,
     fAllowMinDifficultyBlocks := True,
     fRequireStandard := False,
     fMineBlocksOnDemand := True,
     fSkipProofOfWorkCheck := True \<rparr>"

definition CUnitTestParams :: CChainParams where
  "CUnitTestParams = CMainParams\<lparr> networkID := UNITTEST,
     fAllowMinDifficultyBlocks := False,
     fMineBlocksOnDemand := True \<rparr>"

fun Params_of :: "Network \<Rightarrow> CChainParams" where
  "Params_of MAIN = CMainParams"
| "Params_of TESTNET = CTestNetParams"
| "Params_of REGTEST = CRegTestParams"
| "Params_of UNITTEST = CUnitTestParams"

definition IsTimeProtocolV2 :: "CChainParams \<Rightarrow> int \<Rightarrow> bool" where
  "IsTimeProtocolV2 P h \<longleftrightarrow> h \<ge> nBlockTimeProtocolV2 P"

definition IsStakeModifierV2 :: "CChainParams \<Rightarrow> int \<Rightarrow> bool" where
  "IsStakeModifierV2 P h \<longleftrightarrow> h \<ge> nBlockStakeModifierlV2 P"

definition FutureBlockTimeDrift_type :: "CChainParams \<Rightarrow> bool \<Rightarrow> int" where
  "FutureBlockTimeDrift_type P isPoS = (if isPoS then nFutureTimeDriftPoS P else nFutureTimeDriftPoW P)"

definition MaxFutureBlockTime_type :: "CChainParams \<Rightarrow> int \<Rightarrow> bool \<Rightarrow> int" where
  "MaxFutureBlockTime_type P time isPoS = time + FutureBlockTimeDrift_type P isPoS"

text \<open>The block times are \<open>uint32_t\<close>, so that the sum of the age test wraps.\<close>

definition HasStakeMinAgeOrDepth :: "CChainParams \<Rightarrow> int \<Rightarrow> u32 \<Rightarrow> int \<Rightarrow> u32 \<Rightarrow> bool" where
  "HasStakeMinAgeOrDepth P contextHeight contextTime utxoFromBlockHeight utxoFromBlockTime =
     (if \<not> IsStakeModifierV2 P contextHeight
      then networkID P = REGTEST \<or> utxoFromBlockTime + 3600 \<le> contextTime
      else contextHeight - utxoFromBlockHeight \<ge> nStakeMinDepth P)"

definition FutureBlockTimeDrift :: "CChainParams \<Rightarrow> int \<Rightarrow> int" where
  "FutureBlockTimeDrift P h =
     (if IsTimeProtocolV2 P h then nTimeSlotLength P - 1
      else if h > nLastPOWBlock P then nFutureTimeDriftPoS P else nFutureTimeDriftPoW P)"

text \<open>\<open>nTime % TimeSlotLength()\<close> is 0 for the truncating and the flooring remainder alike.\<close>

definition IsValidBlockTimeStamp :: "CChainParams \<Rightarrow> int \<Rightarrow> int \<Rightarrow> bool" where
  "IsValidBlockTimeStamp P time h =
     (if \<not> IsTimeProtocolV2 P h then True else time mod nTimeSlotLength P = 0)"

section \<open>Zerocoin denominations\<close>

datatype CoinDenomination = ZQ_ERROR | ZQ_ONE | ZQ_FIVE | ZQ_TEN | ZQ_FIFTY | ZQ_ONE_HUNDRED
  | ZQ_FIVE_HUNDRED | ZQ_ONE_THOUSAND | ZQ_FIVE_THOUSAND

fun denomination_code :: "CoinDenomination \<Rightarrow> int" where
  "denomination_code ZQ_ERROR = 0"
| "denomination_code ZQ_ONE = 1"
| "denomination_code ZQ_FIVE = 5"
| "denomination_code ZQ_TEN = 10"
| "denomination_code ZQ_FIFTY = 50"
| "denomination_code ZQ_ONE_HUNDRED = 100"
| "denomination_code ZQ_FIVE_HUNDRED = 500"
| "denomination_code ZQ_ONE_THOUSAND = 1000"
| "denomination_code ZQ_FIVE_THOUSAND = 5000"

definition zerocoinDenomList :: "CoinDenomination list" where
  "zerocoinDenomList = [ZQ_ONE, ZQ_FIVE, ZQ_TEN, ZQ_FIFTY, ZQ_ONE_HUNDRED, ZQ_FIVE_HUNDRED,
     ZQ_ONE_THOUSAND, ZQ_FIVE_THOUSAND]"

definition maxCoinsAtDenom :: "int list" where
  "maxCoinsAtDenom = [4, 1, 4, 1, 4, 1, 4, 4]"

definition IntToZerocoinDenomination :: "int \<Rightarrow> CoinDenomination" where
  "IntToZerocoinDenomination n =
     (if n = 1 then ZQ_ONE else if n = 5 then ZQ_FIVE else if n = 10 then ZQ_TEN
      else if n = 50 then ZQ_FIFTY else if n = 100 then ZQ_ONE_HUNDRED
      else if n = 500 then ZQ_FIVE_HUNDRED else if n = 1000 then ZQ_ONE_THOUSAND
      else if n = 5000 then ZQ_FIVE_THOUSAND else ZQ_ERROR)"

fun ZerocoinDenominationToInt :: "CoinDenomination \<Rightarrow> int" where
  "ZerocoinDenominationToInt ZQ_ONE = 1"
| "ZerocoinDenominationToInt ZQ_FIVE = 5"
| "ZerocoinDenominationToInt ZQ_TEN = 10"
| "ZerocoinDenominationToInt ZQ_FIFTY = 50"
| "ZerocoinDenominationToInt ZQ_ONE_HUNDRED = 100"
| "ZerocoinDenominationToInt ZQ_FIVE_HUNDRED = 500"
| "ZerocoinDenominationToInt ZQ_ONE_THOUSAND = 1000"
| "ZerocoinDenominationToInt ZQ_FIVE_THOUSAND = 5000"
| "ZerocoinDenominationToInt ZQ_ERROR = 0"

text \<open>Amounts are read as exact integers here; the routines neither add nor multiply beyond
  5000 coins.  The divisions truncate.\<close>

definition c_div :: "int \<Rightarrow> int \<Rightarrow> int" where
  "c_div n d = (let q = \<bar>n\<bar> div \<bar>d\<bar> in if n < 0 \<longleftrightarrow> d < 0 then q else - q)"

definition COIN_int :: int where "COIN_int = 100000000"

definition AmountToZerocoinDenomination :: "int \<Rightarrow> CoinDenomination" where
  "AmountToZerocoinDenomination n =
     (let residual_amount = n - COIN_int * c_div n COIN_int in
      if residual_amount = 0 then IntToZerocoinDenomination (c_div n COIN_int) else ZQ_ERROR)"

text \<open>The loop over the denominations; \<open>prev\<close> is \<open>None\<close> in its first round.  The result pairs
  the denomination with what is stored in \<open>nRemaining\<close>, if anything.\<close>

fun closest_loop :: "int \<Rightarrow> CoinDenomination option \<Rightarrow> CoinDenomination list \<Rightarrow> CoinDenomination \<times> int option" where
  "closest_loop nConvert prev [] =
     (let d = (case prev of None \<Rightarrow> ZQ_ERROR | Some d \<Rightarrow> d) in (d, Some (nConvert - denomination_code d)))"
| "closest_loop nConvert prev (d # ds) =
     (if nConvert = denomination_code d then (d, Some 0)
      else case prev of
        None \<Rightarrow> closest_loop nConvert (Some d) ds
      | Some p \<Rightarrow> if denomination_code d > nConvert then (p, Some (nConvert - denomination_code p))
                  else closest_loop nConvert (Some d) ds)"

definition AmountToClosestDenomination :: "int \<Rightarrow> CoinDenomination \<times> int option" where
  "AmountToClosestDenomination nAmount =
     (if nAmount < 1 * COIN_int then (ZQ_ERROR, None)
      else closest_loop (c_div nAmount COIN_int) None zerocoinDenomList)"

definition ZerocoinDenominationToAmount :: "CoinDenomination \<Rightarrow> int" where
  "ZerocoinDenominationToAmount d = COIN_int * ZerocoinDenominationToInt d"

lemma Int_denomination_roundtrip:
  "IntToZerocoinDenomination (ZerocoinDenominationToInt d) = d"
  by (cases d) (simp_all add: IntToZerocoinDenomination_def)

lemma Amount_denomination_roundtrip:
  "AmountToZerocoinDenomination (ZerocoinDenominationToAmount d) = d"
proof -
  have "c_div (COIN_int * ZerocoinDenominationToInt d) COIN_int = ZerocoinDenominationToInt d"
    by (cases d) (simp_all add: c_div_def COIN_int_def)
  then show ?thesis
    by (simp add: AmountToZerocoinDenomination_def ZerocoinDenominationToAmount_def Int_denomination_roundtrip)
qed

text \<open>The closest denomination is the largest one not above the amount.\<close>

lemma AmountToClosestDenomination_largest:
  assumes "COIN_int \<le> a"
  shows "\<exists>d. AmountToClosestDenomination a = (d, Some (a div COIN_int - denomination_code d)) \<and>
    d \<in> set zerocoinDenomList \<and> denomination_code d * COIN_int \<le> a \<and>
    (\<forall>e \<in> set zerocoinDenomList. denomination_code e * COIN_int \<le> a \<longrightarrow> denomination_code e \<le> denomination_code d)"
proof -
  define c where "c = a div COIN_int"
  have le: "n * COIN_int \<le> a \<longleftrightarrow> n \<le> c" for n
    unfolding c_def COIN_int_def by (rule iffI; linarith)
  have "1 \<le> c" using assms le [of 1] by simp
  moreover have "c_div a COIN_int = c" using assms by (simp add: c_div_def c_def COIN_int_def)
  ultimately show ?thesis
    using assms by (auto simp: AmountToClosestDenomination_def zerocoinDenomList_def le simp flip: c_def)
qed

end
