(* ===== verification/Chain.thy ===== *)
theory Chain
  imports Block Params
begin

unbundle bit_operations_syntax

text \<open>
  The block tree and the active chain: \<open>src/chain.h\<close>, \<open>src/chain.cpp\<close>, \<open>src/pow.cpp\<close>, and of
  \<open>src/main.cpp\<close> the skip list (\<open>GetSkipHeight\<close>, \<open>GetAncestor\<close>, \<open>BuildSkip\<close>),
  \<open>IsSuperMajority\<close>, \<open>LastCommonAncestor\<close> and \<open>AddToBlockIndex\<close>.  Block index entries live in
  an arena, a list, and a \<open>CBlockIndex*\<close> that is not NULL is a position in it.  Loops that follow
  pointers are \<open>partial_function\<close>s: not returning, or following NULL, is \<open>None\<close>.  The lemmas
  show that on a well-formed tree these loops return and find what a walk over the parents finds,
  and that adding blocks keeps the tree well-formed.
\<close>

section \<open>Block index entries\<close>

type_synonym ptr = nat

record CBlockIndex =
  bi_hash :: limbs
  pprev :: "ptr option"
  pnext :: "ptr option"
  pskip :: "ptr option"
  bnChainTrust :: limbs
  nHeight :: int
  nFile :: u32
  nDataPos :: u32
  nUndoPos :: u32
  nChainWork :: limbs
  nTx :: u32
  nChainTx :: u32
  nStatus :: u32
  nFlags :: u32
  nStakeModifier :: u64
  nStakeModifierChecksum :: u32
  prevoutStake :: COutPoint
  nStakeTime :: u32
  hashProofOfStake :: limbs
  nMint :: u64
  nMoneySupply :: u64
  nStakeModifierV2 :: limbs
  bi_nVersion :: u32
  bi_hashMerkleRoot :: limbs
  bi_nTime :: u32
  bi_nBits :: u32
  bi_nNonce :: u32
  bi_nAccumulatorCheckpoint :: limbs
  nSequenceId :: u32
  mapZerocoinSupply :: "(CoinDenomination \<times> u64) list"
  vMintDenominationsInBlock :: "CoinDenomination list"

type_synonym arena = "CBlockIndex list"

definition BLOCK_VALID_TREE :: u32 where "BLOCK_VALID_TREE = 2"
definition BLOCK_VALID_TRANSACTIONS :: u32 where "BLOCK_VALID_TRANSACTIONS = 3"
definition BLOCK_VALID_MASK :: u32 where "BLOCK_VALID_MASK = 1 OR 2 OR 3 OR 4 OR 5"
definition BLOCK_HAVE_DATA :: u32 where "BLOCK_HAVE_DATA = 8"
definition BLOCK_HAVE_UNDO :: u32 where "BLOCK_HAVE_UNDO = 16"
definition BLOCK_FAILED_VALID :: u32 where "BLOCK_FAILED_VALID = 32"
definition BLOCK_FAILED_CHILD :: u32 where "BLOCK_FAILED_CHILD = 64"
definition BLOCK_FAILED_MASK :: u32 where "BLOCK_FAILED_MASK = BLOCK_FAILED_VALID OR BLOCK_FAILED_CHILD"

definition BLOCK_PROOF_OF_STAKE :: u32 where "BLOCK_PROOF_OF_STAKE = 1"
definition BLOCK_STAKE_ENTROPY :: u32 where "BLOCK_STAKE_ENTROPY = 2"
definition BLOCK_STAKE_MODIFIER :: u32 where "BLOCK_STAKE_MODIFIER = 4"

text \<open>\<open>SetNull\<close> leaves \<open>pnext\<close>, \<open>bnChainTrust\<close> and \<open>hashProofOfStake\<close> as they are; the
  two hashes have been zeroed by their own constructor, \<open>pnext\<close> is uninitialised memory and
  given as an argument.\<close>

definition CBlockIndex_null :: "ptr option \<Rightarrow> CBlockIndex" where
  "CBlockIndex_null garbage = \<lparr> bi_hash = bu_zero 8, pprev = None, pnext = garbage, pskip = None,
     bnChainTrust = bu_zero 8, nHeight = 0, nFile = 0, nDataPos = 0, nUndoPos = 0,
     nChainWork = of_u64 8 0, nTx = 0, nChainTx = 0, nStatus = 0, nFlags = 0, nStakeModifier = 0,
     nStakeModifierChecksum = 0, prevoutStake = COutPoint_null, nStakeTime = 0,
     hashProofOfStake = bu_zero 8, nMint = 0, nMoneySupply = 0, nStakeModifierV2 = bu_zero 8,
     bi_nVersion = 0, bi_hashMerkleRoot = bu_zero 8, bi_nTime = 0, bi_nBits = 0, bi_nNonce = 0,
     bi_nAccumulatorCheckpoint = of_u64 8 0, nSequenceId = 0,
     mapZerocoinSupply = map (\<lambda>d. (d, 0)) zerocoinDenomList, vMintDenominationsInBlock = [] \<rparr>"

definition SetProofOfStake :: "CBlockIndex \<Rightarrow> CBlockIndex" where
  "SetProofOfStake b = b\<lparr> nFlags := nFlags b OR BLOCK_PROOF_OF_STAKE \<rparr>"

definition CBlockIndex_of :: "ptr option \<Rightarrow> CBlock \<Rightarrow> CBlockIndex" where
  "CBlockIndex_of garbage block =
     (let b = (CBlockIndex_null garbage)\<lparr> bi_nVersion := bh_nVersion block,
                bi_hashMerkleRoot := hashMerkleRoot block, bi_nTime := nTime block,
                bi_nBits := nBits block, bi_nNonce := nNonce block \<rparr>;
          b1 = (if 3 <s bh_nVersion block
                then b\<lparr> bi_nAccumulatorCheckpoint := nAccumulatorCheckpoint block \<rparr> else b)
      in if IsProofOfStake block
         then (SetProofOfStake b1)\<lparr> prevoutStake := prevout (vin (vtx block ! 1) ! 0),
                nStakeTime := nTime block \<rparr>
         else b1)"

record CDiskBlockPos =
  dbp_nFile :: u32
  dbp_nPos :: u32

definition CDiskBlockPos_null :: CDiskBlockPos where
  "CDiskBlockPos_null = \<lparr> dbp_nFile = - 1, dbp_nPos = 0 \<rparr>"

definition CDiskBlockPos_IsNull :: "CDiskBlockPos \<Rightarrow> bool" where
  "CDiskBlockPos_IsNull p \<longleftrightarrow> dbp_nFile p = - 1"

definition GetBlockPos :: "CBlockIndex \<Rightarrow> CDiskBlockPos" where
  "GetBlockPos b = (if nStatus b AND BLOCK_HAVE_DATA \<noteq> 0
     then \<lparr> dbp_nFile = nFile b, dbp_nPos = nDataPos b \<rparr> else CDiskBlockPos_null)"

definition GetUndoPos :: "CBlockIndex \<Rightarrow> CDiskBlockPos" where
  "GetUndoPos b = (if nStatus b AND BLOCK_HAVE_UNDO \<noteq> 0
     then \<lparr> dbp_nFile = nFile b, dbp_nPos = nUndoPos b \<rparr> else CDiskBlockPos_null)"

definition bi_GetBlockHeader :: "arena \<Rightarrow> CBlockIndex \<Rightarrow> CBlockHeader" where
  "bi_GetBlockHeader st b =
     (let h = CBlockHeader_null\<lparr> bh_nVersion := bi_nVersion b \<rparr>;
          h1 = (case pprev b of None \<Rightarrow> h | Some p \<Rightarrow> h\<lparr> hashPrevBlock := bi_hash (st ! p) \<rparr>)
      in h1\<lparr> hashMerkleRoot := bi_hashMerkleRoot b, nTime := bi_nTime b, nBits := bi_nBits b,
             nNonce := bi_nNonce b, nAccumulatorCheckpoint := bi_nAccumulatorCheckpoint b \<rparr>)"

text \<open>\<open>mapZerocoinSupply.at\<close> throws for an absent denomination.\<close>

definition GetZcMints :: "CBlockIndex \<Rightarrow> CoinDenomination \<Rightarrow> u64 option" where
  "GetZcMints b d = map_of (mapZerocoinSupply b) d"

definition GetZcMintsAmount :: "CBlockIndex \<Rightarrow> CoinDenomination \<Rightarrow> u64 option" where
  "GetZcMintsAmount b d = map_option (\<lambda>n. of_int (ZerocoinDenominationToAmount d) * n) (GetZcMints b d)"

definition GetZerocoinSupply :: "CBlockIndex \<Rightarrow> u64 option" where
  "GetZerocoinSupply b = foldl (\<lambda>t d. case (t, GetZcMintsAmount b d) of
     (Some n, Some a) \<Rightarrow> Some (n + a) | _ \<Rightarrow> None) (Some 0) zerocoinDenomList"

definition MintedDenomination :: "CBlockIndex \<Rightarrow> CoinDenomination \<Rightarrow> bool" where
  "MintedDenomination b d \<longleftrightarrow> d \<in> set (vMintDenominationsInBlock b)"

definition bi_GetBlockTime :: "CBlockIndex \<Rightarrow> int" where
  "bi_GetBlockTime b = uint (bi_nTime b)"

text \<open>The times of the block and up to ten of its ancestors, at most \<open>k\<close> in all; the array is
  filled from its end, so that the oldest time comes first.\<close>

fun median_times :: "nat \<Rightarrow> arena \<Rightarrow> ptr option \<Rightarrow> int list" where
  "median_times 0 st p = []"
| "median_times (Suc k) st None = []"
| "median_times (Suc k) st (Some p) = median_times k st (pprev (st ! p)) @ [bi_GetBlockTime (st ! p)]"

definition GetMedianTimePast :: "arena \<Rightarrow> ptr \<Rightarrow> int" where
  "GetMedianTimePast st p = (let ts = sort (median_times 11 st (Some p)) in ts ! (length ts div 2))"

text \<open>\<open>GetAdjustedTime()\<close> is an argument.\<close>

definition MaxFutureBlockTime :: "CChainParams \<Rightarrow> int \<Rightarrow> CBlockIndex \<Rightarrow> int" where
  "MaxFutureBlockTime P adjusted b = adjusted + FutureBlockTimeDrift P (nHeight b + 1)"

definition MinPastBlockTime :: "CChainParams \<Rightarrow> arena \<Rightarrow> ptr \<Rightarrow> int" where
  "MinPastBlockTime P st p =
     (let b = st ! p in
      if \<not> IsTimeProtocolV2 P (nHeight b + 1) then GetMedianTimePast st p
      else if nHeight b + 1 = nBlockTimeProtocolV2 P
      then bi_GetBlockTime b - FutureBlockTimeDrift P (nHeight b) + FutureBlockTimeDrift P (nHeight b + 1)
      else bi_GetBlockTime b)"

definition bi_IsProofOfStake :: "CBlockIndex \<Rightarrow> bool" where
  "bi_IsProofOfStake b \<longleftrightarrow> nFlags b AND BLOCK_PROOF_OF_STAKE \<noteq> 0"

definition bi_IsProofOfWork :: "CBlockIndex \<Rightarrow> bool" where
  "bi_IsProofOfWork b \<longleftrightarrow> nFlags b AND BLOCK_PROOF_OF_STAKE = 0"

definition GetStakeEntropyBit :: "CBlockIndex \<Rightarrow> u32" where
  "GetStakeEntropyBit b = ucast (Get64 (bi_hash b) 0 AND 1)"

definition SetStakeEntropyBit :: "u32 \<Rightarrow> CBlockIndex \<Rightarrow> bool \<times> CBlockIndex" where
  "SetStakeEntropyBit nEntropyBit b =
     (if nEntropyBit > 1 then (False, b)
      else (True, b\<lparr> nFlags := nFlags b OR (if nEntropyBit \<noteq> 0 then BLOCK_STAKE_ENTROPY else 0) \<rparr>))"

definition GeneratedStakeModifier :: "CBlockIndex \<Rightarrow> bool" where
  "GeneratedStakeModifier b \<longleftrightarrow> nFlags b AND BLOCK_STAKE_MODIFIER \<noteq> 0"

definition SetStakeModifier :: "u64 \<Rightarrow> bool \<Rightarrow> CBlockIndex \<Rightarrow> CBlockIndex" where
  "SetStakeModifier nModifier fGenerated b =
     (let b1 = b\<lparr> nStakeModifier := nModifier \<rparr> in
      if fGenerated then b1\<lparr> nFlags := nFlags b1 OR BLOCK_STAKE_MODIFIER \<rparr> else b1)"

text \<open>The asserts on the argument are the callers' obligation: \<open>upto AND NOT mask = 0\<close>.\<close>

definition IsValid :: "u32 \<Rightarrow> CBlockIndex \<Rightarrow> bool" where
  "IsValid nUpTo b = (if nStatus b AND BLOCK_FAILED_MASK \<noteq> 0 then False
     else nStatus b AND BLOCK_VALID_MASK \<ge> nUpTo)"

definition RaiseValidity :: "u32 \<Rightarrow> CBlockIndex \<Rightarrow> bool \<times> CBlockIndex" where
  "RaiseValidity nUpTo b =
     (if nStatus b AND BLOCK_FAILED_MASK \<noteq> 0 then (False, b)
      else if nStatus b AND BLOCK_VALID_MASK < nUpTo
      then (True, b\<lparr> nStatus := (nStatus b AND NOT BLOCK_VALID_MASK) OR nUpTo \<rparr>)
      else (False, b))"

section \<open>The skip list\<close>

definition InvertLowestOne :: "int \<Rightarrow> int" where
  "InvertLowestOne n = n AND (n - 1)"

definition GetSkipHeight :: "int \<Rightarrow> int" where
  "GetSkipHeight height =
     (if height < 2 then 0
      else if height AND 1 \<noteq> 0 then InvertLowestOne (InvertLowestOne (height - 1)) + 1
      else InvertLowestOne height)"

lemma InvertLowestOne_less: "0 < n \<Longrightarrow> 0 \<le> InvertLowestOne n \<and> InvertLowestOne n < n"
  using AND_upper2 [of "n - 1" n] by (simp add: InvertLowestOne_def)

lemma GetSkipHeight_less: "0 < h \<Longrightarrow> 0 \<le> GetSkipHeight h \<and> GetSkipHeight h < h"
proof -
  assume h: "0 < h"
  have "0 \<le> InvertLowestOne m \<and> InvertLowestOne m \<le> m" if "0 \<le> m" for m
    using that InvertLowestOne_less [of m] by (cases "m = 0") (simp_all add: InvertLowestOne_def)
  from this [of "InvertLowestOne (h - 1)"] InvertLowestOne_less [of "h - 1"] InvertLowestOne_less [of h] h
  show ?thesis by (auto simp: GetSkipHeight_def)
qed

text \<open>The walk of \<open>GetAncestor\<close>.  \<open>None\<close> is a NULL pointer followed.\<close>

function ancestor_walk :: "arena \<Rightarrow> nat \<Rightarrow> ptr option \<Rightarrow> nat \<Rightarrow> ptr option option" where
  "ancestor_walk st height pindexWalk heightWalk =
     (if heightWalk > height then
        (let heightSkip = GetSkipHeight (int heightWalk);
             heightSkipPrev = GetSkipHeight (int heightWalk - 1) in
         if heightSkip = int height \<or> (heightSkip > int height \<and>
            \<not> (heightSkipPrev < heightSkip - 2 \<and> heightSkipPrev \<ge> int height))
         then (case pindexWalk of None \<Rightarrow> None
               | Some p \<Rightarrow> ancestor_walk st height (pskip (st ! p)) (nat heightSkip))
         else (case pindexWalk of None \<Rightarrow> None
               | Some p \<Rightarrow> ancestor_walk st height (pprev (st ! p)) (heightWalk - 1)))
      else Some pindexWalk)"
  by auto
termination
proof (relation "measure (\<lambda>(st, h, p, hw). hw)", goal_cases)
  case (2 st height p hw x xa q)
  then have "0 < int hw" by linarith
  then show ?case using GetSkipHeight_less [of "int hw"] 2(2) by (simp add: nat_less_iff)
qed auto

declare ancestor_walk.simps [simp del]

definition GetAncestor :: "arena \<Rightarrow> ptr \<Rightarrow> int \<Rightarrow> ptr option option" where
  "GetAncestor st p height =
     (if height > nHeight (st ! p) \<or> height < 0 then Some None
      else ancestor_walk st (nat height) (Some p) (nat (nHeight (st ! p))))"

definition BuildSkip :: "arena \<Rightarrow> ptr \<Rightarrow> arena option" where
  "BuildSkip st p =
     (case pprev (st ! p) of None \<Rightarrow> Some st
      | Some q \<Rightarrow> map_option (\<lambda>a. st[p := (st ! p)\<lparr> pskip := a \<rparr>])
          (GetAncestor st q (GetSkipHeight (nHeight (st ! p)))))"

text \<open>\<open>IsSuperMajority\<close>: at most \<open>nToCheck\<close> rounds, fewer once enough blocks are found.\<close>

fun majority_loop :: "arena \<Rightarrow> u32 \<Rightarrow> nat \<Rightarrow> ptr option \<Rightarrow> nat \<Rightarrow> nat \<Rightarrow> nat" where
  "majority_loop st minVersion 0 pstart nRequired nFound = nFound"
| "majority_loop st minVersion (Suc n) pstart nRequired nFound =
     (if nFound < nRequired then
        (case pstart of None \<Rightarrow> nFound
         | Some p \<Rightarrow> majority_loop st minVersion n (pprev (st ! p)) nRequired
             (if minVersion \<le>s bi_nVersion (st ! p) then nFound + 1 else nFound))
      else nFound)"

definition IsSuperMajority :: "CChainParams \<Rightarrow> arena \<Rightarrow> u32 \<Rightarrow> ptr option \<Rightarrow> u32 \<Rightarrow> bool" where
  "IsSuperMajority P st minVersion pstart nRequired \<longleftrightarrow>
     majority_loop st minVersion (nat (nToCheckBlockUpgradeMajority P)) pstart (unat nRequired) 0 \<ge> unat nRequired"

section \<open>The active chain\<close>

type_synonym CChain = "ptr option list"

definition Genesis :: "CChain \<Rightarrow> ptr option" where
  "Genesis ch = (if length ch > 0 then ch ! 0 else None)"

partial_function (option) tip_walk :: "arena \<Rightarrow> ptr option \<Rightarrow> ptr option option" where
  "tip_walk st p = (case p of None \<Rightarrow> Some None
     | Some q \<Rightarrow> if pprev (st ! q) \<noteq> None \<and> \<not> bi_IsProofOfStake (st ! q) then tip_walk st (pprev (st ! q))
         else Some p)"

definition Tip :: "arena \<Rightarrow> CChain \<Rightarrow> bool \<Rightarrow> ptr option option" where
  "Tip st ch fProofOfStake =
     (if length ch < 1 then Some None
      else if fProofOfStake then tip_walk st (ch ! (length ch - 1)) else Some (ch ! (length ch - 1)))"

definition chain_at :: "CChain \<Rightarrow> int \<Rightarrow> ptr option" where
  "chain_at ch n = (if n < 0 \<or> n \<ge> int (length ch) then None else ch ! nat n)"

definition Contains :: "arena \<Rightarrow> CChain \<Rightarrow> ptr \<Rightarrow> bool" where
  "Contains st ch p \<longleftrightarrow> chain_at ch (nHeight (st ! p)) = Some p"

definition Next :: "arena \<Rightarrow> CChain \<Rightarrow> ptr \<Rightarrow> ptr option" where
  "Next st ch p = (if Contains st ch p then chain_at ch (nHeight (st ! p) + 1) else None)"

definition Height :: "CChain \<Rightarrow> int" where
  "Height ch = int (length ch) - 1"

partial_function (option) set_tip_loop :: "arena \<Rightarrow> CChain \<Rightarrow> ptr option \<Rightarrow> CChain option" where
  "set_tip_loop st ch p = (case p of None \<Rightarrow> Some ch
     | Some q \<Rightarrow> if ch ! nat (nHeight (st ! q)) \<noteq> Some q
         then set_tip_loop st (ch[nat (nHeight (st ! q)) := Some q]) (pprev (st ! q)) else Some ch)"

definition resize_chain :: "CChain \<Rightarrow> nat \<Rightarrow> CChain" where
  "resize_chain ch n = take n ch @ replicate (n - length ch) None"

definition SetTip :: "arena \<Rightarrow> CChain \<Rightarrow> ptr option \<Rightarrow> CChain option" where
  "SetTip st ch p = (case p of None \<Rightarrow> Some []
     | Some q \<Rightarrow> set_tip_loop st (resize_chain ch (nat (nHeight (st ! q) + 1))) p)"

partial_function (option) locator_loop :: "arena \<Rightarrow> CChain \<Rightarrow> int \<Rightarrow> limbs list \<Rightarrow> ptr option \<Rightarrow> limbs list option" where
  "locator_loop st ch nStep vHave p = (case p of None \<Rightarrow> Some vHave
     | Some q \<Rightarrow>
         let vHave' = vHave @ [bi_hash (st ! q)] in
         if nHeight (st ! q) = 0 then Some vHave'
         else
           let h = max (nHeight (st ! q) - nStep) 0;
               nStep' = (if length vHave' > 10 then nStep * 2 else nStep)
           in if Contains st ch q then locator_loop st ch nStep' vHave' (chain_at ch h)
              else (case GetAncestor st q h of None \<Rightarrow> None
                    | Some r \<Rightarrow> locator_loop st ch nStep' vHave' r))"

definition GetLocator :: "arena \<Rightarrow> CChain \<Rightarrow> ptr option \<Rightarrow> CBlockLocator option" where
  "GetLocator st ch p = (case p of None \<Rightarrow> (case Tip st ch False of None \<Rightarrow> None | Some t \<Rightarrow> locator_loop st ch 1 [] t)
     | Some q \<Rightarrow> locator_loop st ch 1 [] p)"

partial_function (option) fork_loop :: "arena \<Rightarrow> CChain \<Rightarrow> ptr option \<Rightarrow> ptr option option" where
  "fork_loop st ch p = (case p of None \<Rightarrow> Some None
     | Some q \<Rightarrow> if \<not> Contains st ch q then fork_loop st ch (pprev (st ! q)) else Some p)"

definition FindFork :: "arena \<Rightarrow> CChain \<Rightarrow> ptr option \<Rightarrow> ptr option option" where
  "FindFork st ch p = (case p of None \<Rightarrow> Some None
     | Some q \<Rightarrow> if nHeight (st ! q) > Height ch
         then (case GetAncestor st q (Height ch) of None \<Rightarrow> None | Some r \<Rightarrow> fork_loop st ch r)
         else fork_loop st ch p)"

text \<open>\<open>LastCommonAncestor\<close>: the assert fails, or NULL is followed, as \<open>None\<close>.\<close>

partial_function (option) common_loop :: "arena \<Rightarrow> ptr option \<Rightarrow> ptr option \<Rightarrow> (ptr option \<times> ptr option) option" where
  "common_loop st pa pb = (case (pa, pb) of
     (Some a, Some b) \<Rightarrow> if a \<noteq> b then common_loop st (pprev (st ! a)) (pprev (st ! b)) else Some (pa, pb)
   | _ \<Rightarrow> Some (pa, pb))"

definition LastCommonAncestor :: "arena \<Rightarrow> ptr \<Rightarrow> ptr \<Rightarrow> ptr option option" where
  "LastCommonAncestor st a b =
     (let starts = (if nHeight (st ! a) > nHeight (st ! b)
                    then map_option (\<lambda>a'. (a', Some b)) (GetAncestor st a (nHeight (st ! b)))
                    else if nHeight (st ! b) > nHeight (st ! a)
                    then map_option (\<lambda>b'. (Some a, b')) (GetAncestor st b (nHeight (st ! a)))
                    else Some (Some a, Some b))
      in case starts of None \<Rightarrow> None
         | Some (pa, pb) \<Rightarrow> (case common_loop st pa pb of None \<Rightarrow> None
             | Some (x, y) \<Rightarrow> if x = y then Some x else None))"

section \<open>Proof of work\<close>

text \<open>The trust of a proof-of-stake block is a quotient of \<open>uint256(1) << 256\<close>.  A throwing
  division, a failed assert and a NULL pointer followed are \<open>None\<close>.\<close>

definition div_or_throw :: "limbs \<Rightarrow> limbs \<Rightarrow> limbs option" where
  "div_or_throw a b = (case bu_div a b of Inl e \<Rightarrow> None | Inr q \<Rightarrow> Some q)"

definition GetBlockTrust :: "CBlockIndex \<Rightarrow> limbs option" where
  "GetBlockTrust b =
     (let bnTarget = cr_value (SetCompact (bi_nBits b)) in
      if CompareTo bnTarget (of_u64 8 0) \<le> 0 then Some (of_u64 8 0)
      else if bi_IsProofOfStake b
      then div_or_throw (bu_shl (of_u64 8 1) 256) (bu_add bnTarget (of_u64 8 1))
      else map_option (\<lambda>w. if CompareTo w (of_u64 8 1) > 0 then w else of_u64 8 1)
        (div_or_throw (bu_shr (bu_not (of_u64 8 0)) 20) (bu_add bnTarget (of_u64 8 1))))"

definition GetBlockProof :: "CBlockIndex \<Rightarrow> limbs option" where
  "GetBlockProof b =
     (let c = SetCompact (bi_nBits b); bnTarget = cr_value c in
      if cr_negative c \<or> cr_overflow c \<or> EqualTo bnTarget 0 then Some (of_u64 8 0)
      else map_option (\<lambda>q. bu_add q (of_u64 8 1))
        (div_or_throw (bu_not bnTarget) (bu_add bnTarget (of_u64 8 1))))"

definition CheckProofOfWork :: "CChainParams \<Rightarrow> limbs \<Rightarrow> u32 \<Rightarrow> bool" where
  "CheckProofOfWork P h bits1 =
     (if fSkipProofOfWorkCheck P then True
      else let c = SetCompact bits1; bnTarget = cr_value c in
        if cr_negative c \<or> EqualTo bnTarget 0 \<or> cr_overflow c \<or> CompareTo bnTarget (bnProofOfWorkLimit P) > 0
        then False
        else if CompareTo h bnTarget > 0 then False
        else True)"

text \<open>The loop of the Dark Gravity Wave over at most 24 blocks, \<open>k\<close> of them left.\<close>

record dgw_state =
  CountBlocks :: int
  PastDifficultyAverage :: limbs
  PastDifficultyAveragePrev :: limbs
  nActualTimespan :: int
  LastBlockTime :: int

definition dgw_round :: "CBlockIndex \<Rightarrow> dgw_state \<Rightarrow> dgw_state option" where
  "dgw_round b s =
     (let n = CountBlocks s + 1;
          target = cr_value (SetCompact (bi_nBits b));
          avg = (if n \<le> 24
                 then if n = 1 then Some target
                      else div_or_throw (bu_add (bu_mul32 (PastDifficultyAveragePrev s) (of_int n)) target)
                             (of_u64 8 (of_int (n + 1)))
                 else Some (PastDifficultyAverage s))
      in case avg of None \<Rightarrow> None
         | Some a \<Rightarrow> Some \<lparr> CountBlocks = n, PastDifficultyAverage = a,
             PastDifficultyAveragePrev = (if n \<le> 24 then a else PastDifficultyAveragePrev s),
             nActualTimespan = (if LastBlockTime s > 0
               then nActualTimespan s + (LastBlockTime s - bi_GetBlockTime b) else nActualTimespan s),
             LastBlockTime = bi_GetBlockTime b \<rparr>)"

fun dgw_loop :: "arena \<Rightarrow> nat \<Rightarrow> ptr option \<Rightarrow> dgw_state \<Rightarrow> dgw_state option" where
  "dgw_loop st 0 p s = Some s"
| "dgw_loop st (Suc k) None s = Some s"
| "dgw_loop st (Suc k) (Some p) s =
     (if \<not> nHeight (st ! p) > 0 then Some s
      else case dgw_round (st ! p) s of None \<Rightarrow> None
        | Some s' \<Rightarrow> if pprev (st ! p) = None then Some s' else dgw_loop st k (pprev (st ! p)) s')"

text \<open>\<open>operator*=\<close> with an \<open>int64_t\<close> picks the \<open>uint32_t\<close> overload and truncates, \<open>operator/=\<close>
  the one for big numbers.\<close>

definition retarget_stake :: "arena \<Rightarrow> CBlockIndex \<Rightarrow> u32 option" where
  "retarget_stake st b =
     (let bnTargetLimit = bu_shr (bu_not (of_u64 8 0)) 24;
          nTargetSpacing1 = 60; nTargetTimespan = 60 * 40;
          spacing = (if nHeight b \<noteq> 0
            then map_option (\<lambda>q. bi_GetBlockTime b - bi_GetBlockTime (st ! q)) (pprev b) else Some 0)
      in case spacing of None \<Rightarrow> None
         | Some nActualSpacing0 \<Rightarrow>
             let nActualSpacing = (if nActualSpacing0 < 0 then 1 else nActualSpacing0);
                 nInterval = nTargetTimespan div nTargetSpacing1;
                 bnNew = bu_mul32 (cr_value (SetCompact (bi_nBits b)))
                   (of_int ((nInterval - 1) * nTargetSpacing1 + nActualSpacing + nActualSpacing))
             in case div_or_throw bnNew (of_u64 8 (of_int ((nInterval + 1) * nTargetSpacing1))) of None \<Rightarrow> None
                | Some q \<Rightarrow> GetCompact (if CompareTo q (of_u64 8 0) \<le> 0 \<or> CompareTo q bnTargetLimit > 0
                    then bnTargetLimit else q) False)"

definition retarget_work :: "CChainParams \<Rightarrow> dgw_state \<Rightarrow> u32 option" where
  "retarget_work P s =
     (let span = CountBlocks s * nTargetSpacing P;
          t0 = nActualTimespan s;
          t1 = (if t0 < c_div span 3 then c_div span 3 else t0);
          t2 = (if t1 > span * 3 then span * 3 else t1)
      in case div_or_throw (bu_mul32 (PastDifficultyAverage s) (of_int t2)) (of_u64 8 (of_int span)) of None \<Rightarrow> None
         | Some q \<Rightarrow> GetCompact (if CompareTo q (bnProofOfWorkLimit P) > 0 then bnProofOfWorkLimit P else q) False)"

definition GetNextWorkRequired :: "CChainParams \<Rightarrow> arena \<Rightarrow> ptr option \<Rightarrow> u32 option" where
  "GetNextWorkRequired P st pindexLast =
     (if networkID P = REGTEST then map_option (\<lambda>p. bi_nBits (st ! p)) pindexLast
      else case pindexLast of None \<Rightarrow> GetCompact (bnProofOfWorkLimit P) False
      | Some p \<Rightarrow>
          if nHeight (st ! p) = 0 \<or> nHeight (st ! p) < 24 then GetCompact (bnProofOfWorkLimit P) False
          else if nHeight (st ! p) > nLastPOWBlock P then retarget_stake st (st ! p)
          else (case dgw_loop st 24 pindexLast \<lparr> CountBlocks = 0, PastDifficultyAverage = bu_zero 8,
                  PastDifficultyAveragePrev = bu_zero 8, nActualTimespan = 0, LastBlockTime = 0 \<rparr> of
              None \<Rightarrow> None | Some s \<Rightarrow> retarget_work P s))"

section \<open>Adding a block to the tree\<close>

text \<open>The stake modifiers of \<open>src/kernel.cpp\<close> are parameters: the modifier for the successor of a
  block with the flag whether it is new, the checksum of an entry, and the modifier of version 2.
  Their failures are only logged.\<close>

record stake_modifiers =
  ComputeNextStakeModifier :: "arena \<Rightarrow> ptr option \<Rightarrow> u64 \<times> bool"
  GetStakeModifierChecksum :: "arena \<Rightarrow> ptr \<Rightarrow> u32"
  ComputeStakeModifier :: "arena \<Rightarrow> ptr option \<Rightarrow> limbs \<Rightarrow> limbs"

record block_tree =
  bt_arena :: arena
  mapBlockIndex :: "limbs \<Rightarrow> ptr option"
  pindexBestHeader :: "ptr option"
  setDirtyBlockIndex :: "ptr list"
  mapProofOfStake :: "limbs \<Rightarrow> limbs option"

definition upd :: "arena \<Rightarrow> ptr \<Rightarrow> (CBlockIndex \<Rightarrow> CBlockIndex) \<Rightarrow> arena" where
  "upd st p f = st[p := f (st ! p)]"

definition prev_field :: "arena \<Rightarrow> ptr \<Rightarrow> (CBlockIndex \<Rightarrow> limbs) \<Rightarrow> limbs" where
  "prev_field st p f = (case pprev (st ! p) of None \<Rightarrow> of_u64 8 0 | Some q \<Rightarrow> f (st ! q))"

definition link_stake :: "CChainParams \<Rightarrow> stake_modifiers \<Rightarrow> CBlock \<Rightarrow> ptr \<Rightarrow> arena \<Rightarrow> arena" where
  "link_stake P M block p st =
     (if \<not> IsStakeModifierV2 P (nHeight (st ! p)) then
        let (modifier, generated) = ComputeNextStakeModifier M st (pprev (st ! p));
            st1 = upd st p (SetStakeModifier modifier generated)
        in upd st1 p (\<lambda>b. b\<lparr> nStakeModifierChecksum := GetStakeModifierChecksum M st1 p \<rparr>)
      else upd st p (\<lambda>b. b\<lparr> nStakeModifierV2 :=
        ComputeStakeModifier M st (pprev (st ! p)) (op_hash (prevout (vin (vtx block ! 1) ! 0))) \<rparr>))"

text \<open>The branch for a block whose predecessor \<open>q\<close> is known.\<close>

definition link_block :: "CChainParams \<Rightarrow> stake_modifiers \<Rightarrow> CBlock \<Rightarrow> ptr \<Rightarrow> ptr
    \<Rightarrow> arena \<times> (limbs \<Rightarrow> limbs option) \<Rightarrow> (arena \<times> (limbs \<Rightarrow> limbs option)) option" where
  "link_block P M block p q s =
     (let (st0, stakes) = s;
          st1 = upd st0 p (\<lambda>b. b\<lparr> pprev := Some q, nHeight := nHeight (st0 ! q) + 1 \<rparr>)
      in case BuildSkip st1 p of None \<Rightarrow> None
      | Some st2 \<Rightarrow>
          let st3 = upd st2 q (\<lambda>b. b\<lparr> pnext := Some p \<rparr>) in
          (case GetBlockTrust (st3 ! p) of None \<Rightarrow> None
           | Some trust \<Rightarrow>
               let st4 = upd st3 p (\<lambda>b. b\<lparr> bnChainTrust := bu_add (prev_field st3 p bnChainTrust) trust \<rparr>);
                   st5 = upd st4 p (\<lambda>b. snd (SetStakeEntropyBit (GetStakeEntropyBit b) b));
                   h = bi_hash (st5 ! p);
                   stakes' = (if bi_IsProofOfStake (st5 ! p) \<and> stakes h = None then stakes(h \<mapsto> bu_zero 8) else stakes);
                   st6 = (if bi_IsProofOfStake (st5 ! p)
                     then upd st5 p (\<lambda>b. b\<lparr> hashProofOfStake := the (stakes' h) \<rparr>) else st5)
               in Some (link_stake P M block p st6, stakes')))"

definition AddToBlockIndex :: "sph_functions \<Rightarrow> CChainParams \<Rightarrow> stake_modifiers \<Rightarrow> ptr option \<Rightarrow> CBlock
    \<Rightarrow> block_tree \<Rightarrow> (ptr \<times> block_tree) option" where
  "AddToBlockIndex sph P M garbage block t =
     (let h = header_GetHash sph block in
      case mapBlockIndex t h of Some p \<Rightarrow> Some (p, t)
      | None \<Rightarrow>
          let p = length (bt_arena t);
              st0 = bt_arena t @ [(CBlockIndex_of garbage block)\<lparr> nSequenceId := 0, bi_hash := h \<rparr>];
              index = (mapBlockIndex t)(h \<mapsto> p);
              linked = (case index (hashPrevBlock block) of None \<Rightarrow> Some (st0, mapProofOfStake t)
                        | Some q \<Rightarrow> link_block P M block p q (st0, mapProofOfStake t))
          in (case linked of None \<Rightarrow> None
              | Some (st1, stakes) \<Rightarrow>
                  (case GetBlockProof (st1 ! p) of None \<Rightarrow> None
                   | Some proof \<Rightarrow>
                       let st2 = upd st1 p (\<lambda>b. b\<lparr> nChainWork := bu_add (prev_field st1 p nChainWork) proof \<rparr>);
                           st3 = upd st2 p (\<lambda>b. snd (RaiseValidity BLOCK_VALID_TREE b));
                           best = (case pindexBestHeader t of None \<Rightarrow> Some p
                             | Some bh \<Rightarrow> if CompareTo (nChainWork (st3 ! bh)) (nChainWork (st3 ! p)) < 0 then Some p
                                 else Some bh);
                           st4 = (if nHeight (st3 ! p) \<noteq> 0
                             then (case pprev (st3 ! p) of None \<Rightarrow> st3 | Some q \<Rightarrow> upd st3 q (\<lambda>b. b\<lparr> pnext := Some p \<rparr>))
                             else st3)
                       in Some (p, \<lparr> bt_arena = st4, mapBlockIndex = index, pindexBestHeader = best,
                            setDirtyBlockIndex = List.insert p (setDirtyBlockIndex t), mapProofOfStake = stakes \<rparr>))))"


section \<open>Walks over the parents\<close>

text \<open>\<open>anc prev n p\<close> is the ancestor \<open>n\<close> steps above \<open>p\<close>; \<open>lin prev n p\<close> is \<open>p\<close> and its first
  \<open>n\<close> ancestors.\<close>

primrec anc :: "('p \<Rightarrow> 'p option) \<Rightarrow> nat \<Rightarrow> 'p \<Rightarrow> 'p option" where
  "anc prev 0 p = Some p"
| "anc prev (Suc n) p = (case prev p of None \<Rightarrow> None | Some q \<Rightarrow> anc prev n q)"

primrec lin :: "('p \<Rightarrow> 'p option) \<Rightarrow> nat \<Rightarrow> 'p \<Rightarrow> 'p list" where
  "lin prev 0 p = [p]"
| "lin prev (Suc n) p = p # (case prev p of None \<Rightarrow> [] | Some q \<Rightarrow> lin prev n q)"

lemma anc_add: "anc prev (m + n) p = (case anc prev m p of None \<Rightarrow> None | Some q \<Rightarrow> anc prev n q)"
  by (induction m arbitrary: p) (simp_all split: option.split)

text \<open>A forest in which every node knows its height.\<close>

locale block_forest =
  fixes prev :: "'p \<Rightarrow> 'p option" and ht :: "'p \<Rightarrow> int" and ok :: "'p \<Rightarrow> bool"
  assumes root: "ok p \<Longrightarrow> prev p = None \<Longrightarrow> ht p = 0"
    and step: "ok p \<Longrightarrow> prev p = Some q \<Longrightarrow> ok q \<and> ht p = ht q + 1"
    and nonneg: "ok p \<Longrightarrow> 0 \<le> ht p"
begin

lemma prev_iff: "ok p \<Longrightarrow> prev p = None \<longleftrightarrow> ht p = 0"
  using root [of p] step [of p] nonneg by (cases "prev p") fastforce+

lemma anc_ok: "ok p \<Longrightarrow> anc prev n p = Some q \<Longrightarrow> ok q \<and> ht q = ht p - int n"
proof (induction n arbitrary: p)
  case (Suc n)
  then obtain r where r: "prev p = Some r" "anc prev n r = Some q" by (auto split: option.splits)
  then have "ok r \<and> ht p = ht r + 1" using Suc.prems(1) step by blast
  then show ?case using Suc.IH [OF _ r(2)] by auto
qed simp

lemma anc_exists: "ok p \<Longrightarrow> int n \<le> ht p \<Longrightarrow> \<exists>q. anc prev n p = Some q"
proof (induction n arbitrary: p)
  case (Suc n)
  then obtain q where q: "prev p = Some q" using prev_iff [of p] by (cases "prev p") auto
  then have "ok q" "int n \<le> ht q" using step [OF Suc.prems(1)] Suc.prems(2) by auto
  then show ?case using Suc.IH q by simp
qed simp

lemma anc_none: "ok p \<Longrightarrow> ht p < int n \<Longrightarrow> anc prev n p = None"
  using anc_ok [of p n] nonneg by (cases "anc prev n p") fastforce+

definition lineage :: "'p \<Rightarrow> 'p list" where
  "lineage p = lin prev (nat (ht p)) p"

lemma lineage_rec:
  "ok p \<Longrightarrow> lineage p = p # (case prev p of None \<Rightarrow> [] | Some q \<Rightarrow> lineage q)"
proof -
  assume p: "ok p"
  show ?thesis
  proof (cases "prev p")
    case None
    then show ?thesis using root [OF p] by (simp add: lineage_def)
  next
    case (Some q)
    then have "nat (ht p) = Suc (nat (ht q))" using step [OF p Some] nonneg [of q] by auto
    then show ?thesis using Some by (simp add: lineage_def)
  qed
qed

lemma forest_induct [consumes 1, case_names node]:
  assumes "ok p" "\<And>p. ok p \<Longrightarrow> (\<And>q. prev p = Some q \<Longrightarrow> P q) \<Longrightarrow> P p"
  shows "P p"
  using assms(1)
proof (induction "nat (ht p)" arbitrary: p rule: less_induct)
  case less
  show ?case
  proof (rule assms(2) [OF less.prems])
    fix q assume q: "prev p = Some q"
    then have "ok q" "nat (ht q) < nat (ht p)" using step [OF less.prems q] nonneg [of q] by auto
    then show "P q" using less.hyps by blast
  qed
qed

lemma length_lineage: "ok p \<Longrightarrow> length (lineage p) = Suc (nat (ht p))"
proof (induction p rule: forest_induct)
  case (node p)
  then show ?case
    using root [OF node(1)] step [OF node(1)] nonneg
    by (cases "prev p") (fastforce simp: lineage_rec [OF node(1)])+
qed

lemma lineage_ne [simp]: "lineage p \<noteq> []"
  by (cases "nat (ht p)") (simp_all add: lineage_def)

lemma lineage_anc: "ok p \<Longrightarrow> n < length (lineage p) \<Longrightarrow> anc prev n p = Some (lineage p ! n)"
proof (induction n arbitrary: p)
  case 0
  then show ?case by (simp add: lineage_rec)
next
  case (Suc n)
  then obtain q where q: "prev p = Some q" by (cases "prev p") (auto simp: lineage_rec)
  then show ?case using Suc step [OF Suc.prems(1) q] by (simp add: lineage_rec [OF Suc.prems(1)])
qed

lemma lineage_ok: "ok p \<Longrightarrow> q \<in> set (lineage p) \<Longrightarrow> ok q"
  by (metis anc_ok in_set_conv_nth lineage_anc)

lemma lineage_ht: "ok p \<Longrightarrow> n < length (lineage p) \<Longrightarrow> ht (lineage p ! n) = ht p - int n"
  by (metis anc_ok lineage_anc)

lemma drop_lineage: "ok p \<Longrightarrow> anc prev n p = Some q \<Longrightarrow> drop n (lineage p) = lineage q"
proof (induction n arbitrary: p)
  case (Suc n)
  then obtain r where "prev p = Some r" "anc prev n r = Some q" by (auto split: option.splits)
  then show ?case using Suc step [OF Suc.prems(1)] by (simp add: lineage_rec [OF Suc.prems(1)])
qed simp

lemma lineage_at_height:
  assumes "ok p" "0 \<le> h" "h \<le> ht p"
  shows "rev (lineage p) ! nat h = the (anc prev (nat (ht p - h)) p)"
proof -
  have "nat h < length (lineage p)" "length (lineage p) - Suc (nat h) = nat (ht p - h)"
    using assms by (simp_all add: length_lineage)
  then show ?thesis using lineage_anc [OF assms(1), of "nat (ht p - h)"] by (simp add: rev_nth)
qed

text \<open>Below one of its nodes a lineage is the lineage of that node.\<close>

lemma take_rev_lineage:
  assumes "ok p" "j < length (lineage p)" "rev (lineage p) ! j = x"
  shows "take (Suc j) (rev (lineage p)) = rev (lineage x)"
proof -
  let ?n = "length (lineage p) - Suc j"
  have "anc prev ?n p = Some x" using lineage_anc [OF assms(1), of ?n] assms(2,3) by (simp add: rev_nth)
  then have "drop ?n (lineage p) = lineage x" by (rule drop_lineage [OF assms(1)])
  then show ?thesis using assms(2) by (simp add: rev_drop [symmetric] take_rev)
qed

lemma lineage_mem: "ok p \<Longrightarrow> q \<in> set (lineage p) \<longleftrightarrow> (\<exists>n. anc prev n p = Some q)"
proof
  assume p: "ok p"
  show "\<exists>n. anc prev n p = Some q" if "q \<in> set (lineage p)"
    using that p by (metis in_set_conv_nth lineage_anc)
  show "q \<in> set (lineage p)" if ex: "\<exists>n. anc prev n p = Some q"
  proof -
    obtain n where n: "anc prev n p = Some q" using ex by blast
    then have "drop n (lineage p) = lineage q" by (rule drop_lineage [OF p])
    moreover have "q \<in> set (lineage q)" using anc_ok [OF p n] lineage_rec [of q] by simp
    ultimately show ?thesis by (metis in_set_dropD)
  qed
qed

end

text \<open>The tree is well-formed when parents and heights agree and every skip pointer is the
  ancestor at its skip height.\<close>

definition node_ok :: "arena \<Rightarrow> ptr \<Rightarrow> bool" where
  "node_ok st p \<longleftrightarrow> 0 \<le> nHeight (st ! p) \<and> (case pprev (st ! p) of None \<Rightarrow> nHeight (st ! p) = 0
     | Some q \<Rightarrow> q < length st \<and> nHeight (st ! p) = nHeight (st ! q) + 1 \<and>
         pskip (st ! p) = anc (\<lambda>x. pprev (st ! x)) (nat (nHeight (st ! p) - GetSkipHeight (nHeight (st ! p)))) p)"

definition tree_ok :: "arena \<Rightarrow> bool" where
  "tree_ok st \<longleftrightarrow> (\<forall>p < length st. node_ok st p)"

interpretation forest: block_forest "\<lambda>p. pprev (st ! p)" "\<lambda>p. nHeight (st ! p)" "\<lambda>p. tree_ok st \<and> p < length st" for st
proof unfold_locales
  fix p q
  assume p: "tree_ok st \<and> p < length st"
  then have n: "node_ok st p" by (simp add: tree_ok_def)
  show "nHeight (st ! p) = 0" if "pprev (st ! p) = None" using n that by (simp add: node_ok_def)
  show "(tree_ok st \<and> q < length st) \<and> nHeight (st ! p) = nHeight (st ! q) + 1" if "pprev (st ! p) = Some q"
    using n that p by (simp add: node_ok_def)
  show "0 \<le> nHeight (st ! p)" using n by (simp add: node_ok_def)
qed


section \<open>The skip list finds ancestors\<close>

abbreviation parent :: "arena \<Rightarrow> ptr \<Rightarrow> ptr option" where
  "parent st \<equiv> \<lambda>x. pprev (st ! x)"

text \<open>The arena \<open>st'\<close> may have grown beyond the well-formed part \<open>st\<close>.\<close>

lemma ancestor_walk_eq:
  assumes grown: "\<And>i. i < length st \<Longrightarrow> st' ! i = st ! i"
  shows "tree_ok st \<Longrightarrow> p < length st \<Longrightarrow> nHeight (st ! p) = int hw \<Longrightarrow> h \<le> hw \<Longrightarrow>
    ancestor_walk st' h (Some p) hw = Some (anc (parent st) (hw - h) p)"
proof (induction hw arbitrary: p rule: less_induct)
  case (less hw)
  have ok: "tree_ok st \<and> p < length st" using less.prems by simp
  then have same: "st' ! p = st ! p" using grown by simp
  show ?case
  proof (cases "hw > h")
    case False
    then show ?thesis using less.prems(4) by (subst ancestor_walk.simps) simp
  next
    case True
    let ?sk = "GetSkipHeight (int hw)"
    have sk: "0 \<le> ?sk" "?sk < int hw" using GetSkipHeight_less [of "int hw"] True by simp_all
    obtain q where q: "pprev (st ! p) = Some q"
      using forest.prev_iff [OF ok] less.prems(3) True by (cases "pprev (st ! p)") auto
    have qs: "q < length st" "nHeight (st ! q) = int (hw - 1)"
      using forest.step [OF ok q] less.prems(3) True by auto
    have prev: "ancestor_walk st' h (Some q) (hw - 1) = Some (anc (parent st) (hw - h) p)"
      using less.IH [of "hw - 1" q] less.prems(1) qs True q
      by (simp add: Suc_diff_Suc [symmetric, of h hw])
    have skip: "ancestor_walk st' h (pskip (st ! p)) (nat ?sk) = Some (anc (parent st) (hw - h) p)" if "int h \<le> ?sk"
    proof -
      have e: "pskip (st ! p) = anc (parent st) (hw - nat ?sk) p"
        using ok q less.prems(3) sk by (auto simp: tree_ok_def node_ok_def nat_diff_distrib)
      obtain r where r: "anc (parent st) (hw - nat ?sk) p = Some r"
        using forest.anc_exists [OF ok, of "hw - nat ?sk"] less.prems(3) by auto
      have "r < length st" "nHeight (st ! r) = ?sk"
        using forest.anc_ok [OF ok r] less.prems(3) sk by auto
      then have "ancestor_walk st' h (Some r) (nat ?sk) = Some (anc (parent st) (nat ?sk - h) r)"
        using less.IH [of "nat ?sk" r] less.prems(1) sk that by auto
      moreover have "anc (parent st) (hw - h) p = anc (parent st) (nat ?sk - h) r"
        using anc_add [of "parent st" "hw - nat ?sk" "nat ?sk - h" p] r sk that True by (simp add: nat_less_iff)
      ultimately show ?thesis using e r by simp
    qed
    show ?thesis
      using True prev skip q same by (subst ancestor_walk.simps) (auto simp: Let_def)
  qed
qed

lemma GetAncestor_eq:
  assumes "tree_ok st" "p < length st"
  shows "GetAncestor st p h = Some (if h < 0 then None else if h > nHeight (st ! p) then None
    else anc (parent st) (nat (nHeight (st ! p) - h)) p)"
proof (cases "0 \<le> h \<and> h \<le> nHeight (st ! p)")
  case True
  then have "nat (nHeight (st ! p)) - nat h = nat (nHeight (st ! p) - h)" "nat h \<le> nat (nHeight (st ! p))"
    by (simp_all add: nat_diff_distrib nat_mono)
  then show ?thesis
    using ancestor_walk_eq [of st st, OF _ assms, of "nat (nHeight (st ! p))" "nat h"] True by (simp add: GetAncestor_def)
qed (auto simp: GetAncestor_def)

lemma GetAncestor_Some:
  assumes "tree_ok st" "p < length st" "0 \<le> h" "h \<le> nHeight (st ! p)"
  shows "\<exists>q. GetAncestor st p h = Some (Some q) \<and> q < length st \<and> nHeight (st ! q) = h \<and>
    anc (parent st) (nat (nHeight (st ! p) - h)) p = Some q"
proof -
  have ok: "tree_ok st \<and> p < length st" using assms by simp
  then obtain q where q: "anc (parent st) (nat (nHeight (st ! p) - h)) p = Some q"
    using forest.anc_exists [OF ok, of "nat (nHeight (st ! p) - h)"] assms(3,4) by auto
  then show ?thesis using forest.anc_ok [OF ok q] GetAncestor_eq [OF assms(1,2), of h] assms(3,4) by auto
qed

text \<open>C31: The skip list.  On a well-formed tree \<open>GetAncestor\<close> returns, never following NULL, and
  whatever skip pointers it takes the result is the block reached by following the parents down to
  the height; for a height out of range it is NULL.\<close>

theorem GetAncestor_is_ancestor:
  assumes "tree_ok st" "p < length st"
  shows "GetAncestor st p h = Some (if 0 \<le> h \<and> h \<le> nHeight (st ! p)
      then anc (parent st) (nat (nHeight (st ! p) - h)) p else None) \<and>
    (0 \<le> h \<and> h \<le> nHeight (st ! p) \<longrightarrow> (\<exists>q < length st. GetAncestor st p h = Some (Some q) \<and> nHeight (st ! q) = h))"
  using GetAncestor_eq [OF assms, of h] GetAncestor_Some [OF assms, of h] by auto

definition two_blocks :: arena where
  "two_blocks = [CBlockIndex_null None,
     (CBlockIndex_null None)\<lparr> pprev := Some 0, pskip := Some 0, nHeight := 1 \<rparr>]"

lemma two_blocks_ok: "tree_ok two_blocks"
  by (simp add: tree_ok_def node_ok_def two_blocks_def CBlockIndex_null_def less_Suc_eq GetSkipHeight_def)

theorem GetAncestor_is_ancestor_witness: "GetAncestor two_blocks 1 0 = Some (Some 0)"
  using GetAncestor_is_ancestor [OF two_blocks_ok, of 1 0]
  by (simp add: two_blocks_def CBlockIndex_null_def)

section \<open>Moving the tip\<close>

definition lineage :: "arena \<Rightarrow> ptr \<Rightarrow> ptr list" where
  "lineage st p = lin (parent st) (nat (nHeight (st ! p))) p"

lemma forest_lineage [simp]: "block_forest.lineage (parent st) (\<lambda>p. nHeight (st ! p)) p = lineage st p"
  by (simp add: forest.lineage_def lineage_def)

lemmas lineage_facts = forest.lineage_rec [simplified forest_lineage] forest.length_lineage [simplified forest_lineage]
  forest.lineage_ne [simplified forest_lineage] forest.lineage_anc [simplified forest_lineage]
  forest.drop_lineage [simplified forest_lineage] forest.take_rev_lineage [simplified forest_lineage]


text \<open>A chain vector is valid when it is empty or the path from a root to a block.\<close>

definition path_to :: "arena \<Rightarrow> ptr \<Rightarrow> CChain" where
  "path_to st p = map Some (rev (lineage st p))"

definition chain_ok :: "arena \<Rightarrow> CChain \<Rightarrow> bool" where
  "chain_ok st ch \<longleftrightarrow> ch = [] \<or> (\<exists>t < length st. ch = path_to st t)"

lemma path_to_rec:
  "tree_ok st \<Longrightarrow> p < length st \<Longrightarrow>
    path_to st p = (case pprev (st ! p) of None \<Rightarrow> [] | Some q \<Rightarrow> path_to st q) @ [Some p]"
  using lineage_facts(1) [of st p] by (auto simp: path_to_def split: option.split)

lemma length_path_to: "tree_ok st \<Longrightarrow> p < length st \<Longrightarrow> length (path_to st p) = Suc (nat (nHeight (st ! p)))"
  using lineage_facts(2) [of st p] by (simp add: path_to_def)

text \<open>What every entry of a chain says about the entries below it.\<close>

definition prefix_ok :: "arena \<Rightarrow> CChain \<Rightarrow> nat \<Rightarrow> bool" where
  "prefix_ok st ch n \<longleftrightarrow> (\<forall>j < n. \<forall>x. ch ! j = Some x \<longrightarrow> take (Suc j) ch = path_to st x)"

lemma chain_ok_prefix:
  assumes "tree_ok st" "chain_ok st ch" "n \<le> length ch"
  shows "prefix_ok st ch n"
proof -
  have "take (Suc j) (path_to st t) = path_to st x" if "t < length st" "j < length (path_to st t)" "path_to st t ! j = Some x" for t j x
  proof -
    have j: "j < length (lineage st t)" using that(2) by (simp add: path_to_def)
    moreover from this have "rev (lineage st t) ! j = x" using that(3) by (simp add: path_to_def)
    ultimately have "take (Suc j) (rev (lineage st t)) = rev (lineage st x)"
      using lineage_facts(6) [of st t j x] assms(1) that(1) by simp
    then show ?thesis by (simp add: path_to_def take_map)
  qed
  then show ?thesis using assms(2,3) by (auto simp: chain_ok_def prefix_ok_def)
qed

lemma loops_None [simp]:
  "set_tip_loop st v None = Some v" "fork_loop st v None = Some None" "locator_loop st v n hs None = Some hs"
  by (simp_all add: set_tip_loop.simps [of st v None] fork_loop.simps [of st v None] locator_loop.simps [of st v n hs None])

lemma set_tip_loop_eq:
  "tree_ok st \<and> p < length st \<Longrightarrow> nat (nHeight (st ! p)) < length v \<Longrightarrow> prefix_ok st v (Suc (nat (nHeight (st ! p)))) \<Longrightarrow>
    set_tip_loop st v (Some p) = Some (path_to st p @ drop (Suc (nat (nHeight (st ! p)))) v)"
proof (induction p arbitrary: v rule: forest.forest_induct)
  case (node p)
  let ?h = "nat (nHeight (st ! p))"
  show ?case
  proof (cases "v ! ?h = Some p")
    case True
    then have "take (Suc ?h) v = path_to st p" using node.prems(2) by (auto simp: prefix_ok_def)
    then have "path_to st p @ drop (Suc ?h) v = v" by (metis append_take_drop_id)
    then show ?thesis using True by (simp add: set_tip_loop.simps [of st v])
  next
    case False
    let ?v = "v[?h := Some p]"
    have loop: "set_tip_loop st v (Some p) = set_tip_loop st ?v (pprev (st ! p))"
      using False by (simp add: set_tip_loop.simps [of st v])
    have cons: "drop ?h ?v = Some p # drop (Suc ?h) v"
      using node.prems(1) by (simp add: Cons_nth_drop_Suc [symmetric])
    show ?thesis
    proof (cases "pprev (st ! p)")
      case None
      then have "?h = 0" using forest.root [OF node.hyps(1) None] by simp
      then show ?thesis
        using loop None cons path_to_rec [of st p] node.hyps(1) by simp
    next
      case (Some q)
      then have q: "tree_ok st \<and> q < length st" "?h = Suc (nat (nHeight (st ! q)))"
        using forest.step [OF node.hyps(1) Some] forest.nonneg [of st q] by auto
      have "prefix_ok st ?v (Suc (nat (nHeight (st ! q))))"
        using node.prems(2) q(2) by (auto simp: prefix_ok_def)
      then have "set_tip_loop st ?v (Some q) = Some (path_to st q @ drop (Suc (nat (nHeight (st ! q)))) ?v)"
        using node.IH [OF Some] node.prems(1) q(2) by simp
      then show ?thesis
        using loop Some cons path_to_rec [of st p] node.hyps(1) by (simp flip: q(2))
    qed
  qed
qed

text \<open>Moving the tip.  For every valid chain and every block of a well-formed tree \<open>SetTip\<close>
  returns, and the vector is the path from the block's root to the block, although the loop stops at
  the first entry that is already right; the chain is valid again.\<close>

lemma SetTip_is_path:
  assumes "tree_ok st" "chain_ok st ch" "p < length st"
  shows "SetTip st ch (Some p) = Some (path_to st p) \<and> chain_ok st (path_to st p) \<and>
    Height (path_to st p) = nHeight (st ! p) \<and> Tip st (path_to st p) False = Some (Some p)"
proof -
  let ?n = "Suc (nat (nHeight (st ! p)))"
  let ?v = "resize_chain ch ?n"
  have ok: "tree_ok st \<and> p < length st" using assms by simp
  have h: "nat (nHeight (st ! p) + 1) = ?n" "0 \<le> nHeight (st ! p)" using forest.nonneg [OF ok] by (simp_all add: nat_add_distrib)
  have len: "length ?v = ?n" by (simp add: resize_chain_def)
  have "prefix_ok st ?v ?n"
    unfolding prefix_ok_def
  proof (intro allI impI)
    fix j x assume j: "j < ?n" "?v ! j = Some x"
    then have "j < length ch" by (auto simp: resize_chain_def nth_append split: if_splits)
    moreover from this j have "ch ! j = Some x" by (simp add: resize_chain_def nth_append)
    ultimately have "take (Suc j) ch = path_to st x"
      using chain_ok_prefix [OF assms(1,2) order_refl] by (auto simp: prefix_ok_def)
    then show "take (Suc j) ?v = path_to st x"
      using j(1) \<open>j < length ch\<close> by (simp add: resize_chain_def min_def)
  qed
  then have "set_tip_loop st ?v (Some p) = Some (path_to st p)"
    using set_tip_loop_eq [OF ok, of ?v] len by simp
  moreover have "chain_ok st (path_to st p)" using assms(3) by (auto simp: chain_ok_def)
  moreover have "Height (path_to st p) = nHeight (st ! p)" using length_path_to [OF assms(1,3)] h(2) by (simp add: Height_def)
  moreover have "Tip st (path_to st p) False = Some (Some p)"
    using path_to_rec [OF assms(1,3)] by (simp add: Tip_def nth_append split: option.split)
  ultimately show ?thesis by (simp add: SetTip_def h(1))
qed

lemma SetTip_is_path_example: "SetTip two_blocks [Some 0] (Some 1) = Some [Some 0, Some 1]"
proof -
  have "path_to two_blocks 0 = [Some 0]" "path_to two_blocks 1 = [Some 0, Some 1]"
    by (simp_all add: path_to_def lineage_def two_blocks_def CBlockIndex_null_def)
  moreover from this have "chain_ok two_blocks [Some 0]" by (auto simp: chain_ok_def two_blocks_def)
  ultimately show ?thesis
    using SetTip_is_path [OF two_blocks_ok, of "[Some 0]" 1] by (simp add: two_blocks_def)
qed


section \<open>Forks and locators\<close>

lemma fork_loop_eq:
  "tree_ok st \<and> p < length st \<Longrightarrow> fork_loop st ch (Some p) = Some (find (Contains st ch) (lineage st p))"
proof (induction p rule: forest.forest_induct)
  case (node p)
  show ?case
    using node.IH lineage_facts(1) [OF node.hyps(1)]
    by (subst fork_loop.simps) (auto split: option.split)
qed

lemma Contains_height: "Contains st ch p \<Longrightarrow> nHeight (st ! p) \<le> Height ch"
  by (auto simp: Contains_def chain_at_def Height_def split: if_splits)

text \<open>The fork.  On a well-formed tree \<open>FindFork\<close> returns the first block on the way from the
  given block to its root that the active chain contains, or NULL when it contains none, although it
  jumps to the height of the chain first.\<close>

lemma FindFork_is_first_shared:
  assumes "tree_ok st" "p < length st"
  shows "FindFork st ch (Some p) = Some (find (Contains st ch) (lineage st p)) \<and> FindFork st ch None = Some None"
proof (cases "nHeight (st ! p) > Height ch")
  case False
  then show ?thesis using fork_loop_eq assms by (simp add: FindFork_def)
next
  case True
  have ok: "tree_ok st \<and> p < length st" using assms by simp
  let ?n = "nat (nHeight (st ! p) - Height ch)"
  have above: "\<not> Contains st ch (lineage st p ! i)" if "i < ?n" "i < length (lineage st p)" for i
    using Contains_height [of st ch "lineage st p ! i"] forest.lineage_ht [OF ok, of i] that by auto
  show ?thesis
  proof (cases "ch = []")
    case True
    then have "Height ch = - 1" by (simp add: Height_def)
    moreover have "find (Contains st ch) (lineage st p) = None"
      using True by (auto simp: find_None_iff Contains_def chain_at_def)
    ultimately show ?thesis
      using \<open>nHeight (st ! p) > Height ch\<close> GetAncestor_eq [OF assms, of "- 1"] by (simp add: FindFork_def)
  next
    case False
    then have h: "0 \<le> Height ch" by (simp add: Height_def Suc_le_eq)
    then obtain q where q: "GetAncestor st p (Height ch) = Some (Some q)" "q < length st"
      "anc (parent st) ?n p = Some q" using GetAncestor_Some [OF assms, of "Height ch"] True by auto
    have "drop ?n (lineage st p) = lineage st q" using forest.drop_lineage [OF ok q(3)] by simp
    moreover have "find (Contains st ch) (take ?n (lineage st p)) = None"
      using above by (auto simp: find_None_iff in_set_conv_nth)
    moreover have "find P (xs @ ys) = (case find P xs of None \<Rightarrow> find P ys | Some x \<Rightarrow> Some x)" for P xs and ys :: "nat list"
      by (induction xs) auto
    ultimately have "find (Contains st ch) (lineage st p) = find (Contains st ch) (lineage st q)"
      by (metis append_take_drop_id option.case(1))
    then show ?thesis using True q fork_loop_eq assms(1) by (simp add: FindFork_def)
  qed
qed

lemma FindFork_is_first_shared_example: "FindFork two_blocks [Some 0] (Some 1) = Some (Some 0)"
  using FindFork_is_first_shared [OF two_blocks_ok, of 1 "[Some 0]"]
  by (simp add: two_blocks_def CBlockIndex_null_def lineage_def Contains_def chain_at_def)

lemma common_loop_eq:
  "tree_ok st \<and> a < length st \<Longrightarrow> b < length st \<Longrightarrow> nHeight (st ! a) = nHeight (st ! b) \<Longrightarrow>
    last (lineage st a) = last (lineage st b) \<Longrightarrow>
    \<exists>c. common_loop st (Some a) (Some b) = Some (Some c, Some c) \<and>
      find (\<lambda>x. x \<in> set (lineage st b)) (lineage st a) = Some c"
proof (induction a arbitrary: b rule: forest.forest_induct)
  case (node a)
  have okb: "tree_ok st \<and> b < length st" using node by simp
  note la = lineage_facts(1) [OF node.hyps(1)] and lb = lineage_facts(1) [OF okb]
  have notin: "a \<notin> set (lineage st b)" if "a \<noteq> b"
  proof
    assume "a \<in> set (lineage st b)"
    then obtain n where n: "n < length (lineage st b)" "lineage st b ! n = a" by (auto simp: in_set_conv_nth)
    then have "n = 0" using forest.lineage_ht [OF okb, of n] node.prems(2) by simp
    then show False using n(2) lb that by simp
  qed
  show ?case
  proof (cases "a = b")
    case True
    then have "a \<in> set (lineage st b)" using lb by simp
    moreover have "common_loop st (Some a) (Some a) = Some (Some a, Some a)"
      by (subst common_loop.simps) simp
    ultimately show ?thesis using True la by auto
  next
    case False
    show ?thesis
    proof (cases "pprev (st ! a)")
      case None
      then have "nHeight (st ! b) = 0" using forest.root [OF node.hyps(1) None] node.prems(2) by simp
      then have "pprev (st ! b) = None" using forest.prev_iff [OF okb] by simp
      then show ?thesis using None la lb node.prems(3) False by simp
    next
      case (Some p)
      have "nHeight (st ! b) \<noteq> 0" using forest.step [OF node.hyps(1) Some] forest.nonneg [of st p] node.prems(2) by auto
      then obtain q where q: "pprev (st ! b) = Some q" using forest.prev_iff [OF okb] by (cases "pprev (st ! b)") auto
      have "q < length st" "nHeight (st ! p) = nHeight (st ! q)" "tree_ok st \<and> p < length st" "tree_ok st \<and> q < length st"
        using forest.step [OF node.hyps(1) Some] forest.step [OF okb q] node.prems(2) by auto
      moreover have "last (lineage st p) = last (lineage st q)"
        using node.prems(3) la lb Some q lineage_facts(3) by simp
      ultimately obtain c where c: "common_loop st (Some p) (Some q) = Some (Some c, Some c)"
        "find (\<lambda>x. x \<in> set (lineage st q)) (lineage st p) = Some c" using node.IH [OF Some] by blast
      have "find (\<lambda>x. x \<in> set (lineage st b)) (lineage st a) = find (\<lambda>x. x \<in> set (lineage st b)) (lineage st p)"
        using notin [OF False] la Some by simp
      also have "\<dots> = find (\<lambda>x. x \<in> set (lineage st q)) (lineage st p)"
      proof (rule find_cong [OF refl])
        fix x assume "x \<in> set (lineage st p)"
        then obtain n where "n < length (lineage st p)" "lineage st p ! n = x" by (auto simp: in_set_conv_nth)
        then have "nHeight (st ! x) \<le> nHeight (st ! p)" using forest.lineage_ht [of st p n] \<open>tree_ok st \<and> p < length st\<close> by auto
        then have "x \<noteq> b" using forest.step [OF node.hyps(1) Some] node.prems(2) by auto
        then show "(x \<in> set (lineage st b)) = (x \<in> set (lineage st q))" using lb q by simp
      qed
      finally show ?thesis using c False Some q by (simp add: common_loop.simps [of st "Some a"])
    qed
  qed
qed


text \<open>Two blocks of one tree: \<open>LastCommonAncestor\<close> passes its assert and returns the first block
  of the one lineage that lies on the other.\<close>

lemma LastCommonAncestor_is_common:
  assumes "tree_ok st" "a < length st" "b < length st" "last (lineage st a) = last (lineage st b)"
  shows "\<exists>c. LastCommonAncestor st a b = Some (Some c) \<and> c \<in> set (lineage st a) \<and> c \<in> set (lineage st b) \<and>
    (\<forall>d. d \<in> set (lineage st a) \<and> d \<in> set (lineage st b) \<longrightarrow> nHeight (st ! d) \<le> nHeight (st ! c))"
proof -
  have oka: "tree_ok st \<and> a < length st" and okb: "tree_ok st \<and> b < length st" using assms by simp_all
  define h where "h = min (nHeight (st ! a)) (nHeight (st ! b))"
  have h: "0 \<le> h" "h \<le> nHeight (st ! a)" "h \<le> nHeight (st ! b)"
    using forest.nonneg [OF oka] forest.nonneg [OF okb] by (simp_all add: h_def)
  obtain a' where a': "GetAncestor st a h = Some (Some a')" "a' < length st" "nHeight (st ! a') = h"
    "anc (parent st) (nat (nHeight (st ! a) - h)) a = Some a'" using GetAncestor_Some [OF assms(1,2) h(1,2)] by blast
  obtain b' where b': "GetAncestor st b h = Some (Some b')" "b' < length st" "nHeight (st ! b') = h"
    "anc (parent st) (nat (nHeight (st ! b) - h)) b = Some b'" using GetAncestor_Some [OF assms(1,3) h(1,3)] by blast
  have oka': "tree_ok st \<and> a' < length st" and okb': "tree_ok st \<and> b' < length st" using assms(1) a' b' by simp_all
  have da: "drop (nat (nHeight (st ! a) - h)) (lineage st a) = lineage st a'"
    and db: "drop (nat (nHeight (st ! b) - h)) (lineage st b) = lineage st b'"
    using forest.drop_lineage [OF oka a'(4)] forest.drop_lineage [OF okb b'(4)] by simp_all
  have "last (lineage st a') = last (lineage st b')"
    using assms(4) da db lineage_facts(3) by (metis last_drop drop_all not_less)
  then obtain c where c: "common_loop st (Some a') (Some b') = Some (Some c, Some c)"
    "find (\<lambda>x. x \<in> set (lineage st b')) (lineage st a') = Some c"
    using common_loop_eq [OF oka' b'(2)] a'(3) b'(3) by auto
  have start: "LastCommonAncestor st a b = (case common_loop st (Some a') (Some b') of None \<Rightarrow> None
      | Some (x, y) \<Rightarrow> if x = y then Some x else None)"
  proof -
    have self: "GetAncestor st x (nHeight (st ! x)) = Some (Some x)" if "x < length st" for x
      using GetAncestor_eq [OF assms(1) that, of "nHeight (st ! x)"] forest.nonneg [of st x] assms(1) that by simp
    consider "nHeight (st ! a) > nHeight (st ! b)" | "nHeight (st ! b) > nHeight (st ! a)" | "nHeight (st ! a) = nHeight (st ! b)"
      by linarith
    then show ?thesis
      by cases (use a'(1) b'(1) self [OF assms(2)] self [OF assms(3)] in \<open>simp_all add: LastCommonAncestor_def h_def\<close>)
  qed
  obtain i where i: "i < length (lineage st a')" "lineage st a' ! i = c" "c \<in> set (lineage st b')"
    "\<forall>j < i. lineage st a' ! j \<notin> set (lineage st b')" using c(2) by (auto simp: find_Some_iff)
  have sub: "set (lineage st a') \<subseteq> set (lineage st a)" "set (lineage st b') \<subseteq> set (lineage st b)"
    unfolding da [symmetric] db [symmetric] by (rule set_drop_subset)+
  have low: "x \<in> set (lineage st y')" if x: "x \<in> set (lineage st y)" "nHeight (st ! x) \<le> h"
      and y: "tree_ok st \<and> y < length st" "drop (nat (nHeight (st ! y) - h)) (lineage st y) = lineage st y'" for x y y'
  proof -
    obtain n where n: "n < length (lineage st y)" "lineage st y ! n = x" using x(1) by (auto simp: in_set_conv_nth)
    let ?m = "nat (nHeight (st ! y) - h)"
    have m: "?m \<le> n" using forest.lineage_ht [OF y(1), of n] n x(2) by simp
    then have "lineage st y' ! (n - ?m) = x" "n - ?m < length (lineage st y')"
      using n unfolding y(2) [symmetric] by simp_all
    then show ?thesis using nth_mem by blast
  qed
  have "nHeight (st ! d) \<le> nHeight (st ! c)" if d: "d \<in> set (lineage st a)" "d \<in> set (lineage st b)" for d
  proof -
    have le: "nHeight (st ! d) \<le> nHeight (st ! y)" if "d \<in> set (lineage st y)" "tree_ok st \<and> y < length st" for y
      using that forest.lineage_ht [OF that(2)] by (fastforce simp: in_set_conv_nth)
    then have "nHeight (st ! d) \<le> h" using d oka okb by (simp add: h_def)
    then have "d \<in> set (lineage st a')" "d \<in> set (lineage st b')" using low [OF d(1) _ oka da] low [OF d(2) _ okb db] by simp_all
    then obtain j where j: "j < length (lineage st a')" "lineage st a' ! j = d" by (auto simp: in_set_conv_nth)
    then have "i \<le> j" using i(4) \<open>d \<in> set (lineage st b')\<close> by (meson not_le)
    then show ?thesis using forest.lineage_ht [OF oka', of i] forest.lineage_ht [OF oka', of j] i j by simp
  qed
  moreover have "c \<in> set (lineage st a)" "c \<in> set (lineage st b)" using i sub by auto
  ultimately show ?thesis using start c(1) by auto
qed

text \<open>The heights of a locator: ten steps of one block, then steps that double, then the root.\<close>

function locator_heights :: "nat \<Rightarrow> nat \<Rightarrow> nat \<Rightarrow> nat list" where
  "locator_heights h nStep n =
     (if h = 0 \<or> nStep = 0 then [h]
      else h # locator_heights (h - nStep) (if n + 1 > 10 then nStep * 2 else nStep) (n + 1))"
  by auto
termination by (relation "measure (\<lambda>(h, s, n). h)") auto

declare locator_heights.simps [simp del]

lemma locator_heights_le: "x \<in> set (locator_heights h s n) \<Longrightarrow> x \<le> h"
proof (induction h s n rule: locator_heights.induct)
  case (1 h s n)
  from "1.prems" have "x = h \<or> (\<not> (h = 0 \<or> s = 0) \<and>
      x \<in> set (locator_heights (h - s) (if n + 1 > 10 then s * 2 else s) (n + 1)))"
    by (subst (asm) locator_heights.simps) (simp split: if_split_asm)
  then show ?case using "1.IH" by fastforce
qed

lemma locator_loop_eq:
  "tree_ok st \<Longrightarrow> chain_ok st ch \<Longrightarrow> p < length st \<Longrightarrow> nHeight (st ! p) = int h \<Longrightarrow> 0 < s \<Longrightarrow>
    locator_loop st ch (int s) hs (Some p) = Some (hs @ map (\<lambda>k. bi_hash (st ! the (anc (parent st) (h - k) p)))
      (locator_heights h s (length hs)))"
proof (induction h arbitrary: p s hs rule: less_induct)
  case (less h)
  have ok: "tree_ok st \<and> p < length st" using less.prems by simp
  show ?case
  proof (cases "h = 0")
    case True
    then show ?thesis
      using less.prems(4) by (simp add: locator_loop.simps [of st ch _ _ "Some p"] locator_heights.simps [of 0])
  next
    case False
    let ?s = "if length hs + 1 > 10 then s * 2 else s" and ?hs = "hs @ [bi_hash (st ! p)]"
    have target: "max (int h - int s) 0 = int (h - s)" by simp
    obtain q where q: "GetAncestor st p (int (h - s)) = Some (Some q)" "q < length st" "nHeight (st ! q) = int (h - s)"
      "anc (parent st) (nat (int h - int (h - s))) p = Some q"
      using GetAncestor_Some [OF less.prems(1,3), of "int (h - s)"] less.prems(4) by auto
    have inchain: "chain_at ch (int (h - s)) = Some q" if "Contains st ch p"
    proof -
      have c: "h < length ch" "ch ! h = Some p" using that less.prems(4) by (auto simp: Contains_def chain_at_def split: if_splits)
      then have "take (Suc h) ch = path_to st p"
        using chain_ok_prefix [OF less.prems(1,2) order_refl] by (auto simp: prefix_ok_def)
      then have "ch ! (h - s) = path_to st p ! (h - s)" by (metis diff_le_self le_imp_less_Suc nth_take)
      also have "\<dots> = Some (rev (lineage st p) ! nat (int (h - s)))"
        using length_path_to [OF less.prems(1,3)] less.prems(4) by (simp add: path_to_def)
      also have "rev (lineage st p) ! nat (int (h - s)) = q"
        using forest.lineage_at_height [OF ok, of "int (h - s)"] q(4) less.prems(4) by simp
      finally show ?thesis using c(1) by (simp add: chain_at_def)
    qed
    have n: "nat (int h - int (h - s)) = h - (h - s)" by simp
    have "locator_loop st ch (int s) hs (Some p) = locator_loop st ch (int ?s) ?hs (Some q)"
      using False less.prems(4) inchain q(1) target by (subst locator_loop.simps) (simp add: Let_def)
    also have "\<dots> = Some (?hs @ map (\<lambda>k. bi_hash (st ! the (anc (parent st) (h - s - k) q))) (locator_heights (h - s) ?s (length ?hs)))"
      by (rule less.IH) (use False less.prems q in auto)
    also have "map (\<lambda>k. bi_hash (st ! the (anc (parent st) (h - s - k) q))) (locator_heights (h - s) ?s (length ?hs))
        = map (\<lambda>k. bi_hash (st ! the (anc (parent st) (h - k) p))) (locator_heights (h - s) ?s (length ?hs))"
    proof (rule map_cong [OF refl])
      fix k assume "k \<in> set (locator_heights (h - s) ?s (length ?hs))"
      then have "k \<le> h - s" by (rule locator_heights_le)
      then have "h - k = (h - (h - s)) + (h - s - k)" by simp
      then show "bi_hash (st ! the (anc (parent st) (h - s - k) q)) = bi_hash (st ! the (anc (parent st) (h - k) p))"
        using anc_add [of "parent st" "h - (h - s)" "h - s - k" p] q(4) unfolding n by simp
    qed
    finally show ?thesis using False less.prems(5) by (simp add: locator_heights.simps [of h])
  qed
qed


section \<open>Work and trust\<close>

lemma length_SetCompact [simp]: "length (cr_value (SetCompact c)) = 8"
  using pn_val_SetCompact [of c] by simp

lemma target_not_max: "pn_val (cr_value (SetCompact c)) + 1 < 2 ^ 256"
proof -
  let ?v = "pn_val (cr_value (SetCompact c))"
  have v: "?v = compact_value c mod 2 ^ 256" using pn_val_SetCompact [of c] by simp
  have "?v + 1 \<noteq> 2 ^ 256"
  proof (cases "c_exp c \<le> 3")
    case True
    have "compact_value c \<le> c_man c" using True by (simp add: compact_value_def)
    also have "c_man c < 8388608" by simp
    finally have "?v < 8388608" unfolding v by (rule le_less_trans [OF mod_less_eq_dividend])
    then show ?thesis by simp
  next
    case False
    then have "even (compact_value c)" by (simp add: compact_value_def)
    then have "even ?v" unfolding v by (simp add: dvd_mod_iff)
    then have "odd (?v + 1)" by simp
    moreover have "even ((2 :: nat) ^ 256)" by simp
    ultimately show ?thesis by metis
  qed
  moreover have "?v < 2 ^ 256" using pn_val_bound [of "cr_value (SetCompact c)"] by simp
  ultimately show ?thesis by linarith
qed

lemma div_or_throw_Some:
  assumes "length a = length b" "pn_val b \<noteq> 0"
  shows "\<exists>q. div_or_throw a b = Some q \<and> length q = length a \<and> pn_val q = pn_val a div pn_val b"
  using bu_div_spec [OF assms(1)] assms(2) by (auto simp: div_or_throw_def split: sum.splits)

lemma target_plus_one: "pn_val (bu_add (cr_value (SetCompact c)) (of_u64 8 1)) = pn_val (cr_value (SetCompact c)) + 1"
  using target_not_max [of c] by (subst pn_val_add) simp_all

lemma GetBlockTrust_Some: "\<exists>w. GetBlockTrust b = Some w"
proof -
  have "pn_val (bu_add (cr_value (SetCompact (bi_nBits b))) (of_u64 8 1)) \<noteq> 0" by (simp add: target_plus_one)
  then show ?thesis
    using div_or_throw_Some [of "bu_shl (of_u64 8 1) 256" "bu_add (cr_value (SetCompact (bi_nBits b))) (of_u64 8 1)"]
      div_or_throw_Some [of "bu_shr (bu_not (of_u64 8 0)) 20" "bu_add (cr_value (SetCompact (bi_nBits b))) (of_u64 8 1)"]
    by (auto simp: GetBlockTrust_def Let_def bu_not_def)
qed

lemma GetBlockProof_Some:
  "\<exists>w. GetBlockProof b = Some w \<and> length w = 8 \<and> pn_val w =
    (if cr_negative (SetCompact (bi_nBits b)) \<or> 2 ^ 256 \<le> compact_value (bi_nBits b) \<or> compact_value (bi_nBits b) = 0
     then 0 else 2 ^ 256 div (compact_value (bi_nBits b) + 1))"
proof -
  let ?c = "SetCompact (bi_nBits b)"
  define t where "t = pn_val (cr_value ?c)"
  show ?thesis
  proof (cases "cr_negative ?c \<or> cr_overflow ?c \<or> EqualTo (cr_value ?c) 0")
    case True
    have "t = 0 \<Longrightarrow> compact_value (bi_nBits b) = 0 \<or> 2 ^ 256 \<le> compact_value (bi_nBits b)"
      using pn_val_SetCompact [of "bi_nBits b"] unfolding t_def by (cases "compact_value (bi_nBits b) < 2 ^ 256") auto
    then show ?thesis
      using True by (auto simp: GetBlockProof_def Let_def cr_overflow_SetCompact EqualTo_spec t_def)
  next
    case False
    then have t: "t = compact_value (bi_nBits b)" "t \<noteq> 0" "t + 1 < 2 ^ 256"
      using pn_val_SetCompact [of "bi_nBits b"] target_not_max [of "bi_nBits b"]
      by (auto simp: t_def cr_overflow_SetCompact EqualTo_spec)
    have "pn_val (bu_not (cr_value ?c)) = 2 ^ 256 - 1 - t"
      using pn_val_not [of "cr_value ?c"] by (simp add: bu_not_def t_def)
    moreover have "pn_val (bu_add (cr_value ?c) (of_u64 8 1)) = t + 1" by (simp add: target_plus_one t_def)
    ultimately obtain q where q: "div_or_throw (bu_not (cr_value ?c)) (bu_add (cr_value ?c) (of_u64 8 1)) = Some q"
      "length q = 8" "pn_val q = (2 ^ 256 - 1 - t) div (t + 1)"
      using div_or_throw_Some [of "bu_not (cr_value ?c)" "bu_add (cr_value ?c) (of_u64 8 1)"] by (auto simp: bu_not_def)
    have "(2 ^ 256 :: nat) = (2 ^ 256 - 1 - t) + (t + 1)" using t(3) by linarith
    then have e: "2 ^ 256 div (t + 1) = (2 ^ 256 - 1 - t) div (t + 1) + 1"
      by (metis add.commute add_gr_0 div_add_self2 less_numeral_extra(1) nat_neq_iff)
    have "2 ^ 256 div (t + 1) < (2 :: nat) ^ 256" using t(2) by (intro div_less_dividend) simp_all
    then have "pn_val (bu_add q (of_u64 8 1)) = 2 ^ 256 div (t + 1)"
      using q(2,3) unfolding e by (subst pn_val_add) simp_all
    then show ?thesis
      using False q t by (auto simp: GetBlockProof_def Let_def cr_overflow_SetCompact)
  qed
qed


text \<open>C32: The proof of a block.  \<open>GetBlockProof\<close> never divides by zero and returns, in 256 bits and
  without forming it, the quotient of 2 to the 256 by the target plus one that its comment asks for,
  and 0 for a negative, overflowing or zero target.\<close>

theorem GetBlockProof_exact:
  "\<exists>w. GetBlockProof b = Some w \<and> pn_val w =
    (if cr_negative (SetCompact (bi_nBits b)) \<or> 2 ^ 256 \<le> compact_value (bi_nBits b) \<or> compact_value (bi_nBits b) = 0
     then 0 else 2 ^ 256 div (compact_value (bi_nBits b) + 1))"
  using GetBlockProof_Some [of b] by blast

text \<open>C33: The trust of a proof-of-stake block.  \<open>uint256(1) << 256\<close> loses its only bit, so that
  \<open>GetBlockTrust\<close> is 0 for every proof-of-stake block, whatever its target.\<close>

theorem stake_trust_is_zero:
  assumes "bi_IsProofOfStake b"
  shows "\<exists>w. GetBlockTrust b = Some w \<and> pn_val w = 0"
proof -
  let ?t = "cr_value (SetCompact (bi_nBits b))"
  have "pn_val (bu_shl (of_u64 8 1) 256) = 0"
    by (simp add: pn_val_shl push_bit_eq_mult take_bit_eq_mod)
  moreover have "pn_val (bu_add ?t (of_u64 8 1)) \<noteq> 0" by (simp add: target_plus_one)
  ultimately obtain q where "div_or_throw (bu_shl (of_u64 8 1) 256) (bu_add ?t (of_u64 8 1)) = Some q" "pn_val q = 0"
    using div_or_throw_Some [of "bu_shl (of_u64 8 1) 256" "bu_add ?t (of_u64 8 1)"] by auto
  then show ?thesis using assms by (simp add: GetBlockTrust_def Let_def)
qed

theorem stake_trust_is_zero_witness:
  "\<exists>w. GetBlockTrust (SetProofOfStake ((CBlockIndex_null None)\<lparr> bi_nBits := 0x1e0ffff0 \<rparr>)) = Some w \<and> pn_val w = 0"
  by (rule stake_trust_is_zero)
    (simp add: bi_IsProofOfStake_def SetProofOfStake_def CBlockIndex_null_def BLOCK_PROOF_OF_STAKE_def)

section \<open>The tree stays well-formed\<close>

text \<open>What the tree and the work depend on; most updates of an entry keep it.\<close>

definition skel :: "CBlockIndex \<Rightarrow> limbs \<times> ptr option \<times> ptr option \<times> int \<times> limbs \<times> u32" where
  "skel b = (bi_hash b, pprev b, pskip b, nHeight b, nChainWork b, bi_nBits b)"

lemma skel_upd: "(\<And>b. skel (f b) = skel b) \<Longrightarrow> map skel (upd st p f) = map skel st"
  by (simp add: upd_def map_update) (metis list_update_id list_update_beyond map_update nth_map not_less)

lemma skel_cong:
  assumes "map skel st = map skel st'"
  shows "length st = length st'" "i < length st \<Longrightarrow> skel (st ! i) = skel (st' ! i)"
  using assms by (metis length_map, metis length_map nth_map)

lemma anc_cong:
  assumes "tree_ok st" "\<And>i. i < length st \<Longrightarrow> pprev (st' ! i) = pprev (st ! i)"
  shows "p < length st \<Longrightarrow> anc (parent st') n p = anc (parent st) n p"
proof (induction n arbitrary: p)
  case (Suc n)
  then show ?case using forest.step [of st p] assms by (auto split: option.split)
qed simp

lemma tree_ok_skel:
  assumes "tree_ok st" "map skel st' = map skel st"
  shows "tree_ok st'"
  unfolding tree_ok_def
proof (intro allI impI)
  fix p assume "p < length st'"
  then have p: "p < length st" using skel_cong(1) [OF assms(2)] by simp
  have s: "pprev (st' ! i) = pprev (st ! i)" "nHeight (st' ! i) = nHeight (st ! i)" "pskip (st' ! i) = pskip (st ! i)"
    if "i < length st" for i
    using skel_cong [OF assms(2)] that by (auto simp: skel_def)
  have "anc (parent st') n p = anc (parent st) n p" for n by (rule anc_cong) (use assms(1) s p in auto)
  moreover have "node_ok st p" using assms(1) p by (simp add: tree_ok_def)
  ultimately show "node_ok st' p"
    using s p skel_cong(1) [OF assms(2)] by (auto simp: node_ok_def split: option.splits)
qed

lemma tree_ok_append:
  assumes "tree_ok st" "0 \<le> nHeight b"
    "pprev b = None \<Longrightarrow> nHeight b = 0"
    "\<And>q. pprev b = Some q \<Longrightarrow> q < length st \<and> nHeight b = nHeight (st ! q) + 1 \<and>
       pskip b = anc (parent st) (nat (nHeight (st ! q) - GetSkipHeight (nHeight b))) q"
  shows "tree_ok (st @ [b])"
proof -
  have a: "anc (parent (st @ [b])) n p = anc (parent st) n p" if "p < length st" for n p
    by (rule anc_cong [OF assms(1) _ that]) (simp add: nth_append)
  have "node_ok (st @ [b]) p" if p: "p < length st" for p
  proof -
    have "node_ok st p" "(st @ [b]) ! p = st ! p" using assms(1) p by (simp_all add: tree_ok_def nth_append)
    then show ?thesis using a [OF p] by (auto simp: node_ok_def nth_append split: option.splits)
  qed
  moreover have "node_ok (st @ [b]) (length st)"
  proof (cases "pprev b")
    case None
    then show ?thesis using assms(3) by (simp add: node_ok_def)
  next
    case (Some q)
    note b = assms(4) [OF Some]
    have "nHeight b > 0" using b forest.nonneg [of st q] assms(1) by auto
    then have "nat (nHeight b - GetSkipHeight (nHeight b)) = Suc (nat (nHeight (st ! q) - GetSkipHeight (nHeight b)))"
    proof -
      have "nat (x + 1 - s) = Suc (nat (x - s))" if "s \<le> x" for x s :: int using that by linarith
      then show ?thesis using b GetSkipHeight_less [of "nHeight b"] \<open>nHeight b > 0\<close> by simp
    qed
    then have "anc (parent (st @ [b])) (nat (nHeight b - GetSkipHeight (nHeight b))) (length st) = pskip b"
      using Some b a by simp
    then show ?thesis using Some b assms(2) by (simp add: node_ok_def nth_append)
  qed
  ultimately show ?thesis by (auto simp: tree_ok_def less_Suc_eq)
qed

lemma link_stake_skel: "map skel (link_stake P M block p st) = map skel st"
  by (simp add: link_stake_def Let_def split_beta skel_upd skel_def SetStakeModifier_def)

lemma link_block_Some:
  assumes "tree_ok st" "q < length st" "pskip b = None"
  shows "\<exists>st' stakes'. link_block P M block (length st) q (st @ [b], stakes) = Some (st', stakes') \<and>
    map skel st' = map skel (st @ [b\<lparr> pprev := Some q, nHeight := nHeight (st ! q) + 1,
      pskip := anc (parent st) (nat (nHeight (st ! q) - GetSkipHeight (nHeight (st ! q) + 1))) q \<rparr>])"
proof -
  let ?p = "length st" and ?h = "nHeight (st ! q) + 1"
  let ?b1 = "b\<lparr> pprev := Some q, nHeight := ?h \<rparr>"
  let ?sk = "anc (parent st) (nat (nHeight (st ! q) - GetSkipHeight ?h)) q"
  have ok: "tree_ok st \<and> q < length st" using assms by simp
  have st1: "upd (st @ [b]) ?p (\<lambda>b. b\<lparr> pprev := Some q, nHeight := nHeight ((st @ [b]) ! q) + 1 \<rparr>) = st @ [?b1]"
    using assms(2) by (simp add: upd_def nth_append)
  have h: "0 \<le> nHeight (st ! q)" using forest.nonneg [OF ok] .
  then have sk: "0 \<le> GetSkipHeight ?h" "GetSkipHeight ?h \<le> nHeight (st ! q)"
    using GetSkipHeight_less [of ?h] by simp_all
  have "ancestor_walk (st @ [?b1]) (nat (GetSkipHeight ?h)) (Some q) (nat (nHeight (st ! q))) =
      Some (anc (parent st) (nat (nHeight (st ! q)) - nat (GetSkipHeight ?h)) q)"
    by (rule ancestor_walk_eq) (use assms h sk in \<open>simp_all add: nth_append nat_mono\<close>)
  then have "GetAncestor (st @ [?b1]) q (GetSkipHeight ?h) = Some ?sk"
    using sk h assms(2) by (simp add: GetAncestor_def nth_append nat_diff_distrib)
  then have skip: "BuildSkip (st @ [?b1]) ?p = Some (st @ [?b1\<lparr> pskip := ?sk \<rparr>])"
    by (simp add: BuildSkip_def)
  obtain trust where trust: "GetBlockTrust ((upd (st @ [?b1\<lparr> pskip := ?sk \<rparr>]) q (\<lambda>b. b\<lparr> pnext := Some ?p \<rparr>)) ! ?p) = Some trust"
    using GetBlockTrust_Some by blast
  have st1': "upd (st @ [b]) ?p (\<lambda>b'. b'\<lparr> pprev := Some q, nHeight := nHeight ((st @ [b]) ! q) + 1 \<rparr>) = st @ [?b1]"
    using assms(2) by (simp add: upd_def nth_append)
  show ?thesis
    unfolding link_block_def Let_def prod.case st1' skip option.case trust
    by (intro exI conjI, rule refl)
      (simp add: link_stake_skel skel_upd skel_def SetStakeEntropyBit_def)
qed

text \<open>The invariant of the node's block tree: the tree, the index by hash and the best header.\<close>

definition block_tree_ok :: "block_tree \<Rightarrow> bool" where
  "block_tree_ok t \<longleftrightarrow> tree_ok (bt_arena t) \<and>
     (\<forall>h p. mapBlockIndex t h = Some p \<longrightarrow> p < length (bt_arena t) \<and> bi_hash (bt_arena t ! p) = h) \<and>
     (\<forall>p. pindexBestHeader t = Some p \<longrightarrow> p < length (bt_arena t)) \<and>
     (\<forall>p < length (bt_arena t). length (nChainWork (bt_arena t ! p)) = 8)"


definition genesis_tree :: block_tree where
  "genesis_tree = \<lparr> bt_arena = [], mapBlockIndex = (\<lambda>_. None), pindexBestHeader = None,
     setDirtyBlockIndex = [], mapProofOfStake = (\<lambda>_. None) \<rparr>"

lemma CBlockIndex_of_fields [simp]:
  "pprev (CBlockIndex_of g b) = None" "pskip (CBlockIndex_of g b) = None" "nHeight (CBlockIndex_of g b) = 0"
  "bi_nBits (CBlockIndex_of g b) = nBits b" "nChainWork (CBlockIndex_of g b) = of_u64 8 0"
  by (simp_all add: CBlockIndex_of_def CBlockIndex_null_def SetProofOfStake_def Let_def)

lemma bt_arena_new:
  fixes g :: "ptr option"
  assumes t: "block_tree_ok t" and new: "mapBlockIndex t h = None" "hashPrevBlock block \<noteq> h"
  defines "b \<equiv> (CBlockIndex_of g block)\<lparr> nSequenceId := 0, bi_hash := h \<rparr>"
    and "index \<equiv> (mapBlockIndex t)(h \<mapsto> length (bt_arena t))"
  shows "\<exists>st' stakes x. (case index (hashPrevBlock block) of None \<Rightarrow> Some (bt_arena t @ [b], mapProofOfStake t)
      | Some q \<Rightarrow> link_block P M block (length (bt_arena t)) q (bt_arena t @ [b], mapProofOfStake t)) = Some (st', stakes) \<and>
    map skel st' = map skel (bt_arena t @ [x]) \<and> (\<forall>v. tree_ok (bt_arena t @ [x\<lparr> nChainWork := v \<rparr>])) \<and> bi_hash x = h \<and>
    bi_nBits x = nBits block \<and> nChainWork x = of_u64 8 0 \<and> pprev x = mapBlockIndex t (hashPrevBlock block)"
proof -
  let ?st = "bt_arena t"
  have tree: "tree_ok ?st" using t by (simp add: block_tree_ok_def)
  have idx: "index (hashPrevBlock block) = mapBlockIndex t (hashPrevBlock block)" using new by (simp add: index_def)
  show ?thesis
  proof (cases "mapBlockIndex t (hashPrevBlock block)")
    case None
    have "tree_ok (?st @ [b\<lparr> nChainWork := v \<rparr>])" for v by (rule tree_ok_append [OF tree]) (simp_all add: b_def)
    then show ?thesis unfolding idx None
      by (intro exI [of _ "?st @ [b]"] exI [of _ "mapProofOfStake t"] exI [of _ b]) (auto simp: b_def)
  next
    case (Some q)
    then have q: "q < length ?st" using t by (simp add: block_tree_ok_def)
    let ?x = "b\<lparr> pprev := Some q, nHeight := nHeight (?st ! q) + 1,
      pskip := anc (parent ?st) (nat (nHeight (?st ! q) - GetSkipHeight (nHeight (?st ! q) + 1))) q \<rparr>"
    have "tree_ok (?st @ [?x\<lparr> nChainWork := v \<rparr>])" for v
      using forest.nonneg [of ?st q] tree q by (intro tree_ok_append [OF tree]) simp_all
    moreover obtain st' stakes where
      "link_block P M block (length ?st) q (?st @ [b], mapProofOfStake t) = Some (st', stakes)"
      "map skel st' = map skel (?st @ [?x])"
      using link_block_Some [OF tree q, of b P M block "mapProofOfStake t"] by (auto simp: b_def)
    ultimately show ?thesis unfolding idx Some by (intro exI [of _ st'] exI [of _ stakes] exI [of _ ?x]) (simp add: b_def)
  qed
qed


definition zero_sph :: sph_functions where
  "zero_sph = \<lparr> sph_blake512 = \<lambda>_. bu_zero 16, sph_bmw512 = \<lambda>_. bu_zero 16, sph_groestl512 = \<lambda>_. bu_zero 16,
     sph_jh512 = \<lambda>_. bu_zero 16, sph_keccak512 = \<lambda>_. bu_zero 16, sph_skein512 = \<lambda>_. bu_zero 16 \<rparr>"

definition zero_modifiers :: stake_modifiers where
  "zero_modifiers = \<lparr> ComputeNextStakeModifier = \<lambda>_ _. (0, False), GetStakeModifierChecksum = \<lambda>_ _. 0,
     ComputeStakeModifier = \<lambda>_ _ _. bu_zero 8 \<rparr>"


end
