(* ===== verification/Pubkey.thy ===== *)
theory Pubkey
  imports Transaction
begin

unbundle bit_operations_syntax

text \<open>
  Public keys: \<open>src/pubkey.h\<close> and \<open>src/pubkey.cpp\<close>.  The elliptic-curve library secp256k1 is
  vendored; the functions of it that \<open>pubkey.cpp\<close> calls are the fields of the record \<open>secp\<close>,
  a parameter of the definitions here, over types \<open>'p\<close> of points and \<open>'s\<close> of signatures that
  stay opaque.  The array \<open>vch\<close> of a \<open>CPubKey\<close> is the list of its bytes as far as they were
  written.  The lemmas show that the lax DER parser reads every strict signature as its two
  numbers, and that extended keys are read back as they were written.
\<close>

section \<open>The class CPubKey\<close>

type_synonym CPubKey = bytes

definition GetLen :: "u8 \<Rightarrow> nat" where
  "GetLen chHeader =
     (if chHeader = 2 \<or> chHeader = 3 then 33
      else if chHeader = 4 \<or> chHeader = 6 \<or> chHeader = 7 then 65
      else 0)"

definition Invalidate :: "CPubKey \<Rightarrow> CPubKey" where
  "Invalidate k = 0xff # tl k"

definition CPubKey_new :: CPubKey where
  "CPubKey_new = Invalidate []"

definition CPubKey_Set :: "CPubKey \<Rightarrow> bytes \<Rightarrow> CPubKey" where
  "CPubKey_Set k p =
     (let len = (if p = [] then 0 else GetLen (p ! 0)) in
      if len \<noteq> 0 \<and> len = length p then p @ drop len k else Invalidate k)"

definition CPubKey_of :: "bytes \<Rightarrow> CPubKey" where
  "CPubKey_of p = CPubKey_Set [] p"

definition pk_size :: "CPubKey \<Rightarrow> nat" where
  "pk_size k = GetLen (k ! 0)"

definition Raw :: "CPubKey \<Rightarrow> bytes" where
  "Raw k = take (pk_size k) k"

text \<open>\<open>memcmp(a, b, n)\<close> as a negative, zero or positive number.\<close>

fun memcmp :: "bytes \<Rightarrow> bytes \<Rightarrow> nat \<Rightarrow> int" where
  "memcmp (x # xs) (y # ys) (Suc n) =
     (if x < y then - 1 else if y < x then 1 else memcmp xs ys n)"
| "memcmp _ _ _ = 0"

definition CPubKey_eq :: "CPubKey \<Rightarrow> CPubKey \<Rightarrow> bool" where
  "CPubKey_eq a b \<longleftrightarrow> a ! 0 = b ! 0 \<and> memcmp a b (pk_size a) = 0"

definition CPubKey_less :: "CPubKey \<Rightarrow> CPubKey \<Rightarrow> bool" where
  "CPubKey_less a b \<longleftrightarrow> a ! 0 < b ! 0 \<or> (a ! 0 = b ! 0 \<and> memcmp a b (pk_size a) < 0)"

definition ser_pubkey :: "CPubKey \<Rightarrow> bytes" where
  "ser_pubkey k = WriteCompactSize (of_nat (pk_size k)) @ Raw k"

definition unser_pubkey :: "CPubKey \<Rightarrow> CPubKey reader" where
  "unser_pubkey k = rbind ReadCompactSize (\<lambda>n. let len = unat (ucast n :: u32) in
     if len \<le> 65 then rbind (read_bytes len) (\<lambda>b. rreturn (b @ drop len k))
     else rbind (read_bytes len) (\<lambda>_. rreturn (Invalidate k)))"

definition GetID :: "CPubKey \<Rightarrow> bytes" where
  "GetID k = Hash160_bytes (Raw k)"

definition CPubKey_GetHash :: "CPubKey \<Rightarrow> bytes" where
  "CPubKey_GetHash k = Hash_bytes (Raw k)"

definition CPubKey_IsValid :: "CPubKey \<Rightarrow> bool" where
  "CPubKey_IsValid k \<longleftrightarrow> pk_size k > 0"

definition IsCompressed :: "CPubKey \<Rightarrow> bool" where
  "IsCompressed k \<longleftrightarrow> pk_size k = 33"

section \<open>What the code calls of secp256k1\<close>

text \<open>\<open>sig_parse_compact\<close> returns the signature object and whether the 64 bytes were
  accepted; \<open>sig_normalize\<close> the lower-S form and whether the input had a high S.\<close>

record ('p, 's, 'r) secp =
  ec_pubkey_parse :: "bytes \<Rightarrow> 'p option"
  ec_pubkey_serialize :: "'p \<Rightarrow> bool \<Rightarrow> bytes"
  ec_pubkey_tweak_add :: "'p \<Rightarrow> bytes \<Rightarrow> 'p option"
  sig_parse_compact :: "bytes \<Rightarrow> 's \<times> bool"
  sig_normalize :: "'s \<Rightarrow> 's \<times> bool"
  sig_verify :: "'s \<Rightarrow> bytes \<Rightarrow> 'p \<Rightarrow> bool"
  rec_parse_compact :: "bytes \<Rightarrow> nat \<Rightarrow> 'r option"
  rec_recover :: "'r \<Rightarrow> bytes \<Rightarrow> 'p option"

section \<open>The lax DER parser\<close>

text \<open>The input is the list of the bytes from \<open>pos\<close> on, so \<open>pos == inputlen\<close> is the empty list
  and \<open>inputlen - pos\<close> its length.\<close>

fun skip_zeros :: "nat \<Rightarrow> bytes \<Rightarrow> nat \<times> bytes" where
  "skip_zeros (Suc n) (b # inp) = (if b = 0 then skip_zeros n inp else (Suc n, b # inp))"
| "skip_zeros n inp = (n, inp)"

definition lax_int_length :: "bytes \<Rightarrow> (nat \<times> bytes) option" where
  "lax_int_length inp =
     (case inp of
        [] \<Rightarrow> None
      | lenbyte # inp \<Rightarrow>
          if lenbyte AND 0x80 \<noteq> 0 then
            let n = unat lenbyte - 0x80 in
            if n > length inp then None
            else (case skip_zeros n inp of (n, inp) \<Rightarrow>
              if n \<ge> 4 then None
              else Some (foldl (\<lambda>r b. r * 256 + unat b) 0 (take n inp), drop n inp))
          else Some (unat lenbyte, inp))"

text \<open>The tag, the length and the bytes of one integer, and the input behind it.\<close>

definition lax_integer :: "bytes \<Rightarrow> (bytes \<times> bytes) option" where
  "lax_integer inp =
     (case inp of
        [] \<Rightarrow> None
      | tag # inp \<Rightarrow>
          if tag \<noteq> 0x02 then None
          else (case lax_int_length inp of
              None \<Rightarrow> None
            | Some (len, inp) \<Rightarrow>
                if len > length inp then None else Some (take len inp, drop len inp)))"

definition lax_sequence :: "bytes \<Rightarrow> bytes option" where
  "lax_sequence inp =
     (case inp of
        [] \<Rightarrow> None
      | tag # inp \<Rightarrow>
          if tag \<noteq> 0x30 then None
          else (case inp of
              [] \<Rightarrow> None
            | lenbyte # inp \<Rightarrow>
                if lenbyte AND 0x80 \<noteq> 0 then
                  let n = unat lenbyte - 0x80 in
                  if n > length inp then None else Some (drop n inp)
                else Some inp))"

text \<open>Leading zeros are dropped; a longer number than 32 bytes sets \<open>overflow\<close>.\<close>

definition lax_field :: "bytes \<Rightarrow> bytes option" where
  "lax_field v =
     (let v = dropWhile (\<lambda>b. b = 0) v in
      if length v > 32 then None else Some (replicate (32 - length v) 0 @ v))"

definition parse_der_lax :: "('p, 's, 'r) secp \<Rightarrow> bytes \<Rightarrow> 's option" where
  "parse_der_lax ec inp =
     (case lax_sequence inp of
        None \<Rightarrow> None
      | Some inp \<Rightarrow> (case lax_integer inp of
          None \<Rightarrow> None
        | Some (r, inp) \<Rightarrow> (case lax_integer inp of
            None \<Rightarrow> None
          | Some (s, _) \<Rightarrow>
              let invalid = fst (sig_parse_compact ec (replicate 64 0)) in
              Some (case (lax_field r, lax_field s) of
                  (Some rb, Some sb) \<Rightarrow>
                    (case sig_parse_compact ec (rb @ sb) of
                       (sig, fine) \<Rightarrow> if fine then sig else invalid)
                | _ \<Rightarrow> invalid))))"

section \<open>Operations on keys\<close>

definition CPubKey_Verify :: "('p, 's, 'r) secp \<Rightarrow> CPubKey \<Rightarrow> limbs \<Rightarrow> bytes \<Rightarrow> bool" where
  "CPubKey_Verify ec k hash vchSig =
     (if \<not> CPubKey_IsValid k then False
      else case ec_pubkey_parse ec (Raw k) of
          None \<Rightarrow> False
        | Some pubkey \<Rightarrow> (case parse_der_lax ec vchSig of
            None \<Rightarrow> False
          | Some sig \<Rightarrow> sig_verify ec (fst (sig_normalize ec sig)) (pn_bytes hash) pubkey))"

definition RecoverCompact :: "('p, 's, 'r) secp \<Rightarrow> CPubKey \<Rightarrow> limbs \<Rightarrow> bytes \<Rightarrow> CPubKey \<times> bool" where
  "RecoverCompact ec k hash vchSig =
     (if length vchSig \<noteq> 65 then (k, False)
      else let recid = unat ((vchSig ! 0 - 27) AND 3);
               fComp = ((vchSig ! 0 - 27) AND 4 \<noteq> 0) in
        (case rec_parse_compact ec (drop 1 vchSig) recid of
           None \<Rightarrow> (k, False)
         | Some sig \<Rightarrow> (case rec_recover ec sig (pn_bytes hash) of
             None \<Rightarrow> (k, False)
           | Some pubkey \<Rightarrow> (CPubKey_Set k (ec_pubkey_serialize ec pubkey fComp), True))))"

definition IsFullyValid :: "('p, 's, 'r) secp \<Rightarrow> CPubKey \<Rightarrow> bool" where
  "IsFullyValid ec k =
     (if \<not> CPubKey_IsValid k then False else ec_pubkey_parse ec (Raw k) \<noteq> None)"

definition pk_Decompress :: "('p, 's, 'r) secp \<Rightarrow> CPubKey \<Rightarrow> CPubKey \<times> bool" where
  "pk_Decompress ec k =
     (if \<not> CPubKey_IsValid k then (k, False)
      else case ec_pubkey_parse ec (Raw k) of
          None \<Rightarrow> (k, False)
        | Some pubkey \<Rightarrow> (CPubKey_Set k (ec_pubkey_serialize ec pubkey False), True))"

text \<open>\<open>Derive\<close>: the child key, the child chain code and whether it succeeded; \<open>None\<close> where an
  assertion fails.\<close>

definition CPubKey_Derive ::
  "('p, 's, 'r) secp \<Rightarrow> CPubKey \<Rightarrow> CPubKey \<Rightarrow> u32 \<Rightarrow> bytes \<Rightarrow> (CPubKey \<times> bytes \<times> bool) option" where
  "CPubKey_Derive ec k pubkeyChild nChild cc =
     (if \<not> CPubKey_IsValid k then None
      else if drop_bit 31 nChild \<noteq> 0 then None
      else if pk_size k \<noteq> 33 then None
      else let out1 = BIP32Hash cc nChild (k ! 0) (take 32 (drop 1 k));
               ccChild = drop 32 out1 in
        Some (case ec_pubkey_parse ec (Raw k) of
            None \<Rightarrow> (pubkeyChild, ccChild, False)
          | Some pubkey \<Rightarrow> (case ec_pubkey_tweak_add ec pubkey (take 32 out1) of
              None \<Rightarrow> (pubkeyChild, ccChild, False)
            | Some pubkey \<Rightarrow>
                (CPubKey_Set pubkeyChild (ec_pubkey_serialize ec pubkey True), ccChild, True))))"

definition CheckLowS :: "('p, 's, 'r) secp \<Rightarrow> bytes \<Rightarrow> bool" where
  "CheckLowS ec vchSig =
     (case parse_der_lax ec vchSig of None \<Rightarrow> False | Some sig \<Rightarrow> \<not> snd (sig_normalize ec sig))"

text \<open>The operations that the signature checker of \<open>Transaction\<close> takes as a parameter.\<close>

definition pubkey_ops_of :: "('p, 's, 'r) secp \<Rightarrow> pubkey_ops" where
  "pubkey_ops_of ec =
     \<lparr> pk_IsValid = (\<lambda>v. CPubKey_IsValid (CPubKey_of v)),
       pk_Verify = (\<lambda>v. CPubKey_Verify ec (CPubKey_of v)) \<rparr>"

section \<open>Extended keys\<close>

record CExtPubKey =
  nDepth :: u8
  vchFingerprint :: bytes
  nChild :: u32
  chaincode :: bytes
  ext_pubkey :: CPubKey

definition CExtPubKey_eq :: "CExtPubKey \<Rightarrow> CExtPubKey \<Rightarrow> bool" where
  "CExtPubKey_eq a b \<longleftrightarrow> nDepth a = nDepth b
     \<and> memcmp (vchFingerprint a) (vchFingerprint b) 4 = 0
     \<and> nChild a = nChild b \<and> chaincode a = chaincode b \<and> CPubKey_eq (ext_pubkey a) (ext_pubkey b)"

definition ext_Encode :: "CExtPubKey \<Rightarrow> bytes option" where
  "ext_Encode x =
     (if pk_size (ext_pubkey x) \<noteq> 33 then None
      else Some ([nDepth x] @ take 4 (vchFingerprint x)
        @ [ucast (drop_bit 24 (nChild x)), ucast (drop_bit 16 (nChild x)),
           ucast (drop_bit 8 (nChild x)), ucast (nChild x)]
        @ take 32 (chaincode x) @ take 33 (ext_pubkey x)))"

definition ext_Decode :: "CExtPubKey \<Rightarrow> bytes \<Rightarrow> CExtPubKey" where
  "ext_Decode x code =
     x\<lparr> nDepth := code ! 0, vchFingerprint := take 4 (drop 1 code),
        nChild := push_bit 24 (ucast (code ! 5)) OR push_bit 16 (ucast (code ! 6))
          OR push_bit 8 (ucast (code ! 7)) OR ucast (code ! 8),
        chaincode := take 32 (drop 9 code),
        ext_pubkey := CPubKey_Set (ext_pubkey x) (take 33 (drop 41 code)) \<rparr>"

definition ext_Derive ::
  "('p, 's, 'r) secp \<Rightarrow> CExtPubKey \<Rightarrow> CExtPubKey \<Rightarrow> u32 \<Rightarrow> (CExtPubKey \<times> bool) option" where
  "ext_Derive ec x child n =
     (case CPubKey_Derive ec (ext_pubkey x) (ext_pubkey child) n (chaincode x) of
        None \<Rightarrow> None
      | Some (key, cc, fine) \<Rightarrow>
          Some (child\<lparr> nDepth := nDepth x + 1, vchFingerprint := take 4 (GetID (ext_pubkey x)),
                       nChild := n, chaincode := cc, ext_pubkey := key \<rparr>, fine))"

definition ser_ext :: "CExtPubKey \<Rightarrow> bytes option" where
  "ser_ext x = map_option (\<lambda>code. WriteCompactSize 74 @ code) (ext_Encode x)"

definition unser_ext :: "CExtPubKey \<Rightarrow> CExtPubKey reader" where
  "unser_ext x = rbind ReadCompactSize (\<lambda>n.
     if (ucast n :: u32) \<noteq> 74 then rthrow Bad_data
     else rbind (read_bytes 74) (\<lambda>code. rreturn (ext_Decode x code)))"

section \<open>The lax parser reads strict signatures as their two numbers\<close>

lemma le_val_zeros [simp]: "le_val (replicate n 0) = 0"
  by (induction n) simp_all

lemma dropWhile_zeros: "\<exists>n. v = replicate n 0 @ dropWhile (\<lambda>b. b = (0 :: u8)) v"
proof (induction v)
  case (Cons b v)
  then obtain n where v: "v = replicate n 0 @ dropWhile (\<lambda>b. b = 0) v" by blast
  show ?case
  proof (cases "b = 0")
    case True
    then show ?thesis using v by (intro exI [of _ "Suc n"]) simp
  next
    case False
    then show ?thesis by (intro exI [of _ 0]) simp
  qed
qed simp

text \<open>The field of a number is its 32 bytes, the most significant first.\<close>

lemma lax_field_eq:
  "lax_field v = (if le_val (rev v) < 256 ^ 32 then Some (rev (le_bytes 32 (le_val (rev v)))) else None)"
proof -
  define w where "w = dropWhile (\<lambda>b. b = (0 :: u8)) v"
  obtain n where v: "v = replicate n 0 @ w" using dropWhile_zeros [of v] by (auto simp: w_def)
  have val: "le_val (rev v) = le_val (rev w)" by (simp add: v le_val_append)
  show ?thesis
  proof (cases "length w > 32")
    case True
    then obtain b w' where w: "w = b # w'" by (cases w) auto
    have "b \<noteq> 0" using hd_dropWhile [of "\<lambda>b. b = 0" v] w by (simp add: w_def [symmetric])
    then have "1 \<le> unat b" by (simp add: Suc_le_eq unat_gt_0)
    then have "256 ^ length w' \<le> le_val (rev w)"
      by (simp add: w le_val_append) (metis mult.right_neutral mult_le_mono2 One_nat_def trans_le_add2)
    moreover have "(256 :: nat) ^ 32 \<le> 256 ^ length w'"
      using True w by (intro power_increasing) auto
    ultimately show ?thesis using True by (simp add: lax_field_def w_def [symmetric] val Let_def)
  next
    case False
    have "le_val (rev w) < 256 ^ length w" using le_val_bound [of "rev w"] by simp
    also have "(256 :: nat) ^ length w \<le> 256 ^ 32" using False by (intro power_increasing) auto
    finally have less: "le_val (rev w) < 256 ^ 32" .
    have "le_val (rev w) = le_val (rev w @ replicate (32 - length w) 0)"
      by (simp add: le_val_append)
    moreover have "length (rev w @ replicate (32 - length w) 0) = 32" using False by simp
    ultimately have "le_bytes 32 (le_val (rev w)) = rev w @ replicate (32 - length w) 0"
      using le_bytes_le_val [of "rev w @ replicate (32 - length w) 0"] by metis
    then show ?thesis using False less by (simp add: lax_field_def w_def [symmetric] val Let_def)
  qed
qed

lemma short_length: "n < 128 \<Longrightarrow> (of_nat n :: u8) AND 0x80 = 0"
  using u8_sign [of "of_nat n"] by simp

lemma lax_integer_short:
  "length R < 128 \<Longrightarrow> lax_integer (0x02 # of_nat (length R) # R @ rest) = Some (R, rest)"
  by (simp add: lax_integer_def lax_int_length_def short_length)

definition be32 :: "nat \<Rightarrow> bytes" where
  "be32 n = rev (le_bytes 32 n)"

lemma parse_der_lax_der:
  assumes "length R + length S \<le> 66"
  shows "parse_der_lax ec (butlast (der_signature R S ht)) =
    Some (let invalid = fst (sig_parse_compact ec (replicate 64 0));
              r = le_val (rev R); s = le_val (rev S) in
          if r < 256 ^ 32 \<and> s < 256 ^ 32
          then (case sig_parse_compact ec (be32 r @ be32 s) of (sig, fine) \<Rightarrow> if fine then sig else invalid)
          else invalid)"
proof -
  have sig: "butlast (der_signature R S ht)
      = 0x30 # of_nat (4 + length R + length S) # 0x02 # of_nat (length R) # R
          @ (0x02 # of_nat (length S) # S @ [])"
    by (simp add: der_signature_def butlast_append)
  have "lax_sequence (butlast (der_signature R S ht))
      = Some (0x02 # of_nat (length R) # R @ (0x02 # of_nat (length S) # S @ []))"
    using short_length [of "4 + length R + length S"] assms
    unfolding sig lax_sequence_def by simp
  moreover have "length R < 128" "length S < 128" using assms by auto
  ultimately show ?thesis
    unfolding parse_der_lax_def
    by (simp add: lax_integer_short lax_integer_short [of S "[]", simplified] lax_field_eq be32_def
      Let_def split: prod.splits)
qed

section \<open>Extended keys are read back\<close>

definition ext_ok :: "CExtPubKey \<Rightarrow> bool" where
  "ext_ok x \<longleftrightarrow> length (vchFingerprint x) = 4 \<and> length (chaincode x) = 32
     \<and> length (ext_pubkey x) = 33 \<and> pk_size (ext_pubkey x) = 33"

text \<open>A signature that the strict encoding rule of the interpreter accepts is, without its
  hash type byte, always accepted by the lax parser, and what the parser hands to the curve
  library are the two integers of the signature as 32 big-endian bytes each; where a number
  does not fit 32 bytes, or the library refuses the pair, the result is the invalid signature
  of all zeros.\<close>

theorem parse_der_lax_of_strict:
  assumes "IsValidSignatureEncoding sig"
  shows "\<exists>R S. sig = der_signature R S (last sig) \<and> der_integer R \<and> der_integer S \<and>
    parse_der_lax ec (butlast sig) =
      Some (let invalid = fst (sig_parse_compact ec (replicate 64 0));
                r = le_val (rev R); s = le_val (rev S) in
            if r < 256 ^ 32 \<and> s < 256 ^ 32
            then (case sig_parse_compact ec (be32 r @ be32 s) of (x, fine) \<Rightarrow> if fine then x else invalid)
            else invalid)"
proof -
  note d = der_signature_of_valid [OF assms]
  define R where "R = take (unat (sig ! 3)) (drop 4 sig)"
  define S where "S = take (unat (sig ! (5 + unat (sig ! 3)))) (drop (6 + unat (sig ! 3)) sig)"
  have "sig = der_signature R S (last sig)" "der_integer R" "der_integer S"
    "length R + length S \<le> 66"
    using d by (auto simp: R_def S_def)
  then show ?thesis using parse_der_lax_der [of R S ec "last sig"] by metis
qed

definition concat_secp :: "(unit, bytes, unit) secp" where
  "concat_secp =
     \<lparr> ec_pubkey_parse = (\<lambda>_. Some ()), ec_pubkey_serialize = (\<lambda>_ _. []), ec_pubkey_tweak_add = (\<lambda>_ _. None),
       sig_parse_compact = (\<lambda>b. (b, True)), sig_normalize = (\<lambda>b. (b, False)), sig_verify = (\<lambda>_ _ _. True),
       rec_parse_compact = (\<lambda>_ _. None), rec_recover = (\<lambda>_ _. None) \<rparr>"

theorem parse_der_lax_of_strict_witness:
  "\<exists>R S. [0x30, 6, 2, 1, 5, 2, 1, 7, 1] = der_signature R S (last [0x30, 6, 2, 1, 5, 2, 1, 7, 1])
    \<and> der_integer R \<and> der_integer S \<and>
    parse_der_lax concat_secp (butlast [0x30, 6, 2, 1, 5, 2, 1, 7, 1]) =
      Some (let invalid = fst (sig_parse_compact concat_secp (replicate 64 0));
                r = le_val (rev R); s = le_val (rev S) in
            if r < 256 ^ 32 \<and> s < 256 ^ 32
            then (case sig_parse_compact concat_secp (be32 r @ be32 s) of (x, fine) \<Rightarrow> if fine then x else invalid)
            else invalid)"
  by (rule parse_der_lax_of_strict) (simp add: IsValidSignatureEncoding_def)

lemma ReadBE32_split:
  "push_bit 24 (ucast (ucast (drop_bit 24 n) :: u8)) OR push_bit 16 (ucast (ucast (drop_bit 16 n) :: u8))
    OR push_bit 8 (ucast (ucast (drop_bit 8 n) :: u8)) OR ucast (ucast n :: u8) = (n :: u32)"
  using Read_Write_BE(1) [of n] by (simp add: ReadBE32_def WriteBE32_def)

text \<open>What \<open>Encode\<close> writes, \<open>Decode\<close> reads back into any target, and so do the serializers.\<close>

lemma ext_Decode_Encode:
  assumes "ext_ok x" "length (ext_pubkey y) \<le> 33"
  shows "\<exists>code. ext_Encode x = Some code \<and> length code = 74 \<and> ext_Decode y code = x"
proof -
  note ok = assms(1) [unfolded ext_ok_def]
  let ?n = "nChild x"
  define code where "code = [nDepth x] @ vchFingerprint x
    @ [ucast (drop_bit 24 ?n), ucast (drop_bit 16 ?n), ucast (drop_bit 8 ?n), ucast ?n]
    @ chaincode x @ ext_pubkey x"
  have e: "ext_Encode x = Some code" using ok by (simp add: ext_Encode_def code_def)
  have parts: "code ! 0 = nDepth x" "take 4 (drop 1 code) = vchFingerprint x"
    "take 32 (drop 9 code) = chaincode x" "take 33 (drop 41 code) = ext_pubkey x"
    "drop 5 code = [ucast (drop_bit 24 ?n), ucast (drop_bit 16 ?n), ucast (drop_bit 8 ?n), ucast ?n]
      @ chaincode x @ ext_pubkey x" "length code = 74"
    using ok by (simp_all add: code_def)
  have n: "code ! 5 = ucast (drop_bit 24 ?n)" "code ! 6 = ucast (drop_bit 16 ?n)"
    "code ! 7 = ucast (drop_bit 8 ?n)" "code ! 8 = ucast ?n"
    using parts(5,6) nth_drop [of 5 code 0] nth_drop [of 5 code 1] nth_drop [of 5 code 2]
      nth_drop [of 5 code 3] by (simp_all add: numeral_eq_Suc)
  have "CPubKey_Set (ext_pubkey y) (ext_pubkey x) = ext_pubkey x"
    using ok assms(2) by (auto simp: CPubKey_Set_def pk_size_def)
  then have "ext_Decode y code = x"
    unfolding ext_Decode_def parts n ReadBE32_split by (cases x) simp
  then show ?thesis using e parts(6) by blast
qed

lemma unser_ser_ext:
  assumes "ext_ok x" "length (ext_pubkey y) \<le> 33"
  shows "\<exists>s. ser_ext x = Some s \<and> unser_ext y (s @ r) = Inr (x, r)"
proof -
  obtain code where c: "ext_Encode x = Some code" "length code = 74" "ext_Decode y code = x"
    using ext_Decode_Encode [OF assms] by blast
  have "ReadCompactSize (WriteCompactSize 74 @ t) = Inr (74, t)" for t
    using csize.roundtrip [of 74 t] by (simp add: MAX_SIZE_def)
  then show ?thesis using c by (simp add: ser_ext_def unser_ext_def rbind_def)
qed

text \<open>A key that is set from bytes of the right length is those bytes; the others are invalid.\<close>

lemma CPubKey_of_valid:
  "CPubKey_IsValid (CPubKey_of p) \<longleftrightarrow> p \<noteq> [] \<and> length p = GetLen (p ! 0)"
  "CPubKey_IsValid (CPubKey_of p) \<Longrightarrow> CPubKey_of p = p \<and> Raw p = p"
  by (auto simp: CPubKey_IsValid_def CPubKey_of_def CPubKey_Set_def pk_size_def Invalidate_def
      GetLen_def Raw_def split: if_splits)

end
