(* ===== verification/Coins.thy ===== *)
theory Coins
  imports Pubkey
begin

unbundle bit_operations_syntax

text \<open>
  Unspent outputs and undo data: \<open>src/compressor.h\<close>, \<open>src/compressor.cpp\<close>, \<open>src/undo.h\<close>, and the
  class \<open>CCoins\<close> of \<open>src/coins.h\<close> and \<open>src/coins.cpp\<close>.  Amounts and scripts have a compact form
  on disk; \<open>CCoins\<close> is what is left of a transaction while outputs of it are unspent, and
  \<open>CTxInUndo\<close> what is needed to bring a spent output back.  The lemmas show that each of these
  forms is read back as it was written.  The functions of secp256k1 are the parameter \<open>ec\<close>.
\<close>

section \<open>Amounts\<close>

text \<open>\<open>while (((n % 10) == 0) && e < 9)\<close>: the quotient and the number of divisions; the
  first argument is \<open>9 - e\<close>.\<close>

fun strip_tens :: "nat \<Rightarrow> u64 \<Rightarrow> u64 \<Rightarrow> u64 \<times> u64" where
  "strip_tens 0 n e = (n, e)"
| "strip_tens (Suc k) n e = (if n mod 10 = 0 then strip_tens k (n div 10) (e + 1) else (n, e))"

text \<open>\<open>None\<close> is a failed assertion.\<close>

definition CompressAmount :: "u64 \<Rightarrow> u64 option" where
  "CompressAmount n =
     (if n = 0 then Some 0
      else let (n, e) = strip_tens 9 n 0 in
        if e < 9 then
          let d = n mod 10 in
          if \<not> (1 \<le> d \<and> d \<le> 9) then None
          else let n = n div 10 in Some (1 + (n * 9 + d - 1) * 10 + e)
        else Some (1 + (n - 1) * 10 + 9))"

definition DecompressAmount :: "u64 \<Rightarrow> u64" where
  "DecompressAmount x =
     (if x = 0 then 0
      else let x = x - 1; e = x mod 10; x = x div 10;
               n = (if e < 9 then let d = x mod 9 + 1; x = x div 9 in x * 10 + d else x + 1)
           in ((\<lambda>n. n * 10) ^^ unat e) n)"

section \<open>Scripts\<close>

definition IsToKeyID :: "bytes \<Rightarrow> bytes option" where
  "IsToKeyID s =
     (if length s = 25 \<and> s ! 0 = OP_DUP \<and> s ! 1 = OP_HASH160 \<and> s ! 2 = 20 \<and> s ! 23 = OP_EQUALVERIFY
         \<and> s ! 24 = OP_CHECKSIG
      then Some (take 20 (drop 3 s)) else None)"

definition IsToScriptID :: "bytes \<Rightarrow> bytes option" where
  "IsToScriptID s =
     (if length s = 23 \<and> s ! 0 = OP_HASH160 \<and> s ! 1 = 20 \<and> s ! 22 = OP_EQUAL
      then Some (take 20 (drop 2 s)) else None)"

definition IsToPubKey :: "('p, 's, 'r) secp \<Rightarrow> bytes \<Rightarrow> CPubKey option" where
  "IsToPubKey ec s =
     (if length s = 35 \<and> s ! 0 = 33 \<and> s ! 34 = OP_CHECKSIG \<and> (s ! 1 = 0x02 \<or> s ! 1 = 0x03)
      then Some (CPubKey_Set CPubKey_new (take 33 (drop 1 s)))
      else if length s = 67 \<and> s ! 0 = 65 \<and> s ! 66 = OP_CHECKSIG \<and> s ! 1 = 0x04
      then let pubkey = CPubKey_Set CPubKey_new (take 65 (drop 1 s)) in
        if IsFullyValid ec pubkey then Some pubkey else None
      else None)"

definition Compress :: "('p, 's, 'r) secp \<Rightarrow> bytes \<Rightarrow> bytes option" where
  "Compress ec s =
     (case IsToKeyID s of
        Some keyID \<Rightarrow> Some (0x00 # keyID)
      | None \<Rightarrow> (case IsToScriptID s of
          Some scriptID \<Rightarrow> Some (0x01 # scriptID)
        | None \<Rightarrow> (case IsToPubKey ec s of
            Some pubkey \<Rightarrow>
              let out32 = take 32 (drop 1 pubkey) in
              if pubkey ! 0 = 0x02 \<or> pubkey ! 0 = 0x03 then Some (pubkey ! 0 # out32)
              else if pubkey ! 0 = 0x04 then Some ((0x04 OR (pubkey ! 64 AND 0x01)) # out32)
              else None
          | None \<Rightarrow> None)))"

definition GetSpecialSize :: "u32 \<Rightarrow> nat" where
  "GetSpecialSize nSize =
     (if nSize = 0 \<or> nSize = 1 then 20
      else if nSize = 2 \<or> nSize = 3 \<or> nSize = 4 \<or> nSize = 5 then 32
      else 0)"

datatype decompressed = Script_set bytes | Script_kept | Key_size_wrong

text \<open>\<open>Script_kept\<close> is the result false, which leaves the target as it was;
  \<open>Key_size_wrong\<close> is the failed assertion on the size of the key.\<close>

definition Decompress :: "('p, 's, 'r) secp \<Rightarrow> u32 \<Rightarrow> bytes \<Rightarrow> decompressed" where
  "Decompress ec nSize inp =
     (if nSize = 0x00 then
        Script_set ([OP_DUP, OP_HASH160, 20] @ take 20 inp @ [OP_EQUALVERIFY, OP_CHECKSIG])
      else if nSize = 0x01 then
        Script_set ([OP_HASH160, 20] @ take 20 inp @ [OP_EQUAL])
      else if nSize = 0x02 \<or> nSize = 0x03 then
        Script_set ([33, ucast nSize] @ take 32 inp @ [OP_CHECKSIG])
      else if nSize = 0x04 \<or> nSize = 0x05 then
        (case pk_Decompress ec (CPubKey_of (ucast (nSize - 2) # take 32 inp)) of
           (pubkey, fine) \<Rightarrow>
             if \<not> fine then Script_kept
             else if pk_size pubkey \<noteq> 65 then Key_size_wrong
             else Script_set ([65] @ take 65 pubkey @ [OP_CHECKSIG]))
      else Script_kept)"

definition nSpecialScripts :: u32 where [simp]: "nSpecialScripts = 6"

definition ser_script :: "('p, 's, 'r) secp \<Rightarrow> bytes \<Rightarrow> bytes" where
  "ser_script ec s =
     (case Compress ec s of
        Some compr \<Rightarrow> compr
      | None \<Rightarrow> WriteVarInt (of_nat (length s) + nSpecialScripts) @ s)"

definition script_GetSerializeSize :: "('p, 's, 'r) secp \<Rightarrow> bytes \<Rightarrow> nat" where
  "script_GetSerializeSize ec s =
     (case Compress ec s of
        Some compr \<Rightarrow> length compr
      | None \<Rightarrow> length s + GetSizeOfVarInt (of_nat (length s) + nSpecialScripts :: u32))"

text \<open>Reading into a target that holds the script \<open>s0\<close>.  The failed assertion ends the
  process; it is the error \<open>Bad_data\<close> here.\<close>

definition unser_script :: "('p, 's, 'r) secp \<Rightarrow> bytes \<Rightarrow> bytes reader" where
  "unser_script ec s0 = rbind (ReadVarInt :: u32 reader) (\<lambda>nSize.
     if nSize < nSpecialScripts then
       rbind (read_bytes (GetSpecialSize nSize)) (\<lambda>vch.
         case Decompress ec nSize vch of
           Script_set s \<Rightarrow> rreturn s
         | Script_kept \<Rightarrow> rreturn s0
         | Key_size_wrong \<Rightarrow> rthrow Bad_data)
     else read_bytes (unat (nSize - nSpecialScripts)))"

text \<open>\<open>CTxOutCompressor\<close>; the amount's sign bit takes part as bit 63.\<close>

definition ser_ctxout :: "('p, 's, 'r) secp \<Rightarrow> CTxOut \<Rightarrow> bytes" where
  "ser_ctxout ec txo =
     (case CompressAmount (nValue txo) of
        None \<Rightarrow> []
      | Some nVal \<Rightarrow> WriteVarInt nVal @ ser_script ec (scriptPubKey txo))"

definition unser_ctxout :: "('p, 's, 'r) secp \<Rightarrow> CTxOut \<Rightarrow> CTxOut reader" where
  "unser_ctxout ec txo = rbind (ReadVarInt :: u64 reader) (\<lambda>nVal.
     rbind (unser_script ec (scriptPubKey txo)) (\<lambda>s.
       rreturn (txo\<lparr> nValue := DecompressAmount nVal, scriptPubKey := s \<rparr>)))"

section \<open>Undo data\<close>

text \<open>\<open>VARINT\<close> of a signed \<open>int\<close>: the comparison with \<open>0x7F\<close> is signed, so a negative number
  is written as one byte of its low seven bits.\<close>

definition WriteVarInt_int :: "u32 \<Rightarrow> bytes" where
  "WriteVarInt_int n = (if n <=s 0x7f then [ucast (n AND 0x7f)] else WriteVarInt n)"

definition GetSizeOfVarInt_int :: "u32 \<Rightarrow> nat" where
  "GetSizeOfVarInt_int n = (if n <=s 0x7f then 1 else GetSizeOfVarInt n)"

record CTxInUndo =
  u_txout :: CTxOut
  u_fCoinBase :: bool
  u_fCoinStake :: bool
  u_nHeight :: u32
  u_nVersion :: u32

definition CTxInUndo_new :: CTxInUndo where
  "CTxInUndo_new = \<lparr> u_txout = CTxOut_null, u_fCoinBase = False, u_fCoinStake = False,
     u_nHeight = 0, u_nVersion = 0 \<rparr>"

definition CTxInUndo_of :: "CTxOut \<Rightarrow> CTxInUndo" where
  "CTxInUndo_of txo = CTxInUndo_new\<lparr> u_txout := txo \<rparr>"

definition undo_code :: "CTxInUndo \<Rightarrow> u32" where
  "undo_code u = u_nHeight u * 4 + (if u_fCoinBase u then 2 else 0) + (if u_fCoinStake u then 1 else 0)"

definition ser_undo :: "('p, 's, 'r) secp \<Rightarrow> CTxInUndo \<Rightarrow> bytes" where
  "ser_undo ec u = WriteVarInt (undo_code u)
     @ (if u_nHeight u > 0 then WriteVarInt_int (u_nVersion u) else [])
     @ ser_ctxout ec (u_txout u)"

definition ctxout_size :: "('p, 's, 'r) secp \<Rightarrow> CTxOut \<Rightarrow> nat" where
  "ctxout_size ec txo =
     (case CompressAmount (nValue txo) of
        None \<Rightarrow> 0
      | Some nVal \<Rightarrow> GetSizeOfVarInt nVal + script_GetSerializeSize ec (scriptPubKey txo))"

definition undo_GetSerializeSize :: "('p, 's, 'r) secp \<Rightarrow> CTxInUndo \<Rightarrow> nat" where
  "undo_GetSerializeSize ec u = GetSizeOfVarInt (undo_code u)
     + (if u_nHeight u > 0 then GetSizeOfVarInt_int (u_nVersion u) else 0)
     + ctxout_size ec (u_txout u)"

text \<open>Reading into an undo record \<open>u0\<close>, which keeps its version when the height is 0.\<close>

definition unser_undo :: "('p, 's, 'r) secp \<Rightarrow> CTxInUndo \<Rightarrow> CTxInUndo reader" where
  "unser_undo ec u0 = rbind (ReadVarInt :: u32 reader) (\<lambda>nCode.
     let u = u0\<lparr> u_nHeight := drop_bit 2 nCode, u_fCoinBase := nCode AND 2 \<noteq> 0,
                 u_fCoinStake := nCode AND 1 \<noteq> 0 \<rparr> in
     rbind (if u_nHeight u > 0 then ReadVarInt else rreturn (u_nVersion u0)) (\<lambda>ver.
     rbind (unser_ctxout ec (u_txout u0)) (\<lambda>txo.
       rreturn (u\<lparr> u_nVersion := ver, u_txout := txo \<rparr>))))"

text \<open>\<open>CTxUndo\<close> is the vector \<open>vprevout\<close>; \<open>sizeof(CTxInUndo)\<close> is 64.\<close>

definition ser_txundo :: "('p, 's, 'r) secp \<Rightarrow> CTxInUndo list \<Rightarrow> bytes" where
  "ser_txundo ec = ser_vec (ser_undo ec)"

definition unser_txundo :: "('p, 's, 'r) secp \<Rightarrow> CTxInUndo list reader" where
  "unser_txundo ec = unser_vec 78124 (unser_undo ec CTxInUndo_new)"

section \<open>The class CCoins\<close>

record CCoins =
  fCoinBase :: bool
  fCoinStake :: bool
  c_vout :: "CTxOut list"
  c_nHeight :: u32
  c_nVersion :: u32

definition CCoins_new :: CCoins where
  "CCoins_new = \<lparr> fCoinBase = False, fCoinStake = False, c_vout = [], c_nHeight = 0, c_nVersion = 0 \<rparr>"

definition CCoins_Clear :: "CCoins \<Rightarrow> CCoins" where
  "CCoins_Clear c = c\<lparr> fCoinBase := False, fCoinStake := False, c_vout := [], c_nHeight := 0,
     c_nVersion := 0 \<rparr>"

text \<open>\<open>while (vout.size() > 0 && vout.back().IsNull()) vout.pop_back()\<close>, on the reversed list.\<close>

fun pop_nulls :: "CTxOut list \<Rightarrow> CTxOut list" where
  "pop_nulls [] = []"
| "pop_nulls (back # os) = (if CTxOut_IsNull back then pop_nulls os else back # os)"

definition Cleanup :: "CCoins \<Rightarrow> CCoins" where
  "Cleanup c = c\<lparr> c_vout := rev (pop_nulls (rev (c_vout c))) \<rparr>"

definition CTxOut_SetNull :: "CTxOut \<Rightarrow> CTxOut" where
  "CTxOut_SetNull txo = CTxOut_null"

definition ClearUnspendable :: "CCoins \<Rightarrow> CCoins" where
  "ClearUnspendable c = Cleanup (c\<lparr> c_vout :=
     map (\<lambda>txo. if IsUnspendable (scriptPubKey txo) then CTxOut_SetNull txo else txo) (c_vout c) \<rparr>)"

definition FromTx :: "CTransaction \<Rightarrow> u32 \<Rightarrow> CCoins \<Rightarrow> CCoins" where
  "FromTx tx nHeightIn c = ClearUnspendable (c\<lparr> fCoinBase := IsCoinBase tx, fCoinStake := IsCoinStake tx,
     c_vout := vout tx, c_nHeight := nHeightIn, c_nVersion := nVersion tx \<rparr>)"

definition CCoins_of :: "CTransaction \<Rightarrow> u32 \<Rightarrow> CCoins" where
  "CCoins_of tx nHeightIn = FromTx tx nHeightIn CCoins_new"

definition IsPruned :: "CCoins \<Rightarrow> bool" where
  "IsPruned c \<longleftrightarrow> \<not> list_ex (\<lambda>txo. \<not> CTxOut_IsNull txo) (c_vout c)"

definition CTxOut_eq :: "CTxOut \<Rightarrow> CTxOut \<Rightarrow> bool" where
  "CTxOut_eq a b \<longleftrightarrow> nValue a = nValue b \<and> scriptPubKey a = scriptPubKey b \<and> nRounds a = nRounds b"

definition CCoins_eq :: "CCoins \<Rightarrow> CCoins \<Rightarrow> bool" where
  "CCoins_eq a b \<longleftrightarrow> (if IsPruned a \<and> IsPruned b then True
     else fCoinBase a = fCoinBase b \<and> fCoinStake a = fCoinStake b \<and> c_nHeight a = c_nHeight b
        \<and> c_nVersion a = c_nVersion b \<and> list_all2 CTxOut_eq (c_vout a) (c_vout b))"

definition IsAvailable :: "CCoins \<Rightarrow> nat \<Rightarrow> bool" where
  "IsAvailable c nPos \<longleftrightarrow> nPos < length (c_vout c) \<and> \<not> CTxOut_IsNull (c_vout c ! nPos)
     \<and> \<not> CTxOut_IsZerocoinMint (c_vout c ! nPos)"

text \<open>\<open>Spend\<close>: the result, the coins and the undo record; \<open>u0\<close> is what the undo record held.\<close>

definition Spend :: "COutPoint \<Rightarrow> CTxInUndo \<Rightarrow> CCoins \<Rightarrow> bool \<times> CCoins \<times> CTxInUndo" where
  "Spend out1 u0 c =
     (let n = unat (op_n out1) in
      if n \<ge> length (c_vout c) then (False, c, u0)
      else if CTxOut_IsNull (c_vout c ! n) then (False, c, u0)
      else let undo = CTxInUndo_of (c_vout c ! n);
               c = Cleanup (c\<lparr> c_vout := (c_vout c)[n := CTxOut_SetNull (c_vout c ! n)] \<rparr>)
           in (True, c,
               if length (c_vout c) = 0
               then undo\<lparr> u_nHeight := c_nHeight c, u_fCoinBase := fCoinBase c,
                          u_fCoinStake := fCoinStake c, u_nVersion := c_nVersion c \<rparr>
               else undo))"

definition Spend_pos :: "u32 \<Rightarrow> CCoins \<Rightarrow> bool \<times> CCoins" where
  "Spend_pos nPos c =
     (case Spend \<lparr> op_hash = bu_zero 8, op_n = nPos \<rparr> CTxInUndo_new c of (ret, c, _) \<Rightarrow> (ret, c))"

text \<open>The availability mask: a byte for each eight outputs from the third on.  \<open>mask_bytes\<close> are
  the bytes \<open>Serialize\<close> would write for all of them.\<close>

definition mask_byte :: "bool list \<Rightarrow> u8" where
  "mask_byte av = foldl (\<lambda>chAvail (i, a). if a then chAvail OR push_bit i 1 else chAvail) 0
     (zip [0..<8] av)"

fun mask_bytes :: "bool list \<Rightarrow> bytes" where
  "mask_bytes [] = []"
| "mask_bytes (a # av) = mask_byte (take 8 (a # av)) # mask_bytes (drop 8 (a # av))"

text \<open>The loop of \<open>CalcMaskSize\<close> with its counters \<open>b\<close>, \<open>nLastUsedByte\<close> and \<open>nNonzeroBytes\<close>.\<close>

fun mask_size_loop :: "bool list \<Rightarrow> nat \<Rightarrow> nat \<Rightarrow> nat \<Rightarrow> nat \<times> nat" where
  "mask_size_loop [] b nLast nNonzero = (nLast, nNonzero)"
| "mask_size_loop (a # av) b nLast nNonzero =
     (let fZero = (\<not> list_ex (\<lambda>x. x) (take 8 (a # av))) in
      if \<not> fZero then mask_size_loop (drop 8 (a # av)) (b + 1) (b + 1) (nNonzero + 1)
      else mask_size_loop (drop 8 (a # av)) (b + 1) nLast nNonzero)"

definition avail :: "CCoins \<Rightarrow> bool list" where
  "avail c = map (\<lambda>txo. \<not> CTxOut_IsNull txo) (c_vout c)"

definition CalcMaskSize :: "CCoins \<Rightarrow> nat \<times> nat" where
  "CalcMaskSize c = mask_size_loop (drop 2 (avail c)) 0 0 0"

text \<open>\<open>nCode\<close>; the factor is 16 in \<open>Serialize\<close> and 8 in \<open>GetSerializeSize\<close>.\<close>

definition fFirst :: "CCoins \<Rightarrow> bool" where
  "fFirst c \<longleftrightarrow> length (c_vout c) > 0 \<and> \<not> CTxOut_IsNull (c_vout c ! 0)"

definition fSecond :: "CCoins \<Rightarrow> bool" where
  "fSecond c \<longleftrightarrow> length (c_vout c) > 1 \<and> \<not> CTxOut_IsNull (c_vout c ! 1)"

definition coins_code :: "u32 \<Rightarrow> nat \<Rightarrow> CCoins \<Rightarrow> u32" where
  "coins_code factor nMaskCode c =
     factor * (of_nat nMaskCode - (if fFirst c \<or> fSecond c then 0 else 1)) + (if fCoinBase c then 1 else 0)
     + (if fCoinStake c then 2 else 0) + (if fFirst c then 4 else 0) + (if fSecond c then 8 else 0)"

definition CCoins_GetSerializeSize :: "('p, 's, 'r) secp \<Rightarrow> CCoins \<Rightarrow> nat option" where
  "CCoins_GetSerializeSize ec c =
     (case CalcMaskSize c of (nMaskSize, nMaskCode) \<Rightarrow>
       if \<not> (fFirst c \<or> fSecond c \<or> nMaskCode \<noteq> 0) then None
       else Some (GetSizeOfVarInt_int (c_nVersion c) + GetSizeOfVarInt (coins_code 8 nMaskCode c)
         + nMaskSize
         + sum_list (map (ctxout_size ec) (filter (\<lambda>txo. \<not> CTxOut_IsNull txo) (c_vout c)))
         + GetSizeOfVarInt_int (c_nHeight c)))"

definition ser_coins :: "('p, 's, 'r) secp \<Rightarrow> CCoins \<Rightarrow> bytes option" where
  "ser_coins ec c =
     (case CalcMaskSize c of (nMaskSize, nMaskCode) \<Rightarrow>
       if \<not> (fFirst c \<or> fSecond c \<or> nMaskCode \<noteq> 0) then None
       else Some (WriteVarInt_int (c_nVersion c) @ WriteVarInt (coins_code 16 nMaskCode c)
         @ take nMaskSize (mask_bytes (drop 2 (avail c)))
         @ concat (map (ser_ctxout ec) (filter (\<lambda>txo. \<not> CTxOut_IsNull txo) (c_vout c)))
         @ WriteVarInt_int (c_nHeight c)))"

text \<open>\<open>while (nMaskCode > 0)\<close>: every byte is eight entries of \<open>vAvail\<close>.\<close>

definition byte_avail :: "u8 \<Rightarrow> bool list" where
  "byte_avail chAvail = map (\<lambda>p. chAvail AND push_bit p 1 \<noteq> 0) [0..<8]"

fun read_mask :: "u32 \<Rightarrow> bool list \<Rightarrow> bool list reader" where
  "read_mask nMaskCode vAvail [] = (if nMaskCode > 0 then Inl End_of_data else Inr (vAvail, []))"
| "read_mask nMaskCode vAvail (chAvail # s) =
     (if nMaskCode > 0
      then read_mask (if chAvail \<noteq> 0 then nMaskCode - 1 else nMaskCode) (vAvail @ byte_avail chAvail) s
      else Inr (vAvail, chAvail # s))"

fun read_outs :: "('p, 's, 'r) secp \<Rightarrow> bool list \<Rightarrow> CTxOut list \<Rightarrow> CTxOut list reader" where
  "read_outs ec [] os = rreturn os"
| "read_outs ec (a # av) os =
     (if a then rbind (unser_ctxout ec CTxOut_null) (\<lambda>txo. read_outs ec av (os @ [txo]))
      else read_outs ec av (os @ [CTxOut_null]))"

definition unser_coins :: "('p, 's, 'r) secp \<Rightarrow> CCoins reader" where
  "unser_coins ec = rbind (ReadVarInt :: u32 reader) (\<lambda>ver. rbind (ReadVarInt :: u32 reader) (\<lambda>nCode.
     let vAvail = [nCode AND 4 \<noteq> 0, nCode AND 8 \<noteq> 0];
         nMaskCode = nCode div 16 + (if nCode AND 12 \<noteq> 0 then 0 else 1) in
     rbind (read_mask nMaskCode vAvail) (\<lambda>vAvail. rbind (read_outs ec vAvail []) (\<lambda>os.
     rbind (ReadVarInt :: u32 reader) (\<lambda>height.
       rreturn (Cleanup \<lparr> fCoinBase = (nCode AND 1 \<noteq> 0), fCoinStake = (nCode AND 2 \<noteq> 0),
         c_vout = os, c_nHeight = height, c_nVersion = ver \<rparr>))))))"

section \<open>Amounts are read back\<close>

lemma strip_tens_spec:
  "\<exists>j \<le> k. strip_tens k n e = (of_nat (unat n div 10 ^ j), e + of_nat j)
    \<and> unat n mod 10 ^ j = 0 \<and> (j < k \<longrightarrow> unat n div 10 ^ j mod 10 \<noteq> 0)"
proof (induction k n e rule: strip_tens.induct)
  case (1 n e)
  show ?case by (simp add: word_unat_eq_iff)
next
  case (2 k n e)
  show ?case
  proof (cases "n mod 10 = 0")
    case True
    then have m: "unat n mod 10 = 0" by (simp add: word_unat_eq_iff unat_mod)
    from "2.IH" [OF True] obtain j where j: "j \<le> k"
      "strip_tens k (n div 10) (e + 1) = (of_nat (unat (n div 10) div 10 ^ j), e + 1 + of_nat j)"
      "unat (n div 10) mod 10 ^ j = 0" "j < k \<longrightarrow> unat (n div 10) div 10 ^ j mod 10 \<noteq> 0"
      by (elim exE conjE) (rule that; assumption)
    have d: "unat (n div 10) = unat n div 10" by (simp add: unat_div)
    have "unat n div 10 div 10 ^ j = unat n div 10 ^ Suc j" by (simp add: div_mult2_eq)
    moreover have "unat n mod 10 ^ Suc j = 0"
      using m j(3) mod_mult2_eq [of "unat n" 10 "10 ^ j"] by (simp add: d)
    moreover have "strip_tens (Suc k) n e = (of_nat (unat n div 10 div 10 ^ j), e + of_nat (Suc j))"
      using j(2) True by (simp add: d add.assoc)
    moreover have "Suc j < Suc k \<longrightarrow> unat n div 10 div 10 ^ j mod 10 \<noteq> 0" using j(4) by (simp add: d)
    ultimately show ?thesis using j(1) by (metis Suc_le_mono)
  next
    case False
    then have "unat n mod 10 \<noteq> 0" by (simp add: word_unat_eq_iff unat_mod)
    then show ?thesis using False by (intro exI [of _ 0]) (simp add: word_unat_eq_iff)
  qed
qed

lemma times_ten: "((\<lambda>n. n * 10) ^^ k) (n :: u64) = n * 10 ^ k"
  by (induction k) (simp_all add: algebra_simps)

lemma DecompressAmount_of_nat:
  assumes "X < 18446744073709551616" "X > 0"
  shows "DecompressAmount (of_nat X) =
    (let e = (X - 1) mod 10; Y = (X - 1) div 10 in
     of_nat ((if e < 9 then Y div 9 * 10 + (Y mod 9 + 1) else Y + 1) * 10 ^ e))"
proof -
  let ?x = "of_nat X :: u64"
  have x: "unat ?x = X" using assms by simp
  have nz: "?x \<noteq> 0" using assms by (simp add: word_unat_eq_iff)
  have x1: "?x - 1 = of_nat (X - 1)" using assms(2) by (simp add: of_nat_diff)
  have u1: "unat (of_nat (X - 1) :: u64) = X - 1"
    using assms by (simp only: unat_u64_of_nat) simp
  have e: "(?x - 1) mod 10 = of_nat ((X - 1) mod 10)"
    unfolding x1 by (simp only: word_unat_eq_iff unat_mod u1) (use assms in simp)
  have y: "(?x - 1) div 10 = of_nat ((X - 1) div 10)"
    using assms(1) unfolding x1 by (simp add: word_unat_eq_iff unat_div u1)
  have uy: "unat (of_nat ((X - 1) div 10) :: u64) = (X - 1) div 10" using assms by simp
  have y9: "(of_nat ((X - 1) div 10) :: u64) div 9 = of_nat ((X - 1) div 10 div 9)"
    "(of_nat ((X - 1) div 10) :: u64) mod 9 = of_nat ((X - 1) div 10 mod 9)"
    using assms(1) by (simp_all add: word_unat_eq_iff unat_div unat_mod uy)
  have ue: "unat (of_nat ((X - 1) mod 10) :: u64) = (X - 1) mod 10" by simp
  have e9: "(of_nat ((X - 1) mod 10) :: u64) < 9 \<longleftrightarrow> (X - 1) mod 10 < 9"
    by (simp add: word_less_nat_alt)
  show ?thesis
    unfolding DecompressAmount_def Let_def if_not_P [OF nz] e y y9 ue e9 times_ten
    by (simp add: ac_simps)
qed

lemma CompressAmount_of_nat:
  assumes "unat n \<noteq> 0"
  shows "\<exists>j \<le> 9. unat n mod 10 ^ j = 0 \<and> (j < 9 \<longrightarrow> unat n div 10 ^ j mod 10 \<noteq> 0) \<and>
    CompressAmount n = Some (of_nat (let q = unat n div 10 ^ j in
      if j < 9 then 1 + (q div 10 * 9 + q mod 10 - 1) * 10 + j else 1 + (q - 1) * 10 + 9))"
proof -
  obtain j where j: "j \<le> 9" "strip_tens 9 n 0 = (of_nat (unat n div 10 ^ j), of_nat j)"
    "unat n mod 10 ^ j = 0" "j < 9 \<longrightarrow> unat n div 10 ^ j mod 10 \<noteq> 0"
    using strip_tens_spec [of 9 n 0, unfolded add_0] by (elim exE conjE) (rule that; assumption)
  define q where "q = unat n div 10 ^ j"
  have qb: "q < 18446744073709551616" using le_less_trans [OF div_le_dividend unat_u64_less] by (simp add: q_def)
  then have uq: "unat (of_nat q :: u64) = q" by simp
  have q0: "q > 0" using j(3) assms by (simp add: q_def div_greater_zero_iff dvd_imp_le mod_eq_0_iff_dvd)
  have n0: "n \<noteq> 0" using assms by (simp add: word_unat_eq_iff)
  have j9: "(of_nat j :: u64) < 9 \<longleftrightarrow> j < 9" using j(1) by (simp add: word_less_nat_alt)
  have d: "(of_nat q :: u64) mod 10 = of_nat (q mod 10)"
    "(of_nat q :: u64) div 10 = of_nat (q div 10)"
    using qb by (simp_all add: word_unat_eq_iff unat_mod unat_div)
  show ?thesis
  proof (cases "j < 9")
    case True
    then have q10: "q mod 10 \<noteq> 0" using j(4) by (simp add: q_def)
    have r: "1 \<le> (of_nat (q mod 10) :: u64)" "(of_nat (q mod 10) :: u64) \<le> 9"
      using q10 by (simp_all add: word_le_nat_alt)
    have "(of_nat (q div 10) * 9 + of_nat (q mod 10) - 1) * 10
        = (of_nat ((q div 10 * 9 + q mod 10 - 1) * 10) :: u64)"
      using q10 by (simp add: of_nat_diff)
    then show ?thesis
      using j True n0 q10 r d j9
      by (intro exI [of _ j]) (simp add: CompressAmount_def q_def [symmetric] Let_def)
  next
    case False
    have "(of_nat q :: u64) - 1 = of_nat (q - 1)" using q0 by (simp add: of_nat_diff)
    then have "CompressAmount n = Some (of_nat (1 + (q - 1) * 10 + 9))"
      using False n0 j(2) j9 by (simp add: CompressAmount_def q_def [symmetric])
    then show ?thesis
      using j False unfolding q_def by (intro exI [of _ j]) (simp only: Let_def if_False simp_thms)
  qed
qed

lemma amount_roundtrip:
  assumes "9 * unat n < 18446744073709551616"
  shows "\<exists>x. CompressAmount n = Some x \<and> DecompressAmount x = n"
proof (cases "unat n = 0")
  case True
  then have "n = 0" by (simp add: word_unat_eq_iff)
  then show ?thesis by (simp add: CompressAmount_def DecompressAmount_def)
next
  case False
  obtain j where j: "j \<le> 9" "unat n mod 10 ^ j = 0" "j < 9 \<longrightarrow> unat n div 10 ^ j mod 10 \<noteq> 0"
    and c: "CompressAmount n = Some (of_nat (let q = unat n div 10 ^ j in
      if j < 9 then 1 + (q div 10 * 9 + q mod 10 - 1) * 10 + j else 1 + (q - 1) * 10 + 9))"
    using CompressAmount_of_nat [OF False] by (elim exE conjE) (rule that; assumption)
  define q where "q = unat n div 10 ^ j"
  have n: "unat n = q * 10 ^ j" using j(2) by (simp add: q_def mod_0_imp_dvd)
  have q0: "q > 0" using n False by (cases q) auto
  have qn: "q \<le> unat n" by (simp add: n)
  show ?thesis
  proof (cases "j < 9")
    case True
    define m d where "m = q div 10" and "d = q mod 10"
    have q: "q = 10 * m + d" "1 \<le> d" "d \<le> 9" using j(3) True by (auto simp: m_def d_def q_def)
    define X where "X = 1 + (m * 9 + d - 1) * 10 + j"
    have X: "X - 1 = (m * 9 + (d - 1)) * 10 + j" "0 < X" using q by (auto simp: X_def)
    have Xm: "(X - 1) mod 10 = j" "(X - 1) div 10 = m * 9 + (d - 1)"
      using True unfolding X by (simp_all only: mod_mult_self3 div_mult_self3) simp_all
    have Y: "(m * 9 + (d - 1)) div 9 = m" "(m * 9 + (d - 1)) mod 9 + 1 = d"
      using q by (simp_all only: mod_mult_self3 div_mult_self3) simp_all
    have "X \<le> 9 * unat n"
    proof (cases "j = 0")
      case True
      then show ?thesis using q by (simp add: X_def n)
    next
      case False
      then have "(10 :: nat) ^ 1 \<le> 10 ^ j" by (intro power_increasing) auto
      then have "q * 10 \<le> unat n" unfolding n by simp
      then show ?thesis using q \<open>j < 9\<close> by (simp add: X_def)
    qed
    then have "X < 18446744073709551616" using assms by linarith
    then have "DecompressAmount (of_nat X) = of_nat ((m * 10 + d) * 10 ^ j)"
      using DecompressAmount_of_nat [of X] X(2) True unfolding Xm Y Let_def by simp
    moreover have "(m * 10 + d) * 10 ^ j = unat n" by (simp add: n q(1))
    ultimately have "DecompressAmount (of_nat X) = n" by simp
    moreover have "CompressAmount n = Some (of_nat X)"
      unfolding c q_def [symmetric] Let_def m_def [symmetric] d_def [symmetric] X_def if_P [OF True] ..
    ultimately show ?thesis by blast
  next
    case False
    then have j9: "j = 9" using j(1) by simp
    define X where "X = 1 + (q - 1) * 10 + 9"
    have X: "X - 1 = (q - 1) * 10 + 9" by (simp add: X_def)
    have Xm: "(X - 1) mod 10 = 9" "(X - 1) div 10 = q - 1" unfolding X by auto
    have "X \<le> 9 * unat n" using q0 by (simp add: X_def n j9)
    then have "X < 18446744073709551616" using assms by linarith
    then have "DecompressAmount (of_nat X) = of_nat ((q - 1 + 1) * 10 ^ 9)"
      using DecompressAmount_of_nat [of X] unfolding Xm Let_def by (simp add: X_def)
    also have "(q - 1 + 1) * 10 ^ 9 = unat n" using q0 by (simp add: n j9)
    finally have "DecompressAmount (of_nat X) = n" by simp
    moreover have "CompressAmount n = Some (of_nat X)"
      unfolding c q_def [symmetric] Let_def X_def if_not_P [OF False] ..
    ultimately show ?thesis by blast
  qed
qed

section \<open>Scripts are read back\<close>

text \<open>What the code relies on of secp256k1: the compressed form of a valid uncompressed key,
  that is its first coordinate behind a header with the parity of the second, parses, and the
  uncompressed form of that point is the key again.\<close>

definition decompresses :: "('p, 's, 'r) secp \<Rightarrow> bool" where
  "decompresses ec \<longleftrightarrow> (\<forall>k p. length k = 65 \<longrightarrow> k ! 0 = 4 \<longrightarrow> ec_pubkey_parse ec k = Some p \<longrightarrow>
     (\<exists>p'. ec_pubkey_parse ec ((2 OR (k ! 64 AND 1)) # take 32 (drop 1 k)) = Some p'
       \<and> ec_pubkey_serialize ec p' False = k))"

text \<open>A list of known length is a few bytes, a middle part and a few bytes.\<close>

lemma drop_step: "k < length s \<Longrightarrow> drop k s = s ! k # drop (k + 1) s"
  using Cons_nth_drop_Suc [of k s] by simp

lemma drop_part: "drop k s = take m (drop k s) @ drop (k + m) s"
  by (metis append_take_drop_id drop_drop add.commute)

lemma split_script:
  "length s = 25 \<Longrightarrow> s = [s ! 0, s ! 1, s ! 2] @ take 20 (drop 3 s) @ [s ! 23, s ! 24]"
  "length s = 23 \<Longrightarrow> s = [s ! 0, s ! 1] @ take 20 (drop 2 s) @ [s ! 22]"
  "length s = 35 \<Longrightarrow> s = [s ! 0] @ take 33 (drop 1 s) @ [s ! 34]"
  "length s = 67 \<Longrightarrow> s = [s ! 0] @ take 65 (drop 1 s) @ [s ! 66]"
  using drop_step [of 0 s] drop_step [of 1 s] drop_step [of 2 s] drop_part [of 3 s 20]
    drop_step [of 23 s] drop_step [of 24 s] drop_part [of 2 s 20] drop_step [of 22 s]
    drop_part [of 1 s 33] drop_step [of 34 s] drop_part [of 1 s 65] drop_step [of 66 s]
  by (simp_all add: numeral_2_eq_2 numeral_3_eq_3)

lemma ReadVarInt_byte: "b AND 0x80 = 0 \<Longrightarrow> ReadVarInt (b # r) = Inr (ucast (b AND 0x7f), r)"
  by (simp add: ReadVarInt_def Let_def)

lemma unser_special:
  "length v = GetSpecialSize (ucast c) \<Longrightarrow> c \<le> 5 \<Longrightarrow> Decompress ec (ucast c) v = Script_set s \<Longrightarrow>
    unser_script ec s0 (c # v @ r) = Inr (s, r)"
proof -
  assume a: "length v = GetSpecialSize (ucast c)" "c \<le> 5" "Decompress ec (ucast c) v = Script_set s"
  have c: "unat c \<le> 5" using a(2) by (simp add: word_le_nat_alt)
  have "c AND 0x80 = 0" using u8_sign(2) [of c] c by simp
  moreover have "c AND 0x7f = c"
    using u8_sign(3) [of c] c by (simp add: word_unat_eq_iff)
  ultimately have "ReadVarInt (c # v @ r) = Inr (ucast c :: u32, v @ r)"
    by (simp add: ReadVarInt_byte)
  moreover have "(ucast c :: u32) < nSpecialScripts" using c by (simp add: word_less_nat_alt)
  ultimately show ?thesis using a(1,3) by (simp add: unser_script_def rbind_def)
qed

lemma CPubKey_Set_exact:
  "length p = GetLen (p ! 0) \<Longrightarrow> p \<noteq> [] \<Longrightarrow> length k \<le> length p \<Longrightarrow> CPubKey_Set k p = p"
  by (cases "length p = 0") (simp_all add: CPubKey_Set_def Let_def)

lemma IsToPubKey_cases:
  assumes "IsToPubKey ec s = Some k"
  obtains (compressed) "length k = 33" "k ! 0 = 2 \<or> k ! 0 = 3" "s = [33] @ k @ [OP_CHECKSIG]"
  | (uncompressed) "length k = 65" "k ! 0 = 4" "s = [65] @ k @ [OP_CHECKSIG]" "IsFullyValid ec k"
proof -
  have new: "length CPubKey_new = 1" by (simp add: CPubKey_new_def Invalidate_def)
  have hd: "take n (drop 1 s) ! 0 = s ! 1" if "0 < n" "length s > 1" for n
    using that by simp
  show ?thesis
  proof (cases "length s = 35 \<and> s ! 0 = 33 \<and> s ! 34 = OP_CHECKSIG \<and> (s ! 1 = 0x02 \<or> s ! 1 = 0x03)")
    case True
    then have "CPubKey_Set CPubKey_new (take 33 (drop 1 s)) = take 33 (drop 1 s)"
      using hd [of 33] new by (intro CPubKey_Set_exact) (auto simp: GetLen_def)
    then have "k = take 33 (drop 1 s)" using assms True by (simp add: IsToPubKey_def)
    then show ?thesis
      using True split_script(3) [of s] hd [of 33] by (intro compressed) auto
  next
    case False
    then have c: "length s = 67" "s ! 0 = 65" "s ! 66 = OP_CHECKSIG" "s ! 1 = 0x04"
      using assms by (auto simp: IsToPubKey_def split: if_splits)
    then have "CPubKey_Set CPubKey_new (take 65 (drop 1 s)) = take 65 (drop 1 s)"
      using hd [of 65] new by (intro CPubKey_Set_exact) (auto simp: GetLen_def)
    then have "k = take 65 (drop 1 s)" "IsFullyValid ec k"
      using assms c by (auto simp: IsToPubKey_def Let_def split: if_splits)
    then show ?thesis
      using c split_script(4) [of s] hd [of 65] by (intro uncompressed) auto
  qed
qed

lemma OR_parity: "(0x04 OR (b AND 0x01) :: u8) - 2 = 2 OR (b AND 0x01)" "(0x04 OR (b AND 0x01) :: u8) \<in> {4, 5}"
proof -
  have "b AND 0x01 = 0 \<or> b AND 0x01 = 1" by (simp add: and_one_eq mod_2_eq_odd)
  then show "(0x04 OR (b AND 0x01) :: u8) - 2 = 2 OR (b AND 0x01)" "(0x04 OR (b AND 0x01) :: u8) \<in> {4, 5}"
    by (elim disjE; simp)+
qed

text \<open>Whatever \<open>Compress\<close> returns starts with a byte below 6 and is decompressed to the script.\<close>

lemma Compress_Decompress:
  assumes "Compress ec s = Some compr" "decompresses ec"
  shows "\<exists>c v. compr = c # v \<and> c \<le> 5 \<and> length v = GetSpecialSize (ucast c)
    \<and> Decompress ec (ucast c) v = Script_set s"
proof (cases "IsToKeyID s")
  case (Some keyID)
  then show ?thesis
    using assms(1) split_script(1) [of s]
    by (intro exI [of _ 0] exI [of _ keyID])
      (auto simp: Compress_def IsToKeyID_def GetSpecialSize_def Decompress_def split: if_splits)
next
  case nokey: None
  show ?thesis
  proof (cases "IsToScriptID s")
    case (Some scriptID)
    then show ?thesis
      using nokey assms(1) split_script(2) [of s]
      by (intro exI [of _ 1] exI [of _ scriptID])
        (auto simp: Compress_def IsToScriptID_def GetSpecialSize_def Decompress_def split: if_splits)
  next
    case None
    then obtain k where k: "IsToPubKey ec s = Some k"
      using nokey assms(1) by (auto simp: Compress_def split: option.splits)
    from k show ?thesis
    proof (cases rule: IsToPubKey_cases)
      case compressed
      then have c: "compr = k ! 0 # take 32 (drop 1 k)"
        using assms(1) nokey None k by (auto simp: Compress_def Let_def)
      have "k = k ! 0 # take 32 (drop 1 k)" using compressed(1) by (cases k) simp_all
      then show ?thesis
        using compressed(2,3)
        by (intro exI [of _ "k ! 0"] exI [of _ "take 32 (drop 1 k)"])
          (auto simp: c compressed(1) GetSpecialSize_def Decompress_def)
    next
      case uncompressed
      define b where "b = (0x04 :: u8) OR (k ! 64 AND 0x01)"
      have c: "compr = b # take 32 (drop 1 k)"
        using assms(1) nokey None k uncompressed(2) by (simp add: Compress_def Let_def b_def)
      have b: "b - 2 = 2 OR (k ! 64 AND 0x01)" "b = 4 \<or> b = 5"
        using OR_parity [of "k ! 64"] by (simp_all add: b_def)
      have valid: "CPubKey_IsValid k" "Raw k = k"
        using uncompressed(1,2) by (simp_all add: CPubKey_IsValid_def pk_size_def GetLen_def Raw_def)
      then obtain p where p: "ec_pubkey_parse ec k = Some p"
        using uncompressed(4) by (auto simp: IsFullyValid_def)
      obtain p' where p': "ec_pubkey_parse ec ((b - 2) # take 32 (drop 1 k)) = Some p'"
        "ec_pubkey_serialize ec p' False = k"
        using assms(2) [unfolded decompresses_def] uncompressed(1,2) p b(1) by metis
      define q where "q = (b - 2) # take 32 (drop 1 k)"
      have q: "CPubKey_of q = q" "CPubKey_IsValid q" "Raw q = q" "length q = 33"
        using b(2) uncompressed(1) CPubKey_of_valid(1) [of q] CPubKey_of_valid(2) [of q]
        by (auto simp: q_def GetLen_def)
      have "CPubKey_Set q k = k"
        using uncompressed(1,2) q(4) by (intro CPubKey_Set_exact) (auto simp: GetLen_def)
      then have "pk_Decompress ec q = (k, True)"
        using q p' [folded q_def] by (simp add: pk_Decompress_def)
      moreover have "ucast (ucast b - 2 :: u32) = b - 2" using b(2) by auto
      ultimately have "Decompress ec (ucast b) (take 32 (drop 1 k)) = Script_set s"
        using b(2) q(1) uncompressed
        by (auto simp: Decompress_def q_def pk_size_def GetLen_def)
      then show ?thesis
        using b(2) uncompressed(1)
        by (intro exI [of _ b] exI [of _ "take 32 (drop 1 k)"]) (auto simp: c GetSpecialSize_def)
    qed
  qed
qed

lemma script_roundtrip:
  assumes "decompresses ec" "length s < 4294967290"
  shows "unser_script ec s0 (ser_script ec s @ r) = Inr (s, r)"
proof (cases "Compress ec s")
  case (Some compr)
  from Compress_Decompress [OF this assms(1)] obtain c v where
    "compr = c # v" "c \<le> 5" "length v = GetSpecialSize (ucast c)" "Decompress ec (ucast c) v = Script_set s"
    by blast
  then show ?thesis using Some unser_special [of v c ec s s0 r] by (simp add: ser_script_def)
next
  case None
  have n: "unat (of_nat (length s) + 6 :: u32) = length s + 6"
    using assms(2) by (subst unat_add_exact) simp_all
  then have "\<not> (of_nat (length s) + 6 :: u32) < 6" by (simp add: word_less_nat_alt)
  moreover have "unat (of_nat (length s) + 6 - 6 :: u32) = length s" using assms(2) by simp
  ultimately show ?thesis
    using None by (simp add: ser_script_def unser_script_def varint32.read_written)
qed

lemma length_ser_script: "length (ser_script ec s) = script_GetSerializeSize ec s"
  by (simp add: ser_script_def script_GetSerializeSize_def WriteVarInt_def length_varint_tmp split: option.splits)

section \<open>Undo records are read back\<close>

lemma u32_sint: "sint (x :: u32) = (if unat x < 2147483648 then int (unat x)
    else int (unat x) - 4294967296)"
proof -
  have lt: "unat x < 2 ^ Suc 31" using unsigned_less [of x, where 'a = nat] by simp
  have "bit (unat x) 31 \<longleftrightarrow> 2 ^ 31 \<le> unat x" by (rule half_step) (use lt in simp)
  moreover have "bit (uint x) 31 \<longleftrightarrow> bit (unat x) 31" by (simp add: bit_unsigned_iff)
  moreover have "sint x = take_bit (Suc 31) (uint x) - 2 ^ Suc 31 * of_bool (bit (uint x) 31)"
    by (simp add: sint_uint signed_take_bit_eq_take_bit_minus)
  moreover have "take_bit (Suc 31) (uint x) = int (unat x)"
    by (simp add: take_bit_int_eq_self unsigned_less [of x, where 'a = int, simplified])
  ultimately show ?thesis by auto
qed

lemma bit_unat: "bit (w :: 'a :: len word) k \<longleftrightarrow> odd (unat w div 2 ^ k)"
proof -
  have "bit w k = bit (unat w) k" by (simp add: bit_unsigned_iff)
  then show ?thesis by (simp add: bit_iff_odd)
qed

lemma u32_nonneg:
  assumes "0 <=s (n :: u32)"
  shows "unat n < 2147483648" "sint n = int (unat n)"
proof -
  have nn: "0 \<le> sint n" using assms by (simp add: word_sle_eq)
  show lt: "unat n < 2147483648"
  proof (rule ccontr)
    assume "\<not> unat n < 2147483648"
    then have "sint n = int (unat n) - 4294967296" using u32_sint [of n] by (simp only: if_False)
    then show False using nn unat_u32_less [of n] by linarith
  qed
  show "sint n = int (unat n)" using u32_sint [of n] lt by (simp only: if_True)
qed

lemma int_varint_nonneg:
  assumes "0 <=s n"
  shows "WriteVarInt_int n = WriteVarInt n" "GetSizeOfVarInt_int n = GetSizeOfVarInt n"
proof -
  have "n <=s 0x7f \<longleftrightarrow> n \<le> 0x7f"
  proof -
    have "sint n \<le> 127 \<longleftrightarrow> unat n \<le> 127" unfolding u32_nonneg(2) [OF assms] by linarith
    then show ?thesis by (simp add: word_sle_eq word_le_nat_alt)
  qed
  then show "WriteVarInt_int n = WriteVarInt n" "GetSizeOfVarInt_int n = GetSizeOfVarInt n"
    by (simp_all add: WriteVarInt_int_def GetSizeOfVarInt_int_def WriteVarInt_def varint_tmp.simps
        GetSizeOfVarInt.simps)
qed

lemma rbind_rreturn [simp]: "rbind (rreturn x) f s = f x s"
  by (simp add: rbind_def)

lemma read_varint_int: "0 <=s n \<Longrightarrow> rbind ReadVarInt f (WriteVarInt_int n @ r) = f n r"
  by (simp add: int_varint_nonneg varint32.read_written)

text \<open>Money amounts are far below the bound on the value.\<close>

definition ctxout_ok :: "CTxOut \<Rightarrow> bool" where
  "ctxout_ok txo \<longleftrightarrow> 9 * unat (nValue txo) < 18446744073709551616
     \<and> length (scriptPubKey txo) < 4294967290 \<and> nRounds txo = - 10"

lemma ctxout_codec:
  assumes "decompresses ec"
  shows "sized_codec (ser_ctxout ec) (unser_ctxout ec CTxOut_null) ctxout_ok (ctxout_size ec)"
proof unfold_locales
  fix txo r
  assume ok: "ctxout_ok txo"
  then obtain x where x: "CompressAmount (nValue txo) = Some x" "DecompressAmount x = nValue txo"
    using amount_roundtrip by (auto simp: ctxout_ok_def)
  have "unser_script ec [] (ser_script ec (scriptPubKey txo) @ r) = Inr (scriptPubKey txo, r)"
    using script_roundtrip [OF assms] ok by (simp add: ctxout_ok_def)
  then show "unser_ctxout ec CTxOut_null (ser_ctxout ec txo @ r) = Inr (txo, r)"
    using x ok by (cases txo) (simp add: ser_ctxout_def unser_ctxout_def varint64.read_written
        rbind_simps CTxOut_null_def ctxout_ok_def)
  show "length (ser_ctxout ec txo) = ctxout_size ec txo"
    using x by (simp add: ser_ctxout_def ctxout_size_def length_ser_script WriteVarInt_def length_varint_tmp)
qed

definition undo_ok :: "CTxInUndo \<Rightarrow> bool" where
  "undo_ok u \<longleftrightarrow> ctxout_ok (u_txout u) \<and> u_nHeight u < 0x40000000
     \<and> (if u_nHeight u = 0 then u_nVersion u = 0 else 0 <=s u_nVersion u)"

lemma quarter:
  "Suc (Suc (Suc (4 * h))) div 4 = h" "Suc (Suc (4 * h)) div 4 = h" "Suc (4 * h) div 4 = h"
  by presburger+

text \<open>The two flags are bits 1 and 0 of the code, the height is what is above them.\<close>

lemma undo_code_fields:
  assumes "u_nHeight u < 0x40000000"
  shows "drop_bit 2 (undo_code u) = u_nHeight u" "undo_code u AND 2 \<noteq> 0 \<longleftrightarrow> u_fCoinBase u"
    "undo_code u AND 1 \<noteq> 0 \<longleftrightarrow> u_fCoinStake u"
proof -
  define N :: nat where "N = 4 * unat (u_nHeight u) + (if u_fCoinBase u then 2 else 0)
    + (if u_fCoinStake u then 1 else 0)"
  have h: "unat (u_nHeight u) < 1073741824" using assms by (simp add: word_less_nat_alt)
  then have N: "N < 4294967296" by (auto simp: N_def)
  have code: "undo_code u = of_nat N" by (simp add: undo_code_def N_def)
  then have uN: "unat (undo_code u) = N" using N by simp
  have bits: "bit (undo_code u) k \<longleftrightarrow> odd (N div 2 ^ k)" for k
    using uN by (simp add: bit_unat)
  show "drop_bit 2 (undo_code u) = u_nHeight u"
    by (simp only: word_unat_eq_iff unat_drop_bit_eq uN drop_bit_eq_div [of 2 N]) (simp add: N_def quarter)
  show "undo_code u AND 2 \<noteq> 0 \<longleftrightarrow> u_fCoinBase u"
    using bits [of 1] by (simp add: bit_iff_and_push_bit_not_eq_0 push_bit_eq_mult N_def)
  show "undo_code u AND 1 \<noteq> 0 \<longleftrightarrow> u_fCoinStake u"
    using bits [of 0] by (simp add: bit_iff_and_push_bit_not_eq_0 N_def)
qed

lemma undo_codec:
  assumes "decompresses ec"
  shows "sized_codec (ser_undo ec) (unser_undo ec CTxInUndo_new) undo_ok (undo_GetSerializeSize ec)"
proof unfold_locales
  note out = codec.read_written [OF sized_codec.axioms(1) [OF ctxout_codec [OF assms]]]
    sized_codec.size_law [OF ctxout_codec [OF assms]]
  fix u r
  assume ok: "undo_ok u"
  note f = undo_code_fields [of u]
  show "unser_undo ec CTxInUndo_new (ser_undo ec u @ r) = Inr (u, r)"
    using ok f by (cases u) (auto simp: undo_ok_def ser_undo_def unser_undo_def varint32.read_written
        out read_varint_int CTxInUndo_new_def word_gt_0 Let_def split: if_splits)
  show "length (ser_undo ec u) = undo_GetSerializeSize ec u"
    using ok by (auto simp: undo_ok_def ser_undo_def undo_GetSerializeSize_def out
        int_varint_nonneg varint32.size_law word_gt_0 split: if_splits)
qed

section \<open>Coins are read back\<close>

lemma mask_fold_bit:
  "bit (foldl (\<lambda>chAvail (i, a). if a then chAvail OR push_bit i 1 else chAvail) acc (zip [i..<8] av) :: u8) p
    \<longleftrightarrow> bit acc p \<or> (i \<le> p \<and> p < 8 \<and> p - i < length av \<and> av ! (p - i))"
proof (induction av arbitrary: i acc)
  case (Cons a av)
  show ?case
  proof (cases "i < 8")
    case True
    have "bit (if a then acc OR push_bit i 1 else acc) p \<longleftrightarrow> bit acc p \<or> (a \<and> p = i)"
      using True by (auto simp: bit_simps)
    then show ?thesis
      using True Cons.IH [of "if a then acc OR push_bit i 1 else acc" "Suc i"]
      by (auto simp: upt_rec [of i] nth_Cons' Suc_le_eq dest!: le_neq_implies_less)
  qed auto
qed simp

lemma byte_avail_mask:
  assumes "length av \<le> 8"
  shows "byte_avail (mask_byte av) = av @ replicate (8 - length av) False"
proof (rule nth_equalityI)
  show "length (byte_avail (mask_byte av)) = length (av @ replicate (8 - length av) False)"
    using assms by (simp add: byte_avail_def)
next
  fix p assume "p < length (byte_avail (mask_byte av))"
  then have p: "p < 8" by (simp add: byte_avail_def)
  then have "byte_avail (mask_byte av) ! p \<longleftrightarrow> bit (mask_byte av) p"
    by (simp add: byte_avail_def bit_iff_and_push_bit_not_eq_0)
  also have "\<dots> \<longleftrightarrow> p < length av \<and> av ! p"
    using mask_fold_bit [of 0 0 av p] p by (simp add: mask_byte_def)
  finally show "byte_avail (mask_byte av) ! p = (av @ replicate (8 - length av) False) ! p"
    using p assms by (auto simp: nth_append)
qed

lemma mask_byte_zero: "length av \<le> 8 \<Longrightarrow> mask_byte av = 0 \<longleftrightarrow> \<not> list_ex (\<lambda>x. x) av"
proof -
  assume l: "length av \<le> 8"
  have "mask_byte av = 0 \<longleftrightarrow> (\<forall>p < 8. \<not> (p < length av \<and> av ! p))"
    using mask_fold_bit [of 0 0 av] by (auto simp: mask_byte_def bit_eq_iff)
  also have "\<dots> \<longleftrightarrow> \<not> list_ex (\<lambda>x. x) av" using l by (auto simp: list_ex_length)
  finally show ?thesis .
qed

text \<open>\<open>CalcMaskSize\<close> counts: the bytes up to the last one that is not zero, and those among
  them that are not zero.\<close>

definition used_bytes :: "bytes \<Rightarrow> nat" where
  "used_bytes bs = length (dropWhile (\<lambda>b. b = 0) (rev bs))"

lemma used_bytes_simps [simp]:
  "used_bytes [] = 0"
  "used_bytes (b # bs) = (if used_bytes bs = 0 then (if b = 0 then 0 else 1) else Suc (used_bytes bs))"
  by (auto simp: used_bytes_def dropWhile_append)

lemma mask_size_loop_eq:
  "nLast \<le> b \<Longrightarrow> mask_size_loop av b nLast nNonzero =
    (if used_bytes (mask_bytes av) = 0 then nLast else b + used_bytes (mask_bytes av),
     nNonzero + length (filter (\<lambda>c. c \<noteq> 0) (mask_bytes av)))"
proof (induction av b nLast nNonzero rule: mask_size_loop.induct)
  case (2 a av b nLast nNonzero)
  define w where "w = drop 8 (a # av)"
  define c where "c = mask_byte (take 8 (a # av))"
  have m: "mask_bytes (a # av) = c # mask_bytes w" by (simp add: c_def w_def)
  have c0: "c = 0 \<longleftrightarrow> \<not> list_ex (\<lambda>x. x) (take 8 (a # av))"
    using mask_byte_zero [of "take 8 (a # av)"] by (simp add: c_def)
  show ?case
  proof (cases "c = 0")
    case True
    then have "mask_size_loop (a # av) b nLast nNonzero = mask_size_loop w (b + 1) nLast nNonzero"
      using c0 by (simp only: mask_size_loop.simps Let_def w_def simp_thms if_True if_False)
    moreover have "mask_size_loop w (b + 1) nLast nNonzero =
        (if used_bytes (mask_bytes w) = 0 then nLast else b + 1 + used_bytes (mask_bytes w),
         nNonzero + length (filter (\<lambda>c. c \<noteq> 0) (mask_bytes w)))"
      unfolding w_def by (rule "2.IH"(2) [OF refl]) (use True c0 "2.prems" in simp_all)
    ultimately show ?thesis unfolding m using True by simp
  next
    case False
    then have "mask_size_loop (a # av) b nLast nNonzero = mask_size_loop w (b + 1) (b + 1) (nNonzero + 1)"
      using c0 by (simp only: mask_size_loop.simps Let_def w_def simp_thms if_True if_False)
    moreover have "mask_size_loop w (b + 1) (b + 1) (nNonzero + 1) =
        (if used_bytes (mask_bytes w) = 0 then b + 1 else b + 1 + used_bytes (mask_bytes w),
         nNonzero + 1 + length (filter (\<lambda>c. c \<noteq> 0) (mask_bytes w)))"
      unfolding w_def by (rule "2.IH"(1) [OF refl]) (use False c0 in simp_all)
    ultimately show ?thesis unfolding m using False by simp
  qed
qed simp

lemma read_mask_bytes:
  "length (filter (\<lambda>c. c \<noteq> 0) bs) < 4294967296 \<Longrightarrow>
    read_mask (of_nat (length (filter (\<lambda>c. c \<noteq> 0) bs))) v (take (used_bytes bs) bs @ r)
      = Inr (v @ concat (map byte_avail (take (used_bytes bs) bs)), r)"
proof (induction bs arbitrary: v)
  case Nil
  show ?case by (cases r) simp_all
next
  case (Cons b bs)
  let ?n = "\<lambda>bs. length (filter (\<lambda>c. c \<noteq> (0 :: u8)) bs)"
  have none: "?n bs = 0 \<longleftrightarrow> used_bytes bs = 0" for bs
    by (induction bs) auto
  show ?case
  proof (cases "used_bytes (b # bs) = 0")
    case True
    have "?n (b # bs) = 0" by (rule iffD2 [OF none True])
    then show ?thesis using True by (cases r) simp_all
  next
    case False
    have pos: "?n (b # bs) \<noteq> 0" using False unfolding none [of "b # bs", symmetric] .
    then have "(of_nat (?n (b # bs)) :: u32) > 0"
      using Cons.prems by (simp add: word_gt_0 word_unat_eq_iff)
    moreover have "(if b \<noteq> 0 then of_nat (?n (b # bs)) - 1 else of_nat (?n (b # bs))) = (of_nat (?n bs) :: u32)"
      by simp
    moreover have "take (used_bytes (b # bs)) (b # bs) = b # take (used_bytes bs) bs"
      using False by (auto split: if_splits)
    moreover have "?n bs < 4294967296" using Cons.prems by (simp split: if_splits)
    moreover have "read_mask (of_nat (?n bs)) (v @ byte_avail b) (take (used_bytes bs) bs @ r)
        = Inr (v @ byte_avail b @ concat (map byte_avail (take (used_bytes bs) bs)), r)"
      using Cons.IH [of "v @ byte_avail b"] \<open>?n bs < 4294967296\<close> by simp
    ultimately show ?thesis
      by (simp only: append_Cons read_mask.simps if_True list.map concat.simps if_split_eq1)
         (cases "b = 0"; simp)
  qed
qed

lemma mask_bytes_avail:
  assumes "av = [] \<or> last av"
  shows "\<exists>k. concat (map byte_avail (take (used_bytes (mask_bytes av)) (mask_bytes av)))
    = av @ replicate k False"
proof -
  let ?m = "mask_bytes av"
  have all: "\<exists>k. concat (map byte_avail (mask_bytes av)) = av @ replicate k False" for av
  proof (induction av rule: mask_bytes.induct)
    case (2 a av)
    then obtain k where k: "concat (map byte_avail (mask_bytes (drop 8 (a # av))))
        = drop 8 (a # av) @ replicate k False" by blast
    have b: "byte_avail (mask_byte (take 8 (a # av)))
        = take 8 (a # av) @ replicate (8 - length (take 8 (a # av))) False"
      by (rule byte_avail_mask) simp
    have "concat (map byte_avail (mask_bytes (a # av)))
        = take 8 (a # av) @ replicate (8 - length (take 8 (a # av))) False
          @ drop 8 (a # av) @ replicate k False"
      by (simp only: mask_bytes.simps list.map concat.simps k b append_assoc)
    moreover have "replicate (8 - length (take 8 (a # av))) False @ drop 8 (a # av)
        = drop 8 (a # av) @ replicate (8 - length (take 8 (a # av))) False"
      by (cases "length (a # av) \<le> 8") (simp_all add: min_def)
    ultimately show ?case
      by (metis append.assoc append_take_drop_id replicate_add)
  qed simp
  have zeros: "drop (used_bytes bs) bs = replicate (length bs - used_bytes bs) 0" for bs
    by (induction bs) (auto split: if_splits)
  have zero: "concat (map byte_avail (replicate n 0)) = replicate (8 * n) False" for n
    by (induction n) (simp_all add: byte_avail_def map_replicate_const replicate_add)
  obtain k where k: "concat (map byte_avail ?m) = av @ replicate k False" using all by blast
  define X where "X = concat (map byte_avail (take (used_bytes ?m) ?m))"
  have "X @ concat (map byte_avail (drop (used_bytes ?m) ?m)) = av @ replicate k False"
    unfolding X_def k [symmetric] by (simp flip: map_append concat_append)
  then obtain j where j: "X @ replicate j False = av @ replicate k False"
    unfolding zeros zero by blast
  then consider us where "X @ us = av" "replicate j False = us @ replicate k False"
    | us where "X = av @ us" "us @ replicate j False = replicate k False"
    by (auto simp: append_eq_append_conv2)
  then have "\<exists>k. X = av @ replicate k False"
  proof cases
    case (1 us)
    have "us = []"
    proof (rule ccontr)
      assume "us \<noteq> []"
      then have "last us \<in> set (replicate j False)" unfolding 1(2) by simp
      then show False using assms 1(1) \<open>us \<noteq> []\<close> by auto
    qed
    then show ?thesis using 1(1) by (intro exI [of _ 0]) simp
  next
    case (2 us)
    have "set us \<subseteq> set (us @ replicate j False)" by simp
    then have "set us \<subseteq> {False}" unfolding 2(2) by auto
    then have "us = replicate (length us) False" by (intro replicate_eqI) auto
    then show ?thesis using 2(1) by metis
  qed
  then show ?thesis by (simp add: X_def)
qed

lemma read_outs_append:
  "read_outs ec (av @ replicate k False) os s
    = rbind (read_outs ec av os) (\<lambda>os. rreturn (os @ replicate k CTxOut_null)) s"
proof (induction ec av os arbitrary: s rule: read_outs.induct)
  case (1 ec os)
  show ?case by (induction k arbitrary: os) (simp_all add: replicate_app_Cons_same)
next
  case (2 ec a av os)
  then show ?case by (cases a) (auto simp: rbind_def split: sum.splits)
qed

lemma read_outs_roundtrip:
  assumes "decompresses ec"
  shows "\<forall>txo \<in> set outs. if CTxOut_IsNull txo then txo = CTxOut_null else ctxout_ok txo \<Longrightarrow>
    read_outs ec (map (\<lambda>txo. \<not> CTxOut_IsNull txo) outs) os
      (concat (map (ser_ctxout ec) (filter (\<lambda>txo. \<not> CTxOut_IsNull txo) outs)) @ r) = Inr (os @ outs, r)"
proof (induction outs arbitrary: os)
  case (Cons txo outs)
  note rw = codec.read_written [OF sized_codec.axioms(1) [OF ctxout_codec [OF assms]]]
  show ?case using Cons.IH [of "os @ [txo]"] Cons.prems by (auto simp: rw)
qed simp

lemma parity:
  assumes "(f :: nat) < 16"
  shows "odd ((16 * M + f) div 2 ^ 0) \<longleftrightarrow> odd f" "odd ((16 * M + f) div 2 ^ 1) \<longleftrightarrow> odd (f div 2)"
    "odd ((16 * M + f) div 2 ^ 2) \<longleftrightarrow> odd (f div 4)" "odd ((16 * M + f) div 2 ^ 3) \<longleftrightarrow> odd (f div 8)"
proof -
  have "(16 * M + f) div 2 = 8 * M + f div 2" "(16 * M + f) div 4 = 4 * M + f div 4"
    "(16 * M + f) div 8 = 2 * M + f div 8" by presburger+
  then show "odd ((16 * M + f) div 2 ^ 0) \<longleftrightarrow> odd f" "odd ((16 * M + f) div 2 ^ 1) \<longleftrightarrow> odd (f div 2)"
    "odd ((16 * M + f) div 2 ^ 2) \<longleftrightarrow> odd (f div 4)" "odd ((16 * M + f) div 2 ^ 3) \<longleftrightarrow> odd (f div 8)"
    by simp_all
qed

lemma coins_code_fields:
  assumes "m < 0x10000000" "fFirst c \<or> fSecond c \<or> m \<noteq> 0"
  defines "n \<equiv> coins_code 16 m c"
  shows "n div 16 + (if n AND 12 \<noteq> 0 then 0 else 1) = of_nat m" "n AND 1 \<noteq> 0 \<longleftrightarrow> fCoinBase c"
    "n AND 2 \<noteq> 0 \<longleftrightarrow> fCoinStake c" "n AND 4 \<noteq> 0 \<longleftrightarrow> fFirst c" "n AND 8 \<noteq> 0 \<longleftrightarrow> fSecond c"
proof -
  define M where "M = (if fFirst c \<or> fSecond c then m else m - 1)"
  define f :: nat where "f = (if fCoinBase c then 1 else 0) + (if fCoinStake c then 2 else 0)
    + (if fFirst c then 4 else 0) + (if fSecond c then 8 else 0)"
  have f: "f < 16" by (simp add: f_def)
  have "(of_nat m :: u32) - (if fFirst c \<or> fSecond c then 0 else 1) = of_nat M"
    using assms(2) by (auto simp: M_def of_nat_diff)
  then have "n = of_nat (16 * M + f)"
    unfolding n_def coins_code_def by (auto simp: f_def)
  moreover have "M < 0x10000000" using assms(1) by (auto simp: M_def)
  ultimately have un: "unat n = 16 * M + f" using f by (simp only: unat_u32_of_nat) simp
  have bits: "bit n k \<longleftrightarrow> odd ((16 * M + f) div 2 ^ k)" for k using un by (simp add: bit_unat)
  have b: "bit n 0 \<longleftrightarrow> fCoinBase c" "bit n 1 \<longleftrightarrow> fCoinStake c" "bit n 2 \<longleftrightarrow> fFirst c" "bit n 3 \<longleftrightarrow> fSecond c"
    unfolding bits parity [OF f] by (simp_all add: f_def)
  then show "n AND 1 \<noteq> 0 \<longleftrightarrow> fCoinBase c" "n AND 2 \<noteq> 0 \<longleftrightarrow> fCoinStake c"
    "n AND 4 \<noteq> 0 \<longleftrightarrow> fFirst c" "n AND 8 \<noteq> 0 \<longleftrightarrow> fSecond c"
    using bit_iff_and_push_bit_not_eq_0 [of n 0] bit_iff_and_push_bit_not_eq_0 [of n 1]
      bit_iff_and_push_bit_not_eq_0 [of n 2] bit_iff_and_push_bit_not_eq_0 [of n 3]
    by (simp_all add: push_bit_eq_mult)
  have "n AND 12 \<noteq> 0 \<longleftrightarrow> fFirst c \<or> fSecond c"
  proof -
    have "(12 :: u32) = push_bit 2 1 OR push_bit 3 1" by simp
    then have "n AND 12 = (n AND push_bit 2 1) OR (n AND push_bit 3 1)"
      by (simp only: bit.conj_disj_distrib)
    then show ?thesis using b(3,4) by (simp add: bit_iff_and_push_bit_not_eq_0 or_eq_0_iff)
  qed
  moreover have "n div 16 = of_nat M"
    using \<open>M < 0x10000000\<close> f by (simp add: word_unat_eq_iff unat_div un)
  ultimately show "n div 16 + (if n AND 12 \<noteq> 0 then 0 else 1) = of_nat m"
    using assms(2) by (auto simp: M_def of_nat_diff)
qed

text \<open>Coins that are worth writing: cleaned up, not all spent, and within the bounds of the
  encodings.\<close>

definition coins_ok :: "CCoins \<Rightarrow> bool" where
  "coins_ok c \<longleftrightarrow> c_vout c \<noteq> [] \<and> \<not> CTxOut_IsNull (last (c_vout c)) \<and> length (c_vout c) \<le> 33554432
     \<and> (\<forall>txo \<in> set (c_vout c). if CTxOut_IsNull txo then txo = CTxOut_null else ctxout_ok txo)
     \<and> 0 <=s c_nHeight c \<and> 0 <=s c_nVersion c"

lemma pop_nulls_replicate: "pop_nulls (replicate k CTxOut_null @ os) = pop_nulls os"
  by (induction k) (simp_all add: CTxOut_IsNull_def CTxOut_null_def)

lemma Cleanup_fixed:
  "c_vout c = [] \<or> \<not> CTxOut_IsNull (last (c_vout c)) \<Longrightarrow>
    Cleanup (c\<lparr> c_vout := c_vout c @ replicate k CTxOut_null \<rparr>) = c"
proof -
  assume "c_vout c = [] \<or> \<not> CTxOut_IsNull (last (c_vout c))"
  then have "pop_nulls (rev (c_vout c)) = rev (c_vout c)" by (cases "c_vout c" rule: rev_cases) auto
  then show ?thesis by (simp add: Cleanup_def pop_nulls_replicate)
qed

lemma length_mask_bytes: "length (mask_bytes av) \<le> length av"
proof (induction av rule: mask_bytes.induct)
  case (2 a av)
  then show ?case by (cases "length av < 8") auto
qed simp

lemma unser_ser_coins:
  assumes ec: "decompresses ec" and ok: "coins_ok c"
  shows "\<exists>s. ser_coins ec c = Some s \<and> unser_coins ec (s @ r) = Inr (c, r)"
proof -
  let ?m = "mask_bytes (drop 2 (avail c))"
  define m where "m = length (filter (\<lambda>b. b \<noteq> 0) ?m)"
  have calc: "CalcMaskSize c = (used_bytes ?m, m)"
    using mask_size_loop_eq [of 0 0 "drop 2 (avail c)" 0] by (simp add: CalcMaskSize_def m_def)
  have la: "length (avail c) = length (c_vout c)" by (simp add: avail_def)
  have "m \<le> length ?m" by (simp add: m_def)
  also have "\<dots> \<le> 33554432" 
    using length_mask_bytes [of "drop 2 (avail c)"] ok la by (auto simp: coins_ok_def)
  finally have mb: "m < 0x10000000" by simp
  have last: "last (avail c)" using ok by (simp add: coins_ok_def avail_def last_map)
  then have last2: "drop 2 (avail c) = [] \<or> last (drop 2 (avail c))"
    by (cases "length (avail c) \<le> 2") (simp_all add: last_drop)
  obtain k where k: "concat (map byte_avail (take (used_bytes ?m) ?m)) = drop 2 (avail c) @ replicate k False"
    using mask_bytes_avail [OF last2] by blast
  obtain j where j: "[fFirst c, fSecond c] @ drop 2 (avail c) = avail c @ replicate j False"
  proof (cases "c_vout c")
    case (Cons a os)
    show ?thesis
    proof (cases os)
      case Nil
      then show ?thesis using Cons that [of 1] by (simp add: fFirst_def fSecond_def avail_def)
    next
      case (Cons b os')
      then show ?thesis using \<open>c_vout c = a # os\<close> that [of 0]
        by (simp add: fFirst_def fSecond_def avail_def)
    qed
  qed (use ok in \<open>simp add: coins_ok_def\<close>)
  have some: "fFirst c \<or> fSecond c \<or> m \<noteq> 0"
  proof (rule ccontr)
    assume none: "\<not> (fFirst c \<or> fSecond c \<or> m \<noteq> 0)"
    then have "used_bytes ?m = 0" by (auto simp: m_def used_bytes_def filter_empty_conv dropWhile_eq_Nil_conv)
    then have "drop 2 (avail c) = []" using k by simp
    then have "[False, False] = avail c @ replicate j False" using j none by simp
    then have "set (avail c) \<subseteq> {False}" by (metis Un_upper1 empty_set list.simps(15) set_append insert_absorb2)
    moreover have "last (avail c) \<in> set (avail c)" using la ok by (intro last_in_set) (auto simp: coins_ok_def)
    ultimately show False using last by auto
  qed
  note code = coins_code_fields [OF mb some]
  have "read_mask (of_nat m) [fFirst c, fSecond c] (take (used_bytes ?m) ?m @ t)
      = Inr (avail c @ replicate (j + k) False, t)" for t
  proof -
    have "[fFirst c, fSecond c] @ drop 2 (avail c) @ replicate k False = avail c @ replicate (j + k) False"
      using j by (simp add: replicate_add)
    then show ?thesis
      using read_mask_bytes [of ?m "[fFirst c, fSecond c]" t] mb k by (simp add: m_def)
  qed
  moreover have "read_outs ec (avail c @ replicate (j + k) False) []
      (concat (map (ser_ctxout ec) (filter (\<lambda>txo. \<not> CTxOut_IsNull txo) (c_vout c))) @ t)
      = Inr (c_vout c @ replicate (j + k) CTxOut_null, t)" for t
    using read_outs_roundtrip [OF ec, of "c_vout c" "[]" t] ok
    by (simp add: read_outs_append rbind_def coins_ok_def avail_def)
  moreover have "Cleanup \<lparr> fCoinBase = fCoinBase c, fCoinStake = fCoinStake c,
      c_vout = c_vout c @ replicate (j + k) CTxOut_null, c_nHeight = c_nHeight c, c_nVersion = c_nVersion c \<rparr> = c"
    using Cleanup_fixed [of c "j + k"] ok by (cases c) (simp add: coins_ok_def)
  ultimately show ?thesis
    using ok some by (simp add: ser_coins_def calc unser_coins_def read_varint_int varint32.read_written code
        coins_ok_def rbind_simps Let_def)
qed

text \<open>\<open>GetSerializeSize\<close> computes the code with the factor 8 where \<open>Serialize\<close> has 16: the size it
  reports is off by the difference of the two encodings.\<close>

lemma ser_coins_length:
  assumes ec: "decompresses ec" and ok: "coins_ok c" and s: "ser_coins ec c = Some s"
    and n: "CCoins_GetSerializeSize ec c = Some n" and m: "CalcMaskSize c = (sz, m)"
  shows "length s + GetSizeOfVarInt (coins_code 8 m c) = n + GetSizeOfVarInt (coins_code 16 m c)"
proof -
  have "length (concat (map (ser_ctxout ec) (filter (\<lambda>txo. \<not> CTxOut_IsNull txo) (c_vout c))))
      = sum_list (map (ctxout_size ec) (filter (\<lambda>txo. \<not> CTxOut_IsNull txo) (c_vout c)))"
    using ok by (intro sized_codec.size_concat [OF ctxout_codec [OF ec]]) (auto simp: coins_ok_def)
  moreover have "sz \<le> length (mask_bytes (drop 2 (avail c)))"
  proof -
    have "used_bytes bs \<le> length bs" for bs
      by (simp add: used_bytes_def) (metis length_dropWhile_le length_rev)
    moreover have "sz = used_bytes (mask_bytes (drop 2 (avail c)))"
    using mask_size_loop_eq [of 0 0 "drop 2 (avail c)" 0] m by (auto simp: CalcMaskSize_def split: if_splits)
    ultimately show ?thesis by simp
  qed
  ultimately show ?thesis
    using s n ok by (auto simp: ser_coins_def CCoins_GetSerializeSize_def m int_varint_nonneg coins_ok_def
        varint32.size_law min_absorb2 split: if_splits)
qed

text \<open>Vectors of undo records, through the contract of vectors.\<close>

context vec_codec
begin

lemma vector_roundtrip:
  "(\<forall>x \<in> set v. ok x) \<and> length v \<le> 33554432 \<Longrightarrow> unser_vec chunk unser (ser_vec ser v @ r) = Inr (v, r)"
  by (rule vec.roundtrip)

end

lemma txundo_roundtrip:
  assumes "decompresses ec" "\<forall>u \<in> set v. undo_ok u" "length v \<le> 33554432"
  shows "unser_txundo ec (ser_txundo ec v @ r) = Inr (v, r)"
  using vec_codec.vector_roundtrip [OF vec_codec.intro [OF undo_codec [OF assms(1)]]] assms(2,3)
  by (simp add: unser_txundo_def ser_txundo_def)

text \<open>A curve library with the one relation \<open>y = x\<close> between the coordinates of a point.\<close>

definition diagonal_secp :: "(bytes, bytes, unit) secp" where
  "diagonal_secp = \<lparr>
     ec_pubkey_parse = (\<lambda>k.
       if length k = 65 \<and> k ! 0 = 4 \<and> take 32 (drop 1 k) = drop 33 k then Some (drop 33 k)
       else if length k = 33 \<and> k ! 0 = 2 OR (k ! 32 AND 1) then Some (drop 1 k) else None),
     ec_pubkey_serialize = (\<lambda>p compressed. if compressed then (2 OR (p ! 31 AND 1)) # p else 4 # p @ p),
     ec_pubkey_tweak_add = (\<lambda>_ _. None), sig_parse_compact = (\<lambda>b. (b, True)), sig_normalize = (\<lambda>b. (b, False)),
     sig_verify = (\<lambda>_ _ _. True), rec_parse_compact = (\<lambda>_ _. None), rec_recover = (\<lambda>_ _. None) \<rparr>"

lemma diagonal_decompresses: "decompresses diagonal_secp"
proof -
  have "ec_pubkey_parse diagonal_secp ((2 OR (k ! 64 AND 1)) # take 32 (drop 1 k)) = Some p
      \<and> ec_pubkey_serialize diagonal_secp p False = k"
    if k: "length k = 65" "k ! 0 = 4" "ec_pubkey_parse diagonal_secp k = Some p" for k p
  proof -
    have p: "p = drop 33 k" "take 32 (drop 1 k) = drop 33 k"
      using k by (auto simp: diagonal_secp_def split: if_splits)
    have "k = k ! 0 # take 32 (drop 1 k) @ drop 33 k"
      using k(1) drop_step [of 0 k] drop_part [of 1 k 32] by simp
    moreover have "drop 33 k ! 31 = k ! 64" "take 32 (drop 1 k) ! 31 = drop 33 k ! 31"
      using k(1) p(2) by simp_all
    ultimately show ?thesis using k(1,2) p by (simp add: diagonal_secp_def)
  qed
  then show ?thesis unfolding decompresses_def by blast
qed

text \<open>C34: Coins that are cleaned up, have an output left and are within the bounds of their
  encodings are written without a failed assertion and read back exactly, whatever follows
  them; and so is the undo data of a transaction.\<close>

theorem coins_and_undo_roundtrip:
  assumes "decompresses ec" "coins_ok c" "\<forall>u \<in> set v. undo_ok u" "length v \<le> 33554432"
  shows "\<exists>s. ser_coins ec c = Some s
    \<and> rbind (unser_coins ec) (\<lambda>c'. rbind (unser_txundo ec) (\<lambda>v'. rreturn (c', v')))
        (s @ ser_txundo ec v @ r) = Inr ((c, v), r)"
proof -
  obtain s where "ser_coins ec c = Some s" "unser_coins ec (s @ ser_txundo ec v @ r) = Inr (c, ser_txundo ec v @ r)"
    using unser_ser_coins [OF assms(1,2)] by blast
  then show ?thesis using txundo_roundtrip [OF assms(1,3,4), of r] by (simp add: rbind_simps)
qed

definition sample_out :: "u64 \<Rightarrow> CTxOut" where
  "sample_out n = CTxOut_of n ([0x76, 0xa9, 20] @ replicate 20 7 @ [0x88, 0xac])"

definition sample_coins :: CCoins where
  "sample_coins = \<lparr> fCoinBase = False, fCoinStake = True, c_vout = [CTxOut_null, CTxOut_null, sample_out 5000000000],
     c_nHeight = 100, c_nVersion = 1 \<rparr>"

theorem coins_and_undo_roundtrip_witness:
  "\<exists>s. ser_coins diagonal_secp sample_coins = Some s
    \<and> rbind (unser_coins diagonal_secp) (\<lambda>c'. rbind (unser_txundo diagonal_secp) (\<lambda>v'. rreturn (c', v')))
        (s @ ser_txundo diagonal_secp [CTxInUndo_of (sample_out 250)] @ [])
      = Inr ((sample_coins, [CTxInUndo_of (sample_out 250)]), [])"
  by (rule coins_and_undo_roundtrip [OF diagonal_decompresses])
    (simp_all add: coins_ok_def undo_ok_def ctxout_ok_def sample_coins_def sample_out_def CTxOut_of_def
      CTxOut_IsNull_def CTxOut_null_def CTxInUndo_of_def CTxInUndo_new_def word_sle_eq)

text \<open>\<open>CompressAmount\<close> never fails its assertion, and every amount below a ninth of the range
  of 64 bits (all the money is far below it) is decompressed to itself.\<close>

theorem CompressAmount_exact:
  "(\<exists>x. CompressAmount n = Some x) \<and>
   (9 * unat n < 2 ^ 64 \<longrightarrow> map_option DecompressAmount (CompressAmount n) = Some n)"
proof
  show "\<exists>x. CompressAmount n = Some x"
  proof (cases "n = 0")
    case False
    then have "unat n \<noteq> 0" by (simp add: word_unat_eq_iff)
    from CompressAmount_of_nat [OF this] show ?thesis by blast
  qed (simp add: CompressAmount_def)
  show "9 * unat n < 2 ^ 64 \<longrightarrow> map_option DecompressAmount (CompressAmount n) = Some n"
    using amount_roundtrip [of n] by auto
qed

theorem CompressAmount_exact_witness:
  "map_option DecompressAmount (CompressAmount 2100000000000000) = Some 2100000000000000"
  using CompressAmount_exact [of 2100000000000000] by simp

end
