(* ===== verification/CoinsView.thy ===== *)
theory CoinsView
  imports Coins "HOL-Library.AList"
begin

unbundle bit_operations_syntax

text \<open>
  Views on the set of unspent outputs: \<open>CCoinsView\<close>, \<open>CCoinsViewCache\<close> and \<open>CCoinsModifier\<close> of
  \<open>src/coins.h\<close> and \<open>src/coins.cpp\<close>, and \<open>CCoinsViewDB\<close> of \<open>src/txdb.cpp\<close>.  A view is the record of
  its virtual functions over a state of its own; the state of a cache holds the state of the view
  behind it, so \<open>pcoinsTip\<close> is a cache over the database and the view of \<open>ConnectBlock\<close> a cache over
  that.  The hash maps are association lists: their iteration order is unspecified, and the
  results below hold for every order.  A failed assertion is \<open>None\<close>.

  The locale \<open>coins_view\<close> is the contract of a view: it denotes a map from transaction ids to coins
  that are not all spent, which reading does not change and a batch overwrites.  The database meets
  it, and a cache over a view that meets it meets it again; so a flush publishes what the cache
  holds, at every height of the stack, and the assertion on the flag \<open>FRESH\<close> never fails.
\<close>

section \<open>Views\<close>

record CCoinsCacheEntry =
  e_coins :: CCoins
  e_flags :: u8

definition DIRTY :: u8 where [simp]: "DIRTY = 1"
definition FRESH :: u8 where [simp]: "FRESH = 2"

definition is_dirty :: "CCoinsCacheEntry \<Rightarrow> bool" where
  "is_dirty e \<longleftrightarrow> e_flags e AND DIRTY \<noteq> 0"

definition is_fresh :: "CCoinsCacheEntry \<Rightarrow> bool" where
  "is_fresh e \<longleftrightarrow> e_flags e AND FRESH \<noteq> 0"

definition CCoinsCacheEntry_new :: CCoinsCacheEntry where
  "CCoinsCacheEntry_new = \<lparr> e_coins = CCoins_new, e_flags = 0 \<rparr>"

type_synonym CCoinsMap = "(limbs \<times> CCoinsCacheEntry) list"

record 'b CCoinsView =
  v_GetCoins :: "'b \<Rightarrow> limbs \<Rightarrow> CCoins option \<times> 'b"
  v_HaveCoins :: "'b \<Rightarrow> limbs \<Rightarrow> bool \<times> 'b"
  v_GetBestBlock :: "'b \<Rightarrow> limbs \<times> 'b"
  v_BatchWrite :: "'b \<Rightarrow> CCoinsMap \<Rightarrow> limbs \<Rightarrow> (bool \<times> 'b) option"

text \<open>The base class answers nothing and accepts nothing.\<close>

definition null_view :: "unit CCoinsView" where
  "null_view = \<lparr> v_GetCoins = (\<lambda>b txid. (None, b)), v_HaveCoins = (\<lambda>b txid. (False, b)),
     v_GetBestBlock = (\<lambda>b. (bu_zero 8, b)), v_BatchWrite = (\<lambda>b m h. Some (False, b)) \<rparr>"

section \<open>The database\<close>

text \<open>The key-value store as the map that \<open>Put\<close>, \<open>Delete\<close> and \<open>Get\<close> of leveldb document: the
  records under the key \<open>'c'\<close> and a transaction id, and the one under \<open>'B'\<close>.\<close>

record CCoinsViewDB =
  db_coins :: "(limbs \<times> bytes) list"
  db_best :: "limbs option"

definition db_GetCoins :: "('p, 's, 'r) secp \<Rightarrow> CCoinsViewDB \<Rightarrow> limbs \<Rightarrow> CCoins option \<times> CCoinsViewDB" where
  "db_GetCoins ec b txid =
     ((case map_of (db_coins b) txid of
         None \<Rightarrow> None
       | Some v \<Rightarrow> (case unser_coins ec v of Inl _ \<Rightarrow> None | Inr (c, _) \<Rightarrow> Some c)), b)"

definition db_HaveCoins :: "CCoinsViewDB \<Rightarrow> limbs \<Rightarrow> bool \<times> CCoinsViewDB" where
  "db_HaveCoins b txid = (map_of (db_coins b) txid \<noteq> None, b)"

definition db_GetBestBlock :: "CCoinsViewDB \<Rightarrow> limbs \<times> CCoinsViewDB" where
  "db_GetBestBlock b = ((case db_best b of None \<Rightarrow> bu_zero 8 | Some h \<Rightarrow> h), b)"

definition BatchWriteCoins ::
  "('p, 's, 'r) secp \<Rightarrow> (limbs \<times> bytes) list \<Rightarrow> limbs \<Rightarrow> CCoins \<Rightarrow> (limbs \<times> bytes) list option" where
  "BatchWriteCoins ec db hash coins =
     (if IsPruned coins then Some (AList.delete hash db)
      else map_option (\<lambda>v. AList.update hash v db) (ser_coins ec coins))"

fun db_batch_loop ::
  "('p, 's, 'r) secp \<Rightarrow> (limbs \<times> bytes) list \<Rightarrow> CCoinsMap \<Rightarrow> (limbs \<times> bytes) list option" where
  "db_batch_loop ec db [] = Some db"
| "db_batch_loop ec db ((txid, e) # m) =
     (if is_dirty e
      then (case BatchWriteCoins ec db txid (e_coins e) of
              None \<Rightarrow> None
            | Some db' \<Rightarrow> db_batch_loop ec db' m)
      else db_batch_loop ec db m)"

definition db_BatchWrite ::
  "('p, 's, 'r) secp \<Rightarrow> CCoinsViewDB \<Rightarrow> CCoinsMap \<Rightarrow> limbs \<Rightarrow> (bool \<times> CCoinsViewDB) option" where
  "db_BatchWrite ec b mapCoins hashBlock =
     (case db_batch_loop ec (db_coins b) mapCoins of
        None \<Rightarrow> None
      | Some db \<Rightarrow> Some (True, \<lparr> db_coins = db,
          db_best = (if hashBlock \<noteq> bu_zero 8 then Some hashBlock else db_best b) \<rparr>))"

definition db_view :: "('p, 's, 'r) secp \<Rightarrow> CCoinsViewDB CCoinsView" where
  "db_view ec = \<lparr> v_GetCoins = db_GetCoins ec, v_HaveCoins = db_HaveCoins,
     v_GetBestBlock = db_GetBestBlock, v_BatchWrite = db_BatchWrite ec \<rparr>"

section \<open>The cache\<close>

record 'b CCoinsViewCache =
  hasModifier :: bool
  hashBlock :: limbs
  cacheCoins :: CCoinsMap
  base :: 'b

definition CCoinsViewCache_of :: "'b \<Rightarrow> 'b CCoinsViewCache" where
  "CCoinsViewCache_of b = \<lparr> hasModifier = False, hashBlock = bu_zero 8, cacheCoins = [], base = b \<rparr>"

definition FetchCoins ::
  "'b CCoinsView \<Rightarrow> 'b CCoinsViewCache \<Rightarrow> limbs \<Rightarrow> CCoinsCacheEntry option \<times> 'b CCoinsViewCache" where
  "FetchCoins V c txid =
     (case map_of (cacheCoins c) txid of
        Some e \<Rightarrow> (Some e, c)
      | None \<Rightarrow> (case v_GetCoins V (base c) txid of
          (None, b) \<Rightarrow> (None, c\<lparr> base := b \<rparr>)
        | (Some tmp, b) \<Rightarrow>
            let e = \<lparr> e_coins = tmp, e_flags = (if IsPruned tmp then FRESH else 0) \<rparr>
            in (Some e, c\<lparr> base := b, cacheCoins := (txid, e) # cacheCoins c \<rparr>)))"

definition cache_GetCoins ::
  "'b CCoinsView \<Rightarrow> 'b CCoinsViewCache \<Rightarrow> limbs \<Rightarrow> CCoins option \<times> 'b CCoinsViewCache" where
  "cache_GetCoins V c txid = (case FetchCoins V c txid of (e, c) \<Rightarrow> (map_option e_coins e, c))"

definition AccessCoins ::
  "'b CCoinsView \<Rightarrow> 'b CCoinsViewCache \<Rightarrow> limbs \<Rightarrow> CCoins option \<times> 'b CCoinsViewCache" where
  "AccessCoins V c txid =
     (case FetchCoins V c txid of
        (None, c) \<Rightarrow> (None, c)
      | (Some e, c) \<Rightarrow> (Some (e_coins e), c))"

definition cache_HaveCoins ::
  "'b CCoinsView \<Rightarrow> 'b CCoinsViewCache \<Rightarrow> limbs \<Rightarrow> bool \<times> 'b CCoinsViewCache" where
  "cache_HaveCoins V c txid =
     (case FetchCoins V c txid of
        (None, c) \<Rightarrow> (False, c)
      | (Some e, c) \<Rightarrow> (c_vout (e_coins e) \<noteq> [], c))"

definition cache_GetBestBlock :: "'b CCoinsView \<Rightarrow> 'b CCoinsViewCache \<Rightarrow> limbs \<times> 'b CCoinsViewCache" where
  "cache_GetBestBlock V c =
     (if hashBlock c = bu_zero 8
      then (case v_GetBestBlock V (base c) of (h, b) \<Rightarrow> (h, c\<lparr> base := b, hashBlock := h \<rparr>))
      else (hashBlock c, c))"

definition SetBestBlock :: "'b CCoinsViewCache \<Rightarrow> limbs \<Rightarrow> 'b CCoinsViewCache" where
  "SetBestBlock c h = c\<lparr> hashBlock := h \<rparr>"

text \<open>\<open>ModifyCoins\<close>, with the constructor of the \<open>CCoinsModifier\<close> it returns.\<close>

definition ModifyCoins ::
  "'b CCoinsView \<Rightarrow> 'b CCoinsViewCache \<Rightarrow> limbs \<Rightarrow> (CCoins \<times> 'b CCoinsViewCache) option" where
  "ModifyCoins V c txid =
     (if hasModifier c then None
      else
        let (e, b) = (case map_of (cacheCoins c) txid of
            Some e \<Rightarrow> (e, base c)
          | None \<Rightarrow> (case v_GetCoins V (base c) txid of
              (None, b) \<Rightarrow> (\<lparr> e_coins = CCoins_Clear CCoins_new, e_flags = FRESH \<rparr>, b)
            | (Some coins, b) \<Rightarrow>
                (\<lparr> e_coins = coins, e_flags = (if IsPruned coins then FRESH else 0) \<rparr>, b)))
        in Some (e_coins e,
             c\<lparr> hasModifier := True, base := b,
                cacheCoins := AList.update txid (e\<lparr> e_flags := e_flags e OR DIRTY \<rparr>) (cacheCoins c) \<rparr>))"

text \<open>The destructor of the modifier on the entry \<open>txid\<close>, whose coins are now \<open>coins\<close>.\<close>

definition EndModify :: "'b CCoinsViewCache \<Rightarrow> limbs \<Rightarrow> CCoins \<Rightarrow> 'b CCoinsViewCache option" where
  "EndModify c txid coins =
     (if \<not> hasModifier c then None
      else let coins = Cleanup coins;
               flags = (case map_of (cacheCoins c) txid of Some e \<Rightarrow> e_flags e | None \<Rightarrow> 0);
               e = \<lparr> e_coins = coins, e_flags = flags \<rparr> in
        Some (c\<lparr> hasModifier := False,
          cacheCoins := (if is_fresh e \<and> IsPruned coins then AList.delete txid (cacheCoins c)
                         else AList.update txid e (cacheCoins c)) \<rparr>))"

text \<open>A modifier that lives for one operation on the coins.\<close>

definition modify ::
  "'b CCoinsView \<Rightarrow> limbs \<Rightarrow> (CCoins \<Rightarrow> 'r \<times> CCoins) \<Rightarrow> 'b CCoinsViewCache \<Rightarrow> ('r \<times> 'b CCoinsViewCache) option" where
  "modify V txid f c =
     (case ModifyCoins V c txid of
        None \<Rightarrow> None
      | Some (coins, c) \<Rightarrow> (case f coins of
          (ret, coins) \<Rightarrow> map_option (\<lambda>c. (ret, c)) (EndModify c txid coins)))"

fun batch_loop :: "CCoinsMap \<Rightarrow> CCoinsMap \<Rightarrow> CCoinsMap option" where
  "batch_loop us [] = Some us"
| "batch_loop us ((txid, e) # m) =
     (if is_dirty e then
        (case map_of us txid of
           None \<Rightarrow>
             if \<not> IsPruned (e_coins e) then
               if \<not> is_fresh e then None
               else batch_loop ((txid, \<lparr> e_coins = e_coins e, e_flags = DIRTY OR FRESH \<rparr>) # us) m
             else batch_loop us m
         | Some itUs \<Rightarrow>
             if is_fresh itUs \<and> IsPruned (e_coins e) then batch_loop (AList.delete txid us) m
             else batch_loop
               (AList.update txid \<lparr> e_coins = e_coins e, e_flags = e_flags itUs OR DIRTY \<rparr> us) m)
      else batch_loop us m)"

definition cache_BatchWrite ::
  "'b CCoinsViewCache \<Rightarrow> CCoinsMap \<Rightarrow> limbs \<Rightarrow> (bool \<times> 'b CCoinsViewCache) option" where
  "cache_BatchWrite c mapCoins hashBlockIn =
     (if hasModifier c then None
      else map_option (\<lambda>us. (True, c\<lparr> cacheCoins := us, hashBlock := hashBlockIn \<rparr>))
             (batch_loop (cacheCoins c) mapCoins))"

definition Flush :: "'b CCoinsView \<Rightarrow> 'b CCoinsViewCache \<Rightarrow> (bool \<times> 'b CCoinsViewCache) option" where
  "Flush V c =
     map_option (\<lambda>(fOk, b). (fOk, c\<lparr> base := b, cacheCoins := [] \<rparr>))
       (v_BatchWrite V (base c) (cacheCoins c) (hashBlock c))"

definition GetCacheSize :: "'b CCoinsViewCache \<Rightarrow> u32" where
  "GetCacheSize c = of_nat (length (cacheCoins c))"

definition cache_view :: "'b CCoinsView \<Rightarrow> 'b CCoinsViewCache CCoinsView" where
  "cache_view V = \<lparr> v_GetCoins = cache_GetCoins V, v_HaveCoins = cache_HaveCoins V,
     v_GetBestBlock = cache_GetBestBlock V, v_BatchWrite = cache_BatchWrite \<rparr>"

text \<open>What transactions ask of a cache.  \<open>None\<close> is the failed assertion that the output is
  available.\<close>

definition GetOutputFor ::
  "'b CCoinsView \<Rightarrow> 'b CCoinsViewCache \<Rightarrow> CTxIn \<Rightarrow> (CTxOut \<times> 'b CCoinsViewCache) option" where
  "GetOutputFor V c i =
     (case AccessCoins V c (op_hash (prevout i)) of
        (Some coins, c) \<Rightarrow>
          let n = unat (op_n (prevout i)) in
          if IsAvailable coins n then Some (c_vout coins ! n, c) else None
      | (None, c) \<Rightarrow> None)"

fun value_in_loop ::
  "'b CCoinsView \<Rightarrow> CTxIn list \<Rightarrow> amount \<Rightarrow> 'b CCoinsViewCache \<Rightarrow> (amount \<times> 'b CCoinsViewCache) option" where
  "value_in_loop V [] nResult c = Some (nResult, c)"
| "value_in_loop V (i # is) nResult c =
     (case GetOutputFor V c i of
        None \<Rightarrow> None
      | Some (txo, c) \<Rightarrow> value_in_loop V is (nResult + nValue txo) c)"

definition GetValueIn ::
  "'b CCoinsView \<Rightarrow> 'b CCoinsViewCache \<Rightarrow> CTransaction \<Rightarrow> (amount \<times> 'b CCoinsViewCache) option" where
  "GetValueIn V c tx =
     (if IsCoinBase tx then Some (0, c)
      else if HasZerocoinSpendInputs tx then Some (GetZerocoinSpent tx, c)
      else value_in_loop V (vin tx) 0 c)"

fun have_inputs_loop :: "'b CCoinsView \<Rightarrow> CTxIn list \<Rightarrow> 'b CCoinsViewCache \<Rightarrow> bool \<times> 'b CCoinsViewCache" where
  "have_inputs_loop V [] c = (True, c)"
| "have_inputs_loop V (i # is) c =
     (case AccessCoins V c (op_hash (prevout i)) of
        (Some coins, c) \<Rightarrow>
          if \<not> IsAvailable coins (unat (op_n (prevout i))) then (False, c)
          else have_inputs_loop V is c
      | (None, c) \<Rightarrow> (False, c))"

definition HaveInputs :: "'b CCoinsView \<Rightarrow> 'b CCoinsViewCache \<Rightarrow> CTransaction \<Rightarrow> bool \<times> 'b CCoinsViewCache" where
  "HaveInputs V c tx =
     (if \<not> IsCoinBase tx \<and> \<not> HasZerocoinSpendInputs tx then have_inputs_loop V (vin tx) c
      else (True, c))"

section \<open>The contract of a view\<close>

text \<open>Coins that are all spent count as absent.\<close>

definition live :: "CCoins option \<Rightarrow> CCoins option" where
  "live r = (case r of None \<Rightarrow> None | Some c \<Rightarrow> if IsPruned c then None else Some c)"

lemma live_simps [simp]:
  "live None = None" "IsPruned c \<Longrightarrow> live (Some c) = None" "\<not> IsPruned c \<Longrightarrow> live (Some c) = Some c"
  by (simp_all add: live_def)

lemma live_Some_iff: "live (Some c) = None \<longleftrightarrow> IsPruned c" "live r = Some c \<longleftrightarrow> r = Some c \<and> \<not> IsPruned c"
  by (auto simp: live_def split: option.splits)

definition tidy :: "CCoins \<Rightarrow> bool" where
  "tidy c \<longleftrightarrow> c_vout c = [] \<or> \<not> CTxOut_IsNull (last (c_vout c))"

text \<open>What an entry of a cache says about the view behind it, which denotes \<open>u\<close> and holds the
  entries \<open>res\<close> itself.\<close>

definition entry_ok ::
  "(limbs \<Rightarrow> CCoins option) \<Rightarrow> (limbs \<Rightarrow> bool) \<Rightarrow> (CCoins \<Rightarrow> bool) \<Rightarrow> limbs \<Rightarrow> CCoinsCacheEntry \<Rightarrow> bool" where
  "entry_ok u res sto k e \<longleftrightarrow> (is_fresh e \<longrightarrow> u k = None) \<and> (\<not> is_fresh e \<longrightarrow> res k)
     \<and> (\<not> is_dirty e \<longrightarrow> live (Some (e_coins e)) = u k)
     \<and> (\<not> IsPruned (e_coins e) \<longrightarrow> sto (e_coins e)) \<and> tidy (e_coins e)"

definition entries_ok ::
  "(limbs \<Rightarrow> CCoins option) \<Rightarrow> (limbs \<Rightarrow> bool) \<Rightarrow> (CCoins \<Rightarrow> bool) \<Rightarrow> CCoinsMap \<Rightarrow> bool" where
  "entries_ok u res sto m \<longleftrightarrow> distinct (map fst m) \<and> (\<forall>k e. map_of m k = Some e \<longrightarrow> entry_ok u res sto k e)"

definition overlay :: "CCoinsMap \<Rightarrow> (limbs \<Rightarrow> CCoins option) \<Rightarrow> limbs \<Rightarrow> CCoins option" where
  "overlay m u k = (case map_of m k of Some e \<Rightarrow> live (Some (e_coins e)) | None \<Rightarrow> u k)"

locale coins_view =
  fixes V :: "'b CCoinsView"
    and vinv :: "'b \<Rightarrow> bool"
    and utxo :: "'b \<Rightarrow> limbs \<Rightarrow> CCoins option"
    and best :: "'b \<Rightarrow> limbs"
    and resident :: "'b \<Rightarrow> limbs \<Rightarrow> bool"
    and storable :: "CCoins \<Rightarrow> bool"
  assumes get_law: "vinv b \<Longrightarrow> v_GetCoins V b k = (r, b') \<Longrightarrow>
      live r = utxo b k \<and> (\<forall>c. r = Some c \<longrightarrow> tidy c \<and> resident b' k)
      \<and> vinv b' \<and> utxo b' = utxo b \<and> best b' = best b \<and> (\<forall>j. resident b j \<longrightarrow> resident b' j)"
    and have_law: "vinv b \<Longrightarrow> v_HaveCoins V b k = (p, b') \<Longrightarrow>
      p = (utxo b k \<noteq> None) \<and> vinv b' \<and> utxo b' = utxo b \<and> best b' = best b
      \<and> (\<forall>j. resident b j \<longrightarrow> resident b' j)"
    and best_law: "vinv b \<Longrightarrow> v_GetBestBlock V b = (h, b') \<Longrightarrow>
      h = best b \<and> vinv b' \<and> utxo b' = utxo b \<and> best b' = best b
      \<and> (\<forall>j. resident b j \<longrightarrow> resident b' j)"
    and storable_law: "vinv b \<Longrightarrow> utxo b k = Some c \<Longrightarrow> storable c"
    and batch_law: "vinv b \<Longrightarrow> entries_ok (utxo b) (resident b) storable m \<Longrightarrow> h \<noteq> bu_zero 8 \<Longrightarrow>
      \<exists>b'. v_BatchWrite V b m h = Some (True, b') \<and> vinv b' \<and> utxo b' = overlay m (utxo b) \<and> best b' = h"

text \<open>What a cache over such a view keeps and denotes.\<close>

definition cache_inv ::
  "('b \<Rightarrow> bool) \<Rightarrow> ('b \<Rightarrow> limbs \<Rightarrow> CCoins option) \<Rightarrow> ('b \<Rightarrow> limbs \<Rightarrow> bool) \<Rightarrow> (CCoins \<Rightarrow> bool)
    \<Rightarrow> 'b CCoinsViewCache \<Rightarrow> bool" where
  "cache_inv vinv utxo resident storable c \<longleftrightarrow> \<not> hasModifier c \<and> vinv (base c)
     \<and> entries_ok (utxo (base c)) (resident (base c)) storable (cacheCoins c)"

definition cache_utxo :: "('b \<Rightarrow> limbs \<Rightarrow> CCoins option) \<Rightarrow> 'b CCoinsViewCache \<Rightarrow> limbs \<Rightarrow> CCoins option" where
  "cache_utxo utxo c = overlay (cacheCoins c) (utxo (base c))"

definition cache_best :: "('b \<Rightarrow> limbs) \<Rightarrow> 'b CCoinsViewCache \<Rightarrow> limbs" where
  "cache_best best c = (if hashBlock c = bu_zero 8 then best (base c) else hashBlock c)"

definition cache_resident :: "'b CCoinsViewCache \<Rightarrow> limbs \<Rightarrow> bool" where
  "cache_resident c k \<longleftrightarrow> map_of (cacheCoins c) k \<noteq> None"

section \<open>Flags, overlays and entries\<close>

lemma flag_simps [simp]:
  "is_dirty \<lparr> e_coins = x, e_flags = f OR 1 \<rparr>"
  "is_fresh \<lparr> e_coins = x, e_flags = f OR 1 \<rparr> \<longleftrightarrow> is_fresh \<lparr> e_coins = x, e_flags = f \<rparr>"
  "is_fresh \<lparr> e_coins = x, e_flags = 2 \<rparr>" "\<not> is_dirty \<lparr> e_coins = x, e_flags = 2 \<rparr>"
  "\<not> is_fresh \<lparr> e_coins = x, e_flags = 0 \<rparr>" "\<not> is_dirty \<lparr> e_coins = x, e_flags = 0 \<rparr>"
  "is_dirty \<lparr> e_coins = x, e_flags = 3 \<rparr>" "is_fresh \<lparr> e_coins = x, e_flags = 3 \<rparr>"
proof -
  have "(f OR 1) AND 1 = (1 :: u8)" "(f OR 1) AND 2 = f AND 2"
    by (simp_all add: bit.conj_disj_distrib2)
  then show "is_dirty \<lparr> e_coins = x, e_flags = f OR 1 \<rparr>"
    "is_fresh \<lparr> e_coins = x, e_flags = f OR 1 \<rparr> \<longleftrightarrow> is_fresh \<lparr> e_coins = x, e_flags = f \<rparr>"
    by (simp_all add: is_dirty_def is_fresh_def)
qed (simp_all add: is_dirty_def is_fresh_def)

lemma is_fresh_cong: "is_fresh \<lparr> e_coins = x, e_flags = e_flags e \<rparr> \<longleftrightarrow> is_fresh e"
  by (simp add: is_fresh_def)

lemma overlay_Nil [simp]: "overlay [] u = u"
  by (rule ext) (simp add: overlay_def)

lemma overlay_cong: "map_of m k = map_of m' k \<Longrightarrow> u k = u' k \<Longrightarrow> overlay m u k = overlay m' u' k"
  by (simp add: overlay_def split: option.split)

lemma overlay_update: "overlay (AList.update k e m) u = (overlay m u)(k := live (Some (e_coins e)))"
  by (rule ext) (simp add: overlay_def update_conv')

lemma overlay_delete: "overlay (AList.delete k m) u = (overlay m u)(k := u k)"
  by (rule ext) (simp add: overlay_def delete_conv')

lemma entries_ok_get: "entries_ok u res sto m \<Longrightarrow> map_of m k = Some e \<Longrightarrow> entry_ok u res sto k e"
  by (simp add: entries_ok_def)

lemma entries_ok_update:
  "entries_ok u res sto m \<Longrightarrow> entry_ok u res sto k e \<Longrightarrow> entries_ok u res sto (AList.update k e m)"
  by (auto simp: entries_ok_def update_conv' distinct_update)

lemma entries_ok_delete: "entries_ok u res sto m \<Longrightarrow> entries_ok u res sto (AList.delete k m)"
  by (auto simp: entries_ok_def delete_conv' distinct_delete split: if_splits)

lemma entries_ok_Cons:
  "entries_ok u res sto m \<Longrightarrow> entry_ok u res sto k e \<Longrightarrow> map_of m k = None \<Longrightarrow> entries_ok u res sto ((k, e) # m)"
  by (auto simp: entries_ok_def map_of_eq_None_iff)

lemma entries_ok_Nil [simp]: "entries_ok u res sto []"
  by (simp add: entries_ok_def)

lemma entries_ok_mono:
  "entries_ok u res sto m \<Longrightarrow> (\<forall>j. res j \<longrightarrow> res' j) \<Longrightarrow> entries_ok u res' sto m"
  unfolding entries_ok_def entry_ok_def by blast

lemma entry_ok_cong:
  "u k = u' k \<Longrightarrow> res k = res' k \<Longrightarrow> entry_ok u res sto k e = entry_ok u' res' sto k e"
  by (simp add: entry_ok_def)

section \<open>Batches\<close>

text \<open>One entry of a batch, and then all of them: the entries of the child are good for what
  the cache denotes, so no assertion fails.\<close>

lemma batch_step:
  assumes us: "entries_ok u res sto us"
    and e: "entry_ok (overlay us u) (\<lambda>k. map_of us k \<noteq> None) sto k e"
  shows "\<exists>us'. batch_loop us ((k, e) # m) = batch_loop us' m \<and> entries_ok u res sto us'
    \<and> (\<forall>j. j \<noteq> k \<longrightarrow> map_of us' j = map_of us j) \<and> overlay us' u k = live (Some (e_coins e))"
proof (cases "is_dirty e")
  case False
  then show ?thesis using us e by (intro exI [of _ us]) (simp add: entry_ok_def)
next
  case dirty: True
  show ?thesis
  proof (cases "map_of us k")
    case None
    then have fresh: "is_fresh e" "u k = None" using e by (auto simp: entry_ok_def overlay_def)
    show ?thesis
    proof (cases "IsPruned (e_coins e)")
      case True
      then show ?thesis using us dirty None fresh by (intro exI [of _ us]) (simp add: overlay_def)
    next
      case False
      have "entries_ok u res sto ((k, \<lparr> e_coins = e_coins e, e_flags = 3 \<rparr>) # us)"
        using us None fresh False e by (intro entries_ok_Cons) (auto simp: entry_ok_def)
      then show ?thesis
        using dirty None fresh False
        by (intro exI [of _ "(k, \<lparr> e_coins = e_coins e, e_flags = 3 \<rparr>) # us"]) (simp add: overlay_def)
    qed
  next
    case (Some itUs)
    note it = entries_ok_get [OF us Some]
    show ?thesis
    proof (cases "is_fresh itUs \<and> IsPruned (e_coins e)")
      case True
      then have "u k = None" using it by (simp add: entry_ok_def)
      then show ?thesis
        using us dirty Some True
        by (intro exI [of _ "AList.delete k us"]) (simp add: entries_ok_delete overlay_delete)
    next
      case False
      let ?e = "\<lparr> e_coins = e_coins e, e_flags = e_flags itUs OR 1 \<rparr>"
      have "entry_ok u res sto k ?e" using it e by (simp add: entry_ok_def is_fresh_cong)
      then have "entries_ok u res sto (AList.update k ?e us)" by (rule entries_ok_update [OF us])
      then show ?thesis
        using dirty Some False
        by (intro exI [of _ "AList.update k ?e us"]) (auto simp: overlay_update update_conv')
    qed
  qed
qed

lemma batch_loop_ok:
  "entries_ok u res sto us \<Longrightarrow> entries_ok (overlay us u) (\<lambda>k. map_of us k \<noteq> None) sto m \<Longrightarrow>
    \<exists>us'. batch_loop us m = Some us' \<and> entries_ok u res sto us' \<and> overlay us' u = overlay m (overlay us u)"
proof (induction m arbitrary: us)
  case Nil
  then show ?case by simp
next
  case (Cons x m)
  obtain k e where x: "x = (k, e)" by (cases x)
  have e: "entry_ok (overlay us u) (\<lambda>k. map_of us k \<noteq> None) sto k e"
    using entries_ok_get [OF Cons.prems(2), of k e] by (simp add: x)
  have notin: "map_of m k = None" using Cons.prems(2) by (simp add: entries_ok_def x map_of_eq_None_iff)
  obtain us1 where us1: "batch_loop us (x # m) = batch_loop us1 m" "entries_ok u res sto us1"
    "\<forall>j. j \<noteq> k \<longrightarrow> map_of us1 j = map_of us j" "overlay us1 u k = live (Some (e_coins e))"
    using batch_step [OF Cons.prems(1) e, of m] by (auto simp: x)
  have same: "overlay us1 u j = overlay us u j" if "j \<noteq> k" for j
    using us1(3) that by (intro overlay_cong) auto
  have "entries_ok (overlay us1 u) (\<lambda>k. map_of us1 k \<noteq> None) sto m"
  proof -
    have "entry_ok (overlay us1 u) (\<lambda>k. map_of us1 k \<noteq> None) sto j e'" if "map_of m j = Some e'" for j e'
    proof -
      have "j \<noteq> k" using that notin by auto
      then have "map_of (x # m) j = Some e'" using that by (simp add: x)
      from entries_ok_get [OF Cons.prems(2) this] show ?thesis
        using same [OF \<open>j \<noteq> k\<close>] us1(3) \<open>j \<noteq> k\<close> by (simp add: entry_ok_def)
    qed
    then show ?thesis using Cons.prems(2) by (simp add: entries_ok_def)
  qed
  from Cons.IH [OF us1(2) this] obtain us' where us': "batch_loop us1 m = Some us'"
    "entries_ok u res sto us'" "overlay us' u = overlay m (overlay us1 u)" by blast
  have "overlay m (overlay us1 u) = overlay (x # m) (overlay us u)"
    using same us1(4) notin by (intro ext) (auto simp: overlay_def x split: option.splits)
  then show ?case using us' us1(1) by simp
qed

section \<open>A cache over a view is a view\<close>

lemma Cleanup_tidy: "tidy (Cleanup c)"
proof -
  have "pop_nulls os = [] \<or> \<not> CTxOut_IsNull (hd (pop_nulls os))" for os
    by (induction os rule: pop_nulls.induct) auto
  then show ?thesis by (auto simp: tidy_def Cleanup_def last_rev)
qed

lemma Cleanup_of_tidy: "tidy c \<Longrightarrow> Cleanup c = c"
  using Cleanup_fixed [of c 0] by (simp add: tidy_def)

lemma tidy_pruned: "tidy c \<Longrightarrow> IsPruned c \<longleftrightarrow> c_vout c = []"
  by (cases "c_vout c" rule: rev_cases) (auto simp: tidy_def IsPruned_def list_ex_iff)

lemma IsPruned_new [simp]: "IsPruned CCoins_new" "IsPruned (CCoins_Clear c)" "tidy CCoins_new"
  "tidy (CCoins_Clear c)"
  by (simp_all add: IsPruned_def CCoins_new_def CCoins_Clear_def tidy_def)

context coins_view
begin

abbreviation c_inv :: "'b CCoinsViewCache \<Rightarrow> bool" where
  "c_inv \<equiv> cache_inv vinv utxo resident storable"

abbreviation c_utxo :: "'b CCoinsViewCache \<Rightarrow> limbs \<Rightarrow> CCoins option" where
  "c_utxo \<equiv> cache_utxo utxo"

abbreviation c_best :: "'b CCoinsViewCache \<Rightarrow> limbs" where
  "c_best \<equiv> cache_best best"

text \<open>Reading the view behind the cache.\<close>

lemma base_get:
  assumes c: "c_inv c" and g: "v_GetCoins V (base c) k = (r, b)"
  shows "entries_ok (utxo b) (resident b) storable (cacheCoins c)" "vinv b" "utxo b = utxo (base c)"
    "best b = best (base c)" "live r = utxo b k" "\<And>x. r = Some x \<Longrightarrow> tidy x \<and> resident b k"
proof -
  from c have "vinv (base c)" and e: "entries_ok (utxo (base c)) (resident (base c)) storable (cacheCoins c)"
    by (simp_all add: cache_inv_def)
  note l = get_law [OF this(1) g]
  show "vinv b" "utxo b = utxo (base c)" "best b = best (base c)" "live r = utxo b k"
    "\<And>x. r = Some x \<Longrightarrow> tidy x \<and> resident b k" using l by auto
  show "entries_ok (utxo b) (resident b) storable (cacheCoins c)"
    using l entries_ok_mono [OF e, of "resident b"] by auto
qed

text \<open>The entry that \<open>FetchCoins\<close> and \<open>ModifyCoins\<close> make of what they read.\<close>

lemma fetched_entry:
  assumes c: "c_inv c" and g: "v_GetCoins V (base c) k = (Some x, b)"
  shows "entry_ok (utxo b) (resident b) storable k \<lparr> e_coins = x, e_flags = (if IsPruned x then 2 else 0) \<rparr>"
proof -
  note l = base_get [OF c g]
  show ?thesis
  proof (cases "IsPruned x")
    case True
    then have "utxo b k = None" using l(5) by simp
    then show ?thesis using l(6) [OF refl] True by (simp add: entry_ok_def)
  next
    case False
    then have "utxo b k = Some x" using l(5) by simp
    then show ?thesis using l(6) [OF refl] False storable_law [OF l(2)] by (simp add: entry_ok_def)
  qed
qed

lemma FetchCoins_law:
  assumes c: "c_inv c" and f: "FetchCoins V c k = (r, c')"
  shows "live (map_option e_coins r) = c_utxo c k
    \<and> (\<forall>e. r = Some e \<longrightarrow> tidy (e_coins e) \<and> map_of (cacheCoins c') k = Some e)
    \<and> c_inv c' \<and> c_utxo c' = c_utxo c \<and> c_best c' = c_best c \<and> hashBlock c' = hashBlock c
    \<and> (\<forall>j. cache_resident c j \<longrightarrow> cache_resident c' j)"
proof (cases "map_of (cacheCoins c) k")
  case (Some e)
  then have "r = Some e" "c' = c" using f by (simp_all add: FetchCoins_def)
  moreover have "entry_ok (utxo (base c)) (resident (base c)) storable k e"
    using c Some by (auto simp: cache_inv_def intro: entries_ok_get)
  ultimately show ?thesis using c Some by (simp add: cache_utxo_def overlay_def entry_ok_def)
next
  case None
  obtain x b where g: "v_GetCoins V (base c) k = (x, b)" by (cases "v_GetCoins V (base c) k")
  note l = base_get [OF c g]
  show ?thesis
  proof (cases x)
    case none: None
    then have "r = None" "c' = c\<lparr> base := b \<rparr>" using f None g by (simp_all add: FetchCoins_def)
    then show ?thesis
      using c None l none by (auto simp: cache_inv_def cache_utxo_def overlay_def cache_best_def cache_resident_def)
  next
    case (Some tmp)
    define e where "e = \<lparr> e_coins = tmp, e_flags = (if IsPruned tmp then FRESH else 0) \<rparr>"
    have e: "r = Some e" "c' = c\<lparr> base := b, cacheCoins := (k, e) # cacheCoins c \<rparr>"
      using f None g Some by (simp_all add: FetchCoins_def e_def Let_def)
    have "entry_ok (utxo b) (resident b) storable k e"
      unfolding e_def FRESH_def by (rule fetched_entry [OF c g [unfolded Some]])
    then have "entries_ok (utxo b) (resident b) storable ((k, e) # cacheCoins c)"
      using l(1) None by (intro entries_ok_Cons)
    moreover have "overlay ((k, e) # cacheCoins c) (utxo b) = overlay (cacheCoins c) (utxo (base c))"
      using l(3,5) None Some by (intro ext) (simp add: overlay_def e_def)
    moreover have "live (Some tmp) = overlay (cacheCoins c) (utxo (base c)) k"
      using l(3,5) None Some by (simp add: overlay_def)
    ultimately show ?thesis
      using c e l Some by (auto simp: cache_inv_def cache_utxo_def cache_best_def cache_resident_def e_def)
  qed
qed

lemma BatchWrite_law:
  assumes c: "c_inv c" and m: "entries_ok (c_utxo c) (cache_resident c) storable m" and h: "h \<noteq> bu_zero 8"
  shows "\<exists>c'. cache_BatchWrite c m h = Some (True, c') \<and> c_inv c' \<and> c_utxo c' = overlay m (c_utxo c)
    \<and> c_best c' = h"
proof -
  have us: "entries_ok (utxo (base c)) (resident (base c)) storable (cacheCoins c)"
    using c by (simp add: cache_inv_def)
  have "entries_ok (overlay (cacheCoins c) (utxo (base c))) (\<lambda>k. map_of (cacheCoins c) k \<noteq> None) storable m"
    using m by (simp add: cache_utxo_def cache_resident_def [abs_def])
  from batch_loop_ok [OF us this] obtain us' where "batch_loop (cacheCoins c) m = Some us'"
    "entries_ok (utxo (base c)) (resident (base c)) storable us'"
    "overlay us' (utxo (base c)) = overlay m (overlay (cacheCoins c) (utxo (base c)))" by blast
  then show ?thesis
    using c h by (simp add: cache_BatchWrite_def cache_inv_def cache_utxo_def cache_best_def)
qed

lemma GetBestBlock_law:
  assumes c: "c_inv c" and g: "cache_GetBestBlock V c = (h, c')"
  shows "h = c_best c \<and> c_inv c' \<and> c_utxo c' = c_utxo c \<and> c_best c' = c_best c
    \<and> cacheCoins c' = cacheCoins c"
proof (cases "hashBlock c = bu_zero 8")
  case True
  obtain h' b where b: "v_GetBestBlock V (base c) = (h', b)" by (cases "v_GetBestBlock V (base c)")
  have "vinv (base c)" using c by (simp add: cache_inv_def)
  note l = best_law [OF this b]
  have "entries_ok (utxo b) (resident b) storable (cacheCoins c)"
    using c l entries_ok_mono [of _ "resident (base c)" _ _ "resident b"] by (auto simp: cache_inv_def)
  then show ?thesis
    using True b g c l by (auto simp: cache_GetBestBlock_def cache_inv_def cache_utxo_def cache_best_def)
qed (use assms in \<open>auto simp: cache_GetBestBlock_def cache_best_def\<close>)

text \<open>The contract one level up.\<close>

lemma cache_is_view:
  "coins_view (cache_view V) c_inv c_utxo c_best cache_resident storable"
proof unfold_locales
  fix c k r c'
  assume c: "c_inv c" and g: "v_GetCoins (cache_view V) c k = (r, c')"
  obtain e where e: "FetchCoins V c k = (e, c')" "r = map_option e_coins e"
    using g by (auto simp: cache_view_def cache_GetCoins_def split: prod.splits)
  from FetchCoins_law [OF c e(1)]
  show "live r = c_utxo c k \<and> (\<forall>x. r = Some x \<longrightarrow> tidy x \<and> cache_resident c' k) \<and> c_inv c'
      \<and> c_utxo c' = c_utxo c \<and> c_best c' = c_best c \<and> (\<forall>j. cache_resident c j \<longrightarrow> cache_resident c' j)"
    using e(2) by (auto simp: cache_resident_def)
next
  fix c k p c'
  assume c: "c_inv c" and g: "v_HaveCoins (cache_view V) c k = (p, c')"
  obtain e where e: "FetchCoins V c k = (e, c')" by (cases "FetchCoins V c k") (use g in \<open>auto simp: cache_view_def cache_HaveCoins_def split: option.splits\<close>)
  then have p: "p = (case e of None \<Rightarrow> False | Some e \<Rightarrow> c_vout (e_coins e) \<noteq> [])"
    using g by (auto simp: cache_view_def cache_HaveCoins_def split: option.splits)
  note l = FetchCoins_law [OF c e]
  have "p = (c_utxo c k \<noteq> None)"
  proof (cases e)
    case None
    then show ?thesis using l p by auto
  next
    case (Some x)
    then have "tidy (e_coins x)" "live (Some (e_coins x)) = c_utxo c k" using l by auto
    then show ?thesis using Some p tidy_pruned [of "e_coins x"] live_Some_iff(1) [of "e_coins x"] by auto
  qed
  then show "p = (c_utxo c k \<noteq> None) \<and> c_inv c' \<and> c_utxo c' = c_utxo c \<and> c_best c' = c_best c
      \<and> (\<forall>j. cache_resident c j \<longrightarrow> cache_resident c' j)" using l by blast
next
  fix c h c'
  assume c: "c_inv c" and g: "v_GetBestBlock (cache_view V) c = (h, c')"
  then show "h = c_best c \<and> c_inv c' \<and> c_utxo c' = c_utxo c \<and> c_best c' = c_best c
      \<and> (\<forall>j. cache_resident c j \<longrightarrow> cache_resident c' j)"
    using GetBestBlock_law [OF c, of h c'] by (auto simp: cache_view_def cache_resident_def)
next
  fix c k x
  assume c: "c_inv c" and u: "c_utxo c k = Some x"
  show "storable x"
  proof (cases "map_of (cacheCoins c) k")
    case None
    then show ?thesis
      using c u storable_law [of "base c" k x] by (simp add: cache_inv_def cache_utxo_def overlay_def)
  next
    case (Some e)
    then have "entry_ok (utxo (base c)) (resident (base c)) storable k e"
      using c by (auto simp: cache_inv_def intro: entries_ok_get)
    then show ?thesis using u Some by (simp add: cache_utxo_def overlay_def entry_ok_def live_Some_iff)
  qed
next
  fix c m h
  assume "c_inv c" "entries_ok (c_utxo c) (cache_resident c) storable m" "h \<noteq> bu_zero 8"
  then show "\<exists>c'. v_BatchWrite (cache_view V) c m h = Some (True, c') \<and> c_inv c'
      \<and> c_utxo c' = overlay m (c_utxo c) \<and> c_best c' = h"
    using BatchWrite_law by (simp add: cache_view_def)
qed

end

section \<open>Modifying and flushing\<close>

context coins_view
begin

text \<open>\<open>ModifyCoins\<close> hands out the coins the cache denotes (or coins with nothing unspent) and
  marks the entry.\<close>

lemma ModifyCoins_law:
  assumes c: "c_inv c"
  shows "\<exists>x e c'. ModifyCoins V c k = Some (x, c') \<and> live (Some x) = c_utxo c k \<and> tidy x
    \<and> hasModifier c' \<and> vinv (base c') \<and> hashBlock c' = hashBlock c \<and> best (base c') = best (base c)
    \<and> utxo (base c') = utxo (base c)
    \<and> entries_ok (utxo (base c')) (resident (base c')) storable (cacheCoins c')
    \<and> map_of (cacheCoins c') k = Some e \<and> is_dirty e
    \<and> overlay (cacheCoins c') (utxo (base c')) = c_utxo c"
proof -
  have nm: "\<not> hasModifier c" using c by (simp add: cache_inv_def)
  define E where "E = (case map_of (cacheCoins c) k of
      Some e \<Rightarrow> (e, base c)
    | None \<Rightarrow> (case v_GetCoins V (base c) k of
        (None, b) \<Rightarrow> (\<lparr> e_coins = CCoins_Clear CCoins_new, e_flags = FRESH \<rparr>, b)
      | (Some coins, b) \<Rightarrow> (\<lparr> e_coins = coins, e_flags = (if IsPruned coins then FRESH else 0) \<rparr>, b)))"
  obtain e b where E: "E = (e, b)" by (cases E)
  define e' where "e' = \<lparr> e_coins = e_coins e, e_flags = e_flags e OR 1 \<rparr>"
  define c' where "c' = c\<lparr> hasModifier := True, base := b, cacheCoins := AList.update k e' (cacheCoins c) \<rparr>"
  have m: "ModifyCoins V c k = Some (e_coins e, c')"
    using nm E by (cases e) (simp add: ModifyCoins_def E_def [symmetric] c'_def e'_def)
  have facts: "entries_ok (utxo b) (resident b) storable (cacheCoins c)" "vinv b" "utxo b = utxo (base c)"
    "best b = best (base c)" "entry_ok (utxo b) (resident b) storable k e" "live (Some (e_coins e)) = c_utxo c k"
  proof -
    have "entries_ok (utxo b) (resident b) storable (cacheCoins c) \<and> vinv b \<and> utxo b = utxo (base c)
      \<and> best b = best (base c) \<and> entry_ok (utxo b) (resident b) storable k e
      \<and> live (Some (e_coins e)) = c_utxo c k"
    proof (cases "map_of (cacheCoins c) k")
      case (Some x)
      then show ?thesis
        using c E by (auto simp: E_def cache_inv_def cache_utxo_def overlay_def intro: entries_ok_get)
    next
      case None
      obtain r b' where g: "v_GetCoins V (base c) k = (r, b')" by (cases "v_GetCoins V (base c) k")
      note l = base_get [OF c g]
      show ?thesis
      proof (cases r)
        case none: None
        then have "e = \<lparr> e_coins = CCoins_Clear CCoins_new, e_flags = 2 \<rparr>" "b' = b"
          using E None g by (simp_all add: E_def)
        moreover have "utxo b' k = None" using l(5) none by simp
        ultimately show ?thesis
          using l none None by (simp add: entry_ok_def cache_utxo_def overlay_def)
      next
        case (Some x)
        then have e: "e = \<lparr> e_coins = x, e_flags = (if IsPruned x then 2 else 0) \<rparr>" "b' = b"
          using E None g by (auto simp: E_def)
        have "entry_ok (utxo b') (resident b') storable k e"
          unfolding e by (rule fetched_entry [OF c g [unfolded Some], unfolded e(2)])
        then show ?thesis using l Some None e by (simp add: cache_utxo_def overlay_def)
      qed
    qed
    then show "entries_ok (utxo b) (resident b) storable (cacheCoins c)" "vinv b" "utxo b = utxo (base c)"
      "best b = best (base c)" "entry_ok (utxo b) (resident b) storable k e"
      "live (Some (e_coins e)) = c_utxo c k" by blast+
  qed
  have "is_fresh e' = is_fresh e" by (simp add: e'_def is_fresh_cong)
  then have "entry_ok (utxo b) (resident b) storable k e'"
    using facts(5) by (simp add: entry_ok_def) (simp add: e'_def)
  then have "entries_ok (utxo b) (resident b) storable (cacheCoins c')"
    using entries_ok_update [OF facts(1)] by (simp add: c'_def)
  moreover have "overlay (cacheCoins c') (utxo b) = c_utxo c"
    using facts(3,6) by (simp add: c'_def overlay_update e'_def cache_utxo_def fun_upd_idem)
  moreover have "map_of (cacheCoins c') k = Some e'" by (simp add: c'_def update_conv')
  moreover have "tidy (e_coins e)" using facts(5) by (simp add: entry_ok_def)
  ultimately show ?thesis
    using m facts by (intro exI [of _ "e_coins e"] exI [of _ e'] exI [of _ c'])
      (simp add: c'_def e'_def)
qed

text \<open>One modification, from the assertion of \<open>ModifyCoins\<close> to the end of the modifier.\<close>

lemma modify_law:
  assumes c: "c_inv c"
    and sto: "\<And>x. live (Some x) = c_utxo c k \<Longrightarrow> tidy x \<Longrightarrow>
      \<not> IsPruned (Cleanup (snd (f x))) \<Longrightarrow> storable (Cleanup (snd (f x)))"
  shows "\<exists>x c'. live (Some x) = c_utxo c k \<and> tidy x \<and> modify V k f c = Some (fst (f x), c')
    \<and> c_inv c' \<and> c_utxo c' = (c_utxo c)(k := live (Some (Cleanup (snd (f x)))))
    \<and> c_best c' = c_best c \<and> hashBlock c' = hashBlock c"
proof -
  obtain x e c1 where m: "ModifyCoins V c k = Some (x, c1)" "live (Some x) = c_utxo c k" "tidy x"
    "hasModifier c1" "vinv (base c1)" "hashBlock c1 = hashBlock c" "best (base c1) = best (base c)"
    "utxo (base c1) = utxo (base c)"
    "entries_ok (utxo (base c1)) (resident (base c1)) storable (cacheCoins c1)"
    "map_of (cacheCoins c1) k = Some e" "is_dirty e"
    "overlay (cacheCoins c1) (utxo (base c1)) = c_utxo c"
    using ModifyCoins_law [OF c, of k] by blast
  define y where "y = Cleanup (snd (f x))"
  define e' where "e' = \<lparr> e_coins = y, e_flags = e_flags e \<rparr>"
  define c' where "c' = c1\<lparr> hasModifier := False, cacheCoins :=
    (if is_fresh e' \<and> IsPruned y then AList.delete k (cacheCoins c1) else AList.update k e' (cacheCoins c1)) \<rparr>"
  have "modify V k f c = Some (fst (f x), c')"
    using m(1,4,10) unfolding c'_def e'_def y_def
    by (cases "f x") (simp add: modify_def EndModify_def Let_def)
  have e: "entry_ok (utxo (base c1)) (resident (base c1)) storable k e"
    using m(9,10) by (rule entries_ok_get)
  have fe: "is_fresh e' = is_fresh e" "is_dirty e'"
    using m(11) by (simp_all add: e'_def is_fresh_def is_dirty_def)
  have e': "entry_ok (utxo (base c1)) (resident (base c1)) storable k e'"
    using e fe sto [OF m(2,3)] Cleanup_tidy [of "snd (f x)"] by (simp add: entry_ok_def e'_def y_def)
  have "c_inv c'"
    using m(4,5,9) e' entries_ok_delete entries_ok_update by (auto simp: cache_inv_def c'_def)
  moreover have "c_utxo c' = (c_utxo c)(k := live (Some y))"
  proof (cases "is_fresh e' \<and> IsPruned y")
    case True
    then have "utxo (base c1) k = None" using e fe by (simp add: entry_ok_def)
    then show ?thesis using True m(12) by (simp add: cache_utxo_def c'_def overlay_delete)
  next
    case False
    then have "cacheCoins c' = AList.update k e' (cacheCoins c1)" "base c' = base c1"
      by (auto simp: c'_def)
    then show ?thesis using m(12) by (simp add: cache_utxo_def overlay_update e'_def)
  qed
  ultimately show ?thesis
    using m(2,3,6,7) \<open>modify V k f c = Some (fst (f x), c')\<close>
    by (intro exI [of _ x] exI [of _ c']) (simp add: y_def cache_best_def c'_def)
qed

lemma Flush_law:
  assumes c: "c_inv c" and h: "hashBlock c \<noteq> bu_zero 8"
  shows "\<exists>c'. Flush V c = Some (True, c') \<and> c_inv c' \<and> cacheCoins c' = [] \<and> c_utxo c' = c_utxo c
    \<and> c_best c' = c_best c \<and> utxo (base c') = c_utxo c \<and> best (base c') = c_best c"
proof -
  have "vinv (base c)" "entries_ok (utxo (base c)) (resident (base c)) storable (cacheCoins c)"
    using c by (simp_all add: cache_inv_def)
  from batch_law [OF this h] obtain b where b: "v_BatchWrite V (base c) (cacheCoins c) (hashBlock c) = Some (True, b)"
    "vinv b" "utxo b = overlay (cacheCoins c) (utxo (base c))" "best b = hashBlock c" by blast
  then show ?thesis
    using c h by (simp add: Flush_def cache_inv_def cache_utxo_def cache_best_def)
qed

lemma AccessCoins_law:
  assumes c: "c_inv c" and g: "AccessCoins V c k = (r, c')"
  shows "live r = c_utxo c k \<and> (\<forall>x. r = Some x \<longrightarrow> tidy x) \<and> c_inv c' \<and> c_utxo c' = c_utxo c
    \<and> c_best c' = c_best c \<and> hashBlock c' = hashBlock c"
proof -
  obtain e where e: "FetchCoins V c k = (e, c')" "r = map_option e_coins e"
    using g by (auto simp: AccessCoins_def split: prod.splits option.splits)
  from FetchCoins_law [OF c e(1)] show ?thesis using e(2) by auto
qed

end

section \<open>The database is a view\<close>

definition db_val :: "('p, 's, 'r) secp \<Rightarrow> (limbs \<times> bytes) list \<Rightarrow> limbs \<Rightarrow> CCoins option" where
  "db_val ec db k = (case map_of db k of
     None \<Rightarrow> None
   | Some v \<Rightarrow> (case unser_coins ec v of Inl _ \<Rightarrow> None | Inr (c, _) \<Rightarrow> live (Some c)))"

text \<open>Every record is what \<open>Serialize\<close> writes for coins within its bounds.\<close>

definition db_records_ok :: "('p, 's, 'r) secp \<Rightarrow> (limbs \<times> bytes) list \<Rightarrow> bool" where
  "db_records_ok ec db \<longleftrightarrow> distinct (map fst db)
     \<and> (\<forall>k v. map_of db k = Some v \<longrightarrow> (\<exists>c. coins_ok c \<and> ser_coins ec c = Some v))"

definition db_inv :: "('p, 's, 'r) secp \<Rightarrow> CCoinsViewDB \<Rightarrow> bool" where
  "db_inv ec b \<longleftrightarrow> decompresses ec \<and> db_records_ok ec (db_coins b)"

definition db_utxo :: "('p, 's, 'r) secp \<Rightarrow> CCoinsViewDB \<Rightarrow> limbs \<Rightarrow> CCoins option" where
  "db_utxo ec b = db_val ec (db_coins b)"

definition db_best_of :: "CCoinsViewDB \<Rightarrow> limbs" where
  "db_best_of b = (case db_best b of None \<Rightarrow> bu_zero 8 | Some h \<Rightarrow> h)"

definition anywhere :: "CCoinsViewDB \<Rightarrow> limbs \<Rightarrow> bool" where
  "anywhere b k \<longleftrightarrow> True"

lemma coins_ok_live: "coins_ok c \<Longrightarrow> \<not> IsPruned c \<and> tidy c"
  by (auto simp: coins_ok_def tidy_def IsPruned_def list_ex_iff intro!: bexI [of _ "last (c_vout c)"])

lemma db_record:
  assumes "decompresses ec" "db_records_ok ec db" "map_of db k = Some v"
  shows "\<exists>c. coins_ok c \<and> unser_coins ec v = Inr (c, []) \<and> db_val ec db k = Some c"
proof -
  obtain c where c: "coins_ok c" "ser_coins ec c = Some v"
    using assms(2,3) unfolding db_records_ok_def by blast
  then have "unser_coins ec v = Inr (c, [])" using unser_ser_coins [OF assms(1) c(1), of "[]"] by simp
  then show ?thesis using c(1) assms(3) coins_ok_live [OF c(1)] by (simp add: db_val_def)
qed

lemma db_get:
  assumes "db_inv ec b"
  shows "live (fst (db_GetCoins ec b k)) = db_utxo ec b k"
    "fst (db_GetCoins ec b k) = Some c \<Longrightarrow> coins_ok c"
    "db_utxo ec b k = Some c \<Longrightarrow> coins_ok c"
    "map_of (db_coins b) k \<noteq> None \<longleftrightarrow> db_utxo ec b k \<noteq> None"
proof -
  note r = db_record [of ec "db_coins b" k]
  show "live (fst (db_GetCoins ec b k)) = db_utxo ec b k"
    by (simp add: db_GetCoins_def db_utxo_def db_val_def split: option.split sum.split)
  show "fst (db_GetCoins ec b k) = Some c \<Longrightarrow> coins_ok c"
    using assms r by (auto simp: db_inv_def db_GetCoins_def split: option.splits sum.splits)
  show "db_utxo ec b k = Some c \<Longrightarrow> coins_ok c"
    using assms r by (cases "map_of (db_coins b) k") (auto simp: db_inv_def db_utxo_def db_val_def [of _ _ k])
  show "map_of (db_coins b) k \<noteq> None \<longleftrightarrow> db_utxo ec b k \<noteq> None"
    using assms r by (cases "map_of (db_coins b) k") (auto simp: db_inv_def db_utxo_def db_val_def [of _ _ k])
qed

lemma db_batch_step:
  assumes ec: "decompresses ec" and db: "db_records_ok ec db"
    and e: "\<not> IsPruned (e_coins e) \<Longrightarrow> coins_ok (e_coins e)"
    and clean: "\<not> is_dirty e \<Longrightarrow> live (Some (e_coins e)) = db_val ec db k"
  shows "\<exists>db'. db_batch_loop ec db ((k, e) # m) = db_batch_loop ec db' m \<and> db_records_ok ec db'
    \<and> db_val ec db' = (db_val ec db)(k := live (Some (e_coins e)))"
proof (cases "is_dirty e")
  case False
  then show ?thesis using db clean by (intro exI [of _ db]) (simp add: fun_upd_idem)
next
  case dirty: True
  show ?thesis
  proof (cases "IsPruned (e_coins e)")
    case True
    then show ?thesis using dirty db
      by (intro exI [of _ "AList.delete k db"])
        (auto simp: BatchWriteCoins_def db_records_ok_def delete_conv' distinct_delete db_val_def fun_eq_iff
          split: if_splits)
  next
    case False
    note ok = e [OF False]
    obtain v where v: "ser_coins ec (e_coins e) = Some v" "unser_coins ec v = Inr (e_coins e, [])"
      using unser_ser_coins [OF ec ok, of "[]"] by auto
    have "db_records_ok ec (AList.update k v db)"
      using db ok v(1) by (auto simp: db_records_ok_def update_conv' distinct_update)
    moreover have "db_val ec (AList.update k v db) = (db_val ec db)(k := live (Some (e_coins e)))"
      using v(2) by (auto simp: db_val_def update_conv' fun_eq_iff)
    ultimately show ?thesis
      using dirty False v(1) by (intro exI [of _ "AList.update k v db"]) (simp add: BatchWriteCoins_def)
  qed
qed

lemma db_batch_ok:
  "decompresses ec \<Longrightarrow> db_records_ok ec db \<Longrightarrow> entries_ok (db_val ec db) (\<lambda>_. True) coins_ok m \<Longrightarrow>
    \<exists>db'. db_batch_loop ec db m = Some db' \<and> db_records_ok ec db' \<and> db_val ec db' = overlay m (db_val ec db)"
proof (induction m arbitrary: db)
  case Nil
  then show ?case by simp
next
  case (Cons x m)
  obtain k e where x: "x = (k, e)" by (cases x)
  have e: "entry_ok (db_val ec db) (\<lambda>_. True) coins_ok k e"
    using entries_ok_get [OF Cons.prems(3), of k e] by (simp add: x)
  have notin: "map_of m k = None" using Cons.prems(3) by (simp add: entries_ok_def x map_of_eq_None_iff)
  obtain db1 where db1: "db_batch_loop ec db (x # m) = db_batch_loop ec db1 m" "db_records_ok ec db1"
    "db_val ec db1 = (db_val ec db)(k := live (Some (e_coins e)))"
    using db_batch_step [OF Cons.prems(1,2), of e k m] e by (auto simp: x entry_ok_def)
  have "entries_ok (db_val ec db1) (\<lambda>_. True) coins_ok m"
    using Cons.prems(3) notin by (auto simp: entries_ok_def x db1(3) entry_ok_def split: if_splits)
  from Cons.IH [OF Cons.prems(1) db1(2) this] obtain db' where "db_batch_loop ec db1 m = Some db'"
    "db_records_ok ec db'" "db_val ec db' = overlay m (db_val ec db1)" by blast
  moreover have "overlay m (db_val ec db1) = overlay (x # m) (db_val ec db)"
    using notin by (intro ext) (auto simp: overlay_def x db1(3) split: option.splits)
  ultimately show ?case using db1(1) by simp
qed

interpretation db: coins_view "db_view ec" "db_inv ec" "db_utxo ec" db_best_of anywhere coins_ok
  for ec
proof unfold_locales
  fix b k r b'
  assume "db_inv ec b" "v_GetCoins (db_view ec) b k = (r, b')"
  moreover from this have "b' = b" "r = fst (db_GetCoins ec b k)"
    by (auto simp: db_view_def db_GetCoins_def)
  ultimately show "live r = db_utxo ec b k \<and> (\<forall>c. r = Some c \<longrightarrow> tidy c \<and> anywhere b' k) \<and> db_inv ec b'
      \<and> db_utxo ec b' = db_utxo ec b \<and> db_best_of b' = db_best_of b \<and> (\<forall>j. anywhere b j \<longrightarrow> anywhere b' j)"
    using db_get(1) [of ec b k] db_get(2) [of ec b k, THEN coins_ok_live] by (simp add: anywhere_def)
next
  fix b k p b'
  assume "db_inv ec b" "v_HaveCoins (db_view ec) b k = (p, b')"
  then show "p = (db_utxo ec b k \<noteq> None) \<and> db_inv ec b' \<and> db_utxo ec b' = db_utxo ec b
      \<and> db_best_of b' = db_best_of b \<and> (\<forall>j. anywhere b j \<longrightarrow> anywhere b' j)"
    using db_get(4) [of ec b k] by (auto simp: db_view_def db_HaveCoins_def)
next
  fix b h b'
  assume "db_inv ec b" "v_GetBestBlock (db_view ec) b = (h, b')"
  then show "h = db_best_of b \<and> db_inv ec b' \<and> db_utxo ec b' = db_utxo ec b \<and> db_best_of b' = db_best_of b
      \<and> (\<forall>j. anywhere b j \<longrightarrow> anywhere b' j)"
    by (auto simp: db_view_def db_GetBestBlock_def db_best_of_def)
next
  fix b k c
  assume "db_inv ec b" "db_utxo ec b k = Some c"
  then show "coins_ok c" by (rule db_get(3))
next
  fix b m h
  assume "db_inv ec b" "entries_ok (db_utxo ec b) (anywhere b) coins_ok m" "h \<noteq> bu_zero 8"
  then show "\<exists>b'. v_BatchWrite (db_view ec) b m h = Some (True, b') \<and> db_inv ec b'
      \<and> db_utxo ec b' = overlay m (db_utxo ec b) \<and> db_best_of b' = h"
    using db_batch_ok [of ec "db_coins b" m]
    by (auto simp: db_inv_def db_utxo_def anywhere_def [abs_def] db_view_def db_BatchWrite_def db_best_of_def)
qed

text \<open>\<open>pcoinsTip\<close> is a cache over the database, and the view in which a block is connected or
  disconnected is a cache over that.\<close>

interpretation tip: coins_view "cache_view (db_view ec)" "cache_inv (db_inv ec) (db_utxo ec) anywhere coins_ok"
    "cache_utxo (db_utxo ec)" "cache_best db_best_of" cache_resident coins_ok
  for ec
  by (rule db.cache_is_view)

interpretation block: coins_view "cache_view (cache_view (db_view ec))"
    "cache_inv (cache_inv (db_inv ec) (db_utxo ec) anywhere coins_ok) (cache_utxo (db_utxo ec)) cache_resident coins_ok"
    "cache_utxo (cache_utxo (db_utxo ec))" "cache_best (cache_best db_best_of)" cache_resident coins_ok
  for ec
  by (rule tip.cache_is_view)

section \<open>What flushing publishes\<close>

type_synonym tip_state = "CCoinsViewDB CCoinsViewCache"
type_synonym block_state = "tip_state CCoinsViewCache"

definition tip_inv :: "('p, 's, 'r) secp \<Rightarrow> tip_state \<Rightarrow> bool" where
  "tip_inv ec = cache_inv (db_inv ec) (db_utxo ec) anywhere coins_ok"

definition tip_utxo :: "('p, 's, 'r) secp \<Rightarrow> tip_state \<Rightarrow> limbs \<Rightarrow> CCoins option" where
  "tip_utxo ec = cache_utxo (db_utxo ec)"

definition block_inv :: "('p, 's, 'r) secp \<Rightarrow> block_state \<Rightarrow> bool" where
  "block_inv ec = cache_inv (tip_inv ec) (tip_utxo ec) cache_resident coins_ok"

definition block_utxo :: "('p, 's, 'r) secp \<Rightarrow> block_state \<Rightarrow> limbs \<Rightarrow> CCoins option" where
  "block_utxo ec = cache_utxo (tip_utxo ec)"

lemmas stack_defs = tip_inv_def tip_utxo_def block_inv_def block_utxo_def

lemma fresh_cache:
  "tip_inv ec t \<Longrightarrow> block_inv ec (CCoinsViewCache_of t) \<and> block_utxo ec (CCoinsViewCache_of t) = tip_utxo ec t"
  by (simp add: stack_defs CCoinsViewCache_of_def cache_inv_def cache_utxo_def)

lemma BatchWrite_hash: "cache_BatchWrite c m h = Some (ok, c') \<Longrightarrow> hashBlock c' = h"
  by (auto simp: cache_BatchWrite_def split: if_splits)

lemma Flush_base:
  "Flush V c = Some (ok, c') \<Longrightarrow> v_BatchWrite V (base c) (cacheCoins c) (hashBlock c) = Some (ok, base c')"
  by (auto simp: Flush_def)

text \<open>C9: Flushing.  When the view of a block, a cache over \<open>pcoinsTip\<close> which is a cache over the
  database, keeps its invariant and has a best block, \<open>Flush\<close> succeeds: no assertion on \<open>FRESH\<close>
  fails, at either level nothing that was spent or added is lost, and after flushing
  \<open>pcoinsTip\<close> as well the database itself denotes exactly the unspent outputs the view had, with
  its best block.\<close>

theorem Flush_publishes:
  assumes "block_inv ec c" "hashBlock c \<noteq> bu_zero 8"
  shows "\<exists>c' t'. Flush (cache_view (db_view ec)) c = Some (True, c')
    \<and> block_inv ec c' \<and> cacheCoins c' = [] \<and> tip_utxo ec (base c') = block_utxo ec c
    \<and> Flush (db_view ec) (base c') = Some (True, t')
    \<and> tip_inv ec t' \<and> db_utxo ec (base t') = block_utxo ec c \<and> db_best_of (base t') = hashBlock c"
proof -
  obtain c' where c': "Flush (cache_view (db_view ec)) c = Some (True, c')" "block_inv ec c'" "cacheCoins c' = []"
    "tip_utxo ec (base c') = block_utxo ec c" "cache_best db_best_of (base c') = hashBlock c"
    using tip.Flush_law [of ec c] assms by (auto simp: stack_defs cache_best_def)
  have t: "tip_inv ec (base c')" using c'(2) by (simp add: block_inv_def cache_inv_def)
  have "hashBlock (base c') = hashBlock c"
  proof -
    have "cache_BatchWrite (base c) (cacheCoins c) (hashBlock c) = Some (True, base c')"
      using Flush_base [OF c'(1)] by (simp add: cache_view_def)
    then show ?thesis by (rule BatchWrite_hash)
  qed
  then show ?thesis
    using c' db.Flush_law [of ec "base c'"] t assms(2) by (auto simp: stack_defs cache_best_def)
qed

definition empty_tip :: tip_state where
  "empty_tip = CCoinsViewCache_of \<lparr> db_coins = [], db_best = None \<rparr>"

text \<open>A view in which the coins of one transaction are new.\<close>

definition sample_view :: block_state where
  "sample_view = (CCoinsViewCache_of empty_tip)\<lparr> hashBlock := [1, 0, 0, 0, 0, 0, 0, 0],
     cacheCoins := [([7, 0, 0, 0, 0, 0, 0, 0], \<lparr> e_coins = sample_coins, e_flags = 3 \<rparr>)] \<rparr>"

lemma sample_coins_ok: "coins_ok sample_coins"
  by (simp add: coins_ok_def ctxout_ok_def sample_coins_def sample_out_def CTxOut_of_def
      CTxOut_IsNull_def CTxOut_null_def word_sle_eq)

lemma empty_tip_inv: "tip_inv diagonal_secp empty_tip"
  by (simp add: tip_inv_def cache_inv_def empty_tip_def CCoinsViewCache_of_def db_inv_def
      db_records_ok_def diagonal_decompresses)

lemma sample_view_inv: "block_inv diagonal_secp sample_view"
proof -
  have "entry_ok (tip_utxo diagonal_secp empty_tip) (cache_resident empty_tip) coins_ok
      [7, 0, 0, 0, 0, 0, 0, 0] \<lparr> e_coins = sample_coins, e_flags = 3 \<rparr>"
    using sample_coins_ok coins_ok_live [OF sample_coins_ok]
    by (simp add: entry_ok_def tip_utxo_def cache_utxo_def empty_tip_def CCoinsViewCache_of_def db_utxo_def
        db_val_def)
  then show ?thesis
    using empty_tip_inv
    by (simp add: block_inv_def cache_inv_def sample_view_def CCoinsViewCache_of_def entries_ok_def)
qed

theorem Flush_publishes_witness:
  "\<exists>c' t'. Flush (cache_view (db_view diagonal_secp)) sample_view = Some (True, c')
    \<and> block_inv diagonal_secp c' \<and> cacheCoins c' = []
    \<and> tip_utxo diagonal_secp (base c') = block_utxo diagonal_secp sample_view
    \<and> Flush (db_view diagonal_secp) (base c') = Some (True, t')
    \<and> tip_inv diagonal_secp t' \<and> db_utxo diagonal_secp (base t') = block_utxo diagonal_secp sample_view
    \<and> db_best_of (base t') = hashBlock sample_view"
  by (rule Flush_publishes [OF sample_view_inv]) (simp add: sample_view_def bu_zero_def eval_nat_numeral)

end
