(* ===== verification/Validation.thy ===== *)
theory Validation
  imports CoinsView Chain
begin

unbundle bit_operations_syntax

text \<open>
  The rules a transaction has to meet, of \<open>src/main.cpp\<close>: \<open>CValidationState\<close>, \<open>CheckTransaction\<close>,
  \<open>IsFinalTx\<close>, the counts of signature operations, \<open>CheckInputs\<close> with its script checks, and the
  subsidy schedule.  A check returns its result together with the validation state it leaves; what
  ends the process or leaves the defined behaviour of the language (a failed assertion, the
  exception of \<open>GetValueOut\<close>, an index out of range) is a \<open>failure\<close>.

  The checks of zerocoin mints and spends work on the group arithmetic of the zerocoin library and
  are arguments of \<open>CheckTransaction\<close>.
\<close>

datatype failure = Assertion_failed | Thrown value_error | Out_of_range

section \<open>The validation state\<close>

datatype mode_state = MODE_VALID | MODE_INVALID | MODE_ERROR

record CValidationState =
  mode :: mode_state
  nDoS :: u32
  strRejectReason :: string
  chRejectCode :: u8
  corruptionPossible :: bool

definition CValidationState_new :: CValidationState where
  "CValidationState_new = \<lparr> mode = MODE_VALID, nDoS = 0, strRejectReason = [], chRejectCode = 0,
     corruptionPossible = False \<rparr>"

definition DoS :: "u32 \<Rightarrow> bool \<Rightarrow> u8 \<Rightarrow> string \<Rightarrow> bool \<Rightarrow> CValidationState \<Rightarrow> bool \<times> CValidationState" where
  "DoS level ret chRejectCodeIn strRejectReasonIn corruptionIn st =
     (let st = st\<lparr> chRejectCode := chRejectCodeIn, strRejectReason := strRejectReasonIn,
                   corruptionPossible := corruptionIn \<rparr> in
      if mode st = MODE_ERROR then (ret, st)
      else (ret, st\<lparr> nDoS := nDoS st + level, mode := MODE_INVALID \<rparr>))"

definition Invalid :: "bool \<Rightarrow> u8 \<Rightarrow> string \<Rightarrow> CValidationState \<Rightarrow> bool \<times> CValidationState" where
  "Invalid ret code reason = DoS 0 ret code reason False"

definition Error :: "string \<Rightarrow> CValidationState \<Rightarrow> bool \<times> CValidationState" where
  "Error strRejectReasonIn st =
     (False, (if mode st = MODE_VALID then st\<lparr> strRejectReason := strRejectReasonIn \<rparr> else st)
       \<lparr> mode := MODE_ERROR \<rparr>)"

definition vs_IsValid :: "CValidationState \<Rightarrow> bool" where
  "vs_IsValid st \<longleftrightarrow> mode st = MODE_VALID"

definition vs_IsInvalid :: "CValidationState \<Rightarrow> bool" where
  "vs_IsInvalid st \<longleftrightarrow> mode st = MODE_INVALID"

definition vs_IsError :: "CValidationState \<Rightarrow> bool" where
  "vs_IsError st \<longleftrightarrow> mode st = MODE_ERROR"

definition IsInvalid_nDoS :: "CValidationState \<Rightarrow> u32 option" where
  "IsInvalid_nDoS st = (if vs_IsInvalid st then Some (nDoS st) else None)"

definition REJECT_INVALID :: u8 where "REJECT_INVALID = 0x10"
definition REJECT_NONSTANDARD :: u8 where "REJECT_NONSTANDARD = 0x40"

section \<open>Amounts, finality and signature operations\<close>

definition MoneyRange :: "CChainParams \<Rightarrow> amount \<Rightarrow> bool" where
  "MoneyRange P nValueOut \<longleftrightarrow> 0 <=s nValueOut \<and> nValueOut <=s nMaxMoneyOut P"

text \<open>The height of the active chain and the adjusted time stand in for arguments that are 0.\<close>

definition IsFinalTx :: "int \<Rightarrow> int \<Rightarrow> CTransaction \<Rightarrow> int \<Rightarrow> int \<Rightarrow> bool" where
  "IsFinalTx nChainHeight nAdjustedTime tx nBlockHeight nBlockTime =
     (if nLockTime tx = 0 then True
      else
        let nBlockHeight = (if nBlockHeight = 0 then nChainHeight else nBlockHeight);
            nBlockTime = (if nBlockTime = 0 then nAdjustedTime else nBlockTime);
            lock = uint (nLockTime tx)
        in if lock < (if lock < int LOCKTIME_THRESHOLD then nBlockHeight else nBlockTime) then True
           else list_all IsFinal (vin tx))"

definition LOCKTIME_MEDIAN_TIME_PAST :: int where "LOCKTIME_MEDIAN_TIME_PAST = 2"

text \<open>\<open>nMedianTimePast\<close> is the one of the tip.\<close>

definition CheckFinalTx :: "int \<Rightarrow> int \<Rightarrow> int \<Rightarrow> CTransaction \<Rightarrow> int \<Rightarrow> bool" where
  "CheckFinalTx nChainHeight nAdjustedTime nMedianTimePast tx flags =
     (let flags = max flags 0;
          nBlockHeight = nChainHeight + 1;
          nBlockTime = (if flags AND LOCKTIME_MEDIAN_TIME_PAST \<noteq> 0 then nMedianTimePast else nAdjustedTime)
      in IsFinalTx nChainHeight nAdjustedTime tx nBlockHeight nBlockTime)"

definition GetLegacySigOpCount :: "CTransaction \<Rightarrow> u32" where
  "GetLegacySigOpCount tx =
     foldl (\<lambda>nSigOps txo. nSigOps + of_nat (GetSigOpCount (scriptPubKey txo) False))
       (foldl (\<lambda>nSigOps i. nSigOps + of_nat (GetSigOpCount (scriptSig i) False)) 0 (vin tx)) (vout tx)"

fun p2sh_sigops_loop ::
  "'b CCoinsView \<Rightarrow> CTxIn list \<Rightarrow> u32 \<Rightarrow> 'b CCoinsViewCache \<Rightarrow> (u32 \<times> 'b CCoinsViewCache) option" where
  "p2sh_sigops_loop V [] nSigOps c = Some (nSigOps, c)"
| "p2sh_sigops_loop V (i # is) nSigOps c =
     (case GetOutputFor V c i of
        None \<Rightarrow> None
      | Some (prev, c) \<Rightarrow> p2sh_sigops_loop V is
          (if IsPayToScriptHash (scriptPubKey prev)
           then nSigOps + of_nat (GetSigOpCount_P2SH (scriptPubKey prev) (scriptSig i)) else nSigOps) c)"

definition GetP2SHSigOpCount ::
  "'b CCoinsView \<Rightarrow> 'b CCoinsViewCache \<Rightarrow> CTransaction \<Rightarrow> (u32 \<times> 'b CCoinsViewCache) option" where
  "GetP2SHSigOpCount V c tx =
     (if IsCoinBase tx \<or> HasZerocoinSpendInputs tx then Some (0, c) else p2sh_sigops_loop V (vin tx) 0 c)"

text \<open>The subsidy of the block after height \<open>nHeight\<close>; \<open>6.5 * COIN\<close> and \<open>5.5 * COIN\<close> are exact in
  double precision.\<close>

definition GetBlockValue :: "CChainParams \<Rightarrow> int \<Rightarrow> int" where
  "GetBlockValue P h =
     (if networkID P = TESTNET \<and> h < 200 \<and> h > 0 then 250000 * COIN_int
      else if h = 0 then 70001 * COIN_int
      else if h < 321 \<and> h > 0 then 10 * COIN_int
      else if h < 63360 \<and> h > 321 then 10 * COIN_int
      else if h < 106560 \<and> h > 63360 then 7 * COIN_int
      else if h < 149760 \<and> h > 106560 then 650000000
      else if h < 192960 \<and> h > 149760 then 6 * COIN_int
      else if h < 236160 \<and> h > 192960 then 550000000
      else if h \<le> 279360 \<and> h > 236160 then 5 * COIN_int
      else if h \<le> 322560 \<and> h > 279360 then 4 * COIN_int
      else if h > 322560 then 3 * COIN_int
      else 1 * COIN_int)"

section \<open>Checks that need no context\<close>

text \<open>The zerocoin checks; the arguments are those of the functions, with the validation state.\<close>

record zerocoin_checks =
  CheckZerocoinMint :: "limbs \<Rightarrow> CTxOut \<Rightarrow> CValidationState \<Rightarrow> bool \<times> CValidationState"
  CheckZerocoinSpend :: "CTransaction \<Rightarrow> bool \<Rightarrow> CValidationState \<Rightarrow> bool \<Rightarrow> bool \<times> CValidationState"

text \<open>What the rest of the node answers: the clock, the initial download, the time of the tip.\<close>

record node_clock =
  IsInitialBlockDownload :: bool
  GetTime :: int
  tip_time :: int

definition Zerocoin_MaxSpendsPerTransaction :: nat where "Zerocoin_MaxSpendsPerTransaction = 7"
definition Zerocoin_MaxPublicSpendsPerTransaction :: nat where "Zerocoin_MaxPublicSpendsPerTransaction = 637"
definition MAX_ZEROCOIN_TX_SIZE :: nat where "MAX_ZEROCOIN_TX_SIZE = 150000"

abbreviation reject_tx :: "u32 \<Rightarrow> string \<Rightarrow> CValidationState \<Rightarrow> bool \<times> CValidationState" where
  "reject_tx level reason \<equiv> DoS level False REJECT_INVALID reason False"

abbreviation reject_plain :: "u32 \<Rightarrow> CValidationState \<Rightarrow> bool \<times> CValidationState" where
  "reject_plain level \<equiv> DoS level False 0 [] False"

text \<open>A loop of the function that may return from it: \<open>Inl\<close> is the early return.\<close>

fun check_outputs :: "CChainParams \<Rightarrow> zerocoin_checks \<Rightarrow> CTransaction \<Rightarrow> bool \<Rightarrow> CTxOut list \<Rightarrow> amount
    \<Rightarrow> CValidationState \<Rightarrow> (bool \<times> CValidationState) + CValidationState" where
  "check_outputs P Z tx fZerocoinActive [] nValueOut st = Inr st"
| "check_outputs P Z tx fZerocoinActive (txo # os) nValueOut st =
     (if CTxOut_IsEmpty txo \<and> \<not> IsCoinBase tx \<and> \<not> IsCoinStake tx then Inl (reject_plain 100 st)
      else if nValue txo <s 0 then Inl (reject_tx 100 ''bad-txns-vout-negative'' st)
      else if nMaxMoneyOut P <s nValue txo then Inl (reject_tx 100 ''bad-txns-vout-toolarge'' st)
      else
        let nValueOut = nValueOut + nValue txo in
        if \<not> MoneyRange P nValueOut then Inl (reject_tx 100 ''bad-txns-txouttotal-toolarge'' st)
        else if fZerocoinActive \<and> CTxOut_IsZerocoinMint txo then
          (case CheckZerocoinMint Z (tx_hash tx) txo st of
             (False, st) \<Rightarrow> Inl (reject_plain 100 st)
           | (True, st) \<Rightarrow> check_outputs P Z tx fZerocoinActive os nValueOut st)
        else check_outputs P Z tx fZerocoinActive os nValueOut st)"

text \<open>The loop over the inputs: the set of the outpoints seen and \<open>nZCSpendCount\<close>.\<close>

fun check_duplicates :: "CTxIn list \<Rightarrow> COutPoint list \<Rightarrow> nat \<Rightarrow> CValidationState
    \<Rightarrow> (bool \<times> CValidationState) + nat" where
  "check_duplicates [] vInOutPoints nZCSpendCount st = Inr nZCSpendCount"
| "check_duplicates (i # is) vInOutPoints nZCSpendCount st =
     (if prevout i \<in> set vInOutPoints then Inl (reject_tx 100 ''bad-txns-inputs-duplicate'' st)
      else if \<not> CTxIn_IsZerocoinSpend i then check_duplicates is (prevout i # vInOutPoints) nZCSpendCount st
      else if \<not> CTxIn_IsZerocoinPublicSpend i then check_duplicates is vInOutPoints (nZCSpendCount + 1) st
      else check_duplicates is vInOutPoints nZCSpendCount st)"

definition check_zerocoin_part :: "zerocoin_checks \<Rightarrow> node_clock \<Rightarrow> CTransaction \<Rightarrow> bool \<Rightarrow> nat
    \<Rightarrow> CValidationState \<Rightarrow> (bool \<times> CValidationState) + CValidationState" where
  "check_zerocoin_part Z N tx fFakeSerialAttack nZCSpendCount st =
     (if nZCSpendCount > Zerocoin_MaxSpendsPerTransaction then Inl (reject_plain 100 st)
      else if HasZerocoinSpendInputs tx then
        if list_ex (\<lambda>i. \<not> CTxIn_IsZerocoinSpend i \<and> \<not> CTxIn_IsZerocoinPublicSpend i) (vin tx)
        then Inl (reject_plain 100 st)
        else
          let fVerifySignature = (\<not> IsInitialBlockDownload N \<and> GetTime N - tip_time N < 60 * 60 * 24) in
          (case CheckZerocoinSpend Z tx fVerifySignature st fFakeSerialAttack of
             (False, st) \<Rightarrow> Inl (reject_plain 100 st)
           | (True, st) \<Rightarrow> Inr st)
      else Inr st)"

definition check_input_forms :: "CTransaction \<Rightarrow> bool \<Rightarrow> CValidationState \<Rightarrow> bool \<times> CValidationState" where
  "check_input_forms tx fZerocoinActive st =
     (if IsCoinBase tx then
        if length (scriptSig (vin tx ! 0)) < 2 \<or> length (scriptSig (vin tx ! 0)) > 150
        then reject_tx 100 ''bad-cb-length'' st
        else (True, st)
      else if fZerocoinActive \<and> HasZerocoinSpendInputs tx then
        if length (vin tx) < 1 then reject_tx 10 ''bad-zerocoinspend'' st
        else if HasZerocoinPublicSpendInputs tx then
          if length (vin tx) > Zerocoin_MaxPublicSpendsPerTransaction then reject_tx 10 ''bad-zerocoinspend'' st
          else (True, st)
        else if length (vin tx) > Zerocoin_MaxSpendsPerTransaction then reject_tx 10 ''bad-zerocoinspend'' st
        else (True, st)
      else if list_ex (\<lambda>i. COutPoint_IsNull (prevout i) \<and> fZerocoinActive \<and> \<not> CTxIn_IsZerocoinSpend i) (vin tx)
      then reject_tx 10 ''bad-txns-prevout-null'' st
      else (True, st))"

definition CheckTransaction :: "CChainParams \<Rightarrow> zerocoin_checks \<Rightarrow> node_clock \<Rightarrow> CTransaction \<Rightarrow> bool \<Rightarrow> bool
    \<Rightarrow> CValidationState \<Rightarrow> bool \<Rightarrow> bool \<times> CValidationState" where
  "CheckTransaction P Z N tx fZerocoinActive fRejectBadUTXO st fFakeSerialAttack =
     (if vin tx = [] then reject_tx 10 ''bad-txns-vin-empty'' st
      else if vout tx = [] then reject_tx 10 ''bad-txns-vout-empty'' st
      else if length (ser_tx tx) > MAX_ZEROCOIN_TX_SIZE then reject_tx 100 ''bad-txns-oversize'' st
      else case check_outputs P Z tx fZerocoinActive (vout tx) 0 st of
        Inl r \<Rightarrow> r
      | Inr st \<Rightarrow> (case check_duplicates (vin tx) [] 0 st of
          Inl r \<Rightarrow> r
        | Inr nZCSpendCount \<Rightarrow>
            (case (if fZerocoinActive then check_zerocoin_part Z N tx fFakeSerialAttack nZCSpendCount st
                   else Inr st) of
               Inl r \<Rightarrow> r
             | Inr st \<Rightarrow> check_input_forms tx fZerocoinActive st)))"

section \<open>Checks against the unspent outputs\<close>

text \<open>\<open>CScriptCheck\<close>.  The cache of \<open>CachingTransactionSignatureChecker\<close> remembers signatures that
  were verified, and so answers as \<open>TransactionSignatureChecker\<close> does.\<close>

record CScriptCheck =
  sc_scriptPubKey :: bytes
  sc_ptxTo :: CTransaction
  sc_nIn :: nat
  sc_nFlags :: u32
  sc_cacheStore :: bool
  sc_error :: ScriptError

definition CScriptCheck_of :: "CCoins \<Rightarrow> CTransaction \<Rightarrow> nat \<Rightarrow> u32 \<Rightarrow> bool \<Rightarrow> failure + CScriptCheck" where
  "CScriptCheck_of coins tx n flags store =
     (let k = unat (op_n (prevout (vin tx ! n))) in
      if k \<ge> length (c_vout coins) then Inl Out_of_range
      else Inr \<lparr> sc_scriptPubKey = scriptPubKey (c_vout coins ! k), sc_ptxTo = tx, sc_nIn = n,
             sc_nFlags = flags, sc_cacheStore = store, sc_error = SCRIPT_ERR_UNKNOWN_ERROR \<rparr>)"

definition script_env_of :: "('p, 's, 'r) secp \<Rightarrow> CTransaction \<Rightarrow> nat \<Rightarrow> u32 \<Rightarrow> script_env" where
  "script_env_of ec tx n flags = \<lparr> se_flags = flags,
     se_checker = TransactionSignatureChecker (pubkey_ops_of ec) tx n, se_lowS = CheckLowS ec \<rparr>"

text \<open>Running a check: its result, and the error it leaves.\<close>

definition CScriptCheck_run :: "('p, 's, 'r) secp \<Rightarrow> CScriptCheck \<Rightarrow> failure + (bool \<times> CScriptCheck)" where
  "CScriptCheck_run ec k =
     (case VerifyScript (script_env_of ec (sc_ptxTo k) (sc_nIn k) (sc_nFlags k))
             (scriptSig (vin (sc_ptxTo k) ! sc_nIn k)) (sc_scriptPubKey k) of
        None \<Rightarrow> Inl Assertion_failed
      | Some (Inl e) \<Rightarrow> Inr (False, k\<lparr> sc_error := e \<rparr>)
      | Some (Inr _) \<Rightarrow> Inr (True, k\<lparr> sc_error := SCRIPT_ERR_OK \<rparr>))"

definition flag_reason :: "string \<Rightarrow> CScriptCheck \<Rightarrow> string" where
  "flag_reason reason check = reason @ ScriptErrorString (sc_error check) @ '')''"

definition STANDARD_NOT_MANDATORY_VERIFY_FLAGS :: u32 where
  "STANDARD_NOT_MANDATORY_VERIFY_FLAGS =
     (SCRIPT_VERIFY_P2SH OR SCRIPT_VERIFY_DERSIG OR SCRIPT_VERIFY_STRICTENC OR SCRIPT_VERIFY_MINIMALDATA
       OR SCRIPT_VERIFY_NULLDUMMY OR SCRIPT_VERIFY_DISCOURAGE_UPGRADABLE_NOPS) AND NOT SCRIPT_VERIFY_P2SH"

text \<open>The loop over the values of the inputs.  \<open>Inl\<close> is the early return.\<close>

fun input_values :: "'b CCoinsView \<Rightarrow> CChainParams \<Rightarrow> int \<Rightarrow> CTxIn list \<Rightarrow> amount \<Rightarrow> CValidationState
    \<Rightarrow> 'b CCoinsViewCache \<Rightarrow> failure + ((bool \<times> CValidationState) + amount) \<times> 'b CCoinsViewCache" where
  "input_values V P nSpendHeight [] nValueIn st c = Inr (Inr nValueIn, c)"
| "input_values V P nSpendHeight (i # is) nValueIn st c =
     (case AccessCoins V c (op_hash (prevout i)) of
        (None, c) \<Rightarrow> Inl Assertion_failed
      | (Some coins, c) \<Rightarrow>
          if (fCoinBase coins \<or> fCoinStake coins) \<and> nSpendHeight - sint (c_nHeight coins) < nMaturity P
          then Inr (Inl (Invalid False REJECT_INVALID ''bad-txns-premature-spend-of-coinbase'' st), c)
          else
            let k = unat (op_n (prevout i)) in
            if k \<ge> length (c_vout coins) then Inl Out_of_range
            else
              let v = nValue (c_vout coins ! k); nValueIn = nValueIn + v in
              if \<not> MoneyRange P v \<or> \<not> MoneyRange P nValueIn
              then Inr (Inl (reject_tx 100 ''bad-txns-inputvalues-outofrange'' st), c)
              else input_values V P nSpendHeight is nValueIn st c)"

text \<open>The block that is not a coinstake's: the fee.  \<open>None\<close> continues.\<close>

definition check_fee :: "CChainParams \<Rightarrow> CTransaction \<Rightarrow> amount \<Rightarrow> CValidationState
    \<Rightarrow> failure + (bool \<times> CValidationState) option" where
  "check_fee P tx nValueIn st =
     (case GetValueOut tx of
        Inl e \<Rightarrow> Inl (Thrown e)
      | Inr nValueOut \<Rightarrow>
          if nValueIn <s nValueOut then Inr (Some (reject_tx 100 ''bad-txns-in-belowout'' st))
          else
            let nTxFee = nValueIn - nValueOut in
            if nTxFee <s 0 then Inr (Some (reject_tx 100 ''bad-txns-fee-negative'' st))
            else if \<not> MoneyRange P (0 + nTxFee) then Inr (Some (reject_tx 100 ''bad-txns-fee-outofrange'' st))
            else Inr None)"

text \<open>The script checks of the inputs with the indices \<open>ns\<close>: queued when there is a vector \<open>pvChecks\<close>
  to queue them in, run otherwise.\<close>

fun input_scripts :: "('p, 's, 'r) secp \<Rightarrow> 'b CCoinsView \<Rightarrow> CTransaction \<Rightarrow> u32 \<Rightarrow> bool \<Rightarrow> nat list
    \<Rightarrow> CScriptCheck list option \<Rightarrow> CValidationState \<Rightarrow> 'b CCoinsViewCache
    \<Rightarrow> failure + ((bool \<times> CValidationState) + CScriptCheck list option) \<times> 'b CCoinsViewCache" where
  "input_scripts ec V tx flags store [] pvChecks st c = Inr (Inr pvChecks, c)"
| "input_scripts ec V tx flags store (i # ns) pvChecks st c =
     (case AccessCoins V c (op_hash (prevout (vin tx ! i))) of
        (None, c) \<Rightarrow> Inl Assertion_failed
      | (Some coins, c) \<Rightarrow>
          (case CScriptCheck_of coins tx i flags store of
             Inl e \<Rightarrow> Inl e
           | Inr check \<Rightarrow>
               (case pvChecks of
                  Some v \<Rightarrow> input_scripts ec V tx flags store ns (Some (v @ [check])) st c
                | None \<Rightarrow>
                    (case CScriptCheck_run ec check of
                       Inl e \<Rightarrow> Inl e
                     | Inr (True, _) \<Rightarrow> input_scripts ec V tx flags store ns None st c
                     | Inr (False, check) \<Rightarrow>
                         if flags AND STANDARD_NOT_MANDATORY_VERIFY_FLAGS \<noteq> 0 then
                           (case CScriptCheck_run ec
                               (check\<lparr> sc_nFlags := flags AND NOT STANDARD_NOT_MANDATORY_VERIFY_FLAGS \<rparr>) of
                              Inl e \<Rightarrow> Inl e
                            | Inr (True, check2) \<Rightarrow>
                                Inr (Inl (Invalid False REJECT_NONSTANDARD
                                  (flag_reason ''non-mandatory-script-verify-flag ('' check2) st), c)
                            | Inr (False, _) \<Rightarrow>
                                Inr (Inl (reject_tx 100 (flag_reason ''mandatory-script-verify-flag-failed ('' check) st), c))
                         else Inr (Inl (reject_tx 100 (flag_reason ''mandatory-script-verify-flag-failed ('' check) st), c)))))"

text \<open>\<open>CheckInputs\<close>.  The best block of the view has to be in \<open>mapBlockIndex\<close>.\<close>

definition CheckInputs :: "('p, 's, 'r) secp \<Rightarrow> 'b CCoinsView \<Rightarrow> CChainParams \<Rightarrow> block_tree \<Rightarrow> CTransaction
    \<Rightarrow> CValidationState \<Rightarrow> 'b CCoinsViewCache \<Rightarrow> bool \<Rightarrow> u32 \<Rightarrow> bool \<Rightarrow> CScriptCheck list option
    \<Rightarrow> failure + (bool \<times> CValidationState) \<times> 'b CCoinsViewCache \<times> CScriptCheck list option" where
  "CheckInputs ec V P T tx st c fScriptChecks flags store pvChecks =
     (if \<not> IsCoinBase tx \<and> \<not> HasZerocoinSpendInputs tx then
        (case HaveInputs V c tx of
           (False, c) \<Rightarrow> Inr (Invalid False 0 [] st, c, pvChecks)
         | (True, c) \<Rightarrow>
             (case cache_GetBestBlock V c of (best, c) \<Rightarrow>
               (case mapBlockIndex T best of
                  None \<Rightarrow> Inl Out_of_range
                | Some p \<Rightarrow>
                    let nSpendHeight = nHeight (bt_arena T ! p) + 1 in
                    (case input_values V P nSpendHeight (vin tx) 0 st c of
                       Inl e \<Rightarrow> Inl e
                     | Inr (Inl r, c) \<Rightarrow> Inr (r, c, pvChecks)
                     | Inr (Inr nValueIn, c) \<Rightarrow>
                         (case (if \<not> IsCoinStake tx then check_fee P tx nValueIn st else Inr None) of
                            Inl e \<Rightarrow> Inl e
                          | Inr (Some r) \<Rightarrow> Inr (r, c, pvChecks)
                          | Inr None \<Rightarrow>
                              if fScriptChecks then
                                (case input_scripts ec V tx flags store [0..<length (vin tx)] pvChecks st c of
                                   Inl e \<Rightarrow> Inl e
                                 | Inr (Inl r, c) \<Rightarrow> Inr (r, c, pvChecks)
                                 | Inr (Inr pvChecks, c) \<Rightarrow> Inr ((True, st), c, pvChecks))
                              else Inr ((True, st), c, pvChecks))))))
      else Inr ((True, st), c, pvChecks))"

section \<open>What accepted transactions satisfy\<close>

lemma DoS_result [simp]: "fst (DoS level ret code reason corruption st) = ret"
  "DoS level False code reason corruption st \<noteq> (True, st')"
  by (auto simp: DoS_def Let_def)

lemma sint_MoneyRange: "MoneyRange P n \<longleftrightarrow> 0 \<le> sint n \<and> sint n \<le> sint (nMaxMoneyOut P)"
  by (simp add: MoneyRange_def word_sle_eq)

lemma MoneyRange_add:
  assumes "0 \<le> sint n" "0 \<le> sint v" "MoneyRange P (n + v)"
  shows "sint (n + v) = sint n + sint v"
  using sint_add_nonneg [OF assms(1,2)] assms(3) sint_lt [of n] sint_lt [of v]
  by (auto simp: sint_MoneyRange split: if_splits)

lemma sint_eqD: "sint a = sint (b :: u64) \<Longrightarrow> a = b"
  by (rule signed_word_eqI)

lemma check_outputs_Inr:
  "check_outputs P Z tx fZ os n st = Inr st' \<Longrightarrow> 0 \<le> sint n \<Longrightarrow> sint n \<le> sint (nMaxMoneyOut P) \<Longrightarrow>
    (\<forall>t \<in> set os. MoneyRange P (nValue t) \<and> (CTxOut_IsEmpty t \<longrightarrow> IsCoinBase tx \<or> IsCoinStake tx))
    \<and> sint n + sum_values os \<le> sint (nMaxMoneyOut P)"
proof (induction P Z tx fZ os n st rule: check_outputs.induct)
  case (2 P Z tx fZ txo os n st)
  from "2.prems"(1) have a: "\<not> nValue txo <s 0" "\<not> nMaxMoneyOut P <s nValue txo" "MoneyRange P (n + nValue txo)"
    "CTxOut_IsEmpty txo \<Longrightarrow> IsCoinBase tx \<or> IsCoinStake tx"
    by (auto simp: Let_def split: if_splits)
  then have v: "0 \<le> sint (nValue txo)" "sint (nValue txo) \<le> sint (nMaxMoneyOut P)"
    by (simp_all add: word_sless_alt)
  have s: "sint (n + nValue txo) = sint n + sint (nValue txo)"
    using MoneyRange_add [OF "2.prems"(2) v(1) a(3)] .
  have r: "0 \<le> sint (n + nValue txo)" "sint (n + nValue txo) \<le> sint (nMaxMoneyOut P)"
    using a(3) by (simp_all add: sint_MoneyRange)
  have "(\<forall>t \<in> set os. MoneyRange P (nValue t) \<and> (CTxOut_IsEmpty t \<longrightarrow> IsCoinBase tx \<or> IsCoinStake tx))
    \<and> sint (n + nValue txo) + sum_values os \<le> sint (nMaxMoneyOut P)"
  proof (cases "fZ \<and> CTxOut_IsZerocoinMint txo")
    case True
    obtain ok st1 where "CheckZerocoinMint Z (tx_hash tx) txo st = (ok, st1)" by (cases "CheckZerocoinMint Z (tx_hash tx) txo st")
    then show ?thesis
      using "2.IH"(1) "2.prems"(1) a True r by (cases ok) (auto simp: Let_def split: if_splits)
  next
    case False
    then show ?thesis using "2.IH"(2) "2.prems"(1) a r by (auto simp: Let_def split: if_splits)
  qed
  then show ?case using a v s by (auto simp: sum_values_def sint_MoneyRange)
qed (simp add: sum_values_def)

lemma check_duplicates_Inr:
  "check_duplicates is seen k st = Inr k' \<Longrightarrow>
    distinct (map prevout (filter (\<lambda>i. \<not> CTxIn_IsZerocoinSpend i) is))
    \<and> (\<forall>i \<in> set is. prevout i \<notin> set seen)"
proof (induction "is" seen k st rule: check_duplicates.induct)
  case (2 i "is" seen k st)
  have new: "prevout i \<notin> set seen" using "2.prems" by (auto split: if_splits)
  consider "\<not> CTxIn_IsZerocoinSpend i" | "CTxIn_IsZerocoinSpend i" "\<not> CTxIn_IsZerocoinPublicSpend i"
    | "CTxIn_IsZerocoinSpend i" "CTxIn_IsZerocoinPublicSpend i" by blast
  then show ?case
  proof cases
    case 1
    then show ?thesis using "2.IH"(1) "2.prems" new by auto
  next
    case 2
    then show ?thesis using "2.IH"(2) "2.prems" new by simp
  next
    case 3
    then show ?thesis using "2.IH"(3) "2.prems" new by simp
  qed
qed simp

text \<open>Whatever returns early refuses the transaction.\<close>

lemma check_outputs_Inl: "check_outputs P Z tx f os n s = Inl r \<Longrightarrow> \<not> fst r"
  by (induction P Z tx f os n s rule: check_outputs.induct)
    (auto simp: Let_def split: if_splits prod.splits bool.splits)

lemma check_duplicates_Inl: "check_duplicates is seen k s = Inl r \<Longrightarrow> \<not> fst r"
  by (induction "is" seen k s rule: check_duplicates.induct) (auto split: if_splits)

lemma check_zerocoin_Inl: "check_zerocoin_part Z N tx ff k s = Inl r \<Longrightarrow> \<not> fst r"
  by (auto simp: check_zerocoin_part_def Let_def split: if_splits prod.splits bool.splits)

text \<open>C20: A transaction that \<open>CheckTransaction\<close> accepts has inputs and outputs, is at most
  \<open>MAX_ZEROCOIN_TX_SIZE\<close> bytes long, spends no outpoint twice outside zerocoin spends, and creates
  amounts each of which, and the exact sum of which, is within the money range: \<open>GetValueOut\<close>
  succeeds on it and returns that sum.  The zerocoin checks may do what they like.\<close>

theorem CheckTransaction_sound:
  assumes "CheckTransaction P Z N tx fZerocoinActive fRejectBadUTXO st fFakeSerialAttack = (True, st')"
    and "0 \<le> sint (nMaxMoneyOut P)"
  shows "vin tx \<noteq> [] \<and> vout tx \<noteq> [] \<and> length (ser_tx tx) \<le> MAX_ZEROCOIN_TX_SIZE
    \<and> distinct (map prevout (filter (\<lambda>i. \<not> CTxIn_IsZerocoinSpend i) (vin tx)))
    \<and> (\<forall>t \<in> set (vout tx). MoneyRange P (nValue t))
    \<and> (\<exists>v. GetValueOut tx = Inr v \<and> MoneyRange P v \<and> sint v = (\<Sum>t\<leftarrow>vout tx. sint (nValue t)))
    \<and> (IsCoinBase tx \<longrightarrow> length (scriptSig (vin tx ! 0)) \<in> {2..150})"
proof -
  have basic: "vin tx \<noteq> []" "vout tx \<noteq> []" "length (ser_tx tx) \<le> MAX_ZEROCOIN_TX_SIZE"
    using assms(1) by (auto simp: CheckTransaction_def split: if_splits)
  obtain st1 where o1: "check_outputs P Z tx fZerocoinActive (vout tx) 0 st = Inr st1"
    using assms(1) basic check_outputs_Inl [of P Z tx fZerocoinActive "vout tx" 0 st]
    by (cases "check_outputs P Z tx fZerocoinActive (vout tx) 0 st") (auto simp: CheckTransaction_def)
  obtain k where o2: "check_duplicates (vin tx) [] 0 st1 = Inr k"
    using assms(1) basic o1 check_duplicates_Inl [of "vin tx" "[]" 0 st1]
    by (cases "check_duplicates (vin tx) [] 0 st1") (auto simp: CheckTransaction_def)
  obtain st2 where o3: "check_input_forms tx fZerocoinActive st2 = (True, st')"
    using assms(1) basic o1 o2 check_zerocoin_Inl [of Z N tx fFakeSerialAttack k st1]
    by (cases "check_zerocoin_part Z N tx fFakeSerialAttack k st1")
      (auto simp: CheckTransaction_def split: if_splits)
  note parts = o1 o2 o3
  note outs = check_outputs_Inr [OF parts(1)]
  have vals: "\<forall>t \<in> set (vout tx). MoneyRange P (nValue t)" "sum_values (vout tx) \<le> sint (nMaxMoneyOut P)"
    using outs assms(2) by auto
  have nonneg: "0 \<le> sum_values (vout tx)"
    unfolding sum_values_def using vals(1) by (intro sum_list_nonneg) (auto simp: sint_MoneyRange)
  have lt: "sum_values (vout tx) < 2 ^ 63" using vals(2) sint_lt [of "nMaxMoneyOut P"] by simp
  define v :: amount where "v = word_of_int (sum_values (vout tx))"
  have v: "sint v = sum_values (vout tx)"
    unfolding v_def using nonneg lt by (simp add: signed_of_int take_bit_int_eq_self_iff signed_take_bit_int_eq_self_iff)
  have "GetValueOut tx = Inr v"
    using value_out_loop_Inr [of 0 "vout tx" v] vals(1) lt v by (auto simp: GetValueOut_def sint_MoneyRange)
  moreover have "MoneyRange P v" using v vals(2) nonneg by (simp add: sint_MoneyRange)
  moreover have "IsCoinBase tx \<longrightarrow> length (scriptSig (vin tx ! 0)) \<in> {2..150}"
    using parts(3) by (auto simp: check_input_forms_def split: if_splits)
  ultimately show ?thesis
    using basic vals check_duplicates_Inr [OF parts(2)] v by (auto simp: sum_values_def)
qed

definition no_zerocoins :: zerocoin_checks where
  "no_zerocoins = \<lparr> CheckZerocoinMint = (\<lambda>h txo st. (False, st)), CheckZerocoinSpend = (\<lambda>tx f st a. (False, st)) \<rparr>"

definition a_clock :: node_clock where
  "a_clock = \<lparr> IsInitialBlockDownload = False, GetTime = 0, tip_time = 0 \<rparr>"

text \<open>A transaction that spends one output into two.\<close>

definition sample_tx :: CTransaction where
  "sample_tx = CTransaction_new\<lparr> vin := [CTxIn_of \<lparr> op_hash = of_u64 8 7, op_n = 2 \<rparr> [0x51] (- 1)],
     vout := [sample_out 3000000000, sample_out 1999990000] \<rparr>"

lemma sample_tx_kind: "\<not> IsCoinBase sample_tx" "\<not> HasZerocoinSpendInputs sample_tx" "\<not> IsCoinStake sample_tx"
  by code_simp+

theorem CheckTransaction_sound_witness:
  "\<exists>v. GetValueOut sample_tx = Inr v \<and> MoneyRange CMainParams v \<and> sint v = 4999990000"
proof -
  have "CheckTransaction CMainParams no_zerocoins a_clock sample_tx True False CValidationState_new False
    = (True, CValidationState_new)"
  proof -
    have "length (ser_tx sample_tx) \<le> MAX_ZEROCOIN_TX_SIZE"
      by (simp add: ser_tx_def ser_vec_def ser_txin_def ser_txout_def ser_blob_def ser_outpoint_def WriteCompactSize_def
          sample_tx_def sample_out_def CTxOut_of_def CTxIn_of_def MAX_ZEROCOIN_TX_SIZE_def uint256.size_law limb_simps)
    moreover have "\<not> CTxOut_IsZerocoinMint (sample_out n)" for n
      by (simp add: sample_out_def CTxOut_of_def CTxOut_IsZerocoinMint_def IsZerocoinMint_def StartsWithOpcode_def)
    ultimately have outs: "check_outputs CMainParams no_zerocoins sample_tx True (vout sample_tx) 0 st = Inr st"
        "length (ser_tx sample_tx) \<le> MAX_ZEROCOIN_TX_SIZE" for st
      by (simp_all add: sample_tx_def CTxOut_IsEmpty_def CMainParams_def COIN_def MoneyRange_def
          word_sless_alt word_sle_eq sample_out_def CTxOut_of_def)
    have ins: "check_duplicates (vin sample_tx) [] 0 st = Inr 0"
        "check_input_forms sample_tx True st = (True, st)" for st
      using sample_tx_kind
      by (auto simp: sample_tx_def check_input_forms_def HasZerocoinSpendInputs_def CTxIn_of_def COutPoint_IsNull_def)
    show ?thesis
      using outs ins sample_tx_kind
      by (simp add: CheckTransaction_def check_zerocoin_part_def) (simp add: sample_tx_def)
  qed
  from CheckTransaction_sound [OF this] show ?thesis
    by (auto simp: CMainParams_def sample_tx_def sample_out_def CTxOut_of_def COIN_def)
qed

section \<open>What accepted inputs satisfy\<close>

text \<open>The output an input spends, in a set of unspent outputs \<open>u\<close>.\<close>

definition spent_coins :: "(limbs \<Rightarrow> CCoins option) \<Rightarrow> CTxIn \<Rightarrow> CCoins" where
  "spent_coins u i = the (u (op_hash (prevout i)))"

definition spent_out :: "(limbs \<Rightarrow> CCoins option) \<Rightarrow> CTxIn \<Rightarrow> CTxOut" where
  "spent_out u i = c_vout (spent_coins u i) ! unat (op_n (prevout i))"

definition unspent :: "(limbs \<Rightarrow> CCoins option) \<Rightarrow> CTxIn \<Rightarrow> bool" where
  "unspent u i \<longleftrightarrow> (\<exists>x. u (op_hash (prevout i)) = Some x \<and> IsAvailable x (unat (op_n (prevout i))))"

definition matured :: "CChainParams \<Rightarrow> int \<Rightarrow> CCoins \<Rightarrow> bool" where
  "matured P nSpendHeight x \<longleftrightarrow>
     (fCoinBase x \<or> fCoinStake x \<longrightarrow> nSpendHeight - sint (c_nHeight x) \<ge> nMaturity P)"

definition input_sum :: "(limbs \<Rightarrow> CCoins option) \<Rightarrow> CTxIn list \<Rightarrow> int" where
  "input_sum u is = (\<Sum>i\<leftarrow>is. sint (nValue (spent_out u i)))"

lemma IsAvailable_not_pruned: "IsAvailable x n \<Longrightarrow> \<not> IsPruned x"
  by (auto simp: IsAvailable_def IsPruned_def list_ex_iff)

context coins_view
begin

text \<open>Coins that are found available are the ones the cache denotes.\<close>

lemma AccessCoins_unspent:
  assumes "c_inv c" "AccessCoins V c k = (Some x, c')" "IsAvailable x n"
  shows "c_utxo c k = Some x"
  using AccessCoins_law [OF assms(1,2)] IsAvailable_not_pruned [OF assms(3)] by auto

lemma AccessCoins_of_unspent:
  assumes "c_inv c" "c_utxo c k = Some x" "AccessCoins V c k = (r, c')"
  shows "r = Some x \<and> c_inv c' \<and> c_utxo c' = c_utxo c \<and> c_best c' = c_best c"
  using AccessCoins_law [OF assms(1,3)] assms(2) by (auto simp: live_Some_iff)

lemma have_inputs_law:
  "c_inv c \<Longrightarrow> have_inputs_loop V is c = (b, c') \<Longrightarrow>
    b = (\<forall>i \<in> set is. unspent (c_utxo c) i) \<and> c_inv c' \<and> c_utxo c' = c_utxo c \<and> c_best c' = c_best c"
proof (induction "is" arbitrary: c)
  case (Cons i "is")
  obtain r c1 where a: "AccessCoins V c (op_hash (prevout i)) = (r, c1)"
    by (cases "AccessCoins V c (op_hash (prevout i))")
  note l = AccessCoins_law [OF Cons.prems(1) a]
  show ?case
  proof (cases "\<exists>x. r = Some x \<and> IsAvailable x (unat (op_n (prevout i)))")
    case True
    then have "have_inputs_loop V is c1 = (b, c')" "unspent (c_utxo c) i"
      using Cons.prems(2) a AccessCoins_unspent [OF Cons.prems(1)] by (auto simp: unspent_def)
    then show ?thesis using Cons.IH [of c1] l by auto
  next
    case False
    then have "\<not> b" "c' = c1" using Cons.prems(2) a by (auto split: option.splits if_splits)
    moreover have "\<not> unspent (c_utxo c) i"
      using False l by (auto simp: unspent_def live_Some_iff(2) [symmetric])
        (metis live_Some_iff(2))
    ultimately show ?thesis using l by auto
  qed
qed simp

lemma input_values_law:
  "c_inv c \<Longrightarrow> \<forall>i \<in> set is. unspent (c_utxo c) i \<Longrightarrow>
    input_values V P h is n st c = Inr (Inr v, c') \<Longrightarrow> 0 \<le> sint n \<Longrightarrow>
    (\<forall>i \<in> set is. matured P h (spent_coins (c_utxo c) i) \<and> MoneyRange P (nValue (spent_out (c_utxo c) i)))
    \<and> sint v = sint n + input_sum (c_utxo c) is \<and> (is \<noteq> [] \<longrightarrow> MoneyRange P v)
    \<and> c_inv c' \<and> c_utxo c' = c_utxo c \<and> c_best c' = c_best c"
proof (induction "is" arbitrary: n c)
  case Nil
  then show ?case by (simp add: input_sum_def)
next
  case (Cons i "is")
  obtain x where x: "c_utxo c (op_hash (prevout i)) = Some x" using Cons.prems(2) by (auto simp: unspent_def)
  obtain r c1 where a: "AccessCoins V c (op_hash (prevout i)) = (r, c1)"
    by (cases "AccessCoins V c (op_hash (prevout i))")
  note l = AccessCoins_of_unspent [OF Cons.prems(1) x a]
  define w where "w = nValue (c_vout x ! unat (op_n (prevout i)))"
  have so: "spent_coins (c_utxo c) i = x" "nValue (spent_out (c_utxo c) i) = w"
    using x by (simp_all add: spent_coins_def spent_out_def w_def)
  have step: "matured P h x" "MoneyRange P w" "MoneyRange P (n + w)"
    "input_values V P h is (n + w) st c1 = Inr (Inr v, c')"
    using Cons.prems(3) l a by (auto simp: matured_def w_def Let_def split: if_splits)
  have s: "sint (n + w) = sint n + sint w"
    using MoneyRange_add [OF Cons.prems(4) _ step(3)] step(2) by (simp add: sint_MoneyRange)
  have nn: "0 \<le> sint (n + w)" using step(3) by (simp add: sint_MoneyRange)
  have c1: "c_inv c1" "c_utxo c1 = c_utxo c" using l by auto
  have un: "\<forall>i \<in> set is. unspent (c_utxo c1) i" using Cons.prems(2) c1 by simp
  note ih = Cons.IH [OF c1(1) un step(4) nn, unfolded c1(2)]
  have "MoneyRange P v"
  proof (cases "is")
    case Nil
    then show ?thesis using step(3,4) by simp
  qed (use ih in simp)
  then show ?case using ih so step(1,2) s l by (auto simp: input_sum_def)
qed

lemma input_scripts_law:
  "c_inv c \<Longrightarrow> \<forall>i \<in> set ns. unspent (c_utxo c) (vin tx ! i) \<Longrightarrow>
    input_scripts ec V tx flags store ns None st c = Inr (Inr r, c') \<Longrightarrow>
    (\<forall>i \<in> set ns. VerifyScript (script_env_of ec tx i flags) (scriptSig (vin tx ! i))
        (scriptPubKey (spent_out (c_utxo c) (vin tx ! i))) = Some (Inr ()))
    \<and> c_inv c' \<and> c_utxo c' = c_utxo c \<and> c_best c' = c_best c"
proof (induction ns arbitrary: c)
  case (Cons j ns)
  let ?i = "vin tx ! j"
  obtain x where x: "c_utxo c (op_hash (prevout ?i)) = Some x" "IsAvailable x (unat (op_n (prevout ?i)))"
    using Cons.prems(2) by (auto simp: unspent_def)
  obtain r' c1 where a: "AccessCoins V c (op_hash (prevout ?i)) = (r', c1)"
    by (cases "AccessCoins V c (op_hash (prevout ?i))")
  note l = AccessCoins_of_unspent [OF Cons.prems(1) x(1) a]
  have so: "spent_out (c_utxo c) ?i = c_vout x ! unat (op_n (prevout ?i))"
    using x by (simp add: spent_coins_def spent_out_def)
  obtain k where k: "CScriptCheck_of x tx j flags store = Inr k"
    "sc_scriptPubKey k = scriptPubKey (spent_out (c_utxo c) ?i)" "sc_ptxTo k = tx" "sc_nIn k = j" "sc_nFlags k = flags"
    using x so by (simp add: CScriptCheck_of_def Let_def IsAvailable_def)
  obtain k' where run: "CScriptCheck_run ec k = Inr (True, k')"
    "input_scripts ec V tx flags store ns None st c1 = Inr (Inr r, c')"
    using Cons.prems(3) a l k(1) by (auto split: sum.splits if_splits bool.splits)
  have ver: "VerifyScript (script_env_of ec tx j flags) (scriptSig ?i) (scriptPubKey (spent_out (c_utxo c) ?i))
      = Some (Inr ())"
    using run(1) k by (auto simp: CScriptCheck_run_def split: option.splits sum.splits)
  have c1: "c_inv c1" "c_utxo c1 = c_utxo c" using l by auto
  have un: "\<forall>i \<in> set ns. unspent (c_utxo c1) (vin tx ! i)" using Cons.prems(2) c1 by simp
  show ?case using Cons.IH [OF c1(1) un run(2), unfolded c1(2)] ver l by auto
qed simp

end

context coins_view
begin

lemma check_fee_None:
  assumes "check_fee P tx v st = Inr None"
  shows "\<exists>w. GetValueOut tx = Inr w \<and> sint w \<le> sint v"
  using assms by (auto simp: check_fee_def word_sless_alt Let_def split: sum.splits if_splits)

lemma CheckInputs_law:
  assumes c: "c_inv c"
    and tx: "\<not> IsCoinBase tx" "\<not> HasZerocoinSpendInputs tx" "vin tx \<noteq> []"
    and ok: "CheckInputs ec V P T tx st c fScriptChecks flags store None = Inr ((True, st'), c', chks)"
  shows "st' = st \<and> c_inv c' \<and> c_utxo c' = c_utxo c \<and> c_best c' = c_best c
    \<and> (\<forall>i \<in> set (vin tx). unspent (c_utxo c) i \<and> MoneyRange P (nValue (spent_out (c_utxo c) i))
        \<and> (\<exists>p. mapBlockIndex T (c_best c) = Some p
             \<and> matured P (nHeight (bt_arena T ! p) + 1) (spent_coins (c_utxo c) i)))
    \<and> 0 \<le> input_sum (c_utxo c) (vin tx) \<and> input_sum (c_utxo c) (vin tx) \<le> sint (nMaxMoneyOut P)
    \<and> (\<not> IsCoinStake tx \<longrightarrow> (\<exists>w. GetValueOut tx = Inr w \<and> sint w \<le> input_sum (c_utxo c) (vin tx)))
    \<and> (fScriptChecks \<longrightarrow> (\<forall>i < length (vin tx).
        VerifyScript (script_env_of ec tx i flags) (scriptSig (vin tx ! i))
          (scriptPubKey (spent_out (c_utxo c) (vin tx ! i))) = Some (Inr ())))"
proof -
  obtain b c1 where h: "HaveInputs V c tx = (b, c1)" by (cases "HaveInputs V c tx")
  then have b: "b" using ok tx by (cases b) (auto simp: CheckInputs_def Invalid_def)
  have h1: "\<forall>i \<in> set (vin tx). unspent (c_utxo c) i" "c_inv c1" "c_utxo c1 = c_utxo c" "c_best c1 = c_best c"
    using have_inputs_law [OF c, of "vin tx" b c1] h b tx by (auto simp: HaveInputs_def)
  obtain best2 c2 where g: "cache_GetBestBlock V c1 = (best2, c2)" by (cases "cache_GetBestBlock V c1")
  note g1 = GetBestBlock_law [OF h1(2) g]
  obtain p where p: "mapBlockIndex T best2 = Some p"
    using ok tx h b g by (cases "mapBlockIndex T best2") (auto simp: CheckInputs_def)
  let ?h = "nHeight (bt_arena T ! p) + 1"
  obtain r c3 where iv: "input_values V P ?h (vin tx) 0 st c2 = Inr (r, c3)"
    using ok tx h b g p by (cases "input_values V P ?h (vin tx) 0 st c2") (auto simp: CheckInputs_def Let_def)
  have "\<not> fst r'" if "input_values V P H is n st c = Inr (Inl r', c')" for H "is" n c r' c'
    using that
    by (induction V P H "is" n st c rule: input_values.induct)
      (auto simp: Invalid_def Let_def split: prod.splits option.splits if_splits)
  from this [of ?h "vin tx" 0 c2 _ c3] obtain v where v: "r = Inr v"
    using ok tx h b g p iv by (cases r) (auto simp: CheckInputs_def Let_def)
  have un: "\<forall>i \<in> set (vin tx). unspent (c_utxo c2) i" using h1 g1 by simp
  have c2: "c_inv c2" "c_utxo c2 = c_utxo c" "c_best c2 = c_best c" using g1 h1 by simp_all
  note vals = input_values_law [OF c2(1) un iv [unfolded v], simplified, unfolded c2(2,3)]
  have fee: "\<not> IsCoinStake tx \<Longrightarrow> check_fee P tx v st = Inr None"
  proof -
    assume ns: "\<not> IsCoinStake tx"
    have "\<not> fst r'" if "check_fee P tx v st = Inr (Some r')" for r'
      using that by (auto simp: check_fee_def Let_def split: sum.splits if_splits)
    then show ?thesis using ok tx h b g p iv v ns
      by (auto simp: CheckInputs_def Let_def split: sum.splits option.splits)
  qed
  have done_: "(if fScriptChecks then
      (case input_scripts ec V tx flags store [0..<length (vin tx)] None st c3 of
         Inl e \<Rightarrow> Inl e | Inr (Inl r, c) \<Rightarrow> Inr (r, c, None)
       | Inr (Inr pvChecks, c) \<Rightarrow> Inr ((True, st), c, pvChecks))
      else Inr ((True, st), c3, None)) = Inr ((True, st'), c', chks)"
    using ok tx h b g p iv v fee by (cases "IsCoinStake tx") (simp_all add: CheckInputs_def Let_def)
  have scripts: "st' = st \<and> c_inv c' \<and> c_utxo c' = c_utxo c \<and> c_best c' = c_best c
    \<and> (fScriptChecks \<longrightarrow> (\<forall>i < length (vin tx).
        VerifyScript (script_env_of ec tx i flags) (scriptSig (vin tx ! i))
          (scriptPubKey (spent_out (c_utxo c) (vin tx ! i))) = Some (Inr ())))"
  proof (cases fScriptChecks)
    case True
    have never: "\<not> fst r'" if "input_scripts ec V tx flags store ns None st c0 = Inr (Inl r', c1)" for ns c0 r' c1
      using that
      by (induction ns arbitrary: c0)
        (auto simp: Invalid_def split: prod.splits option.splits sum.splits if_splits bool.splits)
    obtain q where "input_scripts ec V tx flags store [0..<length (vin tx)] None st c3 = Inr (Inr q, c')" "st' = st"
      using done_ True never [of "[0..<length (vin tx)]" c3]
      by (auto split: sum.splits prod.splits)
    moreover have "c_inv c3" "c_utxo c3 = c_utxo c" "c_best c3 = c_best c" using vals by simp_all
    ultimately show ?thesis
      using input_scripts_law [of c3 "[0..<length (vin tx)]" tx ec flags store st q c'] h1(1) by auto
  next
    case False
    then show ?thesis using done_ vals by auto
  qed
  have range: "0 \<le> input_sum (c_utxo c) (vin tx)" "input_sum (c_utxo c) (vin tx) \<le> sint (nMaxMoneyOut P)"
    "sint v = input_sum (c_utxo c) (vin tx)"
    using vals tx(3) by (auto simp: sint_MoneyRange)
  show ?thesis
    using scripts range vals h1(1) p g1 h1(4) fee check_fee_None [of P tx v st] by auto
qed

end

definition block_best :: "block_state \<Rightarrow> limbs" where
  "block_best = cache_best (cache_best db_best_of)"


text \<open>A view with one unspent output that anyone can spend.\<close>

definition open_coins :: CCoins where
  "open_coins = \<lparr> fCoinBase = False, fCoinStake = False, c_vout = [CTxOut_null, CTxOut_null, CTxOut_of 5000000000 [0x51]],
     c_nHeight = 100, c_nVersion = 1 \<rparr>"

definition open_view :: block_state where
  "open_view = (CCoinsViewCache_of empty_tip)\<lparr> hashBlock := of_u64 8 9, cacheCoins :=
     [(of_u64 8 7, \<lparr> e_coins = open_coins, e_flags = 3 \<rparr>)] \<rparr>"

lemma open_coins_ok: "coins_ok open_coins"
  by (simp add: coins_ok_def open_coins_def ctxout_ok_def CTxOut_of_def CTxOut_IsNull_def CTxOut_null_def word_sle_eq)

lemma open_view_inv: "block_inv diagonal_secp open_view"
proof -
  have "entry_ok (tip_utxo diagonal_secp empty_tip) (cache_resident empty_tip) coins_ok (of_u64 8 7)
      \<lparr> e_coins = open_coins, e_flags = 3 \<rparr>"
    using open_coins_ok coins_ok_live [OF open_coins_ok]
    by (simp add: entry_ok_def tip_utxo_def cache_utxo_def empty_tip_def CCoinsViewCache_of_def db_utxo_def
        db_val_def)
  then show ?thesis
    using empty_tip_inv
    by (simp add: block_inv_def cache_inv_def open_view_def CCoinsViewCache_of_def entries_ok_def)
qed

lemma open_view_utxo: "block_utxo diagonal_secp open_view (of_u64 8 7) = Some open_coins"
  using coins_ok_live [OF open_coins_ok]
  by (simp add: block_utxo_def cache_utxo_def open_view_def overlay_def CCoinsViewCache_of_def)

definition one_block_tree :: block_tree where
  "one_block_tree = \<lparr> bt_arena = [(CBlockIndex_null None)\<lparr> nHeight := 200 \<rparr>], mapBlockIndex = (\<lambda>h. Some 0),
     pindexBestHeader = None, setDirtyBlockIndex = [], mapProofOfStake = (\<lambda>h. None) \<rparr>"


section \<open>The subsidy schedule\<close>

text \<open>C36: The intervals of the subsidy schedule of the main network leave out six heights: exactly
  there, and below the genesis block, the subsidy falls to the last \<open>else\<close> and is one coin, where
  the blocks before and after get between three and ten.\<close>

theorem GetBlockValue_gaps:
  "GetBlockValue CMainParams h = COIN_int \<longleftrightarrow> h < 0 \<or> h \<in> {321, 63360, 106560, 149760, 192960, 236160}"
  by (auto simp: GetBlockValue_def CMainParams_def COIN_int_def)

end
