(* ===== verification/Connect.thy ===== *)
theory Connect
  imports Validation
begin

unbundle bit_operations_syntax

text \<open>
  Connecting a block to the set of unspent outputs: \<open>UpdateCoins\<close> and \<open>ConnectBlock\<close> of
  \<open>src/main.cpp\<close>, with \<open>IsBlockValueValid\<close> of \<open>src/masternode-payments.cpp\<close>.  The specification of
  what a transaction does to the unspent outputs is \<open>connect_u\<close>, on the map a view denotes; the
  locale \<open>coins_store\<close> extends the contract of views by the fact that they store coins, and in it
  the operations of the code refine that specification.

  The zerocoin checks and the supply of zerocoins, the sporks and the databases behind them are
  fields of the record \<open>connect_env\<close>.
\<close>

section \<open>UpdateCoins\<close>

type_synonym CTxUndo = "CTxInUndo list"

text \<open>\<open>inputs.ModifyCoins(...)->Spend(...)\<close> and \<open>assert(ret)\<close> for every input.\<close>

definition spend_step :: "CTxIn \<Rightarrow> CCoins \<Rightarrow> (bool \<times> CTxInUndo) \<times> CCoins" where
  "spend_step i coins =
     (case Spend (prevout i) CTxInUndo_new coins of (ret, coins, undo) \<Rightarrow> ((ret, undo), coins))"

fun spend_inputs :: "'b CCoinsView \<Rightarrow> CTxIn list \<Rightarrow> CTxUndo \<Rightarrow> 'b CCoinsViewCache
    \<Rightarrow> failure + CTxUndo \<times> 'b CCoinsViewCache" where
  "spend_inputs V [] txundo c = Inr (txundo, c)"
| "spend_inputs V (i # is) txundo c =
     (case modify V (op_hash (prevout i)) (spend_step i) c of
        None \<Rightarrow> Inl Assertion_failed
      | Some ((ret, undo), c) \<Rightarrow>
          if \<not> ret then Inl Assertion_failed else spend_inputs V is (txundo @ [undo]) c)"

definition UpdateCoins :: "'b CCoinsView \<Rightarrow> CTransaction \<Rightarrow> CTxUndo \<Rightarrow> u32 \<Rightarrow> 'b CCoinsViewCache
    \<Rightarrow> failure + CTxUndo \<times> 'b CCoinsViewCache" where
  "UpdateCoins V tx txundo h c =
     (case (if \<not> IsCoinBase tx \<and> \<not> HasZerocoinSpendInputs tx then spend_inputs V (vin tx) txundo c
            else Inr (txundo, c)) of
        Inl e \<Rightarrow> Inl e
      | Inr (txundo, c) \<Rightarrow>
          (case modify V (tx_hash tx) (\<lambda>coins. ((), FromTx tx h coins)) c of
             None \<Rightarrow> Inl Assertion_failed
           | Some (_, c) \<Rightarrow> Inr (txundo, c)))"

section \<open>ConnectBlock\<close>

text \<open>What \<open>ConnectBlock\<close> asks of the zerocoin library and its database, of the sporks, the index of
  transactions, the checkpoints and the masternode list: the parse of a spend to its value, the
  contextual checks, and the answers of the parts that keep their own state.\<close>

record connect_env =
  ce_zerocoin_maintenance :: int
  ce_IsInitialBlockDownload :: bool
  ce_fVerifyingBlocks :: bool
  ce_nScriptCheckThreads :: nat
  ce_IsTransactionInChain :: "limbs \<Rightarrow> int option"
  ce_Public_Spend_Enabled :: int
  ce_public_value :: "CTxIn \<Rightarrow> CTransaction \<Rightarrow> CValidationState \<Rightarrow> amount option \<times> CValidationState"
  ce_private_value :: "CTxIn \<Rightarrow> amount"
  ce_spend_ok :: "CTransaction \<Rightarrow> CTxIn \<Rightarrow> bool"
  ce_TxOutToPublicCoin :: "CTxOut \<Rightarrow> CValidationState \<Rightarrow> bool \<times> CValidationState"
  ce_mint_ok :: "CTransaction \<Rightarrow> CTxOut \<Rightarrow> bool"
  ce_setInvalidOutPoints :: "COutPoint list"

text \<open>The locals of the function that the loop over the transactions changes, with the view.\<close>

record 'b connect_state =
  cs_view :: "'b CCoinsViewCache"
  cs_state :: CValidationState
  cs_nFees :: amount
  cs_nValueIn :: amount
  cs_nValueOut :: amount
  cs_nSigOps :: u32
  cs_vtxundo :: "CTxUndo list"
  cs_vSpends :: "(CTxIn \<times> limbs) list"
  cs_vMints :: "(CTxOut \<times> limbs) list"
  cs_vSpendsInBlock :: "limbs list"
  cs_control :: "CScriptCheck list"
  cs_vPos :: "(limbs \<times> u32) list"
  cs_nTxOffset :: u32

text \<open>\<open>False\<close> is a \<open>return false\<close>, with the locals as they are then.\<close>

abbreviation refuse :: "u32 \<Rightarrow> u8 \<Rightarrow> string \<Rightarrow> 'b connect_state \<Rightarrow> bool \<times> 'b connect_state" where
  "refuse level code reason s \<equiv>
     (False, s\<lparr> cs_state := snd (DoS level False code reason False (cs_state s)) \<rparr>)"

definition CheckPublicCoinSpendEnforced :: "connect_env \<Rightarrow> int \<Rightarrow> bool \<Rightarrow> bool" where
  "CheckPublicCoinSpendEnforced E blockHeight isPublicSpend =
     (if blockHeight \<ge> ce_Public_Spend_Enabled E then isPublicSpend else \<not> isPublicSpend)"

definition ValidOutPoint :: "CChainParams \<Rightarrow> connect_env \<Rightarrow> COutPoint \<Rightarrow> int \<Rightarrow> bool" where
  "ValidOutPoint P E out1 h \<longleftrightarrow> \<not> (h \<ge> nBlockEnforceInvalidUTXO P \<and> out1 \<in> set (ce_setInvalidOutPoints E))"

fun connect_spends :: "connect_env \<Rightarrow> CTransaction \<Rightarrow> int \<Rightarrow> CTxIn list \<Rightarrow> 'b connect_state
    \<Rightarrow> bool \<times> 'b connect_state" where
  "connect_spends E tx h [] s = (True, s)"
| "connect_spends E tx h (i # is) s =
     (let isPublicSpend = CTxIn_IsZerocoinPublicSpend i in
      if \<not> CTxIn_IsZerocoinSpend i \<and> \<not> isPublicSpend then connect_spends E tx h is s
      else if \<not> CheckPublicCoinSpendEnforced E h isPublicSpend then (False, s)
      else
        (case (if isPublicSpend then ce_public_value E i tx (cs_state s)
               else (Some (ce_private_value E i), cs_state s)) of
           (None, st) \<Rightarrow> (False, s\<lparr> cs_state := st \<rparr>)
         | (Some v, st) \<Rightarrow>
             let s = s\<lparr> cs_state := st, cs_nValueIn := cs_nValueIn s + v,
                        cs_vSpends := cs_vSpends s @ [(i, tx_hash tx)] \<rparr> in
             if \<not> ce_spend_ok E tx i then refuse 100 REJECT_INVALID [] s
             else connect_spends E tx h is s))"

fun connect_mints :: "connect_env \<Rightarrow> CTransaction \<Rightarrow> CTxOut list \<Rightarrow> 'b connect_state \<Rightarrow> bool \<times> 'b connect_state" where
  "connect_mints E tx [] s = (True, s)"
| "connect_mints E tx (txo # os) s =
     (if \<not> CTxOut_IsZerocoinMint txo then connect_mints E tx os s
      else
        (case ce_TxOutToPublicCoin E txo (cs_state s) of
           (False, st) \<Rightarrow> refuse 100 0 [] (s\<lparr> cs_state := st \<rparr>)
         | (True, st) \<Rightarrow>
             if \<not> ce_mint_ok E tx txo then refuse 100 0 [] (s\<lparr> cs_state := st \<rparr>)
             else connect_mints E tx os
               (s\<lparr> cs_state := st, cs_vMints := cs_vMints s @ [(txo, tx_hash tx)] \<rparr>)))"

definition check_mints :: "connect_env \<Rightarrow> CTransaction \<Rightarrow> 'b connect_state \<Rightarrow> bool \<times> 'b connect_state" where
  "check_mints E tx s = (if HasZerocoinMintOutputs tx then connect_mints E tx (vout tx) s else (True, s))"

definition MAX_BLOCK_SIGOPS_CURRENT :: u32 where "MAX_BLOCK_SIGOPS_CURRENT = MAX_BLOCK_SIZE_CURRENT div 50"

text \<open>The branch for zerocoin spends.\<close>

definition connect_zerocoin_tx :: "connect_env \<Rightarrow> CTransaction \<Rightarrow> int \<Rightarrow> 'b connect_state
    \<Rightarrow> bool \<times> 'b connect_state" where
  "connect_zerocoin_tx E tx h s =
     (let s = s\<lparr> cs_vSpendsInBlock := cs_vSpendsInBlock s @ [tx_hash tx] \<rparr>;
          known = (case ce_IsTransactionInChain E (tx_hash tx) of
            None \<Rightarrow> False | Some nHeightTx \<Rightarrow> \<not> ce_fVerifyingBlocks E \<or> h > nHeightTx)
      in if known then refuse 100 REJECT_INVALID ''bad-txns-inputs-missingorspent'' s
         else (case connect_spends E tx h (vin tx) s of
           (False, s) \<Rightarrow> (False, s)
         | (True, s) \<Rightarrow> check_mints E tx s))"

text \<open>The branch for the other transactions but the coinbase.\<close>

definition connect_ordinary_tx :: "('p, 's, 'r) secp \<Rightarrow> 'b CCoinsView \<Rightarrow> CChainParams \<Rightarrow> block_tree
    \<Rightarrow> connect_env \<Rightarrow> bool \<Rightarrow> u32 \<Rightarrow> CTransaction \<Rightarrow> int \<Rightarrow> 'b connect_state
    \<Rightarrow> failure + bool \<times> 'b connect_state" where
  "connect_ordinary_tx ec V P T E fScriptChecks flags tx h s =
     (case HaveInputs V (cs_view s) tx of
        (False, c) \<Rightarrow> Inr (refuse 100 REJECT_INVALID ''bad-txns-inputs-missingorspent'' (s\<lparr> cs_view := c \<rparr>))
      | (True, c) \<Rightarrow>
          if list_ex (\<lambda>i. \<not> ValidOutPoint P E (prevout i) h) (vin tx)
          then Inr (refuse 100 REJECT_INVALID ''bad-txns-invalid-inputs'' (s\<lparr> cs_view := c \<rparr>))
          else (case check_mints E tx (s\<lparr> cs_view := c \<rparr>) of
            (False, s) \<Rightarrow> Inr (False, s)
          | (True, s) \<Rightarrow>
            (case GetP2SHSigOpCount V (cs_view s) tx of
               None \<Rightarrow> Inl Assertion_failed
             | Some (n, c) \<Rightarrow>
               let s = s\<lparr> cs_view := c, cs_nSigOps := cs_nSigOps s + n \<rparr> in
               if cs_nSigOps s > MAX_BLOCK_SIGOPS_CURRENT then Inr (refuse 100 REJECT_INVALID ''bad-blk-sigops'' s)
               else (case GetValueIn V (cs_view s) tx of
                 None \<Rightarrow> Inl Assertion_failed
               | Some (nValIn, c) \<Rightarrow>
                 (case (if IsCoinStake tx then Inr 0 else map_sum Thrown (\<lambda>nOut. nValIn - nOut) (GetValueOut tx)) of
                    Inl e \<Rightarrow> Inl e
                  | Inr fee \<Rightarrow>
                    let s = s\<lparr> cs_view := c, cs_nFees := cs_nFees s + fee, cs_nValueIn := cs_nValueIn s + nValIn \<rparr> in
                    (case CheckInputs ec V P T tx (cs_state s) (cs_view s) fScriptChecks flags False
                            (if ce_nScriptCheckThreads E \<noteq> 0 then Some [] else None) of
                       Inl e \<Rightarrow> Inl e
                     | Inr ((ok, st), c, vChecks) \<Rightarrow>
                         let s = s\<lparr> cs_state := st, cs_view := c \<rparr> in
                         if \<not> ok then Inr (False, s)
                         else Inr (True, s\<lparr> cs_control := cs_control s @
                           (if fScriptChecks \<and> ce_nScriptCheckThreads E \<noteq> 0 then (case vChecks of None \<Rightarrow> [] | Some v \<Rightarrow> v) else []) \<rparr>)))))))"

text \<open>The two blocks of the chain whose recorded supply is corrected.\<close>

definition supply_exception :: "int \<Rightarrow> nat \<Rightarrow> amount \<Rightarrow> amount" where
  "supply_exception h i nValueOut =
     (let nValueOut = (if h = 120555 \<and> nValueOut = 259257880811494 \<and> i = 1
            then nValueOut - 2592000 * COIN else nValueOut)
      in if h = 128502 \<and> nValueOut = 13151119035 \<and> i = 1 then nValueOut - 10000000100 else nValueOut)"

text \<open>One turn of the loop over the transactions, the one with the index \<open>i\<close>.\<close>

definition connect_tx :: "('p, 's, 'r) secp \<Rightarrow> 'b CCoinsView \<Rightarrow> CChainParams \<Rightarrow> block_tree \<Rightarrow> connect_env
    \<Rightarrow> bool \<Rightarrow> u32 \<Rightarrow> CBlock \<Rightarrow> int \<Rightarrow> nat \<Rightarrow> CTransaction \<Rightarrow> 'b connect_state
    \<Rightarrow> failure + bool \<times> 'b connect_state" where
  "connect_tx ec V P T E fScriptChecks flags block h i tx s =
     (let s = s\<lparr> cs_nSigOps := cs_nSigOps s + GetLegacySigOpCount tx \<rparr> in
      if cs_nSigOps s > MAX_BLOCK_SIGOPS_CURRENT then Inr (refuse 100 REJECT_INVALID ''bad-blk-sigops'' s)
      else if uint (nTime block) > ce_zerocoin_maintenance E \<and> \<not> ce_IsInitialBlockDownload E
              \<and> ContainsZerocoins tx then Inr (refuse 100 0 [] s)
      else
        (case (if HasZerocoinSpendInputs tx then Inr (connect_zerocoin_tx E tx h s)
               else if \<not> IsCoinBase tx then connect_ordinary_tx ec V P T E fScriptChecks flags tx h s
               else Inr (True, s)) of
           Inl e \<Rightarrow> Inl e
         | Inr (False, s) \<Rightarrow> Inr (False, s)
         | Inr (True, s) \<Rightarrow>
             (case GetValueOut tx of
                Inl e \<Rightarrow> Inl (Thrown e)
              | Inr nOut \<Rightarrow>
                  let s = s\<lparr> cs_nValueOut := supply_exception h i (cs_nValueOut s + nOut) \<rparr> in
                  (case UpdateCoins V tx [] (word_of_int h) (cs_view s) of
                     Inl e \<Rightarrow> Inl e
                   | Inr (txundo, c) \<Rightarrow>
                       Inr (True, s\<lparr> cs_view := c,
                         cs_vtxundo := (if i > 0 then cs_vtxundo s @ [txundo] else cs_vtxundo s),
                         cs_vPos := cs_vPos s @ [(tx_hash tx, cs_nTxOffset s)],
                         cs_nTxOffset := cs_nTxOffset s + of_nat (length (ser_tx tx)) \<rparr>)))))"

fun connect_txs :: "('p, 's, 'r) secp \<Rightarrow> 'b CCoinsView \<Rightarrow> CChainParams \<Rightarrow> block_tree \<Rightarrow> connect_env
    \<Rightarrow> bool \<Rightarrow> u32 \<Rightarrow> CBlock \<Rightarrow> int \<Rightarrow> nat \<Rightarrow> CTransaction list \<Rightarrow> 'b connect_state
    \<Rightarrow> failure + bool \<times> 'b connect_state" where
  "connect_txs ec V P T E fScriptChecks flags block h i [] s = Inr (True, s)"
| "connect_txs ec V P T E fScriptChecks flags block h i (tx # txs) s =
     (case connect_tx ec V P T E fScriptChecks flags block h i tx s of
        Inl e \<Rightarrow> Inl e
      | Inr (False, s) \<Rightarrow> Inr (False, s)
      | Inr (True, s) \<Rightarrow> connect_txs ec V P T E fScriptChecks flags block h (i + 1) txs s)"

text \<open>The rule against overwriting transactions that have unspent outputs.\<close>

fun check_bip30 :: "'b CCoinsView \<Rightarrow> CTransaction list \<Rightarrow> 'b CCoinsViewCache \<Rightarrow> bool \<times> 'b CCoinsViewCache" where
  "check_bip30 V [] c = (True, c)"
| "check_bip30 V (tx # txs) c =
     (case AccessCoins V c (tx_hash tx) of
        (Some coins, c) \<Rightarrow> if \<not> IsPruned coins then (False, c) else check_bip30 V txs c
      | (None, c) \<Rightarrow> check_bip30 V txs c)"

text \<open>\<open>chainActive.Tip()\<close> is an argument, and so is whether the masternode list is synchronised.\<close>

definition IsBlockValueValid :: "CChainParams \<Rightarrow> block_tree \<Rightarrow> ptr option \<Rightarrow> bool \<Rightarrow> CBlock \<Rightarrow> amount \<Rightarrow> amount \<Rightarrow> bool" where
  "IsBlockValueValid P T tip fSynced block nExpectedValue nMinted =
     (case tip of None \<Rightarrow> True
      | Some q \<Rightarrow>
          let h = (if bi_hash (bt_arena T ! q) = hashPrevBlock block then nHeight (bt_arena T ! q) + 1
                   else case mapBlockIndex T (hashPrevBlock block) of
                     Some r \<Rightarrow> nHeight (bt_arena T ! r) + 1 | None \<Rightarrow> 0)
          in if \<not> fSynced \<and> h < 106600 \<and> h mod nBudgetCycleBlocks P < 100 then True
             else \<not> nExpectedValue <s nMinted)"

text \<open>The answers of the other parts of the node: \<open>CheckBlock\<close>, the genesis hash, the estimate of the
  checkpoints, whether the entry has its hash, the tip, the masternode list, the supply of zerocoins
  and their accumulators.\<close>

record block_env =
  be_CheckBlock :: "CBlock \<Rightarrow> CValidationState \<Rightarrow> bool \<times> CValidationState"
  be_hashGenesisBlock :: limbs
  be_TotalBlocksEstimate :: int
  be_phashBlock :: bool
  be_tip :: "ptr option"
  be_IsSynced :: bool
  be_UpdateZZNNSupply :: "CBlockIndex \<Rightarrow> bool \<times> CBlockIndex"
  be_ValidateAccumulatorCheckpoint :: bool
  be_ShutdownRequested :: bool

definition connect_start :: "CBlock \<Rightarrow> CValidationState \<Rightarrow> 'b CCoinsViewCache \<Rightarrow> 'b connect_state" where
  "connect_start block st c = \<lparr> cs_view = c, cs_state = st, cs_nFees = 0, cs_nValueIn = 0, cs_nValueOut = 0,
     cs_nSigOps = 0, cs_vtxundo = [], cs_vSpends = [], cs_vMints = [], cs_vSpendsInBlock = [],
     cs_control = [], cs_vPos = [], cs_nTxOffset = of_nat (GetSizeOfCompactSize (of_nat (length (vtx block)))) \<rparr>"

definition EnforceBIP30 :: "block_env \<Rightarrow> CBlockIndex \<Rightarrow> bool" where
  "EnforceBIP30 B pindex \<longleftrightarrow> \<not> be_phashBlock B \<or>
     \<not> ((nHeight pindex = 91842 \<and> bi_hash pindex =
           SetHex 8 ''0x00000000000a4d0a398161ffc163c503763b1f4360639393e0e4c8e300e0caec'') \<or>
        (nHeight pindex = 91880 \<and> bi_hash pindex =
           SetHex 8 ''0x00000000000743f190a18c5577a3c2d2a1f610ae9601ac046a38084ccb7cd721''))"

text \<open>\<open>control.Wait()\<close>: every queued script check holds.\<close>

fun control_Wait :: "('p, 's, 'r) secp \<Rightarrow> CScriptCheck list \<Rightarrow> failure + bool" where
  "control_Wait ec [] = Inr True"
| "control_Wait ec (k # ks) =
     (case CScriptCheck_run ec k of
        Inl e \<Rightarrow> Inl e
      | Inr (ok, _) \<Rightarrow> map_sum id (\<lambda>rest. ok \<and> rest) (control_Wait ec ks))"

text \<open>After the loop: the supply, the limit on what is minted, the accumulators and the scripts.\<close>

definition connect_totals :: "('p, 's, 'r) secp \<Rightarrow> CChainParams \<Rightarrow> block_tree \<Rightarrow> block_env \<Rightarrow> CBlock
    \<Rightarrow> CBlockIndex \<Rightarrow> 'b connect_state \<Rightarrow> failure + (bool \<times> 'b connect_state) \<times> CBlockIndex" where
  "connect_totals ec P T B block pindex s =
     (case be_UpdateZZNNSupply B pindex of
        (False, pindex) \<Rightarrow> Inr (refuse 100 REJECT_INVALID [] s, pindex)
      | (True, pindex) \<Rightarrow>
          (case pprev pindex of
             None \<Rightarrow> Inl Out_of_range
           | Some q \<Rightarrow>
               let prev = bt_arena T ! q;
                   nMoneySupplyPrev = nMoneySupply prev;
                   pindex = pindex\<lparr> nMoneySupply := nMoneySupplyPrev + cs_nValueOut s - cs_nValueIn s \<rparr>;
                   pindex = pindex\<lparr> nMint := nMoneySupply pindex - nMoneySupplyPrev + cs_nFees s \<rparr>;
                   nExpectedMint = word_of_int (GetBlockValue P (nHeight prev))
                     + (if IsProofOfWork block then cs_nFees s else 0)
               in if \<not> IsBlockValueValid P T (be_tip B) (be_IsSynced B) block nExpectedMint (nMint pindex)
                  then Inr (refuse 100 REJECT_INVALID ''bad-cb-amount'' s, pindex)
                  else if \<not> be_ValidateAccumulatorCheckpoint B then
                    (if \<not> be_ShutdownRequested B
                     then Inr (refuse 100 REJECT_INVALID ''bad-acc-checkpoint'' s, pindex)
                     else Inr ((False, s), pindex))
                  else (case control_Wait ec (cs_control s) of
                     Inl e \<Rightarrow> Inl e
                   | Inr ok \<Rightarrow>
                       if \<not> ok then Inr (refuse 100 REJECT_INVALID ''block-validation-failed'' s, pindex)
                       else Inr ((True, s), pindex))))"

text \<open>\<open>ConnectBlock\<close> up to the point before which nothing is stored.  The genesis block returns early,
  which the last component says.\<close>

definition ConnectBlock_checks :: "('p, 's, 'r) secp \<Rightarrow> sph_functions \<Rightarrow> 'b CCoinsView \<Rightarrow> CChainParams \<Rightarrow> block_tree
    \<Rightarrow> connect_env \<Rightarrow> block_env \<Rightarrow> CBlock \<Rightarrow> CValidationState \<Rightarrow> ptr \<Rightarrow> 'b CCoinsViewCache \<Rightarrow> bool
    \<Rightarrow> failure + (bool \<times> 'b connect_state) \<times> CBlockIndex \<times> bool" where
  "ConnectBlock_checks ec sph V P T E B block st p c fAlreadyChecked =
     (let pindex = bt_arena T ! p; h = nHeight pindex in
      case (if fAlreadyChecked then (True, st) else be_CheckBlock B block st) of
        (False, st) \<Rightarrow> Inr ((False, connect_start block st c), pindex, False)
      | (True, st) \<Rightarrow>
          (case cache_GetBestBlock V c of (best, c) \<Rightarrow>
            let hashPrev = (case pprev pindex of None \<Rightarrow> of_u64 8 0 | Some q \<Rightarrow> bi_hash (bt_arena T ! q));
                s = connect_start block st c in
            if hashPrev \<noteq> best then Inl Assertion_failed
            else if header_GetHash sph block = be_hashGenesisBlock B
            then Inr ((True, s\<lparr> cs_view := SetBestBlock c (bi_hash pindex) \<rparr>), pindex, True)
            else if h \<le> nLastPOWBlock P \<and> IsProofOfStake block
            then Inr (refuse 100 REJECT_INVALID ''PoS-early'' s, pindex, False)
            else if h > nLastPOWBlock P \<and> IsProofOfWork block
            then Inr (refuse 100 REJECT_INVALID ''PoW-ended'' s, pindex, False)
            else
              let fScriptChecks = (h \<ge> be_TotalBlocksEstimate B);
                  fCLTVHasMajority = (fScriptChecks \<and> pprev pindex \<noteq> None
                    \<and> IsSuperMajority P (bt_arena T) 5 (pprev pindex) (word_of_int (nEnforceBlockUpgradeMajority P)));
                  flags = SCRIPT_VERIFY_P2SH OR SCRIPT_VERIFY_DERSIG
                    OR (if fCLTVHasMajority then SCRIPT_VERIFY_CHECKLOCKTIMEVERIFY else 0)
              in (case (if EnforceBIP30 B pindex then check_bip30 V (vtx block) c else (True, c)) of
                    (False, c) \<Rightarrow> Inr (refuse 100 REJECT_INVALID ''bad-txns-BIP30'' (s\<lparr> cs_view := c \<rparr>), pindex, False)
                  | (True, c) \<Rightarrow>
                      (case connect_txs ec V P T E fScriptChecks flags block h 0 (vtx block) (s\<lparr> cs_view := c \<rparr>) of
                         Inl e \<Rightarrow> Inl e
                       | Inr (False, s) \<Rightarrow> Inr ((False, s), pindex, False)
                       | Inr (True, s) \<Rightarrow>
                           map_sum id (\<lambda>(r, pindex). (r, pindex, False)) (connect_totals ec P T B block pindex s)))))"

section \<open>The specification\<close>

text \<open>Spending an input, and the inputs of a transaction, in a map of unspent outputs; then its own
  outputs are entered, unless they are all unspendable.\<close>

definition spend_u :: "(limbs \<Rightarrow> CCoins option) \<Rightarrow> CTxIn \<Rightarrow> ((limbs \<Rightarrow> CCoins option) \<times> CTxInUndo) option" where
  "spend_u u i =
     (case u (op_hash (prevout i)) of
        None \<Rightarrow> None
      | Some x \<Rightarrow> (case Spend (prevout i) CTxInUndo_new x of
          (ret, y, undo) \<Rightarrow> if ret then Some (u(op_hash (prevout i) := live (Some y)), undo) else None))"

fun spends_u :: "(limbs \<Rightarrow> CCoins option) \<Rightarrow> CTxIn list \<Rightarrow> ((limbs \<Rightarrow> CCoins option) \<times> CTxUndo) option" where
  "spends_u u [] = Some (u, [])"
| "spends_u u (i # is) =
     (case spend_u u i of
        None \<Rightarrow> None
      | Some (u, undo) \<Rightarrow> map_option (\<lambda>(u, undos). (u, undo # undos)) (spends_u u is))"

definition ordinary :: "CTransaction \<Rightarrow> bool" where
  "ordinary tx \<longleftrightarrow> \<not> IsCoinBase tx \<and> \<not> HasZerocoinSpendInputs tx"

definition connect_u :: "(limbs \<Rightarrow> CCoins option) \<Rightarrow> CTransaction \<Rightarrow> u32
    \<Rightarrow> ((limbs \<Rightarrow> CCoins option) \<times> CTxUndo) option" where
  "connect_u u tx h =
     map_option (\<lambda>(u, undos). (u(tx_hash tx := live (Some (CCoins_of tx h))), undos))
       (if ordinary tx then spends_u u (vin tx) else Some (u, []))"

section \<open>Coins stay storable\<close>

lemma Cleanup_idem [simp]: "Cleanup (Cleanup c) = Cleanup c"
  by (rule Cleanup_of_tidy [OF Cleanup_tidy])

lemma ClearUnspendable_tidy: "tidy (ClearUnspendable c)"
  by (simp add: ClearUnspendable_def Cleanup_tidy)

lemma pop_nulls_subset: "set (pop_nulls os) \<subseteq> set os"
  by (induction os rule: pop_nulls.induct) auto

lemma Cleanup_subset: "set (c_vout (Cleanup c)) \<subseteq> set (c_vout c)"
  using pop_nulls_subset [of "rev (c_vout c)"] by (simp add: Cleanup_def)

lemma length_pop_nulls: "length (pop_nulls os) \<le> length os"
  by (induction os rule: pop_nulls.induct) auto

lemma Cleanup_length: "length (c_vout (Cleanup c)) \<le> length (c_vout c)"
  using length_pop_nulls [of "rev (c_vout c)"] by (simp add: Cleanup_def)

lemma Cleanup_fields [simp]:
  "fCoinBase (Cleanup c) = fCoinBase c" "fCoinStake (Cleanup c) = fCoinStake c"
  "c_nHeight (Cleanup c) = c_nHeight c" "c_nVersion (Cleanup c) = c_nVersion c"
  by (simp_all add: Cleanup_def)

definition outputs_ok :: "CTxOut list \<Rightarrow> bool" where
  "outputs_ok os \<longleftrightarrow> length os \<le> 33554432
     \<and> (\<forall>txo \<in> set os. if CTxOut_IsNull txo then txo = CTxOut_null else ctxout_ok txo)"

lemma coins_ok_iff:
  "coins_ok c \<longleftrightarrow> c_vout c \<noteq> [] \<and> tidy c \<and> outputs_ok (c_vout c) \<and> 0 <=s c_nHeight c \<and> 0 <=s c_nVersion c"
  by (auto simp: coins_ok_def tidy_def outputs_ok_def)

lemma Cleanup_ok:
  assumes "outputs_ok (c_vout c)" "0 <=s c_nHeight c" "0 <=s c_nVersion c" "\<not> IsPruned (Cleanup c)"
  shows "coins_ok (Cleanup c)"
proof -
  have "outputs_ok (c_vout (Cleanup c))"
    using assms(1) Cleanup_subset [of c] Cleanup_length [of c] unfolding outputs_ok_def by fastforce
  moreover have "c_vout (Cleanup c) \<noteq> []" using assms(4) tidy_pruned [OF Cleanup_tidy [of c]] by simp
  ultimately show ?thesis using assms(2,3) Cleanup_tidy [of c] by (simp add: coins_ok_iff)
qed

lemma CTxOut_null_IsNull [simp]: "CTxOut_IsNull CTxOut_null"
  by (simp add: CTxOut_IsNull_def CTxOut_null_def)

lemma outputs_ok_update: "outputs_ok os \<Longrightarrow> outputs_ok (os[n := CTxOut_null])"
  unfolding outputs_ok_def by (auto dest!: set_update_subset_insert [THEN subsetD])

lemma Spend_result:
  assumes "Spend out1 u0 x = (True, y, undo)"
  defines "n \<equiv> unat (op_n out1)"
  shows "n < length (c_vout x) \<and> \<not> CTxOut_IsNull (c_vout x ! n)
    \<and> y = Cleanup (x\<lparr> c_vout := (c_vout x)[n := CTxOut_null] \<rparr>) \<and> u_txout undo = c_vout x ! n
    \<and> (if c_vout y = [] then u_nHeight undo = c_nHeight x \<and> u_fCoinBase undo = fCoinBase x
         \<and> u_fCoinStake undo = fCoinStake x \<and> u_nVersion undo = c_nVersion x
       else u_nHeight undo = 0 \<and> \<not> u_fCoinBase undo \<and> \<not> u_fCoinStake undo \<and> u_nVersion undo = 0)"
  using assms(1)
  by (auto simp: Spend_def Let_def n_def CTxOut_SetNull_def CTxInUndo_of_def CTxInUndo_new_def split: if_splits)

lemma Spend_ok:
  assumes "Spend out1 u0 x = (True, y, undo)" "coins_ok x"
  shows "(\<not> IsPruned y \<longrightarrow> coins_ok y) \<and> tidy y \<and> c_nHeight y = c_nHeight x
    \<and> (c_nHeight x \<noteq> 0 \<and> c_nHeight x < 0x40000000 \<longrightarrow> undo_ok undo)"
proof -
  note r = Spend_result [OF assms(1)]
  have v: "outputs_ok (c_vout x)" "0 <=s c_nHeight x" "0 <=s c_nVersion x"
    using assms(2) by (simp_all add: coins_ok_iff)
  then have "ctxout_ok (c_vout x ! unat (op_n out1))" using r by (auto simp: outputs_ok_def)
  then have "c_nHeight x \<noteq> 0 \<and> c_nHeight x < 0x40000000 \<longrightarrow> undo_ok undo"
    using r v by (auto simp: undo_ok_def split: if_splits)
  then show ?thesis
    using r v Cleanup_ok [of "x\<lparr> c_vout := (c_vout x)[unat (op_n out1) := CTxOut_null] \<rparr>"]
      outputs_ok_update [OF v(1)] Cleanup_tidy by auto
qed


lemma CCoins_of_ok:
  assumes "outputs_ok (vout tx)" "0 <=s nVersion tx" "0 <=s h"
  shows "\<not> IsPruned (CCoins_of tx h) \<longrightarrow> coins_ok (CCoins_of tx h)"
proof -
  let ?c = "\<lparr> fCoinBase = IsCoinBase tx, fCoinStake = IsCoinStake tx,
    c_vout = map (\<lambda>txo. if IsUnspendable (scriptPubKey txo) then CTxOut_SetNull txo else txo) (vout tx),
    c_nHeight = h, c_nVersion = nVersion tx \<rparr>"
  have "CCoins_of tx h = Cleanup ?c" by (simp add: CCoins_of_def FromTx_def ClearUnspendable_def CCoins_new_def)
  moreover have "outputs_ok (c_vout ?c)"
    using assms(1) unfolding outputs_ok_def by (auto simp: CTxOut_SetNull_def)
  ultimately show ?thesis using Cleanup_ok [of ?c] assms(2,3) by simp
qed

lemma FromTx_of: "FromTx tx h c = CCoins_of tx h"
  by (cases c) (simp add: CCoins_of_def FromTx_def CCoins_new_def)

lemma CCoins_of_fields [simp]: "c_nHeight (CCoins_of tx h) = h" "fCoinStake (CCoins_of tx h) = IsCoinStake tx"
  by (simp_all add: CCoins_of_def FromTx_def ClearUnspendable_def)

lemma Cleanup_CCoins_of [simp]: "Cleanup (CCoins_of tx h) = CCoins_of tx h"
  by (simp add: CCoins_of_def FromTx_def Cleanup_of_tidy [OF ClearUnspendable_tidy])

section \<open>A view that stores coins\<close>

locale coins_store = coins_view V vinv utxo best resident coins_ok
  for V :: "'b CCoinsView" and vinv utxo best resident

context coins_store
begin

lemma c_utxo_ok: "c_inv c \<Longrightarrow> c_utxo c k = Some x \<Longrightarrow> coins_ok x"
  by (rule coins_view.storable_law [OF cache_is_view])

text \<open>One input: the operation succeeds exactly when the specification does, and leaves a cache that
  denotes its result.\<close>

lemma spend_input_law:
  assumes c: "c_inv c"
  shows "case spend_u (c_utxo c) i of
      None \<Rightarrow> \<exists>r c'. modify V (op_hash (prevout i)) (spend_step i) c = Some ((False, r), c')
    | Some (u, undo) \<Rightarrow> \<exists>c'. modify V (op_hash (prevout i)) (spend_step i) c = Some ((True, undo), c')
        \<and> c_inv c' \<and> c_utxo c' = u \<and> c_best c' = c_best c \<and> hashBlock c' = hashBlock c"
proof -
  let ?k = "op_hash (prevout i)"
  have sto: "coins_ok (Cleanup (snd (spend_step i x)))"
    if x: "live (Some x) = c_utxo c ?k" "tidy x" "\<not> IsPruned (Cleanup (snd (spend_step i x)))" for x
  proof -
    have p: "\<not> IsPruned x"
    proof
      assume "IsPruned x"
      then have "c_vout x = []" using x(2) tidy_pruned by simp
      then have "snd (spend_step i x) = x" by (simp add: spend_step_def Spend_def Let_def)
      then show False using x(2,3) \<open>IsPruned x\<close> by (simp add: Cleanup_of_tidy)
    qed
    then have ok: "coins_ok x" using x(1) c_utxo_ok [OF c, of ?k] by simp
    obtain ret y undo where s: "Spend (prevout i) CTxInUndo_new x = (ret, y, undo)" by (rule prod_cases3)
    show ?thesis
    proof (cases ret)
      case True
      then show ?thesis using s Spend_ok [of "prevout i" CTxInUndo_new x y undo] ok x(3) by (simp add: spend_step_def Cleanup_of_tidy)
    next
      case False
      then have "y = x" using s by (auto simp: Spend_def Let_def split: if_splits)
      then show ?thesis using s ok x(2) by (simp add: spend_step_def Cleanup_of_tidy)
    qed
  qed
  obtain x c' where x: "live (Some x) = c_utxo c ?k" "tidy x" "modify V ?k (spend_step i) c = Some (fst (spend_step i x), c')" "c_inv c'"
    "c_utxo c' = (c_utxo c)(?k := live (Some (Cleanup (snd (spend_step i x)))))" "c_best c' = c_best c" "hashBlock c' = hashBlock c"
    using modify_law [OF c, of ?k "spend_step i"] sto by blast
  show ?thesis
  proof (cases "IsPruned x")
    case True
    then have "c_vout x = []" using x(2) tidy_pruned by simp
    then show ?thesis using x(1,3) True by (simp add: spend_u_def spend_step_def Spend_def Let_def)
  next
    case False
    then have u: "c_utxo c ?k = Some x" using x(1) by simp
    obtain ret y undo where s: "Spend (prevout i) CTxInUndo_new x = (ret, y, undo)" by (rule prod_cases3)
    show ?thesis
    proof (cases ret)
      case True
      then have "Cleanup y = y"
        using s Spend_ok [of "prevout i" CTxInUndo_new x y undo] c_utxo_ok [OF c u] by (simp add: Cleanup_of_tidy)
      then show ?thesis using x u s True by (simp add: spend_u_def spend_step_def)
    next
      case False
      then show ?thesis using x u s by (simp add: spend_u_def spend_step_def)
    qed
  qed
qed

lemma spend_inputs_law:
  "c_inv c \<Longrightarrow> (case spends_u (c_utxo c) is of
      None \<Rightarrow> spend_inputs V is us c = Inl Assertion_failed
    | Some (u, undos) \<Rightarrow> \<exists>c'. spend_inputs V is us c = Inr (us @ undos, c') \<and> c_inv c' \<and> c_utxo c' = u
        \<and> c_best c' = c_best c \<and> hashBlock c' = hashBlock c)"
proof (induction "is" arbitrary: c us)
  case (Cons i "is")
  note l = spend_input_law [OF Cons.prems, of i]
  show ?case
  proof (cases "spend_u (c_utxo c) i")
    case None
    then show ?thesis using l by auto
  next
    case (Some p)
    obtain u undo where p: "p = (u, undo)" by (cases p)
    obtain c1 where c1: "modify V (op_hash (prevout i)) (spend_step i) c = Some ((True, undo), c1)"
      "c_inv c1" "c_utxo c1 = u" "c_best c1 = c_best c" "hashBlock c1 = hashBlock c"
      using l Some p by auto
    show ?thesis
      using Cons.IH [OF c1(2), of "us @ [undo]"] c1 Some p by (auto split: option.splits)
  qed
qed simp

lemma UpdateCoins_law:
  assumes c: "c_inv c" and tx: "outputs_ok (vout tx)" "0 <=s nVersion tx" "0 <=s h"
  shows "case connect_u (c_utxo c) tx h of
      None \<Rightarrow> UpdateCoins V tx us h c = Inl Assertion_failed
    | Some (u, undos) \<Rightarrow> \<exists>c'. UpdateCoins V tx us h c = Inr (us @ undos, c') \<and> c_inv c' \<and> c_utxo c' = u
        \<and> c_best c' = c_best c \<and> hashBlock c' = hashBlock c"
proof -
  have enter: "\<exists>c'. modify V (tx_hash tx) (\<lambda>coins. ((), FromTx tx h coins)) c1 = Some ((), c') \<and> c_inv c'
      \<and> c_utxo c' = (c_utxo c1)(tx_hash tx := live (Some (CCoins_of tx h))) \<and> c_best c' = c_best c1
      \<and> hashBlock c' = hashBlock c1" if "c_inv c1" for c1
    using modify_law [OF that, of "tx_hash tx" "\<lambda>coins. ((), FromTx tx h coins)"] CCoins_of_ok [OF tx]
    by (auto simp: FromTx_of)
  show ?thesis
  proof (cases "ordinary tx")
    case True
    then have o: "(if \<not> IsCoinBase tx \<and> \<not> HasZerocoinSpendInputs tx then spend_inputs V (vin tx) us c else Inr (us, c))
        = spend_inputs V (vin tx) us c" by (simp add: ordinary_def)
    show ?thesis
    proof (cases "spends_u (c_utxo c) (vin tx)")
      case None
      then show ?thesis using spend_inputs_law [OF c, of "vin tx" us] True o
        by (simp add: connect_u_def UpdateCoins_def)
    next
      case (Some p)
      obtain u undos where p: "p = (u, undos)" by (cases p)
      obtain c1 where c1: "spend_inputs V (vin tx) us c = Inr (us @ undos, c1)" "c_inv c1" "c_utxo c1 = u"
        "c_best c1 = c_best c" "hashBlock c1 = hashBlock c"
        using spend_inputs_law [OF c, of "vin tx" us] Some p by auto
      obtain c2 where "modify V (tx_hash tx) (\<lambda>coins. ((), FromTx tx h coins)) c1 = Some ((), c2)" "c_inv c2"
        "c_utxo c2 = (c_utxo c1)(tx_hash tx := live (Some (CCoins_of tx h)))" "c_best c2 = c_best c1"
        "hashBlock c2 = hashBlock c1" using enter [OF c1(2)] by blast
      then show ?thesis using c1 Some p True o by (simp add: connect_u_def UpdateCoins_def)
    qed
  next
    case False
    then have o: "(if \<not> IsCoinBase tx \<and> \<not> HasZerocoinSpendInputs tx then spend_inputs V (vin tx) us c else Inr (us, c))
        = Inr (us, c)" by (auto simp: ordinary_def)
    obtain c2 where "modify V (tx_hash tx) (\<lambda>coins. ((), FromTx tx h coins)) c = Some ((), c2)" "c_inv c2"
      "c_utxo c2 = (c_utxo c)(tx_hash tx := live (Some (CCoins_of tx h)))" "c_best c2 = c_best c"
      "hashBlock c2 = hashBlock c" using enter [OF c] by blast
    then show ?thesis using False o by (simp add: connect_u_def UpdateCoins_def)
  qed
qed

end

interpretation tip_store: coins_store "cache_view (db_view ec)" "cache_inv (db_inv ec) (db_utxo ec) anywhere coins_ok"
    "cache_utxo (db_utxo ec)" "cache_best db_best_of" cache_resident
  for ec
  by unfold_locales

section \<open>The loop refines the specification\<close>

fun connects_u :: "(limbs \<Rightarrow> CCoins option) \<Rightarrow> CTransaction list \<Rightarrow> u32
    \<Rightarrow> ((limbs \<Rightarrow> CCoins option) \<times> CTxUndo list) option" where
  "connects_u u [] h = Some (u, [])"
| "connects_u u (tx # txs) h =
     (case connect_u u tx h of
        None \<Rightarrow> None
      | Some (u, undos) \<Rightarrow> map_option (\<lambda>(u, v). (u, undos # v)) (connects_u u txs h))"

definition tx_storable :: "CTransaction \<Rightarrow> bool" where
  "tx_storable tx \<longleftrightarrow> outputs_ok (vout tx) \<and> 0 <=s nVersion tx"

text \<open>The zerocoin branches leave the view and the undo data alone.\<close>

lemma connect_spends_frame:
  "connect_spends E tx h is s = (b, s') \<Longrightarrow> cs_view s' = cs_view s \<and> cs_vtxundo s' = cs_vtxundo s"
proof (induction E tx h "is" s arbitrary: b s' rule: connect_spends.induct)
  case (2 E tx h i "is" s)
  obtain v st where v: "(if CTxIn_IsZerocoinPublicSpend i then ce_public_value E i tx (cs_state s)
      else (Some (ce_private_value E i), cs_state s)) = (v, st)"
    by (cases "if CTxIn_IsZerocoinPublicSpend i then ce_public_value E i tx (cs_state s)
      else (Some (ce_private_value E i), cs_state s)")
  consider "\<not> CTxIn_IsZerocoinSpend i \<and> \<not> CTxIn_IsZerocoinPublicSpend i"
    | "CTxIn_IsZerocoinSpend i \<or> CTxIn_IsZerocoinPublicSpend i"
      "\<not> CheckPublicCoinSpendEnforced E h (CTxIn_IsZerocoinPublicSpend i)"
    | "CTxIn_IsZerocoinSpend i \<or> CTxIn_IsZerocoinPublicSpend i"
      "CheckPublicCoinSpendEnforced E h (CTxIn_IsZerocoinPublicSpend i)" by blast
  then show ?case
  proof cases
    case 1
    then show ?thesis using "2.IH"(1) [OF refl 1] "2.prems" by simp
  next
    case 2
    then show ?thesis using "2.prems" by auto
  next
    case 3
    then have guards: "\<not> (\<not> CTxIn_IsZerocoinSpend i \<and> \<not> CTxIn_IsZerocoinPublicSpend i)" by blast
    show ?thesis
    proof (cases v)
      case None
      then show ?thesis using "2.prems" 3 v by (auto simp: Let_def)
    next
      case (Some a)
      show ?thesis
      proof (cases "ce_spend_ok E tx i")
        case True
        then show ?thesis
          using "2.IH"(2) [OF refl guards _ v [symmetric] Some refl, of b s'] "2.prems" 3 v Some
          by (cases "CTxIn_IsZerocoinPublicSpend i"; cases "CTxIn_IsZerocoinSpend i") (simp_all add: Let_def)
      next
        case False
        then show ?thesis using "2.prems" 3 v Some by (auto simp: Let_def)
      qed
    qed
  qed
qed simp

lemma connect_mints_frame:
  "connect_mints E tx os s = (b, s') \<Longrightarrow> cs_view s' = cs_view s \<and> cs_vtxundo s' = cs_vtxundo s"
  by (induction E tx os s arbitrary: b s' rule: connect_mints.induct)
    (fastforce split: if_splits prod.splits bool.splits)+

lemma check_mints_frame:
  "check_mints E tx s = (b, s') \<Longrightarrow> cs_view s' = cs_view s \<and> cs_vtxundo s' = cs_vtxundo s"
  using connect_mints_frame [of E tx "vout tx" s b s'] by (auto simp: check_mints_def split: if_splits)

lemma connect_zerocoin_frame:
  assumes "connect_zerocoin_tx E tx h s = (b, s')"
  shows "cs_view s' = cs_view s \<and> cs_vtxundo s' = cs_vtxundo s"
proof -
  let ?s = "s\<lparr> cs_vSpendsInBlock := cs_vSpendsInBlock s @ [tx_hash tx] \<rparr>"
  obtain b1 s1 where c: "connect_spends E tx h (vin tx) ?s = (b1, s1)"
    by (cases "connect_spends E tx h (vin tx) ?s")
  have "cs_view s1 = cs_view s \<and> cs_vtxundo s1 = cs_vtxundo s" using connect_spends_frame [OF c] by simp
  moreover have "check_mints E tx s1 = (b, s') \<or> (b, s') = (False, s1) \<or> cs_view s' = cs_view s \<and> cs_vtxundo s' = cs_vtxundo s"
    using assms c by (auto simp: connect_zerocoin_tx_def Let_def split: if_splits bool.splits)
  ultimately show ?thesis using check_mints_frame [of E tx s1 b s'] by auto
qed

context coins_view
begin

text \<open>\<open>c'\<close> is \<open>c\<close> after reading: good again, with the same unspent outputs and best block.\<close>

abbreviation read_from :: "'b CCoinsViewCache \<Rightarrow> 'b CCoinsViewCache \<Rightarrow> bool" where
  "read_from c c' \<equiv> c_inv c' \<and> c_utxo c' = c_utxo c \<and> c_best c' = c_best c"

lemma read_Access: "c_inv c \<Longrightarrow> AccessCoins V c k = (r, c') \<Longrightarrow> read_from c c'"
  using AccessCoins_law by blast

lemma read_GetOutputFor: "c_inv c \<Longrightarrow> GetOutputFor V c i = Some (r, c') \<Longrightarrow> read_from c c'"
  using read_Access [of c "op_hash (prevout i)"]
  by (auto simp: GetOutputFor_def Let_def split: prod.splits option.splits if_splits)

lemma read_p2sh: "c_inv c \<Longrightarrow> p2sh_sigops_loop V is n c = Some (r, c') \<Longrightarrow> read_from c c'"
proof (induction "is" arbitrary: n c)
  case (Cons i "is")
  obtain t c1 where g: "GetOutputFor V c i = Some (t, c1)"
    using Cons.prems(2) by (cases "GetOutputFor V c i") auto
  note l = read_GetOutputFor [OF Cons.prems(1) g]
  obtain n' where "p2sh_sigops_loop V is n' c1 = Some (r, c')" using Cons.prems(2) g by auto
  then show ?case using Cons.IH [of c1 n'] l by auto
qed simp

lemma read_value_in: "c_inv c \<Longrightarrow> value_in_loop V is n c = Some (r, c') \<Longrightarrow> read_from c c'"
proof (induction "is" arbitrary: n c)
  case (Cons i "is")
  obtain t c1 where g: "GetOutputFor V c i = Some (t, c1)"
    using Cons.prems(2) by (cases "GetOutputFor V c i") auto
  note l = read_GetOutputFor [OF Cons.prems(1) g]
  show ?case using Cons.IH [of c1] Cons.prems(2) g l by auto
qed simp

lemma read_have: "c_inv c \<Longrightarrow> HaveInputs V c tx = (r, c') \<Longrightarrow> read_from c c'"
  using have_inputs_law [of c "vin tx" r c'] by (auto simp: HaveInputs_def split: if_splits)

lemma read_sigops: "c_inv c \<Longrightarrow> GetP2SHSigOpCount V c tx = Some (r, c') \<Longrightarrow> read_from c c'"
  using read_p2sh [of c "vin tx" 0 r c'] by (auto simp: GetP2SHSigOpCount_def split: if_splits)

lemma read_GetValueIn: "c_inv c \<Longrightarrow> GetValueIn V c tx = Some (r, c') \<Longrightarrow> read_from c c'"
  using read_value_in [of c "vin tx" 0 r c'] by (auto simp: GetValueIn_def split: if_splits)

lemma read_values: "c_inv c \<Longrightarrow> input_values V P h is n st c = Inr (r, c') \<Longrightarrow> read_from c c'"
proof (induction "is" arbitrary: n c)
  case (Cons i "is")
  obtain t c1 where a: "AccessCoins V c (op_hash (prevout i)) = (t, c1)"
    by (cases "AccessCoins V c (op_hash (prevout i))")
  note l = read_Access [OF Cons.prems(1) a]
  have "c' = c1 \<or> (\<exists>n'. input_values V P h is n' st c1 = Inr (r, c'))"
    using Cons.prems(2) a by (auto simp: Let_def split: option.splits if_splits)
  then show ?case using Cons.IH [of c1] l by auto
qed simp

lemma read_scripts: "c_inv c \<Longrightarrow> input_scripts ec V tx flags store ns q st c = Inr (r, c') \<Longrightarrow> read_from c c'"
proof (induction ns arbitrary: q c)
  case (Cons i ns)
  obtain t c1 where a: "AccessCoins V c (op_hash (prevout (vin tx ! i))) = (t, c1)"
    by (cases "AccessCoins V c (op_hash (prevout (vin tx ! i)))")
  note l = read_Access [OF Cons.prems(1) a]
  have "c' = c1 \<or> (\<exists>q'. input_scripts ec V tx flags store ns q' st c1 = Inr (r, c'))"
    using Cons.prems(2) a by (auto split: option.splits if_splits sum.splits prod.splits bool.splits)
  then show ?case using Cons.IH [of c1] l by auto
qed simp

lemma read_CheckInputs:
  assumes "c_inv c" "CheckInputs ec V P T tx st c fs flags store q = Inr (r, c', q')"
  shows "read_from c c'"
proof (cases "ordinary tx")
  case False
  then show ?thesis using assms by (auto simp: CheckInputs_def ordinary_def)
next
  case True
  obtain b c1 where h: "HaveInputs V c tx = (b, c1)" by (cases "HaveInputs V c tx")
  note l1 = read_have [OF assms(1) h]
  obtain best2 c2 where g: "cache_GetBestBlock V c1 = (best2, c2)" by (cases "cache_GetBestBlock V c1")
  have l2: "read_from c1 c2" using GetBestBlock_law [OF _ g] l1 by auto
  show ?thesis
  proof (cases b)
    case False
    then show ?thesis using assms(2) True h l1 by (auto simp: CheckInputs_def ordinary_def)
  next
    case b: True
    obtain p where p: "mapBlockIndex T best2 = Some p"
      using assms(2) True h b g by (cases "mapBlockIndex T best2") (auto simp: CheckInputs_def ordinary_def)
    let ?iv = "input_values V P (nHeight (bt_arena T ! p) + 1) (vin tx) 0 st c2"
    obtain v c3 where iv: "?iv = Inr (v, c3)"
      using assms(2) True h b g p by (cases ?iv) (auto simp: CheckInputs_def ordinary_def Let_def)
    have l3: "read_from c2 c3" using read_values [OF _ iv] l2 by auto
    have "c' = c3 \<or> (\<exists>x. input_scripts ec V tx flags store [0..<length (vin tx)] q st c3 = Inr (x, c'))"
      using assms(2) True h b g p iv
      by (auto simp: CheckInputs_def ordinary_def Let_def split: sum.splits if_splits option.splits prod.splits)
    moreover have "read_from c3 c'" if "input_scripts ec V tx flags store [0..<length (vin tx)] q st c3 = Inr (x, c')" for x
      using read_scripts [OF _ that] l1 l2 l3 by auto
    ultimately show ?thesis using l1 l2 l3 by metis
  qed
qed

lemma read_bip30:
  "c_inv c \<Longrightarrow> check_bip30 V txs c = (b, c') \<Longrightarrow>
    read_from c c' \<and> (b \<longrightarrow> (\<forall>tx \<in> set txs. c_utxo c (tx_hash tx) = None))"
proof (induction txs arbitrary: c)
  case (Cons tx txs)
  obtain r c1 where a: "AccessCoins V c (tx_hash tx) = (r, c1)" by (cases "AccessCoins V c (tx_hash tx)")
  note l = AccessCoins_law [OF Cons.prems(1) a]
  show ?case
  proof (cases "live r")
    case None
    then have "check_bip30 V txs c1 = (b, c')"
      using Cons.prems(2) a by (auto simp: live_Some_iff split: option.splits if_splits)
    then show ?thesis using Cons.IH [of c1] l None by auto
  next
    case (Some x)
    then have "\<not> b \<and> c' = c1" using Cons.prems(2) a by (auto simp: live_Some_iff split: if_splits)
    then show ?thesis using l by auto
  qed
qed simp

text \<open>An ordinary transaction that passes has only been read.\<close>

lemma connect_ordinary_law:
  assumes c: "c_inv (cs_view s)"
    and r: "connect_ordinary_tx ec V P T E fs flags tx h s = Inr (b, s')"
  shows "b \<longrightarrow> read_from (cs_view s) (cs_view s') \<and> cs_vtxundo s' = cs_vtxundo s"
proof
  assume b
  obtain b1 c1 where h: "HaveInputs V (cs_view s) tx = (b1, c1)" by (cases "HaveInputs V (cs_view s) tx")
  have b1: "b1" "\<not> list_ex (\<lambda>i. \<not> ValidOutPoint P E (prevout i) h) (vin tx)"
    using r h \<open>b\<close> by (auto simp: connect_ordinary_tx_def split: bool.splits if_splits)
  note l1 = read_have [OF c h]
  obtain b2 s2 where m: "check_mints E tx (s\<lparr> cs_view := c1 \<rparr>) = (b2, s2)"
    by (cases "check_mints E tx (s\<lparr> cs_view := c1 \<rparr>)")
  have b2: b2 using r h b1 m \<open>b\<close> by (auto simp: connect_ordinary_tx_def split: bool.splits)
  have s2: "cs_view s2 = c1" "cs_vtxundo s2 = cs_vtxundo s" using check_mints_frame [OF m] by simp_all
  obtain n c3 where p: "GetP2SHSigOpCount V c1 tx = Some (n, c3)"
    using r h b1 m b2 s2 by (cases "GetP2SHSigOpCount V c1 tx") (auto simp: connect_ordinary_tx_def)
  note l3 = read_sigops [OF _ p]
  have lim: "\<not> cs_nSigOps s2 + n > MAX_BLOCK_SIGOPS_CURRENT"
    using r h b1 m b2 s2 p \<open>b\<close> by (auto simp: connect_ordinary_tx_def Let_def)
  obtain v c4 where g: "GetValueIn V c3 tx = Some (v, c4)"
    using r h b1 m b2 s2 p lim by (cases "GetValueIn V c3 tx") (auto simp: connect_ordinary_tx_def Let_def)
  note l4 = read_GetValueIn [OF _ g]
  let ?ci = "CheckInputs ec V P T tx (cs_state s2) c4 fs flags False
    (if ce_nScriptCheckThreads E \<noteq> 0 then Some [] else None)"
  obtain ok st c5 q where ci: "?ci = Inr ((ok, st), c5, q)" and fin: "cs_view s' = c5" "cs_vtxundo s' = cs_vtxundo s2"
    using r h b1 m b2 s2 p lim g \<open>b\<close>
    by (auto simp: connect_ordinary_tx_def Let_def split: sum.splits if_splits prod.splits)
  have "read_from c4 c5" using read_CheckInputs [OF _ ci] l1 l3 l4 by auto
  then show "read_from (cs_view s) (cs_view s') \<and> cs_vtxundo s' = cs_vtxundo s"
    using fin s2 l1 l3 l4 by auto
qed

end

context coins_store
begin

lemma connect_tx_law:
  assumes c: "c_inv (cs_view s)" and tx: "tx_storable tx" "0 <=s (word_of_int h :: u32)"
    and r: "connect_tx ec V P T E fs flags block h i tx s = Inr (True, s')"
  shows "\<exists>u undos. connect_u (c_utxo (cs_view s)) tx (word_of_int h) = Some (u, undos)
    \<and> c_inv (cs_view s') \<and> c_utxo (cs_view s') = u \<and> c_best (cs_view s') = c_best (cs_view s)
    \<and> cs_vtxundo s' = (if i > 0 then cs_vtxundo s @ [undos] else cs_vtxundo s)"
proof -
  define s0 where "s0 = s\<lparr> cs_nSigOps := cs_nSigOps s + GetLegacySigOpCount tx \<rparr>"
  define br where "br = (if HasZerocoinSpendInputs tx then Inr (connect_zerocoin_tx E tx h s0)
    else if \<not> IsCoinBase tx then connect_ordinary_tx ec V P T E fs flags tx h s0 else Inr (True, s0))"
  have go: "\<not> cs_nSigOps s0 > MAX_BLOCK_SIGOPS_CURRENT"
    "\<not> (uint (nTime block) > ce_zerocoin_maintenance E \<and> \<not> ce_IsInitialBlockDownload E \<and> ContainsZerocoins tx)"
    using r by (auto simp: connect_tx_def Let_def s0_def split: if_splits)
  obtain s1 where s1: "br = Inr (True, s1)"
    and after: "(case GetValueOut tx of Inl e \<Rightarrow> Inl (Thrown e)
      | Inr nOut \<Rightarrow> let s = s1\<lparr> cs_nValueOut := supply_exception h i (cs_nValueOut s1 + nOut) \<rparr> in
          (case UpdateCoins V tx [] (word_of_int h) (cs_view s) of Inl e \<Rightarrow> Inl e
           | Inr (txundo, c) \<Rightarrow> Inr (True, s\<lparr> cs_view := c,
                 cs_vtxundo := (if i > 0 then cs_vtxundo s @ [txundo] else cs_vtxundo s),
                 cs_vPos := cs_vPos s @ [(tx_hash tx, cs_nTxOffset s)],
                 cs_nTxOffset := cs_nTxOffset s + of_nat (length (ser_tx tx)) \<rparr>))) = Inr (True, s')"
  proof -
    have "(case br of Inl e \<Rightarrow> Inl e | Inr (False, s) \<Rightarrow> Inr (False, s)
       | Inr (True, s) \<Rightarrow> (case GetValueOut tx of Inl e \<Rightarrow> Inl (Thrown e)
          | Inr nOut \<Rightarrow> let s = s\<lparr> cs_nValueOut := supply_exception h i (cs_nValueOut s + nOut) \<rparr> in
              (case UpdateCoins V tx [] (word_of_int h) (cs_view s) of Inl e \<Rightarrow> Inl e
               | Inr (txundo, c) \<Rightarrow> Inr (True, s\<lparr> cs_view := c,
                     cs_vtxundo := (if i > 0 then cs_vtxundo s @ [txundo] else cs_vtxundo s),
                     cs_vPos := cs_vPos s @ [(tx_hash tx, cs_nTxOffset s)],
                     cs_nTxOffset := cs_nTxOffset s + of_nat (length (ser_tx tx)) \<rparr>)))) = Inr (True, s')"
      using r go by (simp only: connect_tx_def Let_def s0_def br_def if_False)
    then show ?thesis using that by (auto split: sum.splits prod.splits bool.splits)
  qed
  have view: "read_from (cs_view s) (cs_view s1) \<and> cs_vtxundo s1 = cs_vtxundo s"
  proof -
    have s0: "cs_view s0 = cs_view s" "cs_vtxundo s0 = cs_vtxundo s" by (simp_all add: s0_def)
    consider "HasZerocoinSpendInputs tx" | "\<not> HasZerocoinSpendInputs tx" "\<not> IsCoinBase tx"
      | "\<not> HasZerocoinSpendInputs tx" "IsCoinBase tx" by blast
    then show ?thesis
    proof cases
      case 1
      then have "connect_zerocoin_tx E tx h s0 = (True, s1)" using s1 by (simp add: br_def)
      from connect_zerocoin_frame [OF this] show ?thesis using s0 c by simp
    next
      case 2
      then have "connect_ordinary_tx ec V P T E fs flags tx h s0 = Inr (True, s1)" using s1 by (simp add: br_def)
      from connect_ordinary_law [OF _ this] show ?thesis using s0 c by simp
    next
      case 3
      then show ?thesis using s1 s0 c by (simp add: br_def)
    qed
  qed
  obtain txundo c2 where up: "UpdateCoins V tx [] (word_of_int h) (cs_view s1) = Inr (txundo, c2)"
    and s': "cs_view s' = c2" "cs_vtxundo s' = (if i > 0 then cs_vtxundo s1 @ [txundo] else cs_vtxundo s1)"
    using after by (auto simp: Let_def split: sum.splits prod.splits)
  have inv1: "c_inv (cs_view s1)" using view by simp
  note law = UpdateCoins_law [OF inv1 tx(1) [unfolded tx_storable_def, THEN conjunct1]
    tx(1) [unfolded tx_storable_def, THEN conjunct2] tx(2), of "[]"]
  then obtain u undos where u: "connect_u (c_utxo (cs_view s1)) tx (word_of_int h) = Some (u, undos)"
    using up by (cases "connect_u (c_utxo (cs_view s1)) tx (word_of_int h)") auto
  then show ?thesis using law up s' view by auto
qed

lemma connect_txs_law:
  "c_inv (cs_view s) \<Longrightarrow> \<forall>tx \<in> set txs. tx_storable tx \<Longrightarrow> 0 <=s (word_of_int h :: u32) \<Longrightarrow>
    connect_txs ec V P T E fs flags block h i txs s = Inr (True, s') \<Longrightarrow>
    \<exists>u undos. connects_u (c_utxo (cs_view s)) txs (word_of_int h) = Some (u, undos)
      \<and> c_inv (cs_view s') \<and> c_utxo (cs_view s') = u \<and> c_best (cs_view s') = c_best (cs_view s)
      \<and> cs_vtxundo s' = cs_vtxundo s @ (if i > 0 then undos else tl undos)"
proof (induction txs arbitrary: i s)
  case (Cons tx txs)
  obtain s1 where s1: "connect_tx ec V P T E fs flags block h i tx s = Inr (True, s1)"
    "connect_txs ec V P T E fs flags block h (i + 1) txs s1 = Inr (True, s')"
    using Cons.prems(4) by (auto split: sum.splits bool.splits)
  obtain u undo where u: "connect_u (c_utxo (cs_view s)) tx (word_of_int h) = Some (u, undo)"
    "c_inv (cs_view s1)" "c_utxo (cs_view s1) = u" "c_best (cs_view s1) = c_best (cs_view s)"
    "cs_vtxundo s1 = (if i > 0 then cs_vtxundo s @ [undo] else cs_vtxundo s)"
    using connect_tx_law [OF Cons.prems(1) _ Cons.prems(3) s1(1)] Cons.prems(2) by auto
  obtain v undos where v: "connects_u (c_utxo (cs_view s1)) txs (word_of_int h) = Some (v, undos)"
    "c_inv (cs_view s')" "c_utxo (cs_view s') = v" "c_best (cs_view s') = c_best (cs_view s1)"
    "cs_vtxundo s' = cs_vtxundo s1 @ (if i + 1 > 0 then undos else tl undos)"
    using Cons.IH [OF u(2) _ Cons.prems(3) s1(2)] Cons.prems(2) by auto
  show ?case using u v by auto
qed simp

end

section \<open>The view of a block\<close>

text \<open>C14: \<open>UpdateCoins\<close> refines its specification.  On the view of a block it succeeds exactly when
  every input of the transaction is unspent in the set the view denotes, and then leaves a view that
  denotes the set without them and with the outputs of the transaction, and the undo records of the
  specification; otherwise the assertion on \<open>Spend\<close> fails.\<close>

theorem UpdateCoins_refines:
  assumes "block_inv ec c" "tx_storable tx" "0 <=s h"
  shows "case connect_u (block_utxo ec c) tx h of
      None \<Rightarrow> UpdateCoins (cache_view (db_view ec)) tx us h c = Inl Assertion_failed
    | Some (u, undos) \<Rightarrow> \<exists>c'. UpdateCoins (cache_view (db_view ec)) tx us h c = Inr (us @ undos, c')
        \<and> block_inv ec c' \<and> block_utxo ec c' = u \<and> block_best c' = block_best c"
proof -
  have tx: "outputs_ok (vout tx)" "0 <=s nVersion tx" using assms(2) by (simp_all add: tx_storable_def)
  show ?thesis
    using tip_store.UpdateCoins_law [OF assms(1) [unfolded stack_defs] tx assms(3), of us]
    by (auto simp: stack_defs block_best_def split: option.splits)
qed

theorem UpdateCoins_refines_witness:
  "\<exists>c' undo. UpdateCoins (cache_view (db_view diagonal_secp)) sample_tx [] 150 open_view = Inr ([undo], c')
    \<and> u_nHeight undo = 100 \<and> block_utxo diagonal_secp c' (of_u64 8 7) = None"
proof -
  have tx: "tx_storable sample_tx"
    by (simp add: tx_storable_def outputs_ok_def sample_tx_def sample_out_def CTxOut_of_def CTxOut_IsNull_def
        ctxout_ok_def CTransaction_new_def CMutableTransaction_new_def CMutableTransaction.defs CURRENT_VERSION_def
        word_sle_eq)
  define undo where "undo = \<lparr> u_txout = CTxOut_of 5000000000 [0x51], u_fCoinBase = False, u_fCoinStake = False,
     u_nHeight = 100, u_nVersion = 1 \<rparr>"
  have "Spend \<lparr> op_hash = of_u64 8 7, op_n = 2 \<rparr> CTxInUndo_new open_coins = (True, open_coins\<lparr> c_vout := [] \<rparr>, undo)"
    by (simp add: undo_def Spend_def open_coins_def CTxOut_of_def CTxOut_IsNull_def CTxOut_null_def
        CTxOut_SetNull_def Cleanup_def CTxInUndo_of_def CTxInUndo_new_def Let_def)
  moreover have "vin sample_tx = [CTxIn_of \<lparr> op_hash = of_u64 8 7, op_n = 2 \<rparr> [0x51] (- 1)]" "ordinary sample_tx"
    using sample_tx_kind by (simp_all add: sample_tx_def ordinary_def)
  ultimately have "connect_u (block_utxo diagonal_secp open_view) sample_tx 150
      = Some ((block_utxo diagonal_secp open_view)(of_u64 8 7 := None, tx_hash sample_tx := live (Some (CCoins_of sample_tx 150))), [undo])"
    by (simp add: connect_u_def spend_u_def open_view_utxo CTxIn_of_def IsPruned_def)
  moreover have "tx_hash sample_tx \<noteq> of_u64 8 7" by code_simp
  moreover have "(0 :: u32) <=s 150" by (simp add: word_sle_eq)
  ultimately show ?thesis
    using UpdateCoins_refines [OF open_view_inv tx, of 150 "[]"] by (auto simp: undo_def)
qed

end
