(* ===== verification/Disconnect.thy ===== *)
theory Disconnect
  imports Connect
begin

unbundle bit_operations_syntax

text \<open>
  Undo data and \<open>DisconnectBlock\<close> of \<open>src/main.cpp\<close>: how \<open>CBlockUndo\<close> is written to and read from an
  undo file, and how a block is taken out of the set of unspent outputs again.  The main result is
  that disconnecting undoes connecting: with the undo data \<open>ConnectBlock\<close> computed, read back from
  the file it was written to, \<open>DisconnectBlock\<close> restores the unspent outputs and reports that
  everything was clean.  It holds as long as no coinstake transaction was spent completely, for
  whose coins the code forgets the mark \<open>fCoinStake\<close>, which is the second result.
\<close>

section \<open>Undo files\<close>

text \<open>\<open>sizeof(CTxUndo)\<close> is 24.\<close>

definition ser_blockundo :: "('p, 's, 'r) secp \<Rightarrow> CTxUndo list \<Rightarrow> bytes" where
  "ser_blockundo ec = ser_vec (ser_txundo ec)"

definition unser_blockundo :: "('p, 's, 'r) secp \<Rightarrow> CTxUndo list reader" where
  "unser_blockundo ec = unser_vec 208333 (unser_txundo ec)"

definition undo_checksum :: "('p, 's, 'r) secp \<Rightarrow> limbs \<Rightarrow> CTxUndo list \<Rightarrow> limbs" where
  "undo_checksum ec hash u = HashWriter [ser_uint hash, ser_blockundo ec u]"

text \<open>The undo files as the bytes they hold; writing at a position past the end fills the gap with
  zeros, as the file system does.\<close>

type_synonym undo_files = "u32 \<Rightarrow> bytes"

definition write_at :: "nat \<Rightarrow> bytes \<Rightarrow> bytes \<Rightarrow> bytes" where
  "write_at n s file = take n file @ replicate (n - length file) 0 @ s @ drop (n + length s) file"

text \<open>\<open>WriteToDisk\<close>: \<open>magic\<close> is \<open>Params().MessageStart()\<close>.  The position it leaves is the one after the
  header.\<close>

definition WriteToDisk :: "('p, 's, 'r) secp \<Rightarrow> bytes \<Rightarrow> CTxUndo list \<Rightarrow> CDiskBlockPos \<Rightarrow> limbs \<Rightarrow> undo_files
    \<Rightarrow> (CDiskBlockPos \<times> undo_files) option" where
  "WriteToDisk ec magic u pos hash files =
     (if CDiskBlockPos_IsNull pos then None
      else
        let nSize = of_nat (length (ser_blockundo ec u));
            header = magic @ ser_u32 nSize;
            start = unat (dbp_nPos pos);
            contents = header @ ser_blockundo ec u @ ser_uint (undo_checksum ec hash u)
        in Some (pos\<lparr> dbp_nPos := of_nat (start + length header) \<rparr>,
             files(dbp_nFile pos := write_at start contents (files (dbp_nFile pos)))))"

definition ReadFromDisk :: "('p, 's, 'r) secp \<Rightarrow> CDiskBlockPos \<Rightarrow> limbs \<Rightarrow> undo_files \<Rightarrow> CTxUndo list option" where
  "ReadFromDisk ec pos hash files =
     (if CDiskBlockPos_IsNull pos then None
      else
        (case rbind (unser_blockundo ec) (\<lambda>u. rbind (unser_uint 8) (\<lambda>h. rreturn (u, h)))
                (drop (unat (dbp_nPos pos)) (files (dbp_nFile pos))) of
           Inl _ \<Rightarrow> None
         | Inr ((u, hashChecksum), _) \<Rightarrow> if hashChecksum \<noteq> undo_checksum ec hash u then None else Some u))"

section \<open>DisconnectBlock\<close>

text \<open>The zerocoin database and the wallet, with what the zerocoin library reads off an input or an
  output.\<close>

record 'z zerocoin_db =
  zd_public_serial :: "CTxIn \<Rightarrow> CTransaction \<Rightarrow> int option"
  zd_private_serial :: "CTxIn \<Rightarrow> int"
  zd_EraseCoinSpend :: "int \<Rightarrow> 'z \<Rightarrow> bool \<times> 'z"
  zd_SetMintUnspent :: "int \<Rightarrow> 'z \<Rightarrow> 'z"
  zd_mint_value :: "CTxOut \<Rightarrow> int option"
  zd_EraseCoinMint :: "int \<Rightarrow> 'z \<Rightarrow> bool \<times> 'z"
  zd_EraseAccumulatorValues :: "limbs \<Rightarrow> limbs \<Rightarrow> 'z \<Rightarrow> bool \<times> 'z"

text \<open>\<open>False\<close> is a \<open>return error(...)\<close>.\<close>

fun erase_spends :: "'z zerocoin_db \<Rightarrow> CTransaction \<Rightarrow> CTxIn list \<Rightarrow> 'z \<Rightarrow> bool \<times> 'z" where
  "erase_spends Z tx [] z = (True, z)"
| "erase_spends Z tx (i # is) z =
     (let isPublicSpend = CTxIn_IsZerocoinPublicSpend i in
      if \<not> (IsZerocoinSpend (scriptSig i) \<or> isPublicSpend) then erase_spends Z tx is z
      else
        (case (if isPublicSpend then zd_public_serial Z i tx else Some (zd_private_serial Z i)) of
           None \<Rightarrow> (False, z)
         | Some serial \<Rightarrow>
             (case zd_EraseCoinSpend Z serial z of
                (False, z) \<Rightarrow> (False, z)
              | (True, z) \<Rightarrow> erase_spends Z tx is (zd_SetMintUnspent Z serial z))))"

fun erase_mints :: "'z zerocoin_db \<Rightarrow> CTxOut list \<Rightarrow> 'z \<Rightarrow> bool \<times> 'z" where
  "erase_mints Z [] z = (True, z)"
| "erase_mints Z (txo # os) z =
     (if scriptPubKey txo = [] \<or> \<not> CTxOut_IsZerocoinMint txo then erase_mints Z os z
      else
        (case zd_mint_value Z txo of
           None \<Rightarrow> (False, z)
         | Some v \<Rightarrow>
             (case zd_EraseCoinMint Z v z of
                (False, z) \<Rightarrow> (False, z)
              | (True, z) \<Rightarrow> erase_mints Z os z)))"

definition undo_zerocoins :: "'z zerocoin_db \<Rightarrow> CTransaction \<Rightarrow> 'z \<Rightarrow> bool \<times> 'z" where
  "undo_zerocoins Z tx z =
     (if \<not> ContainsZerocoins tx then (True, z)
      else
        (case (if HasZerocoinSpendInputs tx then erase_spends Z tx (vin tx) z else (True, z)) of
           (False, z) \<Rightarrow> (False, z)
         | (True, z) \<Rightarrow> if HasZerocoinMintOutputs tx then erase_mints Z (vout tx) z else (True, z)))"

text \<open>The outputs of a transaction leave the view; the result is whether they matched.\<close>

definition remove_step :: "CTransaction \<Rightarrow> u32 \<Rightarrow> CCoins \<Rightarrow> bool \<times> CCoins" where
  "remove_step tx h outs =
     (let outs = ClearUnspendable outs;
          outsBlock = CCoins_of tx h;
          outs = (if c_nVersion outsBlock <s 0 then outs\<lparr> c_nVersion := c_nVersion outsBlock \<rparr> else outs)
      in (CCoins_eq outs outsBlock, CCoins_Clear outs))"

text \<open>An output comes back.  The result is whether that was clean; \<open>None\<close> is an access out of range,
  for \<open>out.n + 1\<close> is computed in 32 bits.\<close>

definition restore_coins :: "COutPoint \<Rightarrow> CTxInUndo \<Rightarrow> CCoins \<Rightarrow> (bool \<times> CCoins) option" where
  "restore_coins out1 undo coins =
     (let (clean1, coins) =
            (if u_nHeight undo \<noteq> 0
             then (IsPruned coins, (CCoins_Clear coins)\<lparr> fCoinBase := u_fCoinBase undo,
                     c_nHeight := u_nHeight undo, c_nVersion := u_nVersion undo \<rparr>)
             else (\<not> IsPruned coins, coins));
          clean2 = (\<not> IsAvailable coins (unat (op_n out1)));
          size1 = unat (op_n out1 + 1);
          os = (if length (c_vout coins) < size1
                then c_vout coins @ replicate (size1 - length (c_vout coins)) CTxOut_null else c_vout coins)
      in if unat (op_n out1) \<ge> length os then None
         else Some (clean1 \<and> clean2, coins\<lparr> c_vout := os[unat (op_n out1) := u_txout undo] \<rparr>))"

definition restore_step :: "COutPoint \<Rightarrow> CTxInUndo \<Rightarrow> CCoins \<Rightarrow> bool option \<times> CCoins" where
  "restore_step out1 undo coins =
     (case restore_coins out1 undo coins of
        None \<Rightarrow> (None, coins) | Some (clean, coins) \<Rightarrow> (Some clean, coins))"

text \<open>The inputs with their undo records, from the last to the first.\<close>

fun restore_inputs :: "'b CCoinsView \<Rightarrow> (CTxIn \<times> CTxInUndo) list \<Rightarrow> bool \<Rightarrow> 'b CCoinsViewCache
    \<Rightarrow> failure + bool \<times> 'b CCoinsViewCache" where
  "restore_inputs V [] fClean c = Inr (fClean, c)"
| "restore_inputs V ((i, undo) # xs) fClean c =
     (case modify V (op_hash (prevout i)) (restore_step (prevout i) undo) c of
        None \<Rightarrow> Inl Assertion_failed
      | Some (None, c) \<Rightarrow> Inl Out_of_range
      | Some (Some clean, c) \<Rightarrow> restore_inputs V xs (fClean \<and> clean) c)"

record ('b, 'z) disconnect_state =
  ds_view :: "'b CCoinsViewCache"
  ds_db :: 'z
  ds_fClean :: bool

text \<open>One transaction with its undo data, which the first transaction of a block has not.\<close>

definition disconnect_tx :: "'b CCoinsView \<Rightarrow> 'z zerocoin_db \<Rightarrow> u32 \<Rightarrow> CTransaction \<Rightarrow> CTxUndo option
    \<Rightarrow> ('b, 'z) disconnect_state \<Rightarrow> failure + bool \<times> ('b, 'z) disconnect_state" where
  "disconnect_tx V Z h tx undo s =
     (case undo_zerocoins Z tx (ds_db s) of
        (False, z) \<Rightarrow> Inr (False, s\<lparr> ds_db := z \<rparr>)
      | (True, z) \<Rightarrow>
          (case modify V (tx_hash tx) (remove_step tx h) (ds_view s) of
             None \<Rightarrow> Inl Assertion_failed
           | Some (matches, c) \<Rightarrow>
               let s = s\<lparr> ds_db := z, ds_view := c, ds_fClean := ds_fClean s \<and> matches \<rparr> in
               if IsCoinBase tx \<or> HasZerocoinSpendInputs tx then Inr (True, s)
               else (case undo of
                   None \<Rightarrow> Inl Out_of_range
                 | Some txundo \<Rightarrow>
                     if length txundo \<noteq> length (vin tx) then Inr (False, s)
                     else (case restore_inputs V (rev (zip (vin tx) txundo)) (ds_fClean s) c of
                         Inl e \<Rightarrow> Inl e
                       | Inr (fClean, c) \<Rightarrow> Inr (True, s\<lparr> ds_view := c, ds_fClean := fClean \<rparr>)))))"

fun disconnect_txs :: "'b CCoinsView \<Rightarrow> 'z zerocoin_db \<Rightarrow> u32 \<Rightarrow> (CTransaction \<times> CTxUndo option) list
    \<Rightarrow> ('b, 'z) disconnect_state \<Rightarrow> failure + bool \<times> ('b, 'z) disconnect_state" where
  "disconnect_txs V Z h [] s = Inr (True, s)"
| "disconnect_txs V Z h ((tx, undo) # xs) s =
     (case disconnect_tx V Z h tx undo s of
        Inl e \<Rightarrow> Inl e
      | Inr (False, s) \<Rightarrow> Inr (False, s)
      | Inr (True, s) \<Rightarrow> disconnect_txs V Z h xs s)"

text \<open>The result, what \<open>*pfClean\<close> is set to, and the state.  \<open>fVerifyingBlocks\<close> is the global flag.\<close>

definition DisconnectBlock :: "('p, 's, 'r) secp \<Rightarrow> 'b CCoinsView \<Rightarrow> 'z zerocoin_db \<Rightarrow> arena \<Rightarrow> undo_files
    \<Rightarrow> bool \<Rightarrow> CBlock \<Rightarrow> ptr \<Rightarrow> bool \<Rightarrow> 'b CCoinsViewCache \<Rightarrow> 'z
    \<Rightarrow> failure + (bool \<times> bool) \<times> ('b, 'z) disconnect_state" where
  "DisconnectBlock ec V Z st files fVerifyingBlocks block p pfClean c z =
     (case cache_GetBestBlock V c of (best, c) \<Rightarrow>
       let pindex = st ! p; s = \<lparr> ds_view = c, ds_db = z, ds_fClean = True \<rparr>; pos = GetUndoPos pindex in
       if bi_hash pindex \<noteq> best then Inl Assertion_failed
       else if CDiskBlockPos_IsNull pos then Inr ((False, False), s)
       else (case pprev pindex of
           None \<Rightarrow> Inl Out_of_range
         | Some q \<Rightarrow>
             (case ReadFromDisk ec pos (bi_hash (st ! q)) files of
                None \<Rightarrow> Inr ((False, False), s)
              | Some vtxundo \<Rightarrow>
                  if length vtxundo + 1 \<noteq> length (vtx block) then Inr ((False, False), s)
                  else (case disconnect_txs V Z (word_of_int (nHeight pindex))
                               (rev (zip (vtx block) (None # map Some vtxundo))) s of
                      Inl e \<Rightarrow> Inl e
                    | Inr (False, s) \<Rightarrow> Inr ((False, False), s)
                    | Inr (True, s) \<Rightarrow>
                        let s = s\<lparr> ds_view := SetBestBlock (ds_view s) (bi_hash (st ! q)) \<rparr>;
                            nCheckpoint = bi_nAccumulatorCheckpoint pindex;
                            prevCheckpoint = bi_nAccumulatorCheckpoint (st ! q);
                            (erased, z) = (if \<not> fVerifyingBlocks \<and> nCheckpoint \<noteq> prevCheckpoint
                              then zd_EraseAccumulatorValues Z nCheckpoint prevCheckpoint (ds_db s)
                              else (True, ds_db s));
                            s = s\<lparr> ds_db := z \<rparr>
                        in if \<not> erased then Inr ((False, False), s)
                           else if pfClean then Inr ((True, ds_fClean s), s)
                           else Inr ((ds_fClean s, False), s)))))"

section \<open>What ConnectBlock stores\<close>

definition BLOCK_VALID_SCRIPTS :: u32 where "BLOCK_VALID_SCRIPTS = 5"

text \<open>The end of \<open>ConnectBlock\<close>: the undo data goes to the position that \<open>FindUndoPos\<close> allotted, the
  entry learns about it, and the view moves to the block.  \<open>None\<close> is an error.\<close>

definition ConnectBlock_store :: "('p, 's, 'r) secp \<Rightarrow> bytes \<Rightarrow> CDiskBlockPos option \<Rightarrow> block_tree \<Rightarrow> ptr
    \<Rightarrow> CBlockIndex \<Rightarrow> 'b connect_state \<Rightarrow> undo_files
    \<Rightarrow> ('b CCoinsViewCache \<times> block_tree \<times> undo_files) option" where
  "ConnectBlock_store ec magic found T p pindex s files =
     (let view = SetBestBlock (cs_view s) (bi_hash pindex);
          put = (\<lambda>e. T\<lparr> bt_arena := (bt_arena T)[p := snd (RaiseValidity BLOCK_VALID_SCRIPTS e)],
                         setDirtyBlockIndex := List.insert p (setDirtyBlockIndex T) \<rparr>)
      in if CDiskBlockPos_IsNull (GetUndoPos pindex) then
           (case found of
              None \<Rightarrow> None
            | Some pos \<Rightarrow>
                (case pprev pindex of
                   None \<Rightarrow> None
                 | Some q \<Rightarrow>
                     (case WriteToDisk ec magic (cs_vtxundo s) pos (bi_hash (bt_arena T ! q)) files of
                        None \<Rightarrow> None
                      | Some (pos, files) \<Rightarrow>
                          Some (view, put (pindex\<lparr> nUndoPos := dbp_nPos pos,
                                             nStatus := nStatus pindex OR BLOCK_HAVE_UNDO \<rparr>), files))))
         else if \<not> IsValid BLOCK_VALID_SCRIPTS pindex then Some (view, put pindex, files)
         else Some (view, T\<lparr> bt_arena := (bt_arena T)[p := pindex] \<rparr>, files))"

section \<open>Undo data survives the disk\<close>

context vec_codec
begin

lemma vec_sized:
  "sized_codec (ser_vec ser) (unser_vec chunk unser) (\<lambda>v. (\<forall>x \<in> set v. ok x) \<and> length v \<le> 33554432)
    (\<lambda>v. GetSizeOfCompactSize (of_nat (length v)) + sum_list (map size_of v))"
  by (rule vec.sized_codec_axioms)

end

definition blockundo_ok :: "CTxUndo list \<Rightarrow> bool" where
  "blockundo_ok v \<longleftrightarrow> (\<forall>us \<in> set v. (\<forall>u \<in> set us. undo_ok u) \<and> length us \<le> 33554432) \<and> length v \<le> 33554432"

lemma blockundo_roundtrip:
  assumes "decompresses ec" "blockundo_ok v"
  shows "unser_blockundo ec (ser_blockundo ec v @ r) = Inr (v, r)"
proof -
  have "sized_codec (ser_txundo ec) (unser_txundo ec) (\<lambda>v. (\<forall>x \<in> set v. undo_ok x) \<and> length v \<le> 33554432)
      (\<lambda>v. GetSizeOfCompactSize (of_nat (length v)) + sum_list (map (undo_GetSerializeSize ec) v))"
    using vec_codec.vec_sized [OF vec_codec.intro [OF undo_codec [OF assms(1)]], of 78124]
    by (simp add: ser_txundo_def [abs_def] unser_txundo_def)
  from vec_codec.vector_roundtrip [OF vec_codec.intro [OF this], of v 208333 r] show ?thesis
    using assms(2) by (simp add: blockundo_ok_def ser_blockundo_def unser_blockundo_def)
qed

lemma length_undo_checksum [simp]: "length (undo_checksum ec hash u) = 8"
  by (simp add: undo_checksum_def HashWriter_Hash_bytes length_limbs_of_bytes)

lemma drop_write_at:
  assumes "n \<le> k" "k \<le> n + length s"
  shows "drop k (write_at n s file) = drop (k - n) s @ drop (n + length s) file"
proof -
  have "min (length file) n + (n - length file) = n" by simp
  then show ?thesis using assms by (simp add: write_at_def)
qed

text \<open>Whatever else the file holds, the record is read back from the position \<open>WriteToDisk\<close> leaves.\<close>

lemma undo_file_roundtrip:
  assumes "decompresses ec" "blockundo_ok u" "WriteToDisk ec magic u pos hash files = Some (pos', files')"
    and "unat (dbp_nPos pos) + length magic + 4 < 4294967296"
  shows "ReadFromDisk ec pos' hash files' = Some u"
proof -
  define n where "n = unat (dbp_nPos pos)"
  define body where "body = ser_blockundo ec u @ ser_uint (undo_checksum ec hash u)"
  define header where "header = magic @ ser_u32 (of_nat (length (ser_blockundo ec u)))"
  have lh: "length header = length magic + 4" by (simp add: header_def)
  have w: "\<not> CDiskBlockPos_IsNull pos" "dbp_nPos pos' = of_nat (n + length header)" "dbp_nFile pos' = dbp_nFile pos"
    "files' (dbp_nFile pos) = write_at n (header @ body) (files (dbp_nFile pos))"
    using assms(3) by (auto simp: WriteToDisk_def n_def body_def header_def Let_def split: if_splits)
  have "unat (dbp_nPos pos') = n + length header"
    unfolding w(2) using assms(4) lh n_def by (simp only: unat_u32_of_nat) simp
  then have "drop (unat (dbp_nPos pos')) (files' (dbp_nFile pos'))
      = body @ drop (n + length (header @ body)) (files (dbp_nFile pos))"
    using drop_write_at [of n "n + length header" "header @ body"] w(3,4) by simp
  moreover have "\<not> CDiskBlockPos_IsNull pos'" using w(1,3) by (simp add: CDiskBlockPos_IsNull_def)
  ultimately show ?thesis
    using blockundo_roundtrip [OF assms(1,2)]
    by (simp add: ReadFromDisk_def body_def rbind_simps uint256.read_written)
qed

section \<open>Restoring what was spent\<close>

lemma pop_nulls_spec:
  "\<forall>t \<in> set os. CTxOut_IsNull t \<longrightarrow> t = CTxOut_null \<Longrightarrow> \<exists>k. os = replicate k CTxOut_null @ pop_nulls os"
proof (induction os rule: pop_nulls.induct)
  case (2 t os)
  show ?case
  proof (cases "CTxOut_IsNull t")
    case True
    then obtain k where "os = replicate k CTxOut_null @ pop_nulls os" using 2 by auto
    then show ?thesis using True 2(2) by (intro exI [of _ "Suc k"]) simp
  qed (simp add: exI [of _ 0])
qed simp

lemma Cleanup_spec:
  assumes "outputs_ok zs"
  shows "\<exists>k. zs = c_vout (Cleanup (x\<lparr> c_vout := zs \<rparr>)) @ replicate k CTxOut_null"
proof -
  have "\<forall>t \<in> set (rev zs). CTxOut_IsNull t \<longrightarrow> t = CTxOut_null" using assms by (auto simp: outputs_ok_def)
  then obtain k where k: "rev zs = replicate k CTxOut_null @ pop_nulls (rev zs)" using pop_nulls_spec by blast
  have "zs = rev (rev zs)" by simp
  also have "\<dots> = rev (pop_nulls (rev zs)) @ replicate k CTxOut_null" by (subst k) simp
  finally show ?thesis by (auto simp: Cleanup_def)
qed

text \<open>Padding what is left up to the index that was spent gives the list with a null there.\<close>

lemma padded:
  assumes "outputs_ok os" "n < length os" "\<not> CTxOut_IsNull (last os)"
    and ys_def: "ys = c_vout (Cleanup (x\<lparr> c_vout := os[n := CTxOut_null] \<rparr>))"
  shows "(if length ys < n + 1 then ys @ replicate (n + 1 - length ys) CTxOut_null else ys) = os[n := CTxOut_null]"
proof -
  let ?z = "os[n := CTxOut_null]"
  obtain k where k: "?z = ys @ replicate k CTxOut_null"
    using Cleanup_spec [OF outputs_ok_update [OF assms(1)]] by (auto simp: ys_def)
  then have len: "length os = length ys + k" by (metis length_append length_list_update length_replicate)
  have ne: "os \<noteq> []" using assms(2) by auto
  show ?thesis
  proof (cases "n = length os - 1")
    case True
    then have "CTxOut_IsNull (last ?z)" using ne by (simp add: last_list_update)
    then have "tidy (Cleanup (x\<lparr> c_vout := ?z \<rparr>)) \<and> ?z \<noteq> ys"
      using Cleanup_tidy ne k by (metis ys_def list_update_nonempty tidy_def)
    then have "k \<noteq> 0" using k by auto
    then have "length ys < n + 1" "n + 1 - length ys = k" using len True by auto
    then show ?thesis using k by simp
  next
    case False
    then have "\<not> CTxOut_IsNull (last ?z)" using assms(3) ne by (simp add: last_list_update)
    then have "k = 0" using k by (cases k) (auto simp: replicate_append_same [symmetric] simp del: replicate_Suc)
    then show ?thesis using k len assms(2) by simp
  qed
qed

lemma restore_spent:
  assumes ok: "coins_ok x" and s: "Spend out1 u0 x = (True, y, undo)" and h: "c_nHeight x \<noteq> 0"
    and z: "live (Some z) = live (Some y)" "tidy z"
  shows "restore_step out1 undo z = (Some True, x\<lparr> fCoinStake := fCoinStake x \<and> \<not> IsPruned y \<rparr>)"
proof -
  define n where "n = unat (op_n out1)"
  note r = Spend_result [OF s, folded n_def]
  have os: "outputs_ok (c_vout x)" "\<not> CTxOut_IsNull (last (c_vout x))" "c_vout x \<noteq> []"
    using ok by (auto simp: coins_ok_iff tidy_def)
  have y: "y = Cleanup (x\<lparr> c_vout := (c_vout x)[n := CTxOut_null] \<rparr>)" "tidy y"
    using r Cleanup_tidy by auto
  have "n + 1 < 4294967296" using r os(1) by (auto simp: outputs_ok_def)
  then have size1: "unat (op_n out1 + 1) = n + 1"
    using unat_add_exact [of "op_n out1" 1] by (simp add: n_def)
  have pad: "(if length (c_vout y) < n + 1 then c_vout y @ replicate (n + 1 - length (c_vout y)) CTxOut_null
      else c_vout y) = (c_vout x)[n := CTxOut_null]"
    by (rule padded [OF os(1) _ os(2)]) (use r y in auto)
  show ?thesis
  proof (cases "IsPruned y")
    case True
    then have v: "c_vout y = []" using tidy_pruned [OF y(2)] by simp
    then have pz: "IsPruned z" using z(1) True by (simp add: live_Some_iff)
    have pad': "replicate (n + 1) CTxOut_null = (c_vout x)[n := CTxOut_null]" using pad v by simp
    then have lx: "length (c_vout x) = n + 1" by (metis length_list_update length_replicate)
    have "restore_coins out1 undo z = Some (True, x\<lparr> fCoinStake := False \<rparr>)"
      using r v h pz size1 pad' lx
      by (cases x) (simp add: restore_coins_def Let_def CCoins_Clear_def IsAvailable_def flip: n_def del: replicate_Suc)
    then show ?thesis using True by (simp add: restore_step_def)
  next
    case False
    then have zy: "z = y" using z(1) by (simp add: live_Some_iff)
    have v: "c_vout y \<noteq> []" using False tidy_pruned [OF y(2)] by simp
    have un: "\<not> IsAvailable y n"
    proof
      assume "IsAvailable y n"
      then have a: "n < length (c_vout y)" "\<not> CTxOut_IsNull (c_vout y ! n)" by (auto simp: IsAvailable_def)
      then have "c_vout y = (c_vout x)[n := CTxOut_null]" using pad by simp
      then show False using a r by simp
    qed
    have len: "\<not> length ((c_vout x)[n := CTxOut_null]) \<le> n" using r by simp
    have "restore_coins out1 undo z = Some (True, y\<lparr> c_vout := ((c_vout x)[n := CTxOut_null])[n := u_txout undo] \<rparr>)"
      using r v False un size1 zy pad len
      by (simp only: restore_coins_def Let_def n_def [symmetric]) simp
    moreover have "y\<lparr> c_vout := ((c_vout x)[n := CTxOut_null])[n := u_txout undo] \<rparr> = x"
      using r y(1) by (cases x) (simp add: Cleanup_def)
    ultimately show ?thesis using False by (simp add: restore_step_def)
  qed
qed

lemma CCoins_eq_refl [simp]: "CCoins_eq x x"
  by (simp add: CCoins_eq_def CTxOut_eq_def list_all2_refl)

lemma ClearUnspendable_idem: "ClearUnspendable (CCoins_of tx h) = CCoins_of tx h"
proof -
  have "set (c_vout (CCoins_of tx h)) \<subseteq> {t. \<not> IsUnspendable (scriptPubKey t) \<or> t = CTxOut_null}"
    using Cleanup_subset by (fastforce simp: CCoins_of_def FromTx_def ClearUnspendable_def CTxOut_SetNull_def)
  then have "map (\<lambda>t. if IsUnspendable (scriptPubKey t) then CTxOut_SetNull t else t) (c_vout (CCoins_of tx h))
      = c_vout (CCoins_of tx h)"
    by (intro map_idI) (auto simp: CTxOut_SetNull_def)
  then show ?thesis by (simp add: ClearUnspendable_def)
qed

text \<open>The outputs of a transaction are found as they were entered, and go.\<close>

lemma remove_entered:
  assumes "live (Some z) = live (Some (CCoins_of tx h))" "tidy z" "0 <=s nVersion tx"
  shows "fst (remove_step tx h z) \<and> IsPruned (Cleanup (snd (remove_step tx h z)))"
proof -
  have nv: "c_nVersion (CCoins_of tx h) = nVersion tx"
    by (simp add: CCoins_of_def FromTx_def ClearUnspendable_def)
  then have nn: "\<not> c_nVersion (CCoins_of tx h) <s 0" using assms(3) by (simp add: word_sless_alt word_sle_eq)
  have "CCoins_eq (ClearUnspendable z) (CCoins_of tx h)"
  proof (cases "IsPruned (CCoins_of tx h)")
    case True
    then have "IsPruned z" using assms(1) by (simp add: live_Some_iff)
    then have "c_vout z = []" using assms(2) tidy_pruned by simp
    then have "IsPruned (ClearUnspendable z)" by (simp add: ClearUnspendable_def IsPruned_def Cleanup_def)
    then show ?thesis using True by (simp add: CCoins_eq_def)
  next
    case False
    then have "z = CCoins_of tx h" using assms(1) by (simp add: live_Some_iff)
    then show ?thesis using ClearUnspendable_idem by simp
  qed
  moreover have "IsPruned (Cleanup (CCoins_Clear x))" for x
    by (simp add: Cleanup_of_tidy)
  ultimately show ?thesis using nn by (simp add: remove_step_def Let_def)
qed

section \<open>Disconnecting undoes connecting\<close>

definition good_utxo :: "(limbs \<Rightarrow> CCoins option) \<Rightarrow> bool" where
  "good_utxo u \<longleftrightarrow> (\<forall>k x. u k = Some x \<longrightarrow> coins_ok x \<and> c_nHeight x \<noteq> 0)"

lemma spend_u_Some:
  assumes "spend_u u i = Some (u', undo)"
  shows "\<exists>x y. u (op_hash (prevout i)) = Some x \<and> Spend (prevout i) CTxInUndo_new x = (True, y, undo)
    \<and> u' = u(op_hash (prevout i) := live (Some y))"
  using assms by (auto simp: spend_u_def split: option.splits prod.splits if_splits)

lemma good_spend:
  assumes "good_utxo u" "spend_u u i = Some (u', undo)"
  shows "good_utxo u'"
proof -
  obtain x y where x: "u (op_hash (prevout i)) = Some x" "Spend (prevout i) CTxInUndo_new x = (True, y, undo)"
    "u' = u(op_hash (prevout i) := live (Some y))" using spend_u_Some [OF assms(2)] by blast
  have "coins_ok x" "c_nHeight x \<noteq> 0" using assms(1) x(1) by (auto simp: good_utxo_def)
  then show ?thesis
    using assms(1) x(3) Spend_ok [OF x(2)] by (auto simp: good_utxo_def live_Some_iff split: if_splits)
qed

lemma spend_u_None: "spend_u u i = Some (u', undo) \<Longrightarrow> u k = None \<Longrightarrow> u' k = None"
  using spend_u_Some by fastforce

lemma spends_u_facts:
  "spends_u u is = Some (u', undos) \<Longrightarrow> good_utxo u \<Longrightarrow>
    good_utxo u' \<and> length undos = length is \<and> (u k = None \<longrightarrow> u' k = None)"
proof (induction "is" arbitrary: u undos)
  case (Cons i "is")
  obtain v w ws where v: "spend_u u i = Some (v, w)" "spends_u v is = Some (u', ws)" "undos = w # ws"
    using Cons.prems(1) by (auto split: option.splits)
  show ?case
    using Cons.IH [OF v(2) good_spend [OF Cons.prems(2) v(1)]] v(3) spend_u_None [OF v(1), of k] by auto
qed simp

lemma connect_u_facts:
  assumes "connect_u u tx h = Some (u', undos)" "good_utxo u" "tx_storable tx" "0 <=s h" "h \<noteq> 0"
  shows "good_utxo u' \<and> (ordinary tx \<longrightarrow> length undos = length (vin tx))
    \<and> (k \<noteq> tx_hash tx \<longrightarrow> u k = None \<longrightarrow> u' k = None)"
proof -
  obtain w where w: "(if ordinary tx then spends_u u (vin tx) else Some (u, [])) = Some (w, undos)"
    "u' = w(tx_hash tx := live (Some (CCoins_of tx h)))"
    using assms(1) by (auto simp: connect_u_def)
  have "good_utxo w \<and> (ordinary tx \<longrightarrow> length undos = length (vin tx)) \<and> (u k = None \<longrightarrow> w k = None)"
    using w(1) assms(2) spends_u_facts [of u "vin tx" w undos k] by (auto split: if_splits)
  moreover have "live (Some (CCoins_of tx h)) = Some x \<Longrightarrow> coins_ok x \<and> c_nHeight x \<noteq> 0" for x
    using CCoins_of_ok [of tx h] assms(3-5) by (auto simp: live_Some_iff tx_storable_def)
  ultimately show ?thesis using w(2) by (auto simp: good_utxo_def)
qed

lemma restore_inputs_append:
  "restore_inputs V (xs @ ys) f c =
    (case restore_inputs V xs f c of Inl e \<Rightarrow> Inl e | Inr (f, c) \<Rightarrow> restore_inputs V ys f c)"
  by (induction V xs f c rule: restore_inputs.induct) (auto split: option.splits)

lemma disconnect_txs_append:
  "disconnect_txs V Z h (xs @ ys) s =
    (case disconnect_txs V Z h xs s of
       Inl e \<Rightarrow> Inl e | Inr (False, s) \<Rightarrow> Inr (False, s) | Inr (True, s) \<Rightarrow> disconnect_txs V Z h ys s)"
  by (induction V Z h xs s rule: disconnect_txs.induct) (auto split: sum.splits bool.splits)

context coins_store
begin

lemma restore_input_law:
  assumes c: "c_inv c" and u: "spend_u u i = Some (c_utxo c, undo)" "good_utxo u" "\<not> u_fCoinStake undo"
  shows "\<exists>c'. modify V (op_hash (prevout i)) (restore_step (prevout i) undo) c = Some (Some True, c')
    \<and> c_inv c' \<and> c_utxo c' = u \<and> c_best c' = c_best c"
proof -
  let ?k = "op_hash (prevout i)"
  let ?f = "restore_step (prevout i) undo"
  obtain x y where x: "u ?k = Some x" "Spend (prevout i) CTxInUndo_new x = (True, y, undo)"
    "c_utxo c = u(?k := live (Some y))" using spend_u_Some [OF u(1)] by blast
  have ok: "coins_ok x" "c_nHeight x \<noteq> 0" using u(2) x(1) by (auto simp: good_utxo_def)
  have stake: "(fCoinStake x \<and> \<not> IsPruned y) = fCoinStake x"
    using Spend_result [OF x(2)] u(3) Spend_ok [OF x(2) ok(1)] by (auto simp: tidy_pruned)
  have f: "?f z = (Some True, x)" if "live (Some z) = c_utxo c ?k" "tidy z" for z
    using restore_spent [OF ok(1) x(2) ok(2) _ that(2)] that(1) x(3) stake by simp
  have cx: "Cleanup x = x" using ok(1) by (simp add: Cleanup_of_tidy coins_ok_live)
  obtain z c' where "live (Some z) = c_utxo c ?k" "tidy z" "modify V ?k ?f c = Some (fst (?f z), c')" "c_inv c'"
    "c_utxo c' = (c_utxo c)(?k := live (Some (Cleanup (snd (?f z)))))" "c_best c' = c_best c"
    using modify_law [OF c, of ?k ?f] f ok(1) cx by fastforce
  moreover have "(c_utxo c)(?k := live (Some x)) = u" using x coins_ok_live [OF ok(1)] by auto
  ultimately show ?thesis using f cx by auto
qed

lemma restore_inputs_law:
  "c_inv c \<Longrightarrow> spends_u u is = Some (c_utxo c, undos) \<Longrightarrow> good_utxo u \<Longrightarrow> \<forall>w \<in> set undos. \<not> u_fCoinStake w \<Longrightarrow>
    \<exists>c'. restore_inputs V (rev (zip is undos)) f c = Inr (f, c') \<and> c_inv c' \<and> c_utxo c' = u \<and> c_best c' = c_best c"
proof (induction "is" arbitrary: u undos)
  case (Cons i "is")
  obtain v w ws where v: "spend_u u i = Some (v, w)" "spends_u v is = Some (c_utxo c, ws)" "undos = w # ws"
    using Cons.prems(2) by (auto split: option.splits)
  have gv: "good_utxo v" using good_spend [OF Cons.prems(3) v(1)] .
  obtain c1 where c1: "restore_inputs V (rev (zip is ws)) f c = Inr (f, c1)" "c_inv c1" "c_utxo c1 = v" "c_best c1 = c_best c"
    using Cons.IH [OF Cons.prems(1) v(2) gv] Cons.prems(4) v(3) by auto
  obtain c2 where c2: "modify V (op_hash (prevout i)) (restore_step (prevout i) w) c1 = Some (Some True, c2)"
    "c_inv c2" "c_utxo c2 = u" "c_best c2 = c_best c1"
    using restore_input_law [OF c1(2), of u i w] v(1,3) c1(3) Cons.prems(3,4) by auto
  show ?case using c1 c2 v(3) by (simp add: restore_inputs_append)
qed simp

lemma disconnect_tx_law:
  assumes c: "c_inv (ds_view s)" and u: "connect_u u tx h = Some (c_utxo (ds_view s), undos)" "good_utxo u"
    and tx: "tx_storable tx" "u (tx_hash tx) = None" "\<not> ContainsZerocoins tx" "\<forall>w \<in> set undos. \<not> u_fCoinStake w"
    and undo: "ordinary tx \<Longrightarrow> undo = Some undos"
  shows "\<exists>s'. disconnect_tx V Z h tx undo s = Inr (True, s') \<and> c_inv (ds_view s') \<and> c_utxo (ds_view s') = u
    \<and> c_best (ds_view s') = c_best (ds_view s) \<and> ds_fClean s' = ds_fClean s \<and> ds_db s' = ds_db s"
proof -
  let ?k = "tx_hash tx"
  let ?f = "remove_step tx h"
  obtain w where w: "(if ordinary tx then spends_u u (vin tx) else Some (u, [])) = Some (w, undos)"
    "c_utxo (ds_view s) = w(?k := live (Some (CCoins_of tx h)))"
    using u(1) by (auto simp: connect_u_def)
  have wk: "w ?k = None"
    using w(1) tx(2) spends_u_facts [of u "vin tx" w undos ?k] u(2) by (auto split: if_splits)
  have f: "fst (?f z) \<and> IsPruned (Cleanup (snd (?f z)))" if "live (Some z) = c_utxo (ds_view s) ?k" "tidy z" for z
    using remove_entered [of z tx h] that w(2) tx(1) by (simp add: tx_storable_def)
  obtain z c1 where z: "live (Some z) = c_utxo (ds_view s) ?k" "tidy z"
    "modify V ?k ?f (ds_view s) = Some (fst (?f z), c1)" "c_inv c1"
    "c_utxo c1 = (c_utxo (ds_view s))(?k := live (Some (Cleanup (snd (?f z)))))" "c_best c1 = c_best (ds_view s)"
    using modify_law [OF c, of ?k ?f] f by blast
  then have m: "modify V ?k ?f (ds_view s) = Some (True, c1)" "c_utxo c1 = w"
    using f [OF z(1,2)] w(2) wk by (auto simp: fun_upd_idem)
  show ?thesis
  proof (cases "ordinary tx")
    case True
    then have sp: "spends_u u (vin tx) = Some (c_utxo c1, undos)" using w(1) m(2) by simp
    obtain c2 where "restore_inputs V (rev (zip (vin tx) undos)) (ds_fClean s) c1 = Inr (ds_fClean s, c2)"
      "c_inv c2" "c_utxo c2 = u" "c_best c2 = c_best c1"
      using restore_inputs_law [OF z(4) sp u(2) tx(4), of "ds_fClean s"] by blast
    moreover have "length undos = length (vin tx)" using spends_u_facts [OF sp u(2)] by simp
    moreover have "\<not> (IsCoinBase tx \<or> HasZerocoinSpendInputs tx)" using True by (simp add: ordinary_def)
    ultimately show ?thesis
      using m z(6) tx(3) undo [OF True] by (simp add: disconnect_tx_def undo_zerocoins_def Let_def)
  next
    case False
    then have "IsCoinBase tx \<or> HasZerocoinSpendInputs tx" "w = u" using w(1) by (auto simp: ordinary_def)
    then show ?thesis using m z(4,6) tx(3) by (simp add: disconnect_tx_def undo_zerocoins_def Let_def)
  qed
qed

lemma disconnect_txs_law:
  "c_inv (ds_view s) \<Longrightarrow> connects_u u txs h = Some (c_utxo (ds_view s), undos) \<Longrightarrow> good_utxo u \<Longrightarrow>
    0 <=s h \<Longrightarrow> h \<noteq> 0 \<Longrightarrow> distinct (map tx_hash txs) \<Longrightarrow>
    \<forall>tx \<in> set txs. tx_storable tx \<and> u (tx_hash tx) = None \<and> \<not> ContainsZerocoins tx \<Longrightarrow>
    \<forall>ws \<in> set undos. \<forall>w \<in> set ws. \<not> u_fCoinStake w \<Longrightarrow>
    list_all2 (\<lambda>(tx, ws) undo. ordinary tx \<longrightarrow> undo = Some ws) (zip txs undos) os \<Longrightarrow>
    \<exists>s'. disconnect_txs V Z h (rev (zip txs os)) s = Inr (True, s') \<and> c_inv (ds_view s') \<and> c_utxo (ds_view s') = u
      \<and> c_best (ds_view s') = c_best (ds_view s) \<and> ds_fClean s' = ds_fClean s \<and> ds_db s' = ds_db s"
proof (induction txs arbitrary: u undos os)
  case (Cons tx txs)
  obtain v ws wss where v: "connect_u u tx h = Some (v, ws)" "connects_u v txs h = Some (c_utxo (ds_view s), wss)"
    "undos = ws # wss" using Cons.prems(2) by (auto split: option.splits)
  obtain o1 os1 where os: "os = o1 # os1" "ordinary tx \<Longrightarrow> o1 = Some ws"
    "list_all2 (\<lambda>(tx, ws) undo. ordinary tx \<longrightarrow> undo = Some ws) (zip txs wss) os1"
    using Cons.prems(9) v(3) by (cases os) auto
  have tx: "tx_storable tx" "u (tx_hash tx) = None" "\<not> ContainsZerocoins tx" using Cons.prems(7) by simp_all
  note facts = connect_u_facts [OF v(1) Cons.prems(3) tx(1) Cons.prems(4,5)]
  have later: "\<forall>t \<in> set txs. tx_storable t \<and> v (tx_hash t) = None \<and> \<not> ContainsZerocoins t"
  proof
    fix t
    assume t: "t \<in> set txs"
    have "tx_hash t \<noteq> tx_hash tx"
    proof
      assume "tx_hash t = tx_hash tx"
      then have "tx_hash tx \<in> tx_hash ` set txs" using t by (metis imageI)
      then show False using Cons.prems(6) by simp
    qed
    then have "v (tx_hash t) = None" using facts [of "tx_hash t"] Cons.prems(7) t by simp
    then show "tx_storable t \<and> v (tx_hash t) = None \<and> \<not> ContainsZerocoins t" using Cons.prems(7) t by simp
  qed
  obtain s1 where s1: "disconnect_txs V Z h (rev (zip txs os1)) s = Inr (True, s1)" "c_inv (ds_view s1)"
    "c_utxo (ds_view s1) = v" "c_best (ds_view s1) = c_best (ds_view s)" "ds_fClean s1 = ds_fClean s" "ds_db s1 = ds_db s"
    using Cons.IH [OF Cons.prems(1) v(2) _ Cons.prems(4,5) _ later _ os(3)] facts Cons.prems(6,8) v(3) by auto
  obtain s2 where "disconnect_tx V Z h tx o1 s1 = Inr (True, s2)" "c_inv (ds_view s2)" "c_utxo (ds_view s2) = u"
    "c_best (ds_view s2) = c_best (ds_view s1)" "ds_fClean s2 = ds_fClean s1" "ds_db s2 = ds_db s1"
    using disconnect_tx_law [OF s1(2), of u tx h ws o1 Z] v(1,3) s1(3) Cons.prems(3,8) tx os(2) by auto
  then show ?case using s1 os(1) by (auto simp: disconnect_txs_append)
qed simp

end

section \<open>The block that was connected last\<close>

lemma have_undo_bits:
  "(x OR 16) AND 16 \<noteq> (0 :: u32)" "((x AND NOT BLOCK_VALID_MASK) OR 5) AND 16 = x AND 16"
proof -
  have "bit ((x OR 16) AND 16) 4" by (simp add: bit_simps bit_numeral_simps)
  then show "(x OR 16) AND 16 \<noteq> (0 :: u32)" by auto
  have "NOT BLOCK_VALID_MASK AND 16 = (16 :: u32)" "5 AND 16 = (0 :: u32)"
    by (simp_all add: BLOCK_VALID_MASK_def)
  then show "((x AND NOT BLOCK_VALID_MASK) OR 5) AND 16 = x AND 16"
    by (simp add: bit.conj_disj_distrib2 and.assoc)
qed

lemma RaiseValidity_undo:
  "GetUndoPos (snd (RaiseValidity BLOCK_VALID_SCRIPTS e)) = GetUndoPos e"
  "bi_hash (snd (RaiseValidity BLOCK_VALID_SCRIPTS e)) = bi_hash e"
  "pprev (snd (RaiseValidity BLOCK_VALID_SCRIPTS e)) = pprev e"
  "nHeight (snd (RaiseValidity BLOCK_VALID_SCRIPTS e)) = nHeight e"
  "bi_nAccumulatorCheckpoint (snd (RaiseValidity BLOCK_VALID_SCRIPTS e)) = bi_nAccumulatorCheckpoint e"
  by (simp_all add: RaiseValidity_def GetUndoPos_def BLOCK_HAVE_UNDO_def BLOCK_VALID_SCRIPTS_def have_undo_bits)

text \<open>The part of the node that keeps the supply of zerocoins writes only its own fields of an entry.\<close>

definition keeps_entry :: "block_env \<Rightarrow> bool" where
  "keeps_entry B \<longleftrightarrow> (\<forall>e. let e' = snd (be_UpdateZZNNSupply B e) in
     bi_hash e' = bi_hash e \<and> pprev e' = pprev e \<and> nHeight e' = nHeight e \<and> nFile e' = nFile e
     \<and> nStatus e' = nStatus e \<and> nUndoPos e' = nUndoPos e
     \<and> bi_nAccumulatorCheckpoint e' = bi_nAccumulatorCheckpoint e)"

lemma connect_totals_frame:
  assumes "connect_totals ec P T B block e s = Inr ((True, s'), e')" "keeps_entry B"
  shows "s' = s \<and> bi_hash e' = bi_hash e \<and> pprev e' = pprev e \<and> nHeight e' = nHeight e \<and> nFile e' = nFile e
     \<and> nStatus e' = nStatus e \<and> nUndoPos e' = nUndoPos e
     \<and> bi_nAccumulatorCheckpoint e' = bi_nAccumulatorCheckpoint e \<and> pprev e \<noteq> None"
proof -
  obtain b e1 where u: "be_UpdateZZNNSupply B e = (b, e1)" by (cases "be_UpdateZZNNSupply B e")
  have e1: "bi_hash e1 = bi_hash e" "pprev e1 = pprev e" "nHeight e1 = nHeight e" "nFile e1 = nFile e"
    "nStatus e1 = nStatus e" "nUndoPos e1 = nUndoPos e" "bi_nAccumulatorCheckpoint e1 = bi_nAccumulatorCheckpoint e"
    using assms(2) u unfolding keeps_entry_def Let_def by (metis snd_conv)+
  have b using assms(1) u by (cases b) (auto simp: connect_totals_def)
  then have "pprev e1 \<noteq> None" using assms(1) u by (cases "pprev e1") (auto simp: connect_totals_def)
  then obtain q where q: "pprev e1 = Some q" by blast
  obtain m where e': "s' = s" "\<exists>n. e' = e1\<lparr> nMoneySupply := m, nMint := n \<rparr>"
    using assms(1) u \<open>b\<close> q
    by (auto simp: connect_totals_def Let_def split: if_splits sum.splits)
  have "pprev e \<noteq> None" using e1(2) q by (metis option.distinct(1))
  then show ?thesis using e1 e' by auto
qed

lemma map_sum_Inr: "map_sum id f x = Inr y \<longleftrightarrow> (\<exists>z. x = Inr z \<and> y = f z)"
  by (cases x) auto

text \<open>What an accepted block has done to the view, to the undo data and to its entry.\<close>

context coins_store
begin

lemma ConnectBlock_law:
  assumes c: "c_inv c"
    and ok: "ConnectBlock_checks ec sph V P T E B block st p c done = Inr ((True, s), e, False)"
    and B: "keeps_entry B"
    and txs: "\<forall>tx \<in> set (vtx block). tx_storable tx" "0 <=s (word_of_int (nHeight (bt_arena T ! p)) :: u32)"
  shows "\<exists>u undos q. connects_u (c_utxo c) (vtx block) (word_of_int (nHeight (bt_arena T ! p))) = Some (u, undos)
    \<and> c_inv (cs_view s) \<and> c_utxo (cs_view s) = u \<and> cs_vtxundo s = tl undos
    \<and> (EnforceBIP30 B (bt_arena T ! p) \<longrightarrow> (\<forall>tx \<in> set (vtx block). c_utxo c (tx_hash tx) = None))
    \<and> pprev (bt_arena T ! p) = Some q \<and> bi_hash (bt_arena T ! q) = c_best c
    \<and> bi_hash e = bi_hash (bt_arena T ! p) \<and> pprev e = Some q \<and> nHeight e = nHeight (bt_arena T ! p)
    \<and> nFile e = nFile (bt_arena T ! p) \<and> nStatus e = nStatus (bt_arena T ! p)
    \<and> nUndoPos e = nUndoPos (bt_arena T ! p)
    \<and> bi_nAccumulatorCheckpoint e = bi_nAccumulatorCheckpoint (bt_arena T ! p)"
proof -
  let ?e = "bt_arena T ! p"
  obtain b st1 where chk: "(if done then (True, st) else be_CheckBlock B block st) = (b, st1)"
    by (cases "if done then (True, st) else be_CheckBlock B block st")
  have b: b using ok chk by (cases b) (auto simp: ConnectBlock_checks_def Let_def)
  obtain best2 c1 where g: "cache_GetBestBlock V c = (best2, c1)" by (cases "cache_GetBestBlock V c")
  note l1 = GetBestBlock_law [OF c g]
  define hp where "hp = (case pprev ?e of None \<Rightarrow> of_u64 8 0 | Some q \<Rightarrow> bi_hash (bt_arena T ! q))"
  define s0 where "s0 = connect_start block st1 c1"
  note body = ok [unfolded ConnectBlock_checks_def Let_def chk, simplified b g prod.case bool.case,
    folded hp_def s0_def]
  have guards: "hp = best2" "header_GetHash sph block \<noteq> be_hashGenesisBlock B"
    "\<not> (nHeight ?e \<le> nLastPOWBlock P \<and> IsProofOfStake block)" "\<not> (nHeight ?e > nLastPOWBlock P \<and> IsProofOfWork block)"
    using body by (auto split: if_splits)
  obtain b2 c2 where bip: "(if EnforceBIP30 B ?e then check_bip30 V (vtx block) c1 else (True, c1)) = (b2, c2)"
    by (cases "if EnforceBIP30 B ?e then check_bip30 V (vtx block) c1 else (True, c1)")
  have b2: b2 using body guards bip by (cases b2) (auto split: if_splits)
  have l2: "read_from c1 c2 \<and> (EnforceBIP30 B ?e \<longrightarrow> (\<forall>tx \<in> set (vtx block). c_utxo c1 (tx_hash tx) = None))"
    using read_bip30 [of c1 "vtx block" b2 c2] bip b2 l1 by (auto split: if_splits)
  obtain fs flags s1 where loop: "connect_txs ec V P T E fs flags block (nHeight ?e) 0 (vtx block) (s0\<lparr> cs_view := c2 \<rparr>) = Inr (True, s1)"
    and totals: "connect_totals ec P T B block ?e s1 = Inr ((True, s), e)"
    using body guards bip b2 that
    by (simp only: if_True if_False simp_thms prod.case bool.case split: sum.splits prod.splits bool.splits)
      (auto simp: map_sum_Inr)
  note fr = connect_totals_frame [OF totals B]
  have c2: "c_inv (cs_view (s0\<lparr> cs_view := c2 \<rparr>))" using l2 by simp
  note law = connect_txs_law [OF c2 txs loop]
  obtain q where q: "pprev ?e = Some q" using fr by auto
  then have "bi_hash (bt_arena T ! q) = c_best c" using guards(1) l1 by (simp add: hp_def)
  then show ?thesis using law fr q l1 l2 by (auto simp: s0_def connect_start_def)
qed

end

text \<open>Undo records of a good set of unspent outputs, with heights in range, can be written.\<close>

definition low_utxo :: "(limbs \<Rightarrow> CCoins option) \<Rightarrow> bool" where
  "low_utxo u \<longleftrightarrow> (\<forall>k x. u k = Some x \<longrightarrow> c_nHeight x \<noteq> 0 \<and> c_nHeight x < 0x40000000)"

lemma spends_u_undo_ok:
  "spends_u u is = Some (u', undos) \<Longrightarrow> good_utxo u \<Longrightarrow> low_utxo u \<Longrightarrow>
    low_utxo u' \<and> (\<forall>w \<in> set undos. undo_ok w)"
proof (induction "is" arbitrary: u undos)
  case (Cons i "is")
  obtain v w ws where v: "spend_u u i = Some (v, w)" "spends_u v is = Some (u', ws)" "undos = w # ws"
    using Cons.prems(1) by (auto split: option.splits)
  obtain x y where x: "u (op_hash (prevout i)) = Some x" "Spend (prevout i) CTxInUndo_new x = (True, y, w)"
    "v = u(op_hash (prevout i) := live (Some y))" using spend_u_Some [OF v(1)] by blast
  have "coins_ok x" "c_nHeight x \<noteq> 0" "c_nHeight x < 0x40000000"
    using Cons.prems(2,3) x(1) by (auto simp: good_utxo_def low_utxo_def)
  then have w: "undo_ok w" "c_nHeight y = c_nHeight x" using Spend_ok [OF x(2)] by auto
  then have "low_utxo v" using Cons.prems(3) x(1,3) by (auto simp: low_utxo_def live_Some_iff split: if_splits)
  then show ?case using Cons.IH [OF v(2) good_spend [OF Cons.prems(2) v(1)]] v(3) w(1) by auto
qed simp

lemma connects_u_undo_ok:
  "connects_u u txs h = Some (u', undos) \<Longrightarrow> good_utxo u \<Longrightarrow> low_utxo u \<Longrightarrow> 0 <=s h \<Longrightarrow> h \<noteq> 0 \<Longrightarrow>
    h < 0x40000000 \<Longrightarrow> \<forall>tx \<in> set txs. tx_storable tx \<and> length (vin tx) \<le> 33554432 \<Longrightarrow>
    length undos = length txs \<and> (\<forall>ws \<in> set undos. (\<forall>w \<in> set ws. undo_ok w) \<and> length ws \<le> 33554432)"
proof (induction txs arbitrary: u undos)
  case (Cons tx txs)
  obtain v ws wss where v: "connect_u u tx h = Some (v, ws)" "connects_u v txs h = Some (u', wss)" "undos = ws # wss"
    using Cons.prems(1) by (auto split: option.splits)
  obtain w where w: "(if ordinary tx then spends_u u (vin tx) else Some (u, [])) = Some (w, ws)"
    "v = w(tx_hash tx := live (Some (CCoins_of tx h)))"
    using v(1) by (auto simp: connect_u_def)
  have ws: "low_utxo w \<and> (\<forall>x \<in> set ws. undo_ok x) \<and> length ws \<le> 33554432"
  proof (cases "ordinary tx")
    case True
    then have "spends_u u (vin tx) = Some (w, ws)" using w(1) by simp
    then show ?thesis
      using spends_u_undo_ok [of u "vin tx" w ws] spends_u_facts [of u "vin tx" w ws] Cons.prems(2,3,7) by auto
  qed (use w(1) Cons.prems(3) in auto)
  then have "low_utxo v" using w(2) Cons.prems(5,6) by (auto simp: low_utxo_def live_Some_iff split: if_splits)
  moreover have "good_utxo v" using connect_u_facts [OF v(1) Cons.prems(2) _ Cons.prems(4,5)] Cons.prems(7) by auto
  ultimately show ?case
    using Cons.IH [OF v(2) _ _ Cons.prems(4-6)] Cons.prems(7) v(3) ws by auto
qed simp

text \<open>The block that was accepted and stored, as hypotheses of the theorem.\<close>

definition block_connected :: "('p, 's, 'r) secp \<Rightarrow> sph_functions \<Rightarrow> 'b CCoinsView \<Rightarrow> CChainParams \<Rightarrow> block_tree
    \<Rightarrow> connect_env \<Rightarrow> block_env \<Rightarrow> bytes \<Rightarrow> CDiskBlockPos \<Rightarrow> undo_files \<Rightarrow> CBlock \<Rightarrow> ptr \<Rightarrow> 'b CCoinsViewCache
    \<Rightarrow> 'b CCoinsViewCache \<Rightarrow> block_tree \<Rightarrow> undo_files \<Rightarrow> CTxUndo list \<Rightarrow> bool" where
  "block_connected ec sph V P T E B magic pos files block p c c' T' files' vtxundo \<longleftrightarrow>
     (\<exists>s e. ConnectBlock_checks ec sph V P T E B block CValidationState_new p c True = Inr ((True, s), e, False)
        \<and> ConnectBlock_store ec magic (Some pos) T p e s files = Some (c', T', files')
        \<and> vtxundo = cs_vtxundo s)"

text \<open>What the theorem asks of the block: storable transactions with distinct ids, none of them with
  zerocoins, a coinbase first, a height within the range of undo data, and a place for the undo
  data in the file of the block.\<close>

definition block_regular :: "block_tree \<Rightarrow> ptr \<Rightarrow> CBlock \<Rightarrow> bytes \<Rightarrow> CDiskBlockPos \<Rightarrow> bool" where
  "block_regular T p block magic pos \<longleftrightarrow>
     (let e = bt_arena T ! p in
      p < length (bt_arena T) \<and> 0 < nHeight e \<and> nHeight e < 0x40000000 \<and> bi_hash e \<noteq> bu_zero 8
      \<and> CDiskBlockPos_IsNull (GetUndoPos e) \<and> dbp_nFile pos = nFile e
      \<and> unat (dbp_nPos pos) + length magic + 4 < 4294967296
      \<and> vtx block \<noteq> [] \<and> IsCoinBase (hd (vtx block)) \<and> distinct (map tx_hash (vtx block))
      \<and> length (vtx block) \<le> 33554432
      \<and> (\<forall>tx \<in> set (vtx block). tx_storable tx \<and> \<not> ContainsZerocoins tx \<and> length (vin tx) \<le> 33554432)
      \<and> (\<forall>q. pprev e = Some q \<longrightarrow> q \<noteq> p
           \<and> bi_nAccumulatorCheckpoint (bt_arena T ! q) = bi_nAccumulatorCheckpoint e))"

context coins_store
begin

lemma SetBestBlock_frame:
  "c_inv (SetBestBlock c h) = c_inv c" "c_utxo (SetBestBlock c h) = c_utxo c" "hashBlock (SetBestBlock c h) = h"
  by (simp_all add: SetBestBlock_def cache_inv_def cache_utxo_def)

lemma disconnect_connected:
  assumes c: "c_inv c" "low_utxo (c_utxo c)" and ec: "decompresses ec"
    and B: "keeps_entry B" "EnforceBIP30 B (bt_arena T ! p)"
    and reg: "block_regular T p block magic pos"
    and con: "block_connected ec sph V P T E B magic pos files block p c c' T' files' vtxundo"
    and stakes: "\<forall>ws \<in> set vtxundo. \<forall>w \<in> set ws. \<not> u_fCoinStake w"
  shows "\<exists>s'. DisconnectBlock ec V Z (bt_arena T') files' fVerifying block p True c' z = Inr ((True, True), s')
    \<and> c_inv (ds_view s') \<and> c_utxo (ds_view s') = c_utxo c \<and> hashBlock (ds_view s') = c_best c \<and> ds_db s' = z"
proof -
  let ?e = "bt_arena T ! p"
  let ?h = "word_of_int (nHeight ?e) :: u32"
  note reg' = reg [unfolded block_regular_def Let_def]
  obtain s e where chk: "ConnectBlock_checks ec sph V P T E B block CValidationState_new p c True = Inr ((True, s), e, False)"
    and sto: "ConnectBlock_store ec magic (Some pos) T p e s files = Some (c', T', files')"
    and vu: "vtxundo = cs_vtxundo s"
    using con by (auto simp: block_connected_def)
  have txs: "\<forall>tx \<in> set (vtx block). tx_storable tx" using reg' by blast
  have hb: "0 < nHeight ?e" "nHeight ?e < 0x40000000" using reg' by blast+
  then have "uint ?h = nHeight ?e" by (simp add: uint_word_of_int)
  then have uh: "unat ?h = nat (nHeight ?e)" by (metis nat_uint_eq)
  have h: "0 <=s ?h" "?h \<noteq> 0" "?h < 0x40000000"
    using uh hb by (auto simp: word_sle_eq u32_sint word_less_nat_alt unat_eq_zero [symmetric])
  obtain u undos q where law: "connects_u (c_utxo c) (vtx block) ?h = Some (u, undos)"
    "c_inv (cs_view s)" "c_utxo (cs_view s) = u" "cs_vtxundo s = tl undos"
    "\<forall>tx \<in> set (vtx block). c_utxo c (tx_hash tx) = None"
    "pprev ?e = Some q" "bi_hash (bt_arena T ! q) = c_best c"
    and e: "bi_hash e = bi_hash ?e" "pprev e = Some q" "nHeight e = nHeight ?e" "nFile e = nFile ?e"
      "nStatus e = nStatus ?e" "nUndoPos e = nUndoPos ?e" "bi_nAccumulatorCheckpoint e = bi_nAccumulatorCheckpoint ?e"
    using ConnectBlock_law [OF c(1) chk B(1) txs h(1)] B(2) by blast
  have good: "good_utxo (c_utxo c)"
    using c c_utxo_ok [OF c(1)] by (auto simp: good_utxo_def low_utxo_def)
  have undo: "length undos = length (vtx block) \<and> (\<forall>ws \<in> set undos. (\<forall>w \<in> set ws. undo_ok w) \<and> length ws \<le> 33554432)"
    using connects_u_undo_ok [OF law(1) good c(2) h] reg' by blast
  obtain tx txs where vt: "vtx block = tx # txs" using reg' by (cases "vtx block") auto
  then obtain ws wss where un: "undos = ws # wss" using undo by (cases undos) auto
  have "blockundo_ok (cs_vtxundo s)"
    using undo un law(4) reg' by (auto simp: blockundo_ok_def)
  moreover obtain pos' where wr: "WriteToDisk ec magic (cs_vtxundo s) pos (c_best c) files = Some (pos', files')"
    and c': "c' = SetBestBlock (cs_view s) (bi_hash ?e)"
    and T': "bt_arena T' = (bt_arena T)[p := snd (RaiseValidity BLOCK_VALID_SCRIPTS
        (e\<lparr> nUndoPos := dbp_nPos pos', nStatus := nStatus e OR BLOCK_HAVE_UNDO \<rparr>))]"
  proof -
    have "CDiskBlockPos_IsNull (GetUndoPos ?e)" using reg' by blast
    then have "CDiskBlockPos_IsNull (GetUndoPos e)" using e(4-6) by (simp only: GetUndoPos_def)
    then show ?thesis using sto e law(7) that
      by (auto simp: ConnectBlock_store_def Let_def split: option.splits prod.splits)
  qed
  ultimately have rd: "ReadFromDisk ec pos' (c_best c) files' = Some (cs_vtxundo s)"
    using undo_file_roundtrip [OF ec _ wr] reg' by blast
  have pq: "p < length (bt_arena T)" "q \<noteq> p" "dbp_nFile pos = nFile ?e"
    "bi_nAccumulatorCheckpoint (bt_arena T ! q) = bi_nAccumulatorCheckpoint ?e"
    using reg' law(6) by blast+
  let ?e2 = "e\<lparr> nUndoPos := dbp_nPos pos', nStatus := nStatus e OR BLOCK_HAVE_UNDO \<rparr>"
  have ep: "bt_arena T' ! p = snd (RaiseValidity BLOCK_VALID_SCRIPTS ?e2)" "bt_arena T' ! q = bt_arena T ! q"
    using T' pq(1,2) by simp_all
  have "dbp_nFile pos' = nFile e" using wr pq(3) e(4) by (auto simp: WriteToDisk_def Let_def split: if_splits)
  then have "GetUndoPos ?e2 = pos'" by (simp add: GetUndoPos_def BLOCK_HAVE_UNDO_def have_undo_bits)
  then have at: "GetUndoPos (bt_arena T' ! p) = pos'" "bi_hash (bt_arena T' ! p) = bi_hash ?e"
    "pprev (bt_arena T' ! p) = Some q" "nHeight (bt_arena T' ! p) = nHeight ?e"
    "bi_nAccumulatorCheckpoint (bt_arena T' ! p) = bi_nAccumulatorCheckpoint ?e" "bt_arena T' ! q = bt_arena T ! q"
    using e ep by (simp_all add: RaiseValidity_undo)
  have np: "\<not> CDiskBlockPos_IsNull pos'" using rd by (auto simp: ReadFromDisk_def)
  have best2: "cache_GetBestBlock V c' = (bi_hash ?e, c')"
    using reg' c' by (simp add: cache_GetBestBlock_def SetBestBlock_def)
  let ?s = "\<lparr> ds_view = c', ds_db = z, ds_fClean = True \<rparr>"
  have inv': "c_inv (ds_view ?s)" "c_utxo (ds_view ?s) = u" using law c' by (simp_all add: SetBestBlock_frame)
  have cn: "connects_u (c_utxo c) (vtx block) ?h = Some (c_utxo (ds_view ?s), undos)" using law(1) inv'(2) by simp
  have pre: "\<forall>tx \<in> set (vtx block). tx_storable tx \<and> c_utxo c (tx_hash tx) = None \<and> \<not> ContainsZerocoins tx"
    using reg' law(5) by blast
  have st: "\<forall>ws' \<in> set undos. \<forall>w \<in> set ws'. \<not> u_fCoinStake w"
  proof -
    have "ws = []"
    proof -
      have "\<not> ordinary tx" using reg' vt by (simp add: ordinary_def)
      then show ?thesis using law(1) vt un by (auto simp: connect_u_def split: option.splits)
    qed
    then show ?thesis using stakes vu law(4) un by simp
  qed
  have al: "list_all2 (\<lambda>(tx, ws) undo. ordinary tx \<longrightarrow> undo = Some ws) (zip (vtx block) undos)
      (None # map Some (cs_vtxundo s))"
  proof -
    have "length txs = length wss" using undo vt un by simp
    then have "list_all2 (\<lambda>(tx, ws) undo. ordinary tx \<longrightarrow> undo = Some ws) (zip txs wss) (map Some wss)"
      by (auto simp: list_all2_conv_all_nth)
    then show ?thesis using reg' vt un law(4) by (simp add: ordinary_def)
  qed
  obtain s1 where s1: "disconnect_txs V Z ?h (rev (zip (vtx block) (None # map Some (cs_vtxundo s)))) ?s = Inr (True, s1)"
    "c_inv (ds_view s1)" "c_utxo (ds_view s1) = c_utxo c" "ds_fClean s1" "ds_db s1 = z"
    using disconnect_txs_law [OF inv'(1) cn good h(1,2) _ pre st al] reg' by fastforce
  have len: "length (cs_vtxundo s) + 1 = length (vtx block)" using undo un law(4) vt by simp
  have "DisconnectBlock ec V Z (bt_arena T') files' fVerifying block p True c' z
      = Inr ((True, True), s1\<lparr> ds_view := SetBestBlock (ds_view s1) (c_best c), ds_db := z \<rparr>)"
    using best2 at np rd len s1 pq(4) law(7) by (simp add: DisconnectBlock_def Let_def)
  then show ?thesis using s1 by (simp add: SetBestBlock_frame)
qed

end

section \<open>A block that is connected and disconnected\<close>

text \<open>A coinbase and the spend of the one output of \<open>open_view\<close>, at height 150.\<close>

definition sample_coinbase :: CTransaction where
  "sample_coinbase = CTransaction_new\<lparr> vin := [CTxIn_of COutPoint_null [1, 0x51] (- 1)],
     vout := [CTxOut_of 1000010000 [0x51]], tx_hash := of_u64 8 1 \<rparr>"

definition sample_spend :: CTransaction where
  "sample_spend = sample_tx\<lparr> tx_hash := of_u64 8 2 \<rparr>"

definition sample_block :: CBlock where
  "sample_block = CBlock_null\<lparr> bh_nVersion := 3, vtx := [sample_coinbase, sample_spend] \<rparr>"

definition sample_tree :: block_tree where
  "sample_tree = \<lparr> bt_arena =
      [(CBlockIndex_null None)\<lparr> bi_hash := of_u64 8 9, nHeight := 149 \<rparr>,
       (CBlockIndex_null None)\<lparr> bi_hash := of_u64 8 10, nHeight := 150, pprev := Some 0 \<rparr>],
     mapBlockIndex = (\<lambda>h. Some 0), pindexBestHeader = None, setDirtyBlockIndex = [], mapProofOfStake = (\<lambda>h. None) \<rparr>"

definition quiet_env :: connect_env where
  "quiet_env = \<lparr> ce_zerocoin_maintenance = 4070908800, ce_IsInitialBlockDownload = False, ce_fVerifyingBlocks = False,
     ce_nScriptCheckThreads = 0, ce_IsTransactionInChain = (\<lambda>h. None), ce_Public_Spend_Enabled = 0,
     ce_public_value = (\<lambda>i tx st. (None, st)), ce_private_value = (\<lambda>i. 0), ce_spend_ok = (\<lambda>tx i. False),
     ce_TxOutToPublicCoin = (\<lambda>txo st. (False, st)), ce_mint_ok = (\<lambda>tx txo. False), ce_setInvalidOutPoints = [] \<rparr>"

definition quiet_block_env :: block_env where
  "quiet_block_env = \<lparr> be_CheckBlock = (\<lambda>b st. (True, st)), be_hashGenesisBlock = [], be_TotalBlocksEstimate = 0,
     be_phashBlock = True, be_tip = Some 0, be_IsSynced = True, be_UpdateZZNNSupply = (\<lambda>e. (True, e)),
     be_ValidateAccumulatorCheckpoint = True, be_ShutdownRequested = False \<rparr>"

abbreviation sample_stack :: "tip_state CCoinsView" where
  "sample_stack \<equiv> cache_view (db_view diagonal_secp)"

definition view1 :: block_state where
  "view1 = open_view\<lparr> cacheCoins := cacheCoins open_view
     @ [(of_u64 8 1, \<lparr> e_coins = CCoins_of sample_coinbase 150, e_flags = 3 \<rparr>)] \<rparr>"

definition view2 :: block_state where
  "view2 = open_view\<lparr> cacheCoins := [(of_u64 8 1, \<lparr> e_coins = CCoins_of sample_coinbase 150, e_flags = 3 \<rparr>),
     (of_u64 8 2, \<lparr> e_coins = CCoins_of sample_spend 150, e_flags = 3 \<rparr>)] \<rparr>"

definition spent_undo :: CTxInUndo where
  "spent_undo = \<lparr> u_txout = CTxOut_of 5000000000 [0x51], u_fCoinBase = False, u_fCoinStake = False,
     u_nHeight = 100, u_nVersion = 1 \<rparr>"

lemma sample_steps:
  "UpdateCoins sample_stack sample_coinbase [] 150 open_view = Inr ([], view1)"
  "UpdateCoins sample_stack sample_spend [] 150 view1 = Inr ([spent_undo], view2)"
  "HaveInputs sample_stack view1 sample_spend = (True, view1)"
  "GetP2SHSigOpCount sample_stack view1 sample_spend = Some (0, view1)"
  "GetValueIn sample_stack view1 sample_spend = Some (5000000000, view1)"
  "GetValueOut sample_spend = Inr 4999990000" "GetValueOut sample_coinbase = Inr 1000010000"
  "GetLegacySigOpCount sample_coinbase = 0" "GetLegacySigOpCount sample_spend = 2"
  "check_bip30 sample_stack (vtx sample_block) open_view = (True, open_view)"
  "cache_GetBestBlock sample_stack open_view = (of_u64 8 9, open_view)"
  "header_GetHash zero_sph sample_block \<noteq> []" "\<not> IsProofOfStake sample_block" "IsProofOfWork sample_block"
  by code_simp+

lemma sample_kinds:
  "IsCoinBase sample_coinbase" "\<not> ContainsZerocoins sample_coinbase" "\<not> HasZerocoinSpendInputs sample_coinbase"
  "\<not> IsCoinBase sample_spend" "\<not> ContainsZerocoins sample_spend" "\<not> HasZerocoinSpendInputs sample_spend"
  "\<not> HasZerocoinMintOutputs sample_spend" "\<not> IsCoinStake sample_spend"
  by code_simp+
lemma sample_check:
  "CheckInputs diagonal_secp sample_stack CMainParams sample_tree sample_spend CValidationState_new view1 True 5
    False None = Inr ((True, CValidationState_new), view1, None)"
  by code_simp

lemma sample_connect_tx1:
  assumes "cs_view s = open_view" "cs_nSigOps s = 0"
  shows "\<exists>s'. connect_tx diagonal_secp sample_stack CMainParams sample_tree quiet_env True 5 sample_block 150 0
      sample_coinbase s = Inr (True, s') \<and> cs_view s' = view1 \<and> cs_nSigOps s' = 0 \<and> cs_state s' = cs_state s
      \<and> cs_vtxundo s' = cs_vtxundo s \<and> cs_control s' = cs_control s
      \<and> cs_nValueOut s' = cs_nValueOut s + 1000010000 \<and> cs_nValueIn s' = cs_nValueIn s \<and> cs_nFees s' = cs_nFees s"
  using assms sample_steps(1,7,8) sample_kinds(1-3)
  by (simp add: connect_tx_def Let_def MAX_BLOCK_SIGOPS_CURRENT_def MAX_BLOCK_SIZE_CURRENT_def supply_exception_def)

lemma sample_connect_tx2:
  assumes "cs_view s = view1" "cs_nSigOps s = 0" "cs_state s = CValidationState_new"
  shows "\<exists>s'. connect_tx diagonal_secp sample_stack CMainParams sample_tree quiet_env True 5 sample_block 150 1
      sample_spend s = Inr (True, s') \<and> cs_view s' = view2
      \<and> cs_vtxundo s' = cs_vtxundo s @ [[spent_undo]] \<and> cs_control s' = cs_control s
      \<and> cs_nValueOut s' = cs_nValueOut s + 4999990000 \<and> cs_nValueIn s' = cs_nValueIn s + 5000000000
      \<and> cs_nFees s' = cs_nFees s + 10000"
proof -
  have ord: "connect_ordinary_tx diagonal_secp sample_stack CMainParams sample_tree quiet_env True 5 sample_spend 150 s0
      = Inr (True, s0\<lparr> cs_view := view1, cs_nSigOps := cs_nSigOps s0 + 0, cs_nFees := cs_nFees s0 + (5000000000 - 4999990000),
          cs_nValueIn := cs_nValueIn s0 + 5000000000, cs_state := CValidationState_new, cs_control := cs_control s0 @ [] \<rparr>)"
    if "cs_view s0 = view1" "cs_nSigOps s0 = 2" "cs_state s0 = CValidationState_new" for s0
    using that sample_steps(3-6) sample_kinds(7,8) sample_check
    by (simp add: connect_ordinary_tx_def Let_def check_mints_def ValidOutPoint_def quiet_env_def
        MAX_BLOCK_SIGOPS_CURRENT_def MAX_BLOCK_SIZE_CURRENT_def list_ex_iff)
  show ?thesis
    using assms sample_steps(2,6,9) sample_kinds(4-6)
    by (simp add: connect_tx_def Let_def MAX_BLOCK_SIGOPS_CURRENT_def MAX_BLOCK_SIZE_CURRENT_def ord supply_exception_def)
qed
lemma sample_no_majority: "\<not> IsSuperMajority CMainParams (bt_arena sample_tree) 5 (Some 0) 8100"
proof -
  have none: "majority_loop st v n None r 0 = 0" for st v n r by (cases n) auto
  have "majority_loop (bt_arena sample_tree) 5 n (Some 0) r 0 = 0" for n r
    by (cases n) (simp_all add: sample_tree_def CBlockIndex_null_def word_sle_eq none)
  then show ?thesis by (simp add: IsSuperMajority_def)
qed

definition sample_pos :: CDiskBlockPos where
  "sample_pos = \<lparr> dbp_nFile = 0, dbp_nPos = 0 \<rparr>"

lemma sample_connected:
  "\<exists>c' T' files'. block_connected diagonal_secp zero_sph sample_stack CMainParams sample_tree quiet_env quiet_block_env
     [0xb1, 0x3b, 0x2d, 0xf6] sample_pos (\<lambda>f. []) sample_block 1 open_view c' T' files' [[spent_undo]]"
proof -
  let ?s0 = "connect_start sample_block CValidationState_new open_view"
  have vt: "vtx sample_block = [sample_coinbase, sample_spend]" by (simp add: sample_block_def)
  have st: "bt_arena sample_tree ! 1 = (CBlockIndex_null None)\<lparr> bi_hash := of_u64 8 10, nHeight := 150, pprev := Some 0 \<rparr>"
    "bt_arena sample_tree ! 0 = (CBlockIndex_null None)\<lparr> bi_hash := of_u64 8 9, nHeight := 149 \<rparr>"
    by (simp_all add: sample_tree_def)
  have vals: "nEnforceBlockUpgradeMajority CMainParams = 8100" "nLastPOWBlock CMainParams = 321"
    "be_TotalBlocksEstimate quiet_block_env = 0" "be_hashGenesisBlock quiet_block_env = []"
    "SCRIPT_VERIFY_P2SH OR SCRIPT_VERIFY_DERSIG = 5"
    "(connect_start sample_block CValidationState_new open_view)\<lparr> cs_view := open_view \<rparr> = ?s0"
    by (simp_all add: CMainParams_def quiet_block_env_def SCRIPT_VERIFY_P2SH_def SCRIPT_VERIFY_DERSIG_def connect_start_def)
  obtain s1 where s1: "connect_tx diagonal_secp sample_stack CMainParams sample_tree quiet_env True 5 sample_block 150 0
      sample_coinbase ?s0 = Inr (True, s1)" "cs_view s1 = view1" "cs_nSigOps s1 = 0" "cs_state s1 = CValidationState_new"
      "cs_vtxundo s1 = []" "cs_control s1 = []" "cs_nValueOut s1 = 1000010000" "cs_nValueIn s1 = 0" "cs_nFees s1 = 0"
    using sample_connect_tx1 [of ?s0] by (auto simp: connect_start_def)
  obtain s2 where s2: "connect_tx diagonal_secp sample_stack CMainParams sample_tree quiet_env True 5 sample_block 150 1
      sample_spend s1 = Inr (True, s2)" "cs_view s2 = view2" "cs_vtxundo s2 = [[spent_undo]]" "cs_control s2 = []"
      "cs_nValueOut s2 = 6000000000" "cs_nValueIn s2 = 5000000000" "cs_nFees s2 = 10000"
    using sample_connect_tx2 [OF s1(2-4)] s1(5-9) by auto
  have "connect_txs diagonal_secp sample_stack CMainParams sample_tree quiet_env True 5 sample_block 150 0 (vtx sample_block) ?s0
      = Inr (True, s2)"
    using s1(1) s2(1) by (simp add: vt)
  moreover have "connect_totals diagonal_secp CMainParams sample_tree quiet_block_env sample_block (bt_arena sample_tree ! 1) s2
      = Inr ((True, s2), (bt_arena sample_tree ! 1)\<lparr> nMoneySupply := 1000000000, nMint := 1000010000 \<rparr>)"
    using s2 sample_steps(14) st
    by (simp add: connect_totals_def quiet_block_env_def CBlockIndex_null_def IsBlockValueValid_def
        GetBlockValue_def COIN_int_def CMainParams_def Let_def word_sless_alt sample_block_def CBlock_null_def)
  ultimately have "ConnectBlock_checks diagonal_secp zero_sph sample_stack CMainParams sample_tree quiet_env quiet_block_env
      sample_block CValidationState_new 1 open_view True
    = Inr ((True, s2), (bt_arena sample_tree ! 1)\<lparr> nMoneySupply := 1000000000, nMint := 1000010000 \<rparr>, False)"
    using sample_steps(10-14) sample_no_majority st vals
    by (simp add: ConnectBlock_checks_def Let_def EnforceBIP30_def)
  moreover have "\<exists>c' T' files'. ConnectBlock_store diagonal_secp [0xb1, 0x3b, 0x2d, 0xf6] (Some sample_pos) sample_tree 1
      ((bt_arena sample_tree ! 1)\<lparr> nMoneySupply := 1000000000, nMint := 1000010000 \<rparr>) s2 (\<lambda>f. [])
    = Some (c', T', files')"
    using st by (simp add: ConnectBlock_store_def Let_def GetUndoPos_def CBlockIndex_null_def CDiskBlockPos_null_def
        CDiskBlockPos_IsNull_def WriteToDisk_def sample_pos_def)
  ultimately show ?thesis using s2(3) unfolding block_connected_def by metis
qed

definition no_zerocoin_db :: "unit zerocoin_db" where
  "no_zerocoin_db = \<lparr> zd_public_serial = (\<lambda>i tx. None), zd_private_serial = (\<lambda>i. 0),
     zd_EraseCoinSpend = (\<lambda>n z. (False, z)), zd_SetMintUnspent = (\<lambda>n z. z), zd_mint_value = (\<lambda>txo. None),
     zd_EraseCoinMint = (\<lambda>n z. (False, z)), zd_EraseAccumulatorValues = (\<lambda>a b z. (False, z)) \<rparr>"

text \<open>C1: Disconnecting undoes connecting.  When \<open>ConnectBlock\<close> has accepted a block on the view of a
  block, written its undo data and moved the view to it, \<open>DisconnectBlock\<close> on that view, reading the
  undo data back from the file, succeeds, reports that everything was clean, and leaves a view that
  denotes exactly the unspent outputs from before with the best block from before.  The block has
  distinct transaction ids, no zerocoins and storable outputs, is not exempt from BIP 30, and spends
  no coinstake transaction completely.\<close>

theorem DisconnectBlock_undoes_ConnectBlock:
  assumes "block_inv ec c" "low_utxo (block_utxo ec c)"
    and "keeps_entry B" "EnforceBIP30 B (bt_arena T ! p)" "block_regular T p block magic pos"
    and "block_connected ec sph (cache_view (db_view ec)) P T E B magic pos files block p c c' T' files' vtxundo"
    and "\<forall>ws \<in> set vtxundo. \<forall>w \<in> set ws. \<not> u_fCoinStake w"
  shows "\<exists>s'. DisconnectBlock ec (cache_view (db_view ec)) Z (bt_arena T') files' fVerifying block p True c' z
      = Inr ((True, True), s')
    \<and> block_inv ec (ds_view s') \<and> block_utxo ec (ds_view s') = block_utxo ec c
    \<and> hashBlock (ds_view s') = block_best c \<and> ds_db s' = z"
proof -
  have ec: "decompresses ec" using assms(1) by (simp add: stack_defs cache_inv_def db_inv_def)
  show ?thesis
    using tip_store.disconnect_connected [OF assms(1,2) [unfolded stack_defs] ec assms(3-7)]
    by (simp add: stack_defs block_best_def)
qed

theorem DisconnectBlock_undoes_ConnectBlock_witness:
  "\<exists>c' T' files' s'. block_connected diagonal_secp zero_sph sample_stack CMainParams sample_tree quiet_env quiet_block_env
       [0xb1, 0x3b, 0x2d, 0xf6] sample_pos (\<lambda>f. []) sample_block 1 open_view c' T' files' [[spent_undo]]
    \<and> DisconnectBlock diagonal_secp sample_stack no_zerocoin_db (bt_arena T') files' False sample_block 1 True c' ()
      = Inr ((True, True), s')
    \<and> block_utxo diagonal_secp (ds_view s') (of_u64 8 7) = Some open_coins"
proof -
  obtain c' T' files' where con: "block_connected diagonal_secp zero_sph sample_stack CMainParams sample_tree quiet_env
      quiet_block_env [0xb1, 0x3b, 0x2d, 0xf6] sample_pos (\<lambda>f. []) sample_block 1 open_view c' T' files' [[spent_undo]]"
    using sample_connected by blast
  have low: "low_utxo (block_utxo diagonal_secp open_view)"
    by (simp add: low_utxo_def block_utxo_def cache_utxo_def open_view_def overlay_def CCoinsViewCache_of_def
        tip_utxo_def empty_tip_def db_utxo_def db_val_def open_coins_def live_Some_iff)
  have B: "keeps_entry quiet_block_env" "EnforceBIP30 quiet_block_env (bt_arena sample_tree ! 1)"
    by (simp_all add: keeps_entry_def quiet_block_env_def EnforceBIP30_def sample_tree_def)
  have storable: "tx_storable sample_coinbase" "tx_storable sample_spend"
    by (simp_all add: tx_storable_def outputs_ok_def sample_coinbase_def sample_spend_def sample_tx_def sample_out_def
        CTxOut_of_def CTxOut_IsNull_def ctxout_ok_def CTransaction_new_def CMutableTransaction_new_def
        CMutableTransaction.defs CURRENT_VERSION_def word_sle_eq)
  have ids: "of_u64 8 1 \<noteq> of_u64 8 2" "of_u64 8 10 \<noteq> bu_zero 8" by code_simp+
  have reg: "block_regular sample_tree 1 sample_block [0xb1, 0x3b, 0x2d, 0xf6] sample_pos"
    using storable sample_kinds ids
    by (simp add: block_regular_def Let_def sample_tree_def sample_block_def CBlockIndex_null_def GetUndoPos_def
        CDiskBlockPos_IsNull_def CDiskBlockPos_null_def sample_pos_def)
      (simp add: sample_coinbase_def sample_spend_def sample_tx_def)
  have "\<forall>ws \<in> set [[spent_undo]]. \<forall>w \<in> set ws. \<not> u_fCoinStake w" by (simp add: spent_undo_def)
  from DisconnectBlock_undoes_ConnectBlock [OF open_view_inv low B reg con this, of no_zerocoin_db False "()"]
  show ?thesis using con open_view_utxo by metis
qed

text \<open>C35: The mark of a coinstake is lost.  When the last output of a coinstake transaction has been
  spent, its undo record carries \<open>fCoinStake\<close>, but \<open>DisconnectBlock\<close> does not copy it: the coins come
  back, reported as clean, as those of an ordinary transaction, and the rule on the maturity of
  coinstakes in \<open>CheckInputs\<close> does not apply to them at any height.\<close>

theorem restore_forgets_coinstake:
  assumes "coins_ok x" "c_nHeight x \<noteq> 0" "fCoinStake x" "\<not> fCoinBase x"
    and "Spend out1 CTxInUndo_new x = (True, y, undo)" "IsPruned y"
  shows "u_fCoinStake undo \<and> restore_step out1 undo y = (Some True, x\<lparr> fCoinStake := False \<rparr>)
    \<and> matured P nSpendHeight (snd (restore_step out1 undo y))"
proof -
  have "tidy y" using Spend_ok [OF assms(5,1)] by simp
  then have "c_vout y = []" using tidy_pruned assms(6) by simp
  then have "u_fCoinStake undo" using Spend_result [OF assms(5)] assms(3) by simp
  moreover have "restore_step out1 undo y = (Some True, x\<lparr> fCoinStake := False \<rparr>)"
    using restore_spent [OF assms(1,5,2) refl \<open>tidy y\<close>] assms(6) by simp
  ultimately show ?thesis using assms(4) by (simp add: matured_def)
qed

theorem restore_forgets_coinstake_witness:
  "matured CMainParams 101 (snd (restore_step \<lparr> op_hash = of_u64 8 7, op_n = 2 \<rparr>
      (CTxInUndo_new\<lparr> u_txout := sample_out 5000000000, u_fCoinStake := True, u_nHeight := 100, u_nVersion := 1 \<rparr>)
      (sample_coins\<lparr> c_vout := [] \<rparr>)))
    \<and> \<not> matured CMainParams 101 sample_coins"
proof -
  have sp: "Spend \<lparr> op_hash = of_u64 8 7, op_n = 2 \<rparr> CTxInUndo_new sample_coins = (True, sample_coins\<lparr> c_vout := [] \<rparr>,
      CTxInUndo_new\<lparr> u_txout := sample_out 5000000000, u_fCoinStake := True, u_nHeight := 100, u_nVersion := 1 \<rparr>)"
    by (simp add: Spend_def sample_coins_def sample_out_def CTxOut_of_def CTxOut_IsNull_def CTxOut_null_def
        CTxOut_SetNull_def Cleanup_def CTxInUndo_of_def CTxInUndo_new_def Let_def)
  have "\<not> matured CMainParams 101 sample_coins" by (simp add: matured_def sample_coins_def CMainParams_def)
  moreover have "c_nHeight sample_coins \<noteq> 0" "fCoinStake sample_coins" "\<not> fCoinBase sample_coins"
    "IsPruned (sample_coins\<lparr> c_vout := [] \<rparr>)"
    by (simp_all add: sample_coins_def IsPruned_def)
  ultimately show ?thesis
    using restore_forgets_coinstake [OF sample_coins_ok _ _ _ sp, of CMainParams 101] by blast
qed

end
