(* ===== verification/CheckQueue.thy ===== *)
theory CheckQueue
  imports Connect "HOL-Library.Multiset"
begin

text \<open>
  The queue on which \<open>ConnectBlock\<close> has its scripts checked by several threads
  (\<open>checkqueue.h\<close>): \<open>CCheckQueue\<close>, its \<open>Loop\<close>, which the workers and the master run, and
  \<open>CCheckQueueControl\<close>.  A critical section, from taking the mutex to releasing it or to waiting on
  a condition variable, is one step; so is one call of a check outside.  The threads
  interleave in any order, and a condition variable may wake a thread without a reason.
  The theorems say what \<open>Wait\<close> returns, that it does return, and that the queue is idle whenever the
  next control object is made.
\<close>

section \<open>The queue and its operations\<close>

record 't CCheckQueue =
  cq_queue :: "'t list"
  cq_nIdle :: int
  cq_nTotal :: int
  cq_fAllOk :: bool
  cq_nTodo :: u32
  cq_fQuit :: bool
  cq_nBatchSize :: u32

definition CCheckQueue_new :: "u32 \<Rightarrow> 't CCheckQueue" where
  "CCheckQueue_new nBatchSizeIn = \<lparr> cq_queue = [], cq_nIdle = 0, cq_nTotal = 0, cq_fAllOk = True,
     cq_nTodo = 0, cq_fQuit = False, cq_nBatchSize = nBatchSizeIn \<rparr>"

definition IsIdle :: "'t CCheckQueue \<Rightarrow> bool" where
  "IsIdle q \<longleftrightarrow> cq_nTotal q = cq_nIdle q \<and> cq_nTodo q = 0 \<and> cq_fAllOk q"

text \<open>Where a thread is in \<open>Loop\<close>, with the locals that live there: about to take the mutex at the
  head of the loop with \<open>nNow\<close> and \<open>fOk\<close>; in \<open>cond.wait\<close>, notified or not; executing its batch;
  or out of it with the result.\<close>

datatype 't thread = Locking u32 bool | Sleeping bool | Running "'t list" u32 bool | Left bool

text \<open>The clean-up of the previous run.  The second component is whether the master is notified.\<close>

definition clean_up :: "bool \<Rightarrow> u32 \<Rightarrow> bool \<Rightarrow> 't CCheckQueue \<Rightarrow> 't CCheckQueue \<times> bool" where
  "clean_up fMaster nNow fOk q =
     (if nNow \<noteq> 0 then
        let q = q\<lparr> cq_fAllOk := cq_fAllOk q \<and> fOk, cq_nTodo := cq_nTodo q - nNow \<rparr>
        in (q, cq_nTodo q = 0 \<and> \<not> fMaster)
      else (q\<lparr> cq_nTotal := cq_nTotal q + 1 \<rparr>, False))"

definition batch_size :: "'t CCheckQueue \<Rightarrow> u32" where
  "batch_size q = max 1 (min (cq_nBatchSize q)
     (of_nat (length (cq_queue q)) div word_of_int (cq_nTotal q + cq_nIdle q + 1)))"

text \<open>From \<open>while (queue.empty())\<close> to the end of the critical section.  The batch is taken from the
  back of the queue.\<close>

definition take_work :: "bool \<Rightarrow> 't CCheckQueue \<Rightarrow> 't thread \<times> 't CCheckQueue" where
  "take_work fMaster q =
     (if cq_queue q = [] then
        if (fMaster \<or> cq_fQuit q) \<and> cq_nTodo q = 0
        then (Left (cq_fAllOk q), q\<lparr> cq_nTotal := cq_nTotal q - 1, cq_fAllOk := cq_fAllOk q \<or> fMaster \<rparr>)
        else (Sleeping False, q\<lparr> cq_nIdle := cq_nIdle q + 1 \<rparr>)
      else let nNow = batch_size q; n = length (cq_queue q) - unat nNow in
        (Running (rev (drop n (cq_queue q))) nNow (cq_fAllOk q), q\<lparr> cq_queue := take n (cq_queue q) \<rparr>))"

text \<open>The next step of a thread: the critical section, the way out of \<open>cond.wait\<close> back into it, one
  check of the batch, the end of the batch.\<close>

fun Loop_step :: "('t \<Rightarrow> bool) \<Rightarrow> bool \<Rightarrow> 't thread \<Rightarrow> 't CCheckQueue \<Rightarrow> 't thread \<times> 't CCheckQueue \<times> bool" where
  "Loop_step check fMaster (Locking nNow fOk) q =
     (case clean_up fMaster nNow fOk q of (q, notify) \<Rightarrow>
        (case take_work fMaster q of (t, q) \<Rightarrow> (t, q, notify)))"
| "Loop_step check fMaster (Sleeping b) q =
     (case take_work fMaster (q\<lparr> cq_nIdle := cq_nIdle q - 1 \<rparr>) of (t, q) \<Rightarrow> (t, q, False))"
| "Loop_step check fMaster (Running (c # cs) nNow fOk) q = (Running cs nNow (if fOk then check c else fOk), q, False)"
| "Loop_step check fMaster (Running [] nNow fOk) q = (Locking nNow fOk, q, False)"
| "Loop_step check fMaster (Left b) q = (Left b, q, False)"

text \<open>\<open>Loop\<close> starts with \<open>nNow = 0\<close> and \<open>fOk = true\<close>.\<close>

definition Loop_start :: "'t thread" where
  "Loop_start = Locking 0 True"

definition notify :: "'t thread \<Rightarrow> 't thread" where
  "notify t = (case t of Sleeping _ \<Rightarrow> Sleeping True | _ \<Rightarrow> t)"

definition Add_checks :: "'t list \<Rightarrow> 't CCheckQueue \<Rightarrow> 't CCheckQueue" where
  "Add_checks vChecks q = q\<lparr> cq_queue := cq_queue q @ vChecks, cq_nTodo := cq_nTodo q + of_nat (length vChecks) \<rparr>"

section \<open>The threads together\<close>

text \<open>The master between control objects, with one that has not waited, in \<open>Wait\<close>, and with its
  result.\<close>

datatype 't master = No_control | Control | Waiting "'t thread" | Waited bool

text \<open>\<open>pool_added\<close> records what was added under the present control object; no step reads it but to
  bound its length, which the size of a block does.\<close>

record 't pool =
  pool_queue :: "'t CCheckQueue"
  pool_workers :: "'t thread list"
  pool_master :: "'t master"
  pool_added :: "'t list"

definition pool_start :: "u32 \<Rightarrow> nat \<Rightarrow> 't pool" where
  "pool_start nBatchSizeIn k = \<lparr> pool_queue = CCheckQueue_new nBatchSizeIn,
     pool_workers = replicate k Loop_start, pool_master = No_control, pool_added = [] \<rparr>"

text \<open>A thread can step unless it sleeps or is out of the loop; woken without a reason
  (\<open>spurious\<close>) it can step from its sleep as well.\<close>

definition runnable :: "bool \<Rightarrow> 't thread \<Rightarrow> bool" where
  "runnable spurious t = (case t of Sleeping b \<Rightarrow> b \<or> spurious | Left _ \<Rightarrow> False | _ \<Rightarrow> True)"

definition notify_master :: "bool \<Rightarrow> 't master \<Rightarrow> 't master" where
  "notify_master n m = (case m of Waiting t \<Rightarrow> Waiting (if n then notify t else t) | _ \<Rightarrow> m)"

text \<open>\<open>notify_one\<close> wakes a waiting worker if there is one; any worker will do.\<close>

inductive notified :: "nat \<Rightarrow> 't thread list \<Rightarrow> 't thread list \<Rightarrow> bool" where
  none: "notified 0 ws ws"
| one: "i < length ws \<Longrightarrow> notified 1 ws (ws[i := notify (ws ! i)])"
| lost: "Sleeping False \<notin> set ws \<Longrightarrow> notified 1 ws ws"
| all: "k > 1 \<Longrightarrow> notified k ws (map notify ws)"

inductive pool_step :: "('t \<Rightarrow> bool) \<Rightarrow> bool \<Rightarrow> 't pool \<Rightarrow> 't pool \<Rightarrow> bool" for check spurious where
  worker: "\<lbrakk> i < length (pool_workers s); runnable spurious (pool_workers s ! i);
      Loop_step check False (pool_workers s ! i) (pool_queue s) = (t, q, n) \<rbrakk>
    \<Longrightarrow> pool_step check spurious s (s\<lparr> pool_queue := q, pool_workers := (pool_workers s)[i := t],
          pool_master := notify_master n (pool_master s) \<rparr>)"
| waiting: "\<lbrakk> pool_master s = Waiting t; runnable spurious t;
      Loop_step check True t (pool_queue s) = (t', q, n) \<rbrakk>
    \<Longrightarrow> pool_step check spurious s (s\<lparr> pool_queue := q,
          pool_master := (case t' of Left b \<Rightarrow> Waited b | _ \<Rightarrow> Waiting t') \<rparr>)"
| control: "\<lbrakk> pool_master s = No_control; IsIdle (pool_queue s) \<rbrakk>
    \<Longrightarrow> pool_step check spurious s (s\<lparr> pool_master := Control, pool_added := [] \<rparr>)"
| add: "\<lbrakk> pool_master s = Control; length (pool_added s) + length vs < 2 ^ 32;
      notified (length vs) (pool_workers s) ws \<rbrakk>
    \<Longrightarrow> pool_step check spurious s (s\<lparr> pool_queue := Add_checks vs (pool_queue s), pool_workers := ws,
          pool_added := pool_added s @ vs \<rparr>)"
| wait: "pool_master s = Control \<Longrightarrow> pool_step check spurious s (s\<lparr> pool_master := Waiting Loop_start \<rparr>)"
| release: "pool_master s = Waited b \<Longrightarrow> pool_step check spurious s (s\<lparr> pool_master := No_control \<rparr>)"

inductive_cases pool_stepE: "pool_step check spurious s s'"
inductive_cases notifiedE: "notified k ws ws'"

inductive reachable :: "('t \<Rightarrow> bool) \<Rightarrow> 't pool \<Rightarrow> bool" for check where
  start: "reachable check (pool_start nBatchSizeIn k)"
| step: "reachable check s \<Longrightarrow> pool_step check True s s' \<Longrightarrow> reachable check s'"

section \<open>What the threads hold\<close>

text \<open>The checks a thread has taken and not accounted for, how it counts in \<open>nTotal\<close> and \<open>nIdle\<close>,
  and whether everything it has taken holds.\<close>

fun pending :: "'t thread \<Rightarrow> nat" where
  "pending (Locking n ok) = unat n"
| "pending (Running vs n ok) = unat n"
| "pending (Sleeping b) = 0"
| "pending (Left b) = 0"

fun counted :: "'t thread \<Rightarrow> bool" where
  "counted (Locking n ok) \<longleftrightarrow> n \<noteq> 0"
| "counted (Left b) \<longleftrightarrow> False"
| "counted t \<longleftrightarrow> True"

fun asleep :: "'t thread \<Rightarrow> bool" where
  "asleep (Sleeping b) \<longleftrightarrow> True"
| "asleep t \<longleftrightarrow> False"

fun clean :: "('t \<Rightarrow> bool) \<Rightarrow> 't thread \<Rightarrow> bool" where
  "clean check (Locking n ok) \<longleftrightarrow> (n \<noteq> 0 \<longrightarrow> ok)"
| "clean check (Running vs n ok) \<longleftrightarrow> ok \<and> (\<forall>c \<in> set vs. check c)"
| "clean check t \<longleftrightarrow> True"

fun thread_ok :: "'t thread \<Rightarrow> bool" where
  "thread_ok (Running vs n ok) \<longleftrightarrow> n \<noteq> 0"
| "thread_ok (Left b) \<longleftrightarrow> False"
| "thread_ok t \<longleftrightarrow> True"

text \<open>What holds of the queue together with the threads \<open>M\<close> when \<open>vs\<close> are the checks that are to be
  answered for.\<close>

definition pool_ok :: "('t \<Rightarrow> bool) \<Rightarrow> 't list \<Rightarrow> 't thread multiset \<Rightarrow> 't CCheckQueue \<Rightarrow> bool" where
  "pool_ok check vs M q \<longleftrightarrow>
     cq_nTodo q = of_nat (length (cq_queue q) + (\<Sum>t\<in>#M. pending t)) \<and>
     length (cq_queue q) + (\<Sum>t\<in>#M. pending t) \<le> length vs \<and> length vs < 2 ^ 32 \<and>
     cq_nTotal q = int (size (filter_mset counted M)) \<and>
     cq_nIdle q = int (size (filter_mset asleep M)) \<and>
     (\<forall>t \<in># M. thread_ok t) \<and> \<not> cq_fQuit q \<and>
     ((\<forall>c \<in> set vs. check c) \<longleftrightarrow>
        cq_fAllOk q \<and> (\<forall>c \<in> set (cq_queue q). check c) \<and> (\<forall>t \<in># M. clean check t))"

section \<open>Every step keeps it\<close>

lemma unat_min_le: "unat (min a b :: u32) \<le> unat b"
  by (simp add: min_def word_le_nat_alt)

lemma unat_max_1_le: "unat (x :: u32) \<le> n \<Longrightarrow> 1 \<le> n \<Longrightarrow> unat (max 1 x) \<le> n"
  by (simp add: max_def)

lemma batch_size_bounds:
  assumes "cq_queue q \<noteq> []"
  shows "batch_size q \<noteq> 0 \<and> unat (batch_size q) \<le> length (cq_queue q)"
proof -
  let ?w = "word_of_int (cq_nTotal q + cq_nIdle q + 1) :: u32"
  let ?m = "min (cq_nBatchSize q) (of_nat (length (cq_queue q)) div ?w)"
  have pos: "1 \<le> length (cq_queue q)" using assms by (cases "cq_queue q") auto
  have "unat ?m \<le> unat (of_nat (length (cq_queue q)) div ?w)" by (rule unat_min_le)
  also have "\<dots> \<le> unat (of_nat (length (cq_queue q)) :: u32)" by (simp only: unat_div div_le_dividend)
  also have "\<dots> \<le> length (cq_queue q)" by simp
  finally have "unat (batch_size q) \<le> length (cq_queue q)"
    unfolding batch_size_def using pos by (rule unat_max_1_le)
  moreover have "1 \<le> batch_size q" unfolding batch_size_def by (rule max.cobounded1)
  then have "batch_size q \<noteq> 0" by (metis word_not_simps(1) word_le_0_iff word_zero_le leD word_less_1 linorder_not_le)
  ultimately show ?thesis by simp
qed

lemma two_power_32: "2 ^ 32 = (4294967296 :: nat)"
  by simp

lemma pool_ok_empty:
  assumes "pool_ok check vs M q" "cq_nTodo q = 0"
  shows "cq_queue q = [] \<and> (\<forall>t \<in># M. pending t = 0)"
proof -
  let ?n = "length (cq_queue q) + (\<Sum>t\<in>#M. pending t)"
  have "?n < 2 ^ 32" "(of_nat ?n :: u32) = 0" using assms by (auto simp: pool_ok_def)
  then have "?n = 0" by (metis mod_less unat_u32_of_nat unsigned_0 two_power_32)
  then show ?thesis by simp
qed

text \<open>The second half of a critical section, entered by a thread that holds nothing: \<open>R\<close> are the
  other threads.\<close>

lemma take_work_ok:
  assumes ok: "pool_ok check vs R (q\<lparr> cq_nTotal := cq_nTotal q - 1 \<rparr>)"
    and tw: "take_work fMaster q = (t, q')"
  shows "(case t of Left b \<Rightarrow> fMaster \<and> (b \<longleftrightarrow> (\<forall>c \<in> set vs. check c)) \<and> pool_ok check [] R q'
      | _ \<Rightarrow> pool_ok check vs (add_mset t R) q' \<and> (t = Sleeping False \<longrightarrow> cq_queue q' = [] \<and> (fMaster \<longrightarrow> cq_nTodo q' \<noteq> 0)))"
proof (cases "cq_queue q = []")
  case True
  show ?thesis
  proof (cases "fMaster \<and> cq_nTodo q = 0")
    case False
    then show ?thesis using ok tw True by (auto simp: take_work_def pool_ok_def split: if_splits)
  next
    case quit: True
    have rest: "\<forall>t \<in># R. pending t = 0" using pool_ok_empty [OF ok] quit by simp
    have "clean check t" if "t \<in># R" for t
    proof -
      have "pending t = 0" "thread_ok t" using rest ok that by (auto simp: pool_ok_def)
      then show ?thesis by (cases t) (auto simp: unat_eq_0)
    qed
    then show ?thesis using ok tw True quit rest
      by (auto simp: take_work_def pool_ok_def split: if_splits)
  qed
next
  case False
  define n where "n = unat (batch_size q)"
  define k where "k = length (cq_queue q) - n"
  have n: "batch_size q \<noteq> 0" "n \<le> length (cq_queue q)" using batch_size_bounds [OF False] by (auto simp: n_def)
  have t: "t = Running (rev (drop k (cq_queue q))) (batch_size q) (cq_fAllOk q)"
    and q': "q' = q\<lparr> cq_queue := take k (cq_queue q) \<rparr>"
    using tw False by (auto simp: take_work_def k_def n_def Let_def)
  have parts: "set (cq_queue q) = set (take k (cq_queue q)) \<union> set (drop k (cq_queue q))"
    by (metis append_take_drop_id set_append)
  have len: "length (cq_queue q) = k + n" using n by (simp add: k_def)
  then have "length (take k (cq_queue q)) = k" by simp
  then show ?thesis using ok n unfolding pool_ok_def t q' thread.simps
    by (simp add: n_def [symmetric] len parts ball_Un del: length_take) blast
qed

lemma clean_up_ok:
  assumes ok: "pool_ok check vs (add_mset (Locking nNow fOk) R) q" and cu: "clean_up fMaster nNow fOk q = (q', n)"
  shows "pool_ok check vs R (q'\<lparr> cq_nTotal := cq_nTotal q' - 1 \<rparr>) \<and> cq_queue q' = cq_queue q
    \<and> (nNow \<noteq> 0 \<longrightarrow> (n \<longleftrightarrow> cq_nTodo q' = 0 \<and> \<not> fMaster)) \<and> (nNow = 0 \<longrightarrow> cq_nTodo q' = cq_nTodo q)"
proof (cases "nNow = 0")
  case True
  then have q': "q' = q\<lparr> cq_nTotal := cq_nTotal q + 1 \<rparr>" "\<not> n" using cu by (auto simp: clean_up_def)
  show ?thesis using ok True by (simp add: pool_ok_def q')
next
  case False
  then have q': "q' = q\<lparr> cq_fAllOk := cq_fAllOk q \<and> fOk, cq_nTodo := cq_nTodo q - nNow \<rparr>"
    "n \<longleftrightarrow> cq_nTodo q - nNow = 0 \<and> \<not> fMaster"
    using cu by (auto simp: clean_up_def Let_def)
  show ?thesis using ok False by (auto simp: pool_ok_def q')
qed

text \<open>A step of one thread, the others being \<open>R\<close>.\<close>

lemma Loop_step_ok:
  assumes ok: "pool_ok check vs (add_mset t R) q" and step: "Loop_step check fMaster t q = (t', q', n)"
  shows "(case t' of Left b \<Rightarrow> fMaster \<and> (b \<longleftrightarrow> (\<forall>c \<in> set vs. check c)) \<and> pool_ok check [] R q'
      | _ \<Rightarrow> pool_ok check vs (add_mset t' R) q' \<and> (t' = Sleeping False \<longrightarrow> cq_queue q' = [] \<and> (fMaster \<longrightarrow> cq_nTodo q' \<noteq> 0)))
    \<and> (cq_queue q = [] \<longrightarrow> cq_queue q' = [])
    \<and> (\<not> fMaster \<longrightarrow> n \<or> cq_nTodo q' = cq_nTodo q \<or> cq_nTodo q' \<noteq> 0)"
proof -
  have kept: "cq_queue q0 = [] \<Longrightarrow> take_work fMaster q0 = (t1, q1) \<Longrightarrow> cq_queue q1 = []"
    "take_work fMaster q0 = (t1, q1) \<Longrightarrow> cq_nTodo q1 = cq_nTodo q0" for q0 t1 q1
    by (auto simp: take_work_def Let_def split: if_splits)
  show ?thesis
  proof (cases t)
    case (Locking nNow fOk)
    obtain q1 where cu: "clean_up fMaster nNow fOk q = (q1, n)" and tw: "take_work fMaster q1 = (t', q')"
      using step Locking by (auto split: prod.splits)
    show ?thesis using take_work_ok [OF conjunct1 [OF clean_up_ok [OF ok [unfolded Locking] cu]] tw]
      clean_up_ok [OF ok [unfolded Locking] cu] kept(1) [OF _ tw] kept(2) [OF tw] by auto
  next
    case (Sleeping b)
    let ?q = "q\<lparr> cq_nIdle := cq_nIdle q - 1 \<rparr>"
    have tw: "take_work fMaster ?q = (t', q')" using step Sleeping by (auto split: prod.splits)
    have "pool_ok check vs R (?q\<lparr> cq_nTotal := cq_nTotal ?q - 1 \<rparr>)"
      using ok Sleeping by (auto simp: pool_ok_def)
    from take_work_ok [OF this tw] kept(1) [OF _ tw] kept(2) [OF tw] show ?thesis by auto
  next
    case (Running cs nNow fOk)
    then show ?thesis using ok step by (cases cs) (auto simp: pool_ok_def split: if_splits)
  next
    case (Left b)
    then show ?thesis using ok by (auto simp: pool_ok_def)
  qed
qed

section \<open>The invariant of the pool\<close>

definition pool_inv :: "('t \<Rightarrow> bool) \<Rightarrow> 't pool \<Rightarrow> bool" where
  "pool_inv check s \<longleftrightarrow>
     (let q = pool_queue s; W = mset (pool_workers s) in
      case pool_master s of
        No_control \<Rightarrow> pool_ok check [] W q
      | Control \<Rightarrow> pool_ok check (pool_added s) W q
      | Waiting t \<Rightarrow> pool_ok check (pool_added s) (add_mset t W) q
          \<and> (t = Sleeping False \<longrightarrow> cq_queue q = [] \<and> cq_nTodo q \<noteq> 0)
      | Waited b \<Rightarrow> pool_ok check [] W q \<and> (b \<longleftrightarrow> (\<forall>c \<in> set (pool_added s). check c)))"

lemma notify_simps [simp]:
  "pending (notify t) = pending t" "counted (notify t) = counted t" "asleep (notify t) = asleep t"
  "clean check (notify t) = clean check t" "thread_ok (notify t) = thread_ok t"
  "notify t \<noteq> Sleeping False"
  by (cases t; simp add: notify_def)+

lemma pool_ok_notify: "pool_ok check vs (add_mset (notify t) R) q = pool_ok check vs (add_mset t R) q"
  by (simp add: pool_ok_def)

lemma pool_ok_notify_all: "pool_ok check vs (image_mset notify M) q = pool_ok check vs M q"
  by (simp add: pool_ok_def filter_mset_image_mset image_mset.compositionality comp_def)

lemma mset_pick: "i < length ws \<Longrightarrow> mset ws = add_mset (ws ! i) (mset ws - {#ws ! i#})"
  by (simp add: nth_mem_mset)

lemma notified_ok:
  assumes "notified k ws ws'"
  shows "pool_ok check vs (mset ws') q = pool_ok check vs (mset ws) q"
  using assms
proof cases
  case (one i)
  then show ?thesis using mset_pick [OF one(3)] pool_ok_notify by (metis mset_update)
next
  case all
  then show ?thesis by (simp add: pool_ok_notify_all)
qed simp_all

lemma Add_checks_ok:
  assumes "pool_ok check vs M q" "length vs + length cs < 2 ^ 32"
  shows "pool_ok check (vs @ cs) M (Add_checks cs q)"
  using assms by (auto simp: pool_ok_def Add_checks_def)

lemma pool_ok_new_thread:
  "pool_ok check vs M q \<Longrightarrow> pool_ok check vs (add_mset Loop_start M) q"
  by (auto simp: pool_ok_def Loop_start_def)

lemma pool_ok_idle:
  assumes "pool_ok check [] M q"
  shows "IsIdle q \<and> cq_queue q = []"
proof -
  have none: "length (cq_queue q) + (\<Sum>t\<in>#M. pending t) = 0" using assms by (simp add: pool_ok_def)
  then have "cq_nTodo q = of_nat 0" using assms unfolding pool_ok_def by metis
  then have all: "cq_queue q = []" "cq_nTodo q = 0" "\<forall>t \<in># M. pending t = 0" "\<forall>t \<in># M. thread_ok t"
    using none assms by (auto simp: pool_ok_def)
  have "counted t = asleep t" if "t \<in># M" for t
  proof -
    have "pending t = 0" "thread_ok t" using all that by auto
    then show ?thesis by (cases t) (auto simp: unat_eq_0)
  qed
  then have "filter_mset counted M = filter_mset asleep M" by (intro filter_mset_cong) auto
  then show ?thesis using assms all by (simp add: pool_ok_def IsIdle_def)
qed

lemma worker_ok:
  assumes ok: "pool_ok check vs (mset ws + N) q" and i: "i < length ws"
    and step: "Loop_step check False (ws ! i) q = (t, q', n)"
  shows "pool_ok check vs (mset (ws[i := t]) + N) q' \<and> (cq_queue q = [] \<longrightarrow> cq_queue q' = [])
    \<and> (n \<or> cq_nTodo q' = cq_nTodo q \<or> cq_nTodo q' \<noteq> 0)"
proof -
  let ?R = "mset ws - {#ws ! i#} + N"
  have "mset ws + N = add_mset (ws ! i) ?R" using mset_pick [OF i] by (metis union_mset_add_mset_left)
  then have ok': "pool_ok check vs (add_mset (ws ! i) ?R) q" using ok by (metis \<open>mset ws + N = add_mset (ws ! i) ?R\<close>)
  have "mset (ws[i := t]) + N = add_mset t ?R" using i by (simp add: mset_update)
  then show ?thesis using Loop_step_ok [OF ok' step] by (cases t) auto
qed

lemma pool_inv_start: "pool_inv check (pool_start nBatchSizeIn k)"
proof -
  have "pool_ok check [] (mset (replicate k Loop_start)) (CCheckQueue_new nBatchSizeIn :: 'a CCheckQueue)"
    by (induction k) (auto simp: pool_ok_new_thread, simp add: pool_ok_def CCheckQueue_new_def)
  then show ?thesis by (simp add: pool_inv_def pool_start_def)
qed

lemma pool_inv_worker:
  assumes inv: "pool_inv check s" and i: "i < length (pool_workers s)"
    and step: "Loop_step check False (pool_workers s ! i) (pool_queue s) = (t, q, n)"
  shows "pool_inv check (s\<lparr> pool_queue := q, pool_workers := (pool_workers s)[i := t],
    pool_master := notify_master n (pool_master s) \<rparr>)"
proof (cases "pool_master s")
  case (Waiting tm)
  have ok: "pool_ok check (pool_added s) (mset (pool_workers s) + {#tm#}) (pool_queue s)"
    and tm: "tm = Sleeping False \<longrightarrow> cq_queue (pool_queue s) = [] \<and> cq_nTodo (pool_queue s) \<noteq> 0"
    using inv by (simp_all add: pool_inv_def Let_def Waiting)
  show ?thesis using worker_ok [OF ok i step] tm
    by (auto simp: pool_inv_def Waiting notify_master_def pool_ok_notify)
next
  case No_control
  then show ?thesis using inv worker_ok [of check "[]" "pool_workers s" "{#}", OF _ i step]
    by (simp add: pool_inv_def notify_master_def)
next
  case Control
  then show ?thesis using inv worker_ok [of check "pool_added s" "pool_workers s" "{#}", OF _ i step]
    by (simp add: pool_inv_def notify_master_def)
next
  case (Waited b)
  then show ?thesis using inv worker_ok [of check "[]" "pool_workers s" "{#}", OF _ i step]
    by (simp add: pool_inv_def notify_master_def)
qed

lemma pool_inv_step:
  assumes inv: "pool_inv check s" and step: "pool_step check spurious s s'"
  shows "pool_inv check s'"
  using step
proof cases
  case (worker i t q n)
  then show ?thesis using pool_inv_worker [OF inv] by simp
next
  case (waiting t t' q n)
  have ok: "pool_ok check (pool_added s) (add_mset t (mset (pool_workers s))) (pool_queue s)"
    using inv by (simp add: pool_inv_def Let_def waiting)
  show ?thesis using Loop_step_ok [OF ok waiting(4)]
    by (cases t') (auto simp: pool_inv_def waiting(1))
next
  case control
  then show ?thesis using inv by (simp add: pool_inv_def)
next
  case (add vs ws)
  then show ?thesis using inv Add_checks_ok [of check "pool_added s" _ "pool_queue s" vs] notified_ok [OF add(4)]
    by (simp add: pool_inv_def)
next
  case wait
  then show ?thesis using inv pool_ok_new_thread by (auto simp: pool_inv_def Loop_start_def)
next
  case (release b)
  then show ?thesis using inv by (simp add: pool_inv_def)
qed

lemma pool_inv_reachable: "reachable check s \<Longrightarrow> pool_inv check s"
  by (induction rule: reachable.induct) (auto intro: pool_inv_start pool_inv_step)

section \<open>Wait returns\<close>

text \<open>Every run of \<open>r\<close> from the state reaches \<open>P\<close>, and none gets stuck before.\<close>

inductive inevitable :: "('s \<Rightarrow> 's \<Rightarrow> bool) \<Rightarrow> ('s \<Rightarrow> bool) \<Rightarrow> 's \<Rightarrow> bool" for r P where
  now: "P s \<Longrightarrow> inevitable r P s"
| later: "\<lbrakk> r s s'; \<forall>s'. r s s' \<longrightarrow> inevitable r P s' \<rbrakk> \<Longrightarrow> inevitable r P s"

lemma inevitable_measure:
  assumes "I s"
    and "\<And>s. I s \<Longrightarrow> \<not> P s \<Longrightarrow> \<exists>s'. r s s'"
    and "\<And>s s'. I s \<Longrightarrow> \<not> P s \<Longrightarrow> r s s' \<Longrightarrow> I s' \<and> (m s' :: nat) < m s"
  shows "inevitable r P s"
  using assms(1)
proof (induction "m s" arbitrary: s rule: less_induct)
  case less
  show ?case
  proof (cases "P s")
    case False
    obtain s' where "r s s'" using assms(2) [OF less.prems False] by blast
    moreover have "\<forall>s'. r s s' \<longrightarrow> inevitable r P s'" using assms(3) [OF less.prems False] less.hyps by blast
    ultimately show ?thesis by (rule inevitable.later)
  qed (rule inevitable.now)
qed

text \<open>What is left to do: an element of the queue costs more than one in a batch, a batch more than
  the way back to the mutex, and that more than a notification.\<close>

fun work :: "'t thread \<Rightarrow> nat" where
  "work (Locking n ok) = 3"
| "work (Sleeping b) = (if b then 1 else 0)"
| "work (Running vs n ok) = 4 + 5 * length vs"
| "work (Left b) = 0"

definition pool_work :: "'t pool \<Rightarrow> nat" where
  "pool_work s = 10 * length (cq_queue (pool_queue s)) + (\<Sum>t\<leftarrow>pool_workers s. work t)
     + (case pool_master s of Waiting t \<Rightarrow> 1 + work t | _ \<Rightarrow> 0)"

lemma work_notify: "work (notify t) \<le> work t + 1"
  by (cases t) (auto simp: notify_def)

lemma take_work_decreases:
  assumes "take_work fMaster q = (t, q')"
  shows "10 * length (cq_queue q') + work t = 10 * length (cq_queue q) \<and> cq_queue q = []
    \<or> 10 * length (cq_queue q') + work t < 10 * length (cq_queue q)"
proof (cases "cq_queue q = []")
  case True
  then show ?thesis using assms by (auto simp: take_work_def split: if_splits)
next
  case False
  have "unat (batch_size q) \<noteq> 0" "unat (batch_size q) \<le> length (cq_queue q)"
    using batch_size_bounds [OF False] by (auto simp: unat_eq_0)
  then show ?thesis using assms False by (auto simp: take_work_def Let_def)
qed

lemma Loop_step_decreases:
  assumes "Loop_step check fMaster t q = (t', q', n)" "runnable False t"
  shows "10 * length (cq_queue q') + work t' + (if n then 1 else 0) < 10 * length (cq_queue q) + work t"
proof (cases t)
  case (Locking nNow fOk)
  obtain q1 where cu: "clean_up fMaster nNow fOk q = (q1, n)" and tw: "take_work fMaster q1 = (t', q')"
    using assms(1) Locking by (auto split: prod.splits)
  have "cq_queue q1 = cq_queue q" using cu by (auto simp: clean_up_def Let_def split: if_splits)
  then show ?thesis using take_work_decreases [OF tw] Locking by auto
next
  case (Sleeping b)
  have tw: "take_work fMaster (q\<lparr> cq_nIdle := cq_nIdle q - 1 \<rparr>) = (t', q')" and "\<not> n"
    using assms(1) Sleeping by (auto split: prod.splits)
  then show ?thesis using take_work_decreases [OF tw] assms(2) Sleeping by (auto simp: runnable_def)
next
  case (Running cs nNow fOk)
  then show ?thesis using assms(1) by (cases cs) auto
next
  case (Left b)
  then show ?thesis using assms(2) by (simp add: runnable_def)
qed

lemma sum_work_update:
  "i < length ws \<Longrightarrow> (\<Sum>t\<leftarrow>ws[i := t']. work t) + work (ws ! i) = (\<Sum>t\<leftarrow>ws. work t) + work t'"
proof (induction ws arbitrary: i)
  case (Cons a ws)
  then show ?case by (cases i) auto
qed simp

lemma pool_work_decreases:
  assumes "pool_step check False s s'" "pool_master s = Waiting tm"
  shows "pool_work s' < pool_work s \<and> pool_added s' = pool_added s
    \<and> ((\<exists>t. pool_master s' = Waiting t) \<or> (\<exists>b. pool_master s' = Waited b))"
  using assms(1)
proof cases
  case (worker i t q n)
  have "work (if n then notify tm else tm) \<le> work tm + (if n then 1 else 0)" using work_notify [of tm] by simp
  then show ?thesis using Loop_step_decreases [OF worker(4,3)] sum_work_update [OF worker(2), of t] assms(2) worker(1)
    by (simp add: pool_work_def notify_master_def)
next
  case (waiting t t' q n)
  then show ?thesis using Loop_step_decreases [OF waiting(4,3)] assms(2)
    by (cases t') (auto simp: pool_work_def)
qed (use assms(2) in simp_all)

lemma pool_progress:
  assumes inv: "pool_inv check s" and m: "pool_master s = Waiting t"
  shows "\<exists>s'. pool_step check False s s'"
proof (cases "runnable False t")
  case True
  then show ?thesis using pool_step.waiting [OF m True] by (metis prod_cases3)
next
  case False
  let ?M = "mset (pool_workers s)"
  have ok: "pool_ok check (pool_added s) (add_mset t ?M) (pool_queue s)"
    and t: "t = Sleeping False \<longrightarrow> cq_queue (pool_queue s) = [] \<and> cq_nTodo (pool_queue s) \<noteq> 0"
    using inv m by (simp_all add: pool_inv_def Let_def)
  have "t = Sleeping False" using False ok by (cases t) (auto simp: runnable_def pool_ok_def)
  then have e: "cq_queue (pool_queue s) = []" "cq_nTodo (pool_queue s) \<noteq> 0" "pending t = 0" using t by auto
  have "cq_nTodo (pool_queue s) = of_nat (length (cq_queue (pool_queue s))
      + (pending t + (\<Sum>t\<in>#?M. pending t)))" using ok by (simp add: pool_ok_def)
  then have todo: "cq_nTodo (pool_queue s) = of_nat (\<Sum>t\<in>#?M. pending t)" using e(1,3) by simp
  have "(\<Sum>t\<in>#?M. pending t) \<noteq> 0"
  proof
    assume none: "(\<Sum>t\<in>#?M. pending t) = 0"
    show False using todo [unfolded none] e(2) by simp
  qed
  then obtain w where "w \<in> set (pool_workers s)" "pending w \<noteq> 0" by auto
  then obtain i where i: "i < length (pool_workers s)" "pending (pool_workers s ! i) \<noteq> 0"
    by (metis in_set_conv_nth)
  then have "runnable False (pool_workers s ! i)" by (cases "pool_workers s ! i") (auto simp: runnable_def)
  then show ?thesis using pool_step.worker [OF i(1)] by (meson prod_cases3)
qed

lemma pool_inv_Waited:
  "pool_inv check s \<Longrightarrow> pool_master s = Waited b \<Longrightarrow> b = (\<forall>c \<in> set (pool_added s). check c)"
  by (simp add: pool_inv_def Let_def)

section \<open>The contract of the queue\<close>

text \<open>C5: What \<open>Wait\<close> returns.  In every interleaving of the master with any number of workers,
  spurious wake-ups included, the result of \<open>Wait\<close> is whether every check that was added under the
  present control object holds, although threads skip checks once one has failed.\<close>

theorem Wait_tells_whether_all_hold:
  assumes "reachable check s" "pool_master s = Waited b"
  shows "b \<longleftrightarrow> (\<forall>c \<in> set (pool_added s). check c)"
  using pool_inv_Waited [OF pool_inv_reachable [OF assms(1)] assms(2)] .

text \<open>C4: \<open>Wait\<close> returns.  Once the master is in \<open>Wait\<close>, every run without spurious wake-ups comes to
  its return with the right result, whichever thread the scheduler picks at each step; no wake-up
  that the master needs is lost, and there is no deadlock, with workers or without.\<close>

theorem Wait_returns:
  assumes "reachable check s" "pool_master s = Waiting t"
  shows "inevitable (pool_step check False)
    (\<lambda>s'. pool_master s' = Waited (\<forall>c \<in> set (pool_added s). check c)) s"
proof (rule inevitable_measure [where m = pool_work and I = "\<lambda>s'. pool_inv check s'
      \<and> pool_added s' = pool_added s \<and> ((\<exists>t. pool_master s' = Waiting t) \<or> (\<exists>b. pool_master s' = Waited b))"])
  show "pool_inv check s \<and> pool_added s = pool_added s
    \<and> ((\<exists>t. pool_master s = Waiting t) \<or> (\<exists>b. pool_master s = Waited b))"
    using assms pool_inv_reachable by blast
next
  fix s'
  assume I: "pool_inv check s' \<and> pool_added s' = pool_added s
      \<and> ((\<exists>t. pool_master s' = Waiting t) \<or> (\<exists>b. pool_master s' = Waited b))"
    and "pool_master s' \<noteq> Waited (\<forall>c \<in> set (pool_added s). check c)"
  then obtain t where t: "pool_master s' = Waiting t" using pool_inv_Waited [of check s'] by auto
  show "\<exists>s''. pool_step check False s' s''" using pool_progress t I by blast
  show "(pool_inv check s'' \<and> pool_added s'' = pool_added s
      \<and> ((\<exists>t. pool_master s'' = Waiting t) \<or> (\<exists>b. pool_master s'' = Waited b))) \<and> pool_work s'' < pool_work s'"
    if "pool_step check False s' s''" for s''
    using pool_work_decreases [OF that t] pool_inv_step [OF _ that] I by simp
qed


section \<open>A run\<close>

text \<open>The master alone, one step at a time.\<close>

definition master_step :: "('t \<Rightarrow> bool) \<Rightarrow> 't pool \<Rightarrow> 't pool" where
  "master_step check s =
     (case pool_master s of
        Waiting t \<Rightarrow>
          (case Loop_step check True t (pool_queue s) of (t', q, n) \<Rightarrow>
             if runnable True t
             then s\<lparr> pool_queue := q, pool_master := (case t' of Left b \<Rightarrow> Waited b | _ \<Rightarrow> Waiting t') \<rparr> else s)
      | _ \<Rightarrow> s)"

lemma reachable_master_step: "reachable check s \<Longrightarrow> reachable check (master_step check s)"
  by (auto simp: master_step_def split: master.splits prod.splits dest: pool_step.waiting reachable.step)

text \<open>Two checks, one of which fails, with a worker that does not get the mutex.\<close>

definition sample_pool :: "bool pool" where
  "sample_pool = (pool_start 128 1)\<lparr> pool_master := Waiting Loop_start,
     pool_queue := Add_checks [True, False] (CCheckQueue_new 128), pool_added := [True, False] \<rparr>"

definition sample_check :: "bool \<Rightarrow> bool" where
  "sample_check b = b"

lemma sample_pool_reachable: "reachable sample_check sample_pool"
proof -
  let ?s = "pool_start 128 1 :: bool pool"
  have 1: "reachable sample_check (?s\<lparr> pool_master := Control, pool_added := [] \<rparr>)"
    by (rule reachable.step [OF reachable.start pool_step.control])
      (simp_all add: pool_start_def CCheckQueue_new_def IsIdle_def)
  have n: "notified (length [True, False]) (pool_workers ?s) (pool_workers ?s)"
    using notified.all [of 2 "[Loop_start :: bool thread]"]
    by (simp add: pool_start_def Loop_start_def notify_def numeral_2_eq_2)
  have 2: "reachable sample_check (?s\<lparr> pool_master := Control, pool_added := [True, False],
      pool_queue := Add_checks [True, False] (CCheckQueue_new 128) \<rparr>)"
    using reachable.step [OF 1 pool_step.add [where vs = "[True, False]" and ws = "pool_workers ?s"]] n
    by (simp add: pool_start_def)
  show ?thesis
    using reachable.step [OF 2 pool_step.wait] by (simp add: sample_pool_def pool_start_def)
qed

lemma sample_run: "pool_master ((master_step sample_check ^^ 7) sample_pool) = Waited False
    \<and> pool_added ((master_step sample_check ^^ 7) sample_pool) = [True, False]"
  by (simp add: eval_nat_numeral master_step_def sample_pool_def sample_check_def pool_start_def Loop_start_def
    Add_checks_def CCheckQueue_new_def runnable_def clean_up_def take_work_def batch_size_def Let_def)

lemma sample_run_reachable: "reachable sample_check ((master_step sample_check ^^ k) sample_pool)"
  by (induction k) (simp_all add: sample_pool_reachable reachable_master_step)

theorem Wait_tells_whether_all_hold_witness:
  "\<exists>s :: bool pool. reachable sample_check s \<and> pool_master s = Waited False \<and> \<not> (\<forall>c \<in> set (pool_added s). sample_check c)"
  using Wait_tells_whether_all_hold [OF sample_run_reachable conjunct1 [OF sample_run]]
    sample_run sample_run_reachable by blast

theorem Wait_returns_witness:
  "inevitable (pool_step sample_check False) (\<lambda>s'. pool_master s' = Waited False) sample_pool"
proof -
  have "pool_master sample_pool = Waiting Loop_start" "pool_added sample_pool = [True, False]"
    by (simp_all add: sample_pool_def)
  from Wait_returns [OF sample_pool_reachable this(1)] this(2) show ?thesis by (simp add: sample_check_def)
qed


section \<open>The queue and ConnectBlock\<close>

definition script_holds :: "('p, 's, 'r) secp \<Rightarrow> CScriptCheck \<Rightarrow> bool" where
  "script_holds ec k = (case CScriptCheck_run ec k of Inl e \<Rightarrow> False | Inr (ok, _) \<Rightarrow> ok)"

lemma control_Wait_iff: "control_Wait ec ks = Inr b \<Longrightarrow> b \<longleftrightarrow> (\<forall>k \<in> set ks. script_holds ec k)"
proof (induction ks arbitrary: b)
  case (Cons k ks)
  then show ?case
    by (cases "CScriptCheck_run ec k"; cases "control_Wait ec ks") (auto simp: script_holds_def)
qed simp

text \<open>What the model of \<open>ConnectBlock\<close> computes for \<open>control.Wait()\<close> is what the queue returns in
  every interleaving, unless a script check fails an assertion.\<close>

lemma pool_computes_control_Wait:
  assumes "reachable (script_holds ec) s" "pool_master s = Waited b" "control_Wait ec (pool_added s) = Inr b'"
  shows "b = b'"
  using pool_inv_reachable [OF assms(1)] assms(2) control_Wait_iff [OF assms(3)]
  by (simp add: pool_inv_def Let_def)

end
