(* ===== verification/Standard.thy ===== *)
theory Standard
  imports Validation
begin

unbundle bit_operations_syntax

text \<open>
  Standard scripts and transactions (\<open>script/standard.h\<close>, \<open>script/standard.cpp\<close>, and
  \<open>IsStandardTx\<close> and \<open>AreInputsStandard\<close> of \<open>main.cpp\<close>): the templates of \<open>Solver\<close>, the
  destinations of a script and the scripts for a destination, and what a node relays.
  A constructor of a vector whose range ends before it begins throws; \<open>Solver\<close> returns \<open>None\<close> then.
  The theorems show that \<open>Solver\<close> and \<open>ExtractDestination\<close> read back the scripts the node builds.
\<close>

section \<open>Types\<close>

datatype txnouttype = TX_NONSTANDARD | TX_PUBKEY | TX_PUBKEYHASH | TX_SCRIPTHASH | TX_MULTISIG
  | TX_NULL_DATA | TX_ZEROCOINMINT

text \<open>\<open>CKeyID\<close> and \<open>CScriptID\<close> hold the 20 bytes of a \<open>uint160\<close>.\<close>

datatype CTxDestination = CNoDestination | CKeyID bytes | CScriptID bytes

definition CScriptID_of :: "bytes \<Rightarrow> bytes" where
  "CScriptID_of script = Hash160_bytes script"

fun GetTxnOutputType :: "txnouttype \<Rightarrow> string" where
  "GetTxnOutputType TX_NONSTANDARD = ''nonstandard''"
| "GetTxnOutputType TX_PUBKEY = ''pubkey''"
| "GetTxnOutputType TX_PUBKEYHASH = ''pubkeyhash''"
| "GetTxnOutputType TX_SCRIPTHASH = ''scripthash''"
| "GetTxnOutputType TX_MULTISIG = ''multisig''"
| "GetTxnOutputType TX_NULL_DATA = ''nulldata''"
| "GetTxnOutputType TX_ZEROCOINMINT = ''zerocoinmint''"

section \<open>Solver\<close>

text \<open>The templates, in the order of their types.\<close>

definition template_pubkey :: bytes where
  "template_pubkey = [OP_PUBKEY, OP_CHECKSIG]"

definition template_pubkeyhash :: bytes where
  "template_pubkeyhash = [OP_DUP, OP_HASH160, OP_PUBKEYHASH, OP_EQUALVERIFY, OP_CHECKSIG]"

definition template_multisig :: bytes where
  "template_multisig = [OP_SMALLINTEGER, OP_PUBKEYS, OP_SMALLINTEGER, OP_CHECKMULTISIG]"

text \<open>The inner loop for \<open>OP_PUBKEYS\<close>; it leaves the instruction at which it stops.\<close>

function take_keys :: "getop \<Rightarrow> bytes list \<Rightarrow> getop \<times> bytes list" where
  "take_keys g sols =
     (if length (go_data g) \<ge> 33 \<and> length (go_data g) \<le> 65 then
        let g1 = GetOp2 (go_pc g); sols = sols @ [go_data g] in
        if \<not> go_ok g1 then (g1, sols) else take_keys g1 sols
      else (g, sols))"
  by auto
termination
  by (relation "measure (\<lambda>(g, s). length (go_pc g))") (auto dest: GetOp2_ok_nonempty)

declare take_keys.simps [simp del]

text \<open>One template against a script, from the two iterators; \<open>None\<close> is a mismatch.\<close>

definition op_compare :: "getop \<Rightarrow> getop \<Rightarrow> bytes list \<Rightarrow> bytes list option" where
  "op_compare g1 g2 sols =
     (let opcode1 = go_opcode g1; opcode2 = go_opcode g2; vch1 = go_data g1 in
      if opcode2 = OP_PUBKEY then
        if length vch1 < 33 \<or> length vch1 > 65 then None else Some (sols @ [vch1])
      else if opcode2 = OP_PUBKEYHASH then
        if length vch1 \<noteq> 20 then None else Some (sols @ [vch1])
      else if opcode2 = OP_SMALLINTEGER then
        if opcode1 = OP_0 \<or> (OP_1 \<le> opcode1 \<and> opcode1 \<le> OP_16)
        then map_option (\<lambda>n. sols @ [[of_int n]]) (DecodeOP_N opcode1) else None
      else if opcode1 \<noteq> opcode2 \<or> vch1 \<noteq> go_data g2 then None
      else Some sols)"

function match_template :: "bytes \<Rightarrow> bytes \<Rightarrow> bytes list \<Rightarrow> bytes list option" where
  "match_template pc1 pc2 sols =
     (if pc1 = [] \<and> pc2 = [] then Some sols
      else let g1 = GetOp2 pc1; g2 = GetOp2 pc2 in
        if \<not> go_ok g1 then None
        else if \<not> go_ok g2 then None
        else let (g1, sols) = (if go_opcode g2 = OP_PUBKEYS then take_keys g1 sols else (g1, sols));
                 g2' = (if go_opcode g2 = OP_PUBKEYS then GetOp2 (go_pc g2) else g2) in
          if \<not> go_ok g2' then None
          else (case op_compare g1 g2' sols of
              None \<Rightarrow> None
            | Some sols \<Rightarrow> match_template (go_pc g1) (go_pc g2') sols))"
  by auto
termination
proof (relation "measure (\<lambda>(p, q, s). length q)", goal_cases)
  case (2 pc1 pc2 sols g1 g2 p g1' sols' g2' sols'')
  then have "pc2 \<noteq> []" by (auto dest: GetOp2_ok_nonempty)
  then have "length (go_pc g2) < length pc2" using 2 by simp
  moreover have "length (go_pc g2') \<le> length (go_pc g2)"
    using 2 GetOp2_ok_nonempty GetOp2_shrinks [of "go_pc g2"] by (auto intro: less_imp_le)
  ultimately show ?case by simp
qed simp

declare match_template.simps [simp del]

text \<open>The further condition on a multisignature script.\<close>

definition multisig_ok :: "bytes list \<Rightarrow> bool" where
  "multisig_ok sols \<longleftrightarrow>
     (let m = hd (hd sols); n = hd (last sols) in
      \<not> (m < 1 \<or> n < 1 \<or> m > n \<or> length sols - 2 \<noteq> unat n))"

text \<open>The result, the type and the solutions.\<close>

definition Solver :: "bytes \<Rightarrow> (bool \<times> txnouttype \<times> bytes list) option" where
  "Solver s =
     (if IsPayToScriptHash s then Some (True, TX_SCRIPTHASH, [take 20 (drop 2 s)])
      else if IsZerocoinMint s then
        if length s > 150 then Some (False, TX_ZEROCOINMINT, [])
        else if length s < 2 then None
        else Some (True, TX_ZEROCOINMINT, [drop 2 s])
      else if length s \<ge> 1 \<and> s ! 0 = OP_RETURN \<and> IsPushOnly (drop 1 s) then Some (True, TX_NULL_DATA, [])
      else (case match_template s template_pubkey [] of
          Some sols \<Rightarrow> Some (True, TX_PUBKEY, sols)
        | None \<Rightarrow> (case match_template s template_pubkeyhash [] of
            Some sols \<Rightarrow> Some (True, TX_PUBKEYHASH, sols)
          | None \<Rightarrow> (case match_template s template_multisig [] of
              Some sols \<Rightarrow> Some (multisig_ok sols, TX_MULTISIG, sols)
            | None \<Rightarrow> Some (False, TX_NONSTANDARD, [])))))"

definition ScriptSigArgsExpected :: "txnouttype \<Rightarrow> bytes list \<Rightarrow> int" where
  "ScriptSigArgsExpected t vSolutions =
     (case t of
        TX_PUBKEY \<Rightarrow> 1
      | TX_PUBKEYHASH \<Rightarrow> 2
      | TX_MULTISIG \<Rightarrow> if length vSolutions < 1 \<or> length (hd vSolutions) < 1 then - 1
          else uint (hd (hd vSolutions)) + 1
      | TX_SCRIPTHASH \<Rightarrow> 1
      | _ \<Rightarrow> - 1)"

section \<open>Standard outputs and destinations\<close>

definition MAX_OP_RETURN_RELAY :: nat where "MAX_OP_RETURN_RELAY = 83"

text \<open>The options of the node that the policy reads: \<open>-datacarrier\<close>, \<open>nMaxDatacarrierBytes\<close>,
  \<open>fIsBareMultisigStd\<close> and \<open>minRelayTxFee\<close>.\<close>

record policy =
  po_datacarrier :: bool
  po_nMaxDatacarrierBytes :: nat
  po_fIsBareMultisigStd :: bool
  po_minRelayTxFee :: CFeeRate

text \<open>The result with \<open>whichType\<close>.\<close>

definition IsStandard :: "policy \<Rightarrow> bytes \<Rightarrow> (bool \<times> txnouttype) option" where
  "IsStandard pol s =
     (case Solver s of
        None \<Rightarrow> None
      | Some (False, t, sols) \<Rightarrow> Some (False, t)
      | Some (True, t, sols) \<Rightarrow>
          let m = hd (hd sols); n = hd (last sols) in
          Some (if t = TX_MULTISIG then \<not> (n < 1 \<or> n > 3) \<and> \<not> (m < 1 \<or> m > n)
                else if t = TX_NULL_DATA \<and> (\<not> po_datacarrier pol \<or> length s > po_nMaxDatacarrierBytes pol) then False
                else t \<noteq> TX_NONSTANDARD, t))"

definition ExtractDestination :: "bytes \<Rightarrow> CTxDestination option option" where
  "ExtractDestination s =
     (case Solver s of
        None \<Rightarrow> None
      | Some (False, t, sols) \<Rightarrow> Some None
      | Some (True, t, sols) \<Rightarrow>
          Some (if t = TX_PUBKEY then
              (let pubKey = CPubKey_of (hd sols) in
               if \<not> CPubKey_IsValid pubKey then None else Some (CKeyID (GetID pubKey)))
            else if t = TX_PUBKEYHASH then Some (CKeyID (hd sols))
            else if t = TX_SCRIPTHASH then Some (CScriptID (hd sols))
            else None))"

text \<open>The result, \<open>typeRet\<close>, \<open>addressRet\<close> and \<open>nRequiredRet\<close>, which keeps its value on some paths.\<close>

definition ExtractDestinations ::
  "bytes \<Rightarrow> int \<Rightarrow> (bool \<times> txnouttype \<times> CTxDestination list \<times> int) option" where
  "ExtractDestinations s nRequiredRet =
     (case Solver s of
        None \<Rightarrow> None
      | Some (False, t, sols) \<Rightarrow> Some (False, t, [], nRequiredRet)
      | Some (True, t, sols) \<Rightarrow>
          if t = TX_NULL_DATA then Some (False, t, [], nRequiredRet)
          else if t = TX_MULTISIG then
            (let keys = filter CPubKey_IsValid (map CPubKey_of (butlast (tl sols)));
                 addressRet = map (\<lambda>k. CKeyID (GetID k)) keys
             in Some (addressRet \<noteq> [], t, addressRet, uint (hd (hd sols))))
          else (case ExtractDestination s of
              None \<Rightarrow> None
            | Some None \<Rightarrow> Some (False, t, [], 1)
            | Some (Some address) \<Rightarrow> Some (True, t, [address], 1)))"

fun GetScriptForDestination :: "CTxDestination \<Rightarrow> bytes" where
  "GetScriptForDestination CNoDestination = []"
| "GetScriptForDestination (CKeyID keyID) =
     push_opcode (push_opcode (push_bytes (push_opcode (push_opcode [] OP_DUP) OP_HASH160) keyID) OP_EQUALVERIFY) OP_CHECKSIG"
| "GetScriptForDestination (CScriptID scriptID) =
     push_opcode (push_bytes (push_opcode [] OP_HASH160) scriptID) OP_EQUAL"

text \<open>\<open>None\<close> is a failed assertion of \<open>EncodeOP_N\<close>.\<close>

definition GetScriptForMultisig :: "int \<Rightarrow> CPubKey list \<Rightarrow> bytes option" where
  "GetScriptForMultisig nRequired keys =
     (case (EncodeOP_N nRequired, EncodeOP_N (int (length keys))) of
        (Some m, Some n) \<Rightarrow>
          Some (push_opcode (push_opcode (foldl (\<lambda>s k. push_bytes s (Raw k)) (push_opcode [] m) keys) n) OP_CHECKMULTISIG)
      | _ \<Rightarrow> None)"

section \<open>Standard transactions\<close>

definition MAX_STANDARD_TX_SIZE :: nat where "MAX_STANDARD_TX_SIZE = 100000"
definition MAX_P2SH_SIGOPS :: nat where "MAX_P2SH_SIGOPS = 15"

definition check_standard_input :: "CTxIn \<Rightarrow> string option" where
  "check_standard_input i =
     (if CTxIn_IsZerocoinSpend i \<or> CTxIn_IsZerocoinPublicSpend i then None
      else if length (scriptSig i) > 1650 then Some ''scriptsig-size''
      else if \<not> IsPushOnly (scriptSig i) then Some ''scriptsig-not-pushonly''
      else None)"

text \<open>The outputs: the reason of the first that is not standard, or the count of data outputs;
  the outer \<open>None\<close> is the exception of \<open>Solver\<close>.\<close>

fun check_standard_outputs :: "policy \<Rightarrow> CTxOut list \<Rightarrow> nat \<Rightarrow> (string + nat) option" where
  "check_standard_outputs pol [] nDataOut = Some (Inr nDataOut)"
| "check_standard_outputs pol (txo # os) nDataOut =
     (case IsStandard pol (scriptPubKey txo) of
        None \<Rightarrow> None
      | Some (False, t) \<Rightarrow> Some (Inl ''scriptpubkey'')
      | Some (True, t) \<Rightarrow>
          if t = TX_NULL_DATA then check_standard_outputs pol os (nDataOut + 1)
          else if t = TX_MULTISIG \<and> \<not> po_fIsBareMultisigStd pol then Some (Inl ''bare-multisig'')
          else if IsDust txo (po_minRelayTxFee pol) then Some (Inl ''dust'')
          else check_standard_outputs pol os nDataOut)"

text \<open>The reason for which a transaction is not standard, \<open>None\<close> when it is.  \<open>chain_height\<close> is
  \<open>chainActive.Height()\<close> and \<open>adjusted\<close> is \<open>GetAdjustedTime()\<close>.\<close>

definition IsStandardTx :: "policy \<Rightarrow> int \<Rightarrow> int \<Rightarrow> CTransaction \<Rightarrow> string option option" where
  "IsStandardTx pol chain_height adjusted tx =
     (if CURRENT_VERSION <s nVersion tx \<or> nVersion tx <s 1 then Some (Some ''version'')
      else if \<not> IsFinalTx chain_height adjusted tx (chain_height + 1) 0 then Some (Some ''non-final'')
      else if length (ser_tx tx) \<ge> (if ContainsZerocoins tx then MAX_ZEROCOIN_TX_SIZE else MAX_STANDARD_TX_SIZE)
      then Some (Some ''tx-size'')
      else (case List.find (\<lambda>i. check_standard_input i \<noteq> None) (vin tx) of
          Some i \<Rightarrow> Some (check_standard_input i)
        | None \<Rightarrow>
            (case check_standard_outputs pol (vout tx) 0 of
               None \<Rightarrow> None
             | Some (Inl reason) \<Rightarrow> Some (Some reason)
             | Some (Inr nDataOut) \<Rightarrow> Some (if nDataOut > 1 then Some ''multi-op-return'' else None))))"

text \<open>\<open>AreInputsStandard\<close>: the result and the cache, which the look-ups may fill.  An error is the
  failed assertion of \<open>GetOutputFor\<close> or the exception of \<open>Solver\<close>.  A P2SH input with a redeem script
  of no standard type ends the loop.\<close>

fun inputs_standard_loop ::
  "('p, 's, 'r) secp \<Rightarrow> 'b CCoinsView \<Rightarrow> CTxIn list \<Rightarrow> 'b CCoinsViewCache \<Rightarrow> failure + bool \<times> 'b CCoinsViewCache" where
  "inputs_standard_loop ec V [] c = Inr (True, c)"
| "inputs_standard_loop ec V (i # is) c =
     (case GetOutputFor V c i of
        None \<Rightarrow> Inl Assertion_failed
      | Some (prev, c) \<Rightarrow>
        (case Solver (scriptPubKey prev) of
           None \<Rightarrow> Inl Out_of_range
         | Some (False, whichType, vSolutions) \<Rightarrow> Inr (False, c)
         | Some (True, whichType, vSolutions) \<Rightarrow>
             let nArgsExpected = ScriptSigArgsExpected whichType vSolutions in
             if nArgsExpected < 0 then Inr (False, c)
             else (case EvalScript \<lparr> se_flags = 0, se_checker = BaseSignatureChecker, se_lowS = CheckLowS ec \<rparr>
                          (scriptSig i) [] of
                 Inl e \<Rightarrow> Inr (False, c)
               | Inr stk \<Rightarrow>
                   if whichType = TX_SCRIPTHASH then
                     if stk = [] then Inr (False, c)
                     else let subscript = hd stk in
                       (case Solver subscript of
                          None \<Rightarrow> Inl Out_of_range
                        | Some (True, whichType2, vSolutions2) \<Rightarrow>
                            let tmpExpected = ScriptSigArgsExpected whichType2 vSolutions2 in
                            if tmpExpected < 0 then Inr (False, c)
                            else if int (length stk) \<noteq> nArgsExpected + tmpExpected then Inr (False, c)
                            else inputs_standard_loop ec V is c
                        | Some (False, _, _) \<Rightarrow> Inr (GetSigOpCount subscript True \<le> MAX_P2SH_SIGOPS, c))
                   else if int (length stk) \<noteq> nArgsExpected then Inr (False, c)
                   else inputs_standard_loop ec V is c)))"

definition AreInputsStandard ::
  "('p, 's, 'r) secp \<Rightarrow> 'b CCoinsView \<Rightarrow> CTransaction \<Rightarrow> 'b CCoinsViewCache \<Rightarrow> failure + bool \<times> 'b CCoinsViewCache" where
  "AreInputsStandard ec V tx c =
     (if IsCoinBase tx \<or> HasZerocoinSpendInputs tx then Inr (True, c) else inputs_standard_loop ec V (vin tx) c)"

section \<open>Scripts are read back\<close>

lemma GetOp2_opcode_byte:
  "opcode > OP_PUSHDATA4 \<Longrightarrow> GetOp2 (opcode # r) = \<lparr> go_ok = True, go_opcode = opcode, go_data = [], go_pc = r \<rparr>"
  by (simp add: GetOp2_def not_le)

lemma match_template_step:
  assumes "GetOp2 pc1 = g1" "go_ok g1" "opcode2 > OP_PUSHDATA4" "opcode2 \<noteq> OP_PUBKEYS"
  shows "match_template pc1 (opcode2 # pc2) sols =
    (case op_compare g1 \<lparr> go_ok = True, go_opcode = opcode2, go_data = [], go_pc = pc2 \<rparr> sols of
       None \<Rightarrow> None | Some sols \<Rightarrow> match_template (go_pc g1) pc2 sols)"
  using assms by (subst match_template.simps) (simp add: GetOp2_opcode_byte Let_def cong: option.case_cong)

lemma match_template_Nil [simp]: "match_template [] [] sols = Some sols"
  by (simp add: match_template.simps)

lemma GetOp2_hash20:
  assumes "length h = 20"
  shows "GetOp2 (0x14 # h @ r) = \<lparr> go_ok = True, go_opcode = 0x14, go_data = h, go_pc = r \<rparr>"
  using assms by (simp add: GetOp2_def push_size_def)

lemma script_for_key:
  assumes "length h = 20"
  shows "GetScriptForDestination (CKeyID h) = OP_DUP # OP_HASH160 # 0x14 # h @ [OP_EQUALVERIFY, OP_CHECKSIG]"
  using assms by (simp add: push_opcode_def push_bytes_def)

lemma script_for_script:
  assumes "length h = 20"
  shows "GetScriptForDestination (CScriptID h) = OP_HASH160 # 0x14 # h @ [OP_EQUAL]"
  using assms by (simp add: push_opcode_def push_bytes_def)

lemma Solver_key:
  assumes "length h = 20"
  shows "Solver (GetScriptForDestination (CKeyID h)) = Some (True, TX_PUBKEYHASH, [h])"
proof -
  let ?s = "OP_DUP # OP_HASH160 # 0x14 # h @ [OP_EQUALVERIFY, OP_CHECKSIG]"
  have "match_template ?s template_pubkey [] = None"
    unfolding template_pubkey_def
    by (subst match_template_step [OF GetOp2_opcode_byte]) (simp_all add: op_compare_def)
  moreover have "match_template ?s template_pubkeyhash [] = Some [h]"
    unfolding template_pubkeyhash_def using assms
    by (simp add: match_template_step [OF GetOp2_opcode_byte] match_template_step [OF GetOp2_hash20] op_compare_def)
  moreover have "\<not> IsPayToScriptHash ?s" "\<not> IsZerocoinMint ?s" "?s ! 0 \<noteq> OP_RETURN"
    using assms by (simp_all add: IsPayToScriptHash_def IsZerocoinMint_def StartsWithOpcode_def)
  ultimately show ?thesis unfolding script_for_key [OF assms] by (simp add: Solver_def)
qed

lemma Solver_script:
  assumes "length h = 20"
  shows "Solver (GetScriptForDestination (CScriptID h)) = Some (True, TX_SCRIPTHASH, [h])"
proof -
  have "IsPayToScriptHash (OP_HASH160 # 0x14 # h @ [OP_EQUAL])"
    using assms by (simp add: IsPayToScriptHash_def nth_Cons nth_append split: nat.split)
  then show ?thesis unfolding script_for_script [OF assms] using assms by (simp add: Solver_def)
qed

text \<open>Multisignature scripts.\<close>

lemma uint_opcode: "0 \<le> m \<Longrightarrow> m < 256 \<Longrightarrow> uint (word_of_int m :: u8) = m"
  by (simp add: uint_word_of_int_eq take_bit_int_eq_self)

lemma small_opcode:
  assumes "0x51 \<le> m" "m \<le> 0x60"
  shows "OP_1 \<le> (word_of_int m :: u8) \<and> (word_of_int m :: u8) \<le> OP_16 \<and> (word_of_int m :: u8) \<noteq> OP_0
    \<and> DecodeOP_N (word_of_int m) = Some (m - 0x50)"
proof -
  have u: "uint (word_of_int m :: u8) = m" using assms by (intro uint_opcode) auto
  have "OP_1 \<le> (word_of_int m :: u8)" "(word_of_int m :: u8) \<le> OP_16" using assms by (simp_all add: word_le_def u)
  moreover have "(word_of_int m :: u8) \<noteq> OP_0" using u assms by (metis OP_0_def uint_0_eq not_numeral_le_zero)
  ultimately show ?thesis by (simp add: DecodeOP_N_def u)
qed

lemma EncodeOP_N_small: "1 \<le> n \<Longrightarrow> n \<le> 16 \<Longrightarrow> EncodeOP_N n = Some (word_of_int (0x50 + n))"
  by (simp add: EncodeOP_N_def)

lemma GetOp2_key:
  assumes "33 \<le> length k" "length k \<le> 65"
  shows "GetOp2 (push_bytes [] k @ r) = \<lparr> go_ok = True, go_opcode = of_nat (length k), go_data = k, go_pc = r \<rparr>"
  using GetOp2_short_push [of k r] assms by simp

definition push_all :: "bytes list \<Rightarrow> bytes" where
  "push_all ks = concat (map (push_bytes []) ks)"

lemma foldl_push: "foldl (\<lambda>s k. push_bytes s (f k)) s ks = s @ push_all (map f ks)"
proof (induction ks arbitrary: s)
  case (Cons k ks)
  then show ?case using push_bytes_append [of s "f k"] by (simp add: push_all_def)
qed (simp add: push_all_def)

lemma take_keys_all:
  assumes "\<forall>k \<in> set ks. 33 \<le> length k \<and> length k \<le> 65" "33 \<le> length (go_data g)" "length (go_data g) \<le> 65"
    and "go_pc g = push_all ks @ opcode # r" "opcode > OP_PUSHDATA4"
  shows "take_keys g sols = (\<lparr> go_ok = True, go_opcode = opcode, go_data = [], go_pc = r \<rparr>, sols @ go_data g # ks)"
  using assms
proof (induction ks arbitrary: g sols)
  case Nil
  then show ?case
    by (subst take_keys.simps) (simp add: push_all_def GetOp2_opcode_byte take_keys.simps [of "\<lparr>go_ok = a, go_opcode = b, go_data = [], go_pc = d\<rparr>" for a b d])
next
  case (Cons k ks)
  let ?g = "\<lparr> go_ok = True, go_opcode = of_nat (length k), go_data = k, go_pc = push_all ks @ opcode # r \<rparr> :: getop"
  have "GetOp2 (go_pc g) = ?g" using Cons.prems GetOp2_key [of k] by (simp add: push_all_def)
  moreover have "take_keys ?g (sols @ [go_data g])
      = (\<lparr> go_ok = True, go_opcode = opcode, go_data = [], go_pc = r \<rparr>, (sols @ [go_data g]) @ k # ks)"
    using Cons.IH [of ?g] Cons.prems by simp
  ultimately show ?case using Cons.prems by (subst take_keys.simps) simp
qed

lemma op_compare_small:
  assumes "0x51 \<le> m" "m \<le> 0x60"
  shows "op_compare \<lparr> go_ok = True, go_opcode = word_of_int m, go_data = [], go_pc = p \<rparr>
      \<lparr> go_ok = True, go_opcode = OP_SMALLINTEGER, go_data = [], go_pc = q \<rparr> sols = Some (sols @ [[of_int (m - 0x50)]])"
  using small_opcode [OF assms] by (simp add: op_compare_def del: of_int_diff)

lemma match_template_small:
  assumes "0x51 \<le> m" "m \<le> 0x60"
  shows "match_template (word_of_int m # p) (OP_SMALLINTEGER # q) sols
    = match_template p q (sols @ [[of_int (m - 0x50)]])"
proof -
  have "(word_of_int m :: u8) > OP_PUSHDATA4"
    using small_opcode [OF assms] by (auto intro: order_less_le_trans [where y = OP_1])
  then show ?thesis
    by (subst match_template_step [OF GetOp2_opcode_byte])
      (simp_all add: op_compare_small [OF assms, unfolded OP_SMALLINTEGER_def] del: of_int_diff)
qed

lemma match_template_keys:
  assumes ks: "\<forall>k \<in> set (k # ks). 33 \<le> length k \<and> length k \<le> 65" and n: "0x51 \<le> n" "n \<le> 0x60"
  shows "match_template (push_all (k # ks) @ word_of_int n # r) (OP_PUBKEYS # OP_SMALLINTEGER # q) sols
    = match_template r q (sols @ k # ks @ [[of_int (n - 0x50)]])"
proof -
  let ?g = "\<lparr> go_ok = True, go_opcode = of_nat (length k), go_data = k, go_pc = push_all ks @ word_of_int n # r \<rparr> :: getop"
  have g: "GetOp2 (push_all (k # ks) @ word_of_int n # r) = ?g"
    using ks GetOp2_key [of k] by (simp add: push_all_def)
  have big: "(word_of_int n :: u8) > OP_PUSHDATA4"
    using small_opcode [OF n] by (auto intro: order_less_le_trans [where y = OP_1])
  have t: "take_keys ?g sols = (\<lparr> go_ok = True, go_opcode = word_of_int n, go_data = [], go_pc = r \<rparr>, sols @ k # ks)"
    using take_keys_all [of ks ?g "word_of_int n" r sols] ks big by simp
  have ne: "push_all (k # ks) @ word_of_int n # r \<noteq> []" by simp
  show ?thesis
    using op_compare_small [OF n, of r q "sols @ k # ks"] ne
    by (subst match_template.simps) (simp add: g t GetOp2_opcode_byte Let_def del: of_int_diff)
qed

lemma Solver_multisig:
  assumes m: "1 \<le> m" "m \<le> int (length ks)" and n: "length ks \<le> 16"
    and ks: "\<forall>k \<in> set ks. 33 \<le> length k \<and> length k \<le> 65"
  shows "Solver (word_of_int (0x50 + m) # push_all ks @ [word_of_int (0x50 + int (length ks)), OP_CHECKMULTISIG])
    = Some (True, TX_MULTISIG, [of_int m] # ks @ [[of_nat (length ks)]])"
proof -
  let ?om = "word_of_int (0x50 + m) :: u8" and ?on = "word_of_int (0x50 + int (length ks)) :: u8"
  let ?s = "?om # push_all ks @ [?on, OP_CHECKMULTISIG]"
  obtain k ks' where k: "ks = k # ks'" using m by (cases ks) auto
  have om: "OP_1 \<le> ?om" "?om \<le> OP_16" using small_opcode [of "0x50 + m"] m n by auto
  then have big: "?om > OP_PUSHDATA4" by (auto intro: order_less_le_trans [where y = OP_1])
  have neq: "?om \<noteq> OP_HASH160" "?om \<noteq> OP_ZEROCOINMINT" "?om \<noteq> OP_RETURN" "?om \<noteq> OP_DUP"
    using om by (auto simp: word_le_nat_alt)
  have 1: "match_template ?s template_pubkey [] = None"
    unfolding template_pubkey_def using big
    by (subst match_template_step [OF GetOp2_opcode_byte]) (simp_all add: op_compare_def)
  have 2: "match_template ?s template_pubkeyhash [] = None"
    unfolding template_pubkeyhash_def using big neq
    by (subst match_template_step [OF GetOp2_opcode_byte]) (simp_all add: op_compare_def)
  have "match_template ?s template_multisig [] =
      match_template (push_all ks @ [?on, OP_CHECKMULTISIG]) [OP_PUBKEYS, OP_SMALLINTEGER, OP_CHECKMULTISIG] [[of_int m]]"
    unfolding template_multisig_def using match_template_small [of "0x50 + m"] m n
    by (simp only: append_Nil add_diff_cancel_left' atLeastAtMost_iff)
  also have "\<dots> = match_template [OP_CHECKMULTISIG] [OP_CHECKMULTISIG] ([of_int m] # ks @ [[of_nat (length ks)]])"
    using match_template_keys [of k ks' "0x50 + int (length ks)" "[OP_CHECKMULTISIG]" "[OP_CHECKMULTISIG]" "[[of_int m]]"]
      ks m n by (simp add: k)
  also have "\<dots> = Some ([of_int m] # ks @ [[of_nat (length ks)]])"
    by (simp add: match_template_step [OF GetOp2_opcode_byte] op_compare_def)
  finally have 3: "match_template ?s template_multisig [] = Some ([of_int m] # ks @ [[of_nat (length ks)]])" .
  have um: "uint (of_int m :: u8) = m" using m n by (intro uint_opcode) auto
  have un: "unat (of_nat (length ks) :: u8) = length ks" using n by simp
  have uk: "uint (of_nat (length ks) :: u8) = int (length ks)" by (simp only: uint_nat un)
  have "(of_int m :: u8) \<noteq> 0" using um m by auto
  moreover have "(of_int m :: u8) \<le> of_nat (length ks)" unfolding word_le_def um uk by (rule m)
  moreover have "(of_nat (length ks) :: u8) \<noteq> 0" using uk m by auto
  ultimately have ok: "multisig_ok ([of_int m] # ks @ [[of_nat (length ks)]])"
    using un by (simp add: multisig_ok_def not_less del: unat_u8_of_nat)
  have "\<not> IsPayToScriptHash ?s" "\<not> IsZerocoinMint ?s" "?s ! 0 \<noteq> OP_RETURN"
    using neq by (simp_all add: IsPayToScriptHash_def IsZerocoinMint_def StartsWithOpcode_def)
  then show ?thesis using 1 2 3 ok unfolding Solver_def by simp
qed

lemma Raw_valid:
  assumes "CPubKey_IsValid k" "pk_size k \<le> length k"
  shows "33 \<le> length (Raw k) \<and> length (Raw k) \<le> 65 \<and> CPubKey_of (Raw k) = Raw k
    \<and> CPubKey_IsValid (Raw k) \<and> GetID (Raw k) = GetID k"
proof -
  have size: "pk_size k = 33 \<or> pk_size k = 65" using assms(1) by (auto simp: CPubKey_IsValid_def pk_size_def GetLen_def split: if_splits)
  then have len: "length (Raw k) = pk_size k" using assms(2) by (auto simp: Raw_def)
  have "Raw k ! 0 = k ! 0" using size by (auto simp: Raw_def)
  then have pk: "pk_size (Raw k) = pk_size k" by (simp add: pk_size_def)
  have "Raw (Raw k) = Raw k" using pk len by (simp add: Raw_def [of "Raw k"])
  moreover have "CPubKey_of (Raw k) = Raw k"
    using pk len size by (auto simp: CPubKey_of_def CPubKey_Set_def Let_def pk_size_def)
  ultimately show ?thesis using len size pk by (auto simp: CPubKey_IsValid_def GetID_def)
qed

lemma GetScriptForMultisig_script:
  assumes "1 \<le> m" "m \<le> int (length keys)" "length keys \<le> 16"
  shows "GetScriptForMultisig m keys = Some (word_of_int (0x50 + m) # push_all (map Raw keys)
    @ [word_of_int (0x50 + int (length (map Raw keys))), OP_CHECKMULTISIG])"
  using assms EncodeOP_N_small [of m] EncodeOP_N_small [of "int (length keys)"]
  by (simp add: GetScriptForMultisig_def foldl_push push_opcode_def)

text \<open>C38: The scripts that the node builds are read back.  The script for a key or script
  destination is solved as such and gives the destination; the \<open>m\<close>-of-\<open>n\<close> script of up to sixteen
  valid keys is solved as a multisignature script with its numbers and keys, and its destinations
  are the ids of the keys, with \<open>m\<close> required.\<close>

theorem standard_scripts_read_back:
  assumes h: "length h = 20" and m: "1 \<le> m" "m \<le> int (length keys)" "length keys \<le> 16"
    and keys: "\<forall>k \<in> set keys. CPubKey_IsValid k \<and> pk_size k \<le> length k"
  shows "ExtractDestination (GetScriptForDestination (CKeyID h)) = Some (Some (CKeyID h))
    \<and> ExtractDestination (GetScriptForDestination (CScriptID h)) = Some (Some (CScriptID h))
    \<and> (\<exists>s. GetScriptForMultisig m keys = Some s
        \<and> Solver s = Some (True, TX_MULTISIG, [of_int m] # map Raw keys @ [[of_nat (length keys)]])
        \<and> ExtractDestinations s r = Some (True, TX_MULTISIG, map (\<lambda>k. CKeyID (GetID k)) keys, m))"
proof -
  let ?s = "word_of_int (0x50 + m) # push_all (map Raw keys)
    @ [word_of_int (0x50 + int (length (map Raw keys))), OP_CHECKMULTISIG] :: bytes"
  have raw: "\<forall>k \<in> set (map Raw keys). 33 \<le> length k \<and> length k \<le> 65" using keys Raw_valid by auto
  have s: "Solver ?s = Some (True, TX_MULTISIG, [of_int m] # map Raw keys @ [[of_nat (length keys)]])"
    using Solver_multisig [OF m(1) _ _ raw] m by simp
  have um: "uint (of_int m :: u8) = m" using m by (intro uint_opcode) auto
  have "filter CPubKey_IsValid (map CPubKey_of (map Raw keys)) = map Raw keys"
    using keys Raw_valid by (induction keys) auto
  moreover have "map (\<lambda>k. CKeyID (GetID k)) (map Raw keys) = map (\<lambda>k. CKeyID (GetID k)) keys"
    using keys Raw_valid by simp
  moreover have "keys \<noteq> []" using m by auto
  ultimately have "ExtractDestinations ?s r = Some (True, TX_MULTISIG, map (\<lambda>k. CKeyID (GetID k)) keys, m)"
    using s um by (simp add: ExtractDestinations_def)
  then show ?thesis
    using s Solver_key [OF h] Solver_script [OF h] GetScriptForMultisig_script [OF m]
    by (simp add: ExtractDestination_def)
qed

theorem standard_scripts_read_back_witness:
  "\<exists>s. GetScriptForMultisig 1 [2 # replicate 32 7, 3 # replicate 32 9] = Some s
    \<and> Solver s = Some (True, TX_MULTISIG, [[1], 2 # replicate 32 7, 3 # replicate 32 9, [2]])"
proof -
  let ?k = "[2 # replicate 32 7, 3 # replicate 32 9] :: bytes list"
  have "\<forall>k \<in> set ?k. CPubKey_IsValid k \<and> pk_size k \<le> length k"
    by (simp add: CPubKey_IsValid_def pk_size_def GetLen_def)
  from standard_scripts_read_back [of "replicate 20 0" 1 ?k 0, OF _ _ _ _ this]
  show ?thesis by (auto simp: Raw_def pk_size_def GetLen_def)
qed

text \<open>A script that is only \<open>OP_ZEROCOINMINT\<close> makes \<open>Solver\<close> build a vector from a range that ends
  before it begins.\<close>

lemma Solver_bare_mint: "Solver [OP_ZEROCOINMINT] = None"
  by (simp add: Solver_def IsPayToScriptHash_def IsZerocoinMint_def StartsWithOpcode_def)

end
