(* ===== verification/Base58.thy ===== *)
theory Base58
  imports Standard
begin

unbundle bit_operations_syntax

text \<open>
  Base-58 text (\<open>base58.h\<close>, \<open>base58.cpp\<close>): the encoder and the decoder with the buffers they size
  in advance, the variants with a checksum, \<open>CBase58Data\<close>, addresses, secrets and extended keys, with
  the address prefixes of \<open>chainparams.cpp\<close>.  A C string is its characters up to the first NUL.
  The theorems show that the buffers suffice, so that the assertions never fail, and that decoding
  undoes encoding, for bytes and for addresses.
\<close>

section \<open>Encoding and decoding\<close>

definition pszBase58 :: string where
  "pszBase58 = ''123456789ABCDEFGHJKLMNPQRSTUVWXYZabcdefghijkmnopqrstuvwxyz''"

definition isspace :: "char \<Rightarrow> bool" where
  "isspace c \<longleftrightarrow> c = CHR '' '' \<or> of_char c \<in> {9 :: nat .. 13}"

definition strchr :: "string \<Rightarrow> char \<Rightarrow> nat option" where
  "strchr s c = (if c \<in> set s then Some (length (takeWhile (\<lambda>x. x \<noteq> c) s)) else None)"

text \<open>The inner loop, over the digits from the last to the first: multiply by \<open>mul\<close>, add \<open>carry\<close>, in
  base \<open>radix\<close>.\<close>

fun carry_loop :: "nat \<Rightarrow> nat \<Rightarrow> nat \<Rightarrow> u8 list \<Rightarrow> nat \<times> u8 list" where
  "carry_loop mul radix carry [] = (carry, [])"
| "carry_loop mul radix carry (d # ds) =
     (let carry = carry + mul * unat d in
      case carry_loop mul radix (carry div radix) ds of (c, ds) \<Rightarrow> (c, of_nat (carry mod radix) # ds))"

definition add_digit :: "nat \<Rightarrow> nat \<Rightarrow> nat \<Rightarrow> u8 list \<Rightarrow> nat \<times> u8 list" where
  "add_digit mul radix carry v = (case carry_loop mul radix carry (rev v) of (c, ds) \<Rightarrow> (c, rev ds))"

text \<open>\<open>None\<close> is the failed assertion that no carry is left.\<close>

fun encode_loop :: "bytes \<Rightarrow> u8 list \<Rightarrow> u8 list option" where
  "encode_loop [] b58 = Some b58"
| "encode_loop (x # xs) b58 =
     (case add_digit 256 58 (unat x) b58 of
        (carry, b58) \<Rightarrow> if carry \<noteq> 0 then None else encode_loop xs b58)"

definition EncodeBase58 :: "bytes \<Rightarrow> string option" where
  "EncodeBase58 v =
     (let zeroes = length (takeWhile (\<lambda>x. x = 0) v); v = dropWhile (\<lambda>x. x = 0) v in
      map_option (\<lambda>b58. replicate zeroes CHR ''1'' @ map (\<lambda>d. pszBase58 ! unat d) (dropWhile (\<lambda>d. d = 0) b58))
        (encode_loop v (replicate (length v * 138 div 100 + 1) 0)))"

text \<open>What is left of the text and the number; \<open>None\<close> is \<open>return false\<close>.\<close>

fun decode_loop :: "string \<Rightarrow> u8 list \<Rightarrow> failure + (string \<times> u8 list) option" where
  "decode_loop [] b256 = Inr (Some ([], b256))"
| "decode_loop (c # psz) b256 =
     (if isspace c then Inr (Some (c # psz, b256))
      else case strchr pszBase58 c of
          None \<Rightarrow> Inr None
        | Some ch \<Rightarrow> (case add_digit 58 256 ch b256 of
            (carry, b256) \<Rightarrow> if carry \<noteq> 0 then Inl Assertion_failed else decode_loop psz b256))"

definition c_str :: "string \<Rightarrow> string" where
  "c_str s = takeWhile (\<lambda>c. of_char c \<noteq> (0 :: nat)) s"

definition DecodeBase58 :: "string \<Rightarrow> failure + bytes option" where
  "DecodeBase58 str =
     (let psz = dropWhile isspace (c_str str);
          zeroes = length (takeWhile (\<lambda>c. c = CHR ''1'') psz);
          psz = dropWhile (\<lambda>c. c = CHR ''1'') psz in
      case decode_loop psz (replicate (length psz * 733 div 1000 + 1) 0) of
        Inl e \<Rightarrow> Inl e
      | Inr None \<Rightarrow> Inr None
      | Inr (Some (psz, b256)) \<Rightarrow>
          Inr (if dropWhile isspace psz \<noteq> [] then None
               else Some (replicate zeroes 0 @ dropWhile (\<lambda>x. x = 0) b256)))"

section \<open>Checksums\<close>

definition EncodeBase58Check :: "bytes \<Rightarrow> string option" where
  "EncodeBase58Check v = EncodeBase58 (v @ take 4 (Hash_bytes v))"

definition DecodeBase58Check :: "string \<Rightarrow> failure + bytes option" where
  "DecodeBase58Check psz =
     (case DecodeBase58 psz of
        Inl e \<Rightarrow> Inl e
      | Inr None \<Rightarrow> Inr None
      | Inr (Some v) \<Rightarrow>
          if length v < 4 then Inr None
          else let body = take (length v - 4) v in
            if take 4 (Hash_bytes body) \<noteq> drop (length v - 4) v then Inr None else Inr (Some body))"

section \<open>CBase58Data and addresses\<close>

record CBase58Data =
  vchVersion :: bytes
  vchData :: bytes

definition CBase58Data_new :: CBase58Data where
  "CBase58Data_new = \<lparr> vchVersion = [], vchData = [] \<rparr>"

definition SetData :: "bytes \<Rightarrow> bytes \<Rightarrow> CBase58Data" where
  "SetData vchVersionIn pdata = \<lparr> vchVersion = vchVersionIn, vchData = pdata \<rparr>"

definition SetString :: "string \<Rightarrow> nat \<Rightarrow> failure + bool \<times> CBase58Data" where
  "SetString psz nVersionBytes =
     map_sum id (\<lambda>vchTemp.
       case vchTemp of
         None \<Rightarrow> (False, CBase58Data_new)
       | Some v \<Rightarrow> if length v < nVersionBytes then (False, CBase58Data_new)
                   else (True, \<lparr> vchVersion = take nVersionBytes v, vchData = drop nVersionBytes v \<rparr>))
       (DecodeBase58Check psz)"

definition b58_ToString :: "CBase58Data \<Rightarrow> string option" where
  "b58_ToString d = EncodeBase58Check (vchVersion d @ vchData d)"

text \<open>\<open>operator<\<close> of vectors of bytes.\<close>

fun bytes_less :: "bytes \<Rightarrow> bytes \<Rightarrow> bool" where
  "bytes_less [] b \<longleftrightarrow> b \<noteq> []"
| "bytes_less a [] \<longleftrightarrow> False"
| "bytes_less (x # a) (y # b) \<longleftrightarrow> x < y \<or> (x = y \<and> bytes_less a b)"

definition b58_CompareTo :: "CBase58Data \<Rightarrow> CBase58Data \<Rightarrow> int" where
  "b58_CompareTo a b =
     (if bytes_less (vchVersion a) (vchVersion b) then - 1
      else if bytes_less (vchVersion b) (vchVersion a) then 1
      else if bytes_less (vchData a) (vchData b) then - 1
      else if bytes_less (vchData b) (vchData a) then 1 else 0)"

datatype Base58Type = PUBKEY_ADDRESS | SCRIPT_ADDRESS | SECRET_KEY | EXT_PUBLIC_KEY | EXT_SECRET_KEY | EXT_COIN_TYPE

text \<open>The prefixes of the main network, which the unit tests share, and of the test network, which
  the regression tests share.\<close>

fun main_prefixes :: "Base58Type \<Rightarrow> bytes" where
  "main_prefixes PUBKEY_ADDRESS = [80]"
| "main_prefixes SCRIPT_ADDRESS = [15]"
| "main_prefixes SECRET_KEY = [202]"
| "main_prefixes EXT_PUBLIC_KEY = [0x02, 0x2D, 0x25, 0x33]"
| "main_prefixes EXT_SECRET_KEY = [0x02, 0x21, 0x31, 0x2B]"
| "main_prefixes EXT_COIN_TYPE = [0x80, 0x00, 0x00, 0x77]"

fun test_prefixes :: "Base58Type \<Rightarrow> bytes" where
  "test_prefixes PUBKEY_ADDRESS = [139]"
| "test_prefixes SCRIPT_ADDRESS = [19]"
| "test_prefixes SECRET_KEY = [239]"
| "test_prefixes EXT_PUBLIC_KEY = [0x3a, 0x80, 0x61, 0xa0]"
| "test_prefixes EXT_SECRET_KEY = [0x3a, 0x80, 0x58, 0x37]"
| "test_prefixes EXT_COIN_TYPE = [0x80, 0x00, 0x00, 0x01]"

definition Base58Prefix :: "CChainParams \<Rightarrow> Base58Type \<Rightarrow> bytes" where
  "Base58Prefix P t =
     (case networkID P of MAIN \<Rightarrow> main_prefixes t | UNITTEST \<Rightarrow> main_prefixes t | _ \<Rightarrow> test_prefixes t)"

text \<open>\<open>Set\<close> on an address: whether it did, and the address.\<close>

fun CBitcoinAddress_Set :: "CChainParams \<Rightarrow> CTxDestination \<Rightarrow> CBase58Data \<Rightarrow> bool \<times> CBase58Data" where
  "CBitcoinAddress_Set P (CKeyID keyID) d = (True, SetData (Base58Prefix P PUBKEY_ADDRESS) keyID)"
| "CBitcoinAddress_Set P (CScriptID scriptID) d = (True, SetData (Base58Prefix P SCRIPT_ADDRESS) scriptID)"
| "CBitcoinAddress_Set P CNoDestination d = (False, d)"

definition CBitcoinAddress_IsValid :: "CChainParams \<Rightarrow> CBase58Data \<Rightarrow> bool" where
  "CBitcoinAddress_IsValid P d \<longleftrightarrow> length (vchData d) = 20
     \<and> (vchVersion d = Base58Prefix P PUBKEY_ADDRESS \<or> vchVersion d = Base58Prefix P SCRIPT_ADDRESS)"

definition CBitcoinAddress_Get :: "CChainParams \<Rightarrow> CBase58Data \<Rightarrow> CTxDestination" where
  "CBitcoinAddress_Get P d =
     (if \<not> CBitcoinAddress_IsValid P d then CNoDestination
      else if vchVersion d = Base58Prefix P PUBKEY_ADDRESS then CKeyID (take 20 (vchData d))
      else if vchVersion d = Base58Prefix P SCRIPT_ADDRESS then CScriptID (take 20 (vchData d))
      else CNoDestination)"

definition CBitcoinAddress_GetKeyID :: "CChainParams \<Rightarrow> CBase58Data \<Rightarrow> bytes option" where
  "CBitcoinAddress_GetKeyID P d =
     (if \<not> CBitcoinAddress_IsValid P d \<or> vchVersion d \<noteq> Base58Prefix P PUBKEY_ADDRESS then None
      else Some (take 20 (vchData d)))"

definition CBitcoinAddress_IsScript :: "CChainParams \<Rightarrow> CBase58Data \<Rightarrow> bool" where
  "CBitcoinAddress_IsScript P d \<longleftrightarrow> CBitcoinAddress_IsValid P d \<and> vchVersion d = Base58Prefix P SCRIPT_ADDRESS"

section \<open>Secrets and extended keys\<close>

text \<open>A key as its bytes and whether it is compressed, \<open>None\<close> for one that is not valid; an error is
  the failed assertion.\<close>

definition CBitcoinSecret_SetKey :: "CChainParams \<Rightarrow> (bytes \<times> bool) option \<Rightarrow> CBase58Data option" where
  "CBitcoinSecret_SetKey P vchSecret =
     map_option (\<lambda>(k, fCompressed). SetData (Base58Prefix P SECRET_KEY) (k @ (if fCompressed then [1] else []))) vchSecret"

definition CBitcoinSecret_GetKey :: "CBase58Data \<Rightarrow> (bytes \<times> bool) option" where
  "CBitcoinSecret_GetKey d =
     (if length (vchData d) < 32 then None
      else Some (take 32 (vchData d), length (vchData d) > 32 \<and> vchData d ! 32 = 1))"

definition CBitcoinSecret_IsValid :: "CChainParams \<Rightarrow> CBase58Data \<Rightarrow> bool" where
  "CBitcoinSecret_IsValid P d \<longleftrightarrow>
     (length (vchData d) = 32 \<or> (length (vchData d) = 33 \<and> vchData d ! 32 = 1))
     \<and> vchVersion d = Base58Prefix P SECRET_KEY"

definition CBitcoinSecret_SetString :: "CChainParams \<Rightarrow> string \<Rightarrow> failure + bool \<times> CBase58Data" where
  "CBitcoinSecret_SetString P psz = map_sum id (\<lambda>(r, d). (r \<and> CBitcoinSecret_IsValid P d, d)) (SetString psz 1)"

definition CBitcoinExtPubKey_SetKey :: "CChainParams \<Rightarrow> CExtPubKey \<Rightarrow> CBase58Data option" where
  "CBitcoinExtPubKey_SetKey P key = map_option (SetData (Base58Prefix P EXT_PUBLIC_KEY)) (ext_Encode key)"

section \<open>The digits of a number\<close>

fun digits_val :: "nat \<Rightarrow> u8 list \<Rightarrow> nat" where
  "digits_val b [] = 0"
| "digits_val b (d # ds) = unat d + b * digits_val b ds"

abbreviation be_val :: "nat \<Rightarrow> u8 list \<Rightarrow> nat" where
  "be_val b v \<equiv> digits_val b (rev v)"

definition digits_ok :: "nat \<Rightarrow> u8 list \<Rightarrow> bool" where
  "digits_ok b v \<longleftrightarrow> (\<forall>d \<in> set v. unat d < b)"

lemma carry_loop_spec:
  assumes "carry_loop mul b carry ds = (c, ds')" "0 < b" "b \<le> 256"
  shows "digits_val b ds' + b ^ length ds * c = mul * digits_val b ds + carry
    \<and> length ds' = length ds \<and> digits_ok b ds'"
  using assms
proof (induction ds arbitrary: carry ds')
  case (Cons d ds)
  let ?k = "carry + mul * unat d"
  obtain ds1 where r: "carry_loop mul b (?k div b) ds = (c, ds1)" and ds': "ds' = of_nat (?k mod b) # ds1"
    using Cons.prems(1) by (auto simp: Let_def split: prod.splits)
  have m: "?k mod b < b" using Cons.prems(2) by simp
  then have u: "unat (of_nat (?k mod b) :: u8) = ?k mod b" using Cons.prems(3) by simp
  have IH: "digits_val b ds1 + b ^ length ds * c = mul * digits_val b ds + ?k div b" "length ds1 = length ds" "digits_ok b ds1"
    using Cons.IH [OF r Cons.prems(2,3)] by auto
  have "digits_val b ds' + b ^ length (d # ds) * c = ?k mod b + b * (digits_val b ds1 + b ^ length ds * c)"
    by (simp add: ds' u algebra_simps del: unat_u8_of_nat)
  also have "\<dots> = ?k mod b + b * (?k div b) + b * (mul * digits_val b ds)" by (simp only: IH(1)) (simp add: algebra_simps)
  also have "?k mod b + b * (?k div b) = ?k" by simp
  finally show ?case using IH m u by (simp add: ds' digits_ok_def algebra_simps del: unat_u8_of_nat)
qed (simp add: digits_ok_def)

lemma digits_val_less: "digits_ok b v \<Longrightarrow> 0 < b \<Longrightarrow> digits_val b v < b ^ length v"
proof (induction v)
  case (Cons d v)
  then have "unat d < b" "digits_val b v + 1 \<le> b ^ length v" by (auto simp: digits_ok_def)
  then have "unat d + b * digits_val b v < b * (digits_val b v + 1)" by simp
  also have "\<dots> \<le> b * b ^ length v" using \<open>digits_val b v + 1 \<le> b ^ length v\<close> by (rule mult_le_mono2)
  finally show ?case by simp
qed simp

lemma digits_ok_rev [simp]: "digits_ok b (rev v) = digits_ok b v"
  by (simp add: digits_ok_def)

text \<open>No carry is left as long as the number fits the buffer.\<close>

lemma add_digit_fits:
  assumes "mul * be_val b v + x < b ^ length v" "0 < b" "b \<le> 256"
  shows "\<exists>v'. add_digit mul b x v = (0, v') \<and> be_val b v' = mul * be_val b v + x
    \<and> length v' = length v \<and> digits_ok b v'"
proof -
  obtain c ds where r: "carry_loop mul b x (rev v) = (c, ds)" by fastforce
  have s: "digits_val b ds + b ^ length v * c = mul * be_val b v + x" "length ds = length v" "digits_ok b ds"
    using carry_loop_spec [OF r assms(2,3)] by auto
  have "c = 0"
  proof (rule ccontr)
    assume "c \<noteq> 0"
    then have "b ^ length v \<le> b ^ length v * c" by simp
    then show False using s(1) assms(1) by linarith
  qed
  then show ?thesis using r s by (simp add: add_digit_def)
qed

lemma digits_val_append: "digits_val b (u @ w) = digits_val b u + b ^ length u * digits_val b w"
  by (induction u) (simp_all add: algebra_simps)

lemma be_val_Cons: "be_val b (x # xs) = b ^ length xs * unat x + be_val b xs"
  by (simp add: digits_val_append)

lemma be_val_zeros [simp]: "be_val b (replicate k 0) = 0"
  by (induction k) (simp_all add: digits_val_append)

lemma be_val_pad [simp]: "be_val b (replicate k 0 @ v) = be_val b v"
  by (induction k) (simp_all add: digits_val_append)

lemma be_val_strip: "be_val b (dropWhile (\<lambda>d. d = 0) v) = be_val b v"
  by (induction v) (simp_all add: digits_val_append)

lemma digits_ok_256 [simp]: "digits_ok 256 v"
  by (simp add: digits_ok_def)

lemma be_val_less: "digits_ok b v \<Longrightarrow> 0 < b \<Longrightarrow> be_val b v < b ^ length v"
  using digits_val_less [of b "rev v"] by simp

lemma digits_val_inject:
  "digits_val b u = digits_val b w \<Longrightarrow> length u = length w \<Longrightarrow> digits_ok b u \<Longrightarrow> digits_ok b w \<Longrightarrow> 0 < b \<Longrightarrow> u = w"
proof (induction u arbitrary: w)
  case (Cons x u)
  then obtain y v where w: "w = y # v" by (cases w) auto
  have xy: "unat x < b" "unat y < b" using Cons.prems by (auto simp: w digits_ok_def)
  have e: "unat x + b * digits_val b u = unat y + b * digits_val b v" using Cons.prems(1) by (simp add: w)
  have "unat x = unat y" using xy arg_cong [OF e, of "\<lambda>n. n mod b"] by simp
  moreover have "digits_val b u = digits_val b v" using e \<open>unat x = unat y\<close> \<open>0 < b\<close> by simp
  ultimately show ?case using Cons.IH [of v] Cons.prems by (auto simp: w digits_ok_def word_unat_eq_iff)
qed simp

lemma dropWhile_pad: "dropWhile (\<lambda>d. d = 0) (replicate k 0 @ v) = dropWhile (\<lambda>d. d = (0 :: u8)) v"
  by (induction k) simp_all

lemma digits_ok_pad [simp]: "0 < b \<Longrightarrow> digits_ok b (replicate k 0 @ v) = digits_ok b v"
  by (auto simp: digits_ok_def)

lemma strip_unique:
  assumes "be_val b u = be_val b w" "digits_ok b u" "digits_ok b w" "0 < b"
  shows "dropWhile (\<lambda>d. d = 0) u = dropWhile (\<lambda>d. d = 0) w"
proof -
  let ?u = "replicate (length w - length u) 0 @ u" and ?w = "replicate (length u - length w) 0 @ w"
  have "rev ?u = rev ?w"
  proof (rule digits_val_inject)
    show "digits_val b (rev ?u) = digits_val b (rev ?w)" by (simp only: be_val_pad assms(1))
    show "length (rev ?u) = length (rev ?w)" by simp
    show "digits_ok b (rev ?u)" "digits_ok b (rev ?w)" using assms by (simp_all del: rev_append)
  qed (rule assms)
  then show ?thesis by (metis rev_rev_ident dropWhile_pad)
qed

section \<open>The buffers suffice\<close>

lemma div_room: "0 < b \<Longrightarrow> m < b * (m div b + 1)" for m b :: nat
  using dividend_less_times_div [of b m] by (simp add: algebra_simps)

lemma le_power_mult: "m \<le> 58 ^ k * m" for m :: nat
  using mult_le_mono1 [of 1 "58 ^ k" m] by simp

lemma pow_facts: "(256 :: nat) ^ 8 \<le> 58 ^ 11" "(58 :: nat) ^ 71 \<le> 256 ^ 52"
  by simp_all

lemma pow_le_base: "a ^ k \<le> b ^ k \<Longrightarrow> 0 < k \<Longrightarrow> a \<le> b" for a b :: nat
  by (metis power_mono_iff zero_le)

lemma encode_room: "(256 :: nat) ^ n \<le> 58 ^ (n * 138 div 100 + 1)"
proof -
  have "((256 :: nat) ^ n) ^ 8 = (256 ^ 8) ^ n" by (simp only: power_mult [symmetric] mult.commute)
  also have "\<dots> \<le> (58 ^ 11) ^ n" by (rule power_mono) (simp_all only: pow_facts zero_le)
  also have "\<dots> = 58 ^ (11 * n)" by (simp only: power_mult)
  also have "\<dots> \<le> 58 ^ (8 * (n * 138 div 100 + 1))"
  proof (rule power_increasing)
    have "n * 138 < 100 * (n * 138 div 100 + 1)" by (rule div_room) simp
    then show "11 * n \<le> 8 * (n * 138 div 100 + 1)" by linarith
  qed simp
  also have "\<dots> = (58 ^ (n * 138 div 100 + 1)) ^ 8" by (simp only: power_mult [symmetric] mult.commute)
  finally show ?thesis by (rule pow_le_base) simp
qed

lemma decode_room: "(58 :: nat) ^ n \<le> 256 ^ (n * 733 div 1000 + 1)"
proof -
  have "((58 :: nat) ^ n) ^ 71 = (58 ^ 71) ^ n" by (simp only: power_mult [symmetric] mult.commute)
  also have "\<dots> \<le> (256 ^ 52) ^ n" by (rule power_mono) (simp_all only: pow_facts zero_le)
  also have "\<dots> = 256 ^ (52 * n)" by (simp only: power_mult)
  also have "\<dots> \<le> 256 ^ (71 * (n * 733 div 1000 + 1))"
  proof (rule power_increasing)
    have "n * 733 < 1000 * (n * 733 div 1000 + 1)" by (rule div_room) simp
    then show "52 * n \<le> 71 * (n * 733 div 1000 + 1)" by linarith
  qed simp
  also have "\<dots> = (256 ^ (n * 733 div 1000 + 1)) ^ 71" by (simp only: power_mult [symmetric] mult.commute)
  finally show ?thesis by (rule pow_le_base) simp
qed

lemma encode_loop_spec:
  assumes "256 ^ length v * be_val 58 b58 + be_val 256 v < 58 ^ length b58" "digits_ok 58 b58"
  shows "\<exists>r. encode_loop v b58 = Some r \<and> be_val 58 r = 256 ^ length v * be_val 58 b58 + be_val 256 v \<and> digits_ok 58 r"
  using assms
proof (induction v arbitrary: b58)
  case (Cons x v)
  have e: "256 ^ length (x # v) * be_val 58 b58 + be_val 256 (x # v)
      = 256 ^ length v * (256 * be_val 58 b58 + unat x) + be_val 256 v"
    by (simp only: be_val_Cons) (simp add: algebra_simps)
  have "256 * be_val 58 b58 + unat x \<le> 256 ^ length v * (256 * be_val 58 b58 + unat x) + be_val 256 v"
    by (simp add: trans_le_add1)
  also have "\<dots> < 58 ^ length b58" using Cons.prems(1) unfolding e .
  finally have "256 * be_val 58 b58 + unat x < 58 ^ length b58" .
  from add_digit_fits [OF this] obtain b where b: "add_digit 256 58 (unat x) b58 = (0, b)"
    "be_val 58 b = 256 * be_val 58 b58 + unat x" "length b = length b58" "digits_ok 58 b" by auto
  have "256 ^ length v * be_val 58 b + be_val 256 v < 58 ^ length b"
    using Cons.prems(1) unfolding e b(2,3) .
  from Cons.IH [OF this b(4)] show ?case using b e by simp
qed simp

lemma enc_chars:
  "\<forall>k \<in> set [0..<58]. strchr pszBase58 (pszBase58 ! k) = Some k \<and> \<not> isspace (pszBase58 ! k)
    \<and> of_char (pszBase58 ! k) \<noteq> (0 :: nat) \<and> (pszBase58 ! k = CHR ''1'' \<longleftrightarrow> k = 0)"
  by code_simp

lemma enc_char:
  "k < 58 \<Longrightarrow> strchr pszBase58 (pszBase58 ! k) = Some k \<and> \<not> isspace (pszBase58 ! k)
    \<and> of_char (pszBase58 ! k) \<noteq> (0 :: nat) \<and> (pszBase58 ! k = CHR ''1'' \<longleftrightarrow> k = 0)"
  using enc_chars by auto

lemma takeWhile_length_less: "c \<in> set xs \<Longrightarrow> length (takeWhile (\<lambda>x. x \<noteq> c) xs) < length xs"
  by (induction xs) auto

lemma strchr_less: "strchr pszBase58 c = Some k \<Longrightarrow> k < 58"
proof -
  assume "strchr pszBase58 c = Some k"
  then have "k < length pszBase58" by (auto simp: strchr_def takeWhile_length_less split: if_splits)
  then show ?thesis by (simp add: pszBase58_def)
qed

text \<open>The decoder never runs out of its buffer, whatever the text.\<close>

lemma decode_loop_total:
  assumes "58 ^ length psz * (be_val 256 b256 + 1) \<le> 256 ^ length b256"
  shows "\<exists>r. decode_loop psz b256 = Inr r"
  using assms
proof (induction psz arbitrary: b256)
  case (Cons c psz)
  show ?case
  proof (cases "\<not> isspace c \<and> strchr pszBase58 c \<noteq> None")
    case True
    then obtain k where k: "strchr pszBase58 c = Some k" "k < 58" using strchr_less by auto
    let ?n = "58 * be_val 256 b256 + k"
    have "58 ^ length psz * (?n + 1) \<le> 58 ^ length psz * (58 * (be_val 256 b256 + 1))"
      using k(2) by (intro mult_le_mono2) simp
    also have "\<dots> = 58 ^ length (c # psz) * (be_val 256 b256 + 1)" by (simp add: algebra_simps)
    finally have room: "58 ^ length psz * (?n + 1) \<le> 256 ^ length b256" using Cons.prems by linarith
    have "?n + 1 \<le> 58 ^ length psz * (?n + 1)" by (rule le_power_mult)
    then have "?n < 256 ^ length b256" using room by linarith
    from add_digit_fits [OF this] obtain b where b: "add_digit 58 256 k b256 = (0, b)"
      "be_val 256 b = ?n" "length b = length b256" by auto
    then show ?thesis using Cons.IH [of b] room True k(1) by simp
  next
    case False
    then show ?thesis by (auto split: option.split)
  qed
qed simp

lemma decode_loop_digits:
  assumes "58 ^ length ds * (be_val 256 b256 + 1) \<le> 256 ^ length b256" "digits_ok 58 ds"
  shows "\<exists>r. decode_loop (map (\<lambda>d. pszBase58 ! unat d) ds) b256 = Inr (Some ([], r))
    \<and> be_val 256 r = 58 ^ length ds * be_val 256 b256 + be_val 58 ds"
  using assms
proof (induction ds arbitrary: b256)
  case (Cons d ds)
  have d: "unat d < 58" using Cons.prems(2) by (simp add: digits_ok_def)
  let ?n = "58 * be_val 256 b256 + unat d"
  have "58 ^ length ds * (?n + 1) \<le> 58 ^ length ds * (58 * (be_val 256 b256 + 1))"
    using d by (intro mult_le_mono2) simp
  also have "\<dots> = 58 ^ length (d # ds) * (be_val 256 b256 + 1)" by (simp add: algebra_simps)
  finally have room: "58 ^ length ds * (?n + 1) \<le> 256 ^ length b256" using Cons.prems(1) by linarith
  have "?n + 1 \<le> 58 ^ length ds * (?n + 1)" by (rule le_power_mult)
  then have "?n < 256 ^ length b256" using room by linarith
  from add_digit_fits [OF this] obtain b where b: "add_digit 58 256 (unat d) b256 = (0, b)"
    "be_val 256 b = ?n" "length b = length b256" by auto
  obtain r where "decode_loop (map (\<lambda>d. pszBase58 ! unat d) ds) b = Inr (Some ([], r))"
    "be_val 256 r = 58 ^ length ds * be_val 256 b + be_val 58 ds"
    using Cons.IH [of b] b room Cons.prems(2) by (auto simp: digits_ok_def)
  then show ?case using b enc_char [OF d] by (simp add: be_val_Cons algebra_simps del: rev.simps)
qed simp

section \<open>Decoding undoes encoding\<close>

lemma leading_zeros: "v = replicate (length (takeWhile (\<lambda>x. x = a) v)) a @ dropWhile (\<lambda>x. x = a) v"
  by (induction v) auto

lemma takeWhile_replicate_append:
  "(xs = [] \<or> \<not> P (hd xs)) \<Longrightarrow> P a \<Longrightarrow> takeWhile P (replicate k a @ xs) = replicate k a
    \<and> dropWhile P (replicate k a @ xs) = xs"
  by (induction k) (cases xs; auto)+

lemma hd_dropWhile_zero: "dropWhile (\<lambda>d. d = 0) v = [] \<or> hd (dropWhile (\<lambda>d. d = 0) v) \<noteq> (0 :: u8)"
  using hd_dropWhile [of "\<lambda>d. d = 0" v] by blast

lemma digits_ok_strip: "digits_ok b v \<Longrightarrow> digits_ok b (dropWhile P v)"
  by (auto simp: digits_ok_def dest: set_dropWhileD)

lemma EncodeBase58_text:
  "\<exists>ds. EncodeBase58 v = Some (replicate (length (takeWhile (\<lambda>x. x = 0) v)) CHR ''1'' @ map (\<lambda>d. pszBase58 ! unat d) ds)
    \<and> digits_ok 58 ds \<and> (ds = [] \<or> hd ds \<noteq> 0) \<and> be_val 58 ds = be_val 256 (dropWhile (\<lambda>x. x = 0) v)"
proof -
  let ?w = "dropWhile (\<lambda>x. x = 0) v"
  define b :: "u8 list" where "b = replicate (length ?w * 138 div 100 + 1) 0"
  have ok: "digits_ok 58 b" by (simp add: digits_ok_def b_def)
  have zero: "be_val 58 b = 0" by (simp only: b_def be_val_zeros)
  have "be_val 256 ?w < 256 ^ length ?w" by (rule be_val_less) simp_all
  also have "\<dots> \<le> 58 ^ length b" using encode_room [of "length ?w"] by (simp only: b_def length_replicate)
  finally have "256 ^ length ?w * be_val 58 b + be_val 256 ?w < 58 ^ length b" by (simp add: zero)
  from encode_loop_spec [OF this ok] obtain r where r: "encode_loop ?w b = Some r"
    "be_val 58 r = be_val 256 ?w" "digits_ok 58 r" by (auto simp: zero)
  have "be_val 58 (dropWhile (\<lambda>d. d = 0) r) = be_val 256 ?w" using r(2) by (simp only: be_val_strip)
  moreover have "EncodeBase58 v = Some (replicate (length (takeWhile (\<lambda>x. x = 0) v)) CHR ''1''
      @ map (\<lambda>d. pszBase58 ! unat d) (dropWhile (\<lambda>d. d = 0) r))"
    using r(1) by (simp add: EncodeBase58_def Let_def b_def)
  ultimately show ?thesis using digits_ok_strip [OF r(3)] hd_dropWhile_zero [of r] by blast
qed

lemma text_chars:
  assumes "s = replicate z CHR ''1'' @ map (\<lambda>d. pszBase58 ! unat d) ds" "digits_ok 58 ds"
  shows "c_str s = s \<and> dropWhile isspace s = s"
proof -
  have c: "of_char c \<noteq> (0 :: nat) \<and> \<not> isspace c" if "c \<in> set s" for c
    using that assms enc_char by (auto simp: digits_ok_def isspace_def)
  have "takeWhile (\<lambda>c. of_char c \<noteq> (0 :: nat)) s = s" using c by (simp add: takeWhile_eq_all_conv)
  moreover have "dropWhile isspace s = s" using c by (cases s) auto
  ultimately show ?thesis by (simp add: c_str_def)
qed

lemma DecodeBase58_text:
  assumes s: "s = replicate z CHR ''1'' @ map (\<lambda>d. pszBase58 ! unat d) ds"
    and ds: "digits_ok 58 ds" "ds = [] \<or> hd ds \<noteq> 0"
    and w: "be_val 58 ds = be_val 256 w" "w = [] \<or> hd w \<noteq> 0"
  shows "DecodeBase58 s = Inr (Some (replicate z 0 @ w))"
proof -
  let ?t = "map (\<lambda>d. pszBase58 ! unat d) ds"
  define b :: "u8 list" where "b = replicate (length ?t * 733 div 1000 + 1) 0"
  have zero: "be_val 256 b = 0" and len: "length b = length ds * 733 div 1000 + 1"
    by (simp_all only: b_def be_val_zeros length_replicate length_map)
  have "?t = [] \<or> hd ?t \<noteq> CHR ''1''"
  proof (cases ds)
    case (Cons d ds')
    then have "unat d < 58" "unat d \<noteq> 0" using ds by (auto simp: digits_ok_def unat_eq_0)
    then show ?thesis using enc_char [of "unat d"] by (simp add: Cons)
  qed simp
  then have split: "takeWhile (\<lambda>c. c = CHR ''1'') s = replicate z CHR ''1''" "dropWhile (\<lambda>c. c = CHR ''1'') s = ?t"
    using takeWhile_replicate_append [of ?t "\<lambda>c. c = CHR ''1''" "CHR ''1''" z] by (simp_all add: s)
  have "58 ^ length ds * (be_val 256 b + 1) \<le> 256 ^ length b"
    using decode_room [of "length ds"] len by (simp only: zero add_0 mult_1_right)
  from decode_loop_digits [OF this ds(1)] obtain r where r: "decode_loop ?t b = Inr (Some ([], r))"
    "be_val 256 r = be_val 58 ds" by (auto simp: zero)
  have "dropWhile (\<lambda>d. d = 0) r = dropWhile (\<lambda>d. d = 0) w"
    using r(2) w(1) by (intro strip_unique [of 256]) simp_all
  moreover have "dropWhile (\<lambda>d. d = 0) w = w" using w(2) by (cases w) auto
  ultimately have "dropWhile (\<lambda>x. x = 0) r = w" by simp
  then show ?thesis using r(1) split text_chars [OF s ds(1)] by (simp add: DecodeBase58_def Let_def b_def)
qed

lemma base58_back: "\<exists>s. EncodeBase58 v = Some s \<and> DecodeBase58 s = Inr (Some v)"
proof -
  let ?z = "length (takeWhile (\<lambda>x. x = 0) v)" and ?w = "dropWhile (\<lambda>x. x = 0) v"
  obtain ds where e: "EncodeBase58 v = Some (replicate ?z CHR ''1'' @ map (\<lambda>d. pszBase58 ! unat d) ds)"
    "digits_ok 58 ds" "ds = [] \<or> hd ds \<noteq> 0" "be_val 58 ds = be_val 256 ?w"
    using EncodeBase58_text by blast
  from DecodeBase58_text [OF refl e(2-4) hd_dropWhile_zero]
  show ?thesis using e(1) leading_zeros [of v 0] by simp
qed

lemma base58check_back: "\<exists>s. EncodeBase58Check v = Some s \<and> DecodeBase58Check s = Inr (Some v)"
proof -
  have n: "length (take 4 (Hash_bytes v)) = 4" by simp
  obtain s where "EncodeBase58 (v @ take 4 (Hash_bytes v)) = Some s"
    "DecodeBase58 s = Inr (Some (v @ take 4 (Hash_bytes v)))" using base58_back by blast
  then show ?thesis using n by (simp add: EncodeBase58Check_def DecodeBase58Check_def Let_def)
qed

lemma DecodeBase58_total: "\<exists>r. DecodeBase58 str = Inr r"
proof -
  let ?t = "dropWhile (\<lambda>c. c = CHR ''1'') (dropWhile isspace (c_str str))"
  define b :: "u8 list" where "b = replicate (length ?t * 733 div 1000 + 1) 0"
  have zero: "be_val 256 b = 0" and len: "length b = length ?t * 733 div 1000 + 1"
    by (simp_all only: b_def be_val_zeros length_replicate)
  have "58 ^ length ?t * (be_val 256 b + 1) \<le> 256 ^ length b"
    using decode_room [of "length ?t"] len by (simp only: zero add_0 mult_1_right)
  from decode_loop_total [OF this] obtain r where "decode_loop ?t b = Inr r" by blast
  then show ?thesis by (simp add: DecodeBase58_def Let_def b_def split: option.split prod.split)
qed

text \<open>C39: Base-58 text.  For every byte string the encoder's assertion holds and the decoder returns
  the bytes from the text, with and without a checksum; and the decoder's assertion holds on every
  text at all, since the sizes computed with \<open>138 / 100\<close> and \<open>733 / 1000\<close> are large enough.\<close>

theorem base58_roundtrip:
  "(\<exists>s. EncodeBase58 v = Some s \<and> DecodeBase58 s = Inr (Some v))
    \<and> (\<exists>s. EncodeBase58Check v = Some s \<and> DecodeBase58Check s = Inr (Some v))
    \<and> (\<exists>r. DecodeBase58 str = Inr r)"
  using base58_back base58check_back DecodeBase58_total by blast

text \<open>An address is read back from its text, on every network.\<close>

lemma prefix_sizes: "length (Base58Prefix P PUBKEY_ADDRESS) = 1 \<and> length (Base58Prefix P SCRIPT_ADDRESS) = 1
    \<and> Base58Prefix P PUBKEY_ADDRESS \<noteq> Base58Prefix P SCRIPT_ADDRESS"
  by (cases "networkID P") (simp_all add: Base58Prefix_def)

theorem address_roundtrip:
  assumes "dest = CKeyID h \<or> dest = CScriptID h" "length h = 20"
  shows "\<exists>s a. b58_ToString (snd (CBitcoinAddress_Set P dest d)) = Some s \<and> SetString s 1 = Inr (True, a)
    \<and> CBitcoinAddress_IsValid P a \<and> CBitcoinAddress_Get P a = dest"
proof -
  let ?d = "snd (CBitcoinAddress_Set P dest d)"
  have v: "length (vchVersion ?d) = 1" "vchData ?d = h"
    using assms(1) prefix_sizes by (auto simp: SetData_def)
  obtain s where s: "EncodeBase58Check (vchVersion ?d @ vchData ?d) = Some s"
    "DecodeBase58Check s = Inr (Some (vchVersion ?d @ vchData ?d))" using base58check_back by blast
  have "SetString s 1 = Inr (True, ?d)" using s(2) v by (simp add: SetString_def)
  moreover have "CBitcoinAddress_IsValid P ?d" "CBitcoinAddress_Get P ?d = dest"
    using assms prefix_sizes [of P] by (auto simp: CBitcoinAddress_IsValid_def CBitcoinAddress_Get_def SetData_def)
  ultimately show ?thesis using s(1) by (auto simp: b58_ToString_def)
qed

end
