(* ===== verification/Orphans.thy ===== *)
theory Orphans
  imports Transaction
begin

text \<open>
  Orphan transactions (\<open>main.cpp\<close>): the map \<open>mapOrphanTransactions\<close>, its index
  \<open>mapOrphanTransactionsByPrev\<close> by the transactions an orphan waits for, and the operations that add
  to them, erase from them and bound them.  A \<open>std::map\<close> is the list of its entries in the order of
  the keys; the random hashes are a sequence given to the model.  The theorems say that the index
  always matches the map, and that the bound is enforced whatever the random hashes are.
\<close>

section \<open>The maps\<close>

record COrphanTx =
  orphan_tx :: CTransaction
  fromPeer :: int

record orphans =
  mapOrphanTransactions :: "(limbs \<times> COrphanTx) list"
  mapOrphanTransactionsByPrev :: "limbs \<Rightarrow> limbs set option"

definition no_orphans :: orphans where
  "no_orphans = \<lparr> mapOrphanTransactions = [], mapOrphanTransactionsByPrev = Map.empty \<rparr>"

text \<open>\<open>m[key] = x\<close> on a map, which keeps the keys in order.\<close>

fun map_put :: "limbs \<Rightarrow> 'v \<Rightarrow> (limbs \<times> 'v) list \<Rightarrow> (limbs \<times> 'v) list" where
  "map_put k x [] = [(k, x)]"
| "map_put k x ((k', y) # m) =
     (if pn_val k < pn_val k' then (k, x) # (k', y) # m
      else if k = k' then (k, x) # m else (k', y) # map_put k x m)"

definition map_erase :: "limbs \<Rightarrow> (limbs \<times> 'v) list \<Rightarrow> (limbs \<times> 'v) list" where
  "map_erase k m = filter (\<lambda>(k', y). k' \<noteq> k) m"

text \<open>\<open>lower_bound\<close>: the first entry whose key is not below.\<close>

definition lower_bound :: "limbs \<Rightarrow> (limbs \<times> 'v) list \<Rightarrow> (limbs \<times> 'v) option" where
  "lower_bound k m = List.find (\<lambda>(k', y). \<not> pn_val k' < pn_val k) m"

section \<open>The operations\<close>

text \<open>\<open>mapOrphanTransactionsByPrev[prev].insert(hash)\<close>\<close>

definition prev_insert :: "limbs \<Rightarrow> limbs \<Rightarrow> (limbs \<Rightarrow> limbs set option) \<Rightarrow> limbs \<Rightarrow> limbs set option" where
  "prev_insert hash prev b = b(prev \<mapsto> insert hash (case b prev of None \<Rightarrow> {} | Some s \<Rightarrow> s))"

definition AddOrphanTx :: "CTransaction \<Rightarrow> int \<Rightarrow> orphans \<Rightarrow> bool \<times> orphans" where
  "AddOrphanTx tx peer s =
     (let hash = tx_hash tx in
      if map_of (mapOrphanTransactions s) hash \<noteq> None then (False, s)
      else if length (ser_tx tx) > 5000 then (False, s)
      else (True, s\<lparr> mapOrphanTransactions := map_put hash \<lparr> orphan_tx = tx, fromPeer = peer \<rparr> (mapOrphanTransactions s),
                     mapOrphanTransactionsByPrev :=
                       foldl (\<lambda>b i. prev_insert hash (op_hash (prevout i)) b) (mapOrphanTransactionsByPrev s) (vin tx) \<rparr>))"

text \<open>One input of \<open>EraseOrphanTx\<close>.\<close>

definition prev_erase :: "limbs \<Rightarrow> limbs \<Rightarrow> (limbs \<Rightarrow> limbs set option) \<Rightarrow> limbs \<Rightarrow> limbs set option" where
  "prev_erase hash prev b =
     (case b prev of
        None \<Rightarrow> b
      | Some s \<Rightarrow> if s - {hash} = {} then b(prev := None) else b(prev \<mapsto> s - {hash}))"

definition EraseOrphanTx :: "limbs \<Rightarrow> orphans \<Rightarrow> orphans" where
  "EraseOrphanTx hash s =
     (case map_of (mapOrphanTransactions s) hash of
        None \<Rightarrow> s
      | Some it \<Rightarrow>
          s\<lparr> mapOrphanTransactionsByPrev :=
               foldl (\<lambda>b i. prev_erase hash (op_hash (prevout i)) b) (mapOrphanTransactionsByPrev s) (vin (orphan_tx it)),
             mapOrphanTransactions := map_erase hash (mapOrphanTransactions s) \<rparr>)"

text \<open>The loop runs over the entries with an iterator that has moved on before the erasure; the
  count is what is logged.\<close>

fun erase_for_loop :: "int \<Rightarrow> (limbs \<times> COrphanTx) list \<Rightarrow> orphans \<Rightarrow> nat \<Rightarrow> orphans \<times> nat" where
  "erase_for_loop peer [] s nErased = (s, nErased)"
| "erase_for_loop peer ((k, it) # m) s nErased =
     (if fromPeer it = peer then erase_for_loop peer m (EraseOrphanTx (tx_hash (orphan_tx it)) s) (nErased + 1)
      else erase_for_loop peer m s nErased)"

definition EraseOrphansFor :: "int \<Rightarrow> orphans \<Rightarrow> orphans" where
  "EraseOrphansFor peer s = fst (erase_for_loop peer (mapOrphanTransactions s) s 0)"

text \<open>The entry that is evicted for a random hash, from a map that is not empty.\<close>

definition evicted :: "limbs \<Rightarrow> (limbs \<times> 'v) list \<Rightarrow> limbs" where
  "evicted randomhash m = fst (case lower_bound randomhash m of None \<Rightarrow> hd m | Some it \<Rightarrow> it)"

lemma evicted_in: "m \<noteq> [] \<Longrightarrow> evicted r m \<in> fst ` set m"
  by (auto simp: evicted_def lower_bound_def find_Some_iff split: option.split) (metis fst_conv imageI nth_mem)

lemma erase_shrinks:
  assumes "k \<in> fst ` set (mapOrphanTransactions s)"
  shows "length (mapOrphanTransactions (EraseOrphanTx k s)) < length (mapOrphanTransactions s)"
proof -
  obtain y where y: "map_of (mapOrphanTransactions s) k = Some y" using assms
    by (metis domD dom_map_of_conv_image_fst)
  obtain z where "(k, z) \<in> set (mapOrphanTransactions s)" using assms by auto
  then show ?thesis using y by (auto simp: EraseOrphanTx_def map_erase_def intro!: length_filter_less)
qed

text \<open>The state and \<open>nEvicted\<close>; \<open>rand i\<close> is the \<open>i\<close>-th result of \<open>GetRandHash\<close>.\<close>

function LimitOrphanTxSize_loop :: "(nat \<Rightarrow> limbs) \<Rightarrow> nat \<Rightarrow> orphans \<Rightarrow> nat \<Rightarrow> nat \<times> orphans" where
  "LimitOrphanTxSize_loop rand nMaxOrphans s nEvicted =
     (if length (mapOrphanTransactions s) > nMaxOrphans then
        LimitOrphanTxSize_loop rand nMaxOrphans
          (EraseOrphanTx (evicted (rand nEvicted) (mapOrphanTransactions s)) s) (nEvicted + 1)
      else (nEvicted, s))"
  by auto
termination
  by (relation "measure (\<lambda>(r, n, s, k). length (mapOrphanTransactions s))")
    (auto intro!: erase_shrinks evicted_in)

declare LimitOrphanTxSize_loop.simps [simp del]

definition LimitOrphanTxSize :: "(nat \<Rightarrow> limbs) \<Rightarrow> u32 \<Rightarrow> orphans \<Rightarrow> nat \<times> orphans" where
  "LimitOrphanTxSize rand nMaxOrphans s = LimitOrphanTxSize_loop rand (unat nMaxOrphans) s 0"

section \<open>The invariant\<close>

text \<open>The keys are the hashes of the transactions, in order and distinct; no transaction is large; and
  the index has, for every transaction an orphan spends from, exactly the hashes of those orphans.\<close>

definition waits :: "orphans \<Rightarrow> limbs \<Rightarrow> limbs set" where
  "waits s prev = {k. \<exists>it. (k, it) \<in> set (mapOrphanTransactions s) \<and> prev \<in> op_hash ` prevout ` set (vin (orphan_tx it))}"

definition stored :: "limbs set \<Rightarrow> limbs set option" where
  "stored w = (if w = {} then None else Some w)"

definition orphans_ok :: "orphans \<Rightarrow> bool" where
  "orphans_ok s \<longleftrightarrow>
     distinct (map fst (mapOrphanTransactions s)) \<and>
     (\<forall>(k, it) \<in> set (mapOrphanTransactions s). k = tx_hash (orphan_tx it) \<and> length (ser_tx (orphan_tx it)) \<le> 5000) \<and>
     (\<forall>prev. mapOrphanTransactionsByPrev s prev = stored (waits s prev))"

lemma set_map_put:
  "k \<notin> fst ` set m \<Longrightarrow> set (map_put k x m) = insert (k, x) (set m)"
  by (induction m) (auto split: if_splits)

lemma distinct_map_put:
  "k \<notin> fst ` set m \<Longrightarrow> distinct (map fst m) \<Longrightarrow> distinct (map fst (map_put k x m))"
proof (induction m)
  case (Cons a m)
  obtain k' y where a: "a = (k', y)" by (cases a)
  have "fst ` set (map_put k x m) = insert k (fst ` set m)" using Cons.prems set_map_put [of k m x] by simp
  then show ?case using Cons by (auto simp: a)
qed simp

lemma foldl_prev_insert:
  "foldl (\<lambda>b i. prev_insert h (op_hash (prevout i)) b) b is prev =
     (if prev \<in> op_hash ` prevout ` set is
      then Some (insert h (case b prev of None \<Rightarrow> {} | Some s \<Rightarrow> s)) else b prev)"
  by (induction "is" arbitrary: b) (auto simp: prev_insert_def)

definition without :: "limbs \<Rightarrow> limbs set option \<Rightarrow> limbs set option" where
  "without h x = (case x of None \<Rightarrow> None | Some s \<Rightarrow> if s - {h} = {} then None else Some (s - {h}))"

lemma without_twice [simp]: "without h (without h x) = without h x"
  by (auto simp: without_def split: option.split)

lemma without_stored: "without h (stored w) = stored (w - {h})"
  by (auto simp: without_def stored_def)

lemma insert_stored: "Some (insert h (case stored w of None \<Rightarrow> {} | Some s \<Rightarrow> s)) = stored (insert h w)"
  by (simp add: stored_def)

lemma prev_erase_eq: "prev_erase h p b = b(p := without h (b p))"
  by (auto simp: prev_erase_def without_def fun_upd_idem split: option.split)

lemma foldl_prev_erase:
  "foldl (\<lambda>b i. prev_erase h (op_hash (prevout i)) b) b is prev =
     (if prev \<in> op_hash ` prevout ` set is then without h (b prev) else b prev)"
  by (induction "is" arbitrary: b) (auto simp: prev_erase_eq)

lemma orphans_map_of:
  assumes "orphans_ok s"
  shows "map_of (mapOrphanTransactions s) k = Some it \<longleftrightarrow> (k, it) \<in> set (mapOrphanTransactions s)"
  using assms by (auto simp: orphans_ok_def dest: map_of_SomeD)

lemma AddOrphanTx_ok:
  assumes "orphans_ok s"
  shows "orphans_ok (snd (AddOrphanTx tx peer s))"
proof (cases "fst (AddOrphanTx tx peer s)")
  case False
  then show ?thesis using assms by (auto simp: AddOrphanTx_def Let_def split: if_splits)
next
  case True
  let ?h = "tx_hash tx"
  have new: "?h \<notin> fst ` set (mapOrphanTransactions s)" and small: "length (ser_tx tx) \<le> 5000"
    using True by (auto simp: AddOrphanTx_def Let_def map_of_eq_None_iff split: if_splits)
  let ?s = "snd (AddOrphanTx tx peer s)"
  have m: "mapOrphanTransactions ?s = map_put ?h \<lparr> orphan_tx = tx, fromPeer = peer \<rparr> (mapOrphanTransactions s)"
    and b: "mapOrphanTransactionsByPrev ?s =
      foldl (\<lambda>b i. prev_insert ?h (op_hash (prevout i)) b) (mapOrphanTransactionsByPrev s) (vin tx)"
    using True by (auto simp: AddOrphanTx_def Let_def split: if_splits)
  have set: "set (mapOrphanTransactions ?s) = insert (?h, \<lparr> orphan_tx = tx, fromPeer = peer \<rparr>) (set (mapOrphanTransactions s))"
    unfolding m by (rule set_map_put [OF new])
  have "mapOrphanTransactionsByPrev ?s prev = stored (waits ?s prev)" for prev
  proof -
    have "waits ?s prev = (if prev \<in> op_hash ` prevout ` set (vin tx) then insert ?h (waits s prev) else waits s prev)"
      unfolding waits_def set by auto
    moreover have "mapOrphanTransactionsByPrev s prev = stored (waits s prev)" using assms by (simp add: orphans_ok_def)
    ultimately show ?thesis unfolding b foldl_prev_insert by (simp only: insert_stored split: if_split) simp
  qed
  moreover have "distinct (map fst (mapOrphanTransactions ?s))"
    unfolding m using assms by (intro distinct_map_put [OF new]) (simp add: orphans_ok_def)
  moreover have "\<forall>(k, it) \<in> set (mapOrphanTransactions ?s). k = tx_hash (orphan_tx it) \<and> length (ser_tx (orphan_tx it)) \<le> 5000"
    unfolding set using assms small by (auto simp: orphans_ok_def)
  ultimately show ?thesis unfolding orphans_ok_def by blast
qed

lemma EraseOrphanTx_ok:
  assumes "orphans_ok s"
  shows "orphans_ok (EraseOrphanTx h s)
    \<and> mapOrphanTransactions (EraseOrphanTx h s) = map_erase h (mapOrphanTransactions s)"
proof (cases "map_of (mapOrphanTransactions s) h")
  case None
  then have "\<forall>x \<in> set (mapOrphanTransactions s). fst x \<noteq> h" by (auto simp: map_of_eq_None_iff)
  then have "map_erase h (mapOrphanTransactions s) = mapOrphanTransactions s"
    by (auto simp: map_erase_def filter_id_conv)
  then show ?thesis using None assms by (simp add: EraseOrphanTx_def)
next
  case (Some it)
  let ?s = "EraseOrphanTx h s"
  have mem: "(k, it') \<in> set (mapOrphanTransactions s) \<Longrightarrow> k = h \<Longrightarrow> it' = it" for k it'
    using Some orphans_map_of [OF assms] by (metis option.inject)
  have m: "mapOrphanTransactions ?s = map_erase h (mapOrphanTransactions s)"
    and b: "mapOrphanTransactionsByPrev ?s =
      foldl (\<lambda>b i. prev_erase h (op_hash (prevout i)) b) (mapOrphanTransactionsByPrev s) (vin (orphan_tx it))"
    using Some by (simp_all add: EraseOrphanTx_def)
  have set: "set (mapOrphanTransactions ?s) = {x \<in> set (mapOrphanTransactions s). fst x \<noteq> h}"
    unfolding m map_erase_def by auto
  have "mapOrphanTransactionsByPrev ?s prev = stored (waits ?s prev)" for prev
  proof -
    have "waits ?s prev = waits s prev - {h}" unfolding waits_def set by auto
    moreover have "h \<in> waits s prev \<longleftrightarrow> prev \<in> op_hash ` prevout ` set (vin (orphan_tx it))"
      unfolding waits_def using mem Some orphans_map_of [OF assms] by blast
    moreover have "mapOrphanTransactionsByPrev s prev = stored (waits s prev)" using assms by (simp add: orphans_ok_def)
    ultimately show ?thesis unfolding b foldl_prev_erase by (simp add: without_stored)
  qed
  moreover have "distinct (map fst (mapOrphanTransactions ?s))"
    unfolding m map_erase_def using assms by (simp add: orphans_ok_def distinct_map_filter)
  moreover have "\<forall>(k, it) \<in> set (mapOrphanTransactions ?s). k = tx_hash (orphan_tx it) \<and> length (ser_tx (orphan_tx it)) \<le> 5000"
    unfolding set using assms by (auto simp: orphans_ok_def)
  ultimately show ?thesis using m unfolding orphans_ok_def by blast
qed

lemma map_erase_sub: "set (map_erase k m) \<subseteq> set m"
  by (auto simp: map_erase_def)

lemma length_map_erase:
  assumes "distinct (map fst m)" "k \<in> fst ` set m"
  shows "length (map_erase k m) + 1 = length m"
  using assms
proof (induction m)
  case (Cons a m)
  show ?case
  proof (cases "fst a = k")
    case True
    then have "map_erase k m = m" using Cons.prems(1) by (auto simp: map_erase_def filter_id_conv) (metis fst_conv imageI)
    then show ?thesis using True by (simp add: map_erase_def case_prod_beta)
  next
    case False
    then show ?thesis using Cons by (auto simp: map_erase_def case_prod_beta)
  qed
qed simp

lemma erase_for_ok:
  assumes "orphans_ok s" "\<forall>(k, it) \<in> set m. k = tx_hash (orphan_tx it)"
  shows "orphans_ok (fst (erase_for_loop peer m s n))
    \<and> mapOrphanTransactions (fst (erase_for_loop peer m s n))
      = filter (\<lambda>(k, it). \<forall>(k', it') \<in> set m. fromPeer it' = peer \<longrightarrow> k' \<noteq> k) (mapOrphanTransactions s)"
  using assms
proof (induction peer m s n rule: erase_for_loop.induct)
  case (1 peer s n)
  then show ?case by (simp add: filter_id_conv case_prod_beta)
next
  case (2 peer k it m s n)
  show ?case
  proof (cases "fromPeer it = peer")
    case True
    have e: "orphans_ok (EraseOrphanTx k s)"
      "mapOrphanTransactions (EraseOrphanTx k s) = map_erase k (mapOrphanTransactions s)"
      using EraseOrphanTx_ok [OF "2.prems"(1)] by auto
    have k: "tx_hash (orphan_tx it) = k" using "2.prems"(2) by simp
    show ?thesis using "2.IH"(1) [OF True] e k True "2.prems"(2)
      by (auto simp: map_erase_def case_prod_beta intro!: filter_cong)
  next
    case False
    then show ?thesis using "2.IH"(2) [OF False] "2.prems" by (simp add: case_prod_beta)
  qed
qed

lemma EraseOrphansFor_ok:
  assumes "orphans_ok s"
  shows "orphans_ok (EraseOrphansFor peer s) \<and> mapOrphanTransactions (EraseOrphansFor peer s)
    = filter (\<lambda>(k, it). fromPeer it \<noteq> peer) (mapOrphanTransactions s)"
proof -
  let ?m = "mapOrphanTransactions s"
  have keys: "\<forall>(k, it) \<in> set ?m. k = tx_hash (orphan_tx it)" using assms by (auto simp: orphans_ok_def)
  have d: "distinct (map fst ?m)" using assms by (simp add: orphans_ok_def)
  have "filter (\<lambda>(k, it). \<forall>(k', it') \<in> set ?m. fromPeer it' = peer \<longrightarrow> k' \<noteq> k) ?m
      = filter (\<lambda>(k, it). fromPeer it \<noteq> peer) ?m"
    using d by (intro filter_cong refl) (auto dest: eq_key_imp_eq_value)
  then show ?thesis using erase_for_ok [OF assms keys, of peer 0] by (simp add: EraseOrphansFor_def)
qed

lemma LimitOrphanTxSize_ok:
  assumes "orphans_ok s" "LimitOrphanTxSize_loop rand n s k = (e, s')"
  shows "orphans_ok s' \<and> set (mapOrphanTransactions s') \<subseteq> set (mapOrphanTransactions s)
    \<and> length (mapOrphanTransactions s') = min n (length (mapOrphanTransactions s))
    \<and> e = k + (length (mapOrphanTransactions s) - n)"
  using assms
proof (induction rand n s k rule: LimitOrphanTxSize_loop.induct)
  case (1 rand n s k)
  let ?m = "mapOrphanTransactions s"
  show ?case
  proof (cases "length ?m > n")
    case True
    let ?v = "evicted (rand k) ?m"
    have v: "?v \<in> fst ` set ?m" using True by (intro evicted_in) auto
    have e: "orphans_ok (EraseOrphanTx ?v s)" "mapOrphanTransactions (EraseOrphanTx ?v s) = map_erase ?v ?m"
      using EraseOrphanTx_ok [OF "1.prems"(1)] by auto
    have "LimitOrphanTxSize_loop rand n (EraseOrphanTx ?v s) (k + 1) = (e, s')"
      using "1.prems"(2) True by (simp add: LimitOrphanTxSize_loop.simps [of rand n s k])
    from "1.IH" [OF True e(1) this] show ?thesis
      using length_map_erase [OF _ v] "1.prems"(1) True map_erase_sub [of ?v ?m] e(2)
      by (auto simp: orphans_ok_def)
  next
    case False
    then show ?thesis using "1.prems" by (simp add: LimitOrphanTxSize_loop.simps [of rand n s k])
  qed
qed

section \<open>The contract\<close>

text \<open>C40: The index of the orphan transactions always matches their map: every operation keeps it so.
  A peer that leaves takes exactly its orphans with it, and \<open>LimitOrphanTxSize\<close> ends with at most
  \<open>nMaxOrphans\<close> orphans, having evicted no more than it had to, whatever random hashes it draws.\<close>

theorem orphan_index_matches:
  assumes "orphans_ok s"
  shows "orphans_ok (snd (AddOrphanTx tx peer s)) \<and> orphans_ok (EraseOrphanTx h s)
    \<and> orphans_ok (EraseOrphansFor peer s)
    \<and> mapOrphanTransactions (EraseOrphansFor peer s) = filter (\<lambda>(k, it). fromPeer it \<noteq> peer) (mapOrphanTransactions s)
    \<and> (case LimitOrphanTxSize rand nMaxOrphans s of (nEvicted, s') \<Rightarrow>
        orphans_ok s' \<and> length (mapOrphanTransactions s') = min (unat nMaxOrphans) (length (mapOrphanTransactions s))
        \<and> nEvicted = length (mapOrphanTransactions s) - unat nMaxOrphans)"
proof -
  obtain e s' where l: "LimitOrphanTxSize_loop rand (unat nMaxOrphans) s 0 = (e, s')" by fastforce
  show ?thesis
    using AddOrphanTx_ok [OF assms] EraseOrphanTx_ok [OF assms] EraseOrphansFor_ok [OF assms]
      LimitOrphanTxSize_ok [OF assms l] l
    by (simp add: LimitOrphanTxSize_def)
qed

lemma no_orphans_ok: "orphans_ok no_orphans"
  by (simp add: orphans_ok_def no_orphans_def waits_def stored_def)

theorem orphan_index_matches_witness:
  "mapOrphanTransactions (snd (LimitOrphanTxSize (\<lambda>i. bu_zero 8) 0 (snd (AddOrphanTx CTransaction_new 1 no_orphans)))) = []"
  using orphan_index_matches [OF AddOrphanTx_ok [OF no_orphans_ok, of CTransaction_new 1],
      where rand = "\<lambda>i. bu_zero 8" and nMaxOrphans = 0 and tx = CTransaction_new and peer = 1 and h = "[]"]
  by (auto split: prod.splits)

end
