(* ===== verification/Bloom.thy ===== *)
theory Bloom
  imports Standard
begin

unbundle bit_operations_syntax

text \<open>
  Bloom filters (\<open>bloom.h\<close>, \<open>bloom.cpp\<close>) and the filtered blocks built with them (\<open>CMerkleBlock\<close> of
  \<open>merkleblock.cpp\<close>).  \<open>None\<close> stands for what C++ leaves undefined on a filter or a script: the
  remainder by the size of an empty filter, and a range of a script that ends before it begins.
  The size and the number of hash functions that the constructor computes in floating point are
  its arguments, and so is the serial number that libzerocoin reads off a zerocoin spend.
  The theorems say that a filter never forgets: what it contains it still contains after every
  operation of a node, so that there are no false negatives.
\<close>

section \<open>The filter\<close>

definition MAX_BLOOM_FILTER_SIZE :: nat where "MAX_BLOOM_FILTER_SIZE = 36000"
definition MAX_HASH_FUNCS :: u32 where "MAX_HASH_FUNCS = 50"

definition BLOOM_UPDATE_NONE :: u8 where "BLOOM_UPDATE_NONE = 0"
definition BLOOM_UPDATE_ALL :: u8 where "BLOOM_UPDATE_ALL = 1"
definition BLOOM_UPDATE_P2PUBKEY_ONLY :: u8 where "BLOOM_UPDATE_P2PUBKEY_ONLY = 2"
definition BLOOM_UPDATE_MASK :: u8 where "BLOOM_UPDATE_MASK = 3"

record CBloomFilter =
  bf_vData :: bytes
  bf_isFull :: bool
  bf_isEmpty :: bool
  bf_nHashFuncs :: u32
  bf_nTweak :: u32
  bf_nFlags :: u8

definition CBloomFilter_new :: CBloomFilter where
  "CBloomFilter_new = \<lparr> bf_vData = [], bf_isFull = True, bf_isEmpty = False,
     bf_nHashFuncs = 0, bf_nTweak = 0, bf_nFlags = 0 \<rparr>"

text \<open>The first two arguments are the numbers that the constructor computes.\<close>

definition CBloomFilter_of :: "nat \<Rightarrow> u32 \<Rightarrow> u32 \<Rightarrow> u8 \<Rightarrow> CBloomFilter" where
  "CBloomFilter_of nSizeBits nFuncs nTweakIn nFlagsIn =
     \<lparr> bf_vData = replicate (min nSizeBits (MAX_BLOOM_FILTER_SIZE * 8) div 8) 0, bf_isFull = False, bf_isEmpty = False,
        bf_nHashFuncs = min nFuncs MAX_HASH_FUNCS, bf_nTweak = nTweakIn, bf_nFlags = nFlagsIn \<rparr>"

definition ser_filter :: "CBloomFilter \<Rightarrow> bytes" where
  "ser_filter f = ser_blob (bf_vData f) @ ser_u32 (bf_nHashFuncs f) @ ser_u32 (bf_nTweak f) @ [bf_nFlags f]"

definition unser_filter :: "CBloomFilter \<Rightarrow> CBloomFilter reader" where
  "unser_filter f = rbind unser_blob (\<lambda>d. rbind unser_u32 (\<lambda>n. rbind unser_u32 (\<lambda>t. rbind unser_u8 (\<lambda>g.
     rreturn (f\<lparr> bf_vData := d, bf_nHashFuncs := n, bf_nTweak := t, bf_nFlags := g \<rparr>)))))"

text \<open>The index of a bit, when there are any.\<close>

definition bf_Hash :: "CBloomFilter \<Rightarrow> u32 \<Rightarrow> bytes \<Rightarrow> nat" where
  "bf_Hash f nHashNum v = unat (MurmurHash3 (nHashNum * 0xFBA4C795 + bf_nTweak f) v) mod (length (bf_vData f) * 8)"

lemma bf_Hash_code [code]: "bf_Hash f nHashNum v =
    nat (uint (MurmurHash3 (nHashNum * 0xFBA4C795 + bf_nTweak f) v) mod (int (length (bf_vData f)) * 8))"
  by (simp add: bf_Hash_def unat_eq_nat_uint nat_mod_distrib nat_mult_distrib del: nat_uint_eq)

definition set_index :: "nat \<Rightarrow> bytes \<Rightarrow> bytes" where
  "set_index nIndex d = d[nIndex div 8 := d ! (nIndex div 8) OR push_bit (nIndex mod 8) 1]"

definition test_index :: "nat \<Rightarrow> bytes \<Rightarrow> bool" where
  "test_index nIndex d \<longleftrightarrow> d ! (nIndex div 8) AND push_bit (nIndex mod 8) 1 \<noteq> 0"

definition setNotFull :: "CBloomFilter \<Rightarrow> CBloomFilter" where
  "setNotFull f = f\<lparr> bf_isFull := False \<rparr>"

definition hash_nums :: "CBloomFilter \<Rightarrow> u32 list" where
  "hash_nums f = map of_nat [0..<unat (bf_nHashFuncs f)]"

definition bf_insert :: "bytes \<Rightarrow> CBloomFilter \<Rightarrow> CBloomFilter option" where
  "bf_insert vKey f =
     (if bf_isFull f then Some f
      else if bf_nHashFuncs f \<noteq> 0 \<and> bf_vData f = [] then None
      else Some (f\<lparr> bf_vData := foldl (\<lambda>d i. set_index (bf_Hash f i vKey) d) (bf_vData f) (hash_nums f),
                    bf_isEmpty := False \<rparr>))"

definition bf_contains :: "bytes \<Rightarrow> CBloomFilter \<Rightarrow> bool option" where
  "bf_contains vKey f =
     (if bf_isFull f then Some True
      else if bf_isEmpty f then Some False
      else if bf_nHashFuncs f \<noteq> 0 \<and> bf_vData f = [] then None
      else Some (list_all (\<lambda>i. test_index (bf_Hash f i vKey) (bf_vData f)) (hash_nums f)))"

definition insert_outpoint :: "COutPoint \<Rightarrow> CBloomFilter \<Rightarrow> CBloomFilter option" where
  "insert_outpoint out1 f = bf_insert (ser_outpoint out1) f"

definition contains_outpoint :: "COutPoint \<Rightarrow> CBloomFilter \<Rightarrow> bool option" where
  "contains_outpoint out1 f = bf_contains (ser_outpoint out1) f"

definition insert_hash :: "limbs \<Rightarrow> CBloomFilter \<Rightarrow> CBloomFilter option" where
  "insert_hash h f = bf_insert (ser_uint h) f"

definition contains_hash :: "limbs \<Rightarrow> CBloomFilter \<Rightarrow> bool option" where
  "contains_hash h f = bf_contains (ser_uint h) f"

definition bf_clear :: "CBloomFilter \<Rightarrow> CBloomFilter" where
  "bf_clear f = f\<lparr> bf_vData := replicate (length (bf_vData f)) 0, bf_isFull := False, bf_isEmpty := True \<rparr>"

definition IsWithinSizeConstraints :: "CBloomFilter \<Rightarrow> bool" where
  "IsWithinSizeConstraints f \<longleftrightarrow> length (bf_vData f) \<le> MAX_BLOOM_FILTER_SIZE \<and> bf_nHashFuncs f \<le> MAX_HASH_FUNCS"

definition MatchesAll :: "CBloomFilter \<Rightarrow> bool" where
  "MatchesAll f \<longleftrightarrow> list_all (\<lambda>b. b = 0xff) (bf_vData f)"

text \<open>The merged filter and the result; the other branch writes to a vector it has just emptied.\<close>

definition Merge :: "CBloomFilter \<Rightarrow> CBloomFilter \<Rightarrow> (bool \<times> CBloomFilter) option" where
  "Merge g f =
     (if \<not> MatchesAll f \<and> \<not> MatchesAll g then
        if \<not> (length (bf_vData g) = length (bf_vData f) \<and> bf_nHashFuncs g = bf_nHashFuncs f \<and> bf_nTweak g = bf_nTweak f)
        then Some (False, f)
        else Some (True, f\<lparr> bf_vData := map2 (OR) (bf_vData f) (bf_vData g) \<rparr>)
      else None)"

definition UpdateEmptyFull :: "CBloomFilter \<Rightarrow> CBloomFilter" where
  "UpdateEmptyFull f = f\<lparr> bf_isFull := list_all (\<lambda>b. b = 0xff) (bf_vData f),
     bf_isEmpty := list_all (\<lambda>b. b = 0) (bf_vData f) \<rparr>"

section \<open>Relevant transactions\<close>

text \<open>Whether a data element of the script of an output is in the filter.\<close>

function output_matches :: "CBloomFilter \<Rightarrow> CTxOut \<Rightarrow> bytes \<Rightarrow> bool option" where
  "output_matches f txo pc =
     (if pc = [] then Some False
      else let g = GetOp2 pc in
        if \<not> go_ok g then Some False
        else
          let s = scriptPubKey txo;
              bad = (CTxOut_IsZerocoinMint txo \<and> length s < 6);
              data = (if CTxOut_IsZerocoinMint txo then drop 6 s else go_data g) in
          if bad then None
          else (case (if data = [] then Some False else bf_contains data f) of
              None \<Rightarrow> None
            | Some True \<Rightarrow> Some True
            | Some False \<Rightarrow> output_matches f txo (go_pc g)))"
  by auto
termination
  by (relation "measure (\<lambda>(f, t, pc). length pc)") auto

declare output_matches.simps [simp del]

text \<open>The filter learns the outpoint of an output that matched, as its flags say.\<close>

definition update_filter :: "limbs \<Rightarrow> nat \<Rightarrow> CTxOut \<Rightarrow> CBloomFilter \<Rightarrow> CBloomFilter option" where
  "update_filter hash i txo f =
     (let out1 = \<lparr> op_hash = hash, op_n = of_nat i \<rparr> in
      if bf_nFlags f AND BLOOM_UPDATE_MASK = BLOOM_UPDATE_ALL then insert_outpoint out1 f
      else if bf_nFlags f AND BLOOM_UPDATE_MASK = BLOOM_UPDATE_P2PUBKEY_ONLY then
        (case Solver (scriptPubKey txo) of
           None \<Rightarrow> None
         | Some (r, t, sols) \<Rightarrow> if r \<and> (t = TX_PUBKEY \<or> t = TX_MULTISIG) then insert_outpoint out1 f else Some f)
      else Some f)"

fun outputs_loop :: "limbs \<Rightarrow> nat \<Rightarrow> CTxOut list \<Rightarrow> bool \<Rightarrow> CBloomFilter \<Rightarrow> (bool \<times> CBloomFilter) option" where
  "outputs_loop hash i [] fFound f = Some (fFound, f)"
| "outputs_loop hash i (txo # os) fFound f =
     (case output_matches f txo (scriptPubKey txo) of
        None \<Rightarrow> None
      | Some False \<Rightarrow> outputs_loop hash (i + 1) os fFound f
      | Some True \<Rightarrow>
          (case update_filter hash i txo f of
             None \<Rightarrow> None
           | Some f \<Rightarrow> outputs_loop hash (i + 1) os True f))"

text \<open>The same for the script of an input; \<open>parse\<close> is \<open>CoinSpend::ParseSerial\<close>.\<close>

function input_matches :: "(bytes \<Rightarrow> bytes option) \<Rightarrow> CBloomFilter \<Rightarrow> CTxIn \<Rightarrow> bytes \<Rightarrow> bool option" where
  "input_matches parse f i pc =
     (if pc = [] then Some False
      else let g = GetOp2 pc in
        if \<not> go_ok g then Some False
        else
          (case (if CTxIn_IsZerocoinSpend i
                 then (if length (scriptSig i) < 44 then None else parse (drop 44 (scriptSig i)))
                 else Some (go_data g)) of
             None \<Rightarrow> None
           | Some data \<Rightarrow>
               (case (if data = [] then Some False else bf_contains data f) of
                  None \<Rightarrow> None
                | Some True \<Rightarrow> Some True
                | Some False \<Rightarrow> input_matches parse f i (go_pc g))))"
  by auto
termination
  by (relation "measure (\<lambda>(p, f, t, pc). length pc)") auto

declare input_matches.simps [simp del]

fun inputs_loop :: "(bytes \<Rightarrow> bytes option) \<Rightarrow> CBloomFilter \<Rightarrow> CTxIn list \<Rightarrow> bool option" where
  "inputs_loop parse f [] = Some False"
| "inputs_loop parse f (i # is) =
     (case contains_outpoint (prevout i) f of
        None \<Rightarrow> None
      | Some True \<Rightarrow> Some True
      | Some False \<Rightarrow>
          (case input_matches parse f i (scriptSig i) of
             None \<Rightarrow> None
           | Some True \<Rightarrow> Some True
           | Some False \<Rightarrow> inputs_loop parse f is))"

definition IsRelevantAndUpdate ::
  "(bytes \<Rightarrow> bytes option) \<Rightarrow> CTransaction \<Rightarrow> CBloomFilter \<Rightarrow> (bool \<times> CBloomFilter) option" where
  "IsRelevantAndUpdate parse tx f =
     (if bf_isFull f then Some (True, f)
      else if bf_isEmpty f then Some (False, f)
      else (case contains_hash (tx_hash tx) f of
          None \<Rightarrow> None
        | Some fFound \<Rightarrow>
            (case outputs_loop (tx_hash tx) 0 (vout tx) fFound f of
               None \<Rightarrow> None
             | Some (True, f) \<Rightarrow> Some (True, f)
             | Some (False, f) \<Rightarrow> map_option (\<lambda>r. (r, f)) (inputs_loop parse f (vin tx)))))"

section \<open>Filtered blocks\<close>

record CMerkleBlock =
  mb_header :: CBlockHeader
  mb_txn :: CPartialMerkleTree
  mb_vMatchedTxn :: "(u32 \<times> limbs) list"

text \<open>\<open>vMatch\<close>, \<open>vMatchedTxn\<close>, \<open>vHashes\<close> and the filter, from the transaction with index \<open>i\<close> on.\<close>

fun filter_loop :: "(bytes \<Rightarrow> bytes option) \<Rightarrow> u32 \<Rightarrow> CTransaction list \<Rightarrow> CBloomFilter
    \<Rightarrow> (bool list \<times> (u32 \<times> limbs) list \<times> limbs list \<times> CBloomFilter) option" where
  "filter_loop parse i [] f = Some ([], [], [], f)"
| "filter_loop parse i (tx # txs) f =
     (case IsRelevantAndUpdate parse tx f of
        None \<Rightarrow> None
      | Some (r, f) \<Rightarrow>
          map_option (\<lambda>(ms, ts, hs, f). (r # ms, (if r then (i, tx_hash tx) # ts else ts), tx_hash tx # hs, f))
            (filter_loop parse (i + 1) txs f))"

definition CMerkleBlock_of ::
  "(bytes \<Rightarrow> bytes option) \<Rightarrow> CBlock \<Rightarrow> CBloomFilter \<Rightarrow> (CMerkleBlock \<times> CBloomFilter) option" where
  "CMerkleBlock_of parse block f =
     map_option (\<lambda>(vMatch, vMatched, vHashes, f).
       (\<lparr> mb_header = GetBlockHeader block, mb_txn = CPartialMerkleTree_of vHashes vMatch, mb_vMatchedTxn = vMatched \<rparr>, f))
       (filter_loop parse 0 (vtx block) f)"

definition ser_merkleblock :: "CMerkleBlock \<Rightarrow> bytes" where
  "ser_merkleblock m = ser_header (mb_header m) @ ser_pmt (mb_txn m)"

section \<open>The bits\<close>

lemma length_set_index [simp]: "length (set_index n d) = length d"
  by (simp add: set_index_def)

lemma test_index_bit: "test_index n d \<longleftrightarrow> bit (d ! (n div 8)) (n mod 8)"
  by (simp add: test_index_def bit_iff_and_push_bit_not_eq_0)

lemma test_set_index:
  assumes "m div 8 < length d"
  shows "test_index n (set_index m d) \<longleftrightarrow> n = m \<or> test_index n d"
proof (cases "n div 8 = m div 8")
  case True
  have "n = m \<longleftrightarrow> n mod 8 = m mod 8" using True by (metis div_mult_mod_eq)
  then show ?thesis using assms True by (auto simp: test_index_bit set_index_def bit_simps)
next
  case False
  then show ?thesis using assms by (auto simp: test_index_bit set_index_def)
qed

lemma test_set_indices:
  assumes "\<forall>i \<in> set is. h i div 8 < length d"
  shows "test_index n (foldl (\<lambda>d i. set_index (h i) d) d is) \<longleftrightarrow> n \<in> h ` set is \<or> test_index n d"
  using assms by (induction "is" arbitrary: d) (auto simp: test_set_index)

lemma length_set_indices [simp]: "length (foldl (\<lambda>d i. set_index (h i) d) d is) = length d"
  by (induction "is" arbitrary: d) auto

lemma bf_Hash_less: "bf_vData f \<noteq> [] \<Longrightarrow> bf_Hash f i v div 8 < length (bf_vData f)"
  by (simp add: bf_Hash_def less_mult_imp_div_less)

lemma test_index_zero: "n div 8 < length d \<Longrightarrow> list_all (\<lambda>b. b = 0) d \<Longrightarrow> \<not> test_index n d"
  by (simp add: test_index_bit list_all_length)

text \<open>The filters that occur: they have bits and hash functions, and their flags are true to them.\<close>

definition filter_ok :: "CBloomFilter \<Rightarrow> bool" where
  "filter_ok f \<longleftrightarrow> bf_vData f \<noteq> [] \<and> bf_nHashFuncs f \<noteq> 0 \<and> (bf_isFull f \<longrightarrow> MatchesAll f)"

text \<open>One filter has the shape of another, and no fewer bits.\<close>

definition grows :: "CBloomFilter \<Rightarrow> CBloomFilter \<Rightarrow> bool" where
  "grows f f' \<longleftrightarrow> length (bf_vData f') = length (bf_vData f) \<and> bf_nHashFuncs f' = bf_nHashFuncs f
     \<and> bf_nTweak f' = bf_nTweak f \<and> bf_nFlags f' = bf_nFlags f \<and> bf_isFull f' = bf_isFull f
     \<and> (bf_isEmpty f' \<longrightarrow> bf_isEmpty f)
     \<and> (\<forall>n. n div 8 < length (bf_vData f) \<longrightarrow> test_index n (bf_vData f) \<longrightarrow> test_index n (bf_vData f'))
     \<and> (MatchesAll f \<longrightarrow> bf_isFull f \<longrightarrow> bf_vData f' = bf_vData f)"

lemma grows_refl [simp]: "grows f f"
  by (simp add: grows_def)

lemma grows_trans: "grows f g \<Longrightarrow> grows g h \<Longrightarrow> grows f h"
  by (auto simp: grows_def MatchesAll_def)

lemma grows_Hash: "grows f f' \<Longrightarrow> bf_Hash f' i v = bf_Hash f i v \<and> hash_nums f' = hash_nums f"
  by (simp add: grows_def bf_Hash_def hash_nums_def)

lemma grows_ok: "grows f f' \<Longrightarrow> filter_ok f \<Longrightarrow> filter_ok f'"
  by (auto simp: grows_def filter_ok_def MatchesAll_def)

lemma grows_contains:
  assumes "grows f f'" "filter_ok f" "bf_contains k f = Some True"
  shows "bf_contains k f' = Some True"
proof (cases "bf_isFull f")
  case True
  then show ?thesis using assms(1) by (simp add: bf_contains_def grows_def)
next
  case False
  have ne: "bf_vData f \<noteq> []" "bf_vData f' \<noteq> []" using assms(1,2) by (auto simp: filter_ok_def grows_def)
  have "\<not> bf_isEmpty f" "\<forall>i \<in> set (hash_nums f). test_index (bf_Hash f i k) (bf_vData f)"
    using assms(3) False by (auto simp: bf_contains_def list_all_iff split: if_splits)
  then show ?thesis
    using assms(1) False ne bf_Hash_less [OF ne(1)] grows_Hash [OF assms(1)]
    by (auto simp: bf_contains_def list_all_iff grows_def)
qed

lemma insert_grows: "bf_insert k f = Some f' \<Longrightarrow> bf_vData f \<noteq> [] \<Longrightarrow> grows f f'"
  by (auto simp: bf_insert_def grows_def test_set_indices bf_Hash_less split: if_splits)

lemma insert_contains:
  assumes "bf_insert k f = Some f'" "bf_vData f \<noteq> []"
  shows "bf_contains k f' = Some True"
proof (cases "bf_isFull f")
  case True
  then show ?thesis using assms(1) by (simp add: bf_insert_def bf_contains_def)
next
  case False
  have h: "bf_Hash f' i k = bf_Hash f i k" "hash_nums f' = hash_nums f" for i
    using grows_Hash [OF insert_grows [OF assms]] by auto
  have "f' = f\<lparr> bf_vData := foldl (\<lambda>d i. set_index (bf_Hash f i k) d) (bf_vData f) (hash_nums f), bf_isEmpty := False \<rparr>"
    using assms False by (simp add: bf_insert_def)
  moreover have "bf_vData f' \<noteq> []" using assms(2) insert_grows [OF assms] by (auto simp: grows_def)
  ultimately show ?thesis
    using False h assms(2) bf_Hash_less [OF assms(2)] by (simp add: bf_contains_def list_all_iff test_set_indices)
qed

lemma update_grows: "update_filter h i txo f = Some f' \<Longrightarrow> bf_vData f \<noteq> [] \<Longrightarrow> grows f f'"
  by (auto simp: update_filter_def Let_def insert_outpoint_def insert_grows split: if_splits option.splits)

lemma grows_nonempty: "grows f f' \<Longrightarrow> bf_vData f \<noteq> [] \<Longrightarrow> bf_vData f' \<noteq> []"
  by (auto simp: grows_def)

lemma outputs_loop_grows:
  "outputs_loop h i os fFound f = Some (r, f') \<Longrightarrow> bf_vData f \<noteq> [] \<Longrightarrow> grows f f' \<and> (fFound \<longrightarrow> r)"
proof (induction os arbitrary: i fFound f)
  case (Cons txo os)
  then consider "output_matches f txo (scriptPubKey txo) = Some False" "outputs_loop h (i + 1) os fFound f = Some (r, f')"
    | f1 where "update_filter h i txo f = Some f1" "outputs_loop h (i + 1) os True f1 = Some (r, f')"
    by (auto split: option.splits bool.splits)
  then show ?case
  proof cases
    case 1
    then show ?thesis using Cons.IH Cons.prems(2) by blast
  next
    case 2
    have g: "grows f f1" using update_grows [OF 2(1) Cons.prems(2)] .
    then show ?thesis using Cons.IH [OF 2(2) grows_nonempty [OF g Cons.prems(2)]] grows_trans [OF g] by simp
  qed
qed simp

lemma output_matches_mono:
  assumes "grows f f'" "filter_ok f"
  shows "output_matches f txo pc = Some True \<Longrightarrow> output_matches f' txo pc = Some True"
proof (induction pc rule: length_induct)
  case (1 pc)
  let ?g = "GetOp2 pc"
  let ?data = "if CTxOut_IsZerocoinMint txo then drop 6 (scriptPubKey txo) else go_data ?g"
  have pc: "pc \<noteq> []" "go_ok ?g" "\<not> (CTxOut_IsZerocoinMint txo \<and> length (scriptPubKey txo) < 6)"
    using "1.prems" by (auto simp: output_matches.simps [of f] Let_def split: if_splits)
  define x where "x = (if ?data = [] then Some False else bf_contains ?data f)"
  define x' where "x' = (if ?data = [] then Some False else bf_contains ?data f')"
  have eq: "output_matches f txo pc = (case x of None \<Rightarrow> None | Some True \<Rightarrow> Some True
      | Some False \<Rightarrow> output_matches f txo (go_pc ?g))"
    "output_matches f' txo pc = (case x' of None \<Rightarrow> None | Some True \<Rightarrow> Some True
      | Some False \<Rightarrow> output_matches f' txo (go_pc ?g))"
    using pc unfolding x_def x'_def
    by (auto simp: output_matches.simps [of f _ pc] output_matches.simps [of f' _ pc] Let_def)
  have ne: "bf_vData f' \<noteq> []" using assms by (auto simp: grows_def filter_ok_def)
  have "x' \<noteq> None" using ne by (auto simp: x'_def bf_contains_def)
  moreover have "x = Some True \<Longrightarrow> x' = Some True"
    using grows_contains [OF assms] by (auto simp: x_def x'_def split: if_splits)
  moreover have "x \<noteq> None" using "1.prems" eq(1) by (cases x) auto
  moreover have "output_matches f' txo (go_pc ?g) = Some True" if "x = Some False"
    using "1.IH" "1.prems" eq(1) pc(1) that by simp
  ultimately show ?case using eq "1.prems" by (auto split: option.split bool.split)
qed

lemma outputs_loop_sees:
  assumes "outputs_loop h i os fFound f = Some (r, f')" "filter_ok f"
    and "j < length os" "output_matches f (os ! j) (scriptPubKey (os ! j)) = Some True"
  shows r
  using assms
proof (induction os arbitrary: i fFound f j)
  case (Cons txo os)
  have ne: "bf_vData f \<noteq> []" using Cons.prems(2) by (simp add: filter_ok_def)
  consider "output_matches f txo (scriptPubKey txo) = Some False" "outputs_loop h (i + 1) os fFound f = Some (r, f')"
    | f1 where "update_filter h i txo f = Some f1" "outputs_loop h (i + 1) os True f1 = Some (r, f')"
    using Cons.prems(1) by (auto split: option.splits bool.splits)
  then show ?case
  proof cases
    case 1
    then obtain k where "j = Suc k" using Cons.prems(4) by (cases j) auto
    then show ?thesis using Cons.IH [OF 1(2) Cons.prems(2), of k] Cons.prems(3,4) by simp
  next
    case 2
    then show ?thesis using outputs_loop_grows grows_nonempty [OF update_grows [OF 2(1) ne] ne] by blast
  qed
qed simp

lemma outputs_loop_follows:
  assumes "outputs_loop h i os fFound f = Some (r, f')" "filter_ok f" "bf_nFlags f AND BLOOM_UPDATE_MASK = BLOOM_UPDATE_ALL"
    and "j < length os" "output_matches f (os ! j) (scriptPubKey (os ! j)) = Some True"
  shows "r \<and> contains_outpoint \<lparr> op_hash = h, op_n = of_nat (i + j) \<rparr> f' = Some True"
  using assms
proof (induction os arbitrary: i fFound f j)
  case (Cons txo os)
  have ne: "bf_vData f \<noteq> []" using Cons.prems(2) by (simp add: filter_ok_def)
  consider "output_matches f txo (scriptPubKey txo) = Some False" "outputs_loop h (i + 1) os fFound f = Some (r, f')"
    | f1 where "update_filter h i txo f = Some f1" "outputs_loop h (i + 1) os True f1 = Some (r, f')"
    using Cons.prems(1) by (auto split: option.splits bool.splits)
  then show ?case
  proof cases
    case 1
    then obtain k where "j = Suc k" using Cons.prems(5) by (cases j) auto
    then show ?thesis using Cons.IH [OF 1(2) Cons.prems(2,3), of k] Cons.prems(4,5) by simp
  next
    case 2
    have g1: "grows f f1" using update_grows [OF 2(1) ne] .
    have ok1: "filter_ok f1" using grows_ok [OF g1 Cons.prems(2)] .
    have ne1: "bf_vData f1 \<noteq> []" using ok1 by (simp add: filter_ok_def)
    have g2: "grows f1 f'" and r: r using outputs_loop_grows [OF 2(2) ne1] by auto
    show ?thesis
    proof (cases j)
      case 0
      have "insert_outpoint \<lparr> op_hash = h, op_n = of_nat i \<rparr> f = Some f1"
        using 2(1) Cons.prems(3) by (simp add: update_filter_def)
      then have "contains_outpoint \<lparr> op_hash = h, op_n = of_nat i \<rparr> f1 = Some True"
        using insert_contains ne by (simp add: insert_outpoint_def contains_outpoint_def)
      then show ?thesis using grows_contains [OF g2 ok1] r 0 by (simp add: contains_outpoint_def)
    next
      case (Suc k)
      have "bf_nFlags f1 AND BLOOM_UPDATE_MASK = BLOOM_UPDATE_ALL" using g1 Cons.prems(3) by (simp add: grows_def)
      moreover have "output_matches f1 (os ! k) (scriptPubKey (os ! k)) = Some True"
        using output_matches_mono [OF g1 Cons.prems(2)] Cons.prems(5) Suc by simp
      ultimately show ?thesis using Cons.IH [OF 2(2) ok1, of k] Cons.prems(4) Suc by simp
    qed
  qed
qed simp

section \<open>What a filter keeps\<close>

lemma contains_not_empty: "bf_contains k f = Some True \<Longrightarrow> bf_isFull f \<or> \<not> bf_isEmpty f"
  by (auto simp: bf_contains_def split: if_splits)

lemma matches_not_empty:
  assumes "output_matches f txo pc = Some True"
  shows "bf_isFull f \<or> \<not> bf_isEmpty f"
proof (rule ccontr)
  assume "\<not> ?thesis"
  then have e: "bf_contains k f = Some False" for k by (simp add: bf_contains_def)
  have "output_matches f txo pc \<noteq> Some True"
    by (induction pc rule: length_induct) (auto simp: output_matches.simps [of f] Let_def e)
  then show False using assms by simp
qed

lemma relevant_grows:
  assumes "IsRelevantAndUpdate parse tx f = Some (r, f')" "bf_vData f \<noteq> []"
  shows "grows f f'"
proof -
  have "f' = f \<or> (\<exists>r0 r1. outputs_loop (tx_hash tx) 0 (vout tx) r0 f = Some (r1, f'))"
    using assms(1) by (auto simp: IsRelevantAndUpdate_def split: if_splits option.splits bool.splits)
  then show ?thesis using outputs_loop_grows assms(2) by auto
qed

lemma relevant_output:
  assumes "IsRelevantAndUpdate parse tx f = Some (r, f')" "filter_ok f" "j < length (vout tx)"
    and m: "output_matches f (vout tx ! j) (scriptPubKey (vout tx ! j)) = Some True"
  shows "r \<and> (bf_nFlags f AND BLOOM_UPDATE_MASK = BLOOM_UPDATE_ALL
     \<longrightarrow> contains_outpoint \<lparr> op_hash = tx_hash tx, op_n = of_nat j \<rparr> f' = Some True)"
proof (cases "bf_isFull f")
  case True
  then show ?thesis using assms(1)
    by (auto simp: IsRelevantAndUpdate_def contains_outpoint_def bf_contains_def)
next
  case False
  then obtain r0 r1 where "outputs_loop (tx_hash tx) 0 (vout tx) r0 f = Some (r1, f')" "r1 \<longrightarrow> r"
    using assms(1) matches_not_empty [OF m]
    by (auto simp: IsRelevantAndUpdate_def split: if_splits option.splits bool.splits)
  then show ?thesis using outputs_loop_follows [OF _ assms(2) _ assms(3) m] outputs_loop_sees [OF _ assms(2,3) m] by fastforce
qed

lemma inputs_loop_sees:
  "inputs_loop parse f is = Some r \<Longrightarrow> i \<in> set is \<Longrightarrow> contains_outpoint (prevout i) f = Some True \<Longrightarrow> r"
  by (induction "is") (auto split: option.splits bool.splits)

lemma relevant_input:
  assumes "IsRelevantAndUpdate parse tx f = Some (r, f')" "filter_ok f" "i \<in> set (vin tx)"
    and m: "contains_outpoint (prevout i) f = Some True"
  shows r
proof (cases "bf_isFull f")
  case True
  then show ?thesis using assms(1) by (simp add: IsRelevantAndUpdate_def)
next
  case False
  then consider r | r0 where "outputs_loop (tx_hash tx) 0 (vout tx) r0 f = Some (False, f')"
      "inputs_loop parse f' (vin tx) = Some r"
    using assms(1) contains_not_empty m
    by (auto simp: IsRelevantAndUpdate_def contains_outpoint_def split: if_splits option.splits bool.splits)
  then show ?thesis
  proof cases
    case 2
    have "grows f f'" using outputs_loop_grows [OF 2(1)] assms(2) by (simp add: filter_ok_def)
    then show ?thesis using grows_contains [OF _ assms(2)] m inputs_loop_sees [OF 2(2) assms(3)]
      by (auto simp: contains_outpoint_def)
  qed
qed

lemma filter_loop_shape:
  "filter_loop parse n txs f = Some (ms, ts, hs, f') \<Longrightarrow>
    length ms = length txs \<and> hs = map tx_hash txs \<and>
    (\<forall>i < length txs. ms ! i \<longrightarrow> (n + of_nat i, tx_hash (txs ! i)) \<in> set ts)"
proof (induction txs arbitrary: n f ms ts hs)
  case (Cons tx txs)
  then obtain r f1 ms1 ts1 hs1 where l: "filter_loop parse (n + 1) txs f1 = Some (ms1, ts1, hs1, f')"
    and e: "ms = r # ms1" "ts = (if r then (n, tx_hash tx) # ts1 else ts1)" "hs = tx_hash tx # hs1"
    by (auto split: option.splits)
  show ?case using Cons.IH [OF l] e by (auto simp: less_Suc_eq_0_disj add.commute add.left_commute)
qed simp

lemma filter_loop_reaches:
  "filter_loop parse n txs f = Some (ms, ts, hs, f') \<Longrightarrow> bf_vData f \<noteq> [] \<Longrightarrow> i < length txs \<Longrightarrow>
    \<exists>g g' ts' hs'. grows f g \<and> IsRelevantAndUpdate parse (txs ! i) g = Some (ms ! i, g')
      \<and> filter_loop parse (n + of_nat i + 1) (drop (i + 1) txs) g' = Some (drop (i + 1) ms, ts', hs', f')"
proof (induction txs arbitrary: n f ms ts hs i)
  case (Cons tx txs)
  then obtain r f1 ms1 ts1 hs1 where r: "IsRelevantAndUpdate parse tx f = Some (r, f1)"
    and l: "filter_loop parse (n + 1) txs f1 = Some (ms1, ts1, hs1, f')" and e: "ms = r # ms1"
    by (auto split: option.splits)
  have g: "grows f f1" using relevant_grows [OF r Cons.prems(2)] .
  show ?case
  proof (cases i)
    case 0
    then show ?thesis using r l e grows_refl [of f] by (intro exI [of _ f] exI [of _ f1]) auto
  next
    case (Suc k)
    obtain g g' ts' hs' where "grows f1 g" "IsRelevantAndUpdate parse (txs ! k) g = Some (ms1 ! k, g')"
      "filter_loop parse (n + 1 + of_nat k + 1) (drop (k + 1) txs) g' = Some (drop (k + 1) ms1, ts', hs', f')"
      using Cons.IH [OF l grows_nonempty [OF g Cons.prems(2)], of k] Cons.prems(3) Suc by auto
    then show ?thesis using Suc e grows_trans [OF g] by (auto simp: add_ac)
  qed
qed simp

lemma input_matches_mono:
  assumes "grows f f'" "filter_ok f"
  shows "input_matches parse f i pc = Some True \<Longrightarrow> input_matches parse f' i pc = Some True"
proof (induction pc rule: length_induct)
  case (1 pc)
  let ?g = "GetOp2 pc"
  obtain d where d: "pc \<noteq> []" "go_ok ?g"
    "(if CTxIn_IsZerocoinSpend i then (if length (scriptSig i) < 44 then None else parse (drop 44 (scriptSig i)))
      else Some (go_data ?g)) = Some d"
    using "1.prems" by (auto simp: input_matches.simps [of parse f] Let_def split: if_splits option.splits)
  have eq: "input_matches parse h i pc = (case (if d = [] then Some False else bf_contains d h) of None \<Rightarrow> None
      | Some True \<Rightarrow> Some True | Some False \<Rightarrow> input_matches parse h i (go_pc ?g))" for h
    using d by (simp add: input_matches.simps [of parse h i pc] Let_def)
  have "\<exists>b. bf_contains d f' = Some b" using assms by (auto simp: grows_def filter_ok_def bf_contains_def)
  moreover have "input_matches parse f' i (go_pc ?g) = Some True" if "input_matches parse f i (go_pc ?g) = Some True"
    using "1.IH" d(1) that by simp
  ultimately show ?case using "1.prems" eq [of f] eq [of f'] grows_contains [OF assms, of d]
    by (auto split: option.splits bool.splits if_splits)
qed

lemma inputs_loop_reads:
  "inputs_loop parse f is = Some r \<Longrightarrow> i \<in> set is \<Longrightarrow> input_matches parse f i (scriptSig i) = Some True \<Longrightarrow> r"
  by (induction "is") (auto split: option.splits bool.splits)

lemma input_matches_not_empty:
  assumes "input_matches parse f i pc = Some True"
  shows "bf_isFull f \<or> \<not> bf_isEmpty f"
proof (rule ccontr)
  assume "\<not> ?thesis"
  then have e: "bf_contains k f = Some False" for k by (simp add: bf_contains_def)
  have "input_matches parse f i pc \<noteq> Some True"
    by (induction pc rule: length_induct) (auto simp: input_matches.simps [of parse f] Let_def e split: option.splits)
  then show False using assms by simp
qed

lemma relevant_script:
  assumes "IsRelevantAndUpdate parse tx f = Some (r, f')" "filter_ok f" "i \<in> set (vin tx)"
    and m: "input_matches parse f i (scriptSig i) = Some True"
  shows r
proof (cases "bf_isFull f")
  case True
  then show ?thesis using assms(1) by (simp add: IsRelevantAndUpdate_def)
next
  case False
  then consider r | r0 where "outputs_loop (tx_hash tx) 0 (vout tx) r0 f = Some (False, f')"
      "inputs_loop parse f' (vin tx) = Some r"
    using assms(1) input_matches_not_empty [OF m]
    by (auto simp: IsRelevantAndUpdate_def split: if_splits option.splits bool.splits)
  then show ?thesis
  proof cases
    case 2
    have "grows f f'" using outputs_loop_grows [OF 2(1)] assms(2) by (simp add: filter_ok_def)
    then show ?thesis using input_matches_mono [OF _ assms(2) m] inputs_loop_reads [OF 2(2) assms(3)] by blast
  qed
qed

lemma relevant_hash:
  assumes "IsRelevantAndUpdate parse tx f = Some (r, f')" "filter_ok f" "contains_hash (tx_hash tx) f = Some True"
  shows r
proof -
  have "r \<or> outputs_loop (tx_hash tx) 0 (vout tx) True f = Some (False, f')"
    using assms(1,3) contains_not_empty [of "ser_uint (tx_hash tx)" f]
    by (auto simp: IsRelevantAndUpdate_def contains_hash_def split: if_splits option.splits bool.splits)
  moreover have "bf_vData f \<noteq> []" using assms(2) by (simp add: filter_ok_def)
  ultimately show ?thesis using outputs_loop_grows [of "tx_hash tx" 0 "vout tx" True f False f'] by auto
qed

section \<open>What a block has for the owner of a filter\<close>

text \<open>A transaction is of interest when its hash, an outpoint that it spends or a data element of one
  of its scripts is in the filter, or when it spends an output of an earlier transaction of the
  block, one that is itself of interest, and the filter is to learn such outputs.\<close>

definition of_interest :: "(bytes \<Rightarrow> bytes option) \<Rightarrow> CBloomFilter \<Rightarrow> CTransaction list \<Rightarrow> nat \<Rightarrow> bool" where
  "of_interest parse f txs i \<longleftrightarrow>
     contains_hash (tx_hash (txs ! i)) f = Some True
     \<or> (\<exists>txo \<in> set (vout (txs ! i)). output_matches f txo (scriptPubKey txo) = Some True)
     \<or> (\<exists>inp \<in> set (vin (txs ! i)). contains_outpoint (prevout inp) f = Some True
          \<or> input_matches parse f inp (scriptSig inp) = Some True)
     \<or> (bf_nFlags f AND BLOOM_UPDATE_MASK = BLOOM_UPDATE_ALL
        \<and> (\<exists>k < i. \<exists>j < length (vout (txs ! k)). \<exists>inp \<in> set (vin (txs ! i)).
             output_matches f (vout (txs ! k) ! j) (scriptPubKey (vout (txs ! k) ! j)) = Some True
             \<and> prevout inp = \<lparr> op_hash = tx_hash (txs ! k), op_n = of_nat j \<rparr>))"

lemma filter_loop_finds:
  assumes "filter_loop parse n txs f = Some (ms, ts, hs, f')" "filter_ok f" "i < length txs" "of_interest parse f txs i"
  shows "ms ! i"
proof -
  have ne: "bf_vData f \<noteq> []" using assms(2) by (simp add: filter_ok_def)
  have mono: "contains_outpoint op f = Some True \<Longrightarrow> grows f g \<Longrightarrow> contains_outpoint op g = Some True" for op g
    using grows_contains [OF _ assms(2)] by (auto simp: contains_outpoint_def)
  obtain g g' where g: "grows f g" "IsRelevantAndUpdate parse (txs ! i) g = Some (ms ! i, g')"
    using filter_loop_reaches [OF assms(1) ne assms(3)] by blast
  have ok: "filter_ok g" using grows_ok [OF g(1) assms(2)] .
  from assms(4) consider "contains_hash (tx_hash (txs ! i)) f = Some True"
    | j where "j < length (vout (txs ! i))"
        "output_matches f (vout (txs ! i) ! j) (scriptPubKey (vout (txs ! i) ! j)) = Some True"
    | inp where "inp \<in> set (vin (txs ! i))" "contains_outpoint (prevout inp) f = Some True"
    | inp where "inp \<in> set (vin (txs ! i))" "input_matches parse f inp (scriptSig inp) = Some True"
    | k j inp where "bf_nFlags f AND BLOOM_UPDATE_MASK = BLOOM_UPDATE_ALL" "k < i" "j < length (vout (txs ! k))"
        "inp \<in> set (vin (txs ! i))" "prevout inp = \<lparr> op_hash = tx_hash (txs ! k), op_n = of_nat j \<rparr>"
        "output_matches f (vout (txs ! k) ! j) (scriptPubKey (vout (txs ! k) ! j)) = Some True"
    unfolding of_interest_def by (metis in_set_conv_nth)
  then show ?thesis
  proof cases
    case 1
    then show ?thesis using relevant_hash [OF g(2) ok] grows_contains [OF g(1) assms(2)] by (auto simp: contains_hash_def)
  next
    case 2
    then show ?thesis using relevant_output [OF g(2) ok] output_matches_mono [OF g(1) assms(2)] by blast
  next
    case 3
    then show ?thesis using relevant_input [OF g(2) ok] mono [OF _ g(1)] by blast
  next
    case 4
    then show ?thesis using relevant_script [OF g(2) ok] input_matches_mono [OF g(1) assms(2)] by blast
  next
    case 5
    have k: "k < length txs" using 5(2) assms(3) by simp
    obtain h h' ts' hs' where h: "grows f h" "IsRelevantAndUpdate parse (txs ! k) h = Some (ms ! k, h')"
      "filter_loop parse (n + of_nat k + 1) (drop (k + 1) txs) h' = Some (drop (k + 1) ms, ts', hs', f')"
      using filter_loop_reaches [OF assms(1) ne k] by blast
    have okh: "filter_ok h" using grows_ok [OF h(1) assms(2)] .
    have "bf_nFlags h AND BLOOM_UPDATE_MASK = BLOOM_UPDATE_ALL" using h(1) 5(1) by (simp add: grows_def)
    then have c: "contains_outpoint (prevout inp) h' = Some True"
      using relevant_output [OF h(2) okh 5(3) output_matches_mono [OF h(1) assms(2) 5(6)]] 5(5) by simp
    have nh: "bf_vData h \<noteq> []" using okh by (simp add: filter_ok_def)
    have okh': "filter_ok h'" using grows_ok [OF relevant_grows [OF h(2) nh] okh] .
    have nh': "bf_vData h' \<noteq> []" using okh' by (simp add: filter_ok_def)
    have len: "length ms = length txs" using filter_loop_shape [OF assms(1)] by simp
    obtain d where d: "i = Suc (k + d)" using less_imp_Suc_add [OF 5(2)] by auto
    then have dr: "drop (k + 1) txs ! d = txs ! i" "drop (k + 1) ms ! d = ms ! i" "d < length (drop (k + 1) txs)"
      using assms(3) len by simp_all
    obtain q q' where q: "grows h' q" "IsRelevantAndUpdate parse (txs ! i) q = Some (ms ! i, q')"
      using filter_loop_reaches [OF h(3) nh' dr(3), unfolded dr(1,2)] by blast
    have "contains_outpoint (prevout inp) q = Some True"
      using grows_contains [OF q(1) okh'] c by (simp add: contains_outpoint_def)
    then show ?thesis using relevant_input [OF q(2) grows_ok [OF q(1) okh'] 5(4)] by simp
  qed
qed

lemma filtered_block:
  assumes "CMerkleBlock_of parse block f = Some (m, f')"
  obtains ms ts where "filter_loop parse 0 (vtx block) f = Some (ms, ts, map tx_hash (vtx block), f')"
    "mb_header m = GetBlockHeader block" "mb_txn m = CPartialMerkleTree_of (map tx_hash (vtx block)) ms"
    "mb_vMatchedTxn m = ts" "length ms = length (vtx block)"
proof -
  obtain ms ts hs where l: "filter_loop parse 0 (vtx block) f = Some (ms, ts, hs, f')"
    "m = \<lparr> mb_header = GetBlockHeader block, mb_txn = CPartialMerkleTree_of hs ms, mb_vMatchedTxn = ts \<rparr>"
    using assms by (auto simp: CMerkleBlock_of_def)
  then show ?thesis using that filter_loop_shape [OF l(1)] by simp
qed

lemma matched_in_zip:
  "i < length xs \<Longrightarrow> length vs = length xs \<Longrightarrow> vs ! i \<Longrightarrow> xs ! i \<in> set (map fst (filter snd (zip xs vs)))"
  by (auto simp: map_filter_zip)

text \<open>C16: Filtered blocks have no false negatives.  When the filter of a client makes a filtered block
  out of a block, and a transaction of that block is of interest to the client (its hash, an outpoint
  that it spends or a data element of one of its scripts is in the filter, or it spends an output
  of an earlier transaction of the block that matched and that the filter learned), the partial
  Merkle tree that is sent, once written and read back, gives with \<open>ExtractMatches\<close> the Merkle root
  of the block and that transaction among the matches, and the transaction is listed with its
  position; the header is the one of the block.\<close>

theorem filtered_block_reaches_client:
  assumes "CMerkleBlock_of parse block f = Some (m, f')" "filter_ok f"
    and "length (vtx block) \<le> 33333" "\<forall>tx \<in> set (vtx block). length (tx_hash tx) = 8"
    and "i < length (vtx block)" "of_interest parse f (vtx block) i"
  shows "mb_header m = GetBlockHeader block
     \<and> (of_nat i, tx_hash (vtx block ! i)) \<in> set (mb_vMatchedTxn m)
     \<and> (\<exists>t. unser_pmt (ser_pmt (mb_txn m) @ r) = Inr (t, r)
          \<and> fst (ExtractMatches t) = fst (snd (BuildMerkleTree block))
          \<and> tx_hash (vtx block ! i) \<in> set (fst (snd (ExtractMatches t))))"
proof -
  obtain ms ts where b: "filter_loop parse 0 (vtx block) f = Some (ms, ts, map tx_hash (vtx block), f')"
    "mb_header m = GetBlockHeader block" "mb_txn m = CPartialMerkleTree_of (map tx_hash (vtx block)) ms"
    "mb_vMatchedTxn m = ts" "length ms = length (vtx block)" using filtered_block [OF assms(1)] .
  have i: "ms ! i" using filter_loop_finds [OF b(1) assms(2,5,6)] .
  have ne: "vtx block \<noteq> []" using assms(5) by auto
  have "tx_hash (vtx block ! i) \<in> set (map fst (filter snd (zip (map tx_hash (vtx block)) ms)))"
    using matched_in_zip [of i "map tx_hash (vtx block)" ms] i assms(5) b(5) by simp
  then show ?thesis
    using partial_tree_extracts [OF ne assms(3,4) b(5), of r] filter_loop_shape [OF b(1)] assms(5) i b(2-4) by fastforce
qed

text \<open>Without zerocoin scripts nothing of it is undefined on a filter that has bits.\<close>

lemma contains_defined: "bf_vData f \<noteq> [] \<Longrightarrow> \<exists>b. bf_contains k f = Some b"
  by (auto simp: bf_contains_def)

lemma output_matches_defined:
  "bf_vData f \<noteq> [] \<Longrightarrow> \<not> CTxOut_IsZerocoinMint txo \<Longrightarrow> \<exists>b. output_matches f txo pc = Some b"
proof (induction pc rule: length_induct)
  case (1 pc)
  obtain b where "bf_contains (go_data (GetOp2 pc)) f = Some b" using contains_defined "1.prems"(1) by blast
  then show ?case using 1 by (cases b) (auto simp: output_matches.simps [of f txo pc] Let_def)
qed

lemma input_matches_defined:
  "bf_vData f \<noteq> [] \<Longrightarrow> \<not> CTxIn_IsZerocoinSpend i \<Longrightarrow> \<exists>b. input_matches parse f i pc = Some b"
proof (induction pc rule: length_induct)
  case (1 pc)
  obtain b where "bf_contains (go_data (GetOp2 pc)) f = Some b" using contains_defined "1.prems"(1) by blast
  then show ?case using 1 by (cases b) (auto simp: input_matches.simps [of parse f i pc] Let_def)
qed

lemma inputs_loop_defined:
  assumes "bf_vData f \<noteq> []" "\<forall>i \<in> set is. \<not> CTxIn_IsZerocoinSpend i"
  shows "\<exists>b. inputs_loop parse f is = Some b"
  using assms(2)
proof (induction "is")
  case (Cons i "is")
  obtain b where "contains_outpoint (prevout i) f = Some b"
    using contains_defined [OF assms(1)] by (auto simp: contains_outpoint_def)
  moreover obtain c where "input_matches parse f i (scriptSig i) = Some c"
    using input_matches_defined [OF assms(1), of i parse "scriptSig i"] Cons.prems by auto
  ultimately show ?case using Cons by (cases b; cases c) auto
qed auto

lemma outputs_loop_defined:
  assumes "\<forall>txo \<in> set os. \<not> CTxOut_IsZerocoinMint txo"
  shows "bf_vData f \<noteq> [] \<Longrightarrow> bf_nFlags f AND BLOOM_UPDATE_MASK = BLOOM_UPDATE_ALL
    \<Longrightarrow> \<exists>b f'. outputs_loop h i os fFound f = Some (b, f')"
  using assms
proof (induction os arbitrary: i fFound f)
  case (Cons txo os)
  obtain b where b: "output_matches f txo (scriptPubKey txo) = Some b"
    using output_matches_defined [OF Cons.prems(1), of txo "scriptPubKey txo"] Cons.prems(3) by auto
  show ?case
  proof (cases b)
    case True
    obtain f1 where f1: "update_filter h i txo f = Some f1"
      using Cons.prems(1,2) by (cases "bf_isFull f") (auto simp: update_filter_def insert_outpoint_def bf_insert_def)
    have "bf_vData f1 \<noteq> []" "bf_nFlags f1 = bf_nFlags f"
      using update_grows [OF f1 Cons.prems(1)] Cons.prems(1) by (auto simp: grows_def)
    then show ?thesis using Cons.IH [of f1 "i + 1" True] Cons.prems b True f1 by simp
  qed (use Cons b in simp)
qed simp

lemma filter_loop_defined:
  assumes "\<forall>tx \<in> set txs. (\<forall>txo \<in> set (vout tx). \<not> CTxOut_IsZerocoinMint txo) \<and> (\<forall>i \<in> set (vin tx). \<not> CTxIn_IsZerocoinSpend i)"
  shows "bf_vData f \<noteq> [] \<Longrightarrow> bf_nFlags f AND BLOOM_UPDATE_MASK = BLOOM_UPDATE_ALL
    \<Longrightarrow> \<exists>r. filter_loop parse n txs f = Some r"
  using assms
proof (induction txs arbitrary: n f)
  case (Cons tx txs)
  obtain c where c: "contains_hash (tx_hash tx) f = Some c"
    using contains_defined Cons.prems(1) by (auto simp: contains_hash_def)
  obtain b f1 where f1: "outputs_loop (tx_hash tx) 0 (vout tx) c f = Some (b, f1)"
    using outputs_loop_defined [of "vout tx" f "tx_hash tx" 0 c] Cons.prems by auto
  have "bf_vData f1 \<noteq> []" using grows_nonempty outputs_loop_grows [OF f1 Cons.prems(1)] Cons.prems(1) by blast
  then obtain d where "inputs_loop parse f1 (vin tx) = Some d"
    using inputs_loop_defined [of f1 "vin tx" parse] Cons.prems(3) by auto
  then obtain r f2 where f2: "IsRelevantAndUpdate parse tx f = Some (r, f2)"
    using c f1 that [of _ f1] that [of True f] that [of False f]
    unfolding IsRelevantAndUpdate_def by (cases b; cases "bf_isFull f"; cases "bf_isEmpty f") simp_all
  have g: "grows f f2" using relevant_grows [OF f2 Cons.prems(1)] .
  then obtain q where "filter_loop parse (n + 1) txs f2 = Some q"
    using Cons.IH [of f2 "n + 1"] Cons.prems grows_nonempty [OF g] by (auto simp: grows_def)
  then show ?case using f2 by (cases q) simp
qed simp

text \<open>A client that knows the key \<open>[1, 2, 3]\<close>, and a block that pays to it and spends the payment.\<close>

definition sample_filter :: CBloomFilter where
  "sample_filter = the (bf_insert [1, 2, 3] \<lparr> bf_vData = [0, 0], bf_isFull = False, bf_isEmpty = True,
     bf_nHashFuncs = 2, bf_nTweak = 5, bf_nFlags = BLOOM_UPDATE_ALL \<rparr>)"

definition sample_block :: CBlock where
  "sample_block = CBlock_null\<lparr> vtx :=
     [CTransaction_new\<lparr> tx_hash := replicate 8 1, vout := [CTxOut_of 5 [3, 1, 2, 3]] \<rparr>,
      CTransaction_new\<lparr> tx_hash := replicate 8 2,
        vin := [CTxIn_of \<lparr> op_hash = replicate 8 1, op_n = 0 \<rparr> [] 0], vout := [CTxOut_of 5 [1, 7]] \<rparr>] \<rparr>"

lemma sample_defined: "\<exists>r. filter_loop Some 0 (vtx sample_block) sample_filter = Some r"
proof (rule filter_loop_defined)
  show "\<forall>tx\<in>set (vtx sample_block). (\<forall>txo\<in>set (vout tx). \<not> CTxOut_IsZerocoinMint txo)
      \<and> (\<forall>i\<in>set (vin tx). \<not> CTxIn_IsZerocoinSpend i)" by code_simp
  show "bf_vData sample_filter \<noteq> []" by code_simp
  show "bf_nFlags sample_filter AND BLOOM_UPDATE_MASK = BLOOM_UPDATE_ALL" by code_simp
qed

theorem filtered_block_reaches_client_witness:
  "\<exists>m f'. CMerkleBlock_of Some sample_block sample_filter = Some (m, f')
     \<and> (1, replicate 8 2) \<in> set (mb_vMatchedTxn m)"
proof -
  obtain m f' where m: "CMerkleBlock_of Some sample_block sample_filter = Some (m, f')"
    using sample_defined by (auto simp: CMerkleBlock_of_def)
  have v: "length (vtx sample_block) = 2" "tx_hash (vtx sample_block ! 1) = replicate 8 2"
    "\<forall>tx \<in> set (vtx sample_block). length (tx_hash tx) = 8" by (simp_all add: sample_block_def)
  have "filter_ok sample_filter" by code_simp
  moreover have "\<exists>k<1. \<exists>j<length (vout (vtx sample_block ! k)). \<exists>inp\<in>set (vin (vtx sample_block ! 1)).
      output_matches sample_filter (vout (vtx sample_block ! k) ! j) (scriptPubKey (vout (vtx sample_block ! k) ! j)) = Some True
      \<and> prevout inp = \<lparr>op_hash = tx_hash (vtx sample_block ! k), op_n = of_nat j\<rparr>"
    by (intro exI [of _ 0]) code_simp
  moreover have "bf_nFlags sample_filter AND BLOOM_UPDATE_MASK = BLOOM_UPDATE_ALL" by code_simp
  ultimately have "of_interest Some sample_filter (vtx sample_block) 1" unfolding of_interest_def by blast
  then have "(of_nat 1, tx_hash (vtx sample_block ! 1)) \<in> set (mb_vMatchedTxn m)"
    using filtered_block_reaches_client [OF m \<open>filter_ok sample_filter\<close> _ v(3), of 1 "[]"] v(1) by simp
  then show ?thesis using m v(2) by auto
qed

end
