(* ===== verification/Mempool.thy ===== *)
theory Mempool
  imports Validation Orphans
begin

text \<open>
  The memory pool (\<open>txmempool.h\<close>, \<open>txmempool.cpp\<close>): the map of transactions, the map from outpoints to
  the inputs that spend them, and every operation that changes them.  A \<open>CInPoint\<close> points into the
  map of transactions; here its pointer is the key of the entry it points into, and reading through
  it is \<open>None\<close> when the entry is gone.  Priorities are of a type of their own with the addition of
  the code as an argument, and the estimator of fees is a state with the function \<open>seenBlock\<close>.  The theorems
  say that the two maps always match, that no pointer dangles, and that removing a transaction
  removes exactly what depends on it.
\<close>

section \<open>The pool\<close>

definition MEMPOOL_HEIGHT :: u32 where "MEMPOOL_HEIGHT = 0x7FFFFFFF"

record 'd CTxMemPoolEntry =
  me_tx :: CTransaction
  me_nFee :: amount
  me_nTxSize :: u64
  me_nModSize :: u64
  me_nTime :: u64
  me_dPriority :: 'd
  me_nHeight :: u32

definition CTxMemPoolEntry_of :: "CTransaction \<Rightarrow> amount \<Rightarrow> u64 \<Rightarrow> 'd \<Rightarrow> u32 \<Rightarrow> 'd CTxMemPoolEntry" where
  "CTxMemPoolEntry_of t nFee time dPriority h =
     (let nTxSize = of_nat (length (ser_tx t)) in
      \<lparr> me_tx = t, me_nFee = nFee, me_nTxSize = nTxSize, me_nModSize = ucast (CalculateModifiedSize t (ucast nTxSize)),
        me_nTime = time, me_dPriority = dPriority, me_nHeight = h \<rparr>)"

record CInPoint =
  ip_ptx :: "limbs option"
  ip_n :: u32

definition CInPoint_null :: CInPoint where
  "CInPoint_null = \<lparr> ip_ptx = None, ip_n = - 1 \<rparr>"

definition CInPoint_IsNull :: "CInPoint \<Rightarrow> bool" where
  "CInPoint_IsNull p \<longleftrightarrow> ip_ptx p = None \<and> ip_n p = - 1"

record ('d, 'e) CTxMemPool =
  mp_fSanityCheck :: bool
  mp_nTransactionsUpdated :: u32
  mp_estimator :: 'e
  mp_minRelayFee :: CFeeRate
  mp_totalTxSize :: u64
  mapTx :: "(limbs \<times> 'd CTxMemPoolEntry) list"
  mapNextTx :: "(COutPoint \<times> CInPoint) list"
  mapDeltas :: "(limbs \<times> 'd \<times> amount) list"

text \<open>The pool is a global object, so that \<open>totalTxSize\<close>, which the constructor does not initialise, is 0.\<close>

definition CTxMemPool_of :: "'e \<Rightarrow> CFeeRate \<Rightarrow> ('d, 'e) CTxMemPool" where
  "CTxMemPool_of est fee =
     \<lparr> mp_fSanityCheck = False, mp_nTransactionsUpdated = 0, mp_estimator = est, mp_minRelayFee = fee,
       mp_totalTxSize = 0, mapTx = [], mapNextTx = [], mapDeltas = [] \<rparr>"

definition setSanityCheck :: "bool \<Rightarrow> ('d, 'e) CTxMemPool \<Rightarrow> ('d, 'e) CTxMemPool" where
  "setSanityCheck b p = p\<lparr> mp_fSanityCheck := b \<rparr>"

text \<open>The entries of \<open>mapNextTx\<close> in the order of the outpoints.\<close>

fun next_put :: "COutPoint \<Rightarrow> 'v \<Rightarrow> (COutPoint \<times> 'v) list \<Rightarrow> (COutPoint \<times> 'v) list" where
  "next_put k x [] = [(k, x)]"
| "next_put k x ((k', y) # m) =
     (if COutPoint_less k k' then (k, x) # (k', y) # m
      else if k = k' then (k, x) # m else (k', y) # next_put k x m)"

definition next_erase :: "COutPoint \<Rightarrow> (COutPoint \<times> 'v) list \<Rightarrow> (COutPoint \<times> 'v) list" where
  "next_erase k m = filter (\<lambda>(k', y). k' \<noteq> k) m"

text \<open>\<open>*it->second.ptx\<close>\<close>

definition pointed_tx :: "('d, 'e) CTxMemPool \<Rightarrow> CInPoint \<Rightarrow> CTransaction option" where
  "pointed_tx p ip = (case ip_ptx ip of None \<Rightarrow> None | Some k \<Rightarrow> map_option me_tx (map_of (mapTx p) k))"

definition pool_exists :: "limbs \<Rightarrow> ('d, 'e) CTxMemPool \<Rightarrow> bool" where
  "pool_exists hash p \<longleftrightarrow> map_of (mapTx p) hash \<noteq> None"

definition pool_lookup :: "limbs \<Rightarrow> ('d, 'e) CTxMemPool \<Rightarrow> CTransaction option" where
  "pool_lookup hash p = map_option me_tx (map_of (mapTx p) hash)"

definition queryHashes :: "('d, 'e) CTxMemPool \<Rightarrow> limbs list" where
  "queryHashes p = map fst (mapTx p)"

definition getTransactions :: "('d, 'e) CTxMemPool \<Rightarrow> limbs set" where
  "getTransactions p = set (map fst (mapTx p))"

definition pool_size :: "('d, 'e) CTxMemPool \<Rightarrow> nat" where
  "pool_size p = length (mapTx p)"

definition AddTransactionsUpdated :: "u32 \<Rightarrow> ('d, 'e) CTxMemPool \<Rightarrow> ('d, 'e) CTxMemPool" where
  "AddTransactionsUpdated n p = p\<lparr> mp_nTransactionsUpdated := mp_nTransactionsUpdated p + n \<rparr>"

text \<open>The loop over the outpoints of one transaction that are spent in the pool.\<close>

fun prune_loop :: "limbs \<Rightarrow> (COutPoint \<times> CInPoint) list \<Rightarrow> CCoins \<Rightarrow> CCoins" where
  "prune_loop hashTx [] coins = coins"
| "prune_loop hashTx ((k, ip) # m) coins =
     (if op_hash k = hashTx then prune_loop hashTx m (snd (Spend_pos (op_n k) coins)) else coins)"

definition pruneSpent :: "limbs \<Rightarrow> CCoins \<Rightarrow> ('d, 'e) CTxMemPool \<Rightarrow> CCoins" where
  "pruneSpent hashTx coins p =
     prune_loop hashTx (dropWhile (\<lambda>(k, ip). COutPoint_less k \<lparr> op_hash = hashTx, op_n = 0 \<rparr>) (mapNextTx p)) coins"

section \<open>Adding\<close>

definition addUnchecked :: "limbs \<Rightarrow> 'd CTxMemPoolEntry \<Rightarrow> ('d, 'e) CTxMemPool \<Rightarrow> ('d, 'e) CTxMemPool" where
  "addUnchecked hash e p =
     (let tx = me_tx e in
      p\<lparr> mapTx := map_put hash e (mapTx p),
         mapNextTx :=
           (if HasZerocoinSpendInputs tx then mapNextTx p
            else foldl (\<lambda>m i. next_put (prevout (vin tx ! i)) \<lparr> ip_ptx = Some hash, ip_n = of_nat i \<rparr> m)
                   (mapNextTx p) [0..<length (vin tx)]),
         mp_nTransactionsUpdated := mp_nTransactionsUpdated p + 1,
         mp_totalTxSize := mp_totalTxSize p + me_nTxSize e \<rparr>)"

section \<open>Removing\<close>

text \<open>The hashes of the transactions that spend the outputs with the numbers \<open>is\<close>, put at the end of
  \<open>txToRemove\<close>.\<close>

fun push_children :: "('d, 'e) CTxMemPool \<Rightarrow> limbs \<Rightarrow> nat list \<Rightarrow> limbs list \<Rightarrow> limbs list option" where
  "push_children p hash [] q = Some q"
| "push_children p hash (i # is) q =
     (case map_of (mapNextTx p) \<lparr> op_hash = hash, op_n = of_nat i \<rparr> of
        None \<Rightarrow> push_children p hash is q
      | Some ip \<Rightarrow>
          (case pointed_tx p ip of
             None \<Rightarrow> None
           | Some t \<Rightarrow> push_children p hash is (q @ [tx_hash t])))"

definition erase_entry :: "limbs \<Rightarrow> 'd CTxMemPoolEntry \<Rightarrow> ('d, 'e) CTxMemPool \<Rightarrow> ('d, 'e) CTxMemPool" where
  "erase_entry hash e p =
     p\<lparr> mapNextTx := foldl (\<lambda>m i. next_erase (prevout i) m) (mapNextTx p) (vin (me_tx e)),
        mp_totalTxSize := mp_totalTxSize p - me_nTxSize e,
        mapTx := map_erase hash (mapTx p),
        mp_nTransactionsUpdated := mp_nTransactionsUpdated p + 1 \<rparr>"

lemma map_erase_shrinks: "map_of m k = Some y \<Longrightarrow> length (map_erase k m) < length m"
  using map_of_SomeD [of m k y] by (auto simp: map_erase_def intro!: length_filter_less)

text \<open>The loop until \<open>txToRemove\<close> is empty.\<close>

function (sequential) remove_loop :: "bool \<Rightarrow> limbs list \<Rightarrow> ('d, 'e) CTxMemPool \<Rightarrow> CTransaction list
    \<Rightarrow> (('d, 'e) CTxMemPool \<times> CTransaction list) option" where
  "remove_loop fRecursive [] p removed = Some (p, removed)"
| "remove_loop fRecursive (hash # q) p removed =
     (case map_of (mapTx p) hash of
        None \<Rightarrow> remove_loop fRecursive q p removed
      | Some e \<Rightarrow>
          let tx = me_tx e in
          (case (if fRecursive then push_children p hash [0..<length (vout tx)] q else Some q) of
             None \<Rightarrow> None
           | Some q \<Rightarrow> remove_loop fRecursive q (erase_entry hash e p) (removed @ [tx])))"
  by pat_completeness auto
termination
  by (relation "measures [\<lambda>(f, q, p, r). length (mapTx p), \<lambda>(f, q, p, r). length q]")
    (auto simp: erase_entry_def dest: map_erase_shrinks)

declare remove_loop.simps [simp del]

definition pool_remove :: "CTransaction \<Rightarrow> bool \<Rightarrow> ('d, 'e) CTxMemPool \<Rightarrow> CTransaction list
    \<Rightarrow> (('d, 'e) CTxMemPool \<times> CTransaction list) option" where
  "pool_remove origTx fRecursive p removed =
     (let hash = tx_hash origTx in
      case (if fRecursive \<and> map_of (mapTx p) hash = None
            then push_children p hash [0..<length (vout origTx)] [hash] else Some [hash]) of
        None \<Rightarrow> None
      | Some q \<Rightarrow> remove_loop fRecursive q p removed)"

text \<open>Transactions that spend immature coins; \<open>c\<close> is the cache that \<open>AccessCoins\<close> may fill.  \<open>None\<close> is the
  failed assertion, or a dangling pointer.\<close>

fun immature_loop :: "'b CCoinsView \<Rightarrow> CChainParams \<Rightarrow> u32 \<Rightarrow> ('d, 'e) CTxMemPool \<Rightarrow> CTxIn list
    \<Rightarrow> 'b CCoinsViewCache \<Rightarrow> (bool \<times> 'b CCoinsViewCache) option" where
  "immature_loop V P nMemPoolHeight p [] c = Some (False, c)"
| "immature_loop V P nMemPoolHeight p (i # is) c =
     (if map_of (mapTx p) (op_hash (prevout i)) \<noteq> None then immature_loop V P nMemPoolHeight p is c
      else
        (case AccessCoins V c (op_hash (prevout i)) of
           (None, c) \<Rightarrow> if mp_fSanityCheck p then None else Some (True, c)
         | (Some coins, c) \<Rightarrow>
             if (fCoinBase coins \<or> fCoinStake coins) \<and> nMemPoolHeight - c_nHeight coins < word_of_int (nMaturity P)
             then Some (True, c)
             else immature_loop V P nMemPoolHeight p is c))"

fun immature_txs :: "'b CCoinsView \<Rightarrow> CChainParams \<Rightarrow> u32 \<Rightarrow> ('d, 'e) CTxMemPool
    \<Rightarrow> (limbs \<times> 'd CTxMemPoolEntry) list \<Rightarrow> CTransaction list \<Rightarrow> 'b CCoinsViewCache
    \<Rightarrow> (CTransaction list \<times> 'b CCoinsViewCache) option" where
  "immature_txs V P nMemPoolHeight p [] ts c = Some (ts, c)"
| "immature_txs V P nMemPoolHeight p ((k, e) # m) ts c =
     (case immature_loop V P nMemPoolHeight p (vin (me_tx e)) c of
        None \<Rightarrow> None
      | Some (r, c) \<Rightarrow> immature_txs V P nMemPoolHeight p m (if r then ts @ [me_tx e] else ts) c)"

fun remove_all :: "CTransaction list \<Rightarrow> ('d, 'e) CTxMemPool \<Rightarrow> ('d, 'e) CTxMemPool option" where
  "remove_all [] p = Some p"
| "remove_all (tx # txs) p =
     (case pool_remove tx True p [] of None \<Rightarrow> None | Some (p, removed) \<Rightarrow> remove_all txs p)"

definition removeCoinbaseSpends :: "'b CCoinsView \<Rightarrow> CChainParams \<Rightarrow> u32 \<Rightarrow> ('d, 'e) CTxMemPool
    \<Rightarrow> 'b CCoinsViewCache \<Rightarrow> (('d, 'e) CTxMemPool \<times> 'b CCoinsViewCache) option" where
  "removeCoinbaseSpends V P nMemPoolHeight p c =
     (case immature_txs V P nMemPoolHeight p (mapTx p) [] c of
        None \<Rightarrow> None
      | Some (ts, c) \<Rightarrow> map_option (\<lambda>p. (p, c)) (remove_all ts p))"

text \<open>Transactions compare by their hashes.\<close>

fun conflicts_loop :: "CTransaction \<Rightarrow> CTxIn list \<Rightarrow> ('d, 'e) CTxMemPool \<Rightarrow> CTransaction list
    \<Rightarrow> (('d, 'e) CTxMemPool \<times> CTransaction list) option" where
  "conflicts_loop tx [] p removed = Some (p, removed)"
| "conflicts_loop tx (i # is) p removed =
     (case map_of (mapNextTx p) (prevout i) of
        None \<Rightarrow> conflicts_loop tx is p removed
      | Some ip \<Rightarrow>
          (case pointed_tx p ip of
             None \<Rightarrow> None
           | Some txConflict \<Rightarrow>
               if tx_hash txConflict \<noteq> tx_hash tx
               then (case pool_remove txConflict True p removed of
                   None \<Rightarrow> None | Some (p, removed) \<Rightarrow> conflicts_loop tx is p removed)
               else conflicts_loop tx is p removed))"

definition removeConflicts :: "CTransaction \<Rightarrow> ('d, 'e) CTxMemPool \<Rightarrow> CTransaction list
    \<Rightarrow> (('d, 'e) CTxMemPool \<times> CTransaction list) option" where
  "removeConflicts tx p removed = conflicts_loop tx (vin tx) p removed"

definition ClearPrioritisation :: "limbs \<Rightarrow> ('d, 'e) CTxMemPool \<Rightarrow> ('d, 'e) CTxMemPool" where
  "ClearPrioritisation hash p = p\<lparr> mapDeltas := map_erase hash (mapDeltas p) \<rparr>"

fun for_block_loop :: "CTransaction list \<Rightarrow> ('d, 'e) CTxMemPool \<Rightarrow> CTransaction list
    \<Rightarrow> (('d, 'e) CTxMemPool \<times> CTransaction list) option" where
  "for_block_loop [] p conflicts = Some (p, conflicts)"
| "for_block_loop (tx # txs) p conflicts =
     (case pool_remove tx False p [] of
        None \<Rightarrow> None
      | Some (p, dummy) \<Rightarrow>
          (case removeConflicts tx p conflicts of
             None \<Rightarrow> None
           | Some (p, conflicts) \<Rightarrow> for_block_loop txs (ClearPrioritisation (tx_hash tx) p) conflicts))"

definition removeForBlock :: "('d CTxMemPoolEntry list \<Rightarrow> u32 \<Rightarrow> CFeeRate \<Rightarrow> 'e \<Rightarrow> 'e) \<Rightarrow> CTransaction list \<Rightarrow> u32
    \<Rightarrow> ('d, 'e) CTxMemPool \<Rightarrow> CTransaction list \<Rightarrow> (('d, 'e) CTxMemPool \<times> CTransaction list) option" where
  "removeForBlock seenBlock txs nBlockHeight p conflicts =
     (let entries = List.map_filter (\<lambda>tx. map_of (mapTx p) (tx_hash tx)) txs;
          p = p\<lparr> mp_estimator := seenBlock entries nBlockHeight (mp_minRelayFee p) (mp_estimator p) \<rparr>
      in for_block_loop txs p conflicts)"

definition pool_clear :: "('d, 'e) CTxMemPool \<Rightarrow> ('d, 'e) CTxMemPool" where
  "pool_clear p = p\<lparr> mapTx := [], mapNextTx := [], mp_totalTxSize := 0,
     mp_nTransactionsUpdated := mp_nTransactionsUpdated p + 1 \<rparr>"

section \<open>Priorities and the view\<close>

text \<open>\<open>dadd\<close> and \<open>d0\<close> are addition and zero of the type of priorities.\<close>

definition PrioritiseTransaction :: "('d \<Rightarrow> 'd \<Rightarrow> 'd) \<Rightarrow> 'd \<Rightarrow> limbs \<Rightarrow> 'd \<Rightarrow> amount \<Rightarrow> ('d, 'e) CTxMemPool \<Rightarrow> ('d, 'e) CTxMemPool" where
  "PrioritiseTransaction dadd d0 hash dPriorityDelta nFeeDelta p =
     (case (case map_of (mapDeltas p) hash of None \<Rightarrow> (d0, 0) | Some deltas \<Rightarrow> deltas) of
        (d, f) \<Rightarrow> p\<lparr> mapDeltas := map_put hash (dadd d dPriorityDelta, f + nFeeDelta) (mapDeltas p) \<rparr>)"

definition ApplyDeltas :: "('d \<Rightarrow> 'd \<Rightarrow> 'd) \<Rightarrow> limbs \<Rightarrow> 'd \<Rightarrow> amount \<Rightarrow> ('d, 'e) CTxMemPool \<Rightarrow> 'd \<times> amount" where
  "ApplyDeltas dadd hash dPriorityDelta nFeeDelta p =
     (case map_of (mapDeltas p) hash of
        None \<Rightarrow> (dPriorityDelta, nFeeDelta)
      | Some (d, f) \<Rightarrow> (dadd dPriorityDelta d, nFeeDelta + f))"

definition CCoinsViewMemPool :: "('d, 'e) CTxMemPool \<Rightarrow> 'b CCoinsView \<Rightarrow> 'b CCoinsView" where
  "CCoinsViewMemPool p backed =
     backed\<lparr> v_GetCoins := (\<lambda>b txid.
             case pool_lookup txid p of
               Some t \<Rightarrow> (Some (CCoins_of t MEMPOOL_HEIGHT), b)
             | None \<Rightarrow> (case v_GetCoins backed b txid of
                 (Some coins, b) \<Rightarrow> (if IsPruned coins then None else Some coins, b)
               | (None, b) \<Rightarrow> (None, b))),
           v_HaveCoins := (\<lambda>b txid. if pool_exists txid p then (True, b) else v_HaveCoins backed b txid) \<rparr>"

text \<open>What \<open>check\<close> asserts of the maps: of one input, of the entries of \<open>mapTx\<close> without the replay of the
  transactions on a copy of the view, of the entries of \<open>mapNextTx\<close>, and of the total size.\<close>

definition check_marked :: "('d, 'e) CTxMemPool \<Rightarrow> limbs \<Rightarrow> CTxIn \<Rightarrow> nat \<Rightarrow> bool" where
  "check_marked p key txin i \<longleftrightarrow>
     (if \<not> CTxIn_IsZerocoinSpend txin \<and> \<not> CTxIn_IsZerocoinPublicSpend txin
      then (case map_of (mapNextTx p) (prevout txin) of
          None \<Rightarrow> False | Some it3 \<Rightarrow> ip_ptx it3 = Some key \<and> ip_n it3 = of_nat i)
      else True)"

definition check_next :: "('d, 'e) CTxMemPool \<Rightarrow> COutPoint \<times> CInPoint \<Rightarrow> bool" where
  "check_next p it \<longleftrightarrow>
     (case pointed_tx p (snd it) of
        None \<Rightarrow> False
      | Some t \<Rightarrow> map_option me_tx (map_of (mapTx p) (tx_hash t)) = Some t
          \<and> unat (ip_n (snd it)) < length (vin t) \<and> fst it = prevout (vin t ! unat (ip_n (snd it))))"

definition check_maps :: "('d, 'e) CTxMemPool \<Rightarrow> bool" where
  "check_maps p \<longleftrightarrow>
     list_all (\<lambda>(k, e). list_all (\<lambda>i. check_marked p k (vin (me_tx e) ! i) i) [0..<length (vin (me_tx e))]) (mapTx p)
     \<and> list_all (check_next p) (mapNextTx p)
     \<and> mp_totalTxSize p = foldl (\<lambda>t (k, e). t + me_nTxSize e) 0 (mapTx p)"

section \<open>The maps as functions\<close>

lemma map_of_map_put [simp]: "map_of (map_put k x m) = (map_of m)(k \<mapsto> x)"
  by (induction m) auto

lemma map_of_map_erase [simp]: "map_of (map_erase k m) = (map_of m)(k := None)"
  by (induction m) (auto simp: map_erase_def)

lemma map_of_next_put [simp]: "map_of (next_put k x m) = (map_of m)(k \<mapsto> x)"
  by (induction m) auto

lemma map_of_next_erase [simp]: "map_of (next_erase k m) = (map_of m)(k := None)"
  by (induction m) (auto simp: next_erase_def)

lemma map_of_erase_inputs:
  "map_of (foldl (\<lambda>m i. next_erase (prevout i) m) m is) op = (if op \<in> prevout ` set is then None else map_of m op)"
  by (induction "is" arbitrary: m) auto

lemma distinct_erase_inputs:
  "distinct (map fst m) \<Longrightarrow> distinct (map fst (foldl (\<lambda>m i. next_erase (prevout i) m) m is))"
  by (induction "is" arbitrary: m) (simp_all add: next_erase_def distinct_map_filter)

lemma set_next_put: "k \<notin> fst ` set m \<Longrightarrow> set (next_put k x m) = insert (k, x) (set m)"
  by (induction m) (auto split: if_splits)

lemma distinct_next_put:
  "k \<notin> fst ` set m \<Longrightarrow> distinct (map fst m) \<Longrightarrow> distinct (map fst (next_put k x m))"
proof (induction m)
  case (Cons a m)
  obtain k' y where a: "a = (k', y)" by (cases a)
  have "fst ` set (next_put k x m) = insert k (fst ` set m)" using Cons.prems set_next_put [of k m x] by simp
  then show ?case using Cons by (auto simp: a)
qed simp

lemma distinct_put_inputs:
  "distinct (map fst m) \<Longrightarrow> distinct (map f is) \<Longrightarrow> f ` set is \<inter> fst ` set m = {} \<Longrightarrow>
    distinct (map fst (foldl (\<lambda>m i. next_put (f i) (g i) m) m is))"
proof (induction "is" arbitrary: m)
  case (Cons i "is")
  have "fst ` set (next_put (f i) (g i) m) = insert (f i) (fst ` set m)"
    using Cons.prems set_next_put [of "f i" m "g i"] by simp
  then show ?case using Cons.IH [of "next_put (f i) (g i) m"] Cons.prems distinct_next_put [of "f i" m "g i"] by auto
qed simp

lemma map_of_put_inputs:
  "map_of (foldl (\<lambda>m i. next_put (f i) (g i) m) m is) op =
     (if op \<in> f ` set is then Some (g (last (filter (\<lambda>i. f i = op) is))) else map_of m op)"
  by (induction "is" arbitrary: m rule: rev_induct) auto

lemma distinct_map_erase: "distinct (map fst m) \<Longrightarrow> distinct (map fst (map_erase k m))"
  by (simp add: map_erase_def distinct_map_filter)

lemma sizes_put:
  "k \<notin> fst ` set m \<Longrightarrow> sum_list (map (\<lambda>(k, e). f e) (map_put k x m)) = sum_list (map (\<lambda>(k, e). f e) m) + (f x :: u64)"
  by (induction m) (auto simp: algebra_simps)

lemma sizes_erase:
  "distinct (map fst m) \<Longrightarrow> map_of m k = Some e \<Longrightarrow>
    sum_list (map (\<lambda>(k, e). f e) (map_erase k m)) = sum_list (map (\<lambda>(k, e). f e) m) - (f e :: u64)"
proof (induction m)
  case (Cons a m)
  obtain k' y where a: "a = (k', y)" by (cases a)
  have "map_erase k m = m" if "k = k'"
    using Cons.prems(1) that by (force simp: a map_erase_def intro: filter_True)
  then show ?case using Cons by (auto simp: a map_erase_def)
qed simp

section \<open>The invariant\<close>

definition ordinary_tx :: "CTransaction \<Rightarrow> bool" where
  "ordinary_tx tx \<longleftrightarrow> \<not> HasZerocoinSpendInputs tx"

text \<open>The key of every entry is the hash of its transaction; \<open>mapNextTx\<close> has, for exactly the inputs of
  ordinary transactions, what they spend; a zerocoin spend has none of these outpoints; and the total size is right.\<close>

definition spent_as :: "(limbs \<Rightarrow> 'd CTxMemPoolEntry option) \<Rightarrow> COutPoint \<Rightarrow> CInPoint \<Rightarrow> bool" where
  "spent_as m op ip \<longleftrightarrow> (\<exists>k e n. m k = Some e \<and> ordinary_tx (me_tx e) \<and> n < length (vin (me_tx e))
     \<and> prevout (vin (me_tx e) ! n) = op \<and> ip = \<lparr> ip_ptx = Some k, ip_n = of_nat n \<rparr>)"

definition next_matches :: "('d, 'e) CTxMemPool \<Rightarrow> bool" where
  "next_matches p \<longleftrightarrow> (\<forall>op ip. map_of (mapNextTx p) op = Some ip \<longleftrightarrow> spent_as (map_of (mapTx p)) op ip)"

definition pool_ok :: "('d, 'e) CTxMemPool \<Rightarrow> bool" where
  "pool_ok p \<longleftrightarrow> distinct (map fst (mapTx p)) \<and> distinct (map fst (mapNextTx p)) \<and> next_matches p
     \<and> (\<forall>k e. map_of (mapTx p) k = Some e \<longrightarrow> k = tx_hash (me_tx e) \<and> length (vin (me_tx e)) < 2 ^ 32)
     \<and> (\<forall>k e i. map_of (mapTx p) k = Some e \<longrightarrow> \<not> ordinary_tx (me_tx e) \<longrightarrow> i \<in> set (vin (me_tx e))
          \<longrightarrow> map_of (mapNextTx p) (prevout i) = None \<and> (CTxIn_IsZerocoinSpend i \<or> CTxIn_IsZerocoinPublicSpend i))
     \<and> mp_totalTxSize p = sum_list (map (\<lambda>(k, e). me_nTxSize e) (mapTx p))"

lemma pool_okD:
  assumes "pool_ok p"
  shows pool_distinct: "distinct (map fst (mapTx p))" and pool_next: "next_matches p"
    and pool_key: "map_of (mapTx p) k = Some e \<Longrightarrow> tx_hash (me_tx e) = k"
  using assms by (auto simp: pool_ok_def)

text \<open>No pointer of \<open>mapNextTx\<close> dangles.\<close>

lemma next_points:
  assumes "pool_ok p" "map_of (mapNextTx p) op = Some ip"
  obtains k e where "ip_ptx ip = Some k" "map_of (mapTx p) k = Some e" "tx_hash (me_tx e) = k"
    "pointed_tx p ip = Some (me_tx e)"
proof -
  obtain k e n where "map_of (mapTx p) k = Some e" "ip = \<lparr> ip_ptx = Some k, ip_n = of_nat n \<rparr>"
    using pool_next [OF assms(1)] assms(2) unfolding next_matches_def spent_as_def by blast
  then show ?thesis using that pool_key [OF assms(1)] by (simp add: pointed_tx_def)
qed

text \<open>Two transactions of the pool that spend the same outpoint are the same.\<close>

lemma next_unique:
  assumes "pool_ok p" "map_of (mapTx p) k = Some e" "ordinary_tx (me_tx e)" "i \<in> set (vin (me_tx e))"
  shows "\<exists>n. map_of (mapNextTx p) (prevout i) = Some \<lparr> ip_ptx = Some k, ip_n = of_nat n \<rparr>"
proof -
  obtain n where "n < length (vin (me_tx e))" "vin (me_tx e) ! n = i" using assms(4) by (auto simp: in_set_conv_nth)
  then show ?thesis using pool_next [OF assms(1)] assms(2,3) unfolding next_matches_def spent_as_def by metis
qed

lemma erase_entry_maps:
  "map_of (mapTx (erase_entry h e p)) = (map_of (mapTx p))(h := None)"
  "map_of (mapNextTx (erase_entry h e p)) op =
     (if op \<in> prevout ` set (vin (me_tx e)) then None else map_of (mapNextTx p) op)"
  by (simp_all add: erase_entry_def map_of_erase_inputs)

lemma erase_entry_ok:
  assumes ok: "pool_ok p" and h: "map_of (mapTx p) h = Some e"
  shows "pool_ok (erase_entry h e p)"
proof -
  let ?q = "erase_entry h e p"
  have gone: "op \<notin> prevout ` set (vin (me_tx e))"
    if "map_of (mapNextTx p) op = Some \<lparr> ip_ptx = Some k, ip_n = n \<rparr>" "k \<noteq> h" for op k n
  proof
    assume "op \<in> prevout ` set (vin (me_tx e))"
    then obtain i where i: "i \<in> set (vin (me_tx e))" "op = prevout i" by auto
    show False
    proof (cases "ordinary_tx (me_tx e)")
      case True
      then show False using next_unique [OF ok h True i(1)] that i(2) by auto
    next
      case False
      then show False using ok h i that(1) by (auto simp: pool_ok_def)
    qed
  qed
  have "next_matches ?q"
    unfolding next_matches_def
  proof (intro allI iffI)
    fix op ip
    assume "map_of (mapNextTx ?q) op = Some ip"
    then have old: "map_of (mapNextTx p) op = Some ip" and new: "op \<notin> prevout ` set (vin (me_tx e))"
      by (auto simp: erase_entry_maps split: if_splits)
    obtain k e' n where k: "map_of (mapTx p) k = Some e'" "ordinary_tx (me_tx e')" "n < length (vin (me_tx e'))"
      "prevout (vin (me_tx e') ! n) = op" "ip = \<lparr> ip_ptx = Some k, ip_n = of_nat n \<rparr>"
      using pool_next [OF ok] old unfolding next_matches_def spent_as_def by blast
    then have "k \<noteq> h" using new h by auto
    then show "spent_as (map_of (mapTx ?q)) op ip" using k by (auto simp: erase_entry_maps spent_as_def)
  next
    fix op ip
    assume "spent_as (map_of (mapTx ?q)) op ip"
    then obtain k e' n where k: "map_of (mapTx p) k = Some e'" "k \<noteq> h" "ordinary_tx (me_tx e')"
      "n < length (vin (me_tx e'))" "prevout (vin (me_tx e') ! n) = op" "ip = \<lparr> ip_ptx = Some k, ip_n = of_nat n \<rparr>"
      by (auto simp: erase_entry_maps spent_as_def split: if_splits)
    then have "map_of (mapNextTx p) op = Some ip" using pool_next [OF ok] unfolding next_matches_def spent_as_def by blast
    then show "map_of (mapNextTx ?q) op = Some ip" using gone [of op k] k(2,6) by (simp add: erase_entry_maps)
  qed
  moreover have "mp_totalTxSize ?q = sum_list (map (\<lambda>(k, e). me_nTxSize e) (mapTx ?q))"
    using ok sizes_erase [OF pool_distinct [OF ok] h, of me_nTxSize] by (simp add: pool_ok_def erase_entry_def)
  moreover have "distinct (map fst (mapTx ?q))"
    using distinct_map_erase [OF pool_distinct [OF ok]] by (simp add: erase_entry_def)
  moreover have "distinct (map fst (mapNextTx ?q))"
  proof -
    have "distinct (map fst (mapNextTx p))" using ok by (simp add: pool_ok_def)
    from distinct_erase_inputs [OF this] show ?thesis by (simp add: erase_entry_def)
  qed
  ultimately show ?thesis using ok by (auto simp: pool_ok_def erase_entry_maps split: if_splits)
qed

lemma put_inputs_unique:
  assumes "distinct (map prevout is)" "n < length is"
  shows "last (filter (\<lambda>j. prevout (is ! j) = prevout (is ! n)) [0..<length is]) = n"
proof -
  let ?f = "filter (\<lambda>j. prevout (is ! j) = prevout (is ! n)) [0..<length is]"
  have "n \<in> set ?f" using assms(2) by simp
  then have "last ?f \<in> set ?f" by (metis last_in_set list.set(1) empty_iff)
  then obtain x where "last ?f = x" "x < length is" "prevout (is ! x) = prevout (is ! n)" by simp
  then show ?thesis using nth_eq_iff_index_eq [OF assms(1)] assms(2) by simp
qed

text \<open>What \<open>AcceptToMemoryPool\<close> has made sure of when it adds an entry: the transaction is new to the pool,
  has no input twice and, unless it is a zerocoin spend, none that is spent in the pool; a zerocoin spend
  has only such inputs.  No zerocoin spend shares an outpoint with an ordinary transaction, for no script
  spends a mint.\<close>

definition admissible :: "('d, 'e) CTxMemPool \<Rightarrow> CTransaction \<Rightarrow> bool" where
  "admissible p tx \<longleftrightarrow>
     map_of (mapTx p) (tx_hash tx) = None \<and> distinct (map prevout (vin tx)) \<and> length (vin tx) < 2 ^ 32
     \<and> (\<forall>i \<in> set (vin tx). map_of (mapNextTx p) (prevout i) = None)
     \<and> (\<not> ordinary_tx tx \<longrightarrow> (\<forall>i \<in> set (vin tx). CTxIn_IsZerocoinSpend i \<or> CTxIn_IsZerocoinPublicSpend i))
     \<and> (ordinary_tx tx \<longrightarrow> (\<forall>(k, e) \<in> set (mapTx p). \<not> ordinary_tx (me_tx e)
          \<longrightarrow> prevout ` set (vin (me_tx e)) \<inter> prevout ` set (vin tx) = {}))"

lemma addUnchecked_maps:
  "map_of (mapTx (addUnchecked h e p)) = (map_of (mapTx p))(h \<mapsto> e)"
  by (simp add: addUnchecked_def Let_def)

lemma addUnchecked_next:
  assumes "distinct (map prevout (vin (me_tx e)))"
  shows "map_of (mapNextTx (addUnchecked h e p)) op = Some ip \<longleftrightarrow>
    (if ordinary_tx (me_tx e) \<and> op \<in> prevout ` set (vin (me_tx e))
     then (\<exists>n < length (vin (me_tx e)). prevout (vin (me_tx e) ! n) = op \<and> ip = \<lparr> ip_ptx = Some h, ip_n = of_nat n \<rparr>)
     else map_of (mapNextTx p) op = Some ip)"
proof (cases "ordinary_tx (me_tx e) \<and> op \<in> prevout ` set (vin (me_tx e))")
  case True
  let ?is = "vin (me_tx e)"
  obtain n where n: "n < length ?is" "op = prevout (?is ! n)" using True by (auto simp: in_set_conv_nth)
  have u: "m = n" if "m < length ?is" "prevout (?is ! m) = op" for m
    using nth_eq_iff_index_eq [OF assms] n that by simp
  have mem: "op \<in> (\<lambda>i. prevout (?is ! i)) ` set [0..<length ?is]" using n by auto
  have "map_of (mapNextTx (addUnchecked h e p)) op = Some \<lparr> ip_ptx = Some h, ip_n = of_nat n \<rparr>"
    using True mem put_inputs_unique [OF assms n(1)] n(2)
    by (simp add: addUnchecked_def Let_def ordinary_tx_def map_of_put_inputs)
  moreover have "(\<exists>n < length ?is. prevout (?is ! n) = op \<and> ip = \<lparr> ip_ptx = Some h, ip_n = of_nat n \<rparr>)
      \<longleftrightarrow> ip = \<lparr> ip_ptx = Some h, ip_n = of_nat n \<rparr>" using n u by blast
  ultimately show ?thesis using True by auto
next
  case False
  have "op \<notin> (\<lambda>i. prevout (vin (me_tx e) ! i)) ` set [0..<length (vin (me_tx e))]" if "ordinary_tx (me_tx e)"
    using False that by auto
  then show ?thesis using False
    by (auto simp: addUnchecked_def Let_def ordinary_tx_def map_of_put_inputs)
qed

lemma spent_as_new:
  assumes "m h = None"
  shows "spent_as (m(h \<mapsto> e)) op ip \<longleftrightarrow> spent_as m op ip \<or> (ordinary_tx (me_tx e)
    \<and> (\<exists>n < length (vin (me_tx e)). prevout (vin (me_tx e) ! n) = op \<and> ip = \<lparr> ip_ptx = Some h, ip_n = of_nat n \<rparr>))"
proof -
  have eq: "(m(h \<mapsto> e)) k = Some e' \<longleftrightarrow> m k = Some e' \<or> (k = h \<and> e' = e)" for k e' using assms by auto
  show ?thesis unfolding spent_as_def eq conj_disj_distribR ex_disj_distrib by simp
qed

lemma addUnchecked_ok:
  assumes ok: "pool_ok p" and adm: "admissible p (me_tx e)"
  shows "pool_ok (addUnchecked (tx_hash (me_tx e)) e p)"
proof -
  let ?h = "tx_hash (me_tx e)"
  let ?q = "addUnchecked ?h e p"
  have new: "map_of (mapTx p) ?h = None" and dist: "distinct (map prevout (vin (me_tx e)))"
    and len: "length (vin (me_tx e)) < 2 ^ 32"
    and free: "\<And>i. i \<in> set (vin (me_tx e)) \<Longrightarrow> map_of (mapNextTx p) (prevout i) = None"
    using adm by (auto simp: admissible_def)
  have apart: "prevout ` set (vin (me_tx e')) \<inter> prevout ` set (vin (me_tx e)) = {}"
    if "ordinary_tx (me_tx e)" "map_of (mapTx p) k = Some e'" "\<not> ordinary_tx (me_tx e')" for k e'
    using adm that map_of_SomeD by (fastforce simp: admissible_def)
  note nexts = addUnchecked_next [OF dist, of ?h p]
  have "next_matches ?q"
    unfolding next_matches_def
  proof (intro allI)
    fix op ip
    have old: "map_of (mapNextTx p) op = Some ip \<longleftrightarrow> spent_as (map_of (mapTx p)) op ip"
      using pool_next [OF ok] by (simp add: next_matches_def)
    have split: "spent_as (map_of (mapTx ?q)) op ip \<longleftrightarrow> spent_as (map_of (mapTx p)) op ip \<or> (ordinary_tx (me_tx e)
        \<and> (\<exists>n < length (vin (me_tx e)). prevout (vin (me_tx e) ! n) = op \<and> ip = \<lparr> ip_ptx = Some ?h, ip_n = of_nat n \<rparr>))"
      using spent_as_new [of "map_of (mapTx p)" ?h e op ip] new unfolding addUnchecked_maps by blast
    show "map_of (mapNextTx ?q) op = Some ip \<longleftrightarrow> spent_as (map_of (mapTx ?q)) op ip"
    proof (cases "ordinary_tx (me_tx e) \<and> op \<in> prevout ` set (vin (me_tx e))")
      case True
      then have "\<not> spent_as (map_of (mapTx p)) op ip" using free old by auto
      then show ?thesis using True unfolding nexts split by simp
    next
      case False
      then have "\<not> (ordinary_tx (me_tx e) \<and> (\<exists>n < length (vin (me_tx e)). prevout (vin (me_tx e) ! n) = op))" by auto
      then show ?thesis using False old unfolding nexts split by auto
    qed
  qed
  moreover have "distinct (map fst (mapNextTx ?q))"
  proof -
    let ?f = "\<lambda>i. prevout (vin (me_tx e) ! i)" and ?is = "[0..<length (vin (me_tx e))]"
    have f: "map ?f ?is = map prevout (vin (me_tx e))" by (rule nth_equalityI) simp_all
    have "prevout ` set (vin (me_tx e)) \<inter> fst ` set (mapNextTx p) = {}"
      using free by (auto simp: map_of_eq_None_iff)
    then have "?f ` set ?is \<inter> fst ` set (mapNextTx p) = {}" using arg_cong [OF f, of set] by (simp only: set_map)
    moreover have "distinct (map fst (mapNextTx p))" using ok by (simp add: pool_ok_def)
    ultimately have "distinct (map fst (foldl (\<lambda>m i. next_put (?f i) \<lparr> ip_ptx = Some ?h, ip_n = of_nat i \<rparr> m)
        (mapNextTx p) ?is))" using dist f by (intro distinct_put_inputs) simp_all
    then show ?thesis using ok by (simp add: addUnchecked_def Let_def pool_ok_def)
  qed
  moreover have "CTxIn_IsZerocoinSpend i \<or> CTxIn_IsZerocoinPublicSpend i"
    if "map_of (mapTx ?q) k = Some e'" "\<not> ordinary_tx (me_tx e')" "i \<in> set (vin (me_tx e'))" for k e' i
    using that adm ok by (auto simp: admissible_def addUnchecked_maps pool_ok_def split: if_splits)
  moreover have "map_of (mapNextTx ?q) (prevout i) = None"
    if "map_of (mapTx ?q) k = Some e'" "\<not> ordinary_tx (me_tx e')" "i \<in> set (vin (me_tx e'))" for k e' i
  proof (cases "k = ?h")
    case True
    then have "map_of (mapNextTx ?q) (prevout i) = Some ip \<longleftrightarrow> map_of (mapNextTx p) (prevout i) = Some ip" for ip
      using nexts that by (simp add: addUnchecked_maps)
    then show ?thesis using free [of i] that True by (cases "map_of (mapNextTx ?q) (prevout i)") (auto simp: addUnchecked_maps)
  next
    case False
    then have k: "map_of (mapTx p) k = Some e'" using that(1) by (simp add: addUnchecked_maps)
    have none: "map_of (mapNextTx p) (prevout i) = None" using ok k that(2,3) by (auto simp: pool_ok_def)
    have "\<not> (ordinary_tx (me_tx e) \<and> prevout i \<in> prevout ` set (vin (me_tx e)))"
      using apart [OF _ k that(2)] that(3) by blast
    then have "map_of (mapNextTx ?q) (prevout i) \<noteq> Some ip" for ip using nexts none by auto
    then show ?thesis by (cases "map_of (mapNextTx ?q) (prevout i)") auto
  qed
  moreover have "distinct (map fst (mapTx ?q))"
    using distinct_map_put [of ?h "mapTx p"] new pool_distinct [OF ok]
    by (simp add: addUnchecked_def Let_def map_of_eq_None_iff)
  moreover have "mp_totalTxSize ?q = sum_list (map (\<lambda>(k, e). me_nTxSize e) (mapTx ?q))"
    using ok new sizes_put [of ?h "mapTx p" me_nTxSize] by (simp add: pool_ok_def addUnchecked_def Let_def map_of_eq_None_iff)
  moreover have "k = tx_hash (me_tx e') \<and> length (vin (me_tx e')) < 2 ^ 32" if "map_of (mapTx ?q) k = Some e'" for k e'
    using that ok len by (auto simp: addUnchecked_maps pool_ok_def split: if_splits)
  ultimately show ?thesis unfolding pool_ok_def by blast
qed

section \<open>What removing removes\<close>

definition pool_spends :: "('d, 'e) CTxMemPool \<Rightarrow> CTransaction \<Rightarrow> limbs \<Rightarrow> bool" where
  "pool_spends p t h \<longleftrightarrow> (\<exists>i < length (vout t). \<exists>ip.
     map_of (mapNextTx p) \<lparr> op_hash = tx_hash t, op_n = of_nat i \<rparr> = Some ip \<and> ip_ptx ip = Some h)"

text \<open>A transaction of the pool, or the transactions that spend its outputs if it is not there, and
  what depends on these.\<close>

inductive pool_descendant :: "('d, 'e) CTxMemPool \<Rightarrow> CTransaction \<Rightarrow> limbs \<Rightarrow> bool" for p tx where
  Itself: "map_of (mapTx p) (tx_hash tx) = Some e \<Longrightarrow> pool_descendant p tx (tx_hash tx)"
| Orphaned: "map_of (mapTx p) (tx_hash tx) = None \<Longrightarrow> pool_spends p tx h \<Longrightarrow> pool_descendant p tx h"
| Child: "pool_descendant p tx h \<Longrightarrow> map_of (mapTx p) h = Some e \<Longrightarrow> pool_spends p (me_tx e) h' \<Longrightarrow> pool_descendant p tx h'"

lemma pool_spends_in:
  assumes "pool_ok p" "pool_spends p t h"
  shows "\<exists>e. map_of (mapTx p) h = Some e"
  using assms(2) next_points [OF assms(1)] unfolding pool_spends_def by (metis option.inject)

lemma descendant_in:
  assumes "pool_ok p" "pool_descendant p tx h"
  shows "\<exists>e. map_of (mapTx p) h = Some e"
  using assms(2) by cases (use pool_spends_in [OF assms(1)] in auto)

lemma push_children_eq:
  assumes "pool_ok p"
  shows "\<exists>new. push_children p h is q = Some (q @ new) \<and>
    set new = {k. \<exists>i \<in> set is. \<exists>ip. map_of (mapNextTx p) \<lparr> op_hash = h, op_n = of_nat i \<rparr> = Some ip \<and> ip_ptx ip = Some k}"
proof (induction "is" arbitrary: q)
  case (Cons i "is")
  show ?case
  proof (cases "map_of (mapNextTx p) \<lparr> op_hash = h, op_n = of_nat i \<rparr>")
    case None
    then show ?thesis using Cons [of q] by auto
  next
    case (Some ip)
    obtain k e where k: "ip_ptx ip = Some k" "map_of (mapTx p) k = Some e" "tx_hash (me_tx e) = k"
      "pointed_tx p ip = Some (me_tx e)" using next_points [OF assms Some] .
    then show ?thesis using Cons [of "q @ [k]"] Some by auto
  qed
qed simp

lemma push_children_spends:
  assumes "pool_ok p" "tx_hash t = h"
  obtains new where "push_children p h [0..<length (vout t)] q = Some (q @ new)" "set new = {k. pool_spends p t k}"
proof -
  have "{k. pool_spends p t k} = {k. \<exists>i \<in> set [0..<length (vout t)]. \<exists>ip.
      map_of (mapNextTx p) \<lparr> op_hash = h, op_n = of_nat i \<rparr> = Some ip \<and> ip_ptx ip = Some k}"
    unfolding pool_spends_def assms(2) by auto
  then show ?thesis using that push_children_eq [OF assms(1), of h "[0..<length (vout t)]" q] by auto
qed

text \<open>A smaller pool with the same entries under the keys outside \<open>R\<close>.\<close>

definition pool_minus :: "('d, 'e) CTxMemPool \<Rightarrow> limbs set \<Rightarrow> ('d, 'e) CTxMemPool \<Rightarrow> bool" where
  "pool_minus p0 R p \<longleftrightarrow> pool_ok p \<and> map_of (mapTx p) = (\<lambda>k. if k \<in> R then None else map_of (mapTx p0) k)"

lemma pool_minus_refl: "pool_ok p \<Longrightarrow> pool_minus p {} p"
  by (simp add: pool_minus_def)

lemma pool_minus_erase:
  "pool_minus p0 R p \<Longrightarrow> map_of (mapTx p) h = Some e \<Longrightarrow> pool_minus p0 (insert h R) (erase_entry h e p)"
  by (auto simp: pool_minus_def erase_entry_ok erase_entry_maps)

lemma option_eq_filter:
  assumes e: "\<And>x. a = Some x \<longleftrightarrow> b = Some x \<and> Q x"
  shows "a = (case b of None \<Rightarrow> None | Some x \<Rightarrow> if \<not> Q x then None else Some x)"
proof (cases b)
  case None
  then have "a \<noteq> Some x" for x using e [of x] by simp
  then show ?thesis using None by (cases a) auto
next
  case (Some y)
  then show ?thesis using e [of y] e [of "the a"] by (cases a) auto
qed

lemma pool_minus_next:
  assumes "pool_ok p0" "pool_minus p0 R p"
  shows "map_of (mapNextTx p) op =
    (case map_of (mapNextTx p0) op of None \<Rightarrow> None | Some ip \<Rightarrow> if ip_ptx ip \<in> Some ` R then None else Some ip)"
proof -
  have eq: "map_of (mapNextTx p) op = Some ip \<longleftrightarrow> map_of (mapNextTx p0) op = Some ip \<and> ip_ptx ip \<notin> Some ` R" for ip
  proof -
    have "spent_as (map_of (mapTx p)) op ip \<longleftrightarrow> spent_as (map_of (mapTx p0)) op ip \<and> ip_ptx ip \<notin> Some ` R"
      using assms(2) unfolding pool_minus_def spent_as_def by (auto split: if_splits) blast
    then show ?thesis using assms by (simp add: pool_minus_def pool_ok_def next_matches_def)
  qed
  show ?thesis using option_eq_filter [OF eq] by (simp split: option.split)
qed

lemma pool_minus_spends:
  assumes "pool_ok p0" "pool_minus p0 R p"
  shows "pool_spends p t k \<longleftrightarrow> pool_spends p0 t k \<and> k \<notin> R"
  unfolding pool_spends_def pool_minus_next [OF assms] by (auto split: option.splits if_splits)

definition children_in :: "('d, 'e) CTxMemPool \<Rightarrow> limbs set \<Rightarrow> limbs set \<Rightarrow> bool" where
  "children_in p A B \<longleftrightarrow> (\<forall>h e k. h \<in> A \<longrightarrow> map_of (mapTx p) h = Some e \<longrightarrow> pool_spends p (me_tx e) k \<longrightarrow> k \<in> B)"

lemma remove_loop_exact:
  assumes ok: "pool_ok p0"
    and D: "children_in p0 D D"
  shows "pool_minus p0 R p \<Longrightarrow> R \<subseteq> D \<Longrightarrow> set q \<inter> dom (map_of (mapTx p0)) \<subseteq> D
    \<Longrightarrow> children_in p0 R (R \<union> set q)
    \<Longrightarrow> \<exists>p' ts R'. remove_loop True q p r = Some (p', r @ ts) \<and> pool_minus p0 R' p' \<and> R' \<subseteq> D
          \<and> R' = R \<union> tx_hash ` set ts \<and> distinct (map tx_hash ts) \<and> R \<inter> tx_hash ` set ts = {}
          \<and> set q \<inter> dom (map_of (mapTx p0)) \<subseteq> R'
          \<and> children_in p0 R' R'"
proof (induction True q p r arbitrary: R rule: remove_loop.induct)
  case (1 p r)
  then show ?case by (intro exI [of _ p] exI [of _ "[]"] exI [of _ R]) (simp add: remove_loop.simps)
next
  case (2 hash q p r)
  note minus = "2.prems"(1) and sub = "2.prems"(2) and queue = "2.prems"(3) and children = "2.prems"(4)
  show ?case
  proof (cases "map_of (mapTx p) hash")
    case None
    then have gone: "hash \<in> R \<or> hash \<notin> dom (map_of (mapTx p0))"
      using minus by (auto simp: pool_minus_def split: if_splits)
    have children': "children_in p0 R (R \<union> set q)"
      unfolding children_in_def
    proof (intro allI impI)
      fix h' e' k
      assume "h' \<in> R" "map_of (mapTx p0) h' = Some e'" and k: "pool_spends p0 (me_tx e') k"
      then have "k \<in> R \<union> set (hash # q)" using children by (auto simp: children_in_def)
      then show "k \<in> R \<union> set q" using gone pool_spends_in [OF ok k] by auto
    qed
    have queue': "set q \<inter> dom (map_of (mapTx p0)) \<subseteq> D" using queue by auto
    obtain p' ts R' where *: "remove_loop True q p r = Some (p', r @ ts)" "pool_minus p0 R' p'" "R' \<subseteq> D"
      "R' = R \<union> tx_hash ` set ts" "distinct (map tx_hash ts)" "R \<inter> tx_hash ` set ts = {}"
      "set q \<inter> dom (map_of (mapTx p0)) \<subseteq> R'"
      "children_in p0 R' R'"
      using "2.hyps"(1) [OF None minus sub queue' children'] by blast
    moreover have "set (hash # q) \<inter> dom (map_of (mapTx p0)) \<subseteq> R'" using gone *(4,7) by auto
    ultimately show ?thesis using None by (auto simp: remove_loop.simps)
  next
    case (Some e)
    have h: "map_of (mapTx p0) hash = Some e" "hash \<notin> R" using minus Some by (auto simp: pool_minus_def split: if_splits)
    have okp: "pool_ok p" using minus by (simp add: pool_minus_def)
    have key: "tx_hash (me_tx e) = hash" using pool_key [OF ok h(1)] .
    obtain new where new: "push_children p hash [0..<length (vout (me_tx e))] q = Some (q @ new)"
      "set new = {k. pool_spends p (me_tx e) k}" using push_children_spends [OF okp key] .
    have inD: "hash \<in> D" using queue h(1) by auto
    have minus': "pool_minus p0 (insert hash R) (erase_entry hash e p)" using pool_minus_erase [OF minus Some] .
    have sub': "insert hash R \<subseteq> D" using inD sub by simp
    have queue': "set (q @ new) \<inter> dom (map_of (mapTx p0)) \<subseteq> D"
      using queue D inD h(1) new(2) pool_minus_spends [OF ok minus] by (auto simp: children_in_def)
    have children': "children_in p0 (insert hash R) (insert hash R \<union> set (q @ new))"
      using children h new(2) pool_minus_spends [OF ok minus] by (auto simp: children_in_def)
    obtain p' ts R' where *: "remove_loop True (q @ new) (erase_entry hash e p) (r @ [me_tx e]) = Some (p', (r @ [me_tx e]) @ ts)"
      "pool_minus p0 R' p'" "R' \<subseteq> D" "R' = insert hash R \<union> tx_hash ` set ts" "distinct (map tx_hash ts)"
      "insert hash R \<inter> tx_hash ` set ts = {}" "set (q @ new) \<inter> dom (map_of (mapTx p0)) \<subseteq> R'"
      "children_in p0 R' R'"
      using "2.hyps"(2) [OF Some refl _ minus' sub' queue' children'] new(1) by auto
    show ?thesis
      using * Some new(1) key h(2)
      by (intro exI [of _ p'] exI [of _ "me_tx e # ts"] exI [of _ R']) (auto simp: remove_loop.simps)
  qed
qed

lemma descendants_closed: "children_in p (Collect (pool_descendant p tx)) (Collect (pool_descendant p tx))"
  by (auto simp: children_in_def intro: pool_descendant.Child)

lemma pool_remove_recursive:
  assumes ok: "pool_ok p"
  shows "\<exists>p' ts. pool_remove tx True p r = Some (p', r @ ts) \<and> pool_minus p (Collect (pool_descendant p tx)) p'
    \<and> distinct (map tx_hash ts) \<and> tx_hash ` set ts = Collect (pool_descendant p tx)"
proof -
  let ?h = "tx_hash tx" and ?D = "Collect (pool_descendant p tx)" and ?M = "map_of (mapTx p)"
  obtain q where q: "(if ?M ?h = None then push_children p ?h [0..<length (vout tx)] [?h] else Some [?h]) = Some q"
    "set q = insert ?h (if ?M ?h = None then {k. pool_spends p tx k} else {})"
  proof -
    obtain new where "push_children p ?h [0..<length (vout tx)] [?h] = Some ([?h] @ new)"
      "set new = {k. pool_spends p tx k}" using push_children_spends [OF ok refl] .
    then show thesis using that by (cases "?M ?h = None") auto
  qed
  have sub: "set q \<inter> dom ?M \<subseteq> ?D"
    using q(2) by (auto intro: pool_descendant.Itself pool_descendant.Orphaned split: if_splits)
  have "children_in p {} ({} \<union> set q)" by (simp add: children_in_def)
  then obtain p' ts where *: "remove_loop True q p r = Some (p', r @ ts)" "pool_minus p (tx_hash ` set ts) p'"
    "tx_hash ` set ts \<subseteq> ?D" "distinct (map tx_hash ts)" "set q \<inter> dom ?M \<subseteq> tx_hash ` set ts"
    "children_in p (tx_hash ` set ts) (tx_hash ` set ts)"
    using remove_loop_exact [OF ok descendants_closed pool_minus_refl [OF ok] _ sub, of r] by auto
  have "h \<in> tx_hash ` set ts" if "pool_descendant p tx h" for h
    using that
  proof induction
    case (Itself e)
    then show ?case using *(5) q(2) by auto
  next
    case (Orphaned h)
    then show ?case using *(5) q(2) pool_spends_in [OF ok Orphaned(2)] by auto
  next
    case (Child h e h')
    then show ?case using *(6) by (auto simp: children_in_def)
  qed
  then have D: "tx_hash ` set ts = ?D" using *(3) by auto
  then have "pool_remove tx True p r = Some (p', r @ ts)" using *(1) q(1) by (simp add: pool_remove_def Let_def)
  then show ?thesis using *(2,4) D by auto
qed

lemma pool_remove_single:
  assumes "pool_ok p"
  shows "\<exists>p' ts. pool_remove tx False p r = Some (p', ts) \<and> pool_minus p {tx_hash tx} p'"
proof (cases "map_of (mapTx p) (tx_hash tx)")
  case None
  then have "pool_minus p {tx_hash tx} p" using assms by (auto simp: pool_minus_def)
  then show ?thesis using None by (simp add: pool_remove_def Let_def remove_loop.simps)
next
  case (Some e)
  then show ?thesis using pool_minus_erase [OF pool_minus_refl [OF assms] Some]
    by (simp add: pool_remove_def Let_def remove_loop.simps)
qed

lemma pool_minus_ok: "pool_minus p R p' \<Longrightarrow> pool_ok p'"
  by (simp add: pool_minus_def)

lemma pool_remove_ok:
  assumes "pool_ok p"
  shows "\<exists>p' ts. pool_remove tx fR p r = Some (p', ts) \<and> pool_ok p'"
proof (cases fR)
  case True
  then show ?thesis using pool_remove_recursive [OF assms, of tx r] by (auto intro: pool_minus_ok)
next
  case False
  then show ?thesis using pool_remove_single [OF assms, of tx r] by (auto intro: pool_minus_ok)
qed

lemma remove_all_ok: "pool_ok p \<Longrightarrow> \<exists>p'. remove_all txs p = Some p' \<and> pool_ok p'"
proof (induction txs arbitrary: p)
  case (Cons tx txs)
  obtain p1 ts where "pool_remove tx True p [] = Some (p1, ts)" "pool_ok p1" using pool_remove_ok [OF Cons.prems] by blast
  then show ?case using Cons.IH by simp
qed simp

text \<open>Nothing is added to \<open>mapNextTx\<close>, and only \<open>tx\<close> itself spends what the inputs \<open>is\<close> spend.\<close>

definition kept :: "CTransaction \<Rightarrow> CTxIn list \<Rightarrow> ('d, 'e) CTxMemPool \<Rightarrow> ('d, 'e) CTxMemPool \<Rightarrow> bool" where
  "kept tx is p p' \<longleftrightarrow>
     (\<forall>i \<in> set is. \<forall>ip. map_of (mapNextTx p') (prevout i) = Some ip \<longrightarrow> ip_ptx ip = Some (tx_hash tx))
     \<and> (\<forall>op ip. map_of (mapNextTx p') op = Some ip \<longrightarrow> map_of (mapNextTx p) op = Some ip)"

lemma conflicts_loop_ok:
  "pool_ok p \<Longrightarrow> \<exists>p' ts. conflicts_loop tx is p r = Some (p', ts) \<and> pool_ok p' \<and> kept tx is p p'"
proof (induction "is" arbitrary: p r)
  case (Cons i "is")
  show ?case
  proof (cases "map_of (mapNextTx p) (prevout i)")
    case None
    obtain p' ts where c: "conflicts_loop tx is p r = Some (p', ts)" "pool_ok p'" "kept tx is p p'"
      using Cons.IH [OF Cons.prems] by blast
    then have "map_of (mapNextTx p') (prevout i) = None"
      using None unfolding kept_def by (cases "map_of (mapNextTx p') (prevout i)") auto
    then show ?thesis using c None by (auto simp: kept_def)
  next
    case (Some ip)
    obtain k e where k: "ip_ptx ip = Some k" "map_of (mapTx p) k = Some e" "tx_hash (me_tx e) = k"
      "pointed_tx p ip = Some (me_tx e)" using next_points [OF Cons.prems Some] .
    show ?thesis
    proof (cases "k = tx_hash tx")
      case True
      obtain p' ts where c: "conflicts_loop tx is p r = Some (p', ts)" "pool_ok p'" "kept tx is p p'"
        using Cons.IH [OF Cons.prems] by blast
      then have "ip_ptx x = Some (tx_hash tx)" if "map_of (mapNextTx p') (prevout i) = Some x" for x
        using that Some k(1) True unfolding kept_def by fastforce
      then show ?thesis using c Some k True by (auto simp: kept_def)
    next
      case False
      obtain p1 ts where p1: "pool_remove (me_tx e) True p r = Some (p1, r @ ts)"
        "pool_minus p (Collect (pool_descendant p (me_tx e))) p1" using pool_remove_recursive [OF Cons.prems] by blast
      have d: "pool_descendant p (me_tx e) k" using pool_descendant.Itself k(2,3) by blast
      note next1 = pool_minus_next [OF Cons.prems p1(2)]
      have n1: "map_of (mapNextTx p1) (prevout i) = None" using Some k(1) d by (simp add: next1)
      have sub: "map_of (mapNextTx p1) op = Some x \<Longrightarrow> map_of (mapNextTx p) op = Some x" for op x
        by (auto simp: next1 split: option.splits if_splits)
      obtain p' ts' where c: "conflicts_loop tx is p1 (r @ ts) = Some (p', ts')" "pool_ok p'" "kept tx is p1 p'"
        using Cons.IH [OF pool_minus_ok [OF p1(2)]] by blast
      then have "map_of (mapNextTx p') (prevout i) = None"
        using n1 unfolding kept_def by (cases "map_of (mapNextTx p') (prevout i)") auto
      then have "kept tx (i # is) p p'" using c(3) sub by (simp add: kept_def)
      then show ?thesis using Some k False p1(1) c(1,2) by simp
    qed
  qed
qed (simp add: kept_def)

lemma pool_minus_trans: "pool_minus p R q \<Longrightarrow> pool_minus q S r \<Longrightarrow> pool_minus p (R \<union> S) r"
  by (auto simp: pool_minus_def)

lemma conflicts_loop_minus:
  "pool_ok p \<Longrightarrow> conflicts_loop tx is p r = Some (p', ts) \<Longrightarrow> \<exists>R. pool_minus p R p'"
proof (induction "is" arbitrary: p r)
  case Nil
  then show ?case using pool_minus_refl by auto
next
  case (Cons i "is")
  then consider r1 where "conflicts_loop tx is p r1 = Some (p', ts)"
    | t p1 r1 where "pool_remove t True p r = Some (p1, r1)" "conflicts_loop tx is p1 r1 = Some (p', ts)"
    by (auto split: option.splits if_splits)
  then show ?case
  proof cases
    case 1
    then show ?thesis using Cons by blast
  next
    case 2
    then obtain R where R: "pool_minus p R p1" using pool_remove_recursive [OF Cons.prems(1), of t r] by auto
    then show ?thesis using Cons.IH [OF pool_minus_ok [OF R] 2(2)] pool_minus_trans by blast
  qed
qed

lemma pool_ok_cong:
  "mapTx q = mapTx p \<Longrightarrow> mapNextTx q = mapNextTx p \<Longrightarrow> mp_totalTxSize q = mp_totalTxSize p \<Longrightarrow> pool_ok q \<longleftrightarrow> pool_ok p"
  by (simp add: pool_ok_def next_matches_def)

lemma pool_minus_clear: "pool_ok p \<Longrightarrow> pool_minus p {} (ClearPrioritisation h p)"
  using pool_ok_cong [of "ClearPrioritisation h p" p] by (simp add: pool_minus_def ClearPrioritisation_def)

text \<open>A transaction that is in a block: not in the pool, and nothing in the pool conflicts with it.\<close>

definition settled :: "('d, 'e) CTxMemPool \<Rightarrow> CTransaction \<Rightarrow> bool" where
  "settled p tx \<longleftrightarrow> map_of (mapTx p) (tx_hash tx) = None \<and> (\<forall>i \<in> set (vin tx). map_of (mapNextTx p) (prevout i) = None)"

lemma settled_minus: "pool_ok p \<Longrightarrow> pool_minus p R q \<Longrightarrow> settled p tx \<Longrightarrow> settled q tx"
  by (auto simp: settled_def pool_minus_next) (simp add: pool_minus_def)

lemma block_tx_settled:
  assumes ok: "pool_ok p"
  shows "\<exists>p1 d p2 ts R. pool_remove tx False p [] = Some (p1, d) \<and> removeConflicts tx p1 r = Some (p2, ts)
    \<and> pool_minus p R p2 \<and> settled p2 tx"
proof -
  obtain p1 d where p1: "pool_remove tx False p [] = Some (p1, d)" "pool_minus p {tx_hash tx} p1"
    using pool_remove_single [OF ok] by blast
  have ok1: "pool_ok p1" using pool_minus_ok [OF p1(2)] .
  obtain p2 ts where p2: "removeConflicts tx p1 r = Some (p2, ts)" "pool_ok p2" "kept tx (vin tx) p1 p2"
    using conflicts_loop_ok [OF ok1] unfolding removeConflicts_def by blast
  obtain R where R: "pool_minus p1 R p2" using conflicts_loop_minus [OF ok1 p2(1) [unfolded removeConflicts_def]] by blast
  have gone: "map_of (mapTx p2) (tx_hash tx) = None" using p1(2) R by (simp add: pool_minus_def)
  have "map_of (mapNextTx p2) (prevout i) = None" if "i \<in> set (vin tx)" for i
  proof (cases "map_of (mapNextTx p2) (prevout i)")
    case (Some ip)
    then have "ip_ptx ip = Some (tx_hash tx)" using p2(3) that by (auto simp: kept_def)
    moreover obtain k e where "ip_ptx ip = Some k" "map_of (mapTx p2) k = Some e" using next_points [OF p2(2) Some] .
    ultimately show ?thesis using gone by simp
  qed
  then have "settled p2 tx" using gone by (simp add: settled_def)
  moreover have "pool_minus p ({tx_hash tx} \<union> R) p2" using pool_minus_trans [OF p1(2) R] .
  ultimately show ?thesis using p1(1) p2(1)
    by (intro exI [of _ p1] exI [of _ d] exI [of _ p2] exI [of _ ts] exI [of _ "{tx_hash tx} \<union> R"] conjI)
qed

lemma for_block_loop_settles:
  "pool_ok p \<Longrightarrow> \<exists>p' c' R. for_block_loop txs p c = Some (p', c') \<and> pool_minus p R p' \<and> (\<forall>tx \<in> set txs. settled p' tx)"
proof (induction txs arbitrary: p c)
  case Nil
  then show ?case using pool_minus_refl by auto
next
  case (Cons tx txs)
  obtain p1 d p2 ts R where s: "pool_remove tx False p [] = Some (p1, d)" "removeConflicts tx p1 c = Some (p2, ts)"
    "pool_minus p R p2" "settled p2 tx" using block_tx_settled [OF Cons.prems] by blast
  let ?p3 = "ClearPrioritisation (tx_hash tx) p2"
  have m3: "pool_minus p R ?p3"
    using pool_minus_trans [OF s(3) pool_minus_clear [OF pool_minus_ok [OF s(3)]]] by simp
  obtain p' c' S where p': "for_block_loop txs ?p3 ts = Some (p', c')" "pool_minus ?p3 S p'" "\<forall>tx \<in> set txs. settled p' tx"
    using Cons.IH [OF pool_minus_ok [OF m3]] by blast
  have "settled ?p3 tx" using s(4) by (simp add: settled_def ClearPrioritisation_def)
  then have "settled p' tx" using settled_minus [OF pool_minus_ok [OF m3] p'(2)] by blast
  then show ?case using s(1,2) p' pool_minus_trans [OF m3 p'(2)] by auto
qed

lemma removeForBlock_settles:
  assumes "pool_ok p"
  shows "\<exists>p' c' R. removeForBlock seenBlock txs h p c = Some (p', c') \<and> pool_minus p R p' \<and> (\<forall>tx \<in> set txs. settled p' tx)"
proof -
  define q where "q = p\<lparr> mp_estimator := seenBlock (List.map_filter (\<lambda>tx. map_of (mapTx p) (tx_hash tx)) txs) h
    (mp_minRelayFee p) (mp_estimator p) \<rparr>"
  have q: "mapTx q = mapTx p" "removeForBlock seenBlock txs h p c = for_block_loop txs q c"
    by (simp_all add: q_def removeForBlock_def Let_def)
  have "pool_ok q" using assms pool_ok_cong [of q p] by (simp add: q_def)
  from for_block_loop_settles [OF this, of txs c] show ?thesis unfolding q(2) pool_minus_def q(1) by blast
qed

lemma removeCoinbaseSpends_ok:
  "pool_ok p \<Longrightarrow> removeCoinbaseSpends V P h p c = Some (p', c') \<Longrightarrow> pool_ok p'"
proof -
  assume ok: "pool_ok p" and r: "removeCoinbaseSpends V P h p c = Some (p', c')"
  obtain ts c1 where "remove_all ts p = Some p'" using r by (auto simp: removeCoinbaseSpends_def split: option.splits)
  then show "pool_ok p'" using remove_all_ok [OF ok, of ts] by auto
qed

lemma foldl_sizes: "foldl (\<lambda>t (k, e). t + f e) (a :: u64) m = a + sum_list (map (\<lambda>(k, e). f e) m)"
  by (induction m arbitrary: a) (auto simp: add.assoc)

lemma pool_ok_check:
  assumes ok: "pool_ok p"
  shows "check_maps p"
proof -
  have "check_marked p k (vin (me_tx e) ! i) i" if "(k, e) \<in> set (mapTx p)" "i < length (vin (me_tx e))" for k e i
  proof (cases "ordinary_tx (me_tx e)")
    case True
    have "map_of (mapTx p) k = Some e" using that(1) pool_distinct [OF ok] by simp
    then have "map_of (mapNextTx p) (prevout (vin (me_tx e) ! i)) = Some \<lparr> ip_ptx = Some k, ip_n = of_nat i \<rparr>"
      using pool_next [OF ok] True that(2) unfolding next_matches_def spent_as_def by blast
    then show ?thesis by (simp add: check_marked_def)
  next
    case False
    have "map_of (mapTx p) k = Some e" using that(1) pool_distinct [OF ok] by simp
    then show ?thesis using False that(2) ok by (auto simp: check_marked_def pool_ok_def)
  qed
  moreover have "check_next p (op, ip)" if "(op, ip) \<in> set (mapNextTx p)" for op ip
  proof -
    have "map_of (mapNextTx p) op = Some ip" using that ok by (simp add: pool_ok_def)
    then obtain k e n where k: "map_of (mapTx p) k = Some e" "n < length (vin (me_tx e))"
      "prevout (vin (me_tx e) ! n) = op" "ip = \<lparr> ip_ptx = Some k, ip_n = of_nat n \<rparr>"
      using pool_next [OF ok] unfolding next_matches_def spent_as_def by blast
    moreover have "length (vin (me_tx e)) < 2 ^ 32" using ok k(1) by (auto simp: pool_ok_def)
    ultimately show ?thesis using pool_key [OF ok k(1)]
      by (simp add: check_next_def pointed_tx_def unat_of_nat)
  qed
  moreover have "mp_totalTxSize p = foldl (\<lambda>t (k, e). t + me_nTxSize e) 0 (mapTx p)"
    using ok by (simp add: pool_ok_def foldl_sizes)
  ultimately show ?thesis by (fastforce simp: check_maps_def list_all_iff)
qed

section \<open>The life of a pool\<close>

text \<open>Everything the node does to its pool, the acceptance of a transaction being its last step.\<close>

inductive pool_step :: "'b CCoinsView \<Rightarrow> CChainParams \<Rightarrow> ('d CTxMemPoolEntry list \<Rightarrow> u32 \<Rightarrow> CFeeRate \<Rightarrow> 'e \<Rightarrow> 'e)
    \<Rightarrow> ('d \<Rightarrow> 'd \<Rightarrow> 'd) \<Rightarrow> 'd \<Rightarrow> ('d, 'e) CTxMemPool \<Rightarrow> ('d, 'e) CTxMemPool \<Rightarrow> bool"
  for V P seenBlock dadd d0 where
  Accept: "admissible p (me_tx e) \<Longrightarrow> pool_step V P seenBlock dadd d0 p (addUnchecked (tx_hash (me_tx e)) e p)"
| Remove: "pool_remove tx fRecursive p r = Some (p', r') \<Longrightarrow> pool_step V P seenBlock dadd d0 p p'"
| Conflicts: "removeConflicts tx p r = Some (p', r') \<Longrightarrow> pool_step V P seenBlock dadd d0 p p'"
| Block: "removeForBlock seenBlock txs h p r = Some (p', r') \<Longrightarrow> pool_step V P seenBlock dadd d0 p p'"
| Immature: "removeCoinbaseSpends V P h p c = Some (p', c') \<Longrightarrow> pool_step V P seenBlock dadd d0 p p'"
| Clear: "pool_step V P seenBlock dadd d0 p (pool_clear p)"
| Prioritise: "pool_step V P seenBlock dadd d0 p (PrioritiseTransaction dadd d0 hash d f p)"
| Unprioritise: "pool_step V P seenBlock dadd d0 p (ClearPrioritisation hash p)"
| Updated: "pool_step V P seenBlock dadd d0 p (AddTransactionsUpdated n p)"
| Sanity: "pool_step V P seenBlock dadd d0 p (setSanityCheck b p)"

lemma pool_clear_ok: "pool_ok (pool_clear p)"
  by (simp add: pool_ok_def pool_clear_def next_matches_def spent_as_def)

lemma pool_ok_kept:
  "pool_ok (ClearPrioritisation h p) \<longleftrightarrow> pool_ok p" "pool_ok (AddTransactionsUpdated n p) \<longleftrightarrow> pool_ok p"
  "pool_ok (setSanityCheck b p) \<longleftrightarrow> pool_ok p"
  by (rule pool_ok_cong; simp add: ClearPrioritisation_def AddTransactionsUpdated_def setSanityCheck_def)+

lemma pool_step_ok:
  assumes "pool_step V P seenBlock dadd d0 p p'" "pool_ok p"
  shows "pool_ok p'"
  using assms
proof cases
  case (Remove tx fR r r')
  then show ?thesis using pool_remove_ok [OF assms(2), of tx fR r] by auto
next
  case (Conflicts tx r r')
  then show ?thesis using conflicts_loop_ok [OF assms(2), of tx "vin tx" r] by (auto simp: removeConflicts_def)
next
  case (Block txs h r r')
  then show ?thesis using removeForBlock_settles [OF assms(2), of seenBlock txs h r] by (auto simp: pool_minus_def)
next
  case (Prioritise hash d f)
  have "mapTx p' = mapTx p" "mapNextTx p' = mapNextTx p" "mp_totalTxSize p' = mp_totalTxSize p"
    unfolding Prioritise PrioritiseTransaction_def by (simp_all split: option.split prod.split)
  then show ?thesis using pool_ok_cong assms(2) by blast
next
  case (Immature h c c')
  then show ?thesis using removeCoinbaseSpends_ok assms(2) by blast
qed (use assms(2) in \<open>simp_all add: addUnchecked_ok pool_clear_ok pool_ok_kept\<close>)

lemma pool_empty_ok: "pool_ok (CTxMemPool_of est fee)"
  by (simp add: pool_ok_def CTxMemPool_of_def next_matches_def spent_as_def)

lemma pool_steps_ok:
  "(pool_step V P seenBlock dadd d0)\<^sup>*\<^sup>* p p' \<Longrightarrow> pool_ok p \<Longrightarrow> pool_ok p'"
  by (induction rule: rtranclp_induct) (auto intro: pool_step_ok)


text \<open>C8: Removing a transaction takes what depends on it and nothing else.  On a pool the node has made,
  \<open>remove\<close> with \<open>fRecursive\<close> returns, and lists exactly once each transaction that descends from the given
  one by spends within the pool (from its outputs alone when it is not in the pool itself); every
  other entry stays as it was, and nothing that stays spends an output of what went.\<close>

theorem remove_takes_descendants:
  assumes "(pool_step V P seenBlock dadd d0)\<^sup>*\<^sup>* (CTxMemPool_of est fee) p"
  shows "\<exists>p' ts. pool_remove tx True p r = Some (p', r @ ts) \<and> distinct (map tx_hash ts)
    \<and> tx_hash ` set ts = {h. pool_descendant p tx h}
    \<and> (\<forall>k. map_of (mapTx p') k = (if pool_descendant p tx k then None else map_of (mapTx p) k))
    \<and> (\<forall>h e k. pool_descendant p tx h \<longrightarrow> map_of (mapTx p) h = Some e \<longrightarrow> \<not> pool_spends p' (me_tx e) k)
    \<and> (map_of (mapTx p) (tx_hash tx) = None \<longrightarrow> (\<forall>k. \<not> pool_spends p' tx k))"
proof -
  have ok: "pool_ok p" using pool_steps_ok [OF assms pool_empty_ok] .
  obtain p' ts where r: "pool_remove tx True p r = Some (p', r @ ts)" "pool_minus p {h. pool_descendant p tx h} p'"
    "distinct (map tx_hash ts)" "tx_hash ` set ts = {h. pool_descendant p tx h}"
    using pool_remove_recursive [OF ok] by blast
  note s = pool_minus_spends [OF ok r(2)]
  have "\<not> pool_spends p' (me_tx e) k" if "pool_descendant p tx h" "map_of (mapTx p) h = Some e" for h e k
    using that pool_descendant.Child by (auto simp: s)
  moreover have "\<not> pool_spends p' tx k" if "map_of (mapTx p) (tx_hash tx) = None" for k
    using that pool_descendant.Orphaned by (auto simp: s)
  ultimately show ?thesis using r by (intro exI [of _ p'] exI [of _ ts]) (simp add: pool_minus_def)
qed


section \<open>A pool of a transaction and one that spends it\<close>

definition parent_tx :: CTransaction where
  "parent_tx = CTransaction_new\<lparr> tx_hash := of_u64 8 1, vin := [CTxIn_of \<lparr> op_hash = of_u64 8 9, op_n = 3 \<rparr> [] 0],
     vout := [CTxOut_of 5 [0x51]] \<rparr>"

definition child_tx :: CTransaction where
  "child_tx = CTransaction_new\<lparr> tx_hash := of_u64 8 2, vin := [CTxIn_of \<lparr> op_hash = of_u64 8 1, op_n = 0 \<rparr> [] 0],
     vout := [CTxOut_of 4 [0x51]] \<rparr>"

definition sample_pool_entry :: "CTransaction \<Rightarrow> unit CTxMemPoolEntry" where
  "sample_pool_entry t = \<lparr> me_tx = t, me_nFee = 1, me_nTxSize = 60, me_nModSize = 60, me_nTime = 0, me_dPriority = (), me_nHeight = 7 \<rparr>"

definition small_pool :: "(unit, unit) CTxMemPool" where
  "small_pool = addUnchecked (tx_hash child_tx) (sample_pool_entry child_tx)
     (addUnchecked (tx_hash parent_tx) (sample_pool_entry parent_tx) (CTxMemPool_of () \<lparr> nSatoshisPerK = 1 \<rparr>))"

abbreviation "sample_pool_step \<equiv> pool_step null_view CMainParams (\<lambda>es h f e. e) (\<lambda>a b. ()) ()"

lemma small_pool_hashes: "of_u64 8 1 \<noteq> of_u64 8 2" "of_u64 8 9 \<noteq> of_u64 8 1"
  by code_simp+

lemma small_pool_txs [simp]:
  "tx_hash parent_tx = of_u64 8 1" "tx_hash child_tx = of_u64 8 2"
  "vin parent_tx = [CTxIn_of \<lparr> op_hash = of_u64 8 9, op_n = 3 \<rparr> [] 0]"
  "vin child_tx = [CTxIn_of \<lparr> op_hash = of_u64 8 1, op_n = 0 \<rparr> [] 0]"
  by (simp_all add: parent_tx_def child_tx_def)

lemma small_pool_ordinary [simp]: "\<not> HasZerocoinSpendInputs parent_tx" "\<not> HasZerocoinSpendInputs child_tx"
  by (simp_all add: HasZerocoinSpendInputs_def CTxIn_of_def CTxIn_IsZerocoinSpend_def CTxIn_IsZerocoinPublicSpend_def
    IsZerocoinSpend_def IsZerocoinPublicSpend_def StartsWithOpcode_def)

lemma small_pool_reached: "sample_pool_step\<^sup>*\<^sup>* (CTxMemPool_of () \<lparr> nSatoshisPerK = 1 \<rparr>) small_pool"
proof -
  let ?p0 = "CTxMemPool_of () \<lparr> nSatoshisPerK = 1 \<rparr> :: (unit, unit) CTxMemPool"
  let ?p1 = "addUnchecked (tx_hash parent_tx) (sample_pool_entry parent_tx) ?p0"
  have "admissible ?p0 (me_tx (sample_pool_entry parent_tx))"
    by (simp add: admissible_def CTxMemPool_of_def sample_pool_entry_def ordinary_tx_def)
  from pool_step.Accept [OF this] have s1: "sample_pool_step ?p0 ?p1" by (simp add: sample_pool_entry_def)
  have "admissible ?p1 (me_tx (sample_pool_entry child_tx))"
    using small_pool_hashes
    by (simp add: admissible_def CTxMemPool_of_def sample_pool_entry_def ordinary_tx_def addUnchecked_def CTxIn_of_def)
  from pool_step.Accept [OF this] have s2: "sample_pool_step ?p1 small_pool" by (simp add: sample_pool_entry_def small_pool_def)
  show ?thesis using s1 s2 by (meson converse_rtranclp_into_rtranclp rtranclp.rtrancl_refl)
qed


lemma small_pool_family: "pool_descendant small_pool parent_tx (of_u64 8 1)" "pool_descendant small_pool parent_tx (of_u64 8 2)"
proof -
  have "\<exists>e. map_of (mapTx small_pool) (of_u64 8 1) = Some e \<and> me_tx e = parent_tx"
    using small_pool_hashes by (simp add: small_pool_def addUnchecked_maps sample_pool_entry_def)
  then obtain e where e: "map_of (mapTx small_pool) (of_u64 8 1) = Some e" "me_tx e = parent_tx" by blast
  then show d: "pool_descendant small_pool parent_tx (of_u64 8 1)" using pool_descendant.Itself [of small_pool parent_tx e] by simp
  have "pool_spends small_pool parent_tx (of_u64 8 2)"
    using small_pool_hashes
    by (auto simp: pool_spends_def small_pool_def addUnchecked_def sample_pool_entry_def CTxIn_of_def CTxMemPool_of_def)
      (simp add: parent_tx_def)
  then show "pool_descendant small_pool parent_tx (of_u64 8 2)" using pool_descendant.Child [OF d e(1)] e(2) by simp
qed

theorem remove_takes_descendants_witness:
  "\<exists>p' ts. pool_remove parent_tx True small_pool [] = Some (p', ts)
    \<and> map_of (mapTx p') (of_u64 8 1) = None \<and> map_of (mapTx p') (of_u64 8 2) = None"
  using remove_takes_descendants [OF small_pool_reached, of parent_tx "[]"] small_pool_family by auto


end
