(* ===== verification/Activation.thy ===== *)
theory Activation
  imports Disconnect Mempool
begin

unbundle bit_operations_syntax

text \<open>
  The choice of the active chain in \<open>src/main.cpp\<close>: the set of candidates for its tip, the blocks that
  wait for a parent's data, \<open>ConnectTip\<close>, \<open>DisconnectTip\<close>, \<open>FindMostWorkChain\<close>, \<open>ActivateBestChain\<close>,
  \<open>InvalidateBlock\<close>, \<open>ReconsiderBlock\<close> and \<open>ReceivedBlockTransactions\<close>, over the node's block tree, active
  chain, coins, memory pool and undo files.  The theorems are in \<open>BestChain\<close>.

  A run is \<open>None\<close> when it does not return, \<open>Inl\<close> when an assertion fails or NULL is followed, and \<open>Inr\<close>
  with its result otherwise.  The locks, the log, the clocks of the benchmarks and the signals to the
  wallet, the network and the user interface are not modelled; neither is \<open>CTxMemPool::check\<close>, which only
  asserts and is off by default.
\<close>

section \<open>The state\<close>

record CBlockReject =
  rj_chRejectCode :: u8
  rj_strRejectReason :: string
  rj_hashBlock :: limbs

text \<open>Of \<open>CNodeState\<close> the fields that bad blocks change.\<close>

record CNodeState =
  nMisbehavior :: u32
  fShouldBan :: bool
  rejects :: "CBlockReject list"

record CBlockFileInfo =
  fi_nBlocks :: u32
  fi_nSize :: u32
  fi_nUndoSize :: u32
  fi_nHeightFirst :: u32
  fi_nHeightLast :: u32
  fi_nTimeFirst :: u64
  fi_nTimeLast :: u64

record ('b, 'z, 'd, 'e) node =
  nd_tree :: block_tree
  chainActive :: CChain
  setBlockIndexCandidates :: "ptr list"
  mapBlocksUnlinked :: "(ptr option \<times> ptr) list"
  pindexBestInvalid :: "ptr option"
  nBlockSequenceId :: u32
  mapBlockSource :: "limbs \<Rightarrow> u32 option"
  mapNodeState :: "u32 \<Rightarrow> CNodeState option"
  pindexBestForkTip :: "ptr option"
  pindexBestForkBase :: "ptr option"
  fLargeWorkForkFound :: bool
  fLargeWorkInvalidChainFound :: bool
  lockIBDState :: bool
  pcoinsTip :: "'b CCoinsViewCache"
  nd_mempool :: "('d, 'e) CTxMemPool"
  nd_undo :: undo_files
  nd_zerocoinDB :: 'z
  vinfoBlockFile :: "CBlockFileInfo list"
  nLastBlockFile :: nat
  setDirtyFileInfo :: "nat list"

abbreviation arena :: "('b, 'z, 'd, 'e) node \<Rightarrow> arena" where
  "arena s \<equiv> bt_arena (nd_tree s)"

abbreviation set_arena :: "arena \<Rightarrow> ('b, 'z, 'd, 'e) node \<Rightarrow> ('b, 'z, 'd, 'e) node" where
  "set_arena st s \<equiv> s\<lparr> nd_tree := (nd_tree s)\<lparr> bt_arena := st \<rparr> \<rparr>"

text \<open>What the rest of the node and the system answer: the addresses of the entries, the order in which
  \<open>mapBlockIndex\<close> is iterated, the parts of \<open>ConnectBlock\<close> that other components keep, the block files,
  the clock and the disk, the zerocoin database and the acceptance of transactions to the pool.\<close>

record ('p, 's, 'r, 'b, 'z, 'd, 'e) node_env =
  ne_ec :: "('p, 's, 'r) secp"
  ne_sph :: sph_functions
  ne_V :: "'b CCoinsView"
  ne_P :: CChainParams
  ne_Z :: "'z zerocoin_db"
  ne_MessageStart :: bytes
  ne_address :: "ptr \<Rightarrow> nat"
  ne_iteration :: "block_tree \<Rightarrow> ptr list"
  ne_connect :: "CBlock \<Rightarrow> ptr \<Rightarrow> ('b, 'z, 'd, 'e) node \<Rightarrow> connect_env \<times> block_env"
  ne_block_file :: "CDiskBlockPos \<Rightarrow> CBlock option"
  ne_CheckDiskSpace :: "u32 \<Rightarrow> bool"
  ne_nCoinCacheSize :: u32
  ne_flush_period_over :: bool
  ne_WriteBatchSync :: bool
  ne_WriteCoinSpendBatch :: "(CTxIn \<times> limbs) list \<Rightarrow> 'z \<Rightarrow> bool \<times> 'z"
  ne_WriteCoinMintBatch :: "(CTxOut \<times> limbs) list \<Rightarrow> 'z \<Rightarrow> bool \<times> 'z"
  ne_DatabaseChecksums :: "CBlock \<Rightarrow> ptr \<Rightarrow> 'z \<Rightarrow> 'z"
  ne_fTxIndex :: bool
  ne_WriteTxIndex :: "(limbs \<times> u32) list \<Rightarrow> bool"
  ne_seenBlock :: "'d CTxMemPoolEntry list \<Rightarrow> u32 \<Rightarrow> CFeeRate \<Rightarrow> 'e \<Rightarrow> 'e"
  ne_AcceptToMemoryPool :: "CTransaction \<Rightarrow> ('d, 'e) CTxMemPool \<Rightarrow> 'b CCoinsViewCache
    \<Rightarrow> bool \<times> ('d, 'e) CTxMemPool \<times> 'b CCoinsViewCache"
  ne_fVerifyingBlocks :: bool
  ne_importing :: bool
  ne_TotalBlocksEstimate :: int
  ne_HashGenesisBlock :: limbs
  ne_GetTime :: int
  ne_nMaxTipAge :: int
  ne_banscore :: u32

text \<open>Runs and their composition.\<close>

type_synonym 'a run = "(failure + 'a) option"

definition run_bind :: "'a run \<Rightarrow> ('a \<Rightarrow> 'b run) \<Rightarrow> 'b run" where
  "run_bind m f = Option.bind m (\<lambda>r. case r of Inl e \<Rightarrow> Some (Inl e) | Inr x \<Rightarrow> f x)"

abbreviation returns :: "'a \<Rightarrow> 'a run" where "returns x \<equiv> Some (Inr x)"
abbreviation crash :: "failure \<Rightarrow> 'a run" where "crash e \<equiv> Some (Inl e)"

lemma run_bind_simps [simp]:
  "run_bind None f = None" "run_bind (crash e) f = crash e" "run_bind (returns x) f = f x"
  by (simp_all add: run_bind_def)

lemma run_bind_mono [partial_function_mono]:
  assumes "mono_option B" "\<And>y. mono_option (\<lambda>f. C y f)"
  shows "mono_option (\<lambda>f. run_bind (B f) (\<lambda>y. C y f))"
proof -
  have "mono_option (\<lambda>f. case y of Inl e \<Rightarrow> crash e | Inr x \<Rightarrow> C x f)" for y
    using assms(2) by (cases y) (auto intro: monotoneI option.leq_refl)
  then show ?thesis unfolding run_bind_def by (rule bind_mono [OF assms(1)])
qed

section \<open>The set of candidates\<close>

definition CBlockIndexWorkComparator :: "(ptr \<Rightarrow> nat) \<Rightarrow> arena \<Rightarrow> ptr \<Rightarrow> ptr \<Rightarrow> bool" where
  "CBlockIndexWorkComparator addr st pa pb =
     (let wa = nChainWork (st ! pa); wb = nChainWork (st ! pb) in
      if CompareTo wa wb > 0 then False
      else if CompareTo wa wb < 0 then True
      else if nSequenceId (st ! pa) < nSequenceId (st ! pb) then False
      else if nSequenceId (st ! pa) > nSequenceId (st ! pb) then True
      else if addr pa < addr pb then False
      else if addr pa > addr pb then True
      else False)"

abbreviation worse :: "('p, 's, 'r, 'b, 'z, 'd, 'e) node_env \<Rightarrow> ('b, 'z, 'd, 'e) node \<Rightarrow> ptr \<Rightarrow> ptr \<Rightarrow> bool" where
  "worse N s \<equiv> CBlockIndexWorkComparator (ne_address N) (arena s)"

text \<open>A \<open>std::set\<close> with a comparator, as the sorted list of its elements.\<close>

fun set_put :: "('a \<Rightarrow> 'a \<Rightarrow> bool) \<Rightarrow> 'a \<Rightarrow> 'a list \<Rightarrow> 'a list" where
  "set_put lt p [] = [p]"
| "set_put lt p (x # xs) = (if lt p x then p # x # xs else if lt x p then x # set_put lt p xs else x # xs)"

definition set_del :: "('a \<Rightarrow> 'a \<Rightarrow> bool) \<Rightarrow> 'a \<Rightarrow> 'a list \<Rightarrow> 'a list" where
  "set_del lt p xs = filter (\<lambda>x. lt x p \<or> lt p x) xs"

definition insert_candidate :: "('p, 's, 'r, 'b, 'z, 'd, 'e) node_env \<Rightarrow> ptr \<Rightarrow> ('b, 'z, 'd, 'e) node \<Rightarrow> ('b, 'z, 'd, 'e) node" where
  "insert_candidate N p s =
     s\<lparr> setBlockIndexCandidates := set_put (worse N s) p (setBlockIndexCandidates s) \<rparr>"

definition erase_candidate :: "('p, 's, 'r, 'b, 'z, 'd, 'e) node_env \<Rightarrow> ptr \<Rightarrow> ('b, 'z, 'd, 'e) node \<Rightarrow> ('b, 'z, 'd, 'e) node" where
  "erase_candidate N p s =
     s\<lparr> setBlockIndexCandidates := set_del (worse N s) p (setBlockIndexCandidates s) \<rparr>"

definition dirty_block :: "ptr \<Rightarrow> ('b, 'z, 'd, 'e) node \<Rightarrow> ('b, 'z, 'd, 'e) node" where
  "dirty_block p s =
     s\<lparr> nd_tree := (nd_tree s)\<lparr> setDirtyBlockIndex := List.insert p (setDirtyBlockIndex (nd_tree s)) \<rparr> \<rparr>"

definition or_status :: "ptr \<Rightarrow> u32 \<Rightarrow> ('b, 'z, 'd, 'e) node \<Rightarrow> ('b, 'z, 'd, 'e) node" where
  "or_status p flags s = set_arena (upd (arena s) p (\<lambda>b. b\<lparr> nStatus := nStatus b OR flags \<rparr>)) s"

definition tip_of :: "('b, 'z, 'd, 'e) node \<Rightarrow> ptr option run" where
  "tip_of s = map_option Inr (Tip (arena s) (chainActive s) False)"

section \<open>Warnings about forks\<close>

text \<open>\<open>fImporting || fReindex\<close> is \<open>ne_importing\<close>.  Entries of the map have their hash (\<open>phashBlock\<close>); the alerts only
  notify.\<close>

definition IsInitialBlockDownload_now :: "('p, 's, 'r, 'b, 'z, 'd, 'e) node_env \<Rightarrow> ('b, 'z, 'd, 'e) node
    \<Rightarrow> (bool \<times> ('b, 'z, 'd, 'e) node) run" where
  "IsInitialBlockDownload_now N s =
     (if ne_importing N \<or> ne_fVerifyingBlocks N \<or> Height (chainActive s) < ne_TotalBlocksEstimate N then returns (True, s)
      else if lockIBDState s then returns (False, s)
      else (case pindexBestHeader (nd_tree s) of
          None \<Rightarrow> crash Out_of_range
        | Some h \<Rightarrow>
            let state = (Height (chainActive s) < nHeight (arena s ! h) - 24 * 6
                  \<or> bi_GetBlockTime (arena s ! h) < ne_GetTime N - ne_nMaxTipAge N)
            in returns (state, if state then s else s\<lparr> lockIBDState := True \<rparr>)))"

text \<open>The chain of the best invalid block is longer than the active one by the work of six blocks.\<close>

definition invalid_is_longer :: "('b, 'z, 'd, 'e) node \<Rightarrow> ptr \<Rightarrow> bool run" where
  "invalid_is_longer s b =
     run_bind (tip_of s) (\<lambda>tip. case tip of
         None \<Rightarrow> crash Out_of_range
       | Some t \<Rightarrow>
           (case GetBlockProof (arena s ! t) of
              None \<Rightarrow> crash Out_of_range
            | Some pr \<Rightarrow> returns (CompareTo (nChainWork (arena s ! b))
                (bu_add (nChainWork (arena s ! t)) (bu_mul32 pr 6)) > 0)))"

definition CheckForkWarningConditions :: "('p, 's, 'r, 'b, 'z, 'd, 'e) node_env \<Rightarrow> ('b, 'z, 'd, 'e) node
    \<Rightarrow> ('b, 'z, 'd, 'e) node run" where
  "CheckForkWarningConditions N s =
     run_bind (IsInitialBlockDownload_now N s) (\<lambda>(initial, s).
       if initial then returns s
       else
         let s = (case pindexBestForkTip s of
                    None \<Rightarrow> s
                  | Some t \<Rightarrow> if Height (chainActive s) - nHeight (arena s ! t) \<ge> 72
                      then s\<lparr> pindexBestForkTip := None \<rparr> else s)
         in run_bind (if pindexBestForkTip s \<noteq> None then returns True
                      else (case pindexBestInvalid s of None \<Rightarrow> returns False | Some b \<Rightarrow> invalid_is_longer s b))
              (\<lambda>warn. returns (if warn
                 then (if pindexBestForkTip s \<noteq> None \<and> pindexBestForkBase s \<noteq> None
                       then s\<lparr> fLargeWorkForkFound := True \<rparr> else s\<lparr> fLargeWorkInvalidChainFound := True \<rparr>)
                 else s\<lparr> fLargeWorkForkFound := False, fLargeWorkInvalidChainFound := False \<rparr>)))"

text \<open>The two loops of \<open>CheckForkWarningConditionsOnNewFork\<close>.\<close>

partial_function (option) lower_to :: "arena \<Rightarrow> int \<Rightarrow> ptr option \<Rightarrow> ptr option option" where
  "lower_to st h plonger = (case plonger of None \<Rightarrow> Some None
     | Some l \<Rightarrow> if nHeight (st ! l) > h then lower_to st h (pprev (st ! l)) else Some plonger)"

partial_function (option) fork_of :: "arena \<Rightarrow> ptr option \<Rightarrow> ptr option \<Rightarrow> ptr option option" where
  "fork_of st pfork plonger = (case pfork of None \<Rightarrow> Some None
     | Some f \<Rightarrow>
         if pfork = plonger then Some pfork
         else (case lower_to st (nHeight (st ! f)) plonger of
             None \<Rightarrow> None
           | Some l \<Rightarrow> if pfork = l then Some pfork else fork_of st (pprev (st ! f)) l))"

definition CheckForkWarningConditionsOnNewFork :: "('p, 's, 'r, 'b, 'z, 'd, 'e) node_env \<Rightarrow> ptr \<Rightarrow> ('b, 'z, 'd, 'e) node
    \<Rightarrow> ('b, 'z, 'd, 'e) node run" where
  "CheckForkWarningConditionsOnNewFork N t s =
     run_bind (tip_of s) (\<lambda>tip.
       case fork_of (arena s) (Some t) tip of
         None \<Rightarrow> None
       | Some None \<Rightarrow> CheckForkWarningConditions N s
       | Some (Some f) \<Rightarrow>
           (case GetBlockProof (arena s ! f) of
              None \<Rightarrow> crash Out_of_range
            | Some pr \<Rightarrow>
                CheckForkWarningConditions N
                  (if (case pindexBestForkTip s of None \<Rightarrow> True
                        | Some b \<Rightarrow> nHeight (arena s ! t) > nHeight (arena s ! b))
                      \<and> CompareTo (bu_sub (nChainWork (arena s ! t)) (nChainWork (arena s ! f))) (bu_mul32 pr 7) > 0
                      \<and> Height (chainActive s) - nHeight (arena s ! t) < 72
                   then s\<lparr> pindexBestForkTip := Some t, pindexBestForkBase := Some f \<rparr> else s)))"

section \<open>Bad blocks\<close>

definition MAX_REJECT_MESSAGE_LENGTH :: nat where "MAX_REJECT_MESSAGE_LENGTH = 111"

definition Misbehaving :: "('p, 's, 'r, 'b, 'z, 'd, 'e) node_env \<Rightarrow> u32 \<Rightarrow> u32 \<Rightarrow> ('b, 'z, 'd, 'e) node
    \<Rightarrow> ('b, 'z, 'd, 'e) node" where
  "Misbehaving N pnode howmuch s =
     (if howmuch = 0 then s
      else (case mapNodeState s pnode of
          None \<Rightarrow> s
        | Some state \<Rightarrow>
            let n = nMisbehavior state + howmuch;
                state = state\<lparr> nMisbehavior := n \<rparr>
            in s\<lparr> mapNodeState := (mapNodeState s)(pnode \<mapsto>
                 (if ne_banscore N <=s n \<and> n - howmuch <s ne_banscore N
                  then state\<lparr> fShouldBan := True \<rparr> else state)) \<rparr>))"

text \<open>The log prints the hash of the tip, which must not be NULL.\<close>

definition InvalidChainFound :: "('p, 's, 'r, 'b, 'z, 'd, 'e) node_env \<Rightarrow> ptr \<Rightarrow> ('b, 'z, 'd, 'e) node
    \<Rightarrow> ('b, 'z, 'd, 'e) node run" where
  "InvalidChainFound N p s =
     (let s = (if (case pindexBestInvalid s of None \<Rightarrow> True
                     | Some b \<Rightarrow> CompareTo (nChainWork (arena s ! p)) (nChainWork (arena s ! b)) > 0)
               then s\<lparr> pindexBestInvalid := Some p \<rparr> else s)
      in run_bind (tip_of s) (\<lambda>tip. case tip of
             None \<Rightarrow> crash Out_of_range
           | Some t \<Rightarrow> CheckForkWarningConditions N s))"

definition reject_to_source :: "('p, 's, 'r, 'b, 'z, 'd, 'e) node_env \<Rightarrow> ptr \<Rightarrow> CValidationState \<Rightarrow> ('b, 'z, 'd, 'e) node
    \<Rightarrow> ('b, 'z, 'd, 'e) node" where
  "reject_to_source N p state s =
     (case IsInvalid_nDoS state of
        None \<Rightarrow> s
      | Some n \<Rightarrow>
          (case mapBlockSource s (bi_hash (arena s ! p)) of
             None \<Rightarrow> s
           | Some pnode \<Rightarrow>
               (case mapNodeState s pnode of
                  None \<Rightarrow> s
                | Some ns \<Rightarrow>
                    let reject = \<lparr> rj_chRejectCode = Validation.chRejectCode state,
                          rj_strRejectReason = take MAX_REJECT_MESSAGE_LENGTH (strRejectReason state),
                          rj_hashBlock = bi_hash (arena s ! p) \<rparr>;
                        s = s\<lparr> mapNodeState := (mapNodeState s)(pnode \<mapsto> ns\<lparr> rejects := rejects ns @ [reject] \<rparr>) \<rparr>
                    in if 0 <s n then Misbehaving N pnode n s else s)))"

definition InvalidBlockFound :: "('p, 's, 'r, 'b, 'z, 'd, 'e) node_env \<Rightarrow> ptr \<Rightarrow> CValidationState \<Rightarrow> ('b, 'z, 'd, 'e) node
    \<Rightarrow> ('b, 'z, 'd, 'e) node run" where
  "InvalidBlockFound N p state s =
     (let s = reject_to_source N p state s in
      if \<not> corruptionPossible state
      then InvalidChainFound N p (erase_candidate N p (dirty_block p (or_status p BLOCK_FAILED_VALID s)))
      else returns s)"

section \<open>Block and undo files\<close>

definition MAX_BLOCKFILE_SIZE :: u32 where "MAX_BLOCKFILE_SIZE = 0x8000000"
definition BLOCKFILE_CHUNK_SIZE :: u32 where "BLOCKFILE_CHUNK_SIZE = 0x1000000"
definition UNDOFILE_CHUNK_SIZE :: u32 where "UNDOFILE_CHUNK_SIZE = 0x100000"

definition CBlockFileInfo_new :: CBlockFileInfo where
  "CBlockFileInfo_new = \<lparr> fi_nBlocks = 0, fi_nSize = 0, fi_nUndoSize = 0, fi_nHeightFirst = 0, fi_nHeightLast = 0,
     fi_nTimeFirst = 0, fi_nTimeLast = 0 \<rparr>"

definition AddBlock :: "u32 \<Rightarrow> u64 \<Rightarrow> CBlockFileInfo \<Rightarrow> CBlockFileInfo" where
  "AddBlock nHeightIn nTimeIn f =
     (let f = (if fi_nBlocks f = 0 \<or> fi_nHeightFirst f > nHeightIn then f\<lparr> fi_nHeightFirst := nHeightIn \<rparr> else f);
          f = (if fi_nBlocks f = 0 \<or> fi_nTimeFirst f > nTimeIn then f\<lparr> fi_nTimeFirst := nTimeIn \<rparr> else f);
          f = f\<lparr> fi_nBlocks := fi_nBlocks f + 1 \<rparr>;
          f = (if nHeightIn > fi_nHeightLast f then f\<lparr> fi_nHeightLast := nHeightIn \<rparr> else f)
      in if nTimeIn > fi_nTimeLast f then f\<lparr> fi_nTimeLast := nTimeIn \<rparr> else f)"

definition resize_files :: "nat \<Rightarrow> CBlockFileInfo list \<Rightarrow> CBlockFileInfo list" where
  "resize_files n fs = (if length fs \<le> n then fs @ replicate (n + 1 - length fs) CBlockFileInfo_new else fs)"

text \<open>The loop that looks for a file with room; files are pre-allocated in chunks, which only asks for
  disk space here.\<close>

partial_function (option) next_file :: "u32 \<Rightarrow> nat \<Rightarrow> CBlockFileInfo list \<Rightarrow> (nat \<times> CBlockFileInfo list) option" where
  "next_file nAddSize k fs =
     (if fi_nSize (fs ! k) + nAddSize \<ge> MAX_BLOCKFILE_SIZE
      then next_file nAddSize (k + 1) (resize_files (k + 1) fs)
      else Some (k, fs))"

definition chunks :: "u32 \<Rightarrow> u32 \<Rightarrow> u32" where
  "chunks sz n = (n + sz - 1) div sz"

definition FindBlockPos :: "('p, 's, 'r, 'b, 'z, 'd, 'e) node_env \<Rightarrow> CValidationState \<Rightarrow> CDiskBlockPos \<Rightarrow> u32 \<Rightarrow> u32 \<Rightarrow> u64
    \<Rightarrow> bool \<Rightarrow> ('b, 'z, 'd, 'e) node \<Rightarrow> ((bool \<times> CValidationState) \<times> CDiskBlockPos \<times> ('b, 'z, 'd, 'e) node) run" where
  "FindBlockPos N state pos nAddSize height time fKnown s =
     (let k = (if fKnown then unat (dbp_nFile pos) else nLastBlockFile s);
          fs = resize_files k (vinfoBlockFile s)
      in case (if fKnown then Some (k, fs) else next_file nAddSize k fs) of
           None \<Rightarrow> None
         | Some (k, fs) \<Rightarrow>
             let pos = (if fKnown then pos else \<lparr> dbp_nFile = of_nat k, dbp_nPos = fi_nSize (fs ! k) \<rparr>);
                 f = AddBlock height time (fs ! k);
                 f = f\<lparr> fi_nSize := (if fKnown then max (dbp_nPos pos + nAddSize) (fi_nSize f) else fi_nSize f + nAddSize) \<rparr>;
                 s = s\<lparr> nLastBlockFile := k, vinfoBlockFile := fs[k := f] \<rparr>;
                 nNewChunks = chunks BLOCKFILE_CHUNK_SIZE (fi_nSize f)
             in if \<not> fKnown \<and> nNewChunks > chunks BLOCKFILE_CHUNK_SIZE (dbp_nPos pos)
                   \<and> \<not> ne_CheckDiskSpace N (nNewChunks * BLOCKFILE_CHUNK_SIZE - dbp_nPos pos)
                then returns (Error ''out of disk space'' state, pos, s)
                else returns ((True, state), pos, s\<lparr> setDirtyFileInfo := List.insert k (setDirtyFileInfo s) \<rparr>))"

definition FindUndoPos :: "('p, 's, 'r, 'b, 'z, 'd, 'e) node_env \<Rightarrow> CValidationState \<Rightarrow> u32 \<Rightarrow> u32 \<Rightarrow> ('b, 'z, 'd, 'e) node
    \<Rightarrow> ((bool \<times> CValidationState) \<times> CDiskBlockPos \<times> ('b, 'z, 'd, 'e) node) run" where
  "FindUndoPos N state file nAddSize s =
     (let n = unat file; fs = vinfoBlockFile s in
      if length fs \<le> n then crash Out_of_range
      else
        let pos = \<lparr> dbp_nFile = file, dbp_nPos = fi_nUndoSize (fs ! n) \<rparr>;
            nNewSize = fi_nUndoSize (fs ! n) + nAddSize;
            s = s\<lparr> vinfoBlockFile := fs[n := (fs ! n)\<lparr> fi_nUndoSize := nNewSize \<rparr>],
                   setDirtyFileInfo := List.insert n (setDirtyFileInfo s) \<rparr>;
            nNewChunks = chunks UNDOFILE_CHUNK_SIZE nNewSize
        in if nNewChunks > chunks UNDOFILE_CHUNK_SIZE (dbp_nPos pos)
              \<and> \<not> ne_CheckDiskSpace N (nNewChunks * UNDOFILE_CHUNK_SIZE - dbp_nPos pos)
           then returns (Error ''out of disk space'' state, pos, s)
           else returns ((True, state), pos, s))"

text \<open>\<open>ne_block_file\<close> is the block that reading at a position of the block files yields.\<close>

definition ReadBlockFromDisk_pos :: "('p, 's, 'r, 'b, 'z, 'd, 'e) node_env \<Rightarrow> CDiskBlockPos \<Rightarrow> CBlock option" where
  "ReadBlockFromDisk_pos N pos =
     (if CDiskBlockPos_IsNull pos then None
      else (case ne_block_file N pos of
          None \<Rightarrow> None
        | Some block \<Rightarrow>
            if IsProofOfWork block \<and> \<not> CheckProofOfWork (ne_P N) (header_GetHash (ne_sph N) block) (nBits block)
            then None else Some block))"

definition ReadBlockFromDisk :: "('p, 's, 'r, 'b, 'z, 'd, 'e) node_env \<Rightarrow> CBlockIndex \<Rightarrow> CBlock option" where
  "ReadBlockFromDisk N pindex =
     (case ReadBlockFromDisk_pos N (GetBlockPos pindex) of
        None \<Rightarrow> None
      | Some block \<Rightarrow> if header_GetHash (ne_sph N) block \<noteq> bi_hash pindex then None else Some block)"

datatype FlushStateMode = FLUSH_STATE_IF_NEEDED | FLUSH_STATE_PERIODIC | FLUSH_STATE_ALWAYS

definition Abort :: "string \<Rightarrow> CValidationState \<Rightarrow> bool \<times> CValidationState" where
  "Abort msg state = Error msg state"

definition FlushStateToDisk :: "('p, 's, 'r, 'b, 'z, 'd, 'e) node_env \<Rightarrow> CValidationState \<Rightarrow> FlushStateMode
    \<Rightarrow> ('b, 'z, 'd, 'e) node \<Rightarrow> ((bool \<times> CValidationState) \<times> ('b, 'z, 'd, 'e) node) run" where
  "FlushStateToDisk N state m s =
     (if m = FLUSH_STATE_ALWAYS
         \<or> ((m = FLUSH_STATE_PERIODIC \<or> m = FLUSH_STATE_IF_NEEDED) \<and> GetCacheSize (pcoinsTip s) > ne_nCoinCacheSize N)
         \<or> (m = FLUSH_STATE_PERIODIC \<and> ne_flush_period_over N)
      then
        if \<not> ne_CheckDiskSpace N (100 * 2 * 2 * GetCacheSize (pcoinsTip s))
        then returns (Error ''out of disk space'' state, s)
        else
          let s = s\<lparr> setDirtyFileInfo := [], nd_tree := (nd_tree s)\<lparr> setDirtyBlockIndex := [] \<rparr> \<rparr> in
          if \<not> ne_WriteBatchSync N then returns (Abort ''Files to write to block index database'' state, s)
          else (case Flush (ne_V N) (pcoinsTip s) of
              None \<Rightarrow> crash Assertion_failed
            | Some (fOk, c) \<Rightarrow>
                let s = s\<lparr> pcoinsTip := c \<rparr> in
                if \<not> fOk then returns (Abort ''Failed to write to coin database'' state, s)
                else returns ((True, state), s))
      else returns ((True, state), s))"

section \<open>Connecting and disconnecting the tip\<close>

text \<open>What \<open>ConnectBlock\<close> reads of the node's own state is not left to the environment.\<close>

definition connect_answers :: "('p, 's, 'r, 'b, 'z, 'd, 'e) node_env \<Rightarrow> CBlock \<Rightarrow> ptr \<Rightarrow> ('b, 'z, 'd, 'e) node
    \<Rightarrow> connect_env \<times> block_env" where
  "connect_answers N block p s =
     (case ne_connect N block p s of (E, B) \<Rightarrow>
        (E, B\<lparr> be_hashGenesisBlock := ne_HashGenesisBlock N, be_TotalBlocksEstimate := ne_TotalBlocksEstimate N,
               be_tip := (if chainActive s = [] then None else last (chainActive s)) \<rparr>))"

text \<open>The end of \<open>ConnectBlock\<close>: the databases of serials, mints, accumulators and transactions.\<close>

definition ConnectBlock_write :: "('p, 's, 'r, 'b, 'z, 'd, 'e) node_env \<Rightarrow> CBlock \<Rightarrow> ptr
    \<Rightarrow> 'b CCoinsViewCache connect_state \<Rightarrow> CValidationState \<Rightarrow> ('b, 'z, 'd, 'e) node
    \<Rightarrow> (bool \<times> CValidationState) \<times> ('b, 'z, 'd, 'e) node" where
  "ConnectBlock_write N block p l state s =
     (let (spends, z) = ne_WriteCoinSpendBatch N (cs_vSpends l) (nd_zerocoinDB s);
          s = s\<lparr> nd_zerocoinDB := z \<rparr>
      in if \<not> spends then (Abort ''Failed to record coin serials to database'' state, s)
         else
           let (mints, z) = ne_WriteCoinMintBatch N (cs_vMints l) z;
               s = s\<lparr> nd_zerocoinDB := z \<rparr>
           in if \<not> mints then (Abort ''Failed to record new mints to database'' state, s)
              else
                let s = s\<lparr> nd_zerocoinDB := ne_DatabaseChecksums N block p z \<rparr> in
                if ne_fTxIndex N \<and> \<not> ne_WriteTxIndex N (cs_vPos l)
                then (Abort ''Failed to write transaction index'' state, s)
                else ((True, state), s))"

text \<open>\<open>ConnectBlock\<close>: the checks, then what it stores, with \<open>fJustCheck\<close> false.  The view is a cache over
  \<open>pcoinsTip\<close>, whose own cache it may fill.  What the wallet is told, the map of fraudulent outputs and the set
  of pending zerocoin spends are not modelled.\<close>

definition ConnectBlock :: "('p, 's, 'r, 'b, 'z, 'd, 'e) node_env \<Rightarrow> CBlock \<Rightarrow> CValidationState \<Rightarrow> ptr
    \<Rightarrow> 'b CCoinsViewCache CCoinsViewCache \<Rightarrow> bool \<Rightarrow> ('b, 'z, 'd, 'e) node
    \<Rightarrow> ((bool \<times> CValidationState) \<times> 'b CCoinsViewCache CCoinsViewCache \<times> ('b, 'z, 'd, 'e) node) run" where
  "ConnectBlock N block state p view fAlreadyChecked s =
     (case connect_answers N block p s of (E, B) \<Rightarrow>
      case ConnectBlock_checks (ne_ec N) (ne_sph N) (cache_view (ne_V N)) (ne_P N) (nd_tree s) E B block state p view
             fAlreadyChecked of
        Inl e \<Rightarrow> crash e
      | Inr ((ok, l), pindex, genesis) \<Rightarrow>
          let s = set_arena ((arena s)[p := pindex]) s in
          if \<not> ok \<or> genesis then returns ((ok, cs_state l), cs_view l, s)
          else
            run_bind (if CDiskBlockPos_IsNull (GetUndoPos pindex)
                      then FindUndoPos N (cs_state l) (nFile pindex)
                             (of_nat (length (ser_blockundo (ne_ec N) (cs_vtxundo l))) + 40) s
                      else returns ((True, cs_state l), CDiskBlockPos_null, s))
              (\<lambda>((found, state), pos, s).
                if \<not> found then returns ((False, state), cs_view l, s)
                else (case ConnectBlock_store (ne_ec N) (ne_MessageStart N) (Some pos) (nd_tree s) p pindex l (nd_undo s) of
                    None \<Rightarrow> returns (Abort ''Failed to write undo data'' state, cs_view l, s)
                  | Some (view, tree, files) \<Rightarrow>
                      (case ConnectBlock_write N block p l state (s\<lparr> nd_tree := tree, nd_undo := files \<rparr>) of
                         (r, s) \<Rightarrow> returns (r, view, s)))))"

text \<open>The log reads the new tip, so a NULL tip is an access through NULL.  The warning about the versions of
  the last blocks changes only a message; the test of the initial download before it is kept.\<close>

definition UpdateTip :: "('p, 's, 'r, 'b, 'z, 'd, 'e) node_env \<Rightarrow> ptr option \<Rightarrow> ('b, 'z, 'd, 'e) node
    \<Rightarrow> ('b, 'z, 'd, 'e) node run" where
  "UpdateTip N p s =
     (case SetTip (arena s) (chainActive s) p of
        None \<Rightarrow> None
      | Some ch \<Rightarrow>
          if p = None then crash Out_of_range
          else
            run_bind (IsInitialBlockDownload_now N
                (s\<lparr> chainActive := ch, nd_mempool := AddTransactionsUpdated 1 (nd_mempool s) \<rparr>))
              (\<lambda>(initial, s). returns s))"

text \<open>Flushing the view of a block to \<open>pcoinsTip\<close>; the assertion is that it succeeds.\<close>

definition flush_view :: "('p, 's, 'r, 'b, 'z, 'd, 'e) node_env \<Rightarrow> 'b CCoinsViewCache CCoinsViewCache
    \<Rightarrow> ('b, 'z, 'd, 'e) node \<Rightarrow> ('b, 'z, 'd, 'e) node run" where
  "flush_view N view s =
     (case Flush (cache_view (ne_V N)) view of
        Some (True, view) \<Rightarrow> returns (s\<lparr> pcoinsTip := base view \<rparr>)
      | _ \<Rightarrow> crash Assertion_failed)"

fun resurrect :: "('p, 's, 'r, 'b, 'z, 'd, 'e) node_env \<Rightarrow> CTransaction list \<Rightarrow> ('b, 'z, 'd, 'e) node
    \<Rightarrow> ('b, 'z, 'd, 'e) node run" where
  "resurrect N [] s = returns s"
| "resurrect N (tx # txs) s =
     (let (accepted, pool, c) = (if IsCoinBase tx \<or> IsCoinStake tx then (False, nd_mempool s, pcoinsTip s)
            else ne_AcceptToMemoryPool N tx (nd_mempool s) (pcoinsTip s));
          s = s\<lparr> nd_mempool := pool, pcoinsTip := c \<rparr>
      in if accepted then resurrect N txs s
         else (case pool_remove tx True (nd_mempool s) [] of
             None \<Rightarrow> crash Out_of_range
           | Some (pool, removed) \<Rightarrow> resurrect N txs (s\<lparr> nd_mempool := pool \<rparr>)))"

definition DisconnectTip :: "('p, 's, 'r, 'b, 'z, 'd, 'e) node_env \<Rightarrow> CValidationState \<Rightarrow> ('b, 'z, 'd, 'e) node
    \<Rightarrow> ((bool \<times> CValidationState) \<times> ('b, 'z, 'd, 'e) node) run" where
  "DisconnectTip N state s =
     run_bind (tip_of s) (\<lambda>tip. case tip of
       None \<Rightarrow> crash Assertion_failed
     | Some p \<Rightarrow>
         (case ReadBlockFromDisk N (arena s ! p) of
            None \<Rightarrow> returns (Abort ''Failed to read block'' state, s)
          | Some block \<Rightarrow>
              (case DisconnectBlock (ne_ec N) (cache_view (ne_V N)) (ne_Z N) (arena s) (nd_undo s) (ne_fVerifyingBlocks N)
                      block p False (CCoinsViewCache_of (pcoinsTip s)) (nd_zerocoinDB s) of
                 Inl e \<Rightarrow> crash e
               | Inr ((ok, clean), d) \<Rightarrow>
                   let s = s\<lparr> nd_zerocoinDB := ds_db d, pcoinsTip := base (ds_view d) \<rparr> in
                   if \<not> ok then returns ((False, state), s)
                   else
                     run_bind (flush_view N (ds_view d) s) (\<lambda>s.
                     run_bind (FlushStateToDisk N state FLUSH_STATE_ALWAYS s) (\<lambda>((ok, state), s).
                       if \<not> ok then returns ((False, state), s)
                       else
                         run_bind (resurrect N (vtx block) s) (\<lambda>s.
                           case removeCoinbaseSpends (ne_V N) (ne_P N) (word_of_int (nHeight (arena s ! p)))
                                  (nd_mempool s) (pcoinsTip s) of
                             None \<Rightarrow> crash Out_of_range
                           | Some (pool, c) \<Rightarrow>
                               run_bind (UpdateTip N (pprev (arena s ! p)) (s\<lparr> nd_mempool := pool, pcoinsTip := c \<rparr>))
                                 (\<lambda>s. returns ((True, state), s))))))))"

definition ConnectTip :: "('p, 's, 'r, 'b, 'z, 'd, 'e) node_env \<Rightarrow> CValidationState \<Rightarrow> ptr \<Rightarrow> CBlock option \<Rightarrow> bool
    \<Rightarrow> ('b, 'z, 'd, 'e) node \<Rightarrow> ((bool \<times> CValidationState) \<times> ('b, 'z, 'd, 'e) node) run" where
  "ConnectTip N state p pblock fAlreadyChecked s =
     run_bind (tip_of s) (\<lambda>tip.
       if pprev (arena s ! p) \<noteq> tip then crash Assertion_failed
       else (case (case pblock of None \<Rightarrow> ReadBlockFromDisk N (arena s ! p) | Some block \<Rightarrow> Some block) of
           None \<Rightarrow> returns (Abort ''Failed to read block'' state, s)
         | Some block \<Rightarrow>
             run_bind (ConnectBlock N block state p (CCoinsViewCache_of (pcoinsTip s)) (fAlreadyChecked \<and> pblock \<noteq> None) s)
               (\<lambda>((ok, state), view, s).
                 if \<not> ok then
                   let s = s\<lparr> pcoinsTip := base view \<rparr> in
                   run_bind (if vs_IsInvalid state then InvalidBlockFound N p state s else returns s)
                     (\<lambda>s. returns ((False, state), s))
                 else
                   run_bind (flush_view N view (s\<lparr> mapBlockSource := (mapBlockSource s)(bi_hash (arena s ! p) := None) \<rparr>)) (\<lambda>s.
                   run_bind (FlushStateToDisk N state
                       (case pprev (arena s ! p) of
                          None \<Rightarrow> FLUSH_STATE_IF_NEEDED
                        | Some q \<Rightarrow> if dbp_nFile (GetBlockPos (arena s ! p)) \<noteq> dbp_nFile (GetBlockPos (arena s ! q))
                            then FLUSH_STATE_ALWAYS else FLUSH_STATE_IF_NEEDED) s) (\<lambda>((ok, state), s).
                     if \<not> ok then returns ((False, state), s)
                     else (case removeForBlock (ne_seenBlock N) (vtx block) (word_of_int (nHeight (arena s ! p))) (nd_mempool s) [] of
                         None \<Rightarrow> crash Out_of_range
                       | Some (pool, txConflicted) \<Rightarrow>
                           run_bind (UpdateTip N (Some p) (s\<lparr> nd_mempool := pool \<rparr>))
                             (\<lambda>s. returns ((True, state), s))))))))"

section \<open>Looking for the best chain\<close>

text \<open>The walk from a candidate down to the active chain: the first block on it that failed or has no data,
  with whether it failed.\<close>

definition fFailedChain :: "CBlockIndex \<Rightarrow> bool" where
  "fFailedChain b \<longleftrightarrow> nStatus b AND BLOCK_FAILED_MASK \<noteq> 0"

definition fMissingData :: "CBlockIndex \<Rightarrow> bool" where
  "fMissingData b \<longleftrightarrow> nStatus b AND BLOCK_HAVE_DATA = 0"

partial_function (option) test_path :: "arena \<Rightarrow> CChain \<Rightarrow> ptr option \<Rightarrow> (ptr \<times> bool) option run" where
  "test_path st ch pindexTest = (case pindexTest of None \<Rightarrow> returns None
     | Some q \<Rightarrow>
         if Contains st ch q then returns None
         else if nChainTx (st ! q) = 0 \<and> nHeight (st ! q) \<noteq> 0 then crash Assertion_failed
         else if fFailedChain (st ! q) \<or> fMissingData (st ! q) then returns (Some (q, fFailedChain (st ! q)))
         else test_path st ch (pprev (st ! q)))"

text \<open>The inner loop, which removes the whole path from the set.\<close>

definition drop_block :: "('p, 's, 'r, 'b, 'z, 'd, 'e) node_env \<Rightarrow> bool \<Rightarrow> ptr \<Rightarrow> ('b, 'z, 'd, 'e) node
    \<Rightarrow> ('b, 'z, 'd, 'e) node" where
  "drop_block N failed q s =
     erase_candidate N q
       (if failed then or_status q BLOCK_FAILED_CHILD s
        else s\<lparr> mapBlocksUnlinked := mapBlocksUnlinked s @ [(pprev (arena s ! q), q)] \<rparr>)"

partial_function (option) drop_path :: "('p, 's, 'r, 'b, 'z, 'd, 'e) node_env \<Rightarrow> ptr \<Rightarrow> bool \<Rightarrow> ptr option
    \<Rightarrow> ('b, 'z, 'd, 'e) node \<Rightarrow> ('b, 'z, 'd, 'e) node run" where
  "drop_path N t failed pindexFailed s =
     (if pindexFailed = Some t then returns s
      else (case pindexFailed of
          None \<Rightarrow> crash Out_of_range
        | Some q \<Rightarrow> drop_path N t failed (pprev (arena s ! q)) (drop_block N failed q s)))"

partial_function (option) FindMostWorkChain :: "('p, 's, 'r, 'b, 'z, 'd, 'e) node_env \<Rightarrow> ('b, 'z, 'd, 'e) node
    \<Rightarrow> (ptr option \<times> ('b, 'z, 'd, 'e) node) run" where
  "FindMostWorkChain N s =
     (if setBlockIndexCandidates s = [] then returns (None, s)
      else
        let p = last (setBlockIndexCandidates s) in
        run_bind (test_path (arena s) (chainActive s) (Some p)) (\<lambda>bad.
          case bad of
            None \<Rightarrow> returns (Some p, s)
          | Some (t, failed) \<Rightarrow>
              run_bind (drop_path N t failed (Some p)
                  (if failed \<and> (case pindexBestInvalid s of None \<Rightarrow> True
                       | Some b \<Rightarrow> CompareTo (nChainWork (arena s ! p)) (nChainWork (arena s ! b)) > 0)
                   then s\<lparr> pindexBestInvalid := Some p \<rparr> else s))
                (\<lambda>s. FindMostWorkChain N (erase_candidate N t s))))"

definition PruneBlockIndexCandidates :: "('p, 's, 'r, 'b, 'z, 'd, 'e) node_env \<Rightarrow> ('b, 'z, 'd, 'e) node
    \<Rightarrow> ('b, 'z, 'd, 'e) node run" where
  "PruneBlockIndexCandidates N s =
     run_bind (tip_of s) (\<lambda>tip. case tip of
       None \<Rightarrow> crash Out_of_range
     | Some t \<Rightarrow>
         let rest = dropWhile (\<lambda>x. worse N s x t) (setBlockIndexCandidates s) in
         if rest = [] then crash Assertion_failed else returns (s\<lparr> setBlockIndexCandidates := rest \<rparr>))"

section \<open>Activating the best chain\<close>

partial_function (option) disconnect_to :: "('p, 's, 'r, 'b, 'z, 'd, 'e) node_env \<Rightarrow> ptr option \<Rightarrow> CValidationState
    \<Rightarrow> ('b, 'z, 'd, 'e) node \<Rightarrow> ((bool \<times> CValidationState) \<times> ('b, 'z, 'd, 'e) node) run" where
  "disconnect_to N pindexFork state s =
     run_bind (tip_of s) (\<lambda>tip.
       if tip = None \<or> tip = pindexFork then returns ((True, state), s)
       else run_bind (DisconnectTip N state s) (\<lambda>r. case r of ((ok, state), s) \<Rightarrow>
              if \<not> ok then returns ((False, state), s) else disconnect_to N pindexFork state s))"

partial_function (option) collect :: "arena \<Rightarrow> int \<Rightarrow> ptr option \<Rightarrow> ptr list \<Rightarrow> ptr list option" where
  "collect st height pindexIter v = (case pindexIter of None \<Rightarrow> Some v
     | Some q \<Rightarrow> if nHeight (st ! q) = height then Some v else collect st height (pprev (st ! q)) (v @ [q]))"

text \<open>How the loop that connects blocks ends: all connected, a better tip reached, an invalid block, or an
  error of the system.\<close>

datatype connect_end = Connected | Better_tip | Invalid_found | System_error

fun connect_list :: "('p, 's, 'r, 'b, 'z, 'd, 'e) node_env \<Rightarrow> ptr \<Rightarrow> CBlock option \<Rightarrow> bool \<Rightarrow> ptr option \<Rightarrow> ptr
    \<Rightarrow> ptr list \<Rightarrow> CValidationState \<Rightarrow> ('b, 'z, 'd, 'e) node
    \<Rightarrow> (connect_end \<times> CValidationState \<times> ('b, 'z, 'd, 'e) node) run" where
  "connect_list N mw pblock checked pindexOldTip back [] state s = returns (Connected, state, s)"
| "connect_list N mw pblock checked pindexOldTip back (p # ps) state s =
     run_bind (ConnectTip N state p (if p = mw then pblock else None) checked s) (\<lambda>((ok, state), s).
       if \<not> ok then
         (if vs_IsInvalid state
          then run_bind (if \<not> corruptionPossible state then InvalidChainFound N back s else returns s)
                 (\<lambda>s. returns (Invalid_found, CValidationState_new, s))
          else returns (System_error, state, s))
       else
         run_bind (PruneBlockIndexCandidates N s) (\<lambda>s.
         run_bind (tip_of s) (\<lambda>tip.
           case (pindexOldTip, tip) of
             (None, _) \<Rightarrow> returns (Better_tip, state, s)
           | (Some old, None) \<Rightarrow> crash Out_of_range
           | (Some old, Some t) \<Rightarrow>
               if CompareTo (nChainWork (arena s ! t)) (nChainWork (arena s ! old)) > 0
               then returns (Better_tip, state, s)
               else connect_list N mw pblock checked pindexOldTip back ps state s)))"

partial_function (option) connect_batches :: "('p, 's, 'r, 'b, 'z, 'd, 'e) node_env \<Rightarrow> ptr \<Rightarrow> CBlock option \<Rightarrow> bool
    \<Rightarrow> ptr option \<Rightarrow> int \<Rightarrow> CValidationState \<Rightarrow> ('b, 'z, 'd, 'e) node
    \<Rightarrow> (connect_end \<times> ptr list \<times> CValidationState \<times> ('b, 'z, 'd, 'e) node) run" where
  "connect_batches N mw pblock checked pindexOldTip height state s =
     (if height = nHeight (arena s ! mw) then returns (Connected, [], state, s)
      else
        let nTargetHeight = min (height + 32) (nHeight (arena s ! mw)) in
        (case GetAncestor (arena s) mw nTargetHeight of
           None \<Rightarrow> None
         | Some pindexIter \<Rightarrow>
             (case collect (arena s) height pindexIter [] of
                None \<Rightarrow> None
              | Some v \<Rightarrow>
                  run_bind (connect_list N mw pblock checked pindexOldTip (last v) (rev v) state s) (\<lambda>r.
                    case r of (e, state, s) \<Rightarrow>
                    if e = Connected then connect_batches N mw pblock checked pindexOldTip nTargetHeight state s
                    else returns (e, v, state, s)))))"

definition ActivateBestChainStep :: "('p, 's, 'r, 'b, 'z, 'd, 'e) node_env \<Rightarrow> CValidationState \<Rightarrow> ptr \<Rightarrow> CBlock option
    \<Rightarrow> bool \<Rightarrow> ('b, 'z, 'd, 'e) node \<Rightarrow> ((bool \<times> CValidationState) \<times> ('b, 'z, 'd, 'e) node) run" where
  "ActivateBestChainStep N state mw pblock fAlreadyChecked s =
     run_bind (tip_of s) (\<lambda>pindexOldTip.
       case FindFork (arena s) (chainActive s) (Some mw) of
         None \<Rightarrow> None
       | Some pindexFork \<Rightarrow>
           run_bind (disconnect_to N pindexFork state s) (\<lambda>((ok, state), s).
             if \<not> ok then returns ((False, state), s)
             else
               run_bind (connect_batches N mw pblock (fAlreadyChecked \<and> pblock \<noteq> None) pindexOldTip
                   (case pindexFork of None \<Rightarrow> - 1 | Some f \<Rightarrow> nHeight (arena s ! f)) state s) (\<lambda>(e, v, state, s).
                 if e = System_error then returns ((False, state), s)
                 else run_bind (if e = Invalid_found then CheckForkWarningConditionsOnNewFork N (last v) s
                                else CheckForkWarningConditions N s)
                        (\<lambda>s. returns ((True, state), s)))))"

text \<open>The outer loop.  The lock is taken once per round; the model is of a run that no other thread
  interferes with.  The notifications read the hash of the new tip after the initial download.\<close>

partial_function (option) ActivateBestChain :: "('p, 's, 'r, 'b, 'z, 'd, 'e) node_env \<Rightarrow> CValidationState \<Rightarrow> CBlock option
    \<Rightarrow> bool \<Rightarrow> ('b, 'z, 'd, 'e) node \<Rightarrow> ((bool \<times> CValidationState) \<times> ('b, 'z, 'd, 'e) node) run" where
  "ActivateBestChain N state pblock fAlreadyChecked s =
     run_bind (FindMostWorkChain N s) (\<lambda>found. case found of (pindexMostWork, s) \<Rightarrow>
     run_bind (tip_of s) (\<lambda>tip.
       if pindexMostWork = None \<or> pindexMostWork = tip then returns ((True, state), s)
       else
         let mw = the pindexMostWork in
         run_bind (ActivateBestChainStep N state mw
             (case pblock of None \<Rightarrow> None
              | Some b \<Rightarrow> if header_GetHash (ne_sph N) b = bi_hash (arena s ! mw) then Some b else None)
             fAlreadyChecked s) (\<lambda>step. case step of ((ok, state), s) \<Rightarrow>
           if \<not> ok then returns ((False, state), s)
           else
             run_bind (IsInitialBlockDownload_now N s) (\<lambda>now. case now of (initial, s) \<Rightarrow>
             run_bind (tip_of s) (\<lambda>tip.
               if tip = None \<and> \<not> initial then crash Out_of_range
               else if tip \<noteq> Some mw then ActivateBestChain N state pblock fAlreadyChecked s
               else FlushStateToDisk N state FLUSH_STATE_PERIODIC s)))))"

section \<open>Invalidating and reconsidering\<close>

partial_function (option) invalidate_loop :: "('p, 's, 'r, 'b, 'z, 'd, 'e) node_env \<Rightarrow> ptr \<Rightarrow> CValidationState
    \<Rightarrow> ('b, 'z, 'd, 'e) node \<Rightarrow> ((bool \<times> CValidationState) \<times> ('b, 'z, 'd, 'e) node) run" where
  "invalidate_loop N p state s =
     (if \<not> Contains (arena s) (chainActive s) p then returns ((True, state), s)
      else
        run_bind (tip_of s) (\<lambda>tip. case tip of
          None \<Rightarrow> crash Out_of_range
        | Some w \<Rightarrow>
            run_bind (DisconnectTip N state (erase_candidate N w (dirty_block w (or_status w BLOCK_FAILED_CHILD s))))
              (\<lambda>r. case r of ((ok, state), s) \<Rightarrow>
                if \<not> ok then returns ((False, state), s) else invalidate_loop N p state s)))"

text \<open>\<open>tip\<close> is \<open>chainActive.Tip()\<close>, which the comparator follows.\<close>

definition readd_candidate :: "('p, 's, 'r, 'b, 'z, 'd, 'e) node_env \<Rightarrow> ptr option \<Rightarrow> ptr \<Rightarrow> ('b, 'z, 'd, 'e) node
    \<Rightarrow> ('b, 'z, 'd, 'e) node run" where
  "readd_candidate N tip x s =
     (if \<not> (IsValid BLOCK_VALID_TRANSACTIONS (arena s ! x) \<and> nChainTx (arena s ! x) \<noteq> 0) then returns s
      else (case tip of
          None \<Rightarrow> crash Out_of_range
        | Some t \<Rightarrow> returns (if \<not> worse N s x t then insert_candidate N x s else s)))"

fun readd_candidates :: "('p, 's, 'r, 'b, 'z, 'd, 'e) node_env \<Rightarrow> ptr option \<Rightarrow> ptr list \<Rightarrow> ('b, 'z, 'd, 'e) node
    \<Rightarrow> ('b, 'z, 'd, 'e) node run" where
  "readd_candidates N tip [] s = returns s"
| "readd_candidates N tip (x # xs) s = run_bind (readd_candidate N tip x s) (readd_candidates N tip xs)"

definition InvalidateBlock :: "('p, 's, 'r, 'b, 'z, 'd, 'e) node_env \<Rightarrow> CValidationState \<Rightarrow> ptr \<Rightarrow> ('b, 'z, 'd, 'e) node
    \<Rightarrow> ((bool \<times> CValidationState) \<times> ('b, 'z, 'd, 'e) node) run" where
  "InvalidateBlock N state p s =
     run_bind (invalidate_loop N p state (erase_candidate N p (dirty_block p (or_status p BLOCK_FAILED_VALID s))))
       (\<lambda>((ok, state), s).
         if \<not> ok then returns ((False, state), s)
         else
           run_bind (tip_of s) (\<lambda>tip.
           run_bind (readd_candidates N tip (ne_iteration N (nd_tree s)) s) (\<lambda>s.
           run_bind (InvalidChainFound N p s) (\<lambda>s. returns ((True, state), s)))))"

definition clear_failed :: "ptr \<Rightarrow> ('b, 'z, 'd, 'e) node \<Rightarrow> ('b, 'z, 'd, 'e) node" where
  "clear_failed x s =
     dirty_block x (set_arena (upd (arena s) x (\<lambda>b. b\<lparr> nStatus := nStatus b AND NOT BLOCK_FAILED_MASK \<rparr>)) s)"

definition reconsider_entry :: "('p, 's, 'r, 'b, 'z, 'd, 'e) node_env \<Rightarrow> ptr option \<Rightarrow> ptr \<Rightarrow> ptr \<Rightarrow> ('b, 'z, 'd, 'e) node
    \<Rightarrow> ('b, 'z, 'd, 'e) node run" where
  "reconsider_entry N tip p x s =
     (if IsValid BLOCK_VALID_TRANSACTIONS (arena s ! x) then returns s
      else (case GetAncestor (arena s) x (nHeight (arena s ! p)) of
          None \<Rightarrow> None
        | Some a \<Rightarrow>
            if a \<noteq> Some p then returns s
            else
              let s = clear_failed x s in
              run_bind (if IsValid BLOCK_VALID_TRANSACTIONS (arena s ! x) \<and> nChainTx (arena s ! x) \<noteq> 0
                        then (case tip of None \<Rightarrow> crash Out_of_range
                          | Some t \<Rightarrow> returns (if worse N s t x then insert_candidate N x s else s))
                        else returns s)
                (\<lambda>s. returns (if pindexBestInvalid s = Some x then s\<lparr> pindexBestInvalid := None \<rparr> else s))))"

fun reconsider_entries :: "('p, 's, 'r, 'b, 'z, 'd, 'e) node_env \<Rightarrow> ptr option \<Rightarrow> ptr \<Rightarrow> ptr list \<Rightarrow> ('b, 'z, 'd, 'e) node
    \<Rightarrow> ('b, 'z, 'd, 'e) node run" where
  "reconsider_entries N tip p [] s = returns s"
| "reconsider_entries N tip p (x # xs) s = run_bind (reconsider_entry N tip p x s) (reconsider_entries N tip p xs)"

partial_function (option) clear_ancestors :: "ptr option \<Rightarrow> ('b, 'z, 'd, 'e) node \<Rightarrow> ('b, 'z, 'd, 'e) node run" where
  "clear_ancestors x s = (case x of None \<Rightarrow> returns s
     | Some q \<Rightarrow> clear_ancestors (pprev (arena s ! q)) (if fFailedChain (arena s ! q) then clear_failed q s else s))"

definition ReconsiderBlock :: "('p, 's, 'r, 'b, 'z, 'd, 'e) node_env \<Rightarrow> ptr \<Rightarrow> ('b, 'z, 'd, 'e) node
    \<Rightarrow> ('b, 'z, 'd, 'e) node run" where
  "ReconsiderBlock N p s =
     run_bind (tip_of s) (\<lambda>tip.
     run_bind (reconsider_entries N tip p (ne_iteration N (nd_tree s)) s) (clear_ancestors (Some p)))"

section \<open>The data of a block arrives\<close>

text \<open>One block of the queue: it and all its ancestors have their transactions.\<close>

definition link_entry :: "('p, 's, 'r, 'b, 'z, 'd, 'e) node_env \<Rightarrow> ptr \<Rightarrow> ('b, 'z, 'd, 'e) node
    \<Rightarrow> ('b, 'z, 'd, 'e) node run" where
  "link_entry N p s =
     (let s = set_arena (upd (arena s) p (\<lambda>b. b\<lparr> nChainTx := (case pprev b of None \<Rightarrow> 0 | Some q \<Rightarrow> nChainTx (arena s ! q)) + nTx b,
                nSequenceId := nBlockSequenceId s \<rparr>)) (s\<lparr> nBlockSequenceId := nBlockSequenceId s + 1 \<rparr>)
      in run_bind (tip_of s) (\<lambda>tip.
           returns (if (case tip of None \<Rightarrow> True | Some t \<Rightarrow> \<not> worse N s p t) then insert_candidate N p s else s)))"

definition waiting :: "ptr \<Rightarrow> ('b, 'z, 'd, 'e) node \<Rightarrow> ptr list" where
  "waiting p s = map snd (filter (\<lambda>u. fst u = Some p) (mapBlocksUnlinked s))"

partial_function (option) link_queue :: "('p, 's, 'r, 'b, 'z, 'd, 'e) node_env \<Rightarrow> ptr list \<Rightarrow> ('b, 'z, 'd, 'e) node
    \<Rightarrow> ('b, 'z, 'd, 'e) node run" where
  "link_queue N queue s = (case queue of [] \<Rightarrow> returns s
     | p # ps \<Rightarrow> run_bind (link_entry N p s) (\<lambda>s.
         link_queue N (ps @ waiting p s)
           (s\<lparr> mapBlocksUnlinked := filter (\<lambda>u. fst u \<noteq> Some p) (mapBlocksUnlinked s) \<rparr>)))"

definition receive_data :: "CBlock \<Rightarrow> ptr \<Rightarrow> CDiskBlockPos \<Rightarrow> ('b, 'z, 'd, 'e) node \<Rightarrow> ('b, 'z, 'd, 'e) node" where
  "receive_data block p pos s =
     dirty_block p (set_arena (upd (arena s) p (\<lambda>b.
       let b = (if IsProofOfStake block then SetProofOfStake b else b);
           b = b\<lparr> nTx := of_nat (length (vtx block)), nChainTx := 0, nFile := dbp_nFile pos, nDataPos := dbp_nPos pos,
                  nUndoPos := 0, nStatus := nStatus b OR BLOCK_HAVE_DATA \<rparr>
       in snd (RaiseValidity BLOCK_VALID_TRANSACTIONS b))) s)"

definition ReceivedBlockTransactions :: "('p, 's, 'r, 'b, 'z, 'd, 'e) node_env \<Rightarrow> CBlock \<Rightarrow> ptr \<Rightarrow> CDiskBlockPos
    \<Rightarrow> ('b, 'z, 'd, 'e) node \<Rightarrow> ('b, 'z, 'd, 'e) node run" where
  "ReceivedBlockTransactions N block p pos s =
     (let s = receive_data block p pos s in
      case pprev (arena s ! p) of
        None \<Rightarrow> link_queue N [p] s
      | Some q \<Rightarrow>
          if nChainTx (arena s ! q) \<noteq> 0 then link_queue N [p] s
          else if IsValid BLOCK_VALID_TREE (arena s ! q)
          then returns (s\<lparr> mapBlocksUnlinked := mapBlocksUnlinked s @ [(Some q, p)] \<rparr>)
          else returns s)"

text \<open>\<open>DisconnectBlocksAndReprocess\<close>, whose loop runs from 0 up to and including \<open>blocks\<close> and ignores
  failures.\<close>

fun disconnect_blocks :: "('p, 's, 'r, 'b, 'z, 'd, 'e) node_env \<Rightarrow> nat \<Rightarrow> CValidationState \<Rightarrow> ('b, 'z, 'd, 'e) node
    \<Rightarrow> ('b, 'z, 'd, 'e) node run" where
  "disconnect_blocks N 0 state s = returns s"
| "disconnect_blocks N (Suc n) state s =
     run_bind (DisconnectTip N state s) (\<lambda>((ok, state), s). disconnect_blocks N n state s)"

definition DisconnectBlocksAndReprocess :: "('p, 's, 'r, 'b, 'z, 'd, 'e) node_env \<Rightarrow> int \<Rightarrow> ('b, 'z, 'd, 'e) node
    \<Rightarrow> ('b, 'z, 'd, 'e) node run" where
  "DisconnectBlocksAndReprocess N blocks s = disconnect_blocks N (nat (blocks + 1)) CValidationState_new s"

end
