(* ===== verification/BestChain.thy ===== *)
theory BestChain
  imports Activation
begin

unbundle bit_operations_syntax

text \<open>
  What the choice of the active chain achieves: the set of candidates stays sorted, \<open>FindMostWorkChain\<close>
  returns the best usable candidate, and what connecting and disconnecting the tip may change of the tree,
  the active chain and the candidates.
\<close>

section \<open>Sorted sets\<close>

locale ordered_set =
  fixes lt :: "'a \<Rightarrow> 'a \<Rightarrow> bool" and ok :: "'a \<Rightarrow> bool"
  assumes irrefl: "ok x \<Longrightarrow> \<not> lt x x"
    and trans: "ok x \<Longrightarrow> ok y \<Longrightarrow> ok z \<Longrightarrow> lt x y \<Longrightarrow> lt y z \<Longrightarrow> lt x z"
    and total: "ok x \<Longrightarrow> ok y \<Longrightarrow> x \<noteq> y \<Longrightarrow> lt x y \<or> lt y x"
begin

definition sorted_set :: "'a list \<Rightarrow> bool" where
  "sorted_set xs \<longleftrightarrow> sorted_wrt lt xs \<and> (\<forall>x \<in> set xs. ok x)"

lemma asym: "ok x \<Longrightarrow> ok y \<Longrightarrow> lt x y \<Longrightarrow> \<not> lt y x"
  using irrefl trans by blast

lemma set_put: "sorted_set xs \<Longrightarrow> ok p \<Longrightarrow> sorted_set (set_put lt p xs) \<and> set (set_put lt p xs) = insert p (set xs)"
proof (induction xs)
  case (Cons x xs)
  then have x: "ok x" "\<forall>y \<in> set xs. lt x y \<and> ok y" "sorted_set xs" by (auto simp: sorted_set_def)
  then have "lt p x \<Longrightarrow> \<forall>y \<in> set xs. lt p y" using trans Cons.prems(2) by blast
  then show ?case using Cons x total [of x p] by (auto simp: sorted_set_def)
qed (simp add: sorted_set_def)

lemma set_del: "sorted_set xs \<Longrightarrow> ok p \<Longrightarrow> sorted_set (set_del lt p xs) \<and> set (set_del lt p xs) = set xs - {p}"
  using total irrefl by (fastforce simp: sorted_set_def set_del_def sorted_wrt_filter)

lemma last_max: "sorted_set xs \<Longrightarrow> x \<in> set xs \<Longrightarrow> x = last xs \<or> lt x (last xs)"
  by (induction xs) (auto simp: sorted_set_def)

lemma set_drop:
  assumes "sorted_set xs" "ok t"
  shows "sorted_set (dropWhile (\<lambda>x. lt x t) xs) \<and> set (dropWhile (\<lambda>x. lt x t) xs) = {x \<in> set xs. \<not> lt x t}"
  using assms(1)
proof (induction xs)
  case (Cons x xs)
  then have "ok x" "\<forall>y \<in> set xs. lt x y \<and> ok y" "sorted_set xs" by (auto simp: sorted_set_def)
  moreover from this have "\<not> lt x t \<Longrightarrow> \<forall>y \<in> set xs. \<not> lt y t" using trans assms(2) by blast
  ultimately show ?case using Cons by (auto simp: sorted_set_def)
qed (simp add: sorted_set_def)

end

definition works_ok :: "arena \<Rightarrow> bool" where
  "works_ok st \<longleftrightarrow> (\<forall>p < length st. length (nChainWork (st ! p)) = 8)"

lemma comparator_iff:
  assumes "works_ok st" "p < length st" "q < length st"
  shows "CBlockIndexWorkComparator addr st p q \<longleftrightarrow>
    pn_val (nChainWork (st ! p)) < pn_val (nChainWork (st ! q)) \<or>
    pn_val (nChainWork (st ! p)) = pn_val (nChainWork (st ! q)) \<and>
      (nSequenceId (st ! p) > nSequenceId (st ! q) \<or> nSequenceId (st ! p) = nSequenceId (st ! q) \<and> addr p > addr q)"
  using assms by (auto simp: CBlockIndexWorkComparator_def Let_def works_ok_def CompareTo_spec)

interpretation cand: ordered_set "CBlockIndexWorkComparator addr st" "\<lambda>p. inj addr \<and> works_ok st \<and> p < length st" for addr st
proof unfold_locales
  fix x y z
  assume x: "inj addr \<and> works_ok st \<and> x < length st"
  then show "\<not> CBlockIndexWorkComparator addr st x x" by (simp add: comparator_iff)
  assume y: "inj addr \<and> works_ok st \<and> y < length st"
  show "CBlockIndexWorkComparator addr st x y \<or> CBlockIndexWorkComparator addr st y x" if "x \<noteq> y"
  proof -
    have "addr x \<noteq> addr y" using x that by (auto dest: injD)
    then show ?thesis using x y by (auto simp: comparator_iff)
  qed
  assume z: "inj addr \<and> works_ok st \<and> z < length st"
  show "CBlockIndexWorkComparator addr st x z"
    if "CBlockIndexWorkComparator addr st x y" "CBlockIndexWorkComparator addr st y z"
    using that x y z by (auto simp: comparator_iff)
qed

section \<open>What operations keep of the tree\<close>

text \<open>The fields that no operation of this theory but \<open>ReceivedBlockTransactions\<close> changes, and how the
  status of an entry evolves.\<close>

definition core :: "CBlockIndex \<Rightarrow> (limbs \<times> ptr option \<times> ptr option \<times> int \<times> limbs) \<times> u32 \<times> u32 \<times> u32 \<times> u32" where
  "core b = ((bi_hash b, pprev b, pskip b, nHeight b, nChainWork b), bi_nBits b, nTx b, nChainTx b, nSequenceId b)"

definition level :: "CBlockIndex \<Rightarrow> u32" where
  "level b = nStatus b AND BLOCK_VALID_MASK"

definition status_grows :: "CBlockIndex \<Rightarrow> CBlockIndex \<Rightarrow> bool" where
  "status_grows b b' \<longleftrightarrow> (fFailedChain b \<longrightarrow> fFailedChain b') \<and> fMissingData b' = fMissingData b \<and> level b \<le> level b'"

definition evolves :: "arena \<Rightarrow> arena \<Rightarrow> bool" where
  "evolves st st' \<longleftrightarrow> map core st = map core st' \<and> (\<forall>p < length st. status_grows (st ! p) (st' ! p))"

lemma core_fields:
  assumes "core b = core b'"
  shows "bi_hash b = bi_hash b'" "pprev b = pprev b'" "pskip b = pskip b'" "nHeight b = nHeight b'"
    "nChainWork b = nChainWork b'" "bi_nBits b = bi_nBits b'" "nTx b = nTx b'" "nChainTx b = nChainTx b'"
    "nSequenceId b = nSequenceId b'" "skel b = skel b'"
  using assms by (simp_all add: core_def skel_def)

lemma core_nth: "map core st = map core st' \<Longrightarrow> length st = length st' \<and> (\<forall>p < length st. core (st ! p) = core (st' ! p))"
  by (metis length_map nth_map)

lemma status_grows_refl [simp]: "status_grows b b" by (simp add: status_grows_def)

lemma status_grows_trans: "status_grows a b \<Longrightarrow> status_grows b c \<Longrightarrow> status_grows a c"
  unfolding status_grows_def by (metis order_trans)

lemma evolves_refl: "evolves st st" by (simp add: evolves_def)

lemma evolves_len: "evolves st st' \<Longrightarrow> length st' = length st"
  unfolding evolves_def by (metis length_map)

lemma evolves_core: "evolves st st' \<Longrightarrow> p < length st \<Longrightarrow> core (st' ! p) = core (st ! p)"
  unfolding evolves_def by (metis length_map nth_map)

lemma evolves_trans:
  assumes "evolves a b" "evolves b c"
  shows "evolves a c"
  using assms status_grows_trans evolves_len [OF assms(1)] unfolding evolves_def by metis

lemmas evolves_fields = evolves_core [THEN core_fields(1)] evolves_core [THEN core_fields(2)] evolves_core [THEN core_fields(4)]
  evolves_core [THEN core_fields(5)] evolves_core [THEN core_fields(8)] evolves_core [THEN core_fields(9)]

lemma evolves_status:
  "evolves st st' \<Longrightarrow> p < length st \<Longrightarrow> fFailedChain (st ! p) \<Longrightarrow> fFailedChain (st' ! p)"
  "evolves st st' \<Longrightarrow> p < length st \<Longrightarrow> fMissingData (st' ! p) = fMissingData (st ! p)"
  "evolves st st' \<Longrightarrow> p < length st \<Longrightarrow> level (st ! p) \<le> level (st' ! p)"
  by (auto simp: evolves_def status_grows_def)

lemma evolves_upd: "(\<And>b. core (f b) = core b \<and> status_grows b (f b)) \<Longrightarrow> evolves st (upd st p f)"
  by (cases "p < length st") (auto simp: evolves_def upd_def map_update nth_list_update list_update_beyond
    intro!: nth_equalityI [of "map core st"])

lemma or_bit: "(a :: u32) OR 32 \<noteq> 0" "a OR 64 \<noteq> 0"
proof -
  have "bit (a OR 32) 5" "bit (a OR 64) 6" by (simp_all add: bit_or_iff bit_numeral_rec)
  then show "a OR 32 \<noteq> 0" "a OR 64 \<noteq> 0" by auto
qed

lemma mask_or:
  "((x :: u32) OR BLOCK_FAILED_VALID) AND BLOCK_FAILED_MASK \<noteq> 0"
  "((x :: u32) OR BLOCK_FAILED_CHILD) AND BLOCK_FAILED_MASK \<noteq> 0"
  "(x OR BLOCK_FAILED_VALID) AND BLOCK_HAVE_DATA = x AND BLOCK_HAVE_DATA"
  "(x OR BLOCK_FAILED_CHILD) AND BLOCK_HAVE_DATA = x AND BLOCK_HAVE_DATA"
  "(x OR BLOCK_FAILED_VALID) AND BLOCK_VALID_MASK = x AND BLOCK_VALID_MASK"
  "(x OR BLOCK_FAILED_CHILD) AND BLOCK_VALID_MASK = x AND BLOCK_VALID_MASK"
  by (simp_all add: bit.conj_disj_distrib2 BLOCK_FAILED_VALID_def BLOCK_FAILED_CHILD_def BLOCK_FAILED_MASK_def
      BLOCK_HAVE_DATA_def BLOCK_VALID_MASK_def or_bit)

lemma core_skel:
  assumes "map core st = map core st'"
  shows "map skel st = map skel st'"
proof (rule nth_equalityI)
  show len: "length (map skel st) = length (map skel st')" using arg_cong [OF assms, of length] by simp
  fix i assume i: "i < length (map skel st)"
  then have "core (st ! i) = core (st' ! i)" using arg_cong [OF assms, of "\<lambda>v. v ! i"] len by simp
  from core_fields(10) [OF this] show "map skel st ! i = map skel st' ! i" using i len by simp
qed

lemma lin_cong: "(\<And>q. q \<in> set (lin f n p) \<Longrightarrow> f q = g q) \<Longrightarrow> lin g n p = lin f n p"
proof (induction n arbitrary: p)
  case (Suc n)
  have "f p = g p" by (rule Suc.prems) simp
  moreover have "lin g n r = lin f n r" if "f p = Some r" for r by (rule Suc.IH, rule Suc.prems) (simp add: that)
  ultimately show ?case by (auto split: option.split)
qed simp

lemma lineage_subset: "tree_ok st \<Longrightarrow> p < length st \<Longrightarrow> q \<in> set (lineage st p) \<Longrightarrow> q < length st"
  using forest.lineage_ok [of st p q] by simp

lemma evolves_lineage:
  assumes "evolves st st'" "tree_ok st" "p < length st"
  shows "lineage st' p = lineage st p"
proof -
  have "lin (parent st') (nat (nHeight (st ! p))) p = lin (parent st) (nat (nHeight (st ! p))) p"
    using lineage_subset [OF assms(2,3)] evolves_fields(2) [OF assms(1)] by (intro lin_cong) (simp add: lineage_def)
  then show ?thesis by (simp add: lineage_def evolves_fields(3) [OF assms(1,3)])
qed

lemma evolves_Contains: "evolves st st' \<Longrightarrow> p < length st \<Longrightarrow> Contains st' ch p = Contains st ch p"
  using evolves_fields(3) [of st st' p] by (simp add: Contains_def)

lemma evolves_chain_ok: "evolves st st' \<Longrightarrow> tree_ok st \<Longrightarrow> chain_ok st ch \<Longrightarrow> chain_ok st' ch"
  by (auto simp: chain_ok_def path_to_def evolves_len evolves_lineage)

lemma evolves_tree_ok: "evolves st st' \<Longrightarrow> tree_ok st \<Longrightarrow> tree_ok st'"
  using tree_ok_skel core_skel unfolding evolves_def by metis

lemma evolves_comparator:
  assumes "evolves st st'" "p < length st" "q < length st"
  shows "CBlockIndexWorkComparator addr st' p q = CBlockIndexWorkComparator addr st p q"
  using evolves_fields(4,6) [OF assms(1,2)] evolves_fields(4,6) [OF assms(1,3)]
  by (simp only: CBlockIndexWorkComparator_def)

text \<open>What the tree of a running node satisfies: links, accumulated work, and that \<open>nChainTx\<close> is only set for
  blocks that have their transactions like all their ancestors.\<close>

definition tree_facts :: "('p, 's, 'r, 'b, 'z, 'd, 'e) node_env \<Rightarrow> arena \<Rightarrow> bool" where
  "tree_facts N st \<longleftrightarrow> inj (ne_address N) \<and> tree_ok st \<and> works_ok st \<and>
     (\<forall>p < length st. \<forall>q. pprev (st ! p) = Some q \<longrightarrow> pn_val (nChainWork (st ! q)) < pn_val (nChainWork (st ! p))) \<and>
     (\<forall>p < length st. nChainTx (st ! p) \<noteq> 0 \<longrightarrow> \<not> fMissingData (st ! p) \<and> BLOCK_VALID_TRANSACTIONS \<le> level (st ! p) \<and>
        (\<forall>q. pprev (st ! p) = Some q \<longrightarrow> nChainTx (st ! q) \<noteq> 0))"

definition candidates_ok :: "('p, 's, 'r, 'b, 'z, 'd, 'e) node_env \<Rightarrow> ('b, 'z, 'd, 'e) node \<Rightarrow> bool" where
  "candidates_ok N s \<longleftrightarrow> cand.sorted_set (ne_address N) (arena s) (setBlockIndexCandidates s) \<and>
     (\<forall>p \<in> set (setBlockIndexCandidates s). nChainTx (arena s ! p) \<noteq> 0)"

definition state_ok :: "('p, 's, 'r, 'b, 'z, 'd, 'e) node_env \<Rightarrow> ('b, 'z, 'd, 'e) node \<Rightarrow> bool" where
  "state_ok N s \<longleftrightarrow> tree_facts N (arena s) \<and> chain_ok (arena s) (chainActive s) \<and> candidates_ok N s"

lemma tree_facts_rules:
  assumes "tree_facts N st"
  shows "inj (ne_address N)" "tree_ok st" "works_ok st"
    "p < length st \<Longrightarrow> pprev (st ! p) = Some q \<Longrightarrow> pn_val (nChainWork (st ! q)) < pn_val (nChainWork (st ! p))"
    "p < length st \<Longrightarrow> nChainTx (st ! p) \<noteq> 0 \<Longrightarrow> \<not> fMissingData (st ! p) \<and> BLOCK_VALID_TRANSACTIONS \<le> level (st ! p)"
    "p < length st \<Longrightarrow> nChainTx (st ! p) \<noteq> 0 \<Longrightarrow> pprev (st ! p) = Some q \<Longrightarrow> nChainTx (st ! q) \<noteq> 0"
  using assms by (auto simp: tree_facts_def)

lemma parent_in: "tree_ok st \<Longrightarrow> p < length st \<Longrightarrow> pprev (st ! p) = Some q \<Longrightarrow> q < length st"
  using forest.step [of st p q] by simp

lemma evolves_tree_facts:
  assumes "tree_facts N st" "evolves st st'"
  shows "tree_facts N st'"
proof -
  note f = tree_facts_rules [OF assms(1)] and g = evolves_fields [OF assms(2)] and l = evolves_len [OF assms(2)]
  have "BLOCK_VALID_TRANSACTIONS \<le> level (st' ! p)" if "p < length st" "nChainTx (st ! p) \<noteq> 0" for p
    using f(5) [OF that] evolves_status(3) [OF assms(2) that(1)] order_trans by blast
  then show ?thesis
    using f g l parent_in [OF f(2)] evolves_tree_ok [OF assms(2)] evolves_status(2) [OF assms(2)]
    by (auto simp: tree_facts_def works_ok_def)
qed

lemma evolves_sorted_set:
  assumes "evolves st st'" "cand.sorted_set addr st xs"
  shows "cand.sorted_set addr st' xs"
proof -
  have "\<forall>x \<in> set xs. inj addr \<and> works_ok st \<and> x < length st" using assms(2) by (simp add: cand.sorted_set_def)
  moreover from this have "\<forall>x \<in> set xs. works_ok st'"
    using evolves_fields(4) [OF assms(1)] evolves_len [OF assms(1)] by (auto simp: works_ok_def)
  ultimately show ?thesis
    using assms(2) evolves_comparator [OF assms(1)] evolves_len [OF assms(1)]
    unfolding cand.sorted_set_def by (auto intro: sorted_wrt_mono_rel [rotated])
qed

text \<open>States that differ from an earlier one by growing statuses and a smaller set of candidates.\<close>

lemma state_ok_shrink:
  assumes "state_ok N s" "evolves (arena s) (arena s')" "chainActive s' = chainActive s"
    and "cand.sorted_set (ne_address N) (arena s) (setBlockIndexCandidates s')"
    and "set (setBlockIndexCandidates s') \<subseteq> set (setBlockIndexCandidates s)"
  shows "state_ok N s'"
proof -
  have s: "tree_facts N (arena s)" "chain_ok (arena s) (chainActive s)" "candidates_ok N s"
    using assms(1) by (auto simp: state_ok_def)
  have "\<forall>p \<in> set (setBlockIndexCandidates s'). nChainTx (arena s' ! p) \<noteq> 0"
    using s(3) assms(5) evolves_fields(5) [OF assms(2)] assms(4) by (auto simp: candidates_ok_def cand.sorted_set_def)
  then show ?thesis
    using s evolves_tree_facts [OF s(1) assms(2)] evolves_chain_ok [OF assms(2)] evolves_sorted_set [OF assms(2,4)] assms(3)
      tree_facts_rules(2) [OF s(1)] by (simp add: state_ok_def candidates_ok_def)
qed

section \<open>The best usable candidate\<close>

definition bad_block :: "CBlockIndex \<Rightarrow> bool" where
  "bad_block b \<longleftrightarrow> fFailedChain b \<or> fMissingData b"

text \<open>The blocks to connect for a candidate, down to the active chain; a candidate is usable when all of
  them have data and none has failed.\<close>

definition way :: "arena \<Rightarrow> CChain \<Rightarrow> ptr \<Rightarrow> ptr list" where
  "way st ch p = takeWhile (\<lambda>q. \<not> Contains st ch q) (lineage st p)"

definition usable :: "arena \<Rightarrow> CChain \<Rightarrow> ptr \<Rightarrow> bool" where
  "usable st ch p \<longleftrightarrow> (\<forall>q \<in> set (way st ch p). \<not> bad_block (st ! q))"

lemma way_rec:
  "tree_ok st \<Longrightarrow> p < length st \<Longrightarrow> way st ch p =
    (if Contains st ch p then [] else p # (case pprev (st ! p) of None \<Rightarrow> [] | Some q \<Rightarrow> way st ch q))"
  using lineage_facts(1) [of st p] by (auto simp: way_def split: option.split)

lemma way_subset: "tree_ok st \<Longrightarrow> p < length st \<Longrightarrow> q \<in> set (way st ch p) \<Longrightarrow> q < length st"
  using lineage_subset [of st p q] by (auto simp: way_def dest: set_takeWhileD)

lemma way_suffix:
  "tree_ok st \<and> p < length st \<Longrightarrow> q \<in> set (way st ch p) \<Longrightarrow> set (way st ch q) \<subseteq> set (way st ch p)"
proof (induction p rule: forest.forest_induct)
  case (node p)
  show ?case
  proof (cases "q = p")
    case False
    then obtain r where "pprev (st ! p) = Some r" "q \<in> set (way st ch r)" "\<not> Contains st ch p"
      using node.prems way_rec [of st p ch] node.hyps by (auto split: if_splits option.splits)
    then show ?thesis using node.IH way_rec [of st p ch] node.hyps by auto
  qed simp
qed

lemma evolves_way:
  assumes "evolves st st'" "tree_ok st" "p < length st"
  shows "way st' ch p = way st ch p"
  unfolding way_def evolves_lineage [OF assms]
  using evolves_Contains [OF assms(1)] lineage_subset [OF assms(2,3)] by (intro takeWhile_cong) auto

lemma test_path_eq:
  assumes "tree_facts N st"
  shows "tree_ok st \<and> p < length st \<Longrightarrow> nChainTx (st ! p) \<noteq> 0 \<Longrightarrow> test_path st ch (Some p) =
    returns (map_option (\<lambda>q. (q, fFailedChain (st ! q))) (find (\<lambda>q. bad_block (st ! q)) (way st ch p)))"
proof (induction p rule: forest.forest_induct)
  case (node p)
  have "test_path st ch None = returns None" by (simp add: test_path.simps)
  then show ?case
    using node tree_facts_rules(6) [OF assms, of p] way_rec [of st p ch]
    by (subst test_path.simps) (auto simp: bad_block_def split: option.split)
qed

text \<open>Dropping the blocks \<open>X\<close> from the set of candidates.\<close>

definition drops :: "('p, 's, 'r, 'b, 'z, 'd, 'e) node_env \<Rightarrow> ptr set \<Rightarrow> ('b, 'z, 'd, 'e) node \<Rightarrow> ('b, 'z, 'd, 'e) node \<Rightarrow> bool" where
  "drops N X s s' \<longleftrightarrow> state_ok N s' \<and> chainActive s' = chainActive s \<and> evolves (arena s) (arena s') \<and>
     set (setBlockIndexCandidates s') = set (setBlockIndexCandidates s) - X \<and>
     (\<forall>x. x \<notin> X \<longrightarrow> arena s' ! x = arena s ! x)"

lemma drops_trans: "drops N X s s1 \<Longrightarrow> drops N Y s1 s2 \<Longrightarrow> drops N (X \<union> Y) s s2"
  using evolves_trans by (auto simp: drops_def)

lemma drops_erase:
  assumes "state_ok N s" "q < length (arena s)"
  shows "drops N {q} s (erase_candidate N q s)"
proof -
  have s: "tree_facts N (arena s)" "cand.sorted_set (ne_address N) (arena s) (setBlockIndexCandidates s)"
    using assms(1) by (auto simp: state_ok_def candidates_ok_def)
  note del = cand.set_del [OF s(2), of q]
  have "inj (ne_address N) \<and> works_ok (arena s) \<and> q < length (arena s)"
    using tree_facts_rules(1,3) [OF s(1)] assms(2) by simp
  note del = del [OF this]
  then have "state_ok N (erase_candidate N q s)"
    using state_ok_shrink [OF assms(1), of "erase_candidate N q s"] by (auto simp: erase_candidate_def evolves_refl)
  then show ?thesis using del by (simp add: drops_def erase_candidate_def evolves_refl)
qed

lemma or_status_grows:
  "evolves (arena s) (arena (or_status q BLOCK_FAILED_VALID s))" "evolves (arena s) (arena (or_status q BLOCK_FAILED_CHILD s))"
  unfolding or_status_def
  by (simp_all add: evolves_upd core_def status_grows_def fFailedChain_def fMissingData_def level_def mask_or)

lemma or_status_frame [simp]:
  "chainActive (or_status q f s) = chainActive s" "setBlockIndexCandidates (or_status q f s) = setBlockIndexCandidates s"
  "length (arena (or_status q f s)) = length (arena s)" "x \<noteq> q \<Longrightarrow> arena (or_status q f s) ! x = arena s ! x"
  by (simp_all add: or_status_def upd_def)

lemma or_status_failed:
  "q < length (arena s) \<Longrightarrow> fFailedChain (arena (or_status q BLOCK_FAILED_VALID s) ! q)"
  "q < length (arena s) \<Longrightarrow> fFailedChain (arena (or_status q BLOCK_FAILED_CHILD s) ! q)"
  by (simp_all add: or_status_def upd_def fFailedChain_def mask_or)

lemma state_ok_status:
  assumes "state_ok N s" "evolves (arena s) (arena s')" "chainActive s' = chainActive s"
    "setBlockIndexCandidates s' = setBlockIndexCandidates s"
  shows "state_ok N s'"
  using state_ok_shrink [OF assms(1,2,3)] assms(1,4) by (simp add: state_ok_def candidates_ok_def)

lemma drops_block:
  assumes "state_ok N s" "q < length (arena s)"
  shows "drops N {q} s (drop_block N f q s)" "f \<Longrightarrow> fFailedChain (arena (drop_block N f q s) ! q)"
proof -
  define s1 where "s1 = (if f then or_status q BLOCK_FAILED_CHILD s
    else s\<lparr> mapBlocksUnlinked := mapBlocksUnlinked s @ [(pprev (arena s ! q), q)] \<rparr>)"
  have s1: "evolves (arena s) (arena s1)" "chainActive s1 = chainActive s"
    "setBlockIndexCandidates s1 = setBlockIndexCandidates s" "length (arena s1) = length (arena s)"
    "\<And>x. x \<noteq> q \<Longrightarrow> arena s1 ! x = arena s ! x" "f \<Longrightarrow> fFailedChain (arena s1 ! q)"
    using assms(2) by (simp_all add: s1_def or_status_grows evolves_refl or_status_failed)
  have e: "drop_block N f q s = erase_candidate N q s1" by (simp add: drop_block_def s1_def)
  have "drops N {q} s1 (erase_candidate N q s1)"
    by (rule drops_erase) (use state_ok_status [OF assms(1) s1(1-3)] s1(4) assms(2) in simp_all)
  then show "drops N {q} s (drop_block N f q s)"
    unfolding e using s1 evolves_trans [OF s1(1)] by (auto simp: drops_def)
  show "fFailedChain (arena (drop_block N f q s) ! q)" if f
    unfolding e using s1(6) [OF that] by (simp add: erase_candidate_def)
qed

lemma drop_path_eq:
  fixes st :: arena
  assumes st: "tree_facts N st"
  shows "tree_ok st \<and> p < length st \<Longrightarrow> t \<in> set (lineage st p) \<Longrightarrow> state_ok N s \<Longrightarrow> evolves st (arena s) \<Longrightarrow>
    \<exists>s'. drop_path N t f (Some p) s = returns s' \<and> drops N (set (takeWhile (\<lambda>q. q \<noteq> t) (lineage st p))) s s'"
proof (induction p arbitrary: s rule: forest.forest_induct)
  case (node p)
  show ?case
  proof (cases "p = t")
    case True
    then have "takeWhile (\<lambda>q. q \<noteq> t) (lineage st p) = []" using lineage_facts(1) [OF node.hyps] by simp
    moreover have "drop_path N t f (Some p) s = returns s" using True by (simp add: drop_path.simps)
    ultimately show ?thesis using node.prems(2) by (simp add: drops_def evolves_refl)
  next
    case False
    have tree: "tree_ok st" "p < length st" using node.hyps by simp_all
    obtain q where q: "pprev (st ! p) = Some q" "t \<in> set (lineage st q)"
      using node.prems(1) False lineage_facts(1) [OF node.hyps] by (auto split: option.splits)
    let ?s = "drop_block N f p s"
    have p: "p < length (arena s)" using evolves_len [OF node.prems(3)] tree(2) by simp
    note d = drops_block(1) [OF node.prems(2) p, of f]
    then have s1: "state_ok N ?s" "evolves (arena s) (arena ?s)" by (simp_all add: drops_def)
    obtain s' where s': "drop_path N t f (Some q) ?s = returns s'"
      "drops N (set (takeWhile (\<lambda>q. q \<noteq> t) (lineage st q))) ?s s'"
      using node.IH [OF q(1,2) s1(1) evolves_trans [OF node.prems(3) s1(2)]] by blast
    have "pprev (arena s ! p) = Some q" using evolves_fields(2) [OF node.prems(3) tree(2)] q(1) by simp
    then have "drop_path N t f (Some p) s = returns s'" using False s'(1) by (subst drop_path.simps) simp
    moreover have "drops N (set (takeWhile (\<lambda>q. q \<noteq> t) (lineage st p))) s s'"
      using drops_trans [OF d s'(2)] lineage_facts(1) [OF node.hyps] False q(1) by simp
    ultimately show ?thesis by blast
  qed
qed

text \<open>Discarding unusable candidates: usable ones stay, and so does what is usable.\<close>

definition discards :: "('p, 's, 'r, 'b, 'z, 'd, 'e) node_env \<Rightarrow> ('b, 'z, 'd, 'e) node \<Rightarrow> ('b, 'z, 'd, 'e) node \<Rightarrow> bool" where
  "discards N s s' \<longleftrightarrow> state_ok N s' \<and> chainActive s' = chainActive s \<and> evolves (arena s) (arena s') \<and>
     set (setBlockIndexCandidates s') \<subseteq> set (setBlockIndexCandidates s) \<and>
     (\<forall>q \<in> set (setBlockIndexCandidates s). usable (arena s) (chainActive s) q \<longrightarrow> q \<in> set (setBlockIndexCandidates s')) \<and>
     (\<forall>q < length (arena s). usable (arena s') (chainActive s) q = usable (arena s) (chainActive s) q) \<and>
     (\<forall>q < length (arena s). usable (arena s) (chainActive s) q \<longrightarrow> arena s' ! q = arena s ! q)"

lemma candidate_facts:
  assumes "state_ok N s" "p \<in> set (setBlockIndexCandidates s)"
  shows "p < length (arena s)" "nChainTx (arena s ! p) \<noteq> 0"
  using assms by (auto simp: state_ok_def candidates_ok_def cand.sorted_set_def)

lemma state_ok_rules:
  assumes "state_ok N s"
  shows "tree_facts N (arena s)" "tree_ok (arena s)" "chain_ok (arena s) (chainActive s)"
    "cand.sorted_set (ne_address N) (arena s) (setBlockIndexCandidates s)"
  using assms tree_facts_rules(2) by (auto simp: state_ok_def candidates_ok_def)

lemma discards_trans:
  assumes "discards N s s1" "discards N s1 s2"
  shows "discards N s s2"
proof -
  have g: "evolves (arena s) (arena s1)" "evolves (arena s1) (arena s2)" "state_ok N s1"
    and ch: "chainActive s1 = chainActive s" using assms by (auto simp: discards_def)
  then have l: "length (arena s1) = length (arena s)" by (simp add: evolves_len)
  have u: "usable (arena s1) (chainActive s) q = usable (arena s) (chainActive s) q" if "q < length (arena s)" for q
    using assms(1) that by (simp add: discards_def)
  have "q \<in> set (setBlockIndexCandidates s2)"
    if "q \<in> set (setBlockIndexCandidates s)" "usable (arena s) (chainActive s) q" for q
  proof -
    have q: "q \<in> set (setBlockIndexCandidates s1)" using assms(1) that by (simp add: discards_def)
    then have "usable (arena s1) (chainActive s1) q" using candidate_facts(1) [OF g(3) q] that(2) u ch l by simp
    then show ?thesis using assms(2) q by (simp add: discards_def)
  qed
  then show ?thesis
    using assms evolves_trans [OF g(1,2)] u ch l by (auto simp: discards_def)
qed

lemma evolves_bad: "evolves st st' \<Longrightarrow> p < length st \<Longrightarrow> bad_block (st ! p) \<Longrightarrow> bad_block (st' ! p)"
  using evolves_status unfolding bad_block_def by blast

lemma drops_discards:
  assumes "drops N X s s'" "state_ok N s" "\<forall>q \<in> X. \<not> usable (arena s) (chainActive s) q"
  shows "discards N s s'"
proof -
  let ?st = "arena s" and ?ch = "chainActive s"
  have tree: "tree_ok ?st" using assms(2) tree_facts_rules(2) by (auto simp: state_ok_def)
  have g: "evolves ?st (arena s')" using assms(1) by (simp add: drops_def)
  have "usable (arena s') ?ch q = usable ?st ?ch q" if q: "q < length ?st" for q
  proof
    assume u: "usable (arena s') ?ch q"
    show "usable ?st ?ch q"
      unfolding usable_def
    proof
      fix x assume x: "x \<in> set (way ?st ?ch q)"
      then have "\<not> bad_block (arena s' ! x)" using u evolves_way [OF g tree q] by (simp add: usable_def)
      then show "\<not> bad_block (?st ! x)" using evolves_bad [OF g way_subset [OF tree q x]] by blast
    qed
  next
    assume u: "usable ?st ?ch q"
    have "arena s' ! x = ?st ! x" if x: "x \<in> set (way ?st ?ch q)" for x
    proof -
      have "set (way ?st ?ch x) \<subseteq> set (way ?st ?ch q)" using way_suffix [of ?st q x] tree q x by simp
      then have "usable ?st ?ch x" using u by (auto simp: usable_def)
      then show ?thesis using assms(1,3) by (auto simp: drops_def)
    qed
    then show "usable (arena s') ?ch q" using u evolves_way [OF g tree q] by (simp add: usable_def)
  qed
  then show ?thesis using assms by (auto simp: drops_def discards_def)
qed

lemma takeWhile_takeWhile: "t \<in> set (takeWhile P xs) \<Longrightarrow> set (takeWhile (\<lambda>q. q \<noteq> t) xs) \<subseteq> set (takeWhile P xs)"
  by (induction xs) (auto split: if_splits)

lemma way_above:
  "tree_ok st \<and> p < length st \<Longrightarrow> t \<in> set (way st ch p) \<Longrightarrow> x \<in> set (takeWhile (\<lambda>q. q \<noteq> t) (lineage st p)) \<Longrightarrow>
    t \<in> set (way st ch x)"
proof (induction p rule: forest.forest_induct)
  case (node p)
  show ?case
  proof (cases "p = t \<or> x = p")
    case True
    then show ?thesis using node.prems lineage_facts(1) [OF node.hyps] by auto
  next
    case False
    then obtain r where "pprev (st ! p) = Some r" "x \<in> set (takeWhile (\<lambda>q. q \<noteq> t) (lineage st r))"
      using node.prems(2) lineage_facts(1) [OF node.hyps] by (auto split: option.splits)
    moreover from this have "t \<in> set (way st ch r)"
      using node.prems(1) False way_rec [of st p ch] node.hyps by (auto split: if_splits)
    ultimately show ?thesis using node.IH by blast
  qed
qed

text \<open>One round of \<open>FindMostWorkChain\<close> that finds its candidate unusable.\<close>

lemma discard_round:
  assumes s: "state_ok N s" and p: "p \<in> set (setBlockIndexCandidates s)"
    and t: "find (\<lambda>q. bad_block (arena s ! q)) (way (arena s) (chainActive s) p) = Some t"
  shows "\<exists>s'. drop_path N t f (Some p) (s\<lparr> pindexBestInvalid := b \<rparr>) = returns s' \<and>
    discards N s (erase_candidate N t s') \<and> p \<notin> set (setBlockIndexCandidates (erase_candidate N t s'))"
proof -
  let ?st = "arena s" and ?ch = "chainActive s" and ?s = "s\<lparr> pindexBestInvalid := b \<rparr>"
  have facts: "tree_facts N ?st" "p < length ?st"
    using s p by (auto simp: state_ok_def candidates_ok_def cand.sorted_set_def)
  then have ok: "tree_ok ?st \<and> p < length ?st" using tree_facts_rules(2) by blast
  have tw: "t \<in> set (way ?st ?ch p)" "bad_block (?st ! t)" using t by (auto simp: find_Some_iff)
  then have tl: "t \<in> set (lineage ?st p)" "t < length ?st"
    using way_subset [of ?st p t] ok by (auto simp: way_def dest: set_takeWhileD)
  have "state_ok N ?s" using s by (simp add: state_ok_def candidates_ok_def)
  then obtain s' where s': "drop_path N t f (Some p) ?s = returns s'"
    "drops N (set (takeWhile (\<lambda>q. q \<noteq> t) (lineage ?st p))) ?s s'"
    using drop_path_eq [OF facts(1) ok tl(1), of ?s f] evolves_refl by auto
  let ?X = "set (takeWhile (\<lambda>q. q \<noteq> t) (lineage ?st p)) \<union> {t}"
  have "drops N ?X ?s (erase_candidate N t s')"
    using drops_trans [OF s'(2) drops_erase [of N s' t]] s'(2) tl(2) evolves_len [of ?st "arena s'"] by (simp add: drops_def)
  then have d: "drops N ?X s (erase_candidate N t s')" by (simp add: drops_def)
  have "\<not> usable ?st ?ch x" if "x \<in> ?X" for x
  proof (cases "x = t")
    case True
    then show ?thesis using tw way_rec [of ?st t ?ch] ok tl(2) set_takeWhileD [of t "\<lambda>q. \<not> Contains ?st ?ch q"]
      by (auto simp: usable_def way_def)
  next
    case False
    then show ?thesis using that way_above [OF ok tw(1)] tw(2) by (auto simp: usable_def)
  qed
  then have "discards N s (erase_candidate N t s')" using drops_discards [OF d s] by blast
  moreover have "p \<in> ?X" using lineage_facts(1) [OF ok] by simp
  ultimately show ?thesis using s'(1) d by (auto simp: drops_def)
qed

lemma FindMostWorkChain_spec:
  assumes "state_ok N s"
  shows "\<exists>r s'. FindMostWorkChain N s = returns (r, s') \<and> discards N s s' \<and>
    (case r of None \<Rightarrow> setBlockIndexCandidates s' = []
     | Some p \<Rightarrow> p \<in> set (setBlockIndexCandidates s') \<and> usable (arena s') (chainActive s') p \<and>
         (\<forall>q \<in> set (setBlockIndexCandidates s'). q = p \<or> worse N s' q p))"
  using assms
proof (induction "card (set (setBlockIndexCandidates s))" arbitrary: s rule: less_induct)
  case less
  let ?c = "setBlockIndexCandidates s" and ?st = "arena s" and ?ch = "chainActive s"
  have refl: "discards N s s" using less.prems by (simp add: discards_def evolves_refl)
  show ?case
  proof (cases "?c = []")
    case True
    then have "FindMostWorkChain N s = returns (None, s)" by (simp add: FindMostWorkChain.simps)
    then show ?thesis using refl True by auto
  next
    case False
    define p where "p = last ?c"
    have p: "p \<in> set ?c" using False by (simp add: p_def)
    note st = state_ok_rules(1,4) [OF less.prems] candidate_facts(2,1) [OF less.prems p]
    have best: "\<forall>q \<in> set ?c. q = p \<or> worse N s q p" using cand.last_max [OF st(2)] by (auto simp: p_def)
    have tp: "test_path ?st ?ch (Some p) =
        returns (map_option (\<lambda>q. (q, fFailedChain (?st ! q))) (find (\<lambda>q. bad_block (?st ! q)) (way ?st ?ch p)))"
      using test_path_eq [OF st(1) _ st(3)] st(4) tree_facts_rules(2) [OF st(1)] by simp
    show ?thesis
    proof (cases "find (\<lambda>q. bad_block (?st ! q)) (way ?st ?ch p)")
      case None
      then have "FindMostWorkChain N s = returns (Some p, s)"
        using False tp by (simp add: FindMostWorkChain.simps [of N s] Let_def p_def)
      moreover have "usable ?st ?ch p" using None by (simp add: usable_def find_None_iff)
      ultimately show ?thesis using refl p best by auto
    next
      case (Some t)
      let ?f = "fFailedChain (?st ! t)"
      define b where "b = (if ?f \<and> (case pindexBestInvalid s of None \<Rightarrow> True
        | Some b \<Rightarrow> CompareTo (nChainWork (?st ! p)) (nChainWork (?st ! b)) > 0) then Some p else pindexBestInvalid s)"
      obtain s1 where s1: "drop_path N t ?f (Some p) (s\<lparr> pindexBestInvalid := b \<rparr>) = returns s1"
        "discards N s (erase_candidate N t s1)" "p \<notin> set (setBlockIndexCandidates (erase_candidate N t s1))"
        using discard_round [OF less.prems p Some] by blast
      let ?s2 = "erase_candidate N t s1"
      have bs: "(if ?f \<and> (case pindexBestInvalid s of None \<Rightarrow> True
        | Some b \<Rightarrow> CompareTo (nChainWork (?st ! p)) (nChainWork (?st ! b)) > 0)
        then s\<lparr> pindexBestInvalid := Some p \<rparr> else s) = s\<lparr> pindexBestInvalid := b \<rparr>"
        by (simp add: b_def)
      have run: "FindMostWorkChain N s = FindMostWorkChain N ?s2"
        using False tp Some s1(1)
        by (subst FindMostWorkChain.simps) (simp only: Let_def if_False p_def [symmetric] bs run_bind_simps
            option.map option.case prod.case)
      have "set (setBlockIndexCandidates ?s2) \<subset> set ?c" using s1(2,3) p by (auto simp: discards_def)
      then have "card (set (setBlockIndexCandidates ?s2)) < card (set ?c)" by (simp add: psubset_card_mono)
      moreover have "state_ok N ?s2" using s1(2) by (simp add: discards_def)
      ultimately obtain r s' where "FindMostWorkChain N ?s2 = returns (r, s')" "discards N ?s2 s'"
        "case r of None \<Rightarrow> setBlockIndexCandidates s' = []
         | Some p \<Rightarrow> p \<in> set (setBlockIndexCandidates s') \<and> usable (arena s') (chainActive s') p \<and>
             (\<forall>q \<in> set (setBlockIndexCandidates s'). q = p \<or> worse N s' q p)"
        using less.hyps [of ?s2] by blast
      then show ?thesis
        using discards_trans [OF s1(2)] run by (intro exI [of _ r] exI [of _ s'] conjI) simp_all
    qed
  qed
qed

section \<open>What connecting and disconnecting the tip leaves alone\<close>

text \<open>A run returns (possibly from a failed assertion), and its result satisfies \<open>P\<close>.\<close>

definition holds_after :: "'a run \<Rightarrow> ('a \<Rightarrow> bool) \<Rightarrow> bool" where
  "holds_after m P = (case m of None \<Rightarrow> False | Some r \<Rightarrow> (case r of Inl e \<Rightarrow> True | Inr x \<Rightarrow> P x))"

lemma holds_after_simps [simp]:
  "\<not> holds_after None P" "holds_after (crash e) P" "holds_after (returns x) P \<longleftrightarrow> P x"
  "holds_after (run_bind m f) P \<longleftrightarrow> holds_after m (\<lambda>x. holds_after (f x) P)"
  by (simp_all add: holds_after_def run_bind_def split: option.split sum.split)

lemma holds_after_mono: "holds_after m P \<Longrightarrow> (\<And>x. m = returns x \<Longrightarrow> P x \<Longrightarrow> Q x) \<Longrightarrow> holds_after m Q"
  by (auto simp: holds_after_def split: option.splits sum.splits)

lemma holds_afterD: "holds_after m P \<Longrightarrow> m = returns x \<Longrightarrow> P x"
  by simp

lemma holds_after_if: "holds_after (if b then m else n) P \<longleftrightarrow> (if b then holds_after m P else holds_after n P)"
  by simp

definition same_state :: "('b, 'z, 'd, 'e) node \<Rightarrow> ('b, 'z, 'd, 'e) node \<Rightarrow> bool" where
  "same_state s s' \<longleftrightarrow> arena s' = arena s \<and> chainActive s' = chainActive s \<and>
     setBlockIndexCandidates s' = setBlockIndexCandidates s \<and> mapBlocksUnlinked s' = mapBlocksUnlinked s \<and>
     nBlockSequenceId s' = nBlockSequenceId s"

lemma same_state_refl [simp]: "same_state s s" by (simp add: same_state_def)

lemma same_state_trans: "same_state s s1 \<Longrightarrow> same_state s1 s2 \<Longrightarrow> same_state s s2"
  by (simp add: same_state_def)

lemma same_state_upd [simp]:
  "same_state s (s1\<lparr> nd_mempool := x0 \<rparr>) = same_state s s1"
  "same_state s (s1\<lparr> pcoinsTip := x1 \<rparr>) = same_state s s1"
  "same_state s (s1\<lparr> nd_zerocoinDB := x2 \<rparr>) = same_state s s1"
  "same_state s (s1\<lparr> nd_undo := x3 \<rparr>) = same_state s s1"
  "same_state s (s1\<lparr> mapBlockSource := x4 \<rparr>) = same_state s s1"
  "same_state s (s1\<lparr> mapNodeState := x5 \<rparr>) = same_state s s1"
  "same_state s (s1\<lparr> pindexBestInvalid := x6 \<rparr>) = same_state s s1"
  "same_state s (s1\<lparr> pindexBestForkTip := x7 \<rparr>) = same_state s s1"
  "same_state s (s1\<lparr> pindexBestForkBase := x8 \<rparr>) = same_state s s1"
  "same_state s (s1\<lparr> fLargeWorkForkFound := x9 \<rparr>) = same_state s s1"
  "same_state s (s1\<lparr> fLargeWorkInvalidChainFound := x10 \<rparr>) = same_state s s1"
  "same_state s (s1\<lparr> lockIBDState := x11 \<rparr>) = same_state s s1"
  "same_state s (s1\<lparr> vinfoBlockFile := x12 \<rparr>) = same_state s s1"
  "same_state s (s1\<lparr> setDirtyFileInfo := x13 \<rparr>) = same_state s s1"
  "same_state s (s1\<lparr> nLastBlockFile := x14 \<rparr>) = same_state s s1"
  "same_state s (dirty_block p s1) = same_state s s1"
  "same_state s (s1\<lparr> nd_tree := (nd_tree s1)\<lparr> setDirtyBlockIndex := ps \<rparr> \<rparr>) = same_state s s1"
  by (simp_all add: same_state_def dirty_block_def)

lemma FlushStateToDisk_same: "holds_after (FlushStateToDisk N state m s) (\<lambda>(r, s'). same_state s s')"
  by (auto simp: FlushStateToDisk_def same_state_def Let_def holds_after_if split: option.split prod.split)

lemma flush_view_same: "holds_after (flush_view N view s) (same_state s)"
  by (auto simp: flush_view_def same_state_def split: option.split prod.split bool.split)

lemma resurrect_same: "holds_after (resurrect N txs s) (same_state s)"
proof (induction txs arbitrary: s)
  case (Cons tx txs)
  obtain a pool c where r: "(if IsCoinBase tx \<or> IsCoinStake tx then (False, nd_mempool s, pcoinsTip s)
      else ne_AcceptToMemoryPool N tx (nd_mempool s) (pcoinsTip s)) = (a, pool, c)" by (metis prod_cases3)
  have step: "holds_after (resurrect N txs s1) (same_state s)" if "same_state s s1" for s1
    using Cons [of s1] by (rule holds_after_mono) (use that same_state_trans in blast)
  show ?case
    unfolding resurrect.simps Let_def r prod.case
    by (auto intro!: step split: option.split)
qed simp

lemma tip_of_eq: "tip_of s = returns (if chainActive s = [] then None else last (chainActive s))"
  by (auto simp: tip_of_def Tip_def last_conv_nth)

definition tip :: "('b, 'z, 'd, 'e) node \<Rightarrow> ptr option" where
  "tip s = (if chainActive s = [] then None else last (chainActive s))"

lemma tip_of_tip [simp]: "tip_of s = returns (tip s)" by (simp add: tip_of_eq tip_def)

lemma path_to_ne [simp]: "path_to st p \<noteq> []"
  by (simp add: path_to_def lineage_def) (metis lin.simps list.distinct(1) not0_implies_Suc)

lemma chain_ok_tip:
  assumes "tree_ok (arena s)" "chain_ok (arena s) (chainActive s)"
  shows "tip s = None \<Longrightarrow> chainActive s = []"
    "tip s = Some t \<Longrightarrow> t < length (arena s) \<and> chainActive s = path_to (arena s) t"
proof -
  have "last (path_to (arena s) t) = Some t" if "t < length (arena s)" for t
    using path_to_rec [OF assms(1) that] by simp
  then show "tip s = None \<Longrightarrow> chainActive s = []"
    "tip s = Some t \<Longrightarrow> t < length (arena s) \<and> chainActive s = path_to (arena s) t"
    using assms(2) by (auto simp: tip_def chain_ok_def split: if_splits)
qed

lemma tip_path: "tree_ok (arena s) \<Longrightarrow> t < length (arena s) \<Longrightarrow> chainActive s = path_to (arena s) t \<Longrightarrow> tip s = Some t"
  using path_to_rec [of "arena s" t] by (simp add: tip_def)

definition chain_of :: "arena \<Rightarrow> ptr option \<Rightarrow> CChain" where
  "chain_of st p = (case p of None \<Rightarrow> [] | Some q \<Rightarrow> path_to st q)"

lemma SetTip_eq:
  assumes "tree_ok st" "chain_ok st ch" "\<forall>q. p = Some q \<longrightarrow> q < length st"
  shows "SetTip st ch p = Some (chain_of st p)"
  using SetTip_is_path [OF assms(1,2)] assms(3) by (cases p) (simp_all add: SetTip_def chain_of_def)

lemma same_state_erase: "same_state s s' \<Longrightarrow> same_state (erase_candidate N p s) (erase_candidate N p s')"
  by (simp add: same_state_def erase_candidate_def)

lemma same_state_or: "same_state s s' \<Longrightarrow> same_state (or_status p f s) (or_status p f s')"
  by (simp add: same_state_def or_status_def)

lemma initial_same: "holds_after (IsInitialBlockDownload_now N s) (\<lambda>(r, s'). same_state s s')"
  by (auto simp: IsInitialBlockDownload_now_def Let_def holds_after_if split: option.split)

lemma longer_returns: "holds_after (invalid_is_longer s b) (\<lambda>r. True)"
  using GetBlockProof_Some by (fastforce simp: invalid_is_longer_def split: option.split)

lemma CheckForkWarningConditions_same: "holds_after (CheckForkWarningConditions N s) (same_state s)"
proof -
  have tail: "holds_after (run_bind (if pindexBestForkTip s2 \<noteq> None then returns True
        else (case pindexBestInvalid s2 of None \<Rightarrow> returns False | Some b \<Rightarrow> invalid_is_longer s2 b))
      (\<lambda>warn. returns (if warn
                 then (if pindexBestForkTip s2 \<noteq> None \<and> pindexBestForkBase s2 \<noteq> None
                       then s2\<lparr> fLargeWorkForkFound := True \<rparr> else s2\<lparr> fLargeWorkInvalidChainFound := True \<rparr>)
                 else s2\<lparr> fLargeWorkForkFound := False, fLargeWorkInvalidChainFound := False \<rparr>))) (same_state s)"
    if "same_state s s2" for s2
    using that by (auto simp: holds_after_if split: option.split intro!: holds_after_mono [OF longer_returns])
  have st: "same_state s (case pindexBestForkTip s1 of None \<Rightarrow> s1
      | Some t \<Rightarrow> if Height (chainActive s1) - nHeight (arena s1 ! t) \<ge> 72 then s1\<lparr> pindexBestForkTip := None \<rparr> else s1)"
    if "same_state s s1" for s1
    using that by (simp split: option.split)
  show ?thesis
    unfolding CheckForkWarningConditions_def Let_def holds_after_simps(4) [of "IsInitialBlockDownload_now N s"]
  proof (rule holds_after_mono [OF initial_same], clarify, goal_cases)
    case (1 initial s1)
    then show ?case using tail [OF st [OF 1(2)]] by (simp only: holds_after_simps split: if_split) simp
  qed
qed

lemma InvalidChainFound_same: "holds_after (InvalidChainFound N p s) (same_state s)"
proof -
  have step: "holds_after (CheckForkWarningConditions N s1) (same_state s)" if "same_state s s1" for s1
    by (rule holds_after_mono [OF CheckForkWarningConditions_same]) (use that same_state_trans in blast)
  show ?thesis unfolding InvalidChainFound_def Let_def by (auto intro!: step split: option.split)
qed

lemma reject_to_source_same: "same_state s s' \<Longrightarrow> same_state s (reject_to_source N p state s')"
  by (auto simp: reject_to_source_def Misbehaving_def Let_def split: option.split)

lemma InvalidBlockFound_same:
  "holds_after (InvalidBlockFound N p state s)
    (same_state (if corruptionPossible state then s else erase_candidate N p (or_status p BLOCK_FAILED_VALID s)))"
proof (cases "corruptionPossible state")
  case True
  then show ?thesis by (simp add: InvalidBlockFound_def Let_def reject_to_source_same)
next
  case False
  let ?s = "reject_to_source N p state s"
  have "same_state (erase_candidate N p (or_status p BLOCK_FAILED_VALID s))
      (erase_candidate N p (dirty_block p (or_status p BLOCK_FAILED_VALID ?s)))"
    by (rule same_state_erase) (simp add: same_state_or reject_to_source_same)
  then show ?thesis
    using False
    by (auto simp: InvalidBlockFound_def Let_def intro!: holds_after_mono [OF InvalidChainFound_same] intro: same_state_trans)
qed

lemma lower_to_Some:
  "tree_ok st \<and> p < length st \<Longrightarrow> \<exists>r. lower_to st h (Some p) = Some r \<and> (\<forall>q. r = Some q \<longrightarrow> q < length st)"
proof (induction p rule: forest.forest_induct)
  case (node p)
  have "lower_to st h None = Some None" by (simp add: lower_to.simps)
  then show ?case using node by (subst lower_to.simps) (cases "pprev (st ! p)"; auto)
qed

lemma fork_of_Some:
  "tree_ok st \<and> p < length st \<Longrightarrow> \<forall>q. l = Some q \<longrightarrow> q < length st \<Longrightarrow>
    \<exists>r. fork_of st (Some p) l = Some r \<and> (\<forall>q. r = Some q \<longrightarrow> q < length st)"
proof (induction p arbitrary: l rule: forest.forest_induct)
  case (node p)
  have None: "fork_of st None l = Some None" for l by (simp add: fork_of.simps)
  have "lower_to st h None = Some None" for h by (simp add: lower_to.simps)
  then have "\<exists>r. lower_to st (nHeight (st ! p)) l = Some r \<and> (\<forall>q. r = Some q \<longrightarrow> q < length st)"
    using lower_to_Some [of st _ "nHeight (st ! p)"] node.hyps node.prems by (cases l) simp_all
  then obtain r where r: "lower_to st (nHeight (st ! p)) l = Some r" "\<forall>q. r = Some q \<longrightarrow> q < length st" by blast
  show ?case
  proof (cases "pprev (st ! p)")
    case None
    then show ?thesis using r node.hyps by (subst fork_of.simps) (auto simp: \<open>\<And>l. fork_of st None l = Some None\<close>)
  next
    case (Some q)
    obtain r' where "fork_of st (Some q) r = Some r'" "\<forall>q. r' = Some q \<longrightarrow> q < length st"
      using node.IH [OF Some r(2)] by blast
    then show ?thesis using r node.hyps Some by (subst fork_of.simps) auto
  qed
qed

lemma CheckForkWarningConditionsOnNewFork_same:
  assumes "tree_ok (arena s)" "chain_ok (arena s) (chainActive s)" "t < length (arena s)"
  shows "holds_after (CheckForkWarningConditionsOnNewFork N t s) (same_state s)"
proof -
  have "\<forall>q. tip s = Some q \<longrightarrow> q < length (arena s)" using chain_ok_tip(2) [OF assms(1,2)] by blast
  then obtain r where r: "fork_of (arena s) (Some t) (tip s) = Some r"
    using fork_of_Some [of "arena s" t "tip s"] assms(1,3) by blast
  have step: "holds_after (CheckForkWarningConditions N s1) (same_state s)" if "same_state s s1" for s1
    by (rule holds_after_mono [OF CheckForkWarningConditions_same]) (use that same_state_trans in blast)
  show ?thesis
    unfolding CheckForkWarningConditionsOnNewFork_def
    using GetBlockProof_Some by (auto simp: r intro!: step split: option.split)
qed

lemma mask_raise:
  "(x AND NOT BLOCK_VALID_MASK OR BLOCK_VALID_SCRIPTS) AND BLOCK_FAILED_MASK = (x :: u32) AND BLOCK_FAILED_MASK"
  "(x AND NOT BLOCK_VALID_MASK OR BLOCK_VALID_SCRIPTS) AND BLOCK_HAVE_DATA = x AND BLOCK_HAVE_DATA"
  "(x AND NOT BLOCK_VALID_MASK OR BLOCK_VALID_SCRIPTS) AND BLOCK_VALID_MASK = BLOCK_VALID_SCRIPTS"
  "(x OR BLOCK_HAVE_UNDO) AND BLOCK_FAILED_MASK = x AND BLOCK_FAILED_MASK"
  "(x OR BLOCK_HAVE_UNDO) AND BLOCK_HAVE_DATA = x AND BLOCK_HAVE_DATA"
  "(x OR BLOCK_HAVE_UNDO) AND BLOCK_VALID_MASK = x AND BLOCK_VALID_MASK"
  by (simp_all add: bit.conj_disj_distrib2 and.assoc BLOCK_FAILED_VALID_def BLOCK_FAILED_CHILD_def BLOCK_FAILED_MASK_def
      BLOCK_HAVE_DATA_def BLOCK_VALID_MASK_def BLOCK_VALID_SCRIPTS_def BLOCK_HAVE_UNDO_def)

text \<open>An entry that connecting has touched: nothing of its place in the tree and of its failure changes.\<close>

definition touched :: "CBlockIndex \<Rightarrow> CBlockIndex \<Rightarrow> bool" where
  "touched b b' \<longleftrightarrow> core b' = core b \<and> fFailedChain b' = fFailedChain b \<and> fMissingData b' = fMissingData b
     \<and> level b \<le> level b'"

lemma touched_raise:
  assumes "core b1 = core b" "nStatus b1 = nStatus b \<or> nStatus b1 = nStatus b OR BLOCK_HAVE_UNDO"
  shows "touched b b1" "touched b (snd (RaiseValidity BLOCK_VALID_SCRIPTS b1))"
    "\<not> fFailedChain b \<Longrightarrow> BLOCK_VALID_SCRIPTS \<le> level (snd (RaiseValidity BLOCK_VALID_SCRIPTS b1))"
proof -
  let ?b2 = "snd (RaiseValidity BLOCK_VALID_SCRIPTS b1)"
  have b1: "fFailedChain b1 = fFailedChain b" "fMissingData b1 = fMissingData b" "level b1 = level b"
    using assms(2) by (auto simp: fFailedChain_def fMissingData_def level_def mask_raise)
  have b2: "core ?b2 = core b1" "fFailedChain ?b2 = fFailedChain b1" "fMissingData ?b2 = fMissingData b1"
    "level ?b2 = (if fFailedChain b1 then level b1 else max (level b1) BLOCK_VALID_SCRIPTS)"
    by (auto simp: RaiseValidity_def core_def fFailedChain_def fMissingData_def level_def mask_raise max_def)
  show "touched b b1" "touched b ?b2" "\<not> fFailedChain b \<Longrightarrow> BLOCK_VALID_SCRIPTS \<le> level ?b2"
    using assms(1) b1 b2 by (auto simp: touched_def)
qed

lemma touched_refl [simp]: "touched b b" by (simp add: touched_def)

lemma touched_grows: "touched (st ! p) e \<Longrightarrow> evolves st (st[p := e])"
  by (cases "p < length st") (auto simp: evolves_def touched_def status_grows_def map_update nth_list_update
    list_update_beyond intro!: nth_equalityI [of "map core st"])

text \<open>What the model takes from the part that counts the supply of zerocoins: it writes only its own
  fields of an entry.\<close>

definition env_ok :: "('p, 's, 'r, 'b, 'z, 'd, 'e) node_env \<Rightarrow> bool" where
  "env_ok N \<longleftrightarrow> (\<forall>block p s e. let e' = snd (be_UpdateZZNNSupply (snd (ne_connect N block p s)) e) in
     core e' = core e \<and> nStatus e' = nStatus e)"

lemma connect_totals_entry:
  assumes "connect_totals ec P T B block e s = Inr (r, e')"
    and "\<And>e. core (snd (be_UpdateZZNNSupply B e)) = core e \<and> nStatus (snd (be_UpdateZZNNSupply B e)) = nStatus e"
  shows "core e' = core e \<and> nStatus e' = nStatus e"
proof -
  obtain b e1 where u: "be_UpdateZZNNSupply B e = (b, e1)" by (cases "be_UpdateZZNNSupply B e")
  then have e1: "core e1 = core e" "nStatus e1 = nStatus e" using assms(2) [of e] by simp_all
  have "\<exists>m n. e' = e1 \<or> e' = e1\<lparr> nMoneySupply := m, nMint := n \<rparr>"
    using assms(1) u by (auto simp: connect_totals_def Let_def split: bool.splits option.splits sum.splits if_splits)
  then show ?thesis using e1 by (auto simp: core_def)
qed

lemma ConnectBlock_checks_entry:
  assumes "ConnectBlock_checks ec sph V P T E B block st p c chk = Inr ((ok, l), e, genesis)"
    and "\<And>e. core (snd (be_UpdateZZNNSupply B e)) = core e \<and> nStatus (snd (be_UpdateZZNNSupply B e)) = nStatus e"
  shows "core e = core (bt_arena T ! p) \<and> nStatus e = nStatus (bt_arena T ! p) \<and>
    (genesis \<longrightarrow> header_GetHash sph block = be_hashGenesisBlock B)"
proof -
  have "e = bt_arena T ! p \<and> \<not> genesis \<or>
      (e = bt_arena T ! p \<and> header_GetHash sph block = be_hashGenesisBlock B) \<or>
      (\<exists>s1. connect_totals ec P T B block (bt_arena T ! p) s1 = Inr ((ok, l), e) \<and> \<not> genesis)"
    using assms(1) unfolding ConnectBlock_checks_def Let_def
    by (auto simp: map_sum_Inr split: bool.splits prod.splits sum.splits if_splits)
  then show ?thesis using connect_totals_entry [OF _ assms(2), of ec P T block "bt_arena T ! p"] by blast
qed

lemma FindUndoPos_same:
  "holds_after (FindUndoPos N state f n s) (\<lambda>((ok, st'), pos, s'). same_state s s' \<and> nd_tree s' = nd_tree s
    \<and> (\<not> ok \<longrightarrow> \<not> vs_IsInvalid st'))"
  by (auto simp: FindUndoPos_def Let_def holds_after_if Error_def vs_IsInvalid_def)

lemma ConnectBlock_store_entry:
  assumes "ConnectBlock_store ec magic found T p e l files = Some (view, T', files')"
    "core e = core (bt_arena T ! p)" "nStatus e = nStatus (bt_arena T ! p)"
  shows "\<exists>e'. bt_arena T' = (bt_arena T)[p := e'] \<and> touched (bt_arena T ! p) e' \<and>
    (\<not> fFailedChain (bt_arena T ! p) \<longrightarrow> BLOCK_VALID_SCRIPTS \<le> level e')"
proof -
  let ?b = "bt_arena T ! p"
  let ?u = "\<lambda>pos. e\<lparr> nUndoPos := pos, nStatus := nStatus e OR BLOCK_HAVE_UNDO \<rparr>"
  have t: "touched ?b e" "touched ?b (snd (RaiseValidity BLOCK_VALID_SCRIPTS e))"
    "\<not> fFailedChain ?b \<Longrightarrow> BLOCK_VALID_SCRIPTS \<le> level (snd (RaiseValidity BLOCK_VALID_SCRIPTS e))"
    "touched ?b (snd (RaiseValidity BLOCK_VALID_SCRIPTS (?u pos)))"
    "\<not> fFailedChain ?b \<Longrightarrow> BLOCK_VALID_SCRIPTS \<le> level (snd (RaiseValidity BLOCK_VALID_SCRIPTS (?u pos)))" for pos
    using touched_raise [of e ?b] touched_raise [of "?u pos" ?b] assms(2,3) by (simp_all add: core_def)
  have "IsValid BLOCK_VALID_SCRIPTS e \<Longrightarrow> BLOCK_VALID_SCRIPTS \<le> level e"
    by (simp add: IsValid_def level_def split: if_splits)
  then show ?thesis
    using assms(1) t by (auto simp: ConnectBlock_store_def Let_def split: if_splits option.splits)
qed

text \<open>What connecting leaves: an updated entry, and on success one that is fully validated, unless it is the
  genesis block, for which \<open>ConnectBlock\<close> returns early.\<close>

definition entry_after :: "('p, 's, 'r, 'b, 'z, 'd, 'e) node_env \<Rightarrow> CBlock \<Rightarrow> ptr \<Rightarrow> ('b, 'z, 'd, 'e) node \<Rightarrow> bool
    \<Rightarrow> ('b, 'z, 'd, 'e) node \<Rightarrow> bool" where
  "entry_after N block p s ok s' \<longleftrightarrow> (\<exists>e. touched (arena s ! p) e \<and> same_state (set_arena ((arena s)[p := e]) s) s' \<and>
      (ok \<longrightarrow> \<not> fFailedChain (arena s ! p) \<longrightarrow> header_GetHash (ne_sph N) block \<noteq> ne_HashGenesisBlock N \<longrightarrow>
        BLOCK_VALID_SCRIPTS \<le> level e))"

lemma entry_after_same: "entry_after N block p s ok s1 \<Longrightarrow> same_state s1 s2 \<Longrightarrow> entry_after N block p s ok s2"
  unfolding entry_after_def using same_state_trans by blast

lemma entry_after_False: "entry_after N block p s ok s1 \<Longrightarrow> entry_after N block p s b s1 \<or> b"
  by (auto simp: entry_after_def)

lemma Abort_False [simp]: "fst (Abort msg st) = False" "\<not> vs_IsInvalid (snd (Abort msg st))"
  by (simp_all add: Abort_def Error_def vs_IsInvalid_def)

lemma ConnectBlock_write_same: "same_state s (snd (ConnectBlock_write N block p l st s))"
  by (auto simp: ConnectBlock_write_def Let_def split: prod.split)

lemma ConnectBlock_after:
  assumes "env_ok N" "p < length (arena s)"
  shows "holds_after (ConnectBlock N block state p view chk s) (\<lambda>((ok, state'), view', s'). entry_after N block p s ok s')"
proof -
  obtain E B where env: "connect_answers N block p s = (E, B)" by (cases "connect_answers N block p s")
  have B: "core (snd (be_UpdateZZNNSupply B e)) = core e \<and> nStatus (snd (be_UpdateZZNNSupply B e)) = nStatus e"
    "be_hashGenesisBlock B = ne_HashGenesisBlock N" for e
    using assms(1) [unfolded env_ok_def Let_def, rule_format, of block p s e] env
    by (auto simp: connect_answers_def split: prod.splits)
  show ?thesis
  proof (cases "ConnectBlock_checks (ne_ec N) (ne_sph N) (cache_view (ne_V N)) (ne_P N) (nd_tree s) E B block state p view chk")
    case (Inl e)
    then show ?thesis by (simp add: ConnectBlock_def env)
  next
    case (Inr r)
    obtain ok l e genesis where r: "r = ((ok, l), e, genesis)" by (metis prod_cases3 surj_pair)
    note chk = ConnectBlock_checks_entry [OF Inr [unfolded r] B(1)]
    let ?s = "set_arena ((arena s)[p := e]) s"
    have te: "touched (arena s ! p) e" using chk touched_raise(1) by blast
    have before: "entry_after N block p s False s1" if "same_state ?s s1" for s1
      using te that by (auto simp: entry_after_def)
    have store: "entry_after N block p s b (s1\<lparr> nd_tree := tree, nd_undo := files \<rparr>)"
      if s1: "same_state ?s s1" "nd_tree s1 = nd_tree ?s"
        and st: "ConnectBlock_store (ne_ec N) (ne_MessageStart N) (Some pos) (nd_tree s1) p e l u = Some (v, tree, files)"
      for b pos s1 u v tree files
    proof -
      have at: "bt_arena (nd_tree s1) ! p = e" using s1(2) assms(2) by simp
      obtain e' where e': "bt_arena tree = (arena s)[p := e']" "touched e e'"
        "\<not> fFailedChain e \<longrightarrow> BLOCK_VALID_SCRIPTS \<le> level e'"
        using ConnectBlock_store_entry [OF st] at s1(2) by auto
      have "touched (arena s ! p) e'" using te e'(2) order_trans by (auto simp: touched_def)
      moreover have "same_state (set_arena ((arena s)[p := e']) s) (s1\<lparr> nd_tree := tree, nd_undo := files \<rparr>)"
        using s1(1) e'(1) by (simp add: same_state_def)
      ultimately show ?thesis using e'(3) te unfolding entry_after_def by (auto simp: touched_def)
    qed
    have found: "holds_after (if c then FindUndoPos N (cs_state l) f n ?s
          else returns ((True, cs_state l), CDiskBlockPos_null, ?s))
        (\<lambda>((ok, st'), pos, s'). same_state ?s s' \<and> nd_tree s' = nd_tree ?s)" for c f n
      by (auto simp: holds_after_if intro!: holds_after_mono [OF FindUndoPos_same])
    show ?thesis
    proof (cases "\<not> ok \<or> genesis")
      case True
      then have "entry_after N block p s ok ?s" using te chk B(2) by (auto simp: entry_after_def)
      then show ?thesis using True Inr r by (simp add: ConnectBlock_def env)
    next
      case False
      have tail: "holds_after (if \<not> fnd then returns ((False, st1), cs_view l, s1)
                else (case ConnectBlock_store (ne_ec N) (ne_MessageStart N) (Some pos) (nd_tree s1) p e l (nd_undo s1) of
                    None \<Rightarrow> returns (Abort ''Failed to write undo data'' st1, cs_view l, s1)
                  | Some (view, tree, files) \<Rightarrow>
                      (case ConnectBlock_write N block p l st1 (s1\<lparr> nd_tree := tree, nd_undo := files \<rparr>) of
                         (r, s) \<Rightarrow> returns (r, view, s))))
            (\<lambda>((ok, state'), view', s'). entry_after N block p s ok s')"
        if s1: "same_state ?s s1" "nd_tree s1 = nd_tree ?s" for fnd st1 pos s1
      proof (cases "ConnectBlock_store (ne_ec N) (ne_MessageStart N) (Some pos) (nd_tree s1) p e l (nd_undo s1)")
        case None
        then show ?thesis using before [OF s1(1)] by (cases "Abort ''Failed to write undo data'' st1")
          (auto simp: Abort_def Error_def)
      next
        case (Some w)
        obtain v tree files where w: "w = (v, tree, files)" by (metis prod_cases3)
        obtain r s2 where wr: "ConnectBlock_write N block p l st1 (s1\<lparr> nd_tree := tree, nd_undo := files \<rparr>) = (r, s2)"
          by (cases "ConnectBlock_write N block p l st1 (s1\<lparr> nd_tree := tree, nd_undo := files \<rparr>)")
        then have "entry_after N block p s (fst r) s2"
          using entry_after_same [OF store [OF s1 Some [unfolded w]]] ConnectBlock_write_same by (metis snd_conv)
        then show ?thesis using before [OF s1(1)] Some w wr by (cases r) simp
      qed
      show ?thesis
        unfolding ConnectBlock_def env prod.case Inr r sum.case
        unfolding Let_def if_not_P [OF False] holds_after_simps(4)
      proof (rule holds_after_mono [OF found], goal_cases)
        case (1 x)
        obtain fnd st1 pos s1 where x: "x = ((fnd, st1), pos, s1)" by (metis prod_cases3 surj_pair)
        then show ?case using tail [of s1 fnd st1 pos] 1(2) by simp
      qed
    qed
  qed
qed

lemma FlushStateToDisk_law:
  "holds_after (FlushStateToDisk N state m s) (\<lambda>((ok, st'), s'). same_state s s' \<and> (\<not> ok \<longrightarrow> \<not> vs_IsInvalid st'))"
  by (auto simp: FlushStateToDisk_def same_state_def Let_def holds_after_if Abort_def Error_def vs_IsInvalid_def
      split: option.split prod.split)

lemma same_state_arena: "same_state s s' \<Longrightarrow> arena s' = arena s" "same_state s s' \<Longrightarrow> chainActive s' = chainActive s"
  by (simp_all add: same_state_def)

lemma UpdateTip_law:
  assumes "tree_ok (arena s)" "chain_ok (arena s) (chainActive s)" "\<forall>q. p = Some q \<longrightarrow> q < length (arena s)"
  shows "holds_after (UpdateTip N p s) (same_state (s\<lparr> chainActive := chain_of (arena s) p \<rparr>))"
proof -
  let ?s = "s\<lparr> chainActive := chain_of (arena s) p, nd_mempool := AddTransactionsUpdated 1 (nd_mempool s) \<rparr>"
  have "holds_after (IsInitialBlockDownload_now N ?s)
      (\<lambda>(r, s'). same_state (s\<lparr> chainActive := chain_of (arena s) p \<rparr>) s')"
    by (rule holds_after_mono [OF initial_same]) (auto simp: same_state_def)
  then show ?thesis
    using SetTip_eq [OF assms] by (simp add: UpdateTip_def holds_after_if case_prod_beta')
qed

lemma same_state_chain: "same_state s s' \<Longrightarrow> same_state (s\<lparr> chainActive := ch \<rparr>) (s'\<lparr> chainActive := ch \<rparr>)"
  by (simp add: same_state_def)

lemma DisconnectTip_law:
  assumes "tree_ok (arena s)" "chain_ok (arena s) (chainActive s)"
  shows "holds_after (DisconnectTip N state s) (\<lambda>((ok, state'), s'). \<exists>t. tip s = Some t \<and>
    same_state (if ok then s\<lparr> chainActive := chain_of (arena s) (pprev (arena s ! t)) \<rparr> else s) s')"
proof (cases "tip s")
  case None
  then show ?thesis by (simp add: DisconnectTip_def)
next
  case (Some t)
  have t: "t < length (arena s)" using chain_ok_tip(2) [OF assms Some] by simp
  then have q: "\<forall>q. pprev (arena s ! t) = Some q \<longrightarrow> q < length (arena s)" using parent_in [OF assms(1)] by blast
  have tail: "holds_after (run_bind (resurrect N txs s1) (\<lambda>s.
        case removeCoinbaseSpends (ne_V N) (ne_P N) (word_of_int (nHeight (arena s ! t))) (nd_mempool s) (pcoinsTip s) of
          None \<Rightarrow> crash Out_of_range
        | Some (pool, c) \<Rightarrow> run_bind (UpdateTip N (pprev (arena s ! t)) (s\<lparr> nd_mempool := pool, pcoinsTip := c \<rparr>))
            (\<lambda>s. returns ((True, st1), s))))
      (\<lambda>((ok, state'), s'). same_state (if ok then s\<lparr> chainActive := chain_of (arena s) (pprev (arena s ! t)) \<rparr> else s) s')"
    if s1: "same_state s s1" for txs s1 st1
    unfolding holds_after_simps
  proof (rule holds_after_mono [OF resurrect_same], goal_cases)
    case (1 s2)
    then have s2: "same_state s s2" using s1 same_state_trans by blast
    have "holds_after (UpdateTip N (pprev (arena s2 ! t)) (s2\<lparr> nd_mempool := pool, pcoinsTip := c \<rparr>))
        (\<lambda>s'. same_state (s\<lparr> chainActive := chain_of (arena s) (pprev (arena s ! t)) \<rparr>) s')" for pool c
    proof (rule holds_after_mono [OF UpdateTip_law], goal_cases)
      case (4 s3)
      have "same_state (s\<lparr> chainActive := chain_of (arena s) (pprev (arena s ! t)) \<rparr>)
          (s2\<lparr> nd_mempool := pool, pcoinsTip := c, chainActive := chain_of (arena s) (pprev (arena s ! t)) \<rparr>)"
        using s2 by (simp add: same_state_def)
      then show ?case using 4(2) same_state_trans same_state_arena(1) [OF s2] by simp
    qed (use assms q same_state_arena [OF s2] in simp_all)
    then show ?case by (auto split: option.split)
  qed
  have flush: "holds_after (run_bind (flush_view N v s1) (\<lambda>s. run_bind (FlushStateToDisk N state FLUSH_STATE_ALWAYS s) (\<lambda>((ok, state), s).
        if \<not> ok then returns ((False, state), s)
        else run_bind (resurrect N txs s) (\<lambda>s.
          case removeCoinbaseSpends (ne_V N) (ne_P N) (word_of_int (nHeight (arena s ! t))) (nd_mempool s) (pcoinsTip s) of
            None \<Rightarrow> crash Out_of_range
          | Some (pool, c) \<Rightarrow> run_bind (UpdateTip N (pprev (arena s ! t)) (s\<lparr> nd_mempool := pool, pcoinsTip := c \<rparr>))
              (\<lambda>s. returns ((True, state), s))))))
      (\<lambda>((ok, state'), s'). same_state (if ok then s\<lparr> chainActive := chain_of (arena s) (pprev (arena s ! t)) \<rparr> else s) s')"
    if s1: "same_state s s1" for v txs s1
    unfolding holds_after_simps(4) [of "flush_view N v s1"]
  proof (rule holds_after_mono [OF flush_view_same], goal_cases)
    case (1 s2)
    then have s2: "same_state s s2" using s1 same_state_trans by blast
    show ?case
      unfolding holds_after_simps(4) [of "FlushStateToDisk N state FLUSH_STATE_ALWAYS s2"]
    proof (rule holds_after_mono [OF FlushStateToDisk_law], goal_cases)
      case (1 x)
      obtain ok st3 s3 where x: "x = ((ok, st3), s3)" by (metis surj_pair)
      then have "same_state s s3" using 1(2) s2 same_state_trans by auto
      then show ?case using tail [of s3 txs st3] x by (cases ok) (simp_all only: prod.case if_True if_False simp_thms holds_after_simps(3))
    qed
  qed
  have "holds_after (DisconnectTip N state s)
      (\<lambda>((ok, state'), s'). same_state (if ok then s\<lparr> chainActive := chain_of (arena s) (pprev (arena s ! t)) \<rparr> else s) s')"
  proof (cases "ReadBlockFromDisk N (arena s ! t)")
    case None
    then show ?thesis using Some by (cases "Abort ''Failed to read block'' state") (simp add: DisconnectTip_def Abort_def Error_def)
  next
    case (Some block)
    show ?thesis
    proof (cases "DisconnectBlock (ne_ec N) (cache_view (ne_V N)) (ne_Z N) (arena s) (nd_undo s) (ne_fVerifyingBlocks N)
        block t False (CCoinsViewCache_of (pcoinsTip s)) (nd_zerocoinDB s)")
      case (Inr r)
      obtain ok clean d where "r = ((ok, clean), d)" by (metis surj_pair)
      then show ?thesis
        using Some Inr \<open>tip s = Some t\<close> flush [of "s\<lparr> nd_zerocoinDB := ds_db d, pcoinsTip := base (ds_view d) \<rparr>" "ds_view d" "vtx block"]
        by (cases ok) (simp_all add: DisconnectTip_def Let_def del: holds_after_simps(4))
    qed (use Some \<open>tip s = Some t\<close> in \<open>simp add: DisconnectTip_def\<close>)
  qed
  then show ?thesis by (rule holds_after_mono) (use Some in auto)
qed

text \<open>What \<open>ConnectTip\<close> leaves: on success the block is the tip; when the block is invalid it is marked and no
  candidate any more, unless its data may be corrupt.\<close>

definition connected :: "('p, 's, 'r, 'b, 'z, 'd, 'e) node_env \<Rightarrow> ptr \<Rightarrow> ('b, 'z, 'd, 'e) node \<Rightarrow> bool \<Rightarrow> CValidationState
    \<Rightarrow> ('b, 'z, 'd, 'e) node \<Rightarrow> bool" where
  "connected N p s ok st' s' \<longleftrightarrow> (\<exists>e. touched (arena s ! p) e \<and>
     (let s1 = set_arena ((arena s)[p := e]) s in
      if ok then same_state (s1\<lparr> chainActive := path_to (arena s) p \<rparr>) s' \<and>
        (pprev (arena s ! p) \<noteq> None \<longrightarrow> \<not> fFailedChain (arena s ! p) \<longrightarrow> BLOCK_VALID_SCRIPTS \<le> level e)
      else same_state (if vs_IsInvalid st' \<and> \<not> corruptionPossible st'
        then erase_candidate N p (or_status p BLOCK_FAILED_VALID s1) else s1) s'))"

lemma path_to_grows: "evolves st st' \<Longrightarrow> tree_ok st \<Longrightarrow> p < length st \<Longrightarrow> path_to st' p = path_to st p"
  by (simp add: path_to_def evolves_lineage)

lemma connected_failed:
  assumes "entry_after N block p s False s1"
  shows "holds_after (run_bind (if vs_IsInvalid st' then InvalidBlockFound N p st' (s1\<lparr> pcoinsTip := c \<rparr>)
          else returns (s1\<lparr> pcoinsTip := c \<rparr>)) (\<lambda>s'. returns ((False, st'), s')))
    (\<lambda>((ok, st'), s'). connected N p s ok st' s')"
proof -
  obtain e where e: "touched (arena s ! p) e" "same_state (set_arena ((arena s)[p := e]) s) s1"
    using assms by (auto simp: entry_after_def)
  let ?s1 = "set_arena ((arena s)[p := e]) s" and ?c = "s1\<lparr> pcoinsTip := c \<rparr>"
  have c: "same_state ?s1 ?c" using e(2) by simp
  have bad: "same_state (erase_candidate N p (or_status p BLOCK_FAILED_VALID ?s1))
      (erase_candidate N p (or_status p BLOCK_FAILED_VALID ?c))"
    using c by (intro same_state_erase same_state_or)
  have "connected N p s False st' x"
    if "same_state (if vs_IsInvalid st' \<and> \<not> corruptionPossible st'
        then erase_candidate N p (or_status p BLOCK_FAILED_VALID ?c) else ?c) x" for x
  proof -
    have "same_state (if vs_IsInvalid st' \<and> \<not> corruptionPossible st'
        then erase_candidate N p (or_status p BLOCK_FAILED_VALID ?s1) else ?s1) x"
    proof (cases "vs_IsInvalid st' \<and> \<not> corruptionPossible st'")
      case True
      from that have "same_state (erase_candidate N p (or_status p BLOCK_FAILED_VALID ?c)) x" by (simp only: if_P [OF True])
      from same_state_trans [OF bad this] show ?thesis by (simp only: if_P [OF True])
    next
      case False
      from that have "same_state ?c x" by (simp only: if_not_P [OF False])
      from same_state_trans [OF c this] show ?thesis by (simp only: if_not_P [OF False])
    qed
    then show ?thesis using e(1) unfolding connected_def Let_def by (intro exI [of _ e]) (simp only: if_False simp_thms)
  qed
  then show ?thesis
    by (auto simp: holds_after_if intro!: holds_after_mono [OF InvalidBlockFound_same] split: if_splits)
qed

lemma connected_finish:
  assumes "tree_ok (arena s)" "chain_ok (arena s) (chainActive s)" "p < length (arena s)"
    and e: "touched (arena s ! p) e" "same_state (set_arena ((arena s)[p := e]) s) s1"
    and v: "pprev (arena s ! p) \<noteq> None \<longrightarrow> \<not> fFailedChain (arena s ! p) \<longrightarrow> BLOCK_VALID_SCRIPTS \<le> level e"
  shows "holds_after (run_bind (FlushStateToDisk N st1 m s1) (\<lambda>((ok, state), s).
      if \<not> ok then returns ((False, state), s)
      else (case removeForBlock (ne_seenBlock N) txs (word_of_int (nHeight (arena s ! p))) (nd_mempool s) [] of
          None \<Rightarrow> crash Out_of_range
        | Some (pool, txConflicted) \<Rightarrow>
            run_bind (UpdateTip N (Some p) (s\<lparr> nd_mempool := pool \<rparr>)) (\<lambda>s. returns ((True, state), s)))))
    (\<lambda>((ok, st'), s'). connected N p s ok st' s')"
  unfolding holds_after_simps(4) [of "FlushStateToDisk N st1 m s1"]
proof (rule holds_after_mono [OF FlushStateToDisk_law], goal_cases)
  case (1 x)
  let ?st = "(arena s)[p := e]"
  obtain ok st2 s2 where x: "x = ((ok, st2), s2)" by (metis surj_pair)
  then have s2: "same_state (set_arena ?st s) s2" "\<not> ok \<Longrightarrow> \<not> vs_IsInvalid st2" using 1(2) e(2) same_state_trans by auto
  have g: "evolves (arena s) ?st" using e(1) by (rule touched_grows)
  have "holds_after (UpdateTip N (Some p) (s2\<lparr> nd_mempool := pool \<rparr>))
      (\<lambda>s'. same_state ((set_arena ?st s)\<lparr> chainActive := path_to (arena s) p \<rparr>) s')" for pool
  proof (rule holds_after_mono [OF UpdateTip_law], goal_cases)
    case (4 s3)
    have "same_state ((set_arena ?st s)\<lparr> chainActive := path_to (arena s) p \<rparr>)
        (s2\<lparr> nd_mempool := pool, chainActive := chain_of ?st (Some p) \<rparr>)"
      using s2(1) path_to_grows [OF g assms(1,3)] by (simp add: same_state_def chain_of_def)
    then show ?case using 4(2) same_state_trans same_state_arena(1) [OF s2(1)] by simp
  qed (use assms(3) evolves_tree_ok [OF g assms(1)] evolves_chain_ok [OF g assms(1,2)] same_state_arena [OF s2(1)] in simp_all)
  then have fin: "holds_after (UpdateTip N (Some p) (s2\<lparr> nd_mempool := pool \<rparr>)) (connected N p s True st2)" for pool
    by (rule holds_after_mono) (use e(1) v in \<open>auto simp: connected_def Let_def\<close>)
  have "connected N p s False st2 s2" if "\<not> ok"
    using s2 e(1) that by (auto simp: connected_def Let_def)
  then show ?case using x fin by (cases ok) (auto split: option.split)
qed

lemma ReadBlockFromDisk_hash: "ReadBlockFromDisk N e = Some b \<Longrightarrow> header_GetHash (ne_sph N) b = bi_hash e"
  by (auto simp: ReadBlockFromDisk_def split: option.splits if_splits)

lemma ConnectTip_law:
  assumes "env_ok N" "tree_ok (arena s)" "chain_ok (arena s) (chainActive s)" "p < length (arena s)"
    and hash: "\<forall>b. pblock = Some b \<longrightarrow> header_GetHash (ne_sph N) b = bi_hash (arena s ! p)"
    and root: "bi_hash (arena s ! p) = ne_HashGenesisBlock N \<longrightarrow> pprev (arena s ! p) = None"
  shows "holds_after (ConnectTip N state p pblock chk s)
    (\<lambda>((ok, st'), s'). pprev (arena s ! p) = tip s \<and> connected N p s ok st' s')"
proof (cases "pprev (arena s ! p) = tip s")
  case False
  then show ?thesis by (simp add: ConnectTip_def)
next
  case True
  let ?b = "case pblock of None \<Rightarrow> ReadBlockFromDisk N (arena s ! p) | Some block \<Rightarrow> Some block"
  show ?thesis
  proof (cases ?b)
    case None
    have "connected N p s False (snd (Abort ''Failed to read block'' state)) s"
      by (simp add: connected_def Let_def exI [of _ "arena s ! p"] same_state_def)
    then show ?thesis
      unfolding ConnectTip_def tip_of_tip run_bind_simps None using True by (simp add: Abort_def Error_def)
  next
    case (Some block)
    then have h: "header_GetHash (ne_sph N) block = bi_hash (arena s ! p)"
      using hash ReadBlockFromDisk_hash by (auto split: option.splits)
    have "holds_after (ConnectTip N state p pblock chk s) (\<lambda>((ok, st'), s'). connected N p s ok st' s')"
      unfolding ConnectTip_def tip_of_tip run_bind_simps Some option.case if_not_P [OF not_not [THEN iffD2, OF True]]
        holds_after_simps(4) [of "ConnectBlock N block state p (CCoinsViewCache_of (pcoinsTip s)) (chk \<and> pblock \<noteq> None) s"]
    proof (rule holds_after_mono [OF ConnectBlock_after [OF assms(1,4)]], goal_cases)
      case (1 x)
      obtain ok st1 view s1 where x: "x = ((ok, st1), view, s1)" by (metis prod_cases3 surj_pair)
      then have ea: "entry_after N block p s ok s1" using 1(2) by simp
      show ?case
      proof (cases ok)
        case False
        then show ?thesis using connected_failed [of N block p s s1 st1 "base view"] ea x
          by (simp add: Let_def del: holds_after_simps(4))
      next
        case True
        obtain e where e: "touched (arena s ! p) e" "same_state (set_arena ((arena s)[p := e]) s) s1"
          "pprev (arena s ! p) \<noteq> None \<longrightarrow> \<not> fFailedChain (arena s ! p) \<longrightarrow> BLOCK_VALID_SCRIPTS \<le> level e"
          using ea True root h by (auto simp: entry_after_def)
        let ?s = "s1\<lparr> mapBlockSource := (mapBlockSource s1)(bi_hash (arena s1 ! p) := None) \<rparr>"
        have s: "same_state (set_arena ((arena s)[p := e]) s) ?s" using e(2) by simp
        show ?thesis
          unfolding x prod.case if_not_P [OF not_not [THEN iffD2, OF True]] holds_after_simps(4) [of "flush_view N view ?s"]
        proof (rule holds_after_mono [OF flush_view_same], goal_cases)
          case (1 s2)
          show ?case by (rule connected_finish [OF assms(2-4) e(1) same_state_trans [OF s 1(2)] e(3)])
        qed
      qed
    qed
    then show ?thesis by (rule holds_after_mono) (use True in auto)
  qed
qed


section \<open>The best candidate\<close>


text \<open>A node with a genesis block and two blocks after it, of which the one with more work has failed.\<close>

definition sample_env :: "(bytes, bytes, unit, CCoinsViewDB, unit, unit, unit) node_env" where
  "sample_env = \<lparr> ne_ec = diagonal_secp, ne_sph = zero_sph, ne_V = db_view diagonal_secp, ne_P = CMainParams,
     ne_Z = no_zerocoin_db, ne_MessageStart = [0xb1, 0x3b, 0x2d, 0xf6], ne_address = id, ne_iteration = (\<lambda>T. [0..<length (bt_arena T)]),
     ne_connect = (\<lambda>block p s. (quiet_env, quiet_block_env)), ne_block_file = (\<lambda>pos. None), ne_CheckDiskSpace = (\<lambda>n. True),
     ne_nCoinCacheSize = 5000, ne_flush_period_over = False, ne_WriteBatchSync = True,
     ne_WriteCoinSpendBatch = (\<lambda>xs z. (True, z)), ne_WriteCoinMintBatch = (\<lambda>xs z. (True, z)),
     ne_DatabaseChecksums = (\<lambda>b p z. z), ne_fTxIndex = False, ne_WriteTxIndex = (\<lambda>xs. True), ne_seenBlock = (\<lambda>es h f e. e),
     ne_AcceptToMemoryPool = (\<lambda>tx pool c. (False, pool, c)), ne_fVerifyingBlocks = False, ne_importing = False,
     ne_TotalBlocksEstimate = 0, ne_HashGenesisBlock = [], ne_GetTime = 0, ne_nMaxTipAge = 0, ne_banscore = 100 \<rparr>"

definition fork_entry :: "int \<Rightarrow> ptr option \<Rightarrow> limbs \<Rightarrow> u32 \<Rightarrow> CBlockIndex" where
  "fork_entry h prev work status = (CBlockIndex_null None)\<lparr> pprev := prev, pskip := prev, nHeight := h,
     nChainWork := work, nTx := 1, nChainTx := 1, nStatus := status \<rparr>"

definition fork_arena :: arena where
  "fork_arena = [fork_entry 0 None [1, 0, 0, 0, 0, 0, 0, 0] 13, fork_entry 1 (Some 0) [3, 0, 0, 0, 0, 0, 0, 0] 45,
     fork_entry 1 (Some 0) [2, 0, 0, 0, 0, 0, 0, 0] 11]"

definition node_of :: "arena \<Rightarrow> CChain \<Rightarrow> ptr list \<Rightarrow> (CCoinsViewDB, unit, unit, unit) node" where
  "node_of st ch cands = \<lparr> nd_tree = \<lparr> bt_arena = st, mapBlockIndex = (\<lambda>h. None), pindexBestHeader = Some 0,
       setDirtyBlockIndex = [], mapProofOfStake = (\<lambda>h. None) \<rparr>,
     chainActive = ch, setBlockIndexCandidates = cands, mapBlocksUnlinked = [], pindexBestInvalid = None,
     nBlockSequenceId = 1, mapBlockSource = (\<lambda>h. None), mapNodeState = (\<lambda>n. None), pindexBestForkTip = None,
     pindexBestForkBase = None, fLargeWorkForkFound = False, fLargeWorkInvalidChainFound = False, lockIBDState = False,
     pcoinsTip = empty_tip, nd_mempool = CTxMemPool_of () \<lparr> nSatoshisPerK = 1 \<rparr>, nd_undo = (\<lambda>f. []), nd_zerocoinDB = (),
     vinfoBlockFile = [CBlockFileInfo_new], nLastBlockFile = 0, setDirtyFileInfo = [] \<rparr>"

lemma node_of_simps [simp]:
  "bt_arena (nd_tree (node_of st ch cands)) = st" "chainActive (node_of st ch cands) = ch"
  "setBlockIndexCandidates (node_of st ch cands) = cands"
  by (simp_all add: node_of_def)

lemma fork_arena_tree: "tree_ok fork_arena"
  by (simp add: tree_ok_def node_ok_def fork_arena_def fork_entry_def CBlockIndex_null_def less_Suc_eq GetSkipHeight_def)

lemma fork_arena_facts: "tree_facts sample_env fork_arena"
  using fork_arena_tree
  by (simp add: tree_facts_def sample_env_def)
    (simp add: works_ok_def fork_arena_def fork_entry_def less_Suc_eq pn_val_def fMissingData_def level_def
      BLOCK_HAVE_DATA_def BLOCK_VALID_MASK_def BLOCK_VALID_TRANSACTIONS_def)

lemma fork_order: "CBlockIndexWorkComparator id fork_arena 0 2" "CBlockIndexWorkComparator id fork_arena 2 1"
    "CBlockIndexWorkComparator id fork_arena 0 1" "\<not> CBlockIndexWorkComparator id fork_arena 2 0"
  by code_simp+

lemma fork_node_ok: "state_ok sample_env (node_of fork_arena [Some 0] [0, 2, 1])"
proof -
  have "path_to fork_arena 0 = [Some 0]" by (simp add: path_to_def lineage_def fork_arena_def fork_entry_def)
  then have "chain_ok fork_arena [Some 0]" unfolding chain_ok_def by (intro disjI2 exI [of _ 0]) (simp add: fork_arena_def)
  moreover have "cand.sorted_set id fork_arena [0, 2, 1]"
    unfolding cand.sorted_set_def using fork_arena_facts fork_order
    by (simp add: tree_facts_def) (simp add: fork_arena_def)
  moreover have "ne_address sample_env = id" by (simp add: sample_env_def)
  ultimately show ?thesis
    using fork_arena_facts
    by (simp add: state_ok_def candidates_ok_def) (simp add: fork_arena_def fork_entry_def)
qed

lemma fork_usable: "usable fork_arena [Some 0] 2" "\<not> usable fork_arena [Some 0] 1"
proof -
  have "way fork_arena [Some 0] 2 = [2]" "way fork_arena [Some 0] 1 = [1]"
    by (simp_all add: way_def lineage_def fork_arena_def fork_entry_def Contains_def chain_at_def)
  then show "usable fork_arena [Some 0] 2" "\<not> usable fork_arena [Some 0] 1"
    by (simp_all add: usable_def fork_arena_def fork_entry_def bad_block_def fFailedChain_def fMissingData_def
        BLOCK_FAILED_MASK_def BLOCK_FAILED_VALID_def BLOCK_FAILED_CHILD_def BLOCK_HAVE_DATA_def)
qed


end
