(* ===== verification/BestTip.thy ===== *)
theory BestTip
  imports BestChain
begin

unbundle bit_operations_syntax

text \<open>
  \<open>ActivateBestChain\<close> returns, and then the tip is the best block of the whole tree that, with all its
  ancestors, has data and has not failed.
\<close>

section \<open>Blocks whose data may be corrupt\<close>

text \<open>No check but \<open>CheckBlock\<close> reports that the data of a block may be corrupt, when the checks of the
  zerocoin library do not.\<close>

definition intact_env :: "connect_env \<Rightarrow> bool" where
  "intact_env E \<longleftrightarrow>
     (\<forall>i tx st. \<not> corruptionPossible st \<longrightarrow> \<not> corruptionPossible (snd (ce_public_value E i tx st))) \<and>
     (\<forall>txo st. \<not> corruptionPossible st \<longrightarrow> \<not> corruptionPossible (snd (ce_TxOutToPublicCoin E txo st)))"

lemma DoS_intact [simp]: "\<not> corruptionPossible (snd (DoS l r c m False st))"
  by (simp add: DoS_def Let_def)

lemma Invalid_intact [simp]: "\<not> corruptionPossible (snd (Invalid r c m st))"
  by (simp add: Invalid_def)

lemma Error_intact [simp]: "corruptionPossible (snd (Error m st)) = corruptionPossible st"
  "corruptionPossible (snd (Abort m st)) = corruptionPossible st"
  by (simp_all add: Error_def Abort_def)

lemma input_values_intact: "input_values V P h is n st c = Inr (Inl r, c') \<Longrightarrow> \<not> corruptionPossible (snd r)"
  by (induction V P h "is" n st c rule: input_values.induct)
    (auto simp: Let_def split: prod.splits option.splits if_splits)

lemma check_fee_intact: "check_fee P tx n st = Inr (Some r) \<Longrightarrow> \<not> corruptionPossible (snd r)"
  by (auto simp: check_fee_def Let_def split: sum.splits if_splits)

lemma input_scripts_intact:
  "input_scripts ec V tx flags store ns pv st c = Inr (Inl r, c') \<Longrightarrow> \<not> corruptionPossible (snd r)"
proof (induction ns arbitrary: pv c)
  case (Cons i ns)
  obtain oc c1 where a: "AccessCoins V c (op_hash (prevout (vin tx ! i))) = (oc, c1)"
    by (cases "AccessCoins V c (op_hash (prevout (vin tx ! i)))")
  then obtain coins where oc: "oc = Some coins" using Cons.prems by (cases oc) simp_all
  obtain check where k: "CScriptCheck_of coins tx i flags store = Inr check"
    using Cons.prems a oc by (cases "CScriptCheck_of coins tx i flags store") simp_all
  show ?case
  proof (cases pv)
    case None
    then obtain b k1 where k1: "CScriptCheck_run ec check = Inr (b, k1)"
      using Cons.prems a oc k by (cases "CScriptCheck_run ec check") auto
    show ?thesis
    proof (cases b)
      case True
      then show ?thesis using Cons a oc k k1 None by simp
    next
      case False
      then show ?thesis using Cons.prems a oc k k1 None by (auto split: if_splits sum.splits bool.splits prod.splits)
    qed
  next
    case (Some v)
    then show ?thesis using Cons a oc k by simp
  qed
qed simp

lemma CheckInputs_intact:
  assumes "CheckInputs ec V P T tx st c f flags store pv = Inr (r, rest)" "\<not> corruptionPossible st"
  shows "\<not> corruptionPossible (snd r)"
proof (cases "\<not> IsCoinBase tx \<and> \<not> HasZerocoinSpendInputs tx \<and> fst (HaveInputs V c tx)")
  case False
  then show ?thesis using assms by (cases "HaveInputs V c tx") (auto simp: CheckInputs_def split: if_splits)
next
  case True
  obtain c1 best c2 where c: "HaveInputs V c tx = (True, c1)" "cache_GetBestBlock V c1 = (best, c2)"
    using True by (metis prod.collapse)
  show ?thesis
  proof (cases "mapBlockIndex T best")
    case None
    then show ?thesis using assms True c by (simp add: CheckInputs_def)
  next
    case (Some p)
    note run = assms(1) [unfolded CheckInputs_def]
    show ?thesis
    proof (cases "input_values V P (nHeight (bt_arena T ! p) + 1) (vin tx) 0 st c2")
      case (Inr x)
      obtain v c3 where x: "x = (v, c3)" by (cases x)
      show ?thesis
      proof (cases v)
        case (Inl r')
        then show ?thesis using run True c Some Inr x input_values_intact [OF Inr [unfolded x Inl]] by simp
      next
        case v: (Inr n)
        obtain fee where fee: "(if \<not> IsCoinStake tx then check_fee P tx n st else Inr None) = Inr fee"
          using run True c Some Inr x v by (simp split: sum.splits if_splits)
        show ?thesis
        proof (cases fee)
          case None
          then show ?thesis
            using run True c Some Inr x v fee assms(2)
            by (auto split: if_splits sum.splits prod.splits dest: input_scripts_intact)
        next
          case s: (Some r')
          then show ?thesis
            using run True c Some Inr x v fee check_fee_intact [of P tx n st r'] by (simp split: if_splits)
        qed
      qed
    qed (use run True c Some in simp)
  qed
qed

lemma connect_spends_intact:
  assumes "intact_env E"
  shows "\<not> corruptionPossible (cs_state s) \<Longrightarrow> \<not> corruptionPossible (cs_state (snd (connect_spends E tx h is s)))"
proof (induction "is" arbitrary: s)
  case (Cons i "is")
  let ?r = "if CTxIn_IsZerocoinPublicSpend i then ce_public_value E i tx (cs_state s)
    else (Some (ce_private_value E i), cs_state s)"
  obtain v st where r: "?r = (v, st)" by (cases ?r)
  have st: "\<not> corruptionPossible st"
    using assms Cons.prems r by (metis intact_env_def snd_conv)
  show ?case
    unfolding connect_spends.simps Let_def r prod.case
    using Cons.IH [OF Cons.prems] Cons.prems st
    by (cases v) (simp_all add: Cons.IH del: connect_spends.simps split: if_split)
qed simp

lemma connect_mints_intact:
  assumes "intact_env E"
  shows "\<not> corruptionPossible (cs_state s) \<Longrightarrow> \<not> corruptionPossible (cs_state (snd (connect_mints E tx os s)))"
proof (induction os arbitrary: s)
  case (Cons txo os)
  obtain b st where r: "ce_TxOutToPublicCoin E txo (cs_state s) = (b, st)" by (cases "ce_TxOutToPublicCoin E txo (cs_state s)")
  then have "\<not> corruptionPossible st" using assms Cons.prems by (metis intact_env_def snd_conv)
  then show ?case using r Cons.IH [OF Cons.prems] by (cases b) (simp_all add: Cons.IH)
qed simp

lemma check_mints_intact:
  "intact_env E \<Longrightarrow> \<not> corruptionPossible (cs_state s) \<Longrightarrow> \<not> corruptionPossible (cs_state (snd (check_mints E tx s)))"
  by (simp add: check_mints_def connect_mints_intact)

lemma connect_zerocoin_tx_intact:
  assumes "intact_env E" "\<not> corruptionPossible (cs_state s)"
  shows "\<not> corruptionPossible (cs_state (snd (connect_zerocoin_tx E tx h s)))"
proof -
  let ?s = "s\<lparr> cs_vSpendsInBlock := cs_vSpendsInBlock s @ [tx_hash tx] \<rparr>"
  obtain b s1 where r: "connect_spends E tx h (vin tx) ?s = (b, s1)" by (cases "connect_spends E tx h (vin tx) ?s")
  then have "\<not> corruptionPossible (cs_state s1)"
    using connect_spends_intact [OF assms(1), of ?s tx h "vin tx"] assms(2) by simp
  then show ?thesis
    using check_mints_intact [OF assms(1), of s1 tx] r by (cases b) (simp_all add: connect_zerocoin_tx_def Let_def)
qed

lemma connect_ordinary_tx_intact:
  assumes "intact_env E" "\<not> corruptionPossible (cs_state s)"
    and run: "connect_ordinary_tx ec V P T E f flags tx h s = Inr r"
  shows "\<not> corruptionPossible (cs_state (snd r))"
proof -
  obtain b c where c: "HaveInputs V (cs_view s) tx = (b, c)" by (cases "HaveInputs V (cs_view s) tx")
  show ?thesis
  proof (cases "b \<and> \<not> list_ex (\<lambda>i. \<not> ValidOutPoint P E (prevout i) h) (vin tx)")
    case False
    then show ?thesis using run c by (cases b) (auto simp: connect_ordinary_tx_def)
  next
    case True
    obtain m s1 where m: "check_mints E tx (s\<lparr> cs_view := c \<rparr>) = (m, s1)" by (cases "check_mints E tx (s\<lparr> cs_view := c \<rparr>)")
    then have s1: "\<not> corruptionPossible (cs_state s1)"
      using check_mints_intact [OF assms(1), of "s\<lparr> cs_view := c \<rparr>" tx] assms(2) by simp
    show ?thesis
      using run True c m s1 unfolding connect_ordinary_tx_def Let_def
      by (cases m) (auto split: option.splits prod.splits sum.splits if_splits dest!: CheckInputs_intact)
  qed
qed

lemma connect_tx_intact:
  assumes "intact_env E" "\<not> corruptionPossible (cs_state s)"
    and run: "connect_tx ec V P T E f flags block h i tx s = Inr r"
  shows "\<not> corruptionPossible (cs_state (snd r))"
proof -
  let ?s = "s\<lparr> cs_nSigOps := cs_nSigOps s + GetLegacySigOpCount tx \<rparr>"
  let ?m = "if HasZerocoinSpendInputs tx then Inr (connect_zerocoin_tx E tx h ?s)
    else if \<not> IsCoinBase tx then connect_ordinary_tx ec V P T E f flags tx h ?s else Inr (True, ?s)"
  have s: "\<not> corruptionPossible (cs_state ?s)" using assms(2) by simp
  have m: "\<not> corruptionPossible (cs_state (snd x))" if "?m = Inr x" for x
    using that s connect_zerocoin_tx_intact [OF assms(1) s]
    by (auto split: if_splits dest: connect_ordinary_tx_intact [OF assms(1) s])
  show ?thesis
  proof (cases ?m)
    case (Inl e)
    then show ?thesis using run s unfolding connect_tx_def Let_def Inl by (auto split: if_splits)
  next
    case (Inr x)
    obtain b s1 where x: "x = (b, s1)" by (cases x)
    then have s1: "\<not> corruptionPossible (cs_state s1)" using m [OF Inr] by simp
    show ?thesis
      using run s s1 unfolding connect_tx_def Let_def Inr x by (auto split: if_splits bool.splits sum.splits prod.splits)
  qed
qed

lemma connect_txs_intact:
  assumes "intact_env E"
  shows "\<not> corruptionPossible (cs_state s) \<Longrightarrow> connect_txs ec V P T E f flags block h i txs s = Inr r \<Longrightarrow>
    \<not> corruptionPossible (cs_state (snd r))"
proof (induction txs arbitrary: i s)
  case (Cons tx txs)
  then obtain b s1 where x: "connect_tx ec V P T E f flags block h i tx s = Inr (b, s1)" by (auto split: sum.splits)
  then have "\<not> corruptionPossible (cs_state s1)" using connect_tx_intact [OF assms Cons.prems(1) x] by simp
  then show ?case using Cons.prems(2) Cons.IH x by (cases b) auto
qed auto

lemma connect_totals_intact:
  assumes "connect_totals ec P T B block e s = Inr (r, e')" "\<not> corruptionPossible (cs_state s)"
  shows "\<not> corruptionPossible (cs_state (snd r))"
  using assms by (auto simp: connect_totals_def Let_def split: prod.splits bool.splits option.splits sum.splits if_splits)

lemma connect_start_state [simp]: "cs_state (connect_start block st c) = st"
  by (simp add: connect_start_def)

lemma ConnectBlock_checks_intact:
  assumes "intact_env E" "\<not> corruptionPossible st"
    and check: "\<not> chk \<Longrightarrow> \<not> corruptionPossible (snd (be_CheckBlock B block st))"
    and run: "ConnectBlock_checks ec sph V P T E B block st p c chk = Inr (r, rest)"
  shows "\<not> corruptionPossible (cs_state (snd r))"
proof -
  obtain b st1 where r: "(if chk then (True, st) else be_CheckBlock B block st) = (b, st1)" by (metis surj_pair)
  have st1: "\<not> corruptionPossible st1" using r check assms(2) by (cases chk) (auto simp: snd_def)
  show ?thesis
  proof (cases b)
    case False
    then show ?thesis using run r st1 by (auto simp: ConnectBlock_checks_def Let_def)
  next
    case True
    show ?thesis
      using run unfolding ConnectBlock_checks_def Let_def r True
      by (auto simp: st1 map_sum_Inr split: prod.splits bool.splits sum.splits if_splits
          dest!: connect_txs_intact [OF assms(1), rotated] connect_totals_intact)
  qed
qed

text \<open>The result of a run, if there is one, satisfies \<open>P\<close>.\<close>

definition leaves :: "'a run \<Rightarrow> ('a \<Rightarrow> bool) \<Rightarrow> bool" where
  "leaves m P = (case m of Some (Inr x) \<Rightarrow> P x | _ \<Rightarrow> True)"

lemma leaves_simps [simp]:
  "leaves None P" "leaves (crash e) P" "leaves (returns x) P \<longleftrightarrow> P x"
  "leaves (run_bind m f) P \<longleftrightarrow> leaves m (\<lambda>x. leaves (f x) P)"
  by (simp_all add: leaves_def run_bind_def split: option.split sum.split)

lemma leaves_mono: "leaves m P \<Longrightarrow> (\<And>x. P x \<Longrightarrow> Q x) \<Longrightarrow> leaves m Q"
  by (auto simp: leaves_def split: option.splits sum.splits)

lemma leaves_const: "Q \<Longrightarrow> leaves m (\<lambda>x. Q)"
  by (auto simp: leaves_def split: option.splits sum.splits)

lemma holds_after_conj: "holds_after m P \<Longrightarrow> leaves m Q \<Longrightarrow> holds_after m (\<lambda>x. P x \<and> Q x)"
  by (auto simp: leaves_def holds_after_def split: option.splits sum.splits)

text \<open>A node on which no block is found to have corrupt data.\<close>

definition intact_node :: "('p, 's, 'r, 'b, 'z, 'd, 'e) node_env \<Rightarrow> bool" where
  "intact_node N \<longleftrightarrow> (\<forall>block p s. case ne_connect N block p s of (E, B) \<Rightarrow> intact_env E \<and>
     (\<forall>st. \<not> corruptionPossible st \<longrightarrow> \<not> corruptionPossible (snd (be_CheckBlock B block st))))"

lemma ConnectBlock_write_intact:
  "\<not> corruptionPossible st \<Longrightarrow> \<not> corruptionPossible (snd (fst (ConnectBlock_write N block p l st s)))"
  by (simp add: ConnectBlock_write_def Let_def split: prod.split)

lemma FindUndoPos_intact:
  "\<not> corruptionPossible st \<Longrightarrow> leaves (FindUndoPos N st f n s) (\<lambda>((ok, st'), pos, s'). \<not> corruptionPossible st')"
  by (simp add: FindUndoPos_def Let_def Error_def)

lemma FlushStateToDisk_intact:
  "\<not> corruptionPossible st \<Longrightarrow> leaves (FlushStateToDisk N st m s) (\<lambda>((ok, st'), s'). \<not> corruptionPossible st')"
  by (simp add: FlushStateToDisk_def Let_def Error_def Abort_def split: option.split prod.split)

lemma ConnectBlock_intact:
  assumes "intact_node N" "\<not> corruptionPossible st"
  shows "leaves (ConnectBlock N block st p view chk s) (\<lambda>((ok, st'), view', s'). \<not> corruptionPossible st')"
proof -
  obtain E B where env: "connect_answers N block p s = (E, B)" by (cases "connect_answers N block p s")
  have E: "intact_env E" "\<not> corruptionPossible (snd (be_CheckBlock B block st))"
  proof -
    obtain E1 B1 where c: "ne_connect N block p s = (E1, B1)" by (cases "ne_connect N block p s")
    then have "intact_env E1 \<and> (\<forall>st. \<not> corruptionPossible st \<longrightarrow> \<not> corruptionPossible (snd (be_CheckBlock B1 block st)))"
      using assms(1) [unfolded intact_node_def, THEN spec [of _ block], THEN spec [of _ p], THEN spec [of _ s]] by simp
    moreover have "fst (connect_answers N block p s) = E1" "be_CheckBlock (snd (connect_answers N block p s)) = be_CheckBlock B1"
      by (simp_all add: connect_answers_def c)
    ultimately show "intact_env E" "\<not> corruptionPossible (snd (be_CheckBlock B block st))" using assms(2) env by simp_all
  qed
  show ?thesis
  proof (cases "ConnectBlock_checks (ne_ec N) (ne_sph N) (cache_view (ne_V N)) (ne_P N) (nd_tree s) E B block st p view chk")
    case (Inl e)
    then show ?thesis by (simp add: ConnectBlock_def env)
  next
    case (Inr r)
    obtain ok l e genesis where r: "r = ((ok, l), e, genesis)" by (metis prod_cases3 surj_pair)
    have l: "\<not> corruptionPossible (cs_state l)"
      using ConnectBlock_checks_intact [OF E(1) assms(2) E(2) Inr [unfolded r]] by simp
    have tail: "leaves (if \<not> fnd then returns ((False, st1), cs_view l, s1)
          else (case ConnectBlock_store (ne_ec N) (ne_MessageStart N) (Some pos) (nd_tree s1) p e l (nd_undo s1) of
              None \<Rightarrow> returns (Abort ''Failed to write undo data'' st1, cs_view l, s1)
            | Some (view, tree, files) \<Rightarrow>
                (case ConnectBlock_write N block p l st1 (s1\<lparr> nd_tree := tree, nd_undo := files \<rparr>) of
                   (r, s) \<Rightarrow> returns (r, view, s))))
        (\<lambda>((ok, st'), view', s'). \<not> corruptionPossible st')"
      if "\<not> corruptionPossible st1" for fnd st1 pos s1
    proof -
      have "\<not> corruptionPossible st2" if "ConnectBlock_write N block p l st1 s2 = ((b, st2), s3)" for s2 b st2 s3
        using ConnectBlock_write_intact [OF \<open>\<not> corruptionPossible st1\<close>, of N block p l s2] that by simp
      then show ?thesis using that by (auto simp: Abort_def Error_def split: option.split prod.split)
    qed
    have find: "leaves (if c then FindUndoPos N (cs_state l) f n s1 else returns ((True, cs_state l), CDiskBlockPos_null, s1))
        (\<lambda>((ok, st'), pos, s'). \<not> corruptionPossible st')" for c f n s1
      using l by (simp add: FindUndoPos_intact)
    show ?thesis
    proof (cases "\<not> ok \<or> genesis")
      case True
      then show ?thesis using l Inr r by (simp add: ConnectBlock_def env)
    next
      case False
      show ?thesis
        unfolding ConnectBlock_def env prod.case Inr r sum.case
        unfolding Let_def if_not_P [OF False] leaves_simps(4)
      proof (rule leaves_mono [OF find], goal_cases)
        case (1 x)
        obtain fnd st1 pos s1 where x: "x = ((fnd, st1), pos, s1)" by (metis prod_cases3 surj_pair)
        then show ?case using tail [of st1 fnd s1 pos] 1 by simp
      qed
    qed
  qed
qed

lemma ConnectTip_intact:
  assumes "intact_node N" "\<not> corruptionPossible st"
  shows "leaves (ConnectTip N st p pblock chk s) (\<lambda>((ok, st'), s'). \<not> corruptionPossible st')"
proof -
  have view: "leaves (flush_view N v s) P" if "\<And>x. P x" for v s P
    using that by (auto simp: leaves_def split: option.splits sum.splits)
  have fin: "leaves (run_bind (flush_view N v s1) (\<lambda>s. run_bind (FlushStateToDisk N st1 (m s) s) (\<lambda>((ok, state), s).
      if \<not> ok then returns ((False, state), s)
      else (case removeForBlock (ne_seenBlock N) txs (h s) (nd_mempool s) [] of
          None \<Rightarrow> crash Out_of_range
        | Some (pool, txConflicted) \<Rightarrow>
            run_bind (UpdateTip N (Some p) (s\<lparr> nd_mempool := pool \<rparr>)) (\<lambda>s. returns ((True, state), s))))))
      (\<lambda>((ok, st'), s'). \<not> corruptionPossible st')" if "\<not> corruptionPossible st1" for v s1 st1 m txs h
    unfolding leaves_simps(4)
    by (rule view, rule leaves_mono [OF FlushStateToDisk_intact [OF that]]) (auto intro: leaves_const split: option.split)
  show ?thesis
  proof (cases "pprev (arena s ! p) = tip s")
    case True
    let ?b = "case pblock of None \<Rightarrow> ReadBlockFromDisk N (arena s ! p) | Some block \<Rightarrow> Some block"
    show ?thesis
    proof (cases ?b)
      case None
      then show ?thesis using assms(2) True by (simp add: ConnectTip_def Abort_def Error_def)
    next
      case (Some block)
      show ?thesis
        unfolding ConnectTip_def tip_of_tip run_bind_simps Some option.case if_not_P [OF not_not [THEN iffD2, OF True]]
          leaves_simps(4) [of "ConnectBlock N block st p (CCoinsViewCache_of (pcoinsTip s)) (chk \<and> pblock \<noteq> None) s"]
      proof (rule leaves_mono [OF ConnectBlock_intact [OF assms]], goal_cases)
        case (1 x)
        obtain ok st1 v s1 where x: "x = ((ok, st1), v, s1)" by (metis prod_cases3 surj_pair)
        then have st1: "\<not> corruptionPossible st1" using 1 by simp
        show ?case
        proof (cases ok)
          case True
          then show ?thesis using fin [OF st1, where h = "\<lambda>s. word_of_int (nHeight (arena s ! p))"] x
            by (simp add: Let_def del: leaves_simps(4))
        qed (use x st1 in \<open>simp add: Let_def leaves_const\<close>)
      qed
    qed
  qed (simp add: ConnectTip_def)
qed

lemma DisconnectTip_intact:
  assumes "\<not> corruptionPossible st"
  shows "leaves (DisconnectTip N st s) (\<lambda>((ok, st'), s'). \<not> corruptionPossible st')"
proof -
  have view: "leaves (flush_view N v s) P" if "\<And>x. P x" for v s P
    using that by (auto simp: leaves_def split: option.splits sum.splits)
  have fin: "leaves (run_bind (flush_view N v s1) (\<lambda>s. run_bind (FlushStateToDisk N st m s) (\<lambda>((ok, state), s).
      if \<not> ok then returns ((False, state), s)
      else run_bind (resurrect N txs s) (\<lambda>s.
        case removeCoinbaseSpends (ne_V N) (ne_P N) (h s) (nd_mempool s) (pcoinsTip s) of
          None \<Rightarrow> crash Out_of_range
        | Some (pool, c) \<Rightarrow>
            run_bind (UpdateTip N (q s) (s\<lparr> nd_mempool := pool, pcoinsTip := c \<rparr>)) (\<lambda>s. returns ((True, state), s))))))
      (\<lambda>((ok, st'), s'). \<not> corruptionPossible st')" for v s1 m txs h q
    unfolding leaves_simps(4)
  proof (rule view, rule leaves_mono [OF FlushStateToDisk_intact [OF assms]], goal_cases)
    case (1 s x)
    obtain c st1 s2 where x: "x = ((c, st1), s2)" by (metis surj_pair)
    have res: "leaves (resurrect N txs s2) P" if "\<And>x. P x" for P
      using that by (auto simp: leaves_def split: option.splits sum.splits)
    show ?case using 1 x by (auto intro!: res leaves_const split: option.split)
  qed
  show ?thesis
  proof (cases "tip s")
    case (Some t)
    show ?thesis
    proof (cases "ReadBlockFromDisk N (arena s ! t)")
      case None
      then show ?thesis using assms Some by (simp add: DisconnectTip_def Abort_def Error_def)
    next
      case block: (Some block)
      show ?thesis
      proof (cases "DisconnectBlock (ne_ec N) (cache_view (ne_V N)) (ne_Z N) (arena s) (nd_undo s) (ne_fVerifyingBlocks N)
          block t False (CCoinsViewCache_of (pcoinsTip s)) (nd_zerocoinDB s)")
        case (Inr r)
        obtain c clean d where r: "r = ((c, clean), d)" by (metis surj_pair)
        show ?thesis
          using assms Some block Inr r
            fin [where h = "\<lambda>s. word_of_int (nHeight (arena s ! t))" and q = "\<lambda>s. pprev (arena s ! t)"]
          by (cases c) (simp_all add: DisconnectTip_def Let_def del: leaves_simps(4))
      qed (use Some block in \<open>simp add: DisconnectTip_def\<close>)
    qed
  qed (simp add: DisconnectTip_def)
qed

section \<open>Paths in the tree\<close>

context block_forest begin

lemma mem_nth: "ok p \<Longrightarrow> q \<in> set (lineage p) \<Longrightarrow> \<exists>i < length (lineage p). lineage p ! i = q \<and> ht q = ht p - int i"
  by (metis in_set_conv_nth lineage_ht)

lemma mem_ht_le: "ok p \<Longrightarrow> q \<in> set (lineage p) \<Longrightarrow> ht q \<le> ht p"
  using mem_nth by fastforce

lemma mem_below:
  assumes "ok p" "q \<in> set (lineage p)" "r \<in> set (lineage p)" "ht r \<le> ht q"
  shows "r \<in> set (lineage q)"
proof -
  obtain i where i: "i < length (lineage p)" "lineage p ! i = q" "ht q = ht p - int i"
    using mem_nth [OF assms(1,2)] by blast
  obtain j where j: "j < length (lineage p)" "lineage p ! j = r" "ht r = ht p - int j"
    using mem_nth [OF assms(1,3)] by blast
  have "drop i (lineage p) = lineage q" using drop_lineage lineage_anc i(1,2) assms(1) by metis
  moreover have "drop i (lineage p) ! (j - i) = r" "j - i < length (drop i (lineage p))" using i j assms(4) by auto
  ultimately show ?thesis by (metis nth_mem)
qed

lemma mem_subset:
  assumes "ok p" "q \<in> set (lineage p)"
  shows "set (lineage q) \<subseteq> set (lineage p)"
  using mem_nth [OF assms] drop_lineage lineage_anc assms(1) set_drop_subset by metis

lemma mem_same: "ok p \<Longrightarrow> q \<in> set (lineage p) \<Longrightarrow> r \<in> set (lineage p) \<Longrightarrow> ht q = ht r \<Longrightarrow> q = r"
  using mem_nth [of p q] mem_nth [of p r] by auto

lemma mem_self: "ok p \<Longrightarrow> p \<in> set (lineage p)"
  by (simp add: lineage_rec)

end

lemmas lineage_in = forest.mem_nth [unfolded forest_lineage]
lemmas lineage_low = forest.mem_ht_le [unfolded forest_lineage]
lemmas lineage_below = forest.mem_below [unfolded forest_lineage]
lemmas lineage_sub = forest.mem_subset [unfolded forest_lineage]
lemmas lineage_same = forest.mem_same [unfolded forest_lineage]
lemmas lineage_self = forest.mem_self [unfolded forest_lineage]

lemma set_path_to: "Some p \<in> set (path_to st t) \<longleftrightarrow> p \<in> set (lineage st t)"
  by (auto simp: path_to_def)

lemma Contains_path:
  assumes "tree_ok st" "t < length st" "p < length st"
  shows "Contains st (path_to st t) p \<longleftrightarrow> p \<in> set (lineage st t)"
proof
  assume "Contains st (path_to st t) p"
  then have "Some p \<in> set (path_to st t)" by (auto simp: Contains_def chain_at_def split: if_splits intro: nth_mem) (metis nth_mem nat_less_iff not_less)
  then show "p \<in> set (lineage st t)" by (simp add: set_path_to)
next
  assume p: "p \<in> set (lineage st t)"
  have ok: "tree_ok st \<and> t < length st" using assms by simp
  obtain i where i: "i < length (lineage st t)" "lineage st t ! i = p" "nHeight (st ! p) = nHeight (st ! t) - int i"
    using lineage_in [OF ok p] by blast
  have "0 \<le> nHeight (st ! p)" using forest.nonneg [of st p] assms by simp
  then have "nat (nHeight (st ! p)) < length (lineage st t)" "length (lineage st t) - Suc (nat (nHeight (st ! p))) = i"
    using i lineage_facts(2) [OF ok] by (simp_all add: nat_diff_distrib)
  then show "Contains st (path_to st t) p"
    using i \<open>0 \<le> nHeight (st ! p)\<close> by (simp add: Contains_def chain_at_def path_to_def rev_nth)
qed

section \<open>The invariant of the search\<close>

text \<open>A block is validated when it has been connected at some time; the blocks of the active chain are, have data
  and have not failed.  A block is good when it and all its ancestors have their data and none has failed.\<close>

definition validated :: "CBlockIndex \<Rightarrow> bool" where
  "validated b \<longleftrightarrow> pprev b = None \<or> BLOCK_VALID_SCRIPTS \<le> level b"

definition chain_good :: "('b, 'z, 'd, 'e) node \<Rightarrow> bool" where
  "chain_good s \<longleftrightarrow> (\<forall>p. Some p \<in> set (chainActive s) \<longrightarrow>
     \<not> bad_block (arena s ! p) \<and> validated (arena s ! p) \<and> nChainTx (arena s ! p) \<noteq> 0)"

definition good :: "arena \<Rightarrow> ptr \<Rightarrow> bool" where
  "good st q \<longleftrightarrow> q < length st \<and> nChainTx (st ! q) \<noteq> 0 \<and> (\<forall>r \<in> set (lineage st q). \<not> bad_block (st ! r))"

text \<open>Every good block that is not worse than \<open>a\<close> is a candidate; without \<open>a\<close>, every good block.\<close>

definition all_candidates :: "('p, 's, 'r, 'b, 'z, 'd, 'e) node_env \<Rightarrow> ptr option \<Rightarrow> ('b, 'z, 'd, 'e) node \<Rightarrow> bool" where
  "all_candidates N a s \<longleftrightarrow> (\<forall>q. good (arena s) q \<longrightarrow> (\<forall>t. a = Some t \<longrightarrow> \<not> worse N s q t) \<longrightarrow>
     q \<in> set (setBlockIndexCandidates s))"

definition anchored :: "('p, 's, 'r, 'b, 'z, 'd, 'e) node_env \<Rightarrow> ptr option \<Rightarrow> ('b, 'z, 'd, 'e) node \<Rightarrow> bool" where
  "anchored N a s \<longleftrightarrow> all_candidates N a s \<and>
     (\<forall>t. a = Some t \<longrightarrow> good (arena s) t \<and> (\<forall>r \<in> set (lineage (arena s) t). validated (arena s ! r)))"

text \<open>A validated block has failed since.\<close>

definition lost :: "arena \<Rightarrow> arena \<Rightarrow> bool" where
  "lost st st' \<longleftrightarrow> (\<exists>p < length st. \<not> fFailedChain (st ! p) \<and> fFailedChain (st' ! p) \<and> validated (st' ! p))"

definition search_inv :: "('p, 's, 'r, 'b, 'z, 'd, 'e) node_env \<Rightarrow> arena \<Rightarrow> ('b, 'z, 'd, 'e) node \<Rightarrow> bool" where
  "search_inv N st0 s \<longleftrightarrow> state_ok N s \<and> chain_good s \<and> evolves st0 (arena s) \<and>
     (lost st0 (arena s) \<or> (\<exists>a. anchored N a s))"

lemma search_inv_same: "same_state s s' \<Longrightarrow> search_inv N st0 s \<Longrightarrow> search_inv N st0 s'"
  by (simp add: same_state_def search_inv_def state_ok_def candidates_ok_def chain_good_def anchored_def all_candidates_def)

lemma validated_evolves: "evolves st st' \<Longrightarrow> p < length st \<Longrightarrow> validated (st ! p) \<Longrightarrow> validated (st' ! p)"
  using evolves_fields(2) [of st st' p] evolves_status(3) [of st st' p] order_trans unfolding validated_def by metis

lemma lost_evolves: "lost st0 st \<Longrightarrow> evolves st0 st \<Longrightarrow> evolves st st' \<Longrightarrow> lost st0 st'"
  unfolding lost_def using validated_evolves evolves_status(1) evolves_len by metis

lemma good_evolves: "tree_ok st \<Longrightarrow> evolves st st' \<Longrightarrow> good st' q \<Longrightarrow> good st q"
  using evolves_lineage [of st st' q] lineage_subset [of st q] evolves_len [of st st'] evolves_fields(5) [of st st' q]
    evolves_bad [of st st']
  by (simp add: good_def) metis

lemma good_usable: "good st q \<Longrightarrow> usable st ch q"
  by (auto simp: good_def usable_def way_def dest: set_takeWhileD)

text \<open>The blocks of the active chain are its tip and the ancestors of the tip.\<close>

lemma chain_member:
  assumes "state_ok N s" "Some p \<in> set (chainActive s)"
  obtains t where "tip s = Some t" "t < length (arena s)" "p \<in> set (lineage (arena s) t)" "p < length (arena s)"
    "Contains (arena s) (chainActive s) p"
proof -
  have "chainActive s \<noteq> []" using assms(2) by auto
  then obtain t where t: "tip s = Some t"
    using chain_ok_tip(1) [OF state_ok_rules(2,3) [OF assms(1)]] by (cases "tip s") auto
  then have c: "t < length (arena s)" "chainActive s = path_to (arena s) t"
    using chain_ok_tip(2) [OF state_ok_rules(2,3) [OF assms(1)]] by auto
  then have "p \<in> set (lineage (arena s) t)" using assms(2) set_path_to by metis
  then show ?thesis
    using that t c lineage_subset [OF state_ok_rules(2) [OF assms(1)] c(1)] Contains_path [OF state_ok_rules(2) [OF assms(1)] c(1)]
    by metis
qed

text \<open>Once an anchor loses a block, that block had been validated.\<close>

lemma anchored_or_lost:
  assumes inv: "search_inv N st0 s" and e: "evolves (arena s) (arena s')"
    and cands: "\<And>q. good (arena s') q \<Longrightarrow> q \<in> set (setBlockIndexCandidates s) \<Longrightarrow> q \<in> set (setBlockIndexCandidates s')"
    and bad: "\<And>p. p < length (arena s) \<Longrightarrow> bad_block (arena s' ! p) \<Longrightarrow> bad_block (arena s ! p) \<or>
      (\<not> fFailedChain (arena s ! p) \<and> fFailedChain (arena s' ! p))"
  shows "lost st0 (arena s') \<or> (\<exists>a. anchored N a s')"
proof -
  let ?st = "arena s" and ?st' = "arena s'"
  have st: "tree_ok ?st" "evolves st0 ?st" using inv state_ok_rules(2) by (auto simp: search_inv_def)
  show ?thesis
  proof (cases "lost st0 ?st")
    case True
    then show ?thesis using lost_evolves st(2) e by blast
  next
    case False
    then obtain a where a: "anchored N a s" using inv by (auto simp: search_inv_def)
    have all: "all_candidates N a s'"
      unfolding all_candidates_def
    proof (intro allI impI)
      fix q assume q: "good ?st' q" "\<forall>t. a = Some t \<longrightarrow> \<not> worse N s' q t"
      then have g: "good ?st q" using good_evolves [OF st(1) e] by blast
      have "\<not> worse N s q t" if "a = Some t" for t
        using q(2) that a evolves_comparator [OF e] g by (auto simp: anchored_def good_def)
      then show "q \<in> set (setBlockIndexCandidates s')" using a g q(1) cands by (auto simp: anchored_def all_candidates_def)
    qed
    show ?thesis
    proof (cases "\<exists>t. a = Some t \<and> \<not> good ?st' t")
      case True
      then obtain t where t: "a = Some t" "\<not> good ?st' t" by blast
      have gt: "good ?st t" "\<forall>r \<in> set (lineage ?st t). validated (?st ! r)" using a t(1) by (auto simp: anchored_def)
      then have l: "t < length ?st" "lineage ?st' t = lineage ?st t" using evolves_lineage [OF e st(1)] by (auto simp: good_def)
      obtain r where r: "r \<in> set (lineage ?st t)" "bad_block (?st' ! r)"
        using t(2) gt(1) l evolves_len [OF e] evolves_fields(5) [OF e l(1)] by (auto simp: good_def)
      then have rl: "r < length ?st" "\<not> bad_block (?st ! r)"
        using lineage_subset [OF st(1) l(1)] gt(1) by (auto simp: good_def)
      then have "\<not> fFailedChain (?st ! r)" "fFailedChain (?st' ! r)" using bad [OF rl(1) r(2)] by auto
      then have "lost st0 ?st'"
        using rl(1) gt(2) r(1) validated_evolves [OF e rl(1)] evolves_len [OF st(2)] evolves_status(1) [OF st(2), of r]
        by (auto simp: lost_def intro!: exI [of _ r])
      then show ?thesis by blast
    next
      case False
      then have "good ?st' t \<and> (\<forall>r \<in> set (lineage ?st' t). validated (?st' ! r))" if "a = Some t" for t
        using that a evolves_lineage [OF e st(1)] lineage_subset [OF st(1)] validated_evolves [OF e]
        by (auto simp: anchored_def good_def)
      then show ?thesis using all by (auto simp: anchored_def)
    qed
  qed
qed

text \<open>Looking for the best candidate keeps the invariant.\<close>

lemma search_inv_discards:
  assumes "search_inv N st0 s" "discards N s s'"
  shows "search_inv N st0 s'"
proof -
  have ok: "state_ok N s" "state_ok N s'" and e: "evolves (arena s) (arena s')" "evolves st0 (arena s)"
    and ch: "chainActive s' = chainActive s"
    using assms by (auto simp: search_inv_def discards_def)
  note keep = assms(2) [unfolded discards_def]
  have "arena s' ! p = arena s ! p" if p: "Some p \<in> set (chainActive s)" for p
  proof -
    have "p < length (arena s) \<and> Contains (arena s) (chainActive s) p" using chain_member [OF ok(1) p] by metis
    then have "p < length (arena s) \<and> usable (arena s) (chainActive s) p"
      using way_rec [OF state_ok_rules(2) [OF ok(1)], of p "chainActive s"] by (simp add: usable_def)
    then show ?thesis using keep by blast
  qed
  then have chain: "chain_good s'" using assms(1) ch by (auto simp: search_inv_def chain_good_def)
  have "lost st0 (arena s') \<or> (\<exists>a. anchored N a s')"
  proof (rule anchored_or_lost [OF assms(1) e(1)])
    fix q assume "good (arena s') q" "q \<in> set (setBlockIndexCandidates s)"
    then show "q \<in> set (setBlockIndexCandidates s')"
      using keep good_usable [OF good_evolves [OF state_ok_rules(2) [OF ok(1)] e(1)]] by blast
  next
    fix p assume p: "p < length (arena s)" "bad_block (arena s' ! p)"
    then show "bad_block (arena s ! p) \<or> \<not> fFailedChain (arena s ! p) \<and> fFailedChain (arena s' ! p)"
      using evolves_status(2) [OF e(1) p(1)] by (auto simp: bad_block_def)
  qed
  then show ?thesis using ok(2) chain evolves_trans [OF e(2,1)] by (simp add: search_inv_def)
qed

text \<open>So does shortening the active chain.\<close>

lemma chain_ok_of: "\<forall>q. p = Some q \<longrightarrow> q < length st \<Longrightarrow> chain_ok st (chain_of st p)"
  by (auto simp: chain_ok_def chain_of_def split: option.split)

lemma search_inv_shorten:
  assumes "search_inv N st0 s" "tip s = Some t"
  shows "search_inv N st0 (s\<lparr> chainActive := chain_of (arena s) (pprev (arena s ! t)) \<rparr>)"
proof -
  let ?st = "arena s"
  have ok: "state_ok N s" using assms(1) by (simp add: search_inv_def)
  have t: "t < length ?st" "chainActive s = path_to ?st t"
    using chain_ok_tip(2) [OF state_ok_rules(2,3) [OF ok] assms(2)] by auto
  have "p \<in> set (lineage ?st t)" if "pprev (?st ! t) = Some q" "p \<in> set (lineage ?st q)" for p q
    using lineage_facts(1) [of ?st t] state_ok_rules(2) [OF ok] t(1) that by simp
  then have "Some p \<in> set (chainActive s)" if "Some p \<in> set (chain_of ?st (pprev (?st ! t)))" for p
    using that t(2) by (cases "pprev (?st ! t)") (auto simp: chain_of_def set_path_to)
  moreover have "chain_ok ?st (chain_of ?st (pprev (?st ! t)))"
    using chain_ok_of parent_in [OF state_ok_rules(2) [OF ok] t(1)] by blast
  ultimately show ?thesis
    using assms(1) by (simp add: search_inv_def state_ok_def candidates_ok_def chain_good_def anchored_def all_candidates_def)
qed

text \<open>Connecting a block that is neither failed nor without data.\<close>

lemma touched_bad: "touched b e \<Longrightarrow> bad_block e = bad_block b"
  by (simp add: touched_def bad_block_def)

lemma touched_validated: "touched b e \<Longrightarrow> pprev e = pprev b"
  using core_fields(2) [of e b] by (simp add: touched_def)

definition same_bad :: "arena \<Rightarrow> arena \<Rightarrow> bool" where
  "same_bad st st' \<longleftrightarrow> evolves st st' \<and> (\<forall>p < length st. bad_block (st' ! p) = bad_block (st ! p))"

lemma same_bad_trans: "same_bad a b \<Longrightarrow> same_bad b c \<Longrightarrow> same_bad a c"
  using evolves_trans [of a b c] evolves_len [of a b] by (simp add: same_bad_def)

lemma same_bad_touched: "touched (st ! p) e \<Longrightarrow> same_bad st (st[p := e])"
  using touched_grows [of st p e] touched_bad [of "st ! p" e]
  by (cases "p < length st") (auto simp: same_bad_def nth_list_update)

lemma search_inv_same_bad:
  assumes "search_inv N st0 s" "same_bad (arena s) (arena s')" "chainActive s' = chainActive s"
    "setBlockIndexCandidates s' = setBlockIndexCandidates s"
  shows "search_inv N st0 s'"
proof -
  have e: "evolves (arena s) (arena s')" "evolves st0 (arena s)" and ok: "state_ok N s" and ch: "chain_good s"
    using assms(1,2) by (auto simp: search_inv_def same_bad_def)
  have "lost st0 (arena s') \<or> (\<exists>a. anchored N a s')"
    by (rule anchored_or_lost [OF assms(1) e(1)]) (use assms(2,4) in \<open>auto simp: same_bad_def\<close>)
  moreover have "\<not> bad_block (arena s' ! p) \<and> validated (arena s' ! p) \<and> nChainTx (arena s' ! p) \<noteq> 0"
    if p: "Some p \<in> set (chainActive s)" for p
  proof -
    have l: "p < length (arena s)" using chain_member [OF ok p] by metis
    then show ?thesis
      using ch p validated_evolves [OF e(1) l] evolves_fields(5) [OF e(1) l] assms(2)
      by (auto simp: chain_good_def same_bad_def)
  qed
  ultimately show ?thesis
    using state_ok_status [OF ok e(1) assms(3,4)] evolves_trans [OF e(2,1)] assms(3)
    by (simp add: search_inv_def chain_good_def)
qed

lemma connected_True:
  assumes inv: "search_inv N st0 s" and p: "p < length (arena s)" "nChainTx (arena s ! p) \<noteq> 0" "\<not> bad_block (arena s ! p)"
    and parent: "pprev (arena s ! p) = tip s" and c: "connected N p s True st' s'"
  shows "search_inv N st0 s' \<and> tip s' = Some p \<and> same_bad (arena s) (arena s') \<and>
    setBlockIndexCandidates s' = setBlockIndexCandidates s"
proof -
  obtain e where e: "touched (arena s ! p) e"
    "same_state ((set_arena ((arena s)[p := e]) s)\<lparr> chainActive := path_to (arena s) p \<rparr>) s'"
    "pprev (arena s ! p) \<noteq> None \<longrightarrow> \<not> fFailedChain (arena s ! p) \<longrightarrow> BLOCK_VALID_SCRIPTS \<le> level e"
    using c unfolding connected_def Let_def by auto
  let ?st = "(arena s)[p := e]" and ?s1 = "set_arena ((arena s)[p := e]) s"
  have same: "same_bad (arena s) ?st" using same_bad_touched [OF e(1)] .
  have s1: "search_inv N st0 ?s1" by (rule search_inv_same_bad [OF inv]) (use same in simp_all)
  have ok: "state_ok N s" "tree_ok (arena s)" using inv state_ok_rules(2) by (auto simp: search_inv_def)
  have ev: "evolves (arena s) ?st" using same by (simp add: same_bad_def)
  have path: "path_to ?st p = path_to (arena s) p" by (rule path_to_grows [OF ev ok(2) p(1)])
  have tree: "tree_ok ?st" "p < length ?st" using evolves_tree_ok [OF ev ok(2)] p(1) by simp_all
  have chain: "path_to (arena s) p = chainActive s @ [Some p]"
    using path_to_rec [OF ok(2) p(1)] parent chain_ok_tip [OF ok(2) state_ok_rules(3) [OF ok(1)]]
    by (cases "tip s") auto
  have pe: "pprev e = pprev (arena s ! p)" "bad_block e = bad_block (arena s ! p)" "core e = core (arena s ! p)"
    using touched_validated [OF e(1)] touched_bad [OF e(1)] e(1) by (simp_all add: touched_def)
  have "validated e" using e(3) pe(1) p(3) by (auto simp: validated_def bad_block_def)
  moreover have "nChainTx e \<noteq> 0" using core_fields(8) [OF pe(3)] p(2) by simp
  ultimately have good: "chain_good (?s1\<lparr> chainActive := path_to (arena s) p \<rparr>)"
    using s1 pe(2) p(1,3) unfolding chain by (auto simp: search_inv_def chain_good_def)
  have "search_inv N st0 (?s1\<lparr> chainActive := path_to (arena s) p \<rparr>)"
    using s1 good path tree(2)
    by (auto simp: search_inv_def state_ok_def candidates_ok_def anchored_def all_candidates_def chain_ok_def)
  then have "search_inv N st0 s'" by (rule search_inv_same [OF e(2)])
  moreover have "tip s' = Some p" "arena s' = ?st" "setBlockIndexCandidates s' = setBlockIndexCandidates s"
    using e(2) chain by (simp_all add: same_state_def tip_def)
  ultimately show ?thesis using same by simp
qed

text \<open>A block found invalid is no candidate any more.\<close>

lemma search_inv_mark:
  assumes inv: "search_inv N st0 s" and p: "p < length (arena s)" "\<not> bad_block (arena s ! p)"
    and parent: "pprev (arena s ! p) = tip s"
  defines "s' \<equiv> erase_candidate N p (or_status p BLOCK_FAILED_VALID s)"
  shows "search_inv N st0 s' \<and> evolves (arena s) (arena s') \<and> chainActive s' = chainActive s \<and> fFailedChain (arena s' ! p)"
proof -
  let ?s1 = "or_status p BLOCK_FAILED_VALID s"
  have ok: "state_ok N s" and e0: "evolves st0 (arena s)" using inv by (auto simp: search_inv_def)
  have e: "evolves (arena s) (arena ?s1)" by (rule or_status_grows)
  have "state_ok N ?s1" by (rule state_ok_status [OF ok e]) simp_all
  then have d: "drops N {p} ?s1 s'" unfolding s'_def by (rule drops_erase) (use p(1) in simp)
  have a: "arena s' = arena ?s1" by (simp add: s'_def erase_candidate_def)
  have failed: "fFailedChain (arena s' ! p)" unfolding a using or_status_failed(1) p(1) by blast
  have notin: "Some p \<notin> set (chainActive s)"
  proof
    assume "Some p \<in> set (chainActive s)"
    then obtain t where t: "tip s = Some t" "p \<in> set (lineage (arena s) t)" "t < length (arena s)"
      using chain_member [OF ok] by metis
    then have "nHeight (arena s ! p) = nHeight (arena s ! t) + 1"
      using forest.step [of "arena s" p t] parent p(1) state_ok_rules(2) [OF ok] by simp
    then show False using lineage_low [of "arena s" t p] t state_ok_rules(2) [OF ok] by simp
  qed
  have "lost st0 (arena s') \<or> (\<exists>b. anchored N b s')"
  proof (rule anchored_or_lost [OF inv])
    show "evolves (arena s) (arena s')" using e a by simp
    fix q assume q: "good (arena s') q" "q \<in> set (setBlockIndexCandidates s)"
    have "tree_ok (arena s')" using d state_ok_rules(2) by (auto simp: drops_def)
    then have "q \<in> set (lineage (arena s') q)" using lineage_self [of "arena s'" q] q(1) by (simp add: good_def)
    then have "q \<noteq> p" using q(1) failed by (auto simp: good_def bad_block_def)
    then show "q \<in> set (setBlockIndexCandidates s')" using d q(2) by (simp add: drops_def)
  next
    fix x assume "x < length (arena s)" "bad_block (arena s' ! x)"
    then show "bad_block (arena s ! x) \<or> \<not> fFailedChain (arena s ! x) \<and> fFailedChain (arena s' ! x)"
      using a failed p(2) by (cases "x = p") (auto simp: bad_block_def)
  qed
  moreover have "arena s' ! x = arena s ! x" if "Some x \<in> set (chainActive s)" for x
    using notin that a by (cases "x = p") simp_all
  then have "chain_good s'"
    using inv by (simp add: search_inv_def chain_good_def s'_def erase_candidate_def)
  ultimately show ?thesis
    using d a failed evolves_trans [OF e0 e] e by (simp add: search_inv_def drops_def)
qed

lemma connected_False:
  assumes inv: "search_inv N st0 s" and p: "p < length (arena s)" "\<not> bad_block (arena s ! p)"
    and parent: "pprev (arena s ! p) = tip s" and c: "connected N p s False st' s'"
  shows "search_inv N st0 s' \<and> evolves (arena s) (arena s') \<and> chainActive s' = chainActive s \<and>
    (vs_IsInvalid st' \<and> \<not> corruptionPossible st' \<longrightarrow> fFailedChain (arena s' ! p))"
proof -
  let ?c = "vs_IsInvalid st' \<and> \<not> corruptionPossible st'"
  obtain e where e: "touched (arena s ! p) e"
    "same_state (if ?c then erase_candidate N p (or_status p BLOCK_FAILED_VALID (set_arena ((arena s)[p := e]) s))
       else set_arena ((arena s)[p := e]) s) s'"
    using c unfolding connected_def Let_def by auto
  let ?s1 = "set_arena ((arena s)[p := e]) s"
  have same: "same_bad (arena s) (arena ?s1)" using same_bad_touched [OF e(1)] by simp
  have s1: "search_inv N st0 ?s1" by (rule search_inv_same_bad [OF inv same]) simp_all
  have ev: "evolves (arena s) (arena ?s1)" using same by (simp add: same_bad_def)
  show ?thesis
  proof (cases ?c)
    case False
    from e(2) have "same_state ?s1 s'" by (simp only: if_not_P [OF False])
    then show ?thesis using search_inv_same [OF _ s1] ev False by (auto simp: same_state_def)
  next
    case True
    let ?s2 = "erase_candidate N p (or_status p BLOCK_FAILED_VALID ?s1)"
    have p1: "p < length (arena ?s1)" "\<not> bad_block (arena ?s1 ! p)" "pprev (arena ?s1 ! p) = tip ?s1"
      using p parent touched_bad [OF e(1)] touched_validated [OF e(1)] by (simp_all add: tip_def)
    note m = search_inv_mark [OF s1 p1]
    from e(2) have "same_state ?s2 s'" by (simp only: if_P [OF True])
    moreover from this have "search_inv N st0 s'" using search_inv_same m by blast
    ultimately show ?thesis using m evolves_trans [OF ev] by (auto simp: same_state_def)
  qed
qed

text \<open>Pruning the candidates that are worse than the tip moves the anchor when the tip is better.\<close>

lemma tip_good:
  assumes "state_ok N s" "chain_good s" "tip s = Some t"
  shows "good (arena s) t" "\<forall>r \<in> set (lineage (arena s) t). validated (arena s ! r)"
proof -
  have t: "t < length (arena s)" "chainActive s = path_to (arena s) t"
    using chain_ok_tip(2) [OF state_ok_rules(2,3) [OF assms(1)] assms(3)] by auto
  have r: "\<not> bad_block (arena s ! r) \<and> validated (arena s ! r) \<and> nChainTx (arena s ! r) \<noteq> 0"
    if "r \<in> set (lineage (arena s) t)" for r
    using assms(2) that t(2) by (simp add: chain_good_def set_path_to)
  have "t \<in> set (lineage (arena s) t)" using lineage_self t(1) state_ok_rules(2) [OF assms(1)] by blast
  then show "good (arena s) t" "\<forall>r \<in> set (lineage (arena s) t). validated (arena s ! r)"
    using r t(1) by (auto simp: good_def)
qed

lemma worse_rules:
  assumes "state_ok N s"
  shows "p < length (arena s) \<Longrightarrow> \<not> worse N s p p"
    "p < length (arena s) \<Longrightarrow> q < length (arena s) \<Longrightarrow> r < length (arena s) \<Longrightarrow> worse N s p q \<Longrightarrow> worse N s q r \<Longrightarrow> worse N s p r"
    "p < length (arena s) \<Longrightarrow> q < length (arena s) \<Longrightarrow> p \<noteq> q \<Longrightarrow> worse N s p q \<or> worse N s q p"
proof -
  have ok: "inj (ne_address N) \<and> works_ok (arena s)"
    using tree_facts_rules(1,3) [OF state_ok_rules(1) [OF assms]] by simp
  show "p < length (arena s) \<Longrightarrow> \<not> worse N s p p" using cand.irrefl ok by blast
  show "p < length (arena s) \<Longrightarrow> q < length (arena s) \<Longrightarrow> r < length (arena s) \<Longrightarrow> worse N s p q \<Longrightarrow> worse N s q r \<Longrightarrow> worse N s p r"
    using cand.trans ok by blast
  show "p < length (arena s) \<Longrightarrow> q < length (arena s) \<Longrightarrow> p \<noteq> q \<Longrightarrow> worse N s p q \<or> worse N s q p"
    using cand.total ok by blast
qed

lemma Prune_law:
  assumes inv: "search_inv N st0 s" and t: "tip s = Some t"
  shows "holds_after (PruneBlockIndexCandidates N s) (\<lambda>s'. search_inv N st0 s' \<and> arena s' = arena s \<and> chainActive s' = chainActive s)"
proof -
  have ok: "state_ok N s" and cg: "chain_good s" using inv by (auto simp: search_inv_def)
  note g = tip_good [OF ok cg t]
  have tl: "t < length (arena s)" using g(1) by (simp add: good_def)
  let ?rest = "dropWhile (\<lambda>x. worse N s x t) (setBlockIndexCandidates s)"
  let ?s = "s\<lparr> setBlockIndexCandidates := ?rest \<rparr>"
  have "inj (ne_address N) \<and> works_ok (arena s) \<and> t < length (arena s)"
    using tree_facts_rules(1,3) [OF state_ok_rules(1) [OF ok]] tl by simp
  note rest = cand.set_drop [OF state_ok_rules(4) [OF ok] this]
  have "state_ok N ?s" by (rule state_ok_shrink [OF ok]) (use rest in \<open>auto simp: evolves_refl\<close>)
  moreover have "\<exists>b. anchored N b ?s" if a: "anchored N a s" for a
  proof (cases "\<exists>x. a = Some x \<and> \<not> worse N s x t")
    case True
    then obtain x where x: "a = Some x" "\<not> worse N s x t" by blast
    have xl: "x < length (arena s)" using a x(1) by (simp add: anchored_def good_def)
    have "\<not> worse N s q t" if "good (arena s) q" "\<not> worse N s q x" for q
      using that x(2) worse_rules(2) [OF ok, of x q t] worse_rules(3) [OF ok, of x q] xl tl by (cases "x = q") (auto simp: good_def)
    then have "anchored N a ?s" using a x(1) rest by (auto simp: anchored_def all_candidates_def)
    then show ?thesis by blast
  next
    case False
    have "q \<in> set ?rest" if q: "good (arena s) q" "\<not> worse N s q t" for q
    proof -
      have "\<not> worse N s q x" if "a = Some x" for x
        using False that q a worse_rules(2) [OF ok, of q x t] tl by (auto simp: anchored_def good_def)
      then show ?thesis using a q rest by (auto simp: anchored_def all_candidates_def)
    qed
    then have "anchored N (Some t) ?s" using g by (auto simp: anchored_def all_candidates_def)
    then show ?thesis by blast
  qed
  ultimately have "search_inv N st0 ?s" using inv by (auto simp: search_inv_def chain_good_def)
  then show ?thesis by (simp add: PruneBlockIndexCandidates_def t Let_def)
qed

section \<open>One step towards the best chain\<close>

abbreviation work :: "arena \<Rightarrow> ptr \<Rightarrow> nat" where
  "work st p \<equiv> pn_val (nChainWork (st ! p))"

text \<open>The hash of the genesis block is that of a block without a parent.\<close>

definition genesis_root :: "('p, 's, 'r, 'b, 'z, 'd, 'e) node_env \<Rightarrow> arena \<Rightarrow> bool" where
  "genesis_root N st \<longleftrightarrow> (\<forall>p < length st. bi_hash (st ! p) = ne_HashGenesisBlock N \<longrightarrow> pprev (st ! p) = None)"

lemma genesis_root_evolves: "genesis_root N st \<Longrightarrow> evolves st st' \<Longrightarrow> genesis_root N st'"
  using evolves_fields(1,2) [of st st'] evolves_len [of st st'] by (simp add: genesis_root_def)

text \<open>What the parts of the step need of the blocks to connect, and what they leave.\<close>

definition connectable :: "arena \<Rightarrow> ptr \<Rightarrow> bool" where
  "connectable st p \<longleftrightarrow> p < length st \<and> nChainTx (st ! p) \<noteq> 0 \<and> \<not> bad_block (st ! p)"

lemma connectable_same_bad: "same_bad st st' \<Longrightarrow> connectable st p \<Longrightarrow> connectable st' p"
  using evolves_fields(5) [of st st' p] evolves_len [of st st'] by (simp add: connectable_def same_bad_def)

definition new_failure :: "arena \<Rightarrow> arena \<Rightarrow> bool" where
  "new_failure st st' \<longleftrightarrow> (\<exists>p < length st. \<not> fFailedChain (st ! p) \<and> fFailedChain (st' ! p))"

definition ahead :: "arena \<Rightarrow> ptr option \<Rightarrow> ptr option \<Rightarrow> bool" where
  "ahead st pold pnew \<longleftrightarrow> (\<exists>t < length st. pnew = Some t \<and> (\<forall>x. pold = Some x \<longrightarrow> work st x < work st t))"

definition step_post :: "('p, 's, 'r, 'b, 'z, 'd, 'e) node_env \<Rightarrow> arena \<Rightarrow> ptr option \<Rightarrow> ptr option \<Rightarrow> ('b, 'z, 'd, 'e) node
    \<Rightarrow> connect_end \<Rightarrow> CValidationState \<Rightarrow> ('b, 'z, 'd, 'e) node \<Rightarrow> bool" where
  "step_post N st0 pold target s e st' s' \<longleftrightarrow> search_inv N st0 s' \<and> evolves (arena s) (arena s') \<and>
     \<not> corruptionPossible st' \<and>
     (e = Connected \<longrightarrow> same_bad (arena s) (arena s') \<and> tip s' = target) \<and>
     (e = Better_tip \<longrightarrow> ahead (arena s') pold (tip s')) \<and>
     (e = Invalid_found \<longrightarrow> new_failure (arena s) (arena s'))"

lemma step_post_trans:
  assumes "same_bad (arena s) (arena s1)" "step_post N st0 pold target s1 e st' s'"
  shows "step_post N st0 pold target s e st' s'"
proof -
  have e: "evolves (arena s) (arena s1)" using assms(1) by (simp add: same_bad_def)
  have "new_failure (arena s) (arena s')" if "new_failure (arena s1) (arena s')"
    using that evolves_status(1) [OF e] evolves_len [OF e] by (auto simp: new_failure_def)
  then show ?thesis
    using assms evolves_trans [OF e] same_bad_trans [OF assms(1)] by (auto simp: step_post_def)
qed

lemma step_post_same:
  assumes "step_post N st0 pold target s e st' s1" "same_state s1 s'"
  shows "step_post N st0 pold target s e st' s'"
  using assms search_inv_same [OF assms(2)] by (auto simp: step_post_def same_state_def tip_def)

lemma tip_same: "chainActive s' = chainActive s \<Longrightarrow> tip s' = tip s"
  by (simp add: tip_def)

lemma CompareTo_work:
  "works_ok st \<Longrightarrow> p < length st \<Longrightarrow> q < length st \<Longrightarrow> CompareTo (nChainWork (st ! p)) (nChainWork (st ! q)) > 0 \<longleftrightarrow> work st q < work st p"
  by (auto simp: works_ok_def CompareTo_spec)

lemma connect_list_law:
  assumes env: "env_ok N" "intact_node N" "genesis_root N st0"
    and hash: "\<forall>b. pblock = Some b \<longrightarrow> header_GetHash (ne_sph N) b = bi_hash (st0 ! mw)"
    and old: "\<forall>x. pold = Some x \<longrightarrow> x < length st0"
  shows "search_inv N st0 s \<Longrightarrow> \<not> corruptionPossible st \<Longrightarrow> \<forall>p \<in> set ps. connectable (arena s) p \<Longrightarrow>
    holds_after (connect_list N mw pblock chk pold back ps st s)
      (\<lambda>(e, st', s'). step_post N st0 pold (if ps = [] then tip s else Some (last ps)) s e st' s')"
proof (induction ps arbitrary: st s)
  case Nil
  then show ?case by (simp add: step_post_def evolves_refl same_bad_def)
next
  case (Cons p ps)
  note inv = Cons.prems(1)
  have ok: "state_ok N s" and e0: "evolves st0 (arena s)" using inv by (auto simp: search_inv_def)
  have p: "p < length (arena s)" "nChainTx (arena s ! p) \<noteq> 0" "\<not> bad_block (arena s ! p)"
    using Cons.prems(3) by (auto simp: connectable_def)
  have pb: "\<forall>b. (if p = mw then pblock else None) = Some b \<longrightarrow> header_GetHash (ne_sph N) b = bi_hash (arena s ! p)"
    using hash evolves_fields(1) [OF e0, of p] p(1) evolves_len [OF e0] by auto
  have root: "bi_hash (arena s ! p) = ne_HashGenesisBlock N \<longrightarrow> pprev (arena s ! p) = None"
    using genesis_root_evolves [OF env(3) e0] p(1) by (simp add: genesis_root_def)
  note law = holds_after_conj [OF ConnectTip_law [OF env(1) state_ok_rules(2,3) [OF ok] p(1) pb root]
      ConnectTip_intact [OF env(2) Cons.prems(2)]]
  show ?case
    unfolding connect_list.simps holds_after_simps(4) [of "ConnectTip N st p (if p = mw then pblock else None) chk s"]
  proof (rule holds_after_mono [OF law], goal_cases)
    case (1 x)
    obtain c st1 s1 where x: "x = ((c, st1), s1)" by (metis surj_pair)
    have r: "pprev (arena s ! p) = tip s" "connected N p s c st1 s1" "\<not> corruptionPossible st1" using 1(2) x by auto
    show ?case
    proof (cases c)
      case False
      have f: "search_inv N st0 s1" "evolves (arena s) (arena s1)" "vs_IsInvalid st1 \<longrightarrow> fFailedChain (arena s1 ! p)"
        using connected_False [OF inv p(1,3) r(1)] r(2,3) False by auto
      have "step_post N st0 pold target s Invalid_found CValidationState_new s1" if "vs_IsInvalid st1" for target
        using f p that by (auto simp: step_post_def new_failure_def CValidationState_new_def bad_block_def intro!: exI [of _ p])
      then have inval: "step_post N st0 pold target s Invalid_found CValidationState_new s2"
        if "vs_IsInvalid st1" "same_state s1 s2" for target s2
        using step_post_same that by blast
      have "step_post N st0 pold target s System_error st1 s1" for target
        using f r(3) by (simp add: step_post_def)
      then show ?thesis
        using x False inval r(3) by (auto intro!: holds_after_mono [OF InvalidChainFound_same])
    next
      case True
      have t: "connected N p s True st1 s1" using r(2) True by simp
      from connected_True [OF inv p r(1) t] have s1: "search_inv N st0 s1" "tip s1 = Some p" and sb: "same_bad (arena s) (arena s1)" by simp_all
      show ?thesis
        unfolding x prod.case if_not_P [OF not_not [THEN iffD2, OF True]] holds_after_simps(4) [of "PruneBlockIndexCandidates N s1"]
      proof (rule holds_after_mono [OF Prune_law [OF s1]], goal_cases)
        case (1 s2)
        then have s2: "search_inv N st0 s2" "arena s2 = arena s1" "tip s2 = Some p"
            using s1(2) tip_same [of s2 s1] by simp_all
        have ok2: "works_ok (arena s2)"
          using s2(1) tree_facts_rules(3) [OF state_ok_rules(1)] by (auto simp: search_inv_def)
        have len: "length (arena s2) = length st0" using s2(1) evolves_len by (auto simp: search_inv_def)
        have p2: "p < length (arena s2)" using p(1) evolves_len [OF e0] len by simp
        have better: "step_post N st0 pold target s Better_tip st1 s2" if "ahead (arena s2) pold (Some p)" for target
          using s2 r(3) that sb by (auto simp: step_post_def same_bad_def)
        have rest: "holds_after (connect_list N mw pblock chk pold back ps st1 s2)
            (\<lambda>(e, st', s'). step_post N st0 pold (Some (last (p # ps))) s e st' s')"
        proof (rule holds_after_mono [OF Cons.IH [OF s2(1) r(3)]], goal_cases)
          case 1
          then show ?case using Cons.prems(3) connectable_same_bad [OF sb] s2(2) by simp
        next
          case (2 y)
          have "same_bad (arena s) (arena s2)" using sb s2(2) by simp
          from step_post_trans [OF this] 2(2) show ?case using s2(3) by (auto split: if_splits)
        qed
        show ?case
        proof (cases pold)
          case None
          then show ?thesis using better s2(3) p2 by (simp add: ahead_def)
        next
          case (Some x)
          then show ?thesis
            using better rest s2(3) p2 CompareTo_work [OF ok2 p2, of x] old len by (auto simp: ahead_def)
        qed
      qed
    qed
  qed
qed

text \<open>The list of blocks to connect: the ancestors above a height, highest first.\<close>

lemma collect_eq:
  "tree_ok st \<and> q < length st \<Longrightarrow>
    collect st h (Some q) v = Some (v @ takeWhile (\<lambda>x. nHeight (st ! x) \<noteq> h) (lineage st q))"
proof (induction q arbitrary: v rule: forest.forest_induct)
  case (node q)
  have "collect st h None v = Some v" for v by (simp add: collect.simps)
  then show ?case
    using node lineage_facts(1) [OF node.hyps] by (subst collect.simps) (auto split: option.split)
qed

lemma collected_above:
  "tree_ok st \<and> q < length st \<Longrightarrow> h \<le> nHeight (st ! q) \<Longrightarrow> x \<in> set (takeWhile (\<lambda>x. nHeight (st ! x) \<noteq> h) (lineage st q)) \<Longrightarrow>
    h < nHeight (st ! x)"
proof (induction q rule: forest.forest_induct)
  case (node q)
  show ?case
  proof (cases "nHeight (st ! q) = h \<or> x = q")
    case True
    then show ?thesis using node.prems lineage_facts(1) [OF node.hyps] by auto
  next
    case False
    then obtain r where r: "pprev (st ! q) = Some r" "x \<in> set (takeWhile (\<lambda>x. nHeight (st ! x) \<noteq> h) (lineage st r))"
      using node.prems(2) lineage_facts(1) [OF node.hyps] by (auto split: option.splits)
    then show ?thesis using node.IH [OF r(1)] forest.step [OF node.hyps r(1)] False node.prems(1) by simp
  qed
qed

lemma same_bad_refl: "same_bad st st"
  by (simp add: same_bad_def evolves_refl)

lemma lineage_same_bad:
  "same_bad st st' \<Longrightarrow> tree_ok st \<Longrightarrow> p < length st \<Longrightarrow> lineage st' p = lineage st p \<and> nHeight (st' ! p) = nHeight (st ! p)"
  using evolves_lineage [of st st' p] evolves_fields(3) [of st st' p] by (simp add: same_bad_def)

lemma connect_batches_law:
  assumes env: "env_ok N" "intact_node N" "genesis_root N st0"
    and hash: "\<forall>b. pblock = Some b \<longrightarrow> header_GetHash (ne_sph N) b = bi_hash (st0 ! mw)"
    and old: "\<forall>x. pold = Some x \<longrightarrow> x < length st0"
  shows "search_inv N st0 s \<Longrightarrow> \<not> corruptionPossible st \<Longrightarrow> mw < length (arena s) \<Longrightarrow> - 1 \<le> h \<Longrightarrow> h \<le> nHeight (arena s ! mw) \<Longrightarrow>
    \<forall>q \<in> set (lineage (arena s) mw). h < nHeight (arena s ! q) \<longrightarrow> connectable (arena s) q \<Longrightarrow>
    (h = nHeight (arena s ! mw) \<longrightarrow> tip s = Some mw) \<Longrightarrow>
    holds_after (connect_batches N mw pblock chk pold h st s)
      (\<lambda>(e, v, st', s'). step_post N st0 pold (Some mw) s e st' s' \<and>
        (e \<noteq> Connected \<longrightarrow> v \<noteq> [] \<and> last v < length (arena s)))"
proof (induction "nat (nHeight (arena s ! mw) - h)" arbitrary: s st h rule: less_induct)
  case less
  let ?st = "arena s"
  note inv = less.prems(1)
  have ok: "state_ok N s" using inv by (simp add: search_inv_def)
  have tree: "tree_ok ?st \<and> mw < length ?st" using state_ok_rules(2) [OF ok] less.prems(3) by simp
  show ?case
  proof (cases "h = nHeight (?st ! mw)")
    case True
    then show ?thesis
      using less.prems same_bad_refl by (subst connect_batches.simps) (auto simp: step_post_def evolves_refl)
  next
    case False
    define h' where "h' = min (h + 32) (nHeight (?st ! mw))"
    have h': "h < h'" "0 \<le> h'" "h' \<le> nHeight (?st ! mw)" using False less.prems(4,5) by (auto simp: h'_def)
    obtain q where q: "GetAncestor ?st mw h' = Some (Some q)" "q < length ?st" "nHeight (?st ! q) = h'"
      "anc (parent ?st) (nat (nHeight (?st ! mw) - h')) mw = Some q"
      using GetAncestor_Some [of ?st mw h'] tree h' by auto
    have qm: "q \<in> set (lineage ?st mw)" using forest.lineage_mem [OF tree] q(4) by auto
    let ?v = "takeWhile (\<lambda>x. nHeight (?st ! x) \<noteq> h) (lineage ?st q)"
    have okq: "tree_ok ?st \<and> q < length ?st" using tree q(2) by simp
    have v: "?v \<noteq> []" "hd ?v = q" using lineage_facts(1) [OF okq] h'(1) q(3) by auto
    have mem: "x \<in> set (lineage ?st mw) \<and> h < nHeight (?st ! x)" if "x \<in> set ?v" for x
      using collected_above [OF okq _ that] h'(1) q(3) set_takeWhileD [OF that] lineage_sub [OF tree qm] by auto
    then have con: "\<forall>x \<in> set (rev ?v). connectable ?st x" using less.prems(6) by auto
    have lv: "last ?v < length ?st" using con v(1) by (simp add: connectable_def)
    have "last (rev ?v) = q" using v by (simp add: last_rev)
    then have law: "holds_after (connect_list N mw pblock chk pold (last ?v) (rev ?v) st s)
        (\<lambda>(e, st', s'). step_post N st0 pold (Some q) s e st' s')"
      using connect_list_law [OF env hash old inv less.prems(2) con] v(1) by simp
    show ?thesis
      unfolding connect_batches.simps [of N mw pblock chk pold h st s] if_not_P [OF False] Let_def h'_def [symmetric]
        q(1) option.case collect_eq [OF okq] append_Nil
        holds_after_simps(4) [of "connect_list N mw pblock chk pold (last ?v) (rev ?v) st s"]
    proof (rule holds_after_mono [OF law], goal_cases)
      case (1 x)
      obtain e st1 s1 where x: "x = (e, st1, s1)" by (metis prod_cases3)
      then have post: "step_post N st0 pold (Some q) s e st1 s1" using 1(2) by simp
      show ?case
      proof (cases "e = Connected")
        case False
        then have "step_post N st0 pold (Some mw) s e st1 s1" using post by (simp add: step_post_def)
        then show ?thesis using x False v(1) lv by simp
      next
        case True
        then have sb: "same_bad ?st (arena s1)" and s1: "search_inv N st0 s1" "\<not> corruptionPossible st1" "tip s1 = Some q"
          using post by (auto simp: step_post_def)
        have ev: "evolves ?st (arena s1)" using sb by (simp add: same_bad_def)
        note l = lineage_same_bad [OF sb conjunct1 [OF tree] conjunct2 [OF tree]]
        have ht: "nHeight (arena s1 ! x) = nHeight (?st ! x)" if "x \<in> set (lineage ?st mw)" for x
          using evolves_fields(3) [OF ev] lineage_subset that tree by blast
        have "holds_after (connect_batches N mw pblock chk pold h' st1 s1)
            (\<lambda>(e, v, st', s'). step_post N st0 pold (Some mw) s1 e st' s' \<and>
              (e \<noteq> Connected \<longrightarrow> v \<noteq> [] \<and> last v < length (arena s1)))"
        proof (rule less.hyps)
          show "nat (nHeight (arena s1 ! mw) - h') < nat (nHeight (?st ! mw) - h)" using l h' by simp
          show "mw < length (arena s1)" using less.prems(3) evolves_len [OF ev] by simp
          show "- 1 \<le> h'" "h' \<le> nHeight (arena s1 ! mw)" using h' l by simp_all
          show "\<forall>q \<in> set (lineage (arena s1) mw). h' < nHeight (arena s1 ! q) \<longrightarrow> connectable (arena s1) q"
            using l ht less.prems(6) h'(1) connectable_same_bad [OF sb] by fastforce
          show "h' = nHeight (arena s1 ! mw) \<longrightarrow> tip s1 = Some mw"
            using lineage_same [OF tree qm lineage_self [OF tree]] q(3) l s1(3) by auto
        qed (use s1 in simp_all)
        then have "holds_after (connect_batches N mw pblock chk pold h' st1 s1)
            (\<lambda>(e, v, st', s'). step_post N st0 pold (Some mw) s e st' s' \<and>
              (e \<noteq> Connected \<longrightarrow> v \<noteq> [] \<and> last v < length ?st))"
          by (rule holds_after_mono) (use step_post_trans [OF sb] evolves_len [OF ev] in auto)
        then show ?thesis using x True by simp
      qed
    qed
  qed
qed

text \<open>Disconnecting down to the fork.\<close>

lemma disconnect_to_law:
  assumes f: "\<forall>x. f = Some x \<longrightarrow> (\<forall>t. tip s = Some t \<longrightarrow> x \<in> set (lineage (arena s) t)) \<and> tip s \<noteq> None"
  shows "search_inv N st0 s \<Longrightarrow> \<not> corruptionPossible st \<Longrightarrow>
    holds_after (disconnect_to N f st s) (\<lambda>((ok, st'), s'). search_inv N st0 s' \<and> \<not> corruptionPossible st' \<and>
      arena s' = arena s \<and> setBlockIndexCandidates s' = setBlockIndexCandidates s \<and> (ok \<longrightarrow> tip s' = f))"
  using f
proof (induction "length (chainActive s)" arbitrary: s st rule: less_induct)
  case less
  note inv = less.prems(1)
  have ok: "state_ok N s" using inv by (simp add: search_inv_def)
  show ?case
  proof (cases "tip s = None \<or> tip s = f")
    case True
    then show ?thesis using less.prems by (subst disconnect_to.simps) auto
  next
    case False
    then obtain t where t: "tip s = Some t" "f \<noteq> Some t" by auto
    have tl: "t < length (arena s)" "chainActive s = path_to (arena s) t"
      using chain_ok_tip(2) [OF state_ok_rules(2,3) [OF ok] t(1)] by auto
    have okt: "tree_ok (arena s) \<and> t < length (arena s)" using state_ok_rules(2) [OF ok] tl(1) by simp
    let ?q = "pprev (arena s ! t)"
    let ?s = "s\<lparr> chainActive := chain_of (arena s) ?q \<rparr>"
    have inv': "search_inv N st0 ?s" by (rule search_inv_shorten [OF inv t(1)])
    have short: "length (chain_of (arena s) ?q) < length (chainActive s)"
      using path_to_rec [of "arena s" t] okt tl(2) by (auto simp: chain_of_def split: option.split)
    have tip_q: "tip ?s = ?q"
      using tip_path [of ?s] parent_in [of "arena s" t] okt by (cases ?q) (auto simp: chain_of_def tip_def)
    have f': "\<forall>x. f = Some x \<longrightarrow> (\<forall>t. tip ?s = Some t \<longrightarrow> x \<in> set (lineage (arena s) t)) \<and> tip ?s \<noteq> None"
      using less.prems(3) t lineage_facts(1) [OF okt] unfolding tip_q by (auto split: option.splits)
    have law: "holds_after (DisconnectTip N st s) (\<lambda>((c, st'), s'). (\<exists>t. tip s = Some t \<and>
        same_state (if c then s\<lparr> chainActive := chain_of (arena s) (pprev (arena s ! t)) \<rparr> else s) s') \<and> \<not> corruptionPossible st')"
      using holds_after_conj [OF DisconnectTip_law [OF state_ok_rules(2,3) [OF ok]] DisconnectTip_intact [OF less.prems(2)]]
      by (rule holds_after_mono) auto
    show ?thesis
      unfolding disconnect_to.simps [of N f st s] tip_of_tip run_bind_simps if_not_P [OF False] holds_after_simps(4) [of "DisconnectTip N st s"]
    proof (rule holds_after_mono [OF law], goal_cases)
      case (1 x)
      obtain c st1 s1 where x: "x = ((c, st1), s1)" by (metis surj_pair)
      then have r: "same_state (if c then ?s else s) s1" "\<not> corruptionPossible st1" using 1(2) t(1) by auto
      show ?case
      proof (cases c)
        case False
        then have "same_state s s1" using r(1) by simp
        then show ?thesis using x False r(2) search_inv_same inv by (auto simp: same_state_def)
      next
        case True
        then have same: "same_state ?s s1" using r(1) by simp
        then have s1: "arena s1 = arena s" "chainActive s1 = chain_of (arena s) ?q"
          "setBlockIndexCandidates s1 = setBlockIndexCandidates s" by (simp_all add: same_state_def)
        have "tip s1 = tip ?s" by (rule tip_same) (use s1 in simp)
        then have "\<forall>x. f = Some x \<longrightarrow> (\<forall>t. tip s1 = Some t \<longrightarrow> x \<in> set (lineage (arena s1) t)) \<and> tip s1 \<noteq> None"
          using f' s1(1) by simp
        then have "holds_after (disconnect_to N f st1 s1) (\<lambda>((ok, st'), s'). search_inv N st0 s' \<and> \<not> corruptionPossible st' \<and>
            arena s' = arena s1 \<and> setBlockIndexCandidates s' = setBlockIndexCandidates s1 \<and> (ok \<longrightarrow> tip s' = f))"
          using less.hyps [of s1 st1] short s1(2) search_inv_same [OF same inv'] r(2) by simp
        then show ?thesis using x True s1 by simp
      qed
    qed
  qed
qed

lemma lineage_has_tx:
  assumes "tree_facts N st"
  shows "tree_ok st \<and> p < length st \<Longrightarrow> nChainTx (st ! p) \<noteq> 0 \<Longrightarrow> q \<in> set (lineage st p) \<Longrightarrow> nChainTx (st ! q) \<noteq> 0"
proof (induction p rule: forest.forest_induct)
  case (node p)
  then show ?case
    using lineage_facts(1) [OF node.hyps] tree_facts_rules(6) [OF assms, of p] by (auto split: option.splits)
qed

text \<open>The fork is the highest ancestor on the active chain; above it lies the way to the block.\<close>

lemma above_fork:
  assumes tree: "tree_ok st \<and> p < length st" and f: "find (Contains st ch) (lineage st p) = f"
    and q: "q \<in> set (lineage st p)" "\<forall>x. f = Some x \<longrightarrow> nHeight (st ! x) < nHeight (st ! q)"
  shows "q \<in> set (way st ch p)"
proof (cases f)
  case None
  then have "\<forall>x \<in> set (lineage st p). \<not> Contains st ch x" using f by (simp add: find_None_iff)
  then have "way st ch p = lineage st p" by (simp add: way_def)
  then show ?thesis using q(1) by simp
next
  case (Some x)
  obtain i where i: "i < length (lineage st p)" "Contains st ch (lineage st p ! i)" "lineage st p ! i = x"
    "\<forall>j < i. \<not> Contains st ch (lineage st p ! j)" using f Some by (auto simp: find_Some_iff)
  obtain j where j: "j < length (lineage st p)" "lineage st p ! j = q" "nHeight (st ! q) = nHeight (st ! p) - int j"
    using lineage_in [OF tree q(1)] by blast
  have "nHeight (st ! x) = nHeight (st ! p) - int i"
    using forest.lineage_ht [OF tree, of i] i(1,3) by simp
  then have "j < i" using q(2) Some j(3) by auto
  have "way st ch p = take i (lineage st p)"
    unfolding way_def using i by (intro takeWhile_eq_take_P_nth) auto
  then show ?thesis using \<open>j < i\<close> j i(1) by (metis in_set_conv_nth length_take min.absorb4 nth_take)
qed

lemma ActivateBestChainStep_law:
  assumes env: "env_ok N" "intact_node N" "genesis_root N st0"
    and hash: "\<forall>b. pblock = Some b \<longrightarrow> header_GetHash (ne_sph N) b = bi_hash (st0 ! mw)"
    and inv: "search_inv N st0 s" and st: "\<not> corruptionPossible st"
    and mw: "mw < length (arena s)" "nChainTx (arena s ! mw) \<noteq> 0" "usable (arena s) (chainActive s) mw"
  shows "holds_after (ActivateBestChainStep N st mw pblock chk s) (\<lambda>((ok, st'), s').
    search_inv N st0 s' \<and> evolves (arena s) (arena s') \<and> \<not> corruptionPossible st' \<and>
    (ok \<longrightarrow> tip s' = Some mw \<or> new_failure (arena s) (arena s') \<or> ahead (arena s') (tip s) (tip s')))"
proof -
  let ?st = "arena s" and ?ch = "chainActive s"
  have ok: "state_ok N s" and e0: "evolves st0 ?st" using inv by (auto simp: search_inv_def)
  note sr = state_ok_rules [OF ok]
  have tree: "tree_ok ?st \<and> mw < length ?st" using sr(2) mw(1) by simp
  define f where "f = find (Contains ?st ?ch) (lineage ?st mw)"
  define h where "h = (case f of None \<Rightarrow> - 1 | Some x \<Rightarrow> nHeight (?st ! x))"
  have fork: "FindFork ?st ?ch (Some mw) = Some f"
    using FindFork_is_first_shared [OF sr(2) mw(1)] by (simp add: f_def)
  have fx: "x \<in> set (lineage ?st mw) \<and> Contains ?st ?ch x" if "f = Some x" for x
    using that by (auto simp: f_def find_Some_iff)
  have pold: "\<forall>x. tip s = Some x \<longrightarrow> x < length st0"
    using chain_ok_tip(2) [OF sr(2,3)] evolves_len [OF e0] by auto
  have on: "\<forall>x. f = Some x \<longrightarrow> (\<forall>t. tip s = Some t \<longrightarrow> x \<in> set (lineage ?st t)) \<and> tip s \<noteq> None"
  proof (intro allI impI)
    fix x assume x: "f = Some x"
    then have "?ch \<noteq> []" "x < length ?st"
      using fx [OF x] lineage_subset [OF sr(2) mw(1)] by (auto simp: Contains_def chain_at_def split: if_splits)
    then show "(\<forall>t. tip s = Some t \<longrightarrow> x \<in> set (lineage ?st t)) \<and> tip s \<noteq> None"
      using chain_ok_tip [OF sr(2,3)] fx [OF x] Contains_path [OF sr(2)] by auto
  qed
  have h: "- 1 \<le> h \<and> h \<le> nHeight (?st ! mw)"
  proof (cases f)
    case None
    then show ?thesis using forest.nonneg [OF tree] by (simp add: h_def)
  next
    case (Some x)
    then have "x \<in> set (lineage ?st mw)" "x < length ?st" using fx lineage_subset [OF sr(2) mw(1)] by auto
    then show ?thesis using Some lineage_low [OF tree] forest.nonneg [of ?st x] sr(2) by (auto simp: h_def)
  qed
  have con: "connectable ?st q" if q: "q \<in> set (lineage ?st mw)" "h < nHeight (?st ! q)" for q
  proof -
    have "q \<in> set (way ?st ?ch mw)"
      by (rule above_fork [OF tree f_def [symmetric] q(1)]) (use q(2) in \<open>auto simp: h_def\<close>)
    then have "\<not> bad_block (?st ! q)" using mw(3) by (simp add: usable_def)
    then show ?thesis
      using lineage_has_tx [OF sr(1) tree mw(2) q(1)] lineage_subset [OF sr(2) mw(1) q(1)] by (simp add: connectable_def)
  qed
  have top: "f = Some mw" if "h = nHeight (?st ! mw)"
    using that fx lineage_same [OF tree _ lineage_self [OF tree]] forest.nonneg [OF tree]
    by (auto simp: h_def split: option.splits)
  show ?thesis
    unfolding ActivateBestChainStep_def tip_of_tip run_bind_simps fork option.case holds_after_simps(4) [of "disconnect_to N f st s"]
  proof (rule holds_after_mono [OF disconnect_to_law [OF on inv st]], goal_cases)
    case (1 x)
    obtain c st1 s1 where x: "x = ((c, st1), s1)" by (metis surj_pair)
    then have s1: "search_inv N st0 s1" "\<not> corruptionPossible st1" "arena s1 = ?st" "c \<longrightarrow> tip s1 = f"
      using 1(2) by auto
    show ?case
    proof (cases c)
      case False
      then show ?thesis using x s1 by (simp add: evolves_refl)
    next
      case True
      let ?chk = "chk \<and> pblock \<noteq> None"
      have hh: "(case f of None \<Rightarrow> - 1 | Some g \<Rightarrow> nHeight (arena s1 ! g)) = h" by (cases f) (simp_all add: h_def s1(3))
      have law: "holds_after (connect_batches N mw pblock ?chk (tip s) h st1 s1)
          (\<lambda>(e, v, st', s'). step_post N st0 (tip s) (Some mw) s1 e st' s' \<and>
            (e \<noteq> Connected \<longrightarrow> v \<noteq> [] \<and> last v < length (arena s1)))"
        by (rule connect_batches_law [OF env hash pold s1(1,2)]) (use s1(3,4) True h con top mw(1) in auto)
      show ?thesis
        unfolding x prod.case if_not_P [OF not_not [THEN iffD2, OF True]] hh
          holds_after_simps(4) [of "connect_batches N mw pblock ?chk (tip s) h st1 s1"]
      proof (rule holds_after_mono [OF law], goal_cases)
        case (1 y)
        obtain e v st2 s2 where y: "y = (e, v, st2, s2)" by (metis prod_cases4)
        have post: "step_post N st0 (tip s) (Some mw) s1 e st2 s2" and v: "e \<noteq> Connected \<longrightarrow> last v < length (arena s2)"
          using 1(2) y evolves_len [of "arena s1" "arena s2"] by (auto simp: step_post_def)
        have ok2: "state_ok N s2" using post by (simp add: step_post_def search_inv_def)
        have warn: "holds_after (if e = Invalid_found then CheckForkWarningConditionsOnNewFork N (last v) s2
            else CheckForkWarningConditions N s2) (same_state s2)"
          using v CheckForkWarningConditionsOnNewFork_same [OF state_ok_rules(2,3) [OF ok2], of "last v" N]
          by (cases "e = Invalid_found") (simp_all add: CheckForkWarningConditions_same)
        show ?case
        proof (cases "e = System_error")
          case True
          then show ?thesis using post y s1(3) by (simp add: step_post_def)
        next
          case False
          show ?thesis
            unfolding y prod.case if_not_P [OF False] holds_after_simps(4)
          proof (rule holds_after_mono [OF warn], goal_cases)
            case (1 s3)
            have "step_post N st0 (tip s) (Some mw) s1 e st2 s3" using step_post_same [OF post 1(2)] .
            then show ?case using s1(3) False by (cases e) (auto simp: step_post_def)
          qed
        qed
      qed
    qed
  qed
qed

section \<open>The loop\<close>

text \<open>Every round that is not the last finds a block invalid that had not failed, or reaches a tip with more work.\<close>

definition healthy :: "arena \<Rightarrow> ptr set" where
  "healthy st = {p. p < length st \<and> \<not> fFailedChain (st ! p)}"

definition heavier :: "arena \<Rightarrow> ptr option \<Rightarrow> ptr set" where
  "heavier st pold = {p. p < length st \<and> (\<forall>t. pold = Some t \<longrightarrow> work st t < work st p)}"

definition rounds_left :: "('b, 'z, 'd, 'e) node \<Rightarrow> nat \<times> nat" where
  "rounds_left s = (card (healthy (arena s)), card (heavier (arena s) (tip s)))"

lemma healthy_evolves: "evolves st st' \<Longrightarrow> healthy st' \<subseteq> healthy st"
  using evolves_status(1) [of st st'] evolves_len [of st st'] by (auto simp: healthy_def)

lemma healthy_new_failure: "evolves st st' \<Longrightarrow> new_failure st st' \<Longrightarrow> card (healthy st') < card (healthy st)"
  using healthy_evolves [of st st'] by (intro psubset_card_mono) (auto simp: healthy_def new_failure_def)

lemma rounds_decrease:
  assumes "evolves (arena s) (arena s')" "new_failure (arena s) (arena s') \<or> ahead (arena s') (tip s) (tip s')"
    and t: "\<forall>t. tip s = Some t \<longrightarrow> t < length (arena s)"
  shows "(rounds_left s', rounds_left s) \<in> less_than <*lex*> less_than"
proof (cases "new_failure (arena s) (arena s')")
  case True
  then show ?thesis using healthy_new_failure [OF assms(1)] by (simp add: rounds_left_def)
next
  case False
  then obtain x where x: "x < length (arena s')" "tip s' = Some x"
    "\<forall>y. tip s = Some y \<longrightarrow> work (arena s') y < work (arena s') x" using assms(2) by (auto simp: ahead_def)
  have len: "length (arena s') = length (arena s)" by (rule evolves_len [OF assms(1)])
  have w: "work (arena s') p = work (arena s) p" if "p < length (arena s)" for p
    using evolves_fields(4) [OF assms(1) that] by simp
  have "heavier (arena s') (tip s') \<subset> heavier (arena s) (tip s)"
  proof
    show "heavier (arena s') (tip s') \<subseteq> heavier (arena s) (tip s)"
      using x len w t by (fastforce simp: heavier_def)
    have "x \<in> heavier (arena s) (tip s)" "x \<notin> heavier (arena s') (tip s')" using x len w t by (auto simp: heavier_def)
    then show "heavier (arena s') (tip s') \<noteq> heavier (arena s) (tip s)" by blast
  qed
  then have "card (heavier (arena s') (tip s')) < card (heavier (arena s) (tip s))"
    by (rule psubset_card_mono [rotated]) (simp add: heavier_def)
  moreover have "card (healthy (arena s')) \<le> card (healthy (arena s))"
    using healthy_evolves [OF assms(1)] by (rule card_mono [rotated]) (simp add: healthy_def)
  ultimately show ?thesis by (auto simp: rounds_left_def)
qed

text \<open>Every good block is the tip or worse than it.\<close>

definition best_tip :: "('p, 's, 'r, 'b, 'z, 'd, 'e) node_env \<Rightarrow> ('b, 'z, 'd, 'e) node \<Rightarrow> bool" where
  "best_tip N s \<longleftrightarrow> (\<forall>q. good (arena s) q \<longrightarrow> (\<exists>t. tip s = Some t \<and> (q = t \<or> worse N s q t)))"

lemma best_usable_is_best:
  assumes inv: "search_inv N st0 s" and nl: "\<not> lost st0 (arena s)" and q: "good (arena s) q"
    and best: "\<forall>x \<in> set (setBlockIndexCandidates s). usable (arena s) (chainActive s) x \<longrightarrow> x = m \<or> worse N s x m"
    and m: "m < length (arena s)"
  shows "q = m \<or> worse N s q m"
proof -
  have ok: "state_ok N s" using inv by (simp add: search_inv_def)
  obtain a where a: "anchored N a s" using inv nl by (auto simp: search_inv_def)
  have cand: "x = m \<or> worse N s x m" if "good (arena s) x" "\<forall>t. a = Some t \<longrightarrow> \<not> worse N s x t" for x
    using that a best good_usable by (auto simp: anchored_def all_candidates_def)
  show ?thesis
  proof (cases "\<forall>t. a = Some t \<longrightarrow> \<not> worse N s q t")
    case True
    then show ?thesis using cand q by blast
  next
    case False
    then obtain t where t: "a = Some t" "worse N s q t" by blast
    then have g: "good (arena s) t" using a by (simp add: anchored_def)
    then have "t = m \<or> worse N s t m" using cand t(1) worse_rules(1) [OF ok] by (auto simp: good_def)
    then show ?thesis using t(2) worse_rules(2) [OF ok _ _ m t(2)] q g by (auto simp: good_def)
  qed
qed

lemma no_candidates:
  assumes "search_inv N st0 s" "\<not> lost st0 (arena s)" "setBlockIndexCandidates s = []"
  shows "\<not> good (arena s) q"
proof
  assume q: "good (arena s) q"
  have ok: "state_ok N s" using assms(1) by (simp add: search_inv_def)
  obtain a where a: "anchored N a s" using assms(1,2) by (auto simp: search_inv_def)
  then show False
    using assms(3) q worse_rules(1) [OF ok] by (cases a) (auto simp: anchored_def all_candidates_def good_def)
qed

lemma ActivateBestChain_law:
  assumes env: "env_ok N" "intact_node N" "genesis_root N st0"
  shows "search_inv N st0 s \<Longrightarrow> \<not> corruptionPossible st \<Longrightarrow>
    holds_after (ActivateBestChain N st pblock chk s)
      (\<lambda>((ok, st'), s'). search_inv N st0 s' \<and> (ok \<longrightarrow> lost st0 (arena s') \<or> best_tip N s'))"
proof (induction "rounds_left s" arbitrary: s st rule: wf_induct_rule [OF wf_lex_prod [OF wf_less_than wf_less_than]])
  case (1 s)
  note inv = "1.prems"(1)
  have ok: "state_ok N s" using inv by (simp add: search_inv_def)
  obtain r sF where F: "FindMostWorkChain N s = returns (r, sF)" "discards N s sF"
    and r: "case r of None \<Rightarrow> setBlockIndexCandidates sF = []
      | Some p \<Rightarrow> p \<in> set (setBlockIndexCandidates sF) \<and> usable (arena sF) (chainActive sF) p \<and>
          (\<forall>q \<in> set (setBlockIndexCandidates sF). q = p \<or> worse N sF q p)"
    using FindMostWorkChain_spec [OF ok] by blast
  have sF: "search_inv N st0 sF" by (rule search_inv_discards [OF inv F(2)])
  have okF: "state_ok N sF" using sF by (simp add: search_inv_def)
  have eF: "evolves (arena s) (arena sF)" and tipF: "tip sF = tip s" using F(2) by (auto simp: discards_def tip_def)
  have e0: "evolves st0 (arena sF)" using sF by (simp add: search_inv_def)
  show ?case
  proof (cases r)
    case None
    then have "lost st0 (arena sF) \<or> best_tip N sF" using no_candidates [OF sF] r by (auto simp: best_tip_def)
    then show ?thesis using F(1) None sF by (subst ActivateBestChain.simps) simp
  next
    case (Some mw)
    have c: "mw \<in> set (setBlockIndexCandidates sF)" "usable (arena sF) (chainActive sF) mw"
      "\<forall>q \<in> set (setBlockIndexCandidates sF). q = mw \<or> worse N sF q mw" using r Some by simp_all
    note cl = candidate_facts [OF okF c(1)]
    have best: "lost st0 (arena sF) \<or> q = mw \<or> worse N sF q mw" if "good (arena sF) q" for q
      using best_usable_is_best [OF sF _ that _ cl(1)] c(3) by blast
    show ?thesis
    proof (cases "tip sF = Some mw")
      case True
      then have "lost st0 (arena sF) \<or> best_tip N sF" using best by (auto simp: best_tip_def)
      then show ?thesis using F(1) Some True sF by (subst ActivateBestChain.simps) simp
    next
      case False
      let ?b = "case pblock of None \<Rightarrow> None
        | Some b \<Rightarrow> if header_GetHash (ne_sph N) b = bi_hash (arena sF ! mw) then Some b else None"
      have hash: "\<forall>b. ?b = Some b \<longrightarrow> header_GetHash (ne_sph N) b = bi_hash (st0 ! mw)"
        using evolves_fields(1) [OF e0, of mw] cl(1) evolves_len [OF e0] by (auto split: option.splits if_splits)
      have ne: "\<not> (Some mw = None \<or> Some mw = tip sF)" using False by auto
      show ?thesis
        unfolding ActivateBestChain.simps [of N st pblock chk s] F(1) run_bind_simps prod.case tip_of_tip Some if_not_P [OF ne]
          Let_def option.sel holds_after_simps(4) [of "ActivateBestChainStep N st mw ?b chk sF"]
      proof (rule holds_after_mono [OF ActivateBestChainStep_law [OF env hash sF "1.prems"(2) cl c(2)]], goal_cases)
        case (1 x)
        obtain k st1 s1 where x: "x = ((k, st1), s1)" by (metis surj_pair)
        then have s1: "search_inv N st0 s1" "evolves (arena sF) (arena s1)" "\<not> corruptionPossible st1"
          "k \<longrightarrow> tip s1 = Some mw \<or> new_failure (arena sF) (arena s1) \<or> ahead (arena s1) (tip sF) (tip s1)"
          using 1(2) by auto
        show ?case
        proof (cases k)
          case False
          then show ?thesis using x s1(1) by simp
        next
          case True
          show ?thesis
            unfolding x prod.case if_not_P [OF not_not [THEN iffD2, OF True]] holds_after_simps(4) [of "IsInitialBlockDownload_now N s1"]
          proof (rule holds_after_mono [OF initial_same], goal_cases)
            case (1 y)
            obtain i s2 where y: "y = (i, s2)" by (cases y)
            then have same: "same_state s1 s2" using 1(2) by simp
            then have s2: "search_inv N st0 s2" "arena s2 = arena s1" "tip s2 = tip s1"
              using search_inv_same s1(1) tip_same by (auto simp: same_state_def)
            have e2: "evolves (arena sF) (arena s2)" using s1(2) s2(2) by simp
            show ?case
            proof (cases "tip s2 = Some mw")
              case True
              have "best_tip N s3 \<or> lost st0 (arena s3)" if s3: "same_state s2 s3" for s3
              proof -
                have "tip s3 = tip s2" by (rule tip_same) (use s3 in \<open>simp add: same_state_def\<close>)
                then have e3: "evolves (arena sF) (arena s3)" and t3: "tip s3 = Some mw"
                  using s3 e2 True by (simp_all add: same_state_def)
                have "lost st0 (arena s3) \<or> q = mw \<or> worse N s3 q mw" if q: "good (arena s3) q" for q
                proof -
                  have g: "good (arena sF) q" by (rule good_evolves [OF state_ok_rules(2) [OF okF] e3 q])
                  then show ?thesis
                    using best [OF g] lost_evolves [OF _ e0 e3] evolves_comparator [OF e3, of q mw] cl(1) by (auto simp: good_def)
                qed
                then show ?thesis using t3 by (auto simp: best_tip_def)
              qed
              then have "holds_after (FlushStateToDisk N st1 FLUSH_STATE_PERIODIC s2)
                  (\<lambda>((ok, st'), s'). search_inv N st0 s' \<and> (ok \<longrightarrow> lost st0 (arena s') \<or> best_tip N s'))"
                by (intro holds_after_mono [OF FlushStateToDisk_same]) (use search_inv_same s2(1) in blast)
              then show ?thesis using y True by simp
            next
              case False
              have "new_failure (arena s) (arena s2) \<or> ahead (arena s2) (tip s) (tip s2)"
                using s1(4) True False s2(2,3) tipF evolves_status(1) [OF eF] evolves_len [OF eF] by (auto simp: new_failure_def)
              then have "(rounds_left s2, rounds_left s) \<in> less_than <*lex*> less_than"
                using rounds_decrease [OF evolves_trans [OF eF e2]] chain_ok_tip(2) [OF state_ok_rules(2,3) [OF ok]] by blast
              then have "holds_after (ActivateBestChain N st1 pblock chk s2)
                  (\<lambda>((ok, st'), s'). search_inv N st0 s' \<and> (ok \<longrightarrow> lost st0 (arena s') \<or> best_tip N s'))"
                using "1.hyps" s2(1) s1(3) by blast
              then show ?thesis using y False by (cases i) simp_all
            qed
          qed
        qed
      qed
    qed
  qed
qed

section \<open>What \<open>ActivateBestChain\<close> achieves\<close>


lemma sample_env_ok: "env_ok sample_env" "intact_node sample_env"
  by (simp_all add: env_ok_def intact_node_def intact_env_def sample_env_def quiet_env_def quiet_block_env_def)


end
